(* ===== verification/Flb_Prelude.thy ===== *)
theory Flb_Prelude
  imports Main "HOL-Library.Word"
begin

text \<open>
  Shared vocabulary of the development: the widths of the C integer types, C strings and the
  few string routines of the C library the sources call, intrusive lists, and the generic
  lemmas on words and lists that more than one component uses.

  Conventions. A C string is the list of its bytes without the terminating NUL; a pointer that
  may be NULL is an option. \<open>size_t\<close> and \<open>uint64_t\<close> are 64-bit words, \<open>int\<close> values that only
  index or count are HOL integers. An intrusive list (\<open>mk_list\<close>, \<open>cfl_list\<close>) is the HOL list of
  its entries in link order: \<open>mk_list_add\<close> appends, \<open>mk_list_del\<close> removes one entry.
\<close>

unbundle bit_operations_syntax

section \<open>Types and lemma collections\<close>

type_synonym u8 = "8 word"
type_synonym u32 = "32 word"
type_synonym u64 = "64 word"
type_synonym size_t = "64 word"
type_synonym addr = nat
type_synonym cstring = "char list"

named_theorems flb_defs \<open>definitions unfolded together by the component proofs\<close>
named_theorems flb_frame \<open>fields an operation leaves alone\<close>

section \<open>C strings\<close>

definition NUL :: char where
  "NUL = CHR 0x00"

text \<open>
  \<open>tolower\<close>, \<open>isspace\<close> and \<open>isdigit\<close> of the C locale, on a byte.
\<close>

definition c_tolower :: "char \<Rightarrow> char" where
  "c_tolower c =
     (let n = of_char c :: nat in if 65 \<le> n \<and> n \<le> 90 then char_of (n + 32) else c)"

definition c_isspace :: "char \<Rightarrow> bool" where
  "c_isspace c = (c = CHR '' '' \<or> c = CHR 0x09 \<or> c = CHR 0x0A \<or> c = CHR 0x0B
                  \<or> c = CHR 0x0C \<or> c = CHR 0x0D)"

definition c_isdigit :: "char \<Rightarrow> bool" where
  "c_isdigit c = (let n = of_char c :: nat in 48 \<le> n \<and> n \<le> 57)"

text \<open>
  \<open>strncmp(a, b, n) == 0\<close>: the bytes before the first NUL agree, within the first \<open>n\<close>. A list
  shorter than \<open>n\<close> stands for memory that continues with a NUL.
\<close>

definition strncmp_eq :: "cstring \<Rightarrow> cstring \<Rightarrow> nat \<Rightarrow> bool" where
  "strncmp_eq a b n =
     (takeWhile (\<lambda>c. c \<noteq> NUL) (take n a) = takeWhile (\<lambda>c. c \<noteq> NUL) (take n b))"

definition strncasecmp_eq :: "cstring \<Rightarrow> cstring \<Rightarrow> nat \<Rightarrow> bool" where
  "strncasecmp_eq a b n =
     (map c_tolower (takeWhile (\<lambda>c. c \<noteq> NUL) (take n a))
      = map c_tolower (takeWhile (\<lambda>c. c \<noteq> NUL) (take n b)))"

text \<open>\<open>strcmp(a, b) == 0\<close> and \<open>strcasecmp(a, b) == 0\<close>.\<close>

definition c_str :: "cstring \<Rightarrow> cstring" where
  "c_str s = takeWhile (\<lambda>c. c \<noteq> NUL) s"

definition strcmp_eq :: "cstring \<Rightarrow> cstring \<Rightarrow> bool" where
  "strcmp_eq a b \<longleftrightarrow> c_str a = c_str b"

definition strcasecmp_eq :: "cstring \<Rightarrow> cstring \<Rightarrow> bool" where
  "strcasecmp_eq a b \<longleftrightarrow> map c_tolower (c_str a) = map c_tolower (c_str b)"

lemma strncmp_eq_refl [simp]: "strncmp_eq a a n"
  by (simp add: strncmp_eq_def)

lemma strncasecmp_eq_refl [simp]: "strncasecmp_eq a a n"
  by (simp add: strncasecmp_eq_def)

lemma strncmp_eq_sym: "strncmp_eq a b n = strncmp_eq b a n"
  by (auto simp: strncmp_eq_def)

lemma strncasecmp_eq_sym: "strncasecmp_eq a b n = strncasecmp_eq b a n"
  by (auto simp: strncasecmp_eq_def)

lemma strncmp_eq_trans:
  "strncmp_eq a b n \<Longrightarrow> strncmp_eq b c n \<Longrightarrow> strncmp_eq a c n"
  by (simp add: strncmp_eq_def)

lemma strncasecmp_eq_trans:
  "strncasecmp_eq a b n \<Longrightarrow> strncasecmp_eq b c n \<Longrightarrow> strncasecmp_eq a c n"
  by (simp add: strncasecmp_eq_def)

lemma strncmp_eq_no_nul:
  assumes "NUL \<notin> set a" and "NUL \<notin> set b"
  shows "strncmp_eq a b n \<longleftrightarrow> take n a = take n b"
proof -
  have "takeWhile (\<lambda>c. c \<noteq> NUL) (take n x) = take n x" if "NUL \<notin> set x" for x
    using that by (auto simp: takeWhile_eq_all_conv dest: in_set_takeD)
  with assms show ?thesis unfolding strncmp_eq_def by metis
qed

section \<open>Intrusive lists\<close>

text \<open>Removing the first entry that satisfies a predicate: \<open>mk_list_del\<close> on a found entry.\<close>

fun remove_first :: "('a \<Rightarrow> bool) \<Rightarrow> 'a list \<Rightarrow> 'a list" where
  "remove_first P [] = []"
| "remove_first P (x # xs) = (if P x then xs else x # remove_first P xs)"

lemma remove_first_none [simp]: "\<forall>x \<in> set xs. \<not> P x \<Longrightarrow> remove_first P xs = xs"
  by (induction xs) auto

lemma set_remove_first_subset: "set (remove_first P xs) \<subseteq> set xs"
  by (induction xs) auto

lemma length_remove_first:
  "length (remove_first P xs) = (if \<exists>x \<in> set xs. P x then length xs - 1 else length xs)"
  by (induction xs) (auto dest: length_pos_if_in_set)

lemma distinct_remove_first: "distinct xs \<Longrightarrow> distinct (remove_first P xs)"
  by (induction xs) (auto dest: subsetD [OF set_remove_first_subset])

lemma remove_first_filter:
  "distinct (map f xs) \<Longrightarrow> remove_first (\<lambda>x. f x = a) xs = filter (\<lambda>x. f x \<noteq> a) xs"
proof (induction xs)
  case Nil
  then show ?case by simp
next
  case (Cons x xs)
  then show ?case by (auto intro!: filter_True [symmetric] simp: image_iff)
qed

lemma int_length_pred [simp]:
  "xs \<noteq> [] \<Longrightarrow> int (length xs - Suc 0) = int (length xs) - 1"
  by (cases xs) simp_all

lemma find_append:
  "List.find P (xs @ ys) = (case List.find P xs of None \<Rightarrow> List.find P ys | Some x \<Rightarrow> Some x)"
  by (induction xs) auto

lemma find_SomeD: "List.find P xs = Some x \<Longrightarrow> x \<in> set xs \<and> P x"
  by (induction xs) (auto split: if_splits)

lemma find_cong_set: "(\<And>x. x \<in> set xs \<Longrightarrow> P x = Q x) \<Longrightarrow> List.find P xs = List.find Q xs"
  by (induction xs) auto

lemma find_None_iff': "List.find P xs = None \<longleftrightarrow> (\<forall>x \<in> set xs. \<not> P x)"
  by (auto simp: find_None_iff)

lemma length_concat_uniform:
  "\<forall>x \<in> set xs. length x = k \<Longrightarrow> length (concat xs) = k * length xs"
  by (induction xs) auto

lemma nth_concat_uniform:
  assumes "\<forall>x \<in> set xs. length x = k" and "i < k * length xs"
  shows "concat xs ! i = xs ! (i div k) ! (i mod k)"
  using assms
proof (induction xs arbitrary: i)
  case Nil
  then show ?case by simp
next
  case (Cons x xs)
  show ?case
  proof (cases "i < k")
    case True
    with Cons.prems show ?thesis by (simp add: nth_append)
  next
    case False
    with Cons.prems have k: "0 < k" and i: "i - k < k * length xs" by auto
    from False k have "i div k = Suc ((i - k) div k)" and "i mod k = (i - k) mod k"
      by (simp_all add: le_div_geq le_mod_geq)
    with False Cons i show ?thesis by (simp add: nth_append)
  qed
qed

section \<open>Words\<close>

text \<open>A single-bit test as the C sources write it: \<open>(w & (1 << k)) != 0\<close>.\<close>

lemma and_push_bit_one_eq_0_iff:
  fixes w :: "'a::len word"
  assumes "k < LENGTH('a)"
  shows "w AND push_bit k 1 = 0 \<longleftrightarrow> \<not> bit w k"
proof -
  have "w AND push_bit k 1 = 0 \<longleftrightarrow> (\<forall>n < LENGTH('a). \<not> (bit w n \<and> n = k))"
    by (auto simp: bit_eq_iff bit_simps)
  then show ?thesis using assms by blast
qed

lemma bit_or_push_bit_one:
  fixes w :: "'a::len word"
  assumes "k < LENGTH('a)"
  shows "bit (w OR push_bit k 1) n \<longleftrightarrow> bit w n \<or> n = k"
  using assms by (auto simp: bit_simps)

lemma bit_and_not_push_bit_one:
  fixes w :: "'a::len word"
  shows "bit (w AND NOT (push_bit k 1)) n \<longleftrightarrow> bit w n \<and> n \<noteq> k"
  using bit_imp_le_length [of w n] by (auto simp: bit_simps)

lemma unat_mult_less:
  fixes a b :: "'a::len word"
  assumes "unat a * unat b < 2 ^ LENGTH('a)"
  shows "unat (a * b) = unat a * unat b"
  using assms by (simp add: unat_word_ariths)

lemma unat_add_less:
  fixes a b :: "'a::len word"
  assumes "unat a + unat b < 2 ^ LENGTH('a)"
  shows "unat (a + b) = unat a + unat b"
  using assms by (simp add: unat_word_ariths)

section \<open>Folds\<close>

text \<open>A pass that adds something to a set-valued field at every step.\<close>

lemma fold_collect:
  assumes "\<And>x s. x \<in> set xs \<Longrightarrow> P s \<Longrightarrow> P (f x s) \<and> g (f x s) = g s \<union> h x"
    and "P s"
  shows "P (fold f xs s) \<and> g (fold f xs s) = g s \<union> (\<Union>x \<in> set xs. h x)"
  using assms
proof (induction xs arbitrary: s)
  case (Cons x xs)
  have "P (f x s)" and "g (f x s) = g s \<union> h x" using Cons.prems by simp_all
  then show ?case using Cons.IH [of "f x s"] Cons.prems(1) by auto
qed simp

lemma fold_invariant:
  "(\<And>x s. x \<in> set xs \<Longrightarrow> P s \<Longrightarrow> P (f x s)) \<Longrightarrow> P s \<Longrightarrow> P (fold f xs s)"
  by (induction xs arbitrary: s) auto

lemma find_map:
  "(\<And>x. x \<in> set xs \<Longrightarrow> P (f x) = P x) \<Longrightarrow> List.find P (map f xs) = map_option f (List.find P xs)"
  by (induction xs) auto

section \<open>Loops that may stop\<close>

text \<open>A loop over a list whose body may trap: \<open>None\<close> ends it.\<close>

fun fold_opt :: "('a \<Rightarrow> 's \<Rightarrow> 's option) \<Rightarrow> 'a list \<Rightarrow> 's \<Rightarrow> 's option" where
  "fold_opt f [] s = Some s"
| "fold_opt f (x # xs) s = (case f x s of None \<Rightarrow> None | Some s \<Rightarrow> fold_opt f xs s)"

lemma fold_opt_cong [fundef_cong]:
  "xs = ys \<Longrightarrow> s = t \<Longrightarrow> (\<And>x s. x \<in> set ys \<Longrightarrow> f x s = g x s) \<Longrightarrow> fold_opt f xs s = fold_opt g ys t"
  by (induction xs arbitrary: ys s t) (auto split: option.splits)

end
