(* ===== verification/Routes_Mask.thy ===== *)
theory Routes_Mask
  imports Flb_Prelude
begin

text \<open>
  The routing mask of \<^verbatim>\<open>src/src/flb_routes_mask.c\<close>: an array of 64-bit elements with one bit per
  output instance id. The component's state is the part of \<open>struct flb_config\<close> that fixes the
  geometry of every mask; the mask itself is the list of its elements.

  The lemmas show that set, clear and get implement a set of output ids (the interface
  \<open>id_set\<close>), that every access they make stays inside the array, how large the geometry is for
  a given number of outputs, and exactly when the emptiness test, which compares
  \<open>route_mask_size\<close> bytes and not elements, is exact.
\<close>

unbundle bit_operations_syntax

section \<open>State and operations\<close>

type_synonym flb_route_mask_element = u64
type_synonym route_mask = "flb_route_mask_element list"

text \<open>The fields of \<open>struct flb_config\<close> the component owns; NULL is \<open>None\<close>.\<close>

record route_config =
  route_mask_size :: size_t
  route_mask_slots :: size_t
  route_empty_mask :: "route_mask option"

definition FLB_ROUTES_MASK_ELEMENT_BITS :: size_t where
  "FLB_ROUTES_MASK_ELEMENT_BITS = 64"

text \<open>
  \<open>value < 0 || value >= config->route_mask_slots\<close>: the \<open>int\<close> is converted to \<open>size_t\<close> for the
  second comparison.
\<close>

definition mask_slot_invalid :: "int \<Rightarrow> 'a route_config_scheme \<Rightarrow> bool" where
  "mask_slot_invalid v config \<longleftrightarrow> v < 0 \<or> route_mask_slots config \<le> word_of_int v"

definition mask_index :: "int \<Rightarrow> nat" where
  "mask_index v = unat ((word_of_int v :: size_t) div FLB_ROUTES_MASK_ELEMENT_BITS)"

definition mask_bit :: "int \<Rightarrow> nat" where
  "mask_bit v = unat ((word_of_int v :: size_t) mod FLB_ROUTES_MASK_ELEMENT_BITS)"

definition flb_routes_mask_set_bit ::
  "route_mask \<Rightarrow> int \<Rightarrow> 'a route_config_scheme \<Rightarrow> route_mask" where
  "flb_routes_mask_set_bit routes_mask v config =
     (if mask_slot_invalid v config then routes_mask
      else let index = mask_index v; b = push_bit (mask_bit v) 1
           in routes_mask[index := (routes_mask ! index) OR b])"

definition flb_routes_mask_clear_bit ::
  "route_mask \<Rightarrow> int \<Rightarrow> 'a route_config_scheme \<Rightarrow> route_mask" where
  "flb_routes_mask_clear_bit routes_mask v config =
     (if mask_slot_invalid v config then routes_mask
      else let index = mask_index v; b = push_bit (mask_bit v) 1
           in routes_mask[index := (routes_mask ! index) AND NOT b])"

definition flb_routes_mask_get_bit ::
  "route_mask \<Rightarrow> int \<Rightarrow> 'a route_config_scheme \<Rightarrow> bool" where
  "flb_routes_mask_get_bit routes_mask v config =
     (if mask_slot_invalid v config then False
      else let index = mask_index v; b = push_bit (mask_bit v) 1
           in (routes_mask ! index) AND b \<noteq> 0)"

text \<open>
  \<open>memcmp\<close> sees the array as bytes; the byte order is that of a little-endian host.
\<close>

definition element_bytes :: "flb_route_mask_element \<Rightarrow> u8 list" where
  "element_bytes w = map (\<lambda>i. ucast (drop_bit (8 * i) w)) [0..<8]"

definition mask_bytes :: "route_mask \<Rightarrow> u8 list" where
  "mask_bytes m = concat (map element_bytes m)"

text \<open>
  The length handed to \<open>memcmp\<close> is \<open>config->route_mask_size\<close>, a number of elements. With no
  empty mask the code hands NULL to \<open>memcmp\<close>; \<open>wf_routes\<close> below excludes that state.
\<close>

definition flb_routes_mask_is_empty :: "route_mask \<Rightarrow> 'a route_config_scheme \<Rightarrow> bool" where
  "flb_routes_mask_is_empty routes_mask config =
     (case route_empty_mask config of
        None \<Rightarrow> False
      | Some e \<Rightarrow> take (unat (route_mask_size config)) (mask_bytes routes_mask)
                 = take (unat (route_mask_size config)) (mask_bytes e))"

definition flb_routes_empty_mask_destroy ::
  "'a route_config_scheme \<Rightarrow> 'a route_config_scheme" where
  "flb_routes_empty_mask_destroy config =
     (case route_empty_mask config of
        None \<Rightarrow> config
      | Some _ \<Rightarrow> config\<lparr>route_empty_mask := None\<rparr>)"

text \<open>\<open>calloc_ok\<close> is the outcome of the one allocation.\<close>

definition flb_routes_empty_mask_create ::
  "bool \<Rightarrow> 'a route_config_scheme \<Rightarrow> int \<times> 'a route_config_scheme" where
  "flb_routes_empty_mask_create calloc_ok config =
     (let config = flb_routes_empty_mask_destroy config
      in if calloc_ok
         then (0, config\<lparr>route_empty_mask :=
                           Some (replicate (unat (route_mask_size config)) 0)\<rparr>)
         else (-1, config\<lparr>route_empty_mask := None\<rparr>))"

definition flb_routes_mask_set_size ::
  "bool \<Rightarrow> size_t \<Rightarrow> 'a route_config_scheme \<Rightarrow> int \<times> 'a route_config_scheme" where
  "flb_routes_mask_set_size calloc_ok mask_size config =
     (let mask_size = (if mask_size < 1 then 1 else mask_size);
          mask_size = (mask_size div FLB_ROUTES_MASK_ELEMENT_BITS)
                      + (mask_size mod FLB_ROUTES_MASK_ELEMENT_BITS);
          config = config\<lparr>route_mask_size := mask_size,
                          route_mask_slots := mask_size * FLB_ROUTES_MASK_ELEMENT_BITS\<rparr>
      in flb_routes_empty_mask_create calloc_ok config)"

text \<open>The mask a chunk starts with: \<open>flb_calloc(route_mask_size, sizeof(element))\<close>.\<close>

definition fresh_mask :: "'a route_config_scheme \<Rightarrow> route_mask" where
  "fresh_mask config = replicate (unat (route_mask_size config)) 0"

lemmas mask_op_defs [flb_defs] =
  flb_routes_mask_set_bit_def flb_routes_mask_clear_bit_def flb_routes_mask_get_bit_def
  mask_slot_invalid_def Let_def

section \<open>Well-formed geometry\<close>

text \<open>
  The slot count is 64 times the element count with no wrap-around, and the empty mask exists
  and is all zero: what \<open>flb_routes_mask_set_size\<close> establishes.
\<close>

definition wf_routes :: "'a route_config_scheme \<Rightarrow> bool" where
  "wf_routes config \<longleftrightarrow>
     unat (route_mask_slots config) = 64 * unat (route_mask_size config)
     \<and> 0 < unat (route_mask_size config)
     \<and> route_empty_mask config = Some (replicate (unat (route_mask_size config)) 0)"

definition wf_mask :: "'a route_config_scheme \<Rightarrow> route_mask \<Rightarrow> bool" where
  "wf_mask config m \<longleftrightarrow> length m = unat (route_mask_size config)"

text \<open>The ids a mask can hold, and the set of ids it does hold.\<close>

definition valid_id :: "'a route_config_scheme \<Rightarrow> int \<Rightarrow> bool" where
  "valid_id config v \<longleftrightarrow> 0 \<le> v \<and> nat v < unat (route_mask_slots config)"

definition routes_of :: "'a route_config_scheme \<Rightarrow> route_mask \<Rightarrow> int set" where
  "routes_of config m = {v. flb_routes_mask_get_bit m v config}"

lemma valid_id_word:
  assumes "valid_id config v"
  shows "unat (word_of_int v :: size_t) = nat v"
proof -
  have "unat (route_mask_slots config) < 2 ^ 64"
    using unsigned_less [of "route_mask_slots config"] by simp
  then have "nat v < 2 ^ 64" using assms by (auto simp: valid_id_def)
  moreover have "word_of_int v = (word_of_nat (nat v) :: size_t)"
    using assms by (simp add: valid_id_def)
  ultimately show ?thesis by (simp add: unat_of_nat)
qed

lemma mask_slot_invalid_iff:
  assumes "v < 2 ^ 31"
  shows "mask_slot_invalid v config \<longleftrightarrow> \<not> valid_id config v"
proof (cases "0 \<le> v")
  case True
  then have "unat (word_of_int v :: size_t) = nat v"
    using assms by (simp add: unat_of_nat flip: of_nat_nat)
  with True show ?thesis
    by (auto simp: mask_slot_invalid_def valid_id_def word_le_nat_alt)
next
  case False
  then show ?thesis by (simp add: mask_slot_invalid_def valid_id_def)
qed

lemma mask_slot_valid: "valid_id config v \<Longrightarrow> \<not> mask_slot_invalid v config"
  using valid_id_word [of config v]
  by (auto simp: mask_slot_invalid_def valid_id_def word_le_nat_alt)

lemma mask_bit_less: "mask_bit v < 64"
  by (simp add: mask_bit_def FLB_ROUTES_MASK_ELEMENT_BITS_def unat_mod)

lemma mask_index_bit_nat:
  assumes "valid_id config v"
  shows "mask_index v = nat v div 64" and "mask_bit v = nat v mod 64"
  using valid_id_word [OF assms]
  by (simp_all add: mask_index_def mask_bit_def FLB_ROUTES_MASK_ELEMENT_BITS_def unat_div unat_mod)

lemma mask_index_bit_inj:
  assumes "valid_id config v" and "valid_id config w"
    and "mask_index v = mask_index w" and "mask_bit v = mask_bit w"
  shows "v = w"
proof -
  from assms have "nat v div 64 = nat w div 64" and "nat v mod 64 = nat w mod 64"
    by (simp_all add: mask_index_bit_nat)
  then have "nat v = nat w" by (metis div_mult_mod_eq)
  with assms show ?thesis by (auto simp: valid_id_def)
qed

text \<open>Every element the operations read or write exists.\<close>

lemma mask_index_in_bounds:
  assumes "wf_routes config" and "wf_mask config m" and "valid_id config v"
  shows "mask_index v < length m"
proof -
  have "nat v < 64 * unat (route_mask_size config)"
    using assms by (auto simp: valid_id_def wf_routes_def)
  then show ?thesis
    using assms by (simp add: mask_index_bit_nat wf_mask_def div_less_iff_less_mult mult.commute)
qed

lemma get_bit_eq:
  "flb_routes_mask_get_bit m v config \<longleftrightarrow>
     \<not> mask_slot_invalid v config \<and> bit (m ! mask_index v) (mask_bit v)"
  using mask_bit_less [of v]
  by (simp add: flb_routes_mask_get_bit_def Let_def and_push_bit_one_eq_0_iff del: push_bit_of_1)

lemma wf_mask_set_bit [simp]:
  "wf_mask config (flb_routes_mask_set_bit m v config) = wf_mask config m"
  by (simp add: flb_routes_mask_set_bit_def wf_mask_def Let_def)

lemma wf_mask_clear_bit [simp]:
  "wf_mask config (flb_routes_mask_clear_bit m v config) = wf_mask config m"
  by (simp add: flb_routes_mask_clear_bit_def wf_mask_def Let_def)

lemma wf_mask_fresh [simp]: "wf_mask config (fresh_mask config)"
  by (simp add: wf_mask_def fresh_mask_def)

lemma get_set_bit:
  assumes "wf_routes config" and "wf_mask config m" and "v < 2 ^ 31" and "w < 2 ^ 31"
  shows "flb_routes_mask_get_bit (flb_routes_mask_set_bit m v config) w config \<longleftrightarrow>
           flb_routes_mask_get_bit m w config \<or> valid_id config v \<and> v = w"
proof (cases "valid_id config v \<and> valid_id config w")
  case True
  then have vw: "mask_index v < length m" "mask_index w < length m"
    using assms by (auto intro: mask_index_in_bounds)
  show ?thesis
    using True vw mask_index_bit_inj [of config v w] mask_bit_less [of v]
    by (auto simp: get_bit_eq flb_routes_mask_set_bit_def mask_slot_valid Let_def
        bit_or_push_bit_one nth_list_update simp del: push_bit_of_1)
next
  case False
  then show ?thesis
    using assms by (auto simp: flb_routes_mask_set_bit_def get_bit_eq mask_slot_invalid_iff)
qed

lemma get_clear_bit:
  assumes "wf_routes config" and "wf_mask config m" and "v < 2 ^ 31" and "w < 2 ^ 31"
  shows "flb_routes_mask_get_bit (flb_routes_mask_clear_bit m v config) w config \<longleftrightarrow>
           flb_routes_mask_get_bit m w config \<and> v \<noteq> w"
proof (cases "valid_id config v \<and> valid_id config w")
  case True
  then have vw: "mask_index v < length m" "mask_index w < length m"
    using assms by (auto intro: mask_index_in_bounds)
  show ?thesis
    using True vw mask_index_bit_inj [of config v w] mask_bit_less [of v]
    by (auto simp: get_bit_eq flb_routes_mask_clear_bit_def mask_slot_valid Let_def
        bit_and_not_push_bit_one nth_list_update simp del: push_bit_of_1)
next
  case False
  then show ?thesis
    using assms by (auto simp: flb_routes_mask_clear_bit_def get_bit_eq mask_slot_invalid_iff)
qed

lemma get_fresh_mask:
  assumes "wf_routes config" and "v < 2 ^ 31"
  shows "\<not> flb_routes_mask_get_bit (fresh_mask config) v config"
proof (cases "valid_id config v")
  case True
  then have "mask_index v < length (fresh_mask config)"
    using assms by (intro mask_index_in_bounds) simp_all
  then show ?thesis by (simp add: get_bit_eq fresh_mask_def)
next
  case False
  then show ?thesis using assms by (simp add: get_bit_eq mask_slot_invalid_iff)
qed

section \<open>The interface: a mask is a set of output ids\<close>

text \<open>
  What the clients of the mask rely on. An id is a C \<open>int\<close>; ids outside the geometry are
  ignored by every operation.
\<close>

locale id_set =
  fixes wf :: "'c \<Rightarrow> 'm \<Rightarrow> bool"
    and valid :: "'c \<Rightarrow> int \<Rightarrow> bool"
    and none :: "'c \<Rightarrow> 'm"
    and put :: "'m \<Rightarrow> int \<Rightarrow> 'c \<Rightarrow> 'm"
    and del :: "'m \<Rightarrow> int \<Rightarrow> 'c \<Rightarrow> 'm"
    and has :: "'m \<Rightarrow> int \<Rightarrow> 'c \<Rightarrow> bool"
    and ok :: "'c \<Rightarrow> bool"
  assumes wf_none: "ok c \<Longrightarrow> wf c (none c)"
    and wf_put: "wf c m \<Longrightarrow> wf c (put m v c)"
    and wf_del: "wf c m \<Longrightarrow> wf c (del m v c)"
    and has_none: "ok c \<Longrightarrow> v < 2 ^ 31 \<Longrightarrow> \<not> has (none c) v c"
    and has_put: "ok c \<Longrightarrow> wf c m \<Longrightarrow> v < 2 ^ 31 \<Longrightarrow> w < 2 ^ 31 \<Longrightarrow>
                    has (put m v c) w c \<longleftrightarrow> has m w c \<or> valid c v \<and> v = w"
    and has_del: "ok c \<Longrightarrow> wf c m \<Longrightarrow> v < 2 ^ 31 \<Longrightarrow> w < 2 ^ 31 \<Longrightarrow>
                    has (del m v c) w c \<longleftrightarrow> has m w c \<and> v \<noteq> w"
begin

lemma wf_fold_put: "wf c m \<Longrightarrow> wf c (fold (\<lambda>v m. put m v c) vs m)"
  by (induction vs arbitrary: m) (auto intro: wf_put)

lemma has_fold_put:
  assumes "ok c" and "\<forall>v \<in> set vs. v < 2 ^ 31" and "w < 2 ^ 31" and "wf c m"
  shows "has (fold (\<lambda>v m. put m v c) vs m) w c \<longleftrightarrow> has m w c \<or> valid c w \<and> w \<in> set vs"
  using assms(2,4)
proof (induction vs arbitrary: m)
  case Nil
  then show ?case by simp
next
  case (Cons v vs)
  then show ?case using assms(1,3) by (auto simp: has_put wf_put)
qed

lemma has_fold_del:
  assumes "ok c" and "\<forall>v \<in> set vs. v < 2 ^ 31" and "w < 2 ^ 31" and "wf c m"
  shows "has (fold (\<lambda>v m. del m v c) vs m) w c \<longleftrightarrow> has m w c \<and> w \<notin> set vs"
  using assms(2,4)
proof (induction vs arbitrary: m)
  case (Cons v vs)
  then show ?case using assms(1,3) by (auto simp: has_del wf_del)
qed simp

lemma del_after_put:
  assumes "ok c" and "wf c m" and "v < 2 ^ 31" and "w < 2 ^ 31" and "\<not> has m v c"
  shows "has (del (put m v c) v c) w c \<longleftrightarrow> has m w c"
  using assms by (auto simp: has_put has_del wf_put)

end

interpretation mask: id_set
  wf_mask valid_id fresh_mask flb_routes_mask_set_bit flb_routes_mask_clear_bit
  flb_routes_mask_get_bit wf_routes
  by unfold_locales (simp_all add: get_fresh_mask get_set_bit get_clear_bit)

section \<open>Geometry chosen for a number of outputs\<close>

text \<open>The element count \<open>set_size\<close> computes: quotient plus remainder, at least one.\<close>

definition elements_for :: "nat \<Rightarrow> nat" where
  "elements_for n = (if n = 0 then 1 else n div 64 + n mod 64)"

lemma elements_for_pos: "0 < elements_for n"
proof (cases "n = 0")
  case True
  then show ?thesis by (simp add: elements_for_def)
next
  case False
  then have "n div 64 * 64 + n mod 64 \<noteq> 0" by simp
  then have "n div 64 \<noteq> 0 \<or> n mod 64 \<noteq> 0" by (metis add_is_0 mult_0)
  with False show ?thesis by (auto simp: elements_for_def)
qed

lemma elements_for_le: "elements_for n \<le> n div 64 + 64"
  by (simp add: elements_for_def less_imp_le)

lemma elements_for_capacity: "n \<le> 64 * elements_for n"
proof (cases "n = 0")
  case False
  have "64 * (n div 64) + n mod 64 \<le> 64 * (n div 64) + 64 * (n mod 64)"
    by (rule add_left_mono) simp
  then have "n \<le> 64 * (n div 64) + 64 * (n mod 64)" by (simp only: mult_div_mod_eq)
  then show ?thesis using False by (simp add: elements_for_def distrib_left)
qed simp

lemma set_size_elements:
  "unat (route_mask_size (snd (flb_routes_mask_set_size ok n config))) = elements_for (unat n)"
proof -
  have *: "unat (k div 64 + k mod 64) = unat k div 64 + unat k mod 64" for k :: size_t
  proof -
    have "unat k < 2 ^ 64" using unsigned_less [of k] by simp
    then have "unat k div 64 + unat k mod 64 < 2 ^ 64" by auto
    then show ?thesis by (simp add: unat_add_less unat_div unat_mod)
  qed
  have "unat n = 0 \<longleftrightarrow> n < 1"
    by (metis word_less_1 unat_eq_zero)
  then show ?thesis
    by (auto simp: flb_routes_mask_set_size_def flb_routes_empty_mask_create_def Let_def
        flb_routes_empty_mask_destroy_def FLB_ROUTES_MASK_ELEMENT_BITS_def elements_for_def *
        split: option.splits)
qed

lemma set_size_wf_routes:
  assumes "unat n < 2 ^ 58"
  shows "wf_routes (snd (flb_routes_mask_set_size True n config))"
    and "fst (flb_routes_mask_set_size True n config) = 0"
proof -
  let ?c = "snd (flb_routes_mask_set_size True n config)"
  have "elements_for (unat n) \<le> unat n div 64 + 64" by (rule elements_for_le)
  also have "\<dots> < 2 ^ 58" using assms by auto
  finally have "64 * elements_for (unat n) < 2 ^ 64" by simp
  moreover have "route_mask_slots ?c = route_mask_size ?c * 64"
    by (simp add: flb_routes_mask_set_size_def flb_routes_empty_mask_create_def Let_def
        flb_routes_empty_mask_destroy_def FLB_ROUTES_MASK_ELEMENT_BITS_def split: option.splits)
  ultimately have "unat (route_mask_slots ?c) = 64 * unat (route_mask_size ?c)"
    using set_size_elements [of True n config] by (simp add: unat_word_ariths mult.commute)
  moreover have "route_empty_mask ?c = Some (replicate (unat (route_mask_size ?c)) 0)"
    by (simp add: flb_routes_mask_set_size_def flb_routes_empty_mask_create_def Let_def)
  ultimately show "wf_routes ?c"
    by (simp add: wf_routes_def set_size_elements elements_for_pos)
  show "fst (flb_routes_mask_set_size True n config) = 0"
    by (simp add: flb_routes_mask_set_size_def flb_routes_empty_mask_create_def Let_def)
qed

lemma set_size_valid_id:
  assumes "unat n < 2 ^ 58" and "0 \<le> v" and "nat v < unat n"
  shows "valid_id (snd (flb_routes_mask_set_size True n config)) v"
proof -
  note assms(3)
  also have "unat n \<le> 64 * elements_for (unat n)" by (rule elements_for_capacity)
  finally show ?thesis
    using assms set_size_wf_routes(1) [OF assms(1), of config] set_size_elements [of True n config]
    by (simp add: valid_id_def wf_routes_def)
qed

section \<open>The emptiness test\<close>

lemma length_element_bytes [simp]: "length (element_bytes w) = 8"
  by (simp add: element_bytes_def)

lemma length_mask_bytes [simp]: "length (mask_bytes m) = 8 * length m"
  by (simp add: mask_bytes_def length_concat_uniform [where k = 8])

lemma mask_bytes_nth:
  "i < 8 * length m \<Longrightarrow> mask_bytes m ! i = ucast (drop_bit (8 * (i mod 8)) (m ! (i div 8)))"
  by (simp add: mask_bytes_def nth_concat_uniform [where k = 8] less_mult_imp_div_less
      mult.commute) (simp add: element_bytes_def)

lemma mask_byte_eq_0_iff:
  assumes "i < 8 * length m"
  shows "mask_bytes m ! i = 0 \<longleftrightarrow> (\<forall>k. k div 8 = i \<longrightarrow> \<not> bit (m ! (k div 64)) (k mod 64))"
proof -
  have "mask_bytes m ! i = 0 \<longleftrightarrow> (\<forall>j < 8. \<not> bit (m ! (i div 8)) (8 * (i mod 8) + j))"
    using assms by (auto simp: mask_bytes_nth bit_eq_iff bit_simps add.commute)
  also have "\<dots> \<longleftrightarrow> (\<forall>k. k div 8 = i \<longrightarrow> \<not> bit (m ! (k div 64)) (k mod 64))" (is "?L \<longleftrightarrow> ?R")
  proof
    assume ?L
    show ?R
    proof (intro allI impI)
      fix k assume k: "k div 8 = i"
      have "k div 64 = i div 8" and "k mod 64 = 8 * (i mod 8) + k mod 8"
        using k by (auto simp: div_mult2_eq [of k 8 8, simplified] mod_mult2_eq [of k 8 8, simplified])
      with \<open>?L\<close> show "\<not> bit (m ! (k div 64)) (k mod 64)" by simp
    qed
  next
    assume R: ?R
    show ?L
    proof (intro allI impI)
      fix j :: nat assume j: "j < 8"
      let ?k = "8 * i + j"
      have k: "?k div 8 = i" and "?k mod 8 = j" using j by auto
      then have "?k div 64 = i div 8" and "?k mod 64 = 8 * (i mod 8) + j"
        by (auto simp: div_mult2_eq [of ?k 8 8, simplified] mod_mult2_eq [of ?k 8 8, simplified])
      with R k show "\<not> bit (m ! (i div 8)) (8 * (i mod 8) + j)" by metis
    qed
  qed
  finally show ?thesis .
qed

lemma take_mask_bytes_zero_iff:
  assumes "n \<le> 8 * length m"
  shows "take n (mask_bytes m) = take n (mask_bytes (replicate (length m) 0)) \<longleftrightarrow>
           (\<forall>i < n. mask_bytes m ! i = 0)"
  using assms by (auto simp: list_eq_iff_nth_eq mask_bytes_nth less_mult_imp_div_less mult.commute)

text \<open>
  The test looks at the first \<open>route_mask_size\<close> bytes: it answers "empty" when every routed id
  is at or beyond eight times the element count.
\<close>

lemma is_empty_iff:
  assumes "wf_routes config" and "wf_mask config m"
  shows "flb_routes_mask_is_empty m config \<longleftrightarrow>
           (\<forall>v. valid_id config v \<longrightarrow> nat v < 8 * unat (route_mask_size config) \<longrightarrow>
              \<not> flb_routes_mask_get_bit m v config)"
proof -
  let ?n = "unat (route_mask_size config)"
  have len: "length m = ?n" using assms(2) by (simp add: wf_mask_def)
  have "flb_routes_mask_is_empty m config \<longleftrightarrow> (\<forall>i < ?n. mask_bytes m ! i = 0)"
    using assms len take_mask_bytes_zero_iff [of ?n m]
    by (simp add: flb_routes_mask_is_empty_def wf_routes_def)
  also have "\<dots> \<longleftrightarrow> (\<forall>i < ?n. \<forall>k. k div 8 = i \<longrightarrow> \<not> bit (m ! (k div 64)) (k mod 64))"
    using len by (simp add: mask_byte_eq_0_iff)
  also have "\<dots> \<longleftrightarrow> (\<forall>k < 8 * ?n. \<not> bit (m ! (k div 64)) (k mod 64))"
    by (metis div_less_iff_less_mult mult.commute zero_less_numeral)
  also have "\<dots> \<longleftrightarrow> (\<forall>v. valid_id config v \<longrightarrow> nat v < 8 * ?n \<longrightarrow>
              \<not> flb_routes_mask_get_bit m v config)" (is "?L \<longleftrightarrow> ?R")
  proof
    assume ?L
    then show ?R
      by (auto simp: get_bit_eq mask_index_bit_nat valid_id_def nat_less_iff)
  next
    assume R: ?R
    show ?L
    proof (intro allI impI)
      fix k assume k: "k < 8 * ?n"
      then have v: "valid_id config (int k)"
        using assms(1) by (simp add: valid_id_def wf_routes_def)
      with R k show "\<not> bit (m ! (k div 64)) (k mod 64)"
        by (auto simp: get_bit_eq mask_slot_valid mask_index_bit_nat)
    qed
  qed
  finally show ?thesis .
qed

section \<open>Properties\<close>

text \<open>
  C38: the route mask is a set of output ids: in the geometry chosen for \<open>n\<close> outputs, after setting
  the bits of some ids below \<open>n\<close> and clearing the bits of others, exactly the ids set and not cleared
  are present, for every id an \<open>int\<close> can hold.
\<close>

theorem routes_mask_is_id_set:
  fixes n :: size_t and vs ws :: "int list"
  assumes "unat n < 2 ^ 31" and "\<forall>v \<in> set vs. 0 \<le> v \<and> nat v < unat n"
    and "\<forall>v \<in> set ws. v < 2 ^ 31" and "v < 2 ^ 31"
    and "c = snd (flb_routes_mask_set_size True n config)"
  shows "flb_routes_mask_get_bit
           (fold (\<lambda>v m. flb_routes_mask_clear_bit m v c) ws
              (fold (\<lambda>v m. flb_routes_mask_set_bit m v c) vs (fresh_mask c))) v c
         \<longleftrightarrow> v \<in> set vs \<and> v \<notin> set ws"
proof -
  have n: "unat n < 2 ^ 58" using assms(1) by simp
  have wf: "wf_routes c" using set_size_wf_routes(1) [OF n] assms(5) by simp
  have valid: "\<forall>v \<in> set vs. v < 2 ^ 31 \<and> valid_id c v"
    using assms(1,2,5) set_size_valid_id [OF n] by auto
  let ?m = "fold (\<lambda>v m. flb_routes_mask_set_bit m v c) vs (fresh_mask c)"
  have "wf_mask c ?m" by (rule mask.wf_fold_put) simp
  moreover have "flb_routes_mask_get_bit ?m v c \<longleftrightarrow> v \<in> set vs"
    using mask.has_fold_put [of c vs v "fresh_mask c"] wf valid assms(4) get_fresh_mask by auto
  ultimately show ?thesis using mask.has_fold_del [of c ws v ?m] wf assms(3,4) by simp
qed

definition sample_geometry :: route_config where
  "sample_geometry = snd (flb_routes_mask_set_size True 64
     \<lparr>route_mask_size = 0, route_mask_slots = 0, route_empty_mask = None\<rparr>)"

lemma routes_mask_is_id_set_witness:
  "flb_routes_mask_get_bit
     (fold (\<lambda>v m. flb_routes_mask_clear_bit m v sample_geometry) [3]
        (fold (\<lambda>v m. flb_routes_mask_set_bit m v sample_geometry) [3, 40] (fresh_mask sample_geometry)))
     40 sample_geometry"
  by (subst routes_mask_is_id_set [where n = 64, OF _ _ _ _ sample_geometry_def]) simp_all

text \<open>
  C40: \<open>flb_routes_mask_is_empty\<close> compares \<open>route_mask_size\<close> bytes, not elements: it answers true
  exactly when no id below eight times the element count is set.
\<close>

theorem routes_mask_empty_test:
  assumes "unat n < 2 ^ 58" and "wf_mask c m" and "c = snd (flb_routes_mask_set_size True n config)"
  shows "flb_routes_mask_is_empty m c \<longleftrightarrow>
           (\<forall>v. 0 \<le> v \<longrightarrow> nat v < 8 * elements_for (unat n) \<longrightarrow> \<not> flb_routes_mask_get_bit m v c)"
proof -
  have wf: "wf_routes c" using set_size_wf_routes(1) [OF assms(1)] assms(3) by simp
  have size: "unat (route_mask_size c) = elements_for (unat n)"
    using set_size_elements [of True n config] assms(3) by simp
  then have "valid_id c v" if "0 \<le> v" and "nat v < 8 * elements_for (unat n)" for v
    using that wf by (simp add: valid_id_def wf_routes_def)
  then show ?thesis
    unfolding is_empty_iff [OF wf assms(2)] size by (auto simp: valid_id_def)
qed

lemma routes_mask_empty_test_witness:
  "flb_routes_mask_get_bit (flb_routes_mask_set_bit (fresh_mask sample_geometry) 8 sample_geometry) 8 sample_geometry
   \<and> flb_routes_mask_is_empty (flb_routes_mask_set_bit (fresh_mask sample_geometry) 8 sample_geometry) sample_geometry"
proof
  let ?m = "flb_routes_mask_set_bit (fresh_mask sample_geometry) 8 sample_geometry"
  have wf: "wf_routes sample_geometry"
    unfolding sample_geometry_def by (rule set_size_wf_routes) simp
  have valid: "valid_id sample_geometry 8"
    unfolding sample_geometry_def by (rule set_size_valid_id) simp_all
  have get: "flb_routes_mask_get_bit ?m v sample_geometry \<longleftrightarrow> v = 8" if "v < 2 ^ 31" for v
    using get_set_bit [OF wf, of "fresh_mask sample_geometry" 8 v] get_fresh_mask [OF wf, of v] valid that by auto
  then show "flb_routes_mask_get_bit ?m 8 sample_geometry" by simp
  have "elements_for 64 = 1" by (simp add: elements_for_def)
  then show "flb_routes_mask_is_empty ?m sample_geometry"
    using routes_mask_empty_test [of 64 sample_geometry ?m, OF _ _ sample_geometry_def] get by auto
qed

end
