(* ===== verification/Flb_Data.thy ===== *)
theory Flb_Data
  imports Routes_Mask
begin

text \<open>
  The structures the pipeline components share: plugin instances and the parsed router
  configuration (\<^verbatim>\<open>src/include/fluent-bit/flb_router.h\<close>, \<^verbatim>\<open>flb_input.h\<close>, \<^verbatim>\<open>flb_output.h\<close>,
  \<^verbatim>\<open>flb_input_event.h\<close>). Only the fields the modelled functions read or write are kept.

  A pointer to an instance is the instance's \<open>id\<close>; instances of one kind have distinct ids
  (\<open>instance_id\<close> in \<^verbatim>\<open>flb_input.c\<close> and \<^verbatim>\<open>flb_output.c\<close>).
\<close>

section \<open>Event types and signals\<close>

definition FLB_INPUT_LOGS :: int where "FLB_INPUT_LOGS = 0"
definition FLB_INPUT_METRICS :: int where "FLB_INPUT_METRICS = 1"
definition FLB_INPUT_TRACES :: int where "FLB_INPUT_TRACES = 2"
definition FLB_INPUT_BLOBS :: int where "FLB_INPUT_BLOBS = 3"
definition FLB_INPUT_PROFILES :: int where "FLB_INPUT_PROFILES = 4"

definition FLB_OUTPUT_LOGS :: u32 where "FLB_OUTPUT_LOGS = 1"
definition FLB_OUTPUT_METRICS :: u32 where "FLB_OUTPUT_METRICS = 2"
definition FLB_OUTPUT_TRACES :: u32 where "FLB_OUTPUT_TRACES = 4"
definition FLB_OUTPUT_BLOBS :: u32 where "FLB_OUTPUT_BLOBS = 8"
definition FLB_OUTPUT_PROFILES :: u32 where "FLB_OUTPUT_PROFILES = 16"

definition FLB_ROUTER_SIGNAL_LOGS :: u32 where "FLB_ROUTER_SIGNAL_LOGS = 1"
definition FLB_ROUTER_SIGNAL_METRICS :: u32 where "FLB_ROUTER_SIGNAL_METRICS = 2"
definition FLB_ROUTER_SIGNAL_TRACES :: u32 where "FLB_ROUTER_SIGNAL_TRACES = 4"

definition FLB_ROUTER_SIGNAL_ANY :: u32 where
  "FLB_ROUTER_SIGNAL_ANY =
     FLB_ROUTER_SIGNAL_LOGS OR FLB_ROUTER_SIGNAL_METRICS OR FLB_ROUTER_SIGNAL_TRACES"

lemmas signal_defs =
  FLB_ROUTER_SIGNAL_LOGS_def FLB_ROUTER_SIGNAL_METRICS_def FLB_ROUTER_SIGNAL_TRACES_def

lemmas event_type_defs =
  FLB_INPUT_LOGS_def FLB_INPUT_METRICS_def FLB_INPUT_TRACES_def FLB_INPUT_BLOBS_def
  FLB_INPUT_PROFILES_def FLB_OUTPUT_LOGS_def FLB_OUTPUT_METRICS_def FLB_OUTPUT_TRACES_def
  FLB_OUTPUT_BLOBS_def FLB_OUTPUT_PROFILES_def

lemma signal_any [simp]: "FLB_ROUTER_SIGNAL_ANY = 7"
  by (simp add: FLB_ROUTER_SIGNAL_ANY_def signal_defs)

section \<open>Router configuration\<close>

record flb_route_condition_rule =
  rule_field :: cstring
  rule_op :: cstring
  rule_value :: "cstring option"

record flb_route_condition =
  cond_rules :: "flb_route_condition_rule list"
  is_default :: bool

record flb_route_output =
  ro_name :: cstring
  ro_fallback :: "cstring option"

record flb_route_processor =
  rp_name :: cstring
  rp_properties :: "(cstring \<times> cstring) list"

record flb_route =
  route_name :: cstring
  route_signals :: u32
  route_condition :: "flb_route_condition option"
  route_outputs :: "flb_route_output list"
  route_processors :: "flb_route_processor list"

record flb_input_routes =
  ir_input_name :: cstring
  ir_processors :: "flb_route_processor list"
  ir_routes :: "flb_route list"

section \<open>Plugin instances\<close>

text \<open>The plugin pointer \<open>p\<close> of an instance: NULL, or a plugin whose name may be NULL.\<close>

record flb_plugin_ref =
  p_name :: "cstring option"

record flb_output_instance =
  o_id :: int
  o_p :: "flb_plugin_ref option"
  o_name :: cstring
  o_alias :: "cstring option"
  o_match :: "cstring option"
  o_match_regex :: "addr option"
  o_event_type :: u32

record flb_input_instance =
  i_id :: int
  i_p :: "flb_plugin_ref option"
  i_name :: cstring
  i_alias :: "cstring option"
  i_tag :: "cstring option"
  i_tag_len :: int
  i_routes :: "int list"
  i_routes_direct :: "int list"

end
