(* ===== verification/Router.thy ===== *)
theory Router
  imports Flb_Data
begin

text \<open>
  Tag routing: \<^verbatim>\<open>src/src/flb_router.c\<close>, \<^verbatim>\<open>src/src/flb_router_condition.c\<close>, the part of
  \<^verbatim>\<open>src/src/flb_router_config.c\<close> that applies a parsed configuration, and \<open>flb_router_match_type\<close>
  of \<^verbatim>\<open>src/include/fluent-bit/flb_router.h\<close>.

  The build is the one with regular expressions (\<open>FLB_HAVE_REGEX\<close>); the matcher \<open>onig_match\<close> of the
  Onigmo library is a parameter: it receives the regex handle and the bytes of the tag and returns
  the match length or a negative number.

  The lemmas show that the backtracking wildcard matcher decides the language of its pattern
  (\<open>glob\<close>), and which routes the start-up pass and the configuration pass create.
\<close>

type_synonym onig = "addr \<Rightarrow> char list \<Rightarrow> int"

section \<open>Wildcard matching\<close>

text \<open>
  The body of \<open>router_match\<close> after the regular expression: \<open>rm_loop\<close> is the outer \<open>while\<close> with the
  two cursors, \<open>rm_search\<close> the inner one that tries every occurrence of the character after a star.
\<close>

function rm_loop :: "cstring \<Rightarrow> char list \<Rightarrow> bool"
  and rm_search :: "cstring \<Rightarrow> char list \<Rightarrow> bool" where
  "rm_loop [] t = (t = [])"
| "rm_loop (c # m) t =
     (if c = CHR ''*''
      then let m' = dropWhile (\<lambda>x. x = CHR ''*'') m
           in if m' = [] then True else rm_search m' t
      else case t of
             [] \<Rightarrow> False
           | x # xs \<Rightarrow> if x \<noteq> c then False else rm_loop m xs)"
| "rm_search m t =
     (case dropWhile (\<lambda>x. x \<noteq> hd m) t of
        [] \<Rightarrow> False
      | p # ps \<Rightarrow> if rm_loop m (p # ps) then True else rm_search m ps)"
  by pat_completeness auto

termination
proof (relation "measures [\<lambda>x. case x of Inl (m, t) \<Rightarrow> length m | Inr (m, t) \<Rightarrow> length m,
                           \<lambda>x. case x of Inl _ \<Rightarrow> 0 | Inr _ \<Rightarrow> 1,
                           \<lambda>x. case x of Inl _ \<Rightarrow> 0 | Inr (m, t) \<Rightarrow> length t]", goal_cases)
  case (2 c m t m')
  then show ?case using length_dropWhile_le [of "\<lambda>x. x = CHR ''*''" m] by simp
next
  case (5 m t p ps)
  then have "Suc (length ps) \<le> length t" using length_dropWhile_le [of "\<lambda>x. x \<noteq> hd m" t] by simp
  then show ?case by simp
qed simp_all

declare rm_search.simps [simp del]

definition router_match ::
  "onig \<Rightarrow> cstring option \<Rightarrow> int \<Rightarrow> cstring option \<Rightarrow> addr option \<Rightarrow> bool" where
  "router_match onig_match tag tag_len match match_r =
     (if tag_len < 0 then False
      else if tag = None \<and> tag_len \<noteq> 0 then False
      else let t = (case tag of None \<Rightarrow> [] | Some s \<Rightarrow> take (nat tag_len) s)
           in if (case match_r of None \<Rightarrow> False | Some r \<Rightarrow> onig_match r t > 0) then True
              else case match of None \<Rightarrow> False | Some m \<Rightarrow> rm_loop m t)"

definition flb_router_match ::
  "onig \<Rightarrow> cstring option \<Rightarrow> int \<Rightarrow> cstring option \<Rightarrow> addr option \<Rightarrow> bool" where
  "flb_router_match onig_match tag tag_len match match_regex =
     router_match onig_match tag tag_len match match_regex"

definition flb_router_match_type :: "int \<Rightarrow> 'a flb_output_instance_scheme \<Rightarrow> bool" where
  "flb_router_match_type in_event_type o_ins =
     (if in_event_type = FLB_INPUT_LOGS \<and> o_event_type o_ins AND FLB_OUTPUT_LOGS = 0 then False
      else if in_event_type = FLB_INPUT_METRICS \<and> o_event_type o_ins AND FLB_OUTPUT_METRICS = 0 then False
      else if in_event_type = FLB_INPUT_TRACES \<and> o_event_type o_ins AND FLB_OUTPUT_TRACES = 0 then False
      else if in_event_type = FLB_INPUT_PROFILES \<and> o_event_type o_ins AND FLB_OUTPUT_PROFILES = 0 then False
      else if in_event_type = FLB_INPUT_BLOBS \<and> o_event_type o_ins AND FLB_OUTPUT_BLOBS = 0 then False
      else True)"

text \<open>The language of a pattern: a star stands for any sequence, any other character for itself.\<close>

inductive glob :: "cstring \<Rightarrow> char list \<Rightarrow> bool" where
  glob_nil: "glob [] []"
| glob_char: "c \<noteq> CHR ''*'' \<Longrightarrow> glob m t \<Longrightarrow> glob (c # m) (c # t)"
| glob_star: "glob m t \<Longrightarrow> glob (CHR ''*'' # m) (u @ t)"

inductive_cases glob_nilE: "glob [] t"
inductive_cases glob_consE: "glob (c # m) t"

lemma glob_nil_iff [simp]: "glob [] t \<longleftrightarrow> t = []"
  by (auto intro: glob_nil elim: glob_nilE)

lemma glob_char_iff: "c \<noteq> CHR ''*'' \<Longrightarrow> glob (c # m) t \<longleftrightarrow> (\<exists>t'. t = c # t' \<and> glob m t')"
  by (auto intro: glob_char elim: glob_consE)

lemma glob_star_iff: "glob (CHR ''*'' # m) t \<longleftrightarrow> (\<exists>u t'. t = u @ t' \<and> glob m t')"
proof
  assume "glob (CHR ''*'' # m) t"
  then show "\<exists>u t'. t = u @ t' \<and> glob m t'" by (rule glob_consE) auto
qed (auto intro: glob_star)

lemma glob_stars: "glob (CHR ''*'' # m) t \<longleftrightarrow> glob (CHR ''*'' # dropWhile (\<lambda>x. x = CHR ''*'') m) t"
proof (induction m)
  case (Cons c m)
  have "glob (CHR ''*'' # CHR ''*'' # m) t \<longleftrightarrow> glob (CHR ''*'' # m) t"
    by (simp add: glob_star_iff) (metis append.assoc append_Nil)
  with Cons show ?case by auto
qed simp

text \<open>A sequence skipped by a star can only end where the next character of the pattern occurs.\<close>

lemma glob_star_next:
  assumes "m \<noteq> []" and "hd m \<noteq> CHR ''*''"
  shows "glob (CHR ''*'' # m) t \<longleftrightarrow>
           (case dropWhile (\<lambda>x. x \<noteq> hd m) t of
              [] \<Rightarrow> False
            | p # ps \<Rightarrow> glob m (p # ps) \<or> glob (CHR ''*'' # m) ps)"
proof (induction t)
  case Nil
  obtain c n where "m = c # n" using assms(1) by (cases m) auto
  with assms(2) show ?case by (simp add: glob_star_iff glob_char_iff)
next
  case (Cons x t)
  obtain c n where m: "m = c # n" using assms(1) by (cases m) auto
  have step: "glob (CHR ''*'' # m) (x # t) \<longleftrightarrow> glob m (x # t) \<or> glob (CHR ''*'' # m) t"
    by (auto simp: glob_star_iff Cons_eq_append_conv)
  show ?case
  proof (cases "x = hd m")
    case True
    then show ?thesis using step by simp
  next
    case False
    then have "\<not> glob m (x # t)" using assms(2) m by (auto simp: glob_char_iff)
    then show ?thesis using False step Cons.IH by simp
  qed
qed

lemma rm_correct:
  "rm_loop m t \<longleftrightarrow> glob m t"
  "m \<noteq> [] \<Longrightarrow> hd m \<noteq> CHR ''*'' \<Longrightarrow> rm_search m t \<longleftrightarrow> glob (CHR ''*'' # m) t"
proof (induction m t and m t rule: rm_loop_rm_search.induct)
  case (2 c m t)
  let ?m' = "dropWhile (\<lambda>x. x = CHR ''*'') m"
  have "hd ?m' \<noteq> CHR ''*''" if "?m' \<noteq> []" using hd_dropWhile [OF that] .
  moreover have "glob [CHR ''*''] t" by (auto simp: glob_star_iff)
  ultimately have star: "rm_loop (c # m) t \<longleftrightarrow> glob (c # m) t" if "c = CHR ''*''"
    using that 2(1) glob_stars [of m t] by (cases "?m' = []") (auto simp: Let_def)
  show ?case
  proof (cases "c = CHR ''*''")
    case False
    then show ?thesis using 2(2) by (cases t) (auto simp: glob_char_iff)
  qed (rule star)
next
  case (3 m t)
  then show ?case
    by (cases "dropWhile (\<lambda>x. x \<noteq> hd m) t")
      (simp_all add: rm_search.simps [of m t] glob_star_next [of m t] del: dropWhile_eq_Nil_conv)
qed simp

section \<open>Routes of the instances\<close>

text \<open>The part of \<open>struct flb_config\<close> the router works on.\<close>

record router_config =
  inputs :: "flb_input_instance list"
  outputs :: "flb_output_instance list"
  input_routes :: "flb_input_routes list"

text \<open>\<open>ok\<close> is the outcome of the allocation of the path.\<close>

definition flb_router_connect ::
  "bool \<Rightarrow> flb_input_instance \<Rightarrow> flb_output_instance \<Rightarrow> int \<times> flb_input_instance" where
  "flb_router_connect ok i out =
     (if \<not> ok then (-1, i) else (0, i\<lparr>i_routes := i_routes i @ [o_id out]\<rparr>))"

definition flb_router_connect_direct ::
  "bool \<Rightarrow> flb_input_instance \<Rightarrow> flb_output_instance \<Rightarrow> int \<times> flb_input_instance" where
  "flb_router_connect_direct ok i out =
     (if \<not> ok then (-1, i) else (0, i\<lparr>i_routes_direct := i_routes_direct i @ [o_id out]\<rparr>))"

definition instance_named ::
  "flb_plugin_ref option \<Rightarrow> cstring option \<Rightarrow> cstring \<Rightarrow> cstring \<Rightarrow> bool" where
  "instance_named p alias nm name =
     (case p of
        None \<Rightarrow> False
      | Some pl \<Rightarrow> alias = Some name \<or> nm = name \<or> p_name pl = Some name)"

definition find_input_instance ::
  "flb_input_instance list \<Rightarrow> cstring \<Rightarrow> flb_input_instance option" where
  "find_input_instance ins name =
     List.find (\<lambda>i. instance_named (i_p i) (i_alias i) (i_name i) name) ins"

definition find_output_instance ::
  "flb_output_instance list \<Rightarrow> cstring \<Rightarrow> flb_output_instance option" where
  "find_output_instance outs name =
     List.find (\<lambda>out. instance_named (o_p out) (o_alias out) (o_name out) name) outs"

definition input_has_direct_route :: "flb_input_instance \<Rightarrow> flb_output_instance \<Rightarrow> bool" where
  "input_has_direct_route i out = list_ex (\<lambda>p. p = o_id out) (i_routes_direct i)"

definition output_supports_signals :: "flb_output_instance \<Rightarrow> u32 \<Rightarrow> bool" where
  "output_supports_signals out signals =
     (if signals = 0 \<or> signals AND FLB_ROUTER_SIGNAL_ANY \<noteq> 0 then True
      else if signals AND FLB_ROUTER_SIGNAL_LOGS \<noteq> 0 \<and> o_event_type out AND FLB_OUTPUT_LOGS = 0 then False
      else if signals AND FLB_ROUTER_SIGNAL_METRICS \<noteq> 0 \<and> o_event_type out AND FLB_OUTPUT_METRICS = 0 then False
      else if signals AND FLB_ROUTER_SIGNAL_TRACES \<noteq> 0 \<and> o_event_type out AND FLB_OUTPUT_TRACES = 0 then False
      else True)"

text \<open>
  The innermost iteration of \<open>flb_router_apply_config\<close>: one output of one route of one input.
  \<open>ok\<close> gives the outcome of the allocation for an output.
\<close>

definition apply_route_output ::
  "(int \<Rightarrow> bool) \<Rightarrow> flb_output_instance list \<Rightarrow> u32 \<Rightarrow> flb_route_output \<Rightarrow>
     flb_input_instance \<Rightarrow> flb_input_instance" where
  "apply_route_output ok outs signals ro i =
     (case (case find_output_instance outs (ro_name ro) of
              Some out \<Rightarrow> Some out
            | None \<Rightarrow> (case ro_fallback ro of
                        None \<Rightarrow> None
                      | Some f \<Rightarrow> find_output_instance outs f)) of
        None \<Rightarrow> i
      | Some out \<Rightarrow>
          if \<not> output_supports_signals out signals then i
          else if input_has_direct_route i out then i
          else snd (flb_router_connect_direct (ok (o_id out)) i out))"

definition apply_route ::
  "(int \<Rightarrow> bool) \<Rightarrow> flb_output_instance list \<Rightarrow> flb_route \<Rightarrow> flb_input_instance \<Rightarrow>
     flb_input_instance" where
  "apply_route ok outs route i =
     fold (apply_route_output ok outs (route_signals route)) (route_outputs route) i"

text \<open>The updated instance is written back at the instance's place in the list.\<close>

definition apply_input_routes ::
  "(int \<Rightarrow> bool) \<Rightarrow> flb_output_instance list \<Rightarrow> flb_input_routes \<Rightarrow>
     flb_input_instance list \<Rightarrow> flb_input_instance list" where
  "apply_input_routes ok outs ir ins =
     (case find_input_instance ins (ir_input_name ir) of
        None \<Rightarrow> ins
      | Some i \<Rightarrow>
          map (\<lambda>j. if i_id j = i_id i then fold (apply_route ok outs) (ir_routes ir) j else j) ins)"

definition flb_router_apply_config ::
  "(int \<Rightarrow> bool) \<Rightarrow> router_config \<Rightarrow> int \<times> router_config" where
  "flb_router_apply_config ok config =
     (0, config\<lparr>inputs := fold (apply_input_routes ok (outputs config)) (input_routes config)
                            (inputs config)\<rparr>)"

text \<open>One input of the N:M pass of \<open>flb_router_io_set\<close>; a failed connection is ignored.\<close>

definition io_set_output ::
  "onig \<Rightarrow> (int \<Rightarrow> bool) \<Rightarrow> flb_output_instance \<Rightarrow> flb_input_instance \<Rightarrow> flb_input_instance" where
  "io_set_output onig_match ok out i =
     (if o_match out = None \<and> o_match_regex out = None then i
      else if flb_router_match onig_match (i_tag i) (i_tag_len i) (o_match out) (o_match_regex out)
      then snd (flb_router_connect (ok (o_id out)) i out)
      else i)"

definition io_set_input ::
  "onig \<Rightarrow> (int \<Rightarrow> bool) \<Rightarrow> flb_output_instance list \<Rightarrow> flb_input_instance \<Rightarrow>
     flb_input_instance" where
  "io_set_input onig_match ok outs i =
     (if i_p i = None then i
      else if i_tag i = None then i
      else fold (io_set_output onig_match ok) outs i)"

definition flb_router_io_set ::
  "onig \<Rightarrow> (int \<Rightarrow> bool) \<Rightarrow> router_config \<Rightarrow> int \<times> router_config" where
  "flb_router_io_set onig_match ok config =
     (case (inputs config, outputs config) of
        ([i], [out]) \<Rightarrow>
          let out = (if o_match out = None \<and> o_match_regex out = None
                   then out\<lparr>o_match := Some ''*''\<rparr> else out)
          in (0, config\<lparr>inputs := [snd (flb_router_connect (ok (o_id out)) i out)], outputs := [out]\<rparr>)
      | _ \<Rightarrow>
          let config = config\<lparr>inputs := map (io_set_input onig_match ok (outputs config)) (inputs config)\<rparr>
          in if input_routes config \<noteq> []
             then if fst (flb_router_apply_config ok config) = -1
                  then (-1, snd (flb_router_apply_config ok config))
                  else (0, snd (flb_router_apply_config ok config))
             else (0, config))"

definition flb_router_exit :: "router_config \<Rightarrow> router_config" where
  "flb_router_exit config =
     config\<lparr>inputs := map (\<lambda>i. i\<lparr>i_routes := [], i_routes_direct := []\<rparr>) (inputs config)\<rparr>"

section \<open>Conditions\<close>

text \<open>\<open>chunk\<close> is \<open>None\<close> for NULL and else the event type of the chunk.\<close>

definition flb_router_signal_from_chunk :: "int option \<Rightarrow> u32" where
  "flb_router_signal_from_chunk chunk =
     (case chunk of
        None \<Rightarrow> 0
      | Some t \<Rightarrow>
          if t = FLB_INPUT_LOGS then FLB_ROUTER_SIGNAL_LOGS
          else if t = FLB_INPUT_METRICS then FLB_ROUTER_SIGNAL_METRICS
          else if t = FLB_INPUT_TRACES then FLB_ROUTER_SIGNAL_TRACES
          else 0)"

definition flb_condition_eval_logs :: "int option \<Rightarrow> flb_route \<Rightarrow> bool" where
  "flb_condition_eval_logs chunk route = False"

definition flb_condition_eval_metrics :: "int option \<Rightarrow> flb_route \<Rightarrow> bool" where
  "flb_condition_eval_metrics chunk route = False"

definition flb_condition_eval_traces :: "int option \<Rightarrow> flb_route \<Rightarrow> bool" where
  "flb_condition_eval_traces chunk route = False"

definition flb_route_condition_eval :: "int option \<Rightarrow> flb_route option \<Rightarrow> bool" where
  "flb_route_condition_eval chunk route =
     (case route of
        None \<Rightarrow> False
      | Some r \<Rightarrow>
          (case route_condition r of
             None \<Rightarrow> True
           | Some c \<Rightarrow>
               let sig = flb_router_signal_from_chunk chunk
               in if sig = 0 then False
                  else if route_signals r \<noteq> 0 \<and> route_signals r \<noteq> FLB_ROUTER_SIGNAL_ANY
                          \<and> route_signals r AND sig = 0 then False
                  else if is_default c then True
                  else if cond_rules c \<noteq> [] then True
                  else if sig = FLB_ROUTER_SIGNAL_LOGS then flb_condition_eval_logs chunk r
                  else if sig = FLB_ROUTER_SIGNAL_METRICS then flb_condition_eval_metrics chunk r
                  else if sig = FLB_ROUTER_SIGNAL_TRACES then flb_condition_eval_traces chunk r
                  else False))"

section \<open>Facts on the passes\<close>

lemma connect_frame [simp]:
  "i_id (snd (flb_router_connect ok i out)) = i_id i"
  "i_p (snd (flb_router_connect ok i out)) = i_p i"
  "i_tag (snd (flb_router_connect ok i out)) = i_tag i"
  "i_tag_len (snd (flb_router_connect ok i out)) = i_tag_len i"
  "i_routes_direct (snd (flb_router_connect ok i out)) = i_routes_direct i"
  "i_routes (snd (flb_router_connect ok i out)) = i_routes i @ (if ok then [o_id out] else [])"
  by (simp_all add: flb_router_connect_def)

lemma connect_direct_frame [simp]:
  "i_id (snd (flb_router_connect_direct ok i out)) = i_id i"
  "i_routes (snd (flb_router_connect_direct ok i out)) = i_routes i"
  "i_routes_direct (snd (flb_router_connect_direct ok i out)) =
     i_routes_direct i @ (if ok then [o_id out] else [])"
  by (simp_all add: flb_router_connect_direct_def)

text \<open>An output that takes part in tag matching and whose rule accepts the tag of the input.\<close>

definition accepts :: "onig \<Rightarrow> flb_input_instance \<Rightarrow> flb_output_instance \<Rightarrow> bool" where
  "accepts onig_match i out \<longleftrightarrow>
     flb_router_match onig_match (i_tag i) (i_tag_len i) (o_match out) (o_match_regex out)"

lemma match_needs_rule: "\<not> flb_router_match onig_match tag n None None"
  by (simp add: flb_router_match_def router_match_def Let_def)

lemma io_set_output_routes:
  "i_routes (io_set_output onig_match ok out i) =
     i_routes i @ (if accepts onig_match i out \<and> ok (o_id out) then [o_id out] else [])"
  "i_routes_direct (io_set_output onig_match ok out i) = i_routes_direct i"
  "accepts onig_match (io_set_output onig_match ok out i) = accepts onig_match i"
  using match_needs_rule
  by (auto simp: io_set_output_def accepts_def fun_eq_iff)

lemma io_set_input_routes:
  assumes "i_p i \<noteq> None" and "i_tag i \<noteq> None"
  shows "i_routes (io_set_input onig_match ok outs i) =
           i_routes i @ map o_id (filter (\<lambda>out. accepts onig_match i out \<and> ok (o_id out)) outs)"
proof -
  have "i_routes (fold (io_set_output onig_match ok) outs i) =
          i_routes i @ map o_id (filter (\<lambda>out. accepts onig_match i out \<and> ok (o_id out)) outs)"
    by (induction outs arbitrary: i) (auto simp: io_set_output_routes)
  with assms show ?thesis by (auto simp: io_set_input_def)
qed

lemma io_set_input_skip:
  "i_p i = None \<or> i_tag i = None \<Longrightarrow> io_set_input onig_match ok outs i = i"
  by (auto simp: io_set_input_def)

lemma supports_signals_three_bits: "signals < 8 \<Longrightarrow> output_supports_signals out signals"
proof -
  assume "signals < 8"
  then have "signals AND mask 3 = signals" by (intro less_mask_eq) simp
  then show ?thesis by (auto simp: output_supports_signals_def mask_eq_exp_minus_1)
qed

text \<open>The output a route entry names: by name, else by the fallback.\<close>

definition route_target :: "flb_output_instance list \<Rightarrow> flb_route_output \<Rightarrow> flb_output_instance option" where
  "route_target outs ro =
     (case find_output_instance outs (ro_name ro) of
        Some out \<Rightarrow> Some out
      | None \<Rightarrow> Option.bind (ro_fallback ro) (find_output_instance outs))"

lemma apply_route_output_target:
  "apply_route_output ok outs signals ro i =
     (case route_target outs ro of
        None \<Rightarrow> i
      | Some out \<Rightarrow> if output_supports_signals out signals \<and> \<not> input_has_direct_route i out
                    then snd (flb_router_connect_direct (ok (o_id out)) i out) else i)"
  by (cases "ro_fallback ro")
    (auto simp: apply_route_output_def route_target_def split: option.split)

lemma route_target_mem: "route_target outs ro = Some out \<Longrightarrow> out \<in> set outs"
  by (auto simp: route_target_def find_output_instance_def Option.bind_eq_Some_conv
      dest!: find_SomeD split: option.splits)

lemma apply_route_output_distinct:
  "distinct (i_routes_direct i) \<Longrightarrow> distinct (i_routes_direct (apply_route_output ok outs signals ro i))"
  "set (i_routes_direct i) \<subseteq> set (i_routes_direct (apply_route_output ok outs signals ro i))"
  "i_id (apply_route_output ok outs signals ro i) = i_id i"
  by (auto simp: apply_route_output_target input_has_direct_route_def list_ex_iff split: option.split)

lemma apply_route_output_adds:
  assumes "route_target outs ro = Some out" and "output_supports_signals out signals" and "ok (o_id out)"
  shows "o_id out \<in> set (i_routes_direct (apply_route_output ok outs signals ro i))"
  using assms by (auto simp: apply_route_output_target input_has_direct_route_def list_ex_iff)

lemma apply_route_output_set:
  "set (i_routes_direct (apply_route_output ok outs signals ro i)) =
     set (i_routes_direct i)
     \<union> {o_id out |out. route_target outs ro = Some out \<and> output_supports_signals out signals
                       \<and> ok (o_id out)}"
  by (auto simp: apply_route_output_target input_has_direct_route_def list_ex_iff split: option.split)

text \<open>What identifies an input instance is not changed by the passes.\<close>

definition same_input :: "flb_input_instance \<Rightarrow> flb_input_instance \<Rightarrow> bool" where
  "same_input i j \<longleftrightarrow> i_id j = i_id i \<and> i_p j = i_p i \<and> i_alias j = i_alias i \<and> i_name j = i_name i"

lemma same_input_refl [simp]: "same_input i i"
  by (simp add: same_input_def)

lemma same_input_trans: "same_input i j \<Longrightarrow> same_input j k \<Longrightarrow> same_input i k"
  by (simp add: same_input_def)

lemma apply_route_output_same: "same_input i (apply_route_output ok outs signals ro i)"
  by (simp add: apply_route_output_target same_input_def flb_router_connect_direct_def split: option.split)

text \<open>The direct routes one route adds.\<close>

definition route_ids :: "(int \<Rightarrow> bool) \<Rightarrow> flb_output_instance list \<Rightarrow> flb_route \<Rightarrow> int set" where
  "route_ids ok outs r =
     {o_id out |out ro. ro \<in> set (route_outputs r) \<and> route_target outs ro = Some out
        \<and> output_supports_signals out (route_signals r) \<and> ok (o_id out)}"

lemma apply_route_effect:
  "same_input i (apply_route ok outs r i)"
  "set (i_routes_direct (apply_route ok outs r i)) = set (i_routes_direct i) \<union> route_ids ok outs r"
  "distinct (i_routes_direct i) \<Longrightarrow> distinct (i_routes_direct (apply_route ok outs r i))"
proof -
  let ?f = "apply_route_output ok outs (route_signals r)"
  show "same_input i (apply_route ok outs r i)"
    unfolding apply_route_def
    by (rule fold_invariant [where P = "same_input i"])
      (auto intro: same_input_trans apply_route_output_same)
  have "set (i_routes_direct (fold ?f (route_outputs r) i)) = set (i_routes_direct i)
    \<union> (\<Union>ro \<in> set (route_outputs r). {o_id out |out. route_target outs ro = Some out
        \<and> output_supports_signals out (route_signals r) \<and> ok (o_id out)})"
    using fold_collect [of "route_outputs r" "\<lambda>_. True" ?f "\<lambda>i. set (i_routes_direct i)"]
    by (simp add: apply_route_output_set)
  then show "set (i_routes_direct (apply_route ok outs r i)) = set (i_routes_direct i) \<union> route_ids ok outs r"
    by (auto simp: apply_route_def route_ids_def)
  show "distinct (i_routes_direct i) \<Longrightarrow> distinct (i_routes_direct (apply_route ok outs r i))"
    unfolding apply_route_def
    by (rule fold_invariant [where P = "\<lambda>i. distinct (i_routes_direct i)"])
      (auto intro: apply_route_output_distinct(1))
qed

lemma apply_routes_effect:
  "same_input i (fold (apply_route ok outs) rs i)"
  "set (i_routes_direct (fold (apply_route ok outs) rs i)) =
     set (i_routes_direct i) \<union> (\<Union>r \<in> set rs. route_ids ok outs r)"
  "distinct (i_routes_direct i) \<Longrightarrow> distinct (i_routes_direct (fold (apply_route ok outs) rs i))"
  using fold_collect [of rs "same_input i" "apply_route ok outs" "\<lambda>i. set (i_routes_direct i)"
      "route_ids ok outs" i]
    fold_invariant [of rs "\<lambda>i. distinct (i_routes_direct i)" "apply_route ok outs" i]
  by (auto simp: apply_route_effect intro: same_input_trans apply_route_effect(1))

text \<open>The whole pass seen from one input instance.\<close>

definition routes_for :: "flb_input_instance list \<Rightarrow> flb_input_routes \<Rightarrow> int \<Rightarrow> bool" where
  "routes_for ins ir x \<longleftrightarrow> map_option i_id (find_input_instance ins (ir_input_name ir)) = Some x"

definition apply_all ::
  "(int \<Rightarrow> bool) \<Rightarrow> flb_output_instance list \<Rightarrow> flb_input_instance list \<Rightarrow> flb_input_routes list \<Rightarrow>
     flb_input_instance \<Rightarrow> flb_input_instance" where
  "apply_all ok outs ins irs j =
     fold (\<lambda>ir j. if routes_for ins ir (i_id j)
                  then fold (apply_route ok outs) (ir_routes ir) j else j) irs j"

lemma apply_all_same: "same_input j (apply_all ok outs ins irs j)"
  unfolding apply_all_def
  by (rule fold_invariant [where P = "same_input j"])
    (auto intro: same_input_trans apply_routes_effect(1))

lemma find_input_map:
  assumes "\<And>j. same_input j (f j)"
  shows "find_input_instance (map f ins) name = map_option f (find_input_instance ins name)"
  using assms unfolding find_input_instance_def by (intro find_map) (simp add: same_input_def)

lemma apply_inputs_map:
  "fold (apply_input_routes ok outs) irs ins = map (apply_all ok outs ins irs) ins"
proof (induction irs rule: rev_induct)
  case (snoc ir irs)
  let ?g = "apply_all ok outs ins irs"
  have id: "i_id (?g j) = i_id j" for j using apply_all_same [of j] by (simp add: same_input_def)
  have step: "apply_all ok outs ins (irs @ [ir]) j =
      (if routes_for ins ir (i_id j)
       then fold (apply_route ok outs) (ir_routes ir) (?g j) else ?g j)" for j
    using id [of j] by (simp add: apply_all_def)
  have "find_input_instance (map ?g ins) (ir_input_name ir)
          = map_option ?g (find_input_instance ins (ir_input_name ir))"
    by (rule find_input_map) (rule apply_all_same)
  then show ?case
    using snoc
    by (cases "find_input_instance ins (ir_input_name ir)")
      (auto simp: apply_input_routes_def step id routes_for_def)
qed (simp add: apply_all_def)

lemma apply_all_effect:
  "set (i_routes_direct (apply_all ok outs ins irs j)) =
     set (i_routes_direct j) \<union>
     (\<Union>ir \<in> {ir \<in> set irs. routes_for ins ir (i_id j)}.
        \<Union>r \<in> set (ir_routes ir). route_ids ok outs r)"
  "distinct (i_routes_direct j) \<Longrightarrow> distinct (i_routes_direct (apply_all ok outs ins irs j))"
proof -
  let ?f = "\<lambda>ir j. if routes_for ins ir (i_id j)
                  then fold (apply_route ok outs) (ir_routes ir) j else j"
  let ?h = "\<lambda>ir. if routes_for ins ir (i_id j)
                  then \<Union>r \<in> set (ir_routes ir). route_ids ok outs r else {}"
  have "i_id (fold (apply_route ok outs) rs s) = i_id s" for rs s
    using apply_routes_effect(1) [of s] by (simp add: same_input_def)
  then have "set (i_routes_direct (fold ?f irs j)) = set (i_routes_direct j) \<union> (\<Union>ir \<in> set irs. ?h ir)"
    using fold_collect [of irs "\<lambda>s. i_id s = i_id j" ?f "\<lambda>i. set (i_routes_direct i)" ?h j]
    by (simp add: apply_routes_effect(2))
  then show "set (i_routes_direct (apply_all ok outs ins irs j)) =
     set (i_routes_direct j) \<union>
     (\<Union>ir \<in> {ir \<in> set irs. routes_for ins ir (i_id j)}.
        \<Union>r \<in> set (ir_routes ir). route_ids ok outs r)"
    by (simp add: apply_all_def) auto
  show "distinct (i_routes_direct j) \<Longrightarrow> distinct (i_routes_direct (apply_all ok outs ins irs j))"
    unfolding apply_all_def
    by (rule fold_invariant [where P = "\<lambda>i. distinct (i_routes_direct i)"])
      (auto intro: apply_routes_effect(3))
qed

section \<open>Properties\<close>

text \<open>
  C32: the routing decision: a tag is accepted exactly when its length is not negative, it is
  present or empty, and its bytes are matched by the regular expression or belong to the language
  of the wildcard pattern, in which a star stands for any sequence of bytes. The backtracking search
  ends for every pattern and tag.
\<close>

theorem router_match_decides_glob:
  "flb_router_match onig_match tag tag_len match match_regex \<longleftrightarrow>
     0 \<le> tag_len \<and> (tag \<noteq> None \<or> tag_len = 0)
     \<and> (\<exists>t. t = take (nat tag_len) (case tag of None \<Rightarrow> [] | Some s \<Rightarrow> s)
          \<and> ((\<exists>r. match_regex = Some r \<and> 0 < onig_match r t)
             \<or> (\<exists>m. match = Some m \<and> glob m t)))"
  by (auto simp: flb_router_match_def router_match_def Let_def rm_correct split: option.split)

lemma router_match_decides_glob_witness:
  "flb_router_match (\<lambda>_ _. -1) (Some ''kube.app.log'') 12 (Some ''kube.*.log'') None"
proof -
  have "rm_loop ''kube.*.log'' ''kube.app.log''" by code_simp
  then have "glob ''kube.*.log'' ''kube.app.log''" by (simp only: rm_correct)
  then show ?thesis by (subst router_match_decides_glob) simp
qed

text \<open>
  at start-up, with several inputs or outputs, every input that has a plugin and a tag is
  connected to exactly the outputs whose rule accepts its tag, in the order of the outputs; the other
  inputs are left alone.
\<close>

theorem router_io_set_connects:
  assumes "length (inputs config) \<noteq> 1 \<or> length (outputs config) \<noteq> 1"
    and "input_routes config = []" and "n < length (inputs config)"
  shows "fst (flb_router_io_set onig_match (\<lambda>_. True) config) = 0
    \<and> i_routes (inputs (snd (flb_router_io_set onig_match (\<lambda>_. True) config)) ! n) =
        i_routes (inputs config ! n) @
        (if i_p (inputs config ! n) \<noteq> None \<and> i_tag (inputs config ! n) \<noteq> None
         then map o_id (filter (accepts onig_match (inputs config ! n)) (outputs config)) else [])"
proof -
  have "flb_router_io_set onig_match (\<lambda>_. True) config =
          (0, config\<lparr>inputs := map (io_set_input onig_match (\<lambda>_. True) (outputs config)) (inputs config)\<rparr>)"
    using assms(1,2) by (auto simp: flb_router_io_set_def Let_def split: list.split)
  with assms(3) show ?thesis
    using io_set_input_routes [of "inputs config ! n" onig_match "\<lambda>_. True" "outputs config"]
      io_set_input_skip [of "inputs config ! n" onig_match "\<lambda>_. True" "outputs config"]
    by simp
qed

definition sample_output :: "int \<Rightarrow> cstring \<Rightarrow> cstring \<Rightarrow> flb_output_instance" where
  "sample_output n name m =
     \<lparr>o_id = n, o_p = Some \<lparr>p_name = Some name\<rparr>, o_name = name, o_alias = None, o_match = Some m,
      o_match_regex = None, o_event_type = FLB_OUTPUT_LOGS\<rparr>"

definition sample_input :: "int \<Rightarrow> cstring \<Rightarrow> cstring \<Rightarrow> flb_input_instance" where
  "sample_input n name tag =
     \<lparr>i_id = n, i_p = Some \<lparr>p_name = Some name\<rparr>, i_name = name, i_alias = None, i_tag = Some tag,
      i_tag_len = int (length tag), i_routes = [], i_routes_direct = []\<rparr>"

definition sample_router :: router_config where
  "sample_router =
     \<lparr>inputs = [sample_input 0 ''cpu'' ''cpu.local''],
      outputs = [sample_output 0 ''es'' ''cpu.*'', sample_output 1 ''http'' ''mem'', sample_output 2 ''null'' ''*''],
      input_routes = [\<lparr>ir_input_name = ''cpu'', ir_processors = [],
        ir_routes = [\<lparr>route_name = ''r'', route_signals = FLB_ROUTER_SIGNAL_METRICS, route_condition = None,
          route_outputs = [\<lparr>ro_name = ''s3'', ro_fallback = Some ''http''\<rparr>], route_processors = []\<rparr>]\<rparr>]\<rparr>"

lemma router_io_set_connects_witness:
  "i_routes (inputs (snd (flb_router_io_set (\<lambda>_ _. -1) (\<lambda>_. True) (sample_router\<lparr>input_routes := []\<rparr>))) ! 0)
     = [0, 2]"
proof -
  have "map o_id (filter (accepts (\<lambda>_ _. -1) (inputs sample_router ! 0)) (outputs sample_router)) = [0, 2]"
    by code_simp
  then show ?thesis
    using router_io_set_connects [of "sample_router\<lparr>input_routes := []\<rparr>" 0 "\<lambda>_ _. -1"]
    by (simp add: sample_router_def sample_input_def)
qed

text \<open>
  applying a parsed configuration: the direct routes of an input afterwards are the ones it
  had and the targets (by name, else by fallback) of the outputs of the routes configured for it;
  the order of instances and their other fields are kept, and no output is connected twice.
\<close>

theorem router_apply_config_routes:
  assumes "n < length (inputs config)" and "distinct (i_routes_direct (inputs config ! n))"
  shows "set (i_routes_direct (inputs (snd (flb_router_apply_config (\<lambda>_. True) config)) ! n)) =
      set (i_routes_direct (inputs config ! n)) \<union>
      {o_id out |ir r ro out. ir \<in> set (input_routes config)
         \<and> map_option i_id (find_input_instance (inputs config) (ir_input_name ir)) = Some (i_id (inputs config ! n))
         \<and> r \<in> set (ir_routes ir) \<and> ro \<in> set (route_outputs r)
         \<and> route_target (outputs config) ro = Some out
         \<and> output_supports_signals out (route_signals r)}
    \<and> distinct (i_routes_direct (inputs (snd (flb_router_apply_config (\<lambda>_. True) config)) ! n))"
proof
  let ?c' = "inputs (snd (flb_router_apply_config (\<lambda>_. True) config)) ! n"
  have eq: "?c' = apply_all (\<lambda>_. True) (outputs config) (inputs config) (input_routes config) (inputs config ! n)"
    using assms(1) by (simp add: flb_router_apply_config_def apply_inputs_map)
  show "distinct (i_routes_direct ?c')" using assms(2) by (simp add: eq apply_all_effect(2))
  show "set (i_routes_direct ?c') =
      set (i_routes_direct (inputs config ! n)) \<union>
      {o_id out |ir r ro out. ir \<in> set (input_routes config)
         \<and> map_option i_id (find_input_instance (inputs config) (ir_input_name ir)) = Some (i_id (inputs config ! n))
         \<and> r \<in> set (ir_routes ir) \<and> ro \<in> set (route_outputs r)
         \<and> route_target (outputs config) ro = Some out
         \<and> output_supports_signals out (route_signals r)}"
    unfolding eq apply_all_effect(1) routes_for_def route_ids_def by blast
qed

lemma router_apply_config_routes_witness:
  "(1::int) \<in> set (i_routes_direct (inputs (snd (flb_router_apply_config (\<lambda>_. True) sample_router)) ! 0))"
proof -
  have "find_input_instance (inputs sample_router) ''cpu'' = Some (inputs sample_router ! 0)"
    by (simp add: sample_router_def sample_input_def find_input_instance_def instance_named_def)
  moreover have "route_target (outputs sample_router) \<lparr>ro_name = ''s3'', ro_fallback = Some ''http''\<rparr>
      = Some (sample_output 1 ''http'' ''mem'')"
    by (simp add: sample_router_def sample_output_def route_target_def find_output_instance_def instance_named_def)
  moreover have "o_id (sample_output 1 ''http'' ''mem'') = 1" by (simp add: sample_output_def)
  moreover have "output_supports_signals (sample_output 1 ''http'' ''mem'') FLB_ROUTER_SIGNAL_METRICS"
    by (rule supports_signals_three_bits) (simp add: signal_defs)
  ultimately show ?thesis
    using router_apply_config_routes [of 0 sample_router]
    by (simp add: sample_router_def sample_input_def)
qed

text \<open>
  the signal check of \<open>flb_router_apply_config\<close> never rejects an output: every mask the parser
  builds has only the bits of the three signals, and for those \<open>signals & FLB_ROUTER_SIGNAL_ANY\<close> holds
  as soon as one bit is set, so the tests of the single bits are not reached.
\<close>

theorem router_signal_check_vacuous:
  assumes "signals AND NOT FLB_ROUTER_SIGNAL_ANY = 0"
  shows "output_supports_signals out signals"
proof (cases "signals = 0")
  case False
  have "signals = (signals AND FLB_ROUTER_SIGNAL_ANY) OR (signals AND NOT FLB_ROUTER_SIGNAL_ANY)"
    by (simp add: bit_eq_iff bit_simps) blast
  with assms False have "signals AND FLB_ROUTER_SIGNAL_ANY \<noteq> 0" by auto
  then show ?thesis by (simp add: output_supports_signals_def)
qed (simp add: output_supports_signals_def)

lemma router_signal_check_vacuous_witness:
  "output_supports_signals ((sample_output 0 ''es'' ''*'')\<lparr>o_event_type := FLB_OUTPUT_METRICS\<rparr>) FLB_ROUTER_SIGNAL_LOGS"
  by (rule router_signal_check_vacuous) (simp add: signal_defs)

text \<open>
  when a route condition holds: there is none, or the chunk has a signal the route takes and the
  condition is the default one or has at least one rule. The rules themselves are not evaluated.
\<close>

theorem route_condition_holds_iff:
  "flb_route_condition_eval chunk (Some r) \<longleftrightarrow>
     (case route_condition r of
        None \<Rightarrow> True
      | Some c \<Rightarrow> flb_router_signal_from_chunk chunk \<noteq> 0
                 \<and> (route_signals r = 0 \<or> route_signals r = FLB_ROUTER_SIGNAL_ANY
                    \<or> route_signals r AND flb_router_signal_from_chunk chunk \<noteq> 0)
                 \<and> (is_default c \<or> cond_rules c \<noteq> []))"
proof (cases "route_condition r")
  case (Some c)
  have shape: "(if s then False else if a \<and> b \<and> d then False else if p then True else if q then True
      else if x then False else if y then False else if z then False else False) \<longleftrightarrow>
      \<not> s \<and> (\<not> a \<or> \<not> b \<or> \<not> d) \<and> (p \<or> q)" for s a b d p q x y z
    by (cases s; cases p; cases q) auto
  show ?thesis
    by (simp only: flb_route_condition_eval_def Let_def flb_condition_eval_logs_def
        flb_condition_eval_metrics_def flb_condition_eval_traces_def Some option.case shape
        not_not)
qed (simp add: flb_route_condition_eval_def)

lemma route_condition_holds_iff_witness:
  "\<not> flb_route_condition_eval (Some FLB_INPUT_LOGS)
     (Some \<lparr>route_name = ''r'', route_signals = FLB_ROUTER_SIGNAL_LOGS,
            route_condition = Some \<lparr>cond_rules = [], is_default = False\<rparr>,
            route_outputs = [], route_processors = []\<rparr>)"
  by (subst route_condition_holds_iff) simp

end
