(* ===== verification/Router_Config.thy ===== *)
theory Router_Config
  imports Router
begin

text \<open>
  The parser of the router configuration, \<^verbatim>\<open>src/src/flb_router_config.c\<close>: from the key-value
  lists of the input sections to \<open>struct flb_input_routes\<close>. A failed parse of a part is \<open>None\<close>
  (the NULL or \<open>-1\<close> return); allocations are taken to succeed, so the clean-up code that releases
  what was built before an error has no counterpart. The text of a double (\<open>"%.17g"\<close>) is a
  parameter \<open>fmt\<close> over the bits of the number.

  The lemmas show that a configuration that is accepted is well formed, that a rejected one leaves
  no routes behind, what the signal key of a block means, and that every well-formed configuration
  is read back from its printed form.
\<close>

section \<open>Variants\<close>

datatype cfl_variant =
    V_Bool bool
  | V_Int u64
  | V_Uint u64
  | V_Double u64
  | V_Null
  | V_Reference addr
  | V_String "cstring option"
  | V_Bytes "cstring option"
  | V_Array "cfl_variant list"
  | V_Kvlist "(cstring \<times> cfl_variant) list"

type_synonym cfl_kvlist = "(cstring \<times> cfl_variant) list"

definition cfl_kvlist_fetch_s :: "cfl_kvlist \<Rightarrow> cstring \<Rightarrow> nat \<Rightarrow> cfl_variant option" where
  "cfl_kvlist_fetch_s list k key_size =
     map_option snd (List.find (\<lambda>(l, v). length l = key_size \<and> strncasecmp_eq l k key_size) list)"

definition cfl_kvlist_fetch :: "cfl_kvlist \<Rightarrow> cstring \<Rightarrow> cfl_variant option" where
  "cfl_kvlist_fetch list k = cfl_kvlist_fetch_s list k (length k)"

text \<open>\<open>"%" PRIu64\<close> and \<open>"%" PRId64\<close>.\<close>

fun decimal :: "nat \<Rightarrow> cstring" where
  "decimal n = (if n < 10 then [] else decimal (n div 10)) @ [char_of (48 + n mod 10)]"

declare decimal.simps [simp del]

definition signed_decimal :: "int \<Rightarrow> cstring" where
  "signed_decimal n = (if n < 0 then CHR ''-'' # decimal (nat (- n)) else decimal (nat n))"

definition copy_from_cfl_sds :: "cstring option \<Rightarrow> cstring option" where
  "copy_from_cfl_sds v = (case v of None \<Rightarrow> None | Some s \<Rightarrow> Some s)"

definition variant_to_sds :: "(u64 \<Rightarrow> cstring) \<Rightarrow> cfl_variant \<Rightarrow> cstring option" where
  "variant_to_sds fmt var =
     (case var of
        V_String s \<Rightarrow> copy_from_cfl_sds s
      | V_Int n \<Rightarrow> Some (signed_decimal (sint n))
      | V_Uint n \<Rightarrow> Some (decimal (unat n))
      | V_Double d \<Rightarrow> Some (fmt d)
      | V_Bool b \<Rightarrow> Some (if b then ''true'' else ''false'')
      | _ \<Rightarrow> None)"

definition variant_to_bool :: "cfl_variant \<Rightarrow> bool option" where
  "variant_to_bool var =
     (case var of
        V_Bool b \<Rightarrow> Some b
      | V_String (Some s) \<Rightarrow>
          if strcasecmp_eq s ''true'' then Some True
          else if strcasecmp_eq s ''false'' then Some False
          else None
      | _ \<Rightarrow> None)"

section \<open>Signals and fields\<close>

definition field_allowed_for_logs :: "cstring \<Rightarrow> bool" where
  "field_allowed_for_logs field =
     (if strncmp_eq field ''$metric.'' 8 then False
      else if strncmp_eq field ''$span.'' 6 then False
      else if strncmp_eq field ''$scope.'' 7 then False
      else True)"

definition field_allowed_for_metrics :: "cstring \<Rightarrow> bool" where
  "field_allowed_for_metrics field =
     (if strncmp_eq field ''$metric.'' 8 then True
      else if strncmp_eq field ''$resource['' 10 then True
      else if strncmp_eq field ''$attributes['' 12 then True
      else False)"

definition field_allowed_for_traces :: "cstring \<Rightarrow> bool" where
  "field_allowed_for_traces field =
     (if strncmp_eq field ''$span.'' 6 then True
      else if strncmp_eq field ''$resource['' 10 then True
      else if strncmp_eq field ''$scope['' 7 then True
      else False)"

definition validate_rule_field :: "cstring \<Rightarrow> u32 \<Rightarrow> bool" where
  "validate_rule_field field signals =
     (let signals = (if signals = FLB_ROUTER_SIGNAL_ANY
                     then FLB_ROUTER_SIGNAL_LOGS OR FLB_ROUTER_SIGNAL_METRICS OR FLB_ROUTER_SIGNAL_TRACES
                     else signals);
          ok = False;
          ok = (if signals AND FLB_ROUTER_SIGNAL_LOGS \<noteq> 0 \<and> field_allowed_for_logs field then True else ok);
          ok = (if signals AND FLB_ROUTER_SIGNAL_METRICS \<noteq> 0 \<and> field_allowed_for_metrics field then True else ok);
          ok = (if signals AND FLB_ROUTER_SIGNAL_TRACES \<noteq> 0 \<and> field_allowed_for_traces field then True else ok)
      in ok)"

definition signal_sep :: "char \<Rightarrow> bool" where
  "signal_sep c = (c_isspace c \<or> c = CHR '','' \<or> c = CHR ''|'' \<or> c = CHR ''+'')"

text \<open>The chain of comparisons on one token; 0 stands for the early \<open>return 0\<close>.\<close>

definition signal_token :: "cstring \<Rightarrow> u32" where
  "signal_token tok =
     (if length tok = 4 \<and> strncasecmp_eq tok ''logs'' 4 then FLB_ROUTER_SIGNAL_LOGS
      else if length tok = 7 \<and> strncasecmp_eq tok ''metrics'' 7 then FLB_ROUTER_SIGNAL_METRICS
      else if length tok = 6 \<and> strncasecmp_eq tok ''traces'' 6 then FLB_ROUTER_SIGNAL_TRACES
      else if length tok = 3 \<and> strncasecmp_eq tok ''any'' 3 then FLB_ROUTER_SIGNAL_ANY
      else 0)"

lemma dropWhile_token_shorter:
  assumes "dropWhile signal_sep s \<noteq> []"
  shows "length (dropWhile (\<lambda>c. \<not> signal_sep c) (dropWhile signal_sep s)) < length s"
proof -
  obtain c t where t: "dropWhile signal_sep s = c # t" using assms by (cases "dropWhile signal_sep s") auto
  then have "\<not> signal_sep c" using hd_dropWhile [OF assms] by simp
  with t have "length (dropWhile (\<lambda>c. \<not> signal_sep c) (dropWhile signal_sep s)) \<le> length t"
    by (simp add: length_dropWhile_le)
  also have "\<dots> < length s" using t length_dropWhile_le [of signal_sep s] by simp
  finally show ?thesis .
qed

function signal_loop :: "cstring \<Rightarrow> u32 \<Rightarrow> u32" where
  "signal_loop cursor msk =
     (if cursor = [] then msk
      else let start = dropWhile signal_sep cursor
           in if start = [] then msk
              else let tok = takeWhile (\<lambda>c. \<not> signal_sep c) start;
                       rest = dropWhile (\<lambda>c. \<not> signal_sep c) start
                   in if signal_token tok = 0 then 0
                      else signal_loop rest (msk OR signal_token tok))"
  by pat_completeness auto

termination
  by (relation "measure (\<lambda>(s, _). length s)") (simp_all add: dropWhile_token_shorter)

declare signal_loop.simps [simp del]

definition parse_signal_key :: "cstring \<Rightarrow> u32" where
  "parse_signal_key k = signal_loop (c_str k) 0"

section \<open>Processors, conditions and outputs\<close>

fun add_processor_properties :: "(u64 \<Rightarrow> cstring) \<Rightarrow> cfl_kvlist \<Rightarrow> (cstring \<times> cstring) list option" where
  "add_processor_properties fmt [] = Some []"
| "add_processor_properties fmt ((k, v) # kvs) =
     (if strcmp_eq k ''name'' then add_processor_properties fmt kvs
      else case variant_to_sds fmt v of
             None \<Rightarrow> None
           | Some s \<Rightarrow> map_option ((#) (k, s)) (add_processor_properties fmt kvs))"

definition parse_processor :: "(u64 \<Rightarrow> cstring) \<Rightarrow> cfl_variant \<Rightarrow> flb_route_processor option" where
  "parse_processor fmt entry =
     (case entry of
        V_Kvlist kvlist \<Rightarrow>
          (case cfl_kvlist_fetch kvlist ''name'' of
             Some (V_String s) \<Rightarrow>
               (case copy_from_cfl_sds s of
                  None \<Rightarrow> None
                | Some name \<Rightarrow>
                    map_option (\<lambda>ps. \<lparr>rp_name = name, rp_properties = ps\<rparr>)
                      (add_processor_properties fmt kvlist))
           | _ \<Rightarrow> None)
      | _ \<Rightarrow> None)"

text \<open>A loop over an array that stops at the first entry that fails.\<close>

fun parse_each :: "('a \<Rightarrow> 'b option) \<Rightarrow> 'a list \<Rightarrow> 'b list option" where
  "parse_each f [] = Some []"
| "parse_each f (x # xs) =
     (case f x of None \<Rightarrow> None | Some y \<Rightarrow> map_option ((#) y) (parse_each f xs))"

definition parse_processors ::
  "(u64 \<Rightarrow> cstring) \<Rightarrow> cfl_variant \<Rightarrow> flb_route_processor list option" where
  "parse_processors fmt variant =
     (case variant of V_Array entries \<Rightarrow> parse_each (parse_processor fmt) entries | _ \<Rightarrow> None)"

definition parse_condition_rule ::
  "(u64 \<Rightarrow> cstring) \<Rightarrow> cfl_variant \<Rightarrow> flb_route_condition_rule option" where
  "parse_condition_rule fmt variant =
     (case variant of
        V_Kvlist kvlist \<Rightarrow>
          (case (cfl_kvlist_fetch kvlist ''field'', cfl_kvlist_fetch kvlist ''op'') of
             (Some (V_String f), Some (V_String p)) \<Rightarrow>
               (case (copy_from_cfl_sds f, copy_from_cfl_sds p) of
                  (Some field, Some op) \<Rightarrow>
                    (case cfl_kvlist_fetch kvlist ''value'' of
                       None \<Rightarrow> Some \<lparr>rule_field = field, rule_op = op, rule_value = None\<rparr>
                     | Some v \<Rightarrow>
                         if variant_to_sds fmt v = None \<and> \<not> strcmp_eq op ''exists'' then None
                         else Some \<lparr>rule_field = field, rule_op = op,
                                    rule_value = variant_to_sds fmt v\<rparr>)
                | _ \<Rightarrow> None)
           | _ \<Rightarrow> None)
      | _ \<Rightarrow> None)"

definition parse_valid_rule ::
  "(u64 \<Rightarrow> cstring) \<Rightarrow> u32 \<Rightarrow> cfl_variant \<Rightarrow> flb_route_condition_rule option" where
  "parse_valid_rule fmt signals entry =
     (case parse_condition_rule fmt entry of
        None \<Rightarrow> None
      | Some rule \<Rightarrow> if \<not> validate_rule_field (rule_field rule) signals then None else Some rule)"

definition parse_condition ::
  "(u64 \<Rightarrow> cstring) \<Rightarrow> cfl_variant \<Rightarrow> u32 \<Rightarrow> flb_route_condition option" where
  "parse_condition fmt variant signals =
     (case variant of
        V_Kvlist kvlist \<Rightarrow>
          (case (case cfl_kvlist_fetch kvlist ''default'' of
                   None \<Rightarrow> Some False
                 | Some d \<Rightarrow> variant_to_bool d) of
             None \<Rightarrow> None
           | Some dflt \<Rightarrow>
               (case (case cfl_kvlist_fetch kvlist ''rules'' of
                        None \<Rightarrow> Some []
                      | Some (V_Array entries) \<Rightarrow> parse_each (parse_valid_rule fmt signals) entries
                      | Some _ \<Rightarrow> None) of
                  None \<Rightarrow> None
                | Some rules \<Rightarrow>
                    if \<not> dflt \<and> rules = [] then None
                    else Some \<lparr>cond_rules = rules, is_default = dflt\<rparr>))
      | _ \<Rightarrow> None)"

definition add_output_from_variant :: "cfl_variant \<Rightarrow> flb_route_output option" where
  "add_output_from_variant variant =
     (case variant of
        V_String s \<Rightarrow> map_option (\<lambda>n. \<lparr>ro_name = n, ro_fallback = None\<rparr>) (copy_from_cfl_sds s)
      | V_Kvlist kvlist \<Rightarrow>
          (case cfl_kvlist_fetch kvlist ''name'' of
             Some (V_String s) \<Rightarrow>
               (case copy_from_cfl_sds s of
                  None \<Rightarrow> None
                | Some name \<Rightarrow>
                    (case cfl_kvlist_fetch kvlist ''fallback'' of
                       None \<Rightarrow> Some \<lparr>ro_name = name, ro_fallback = None\<rparr>
                     | Some (V_String f) \<Rightarrow>
                         map_option (\<lambda>f. \<lparr>ro_name = name, ro_fallback = Some f\<rparr>) (copy_from_cfl_sds f)
                     | Some _ \<Rightarrow> None))
           | _ \<Rightarrow> None)
      | _ \<Rightarrow> None)"

definition parse_outputs :: "cfl_variant \<Rightarrow> flb_route_output list option" where
  "parse_outputs variant =
     (case variant of
        V_Array entries \<Rightarrow>
          if length entries = 0 then None else parse_each add_output_from_variant entries
      | _ \<Rightarrow> map_option (\<lambda>x. [x]) (add_output_from_variant variant))"

section \<open>Routes and input sections\<close>

definition route_name_exists :: "flb_route list \<Rightarrow> cstring \<Rightarrow> bool" where
  "route_name_exists routes name = list_ex (\<lambda>r. strcmp_eq (route_name r) name) routes"

definition parse_route ::
  "(u64 \<Rightarrow> cstring) \<Rightarrow> cfl_variant \<Rightarrow> flb_route list \<Rightarrow> u32 \<Rightarrow> flb_route list option" where
  "parse_route fmt variant routes signals =
     (case variant of
        V_Kvlist kvlist \<Rightarrow>
          if signals = 0 then None
          else (case cfl_kvlist_fetch kvlist ''name'' of
             Some (V_String s) \<Rightarrow>
               (case copy_from_cfl_sds s of
                  None \<Rightarrow> None
                | Some name \<Rightarrow>
                    if route_name_exists routes name then None
                    else (case (case cfl_kvlist_fetch kvlist ''condition'' of
                                  None \<Rightarrow> Some None
                                | Some c \<Rightarrow> map_option Some (parse_condition fmt c signals)) of
                       None \<Rightarrow> None
                     | Some condition \<Rightarrow>
                         (case (case cfl_kvlist_fetch kvlist ''processors'' of
                                  None \<Rightarrow> Some []
                                | Some p \<Rightarrow> parse_processors fmt p) of
                            None \<Rightarrow> None
                          | Some processors \<Rightarrow>
                              (case cfl_kvlist_fetch kvlist ''to'' of
                                 None \<Rightarrow> None
                               | Some to_var \<Rightarrow>
                                   (case (case to_var of
                                            V_Kvlist l \<Rightarrow> cfl_kvlist_fetch l ''outputs''
                                          | _ \<Rightarrow> Some to_var) of
                                      None \<Rightarrow> None
                                    | Some outputs_var \<Rightarrow>
                                        (case parse_outputs outputs_var of
                                           None \<Rightarrow> None
                                         | Some outs \<Rightarrow>
                                             if outs = [] then None
                                             else Some (routes @
                                               [\<lparr>route_name = name, route_signals = signals,
                                                 route_condition = condition, route_outputs = outs,
                                                 route_processors = processors\<rparr>])))))))
           | _ \<Rightarrow> None)
      | _ \<Rightarrow> None)"

fun parse_route_list ::
  "(u64 \<Rightarrow> cstring) \<Rightarrow> cfl_variant list \<Rightarrow> flb_route list \<Rightarrow> u32 \<Rightarrow> flb_route list option" where
  "parse_route_list fmt [] routes signals = Some routes"
| "parse_route_list fmt (e # es) routes signals =
     (case parse_route fmt e routes signals of
        None \<Rightarrow> None
      | Some routes \<Rightarrow> parse_route_list fmt es routes signals)"

definition parse_routes_block ::
  "(u64 \<Rightarrow> cstring) \<Rightarrow> cfl_variant \<Rightarrow> flb_route list \<Rightarrow> u32 \<Rightarrow> flb_route list option" where
  "parse_routes_block fmt variant routes signals =
     (case variant of
        V_Array entries \<Rightarrow>
          if length entries = 0 then None else parse_route_list fmt entries routes signals
      | V_Kvlist _ \<Rightarrow> parse_route fmt variant routes signals
      | _ \<Rightarrow> None)"

fun parse_route_blocks ::
  "(u64 \<Rightarrow> cstring) \<Rightarrow> cfl_kvlist \<Rightarrow> flb_route list \<Rightarrow> flb_route list option" where
  "parse_route_blocks fmt [] routes = Some routes"
| "parse_route_blocks fmt ((k, v) # kvs) routes =
     (let msk = parse_signal_key k
      in if msk = 0 then None
         else case parse_routes_block fmt v routes msk of
                None \<Rightarrow> None
              | Some routes' \<Rightarrow>
                  if length routes' = length routes then None
                  else parse_route_blocks fmt kvs routes')"

text \<open>The result of a section: the return value and the list it was given, possibly extended.\<close>

definition parse_input_section ::
  "(u64 \<Rightarrow> cstring) \<Rightarrow> cfl_kvlist option \<Rightarrow> flb_input_routes list \<Rightarrow> int \<times> flb_input_routes list" where
  "parse_input_section fmt properties irs =
     (case properties of
        None \<Rightarrow> (-1, irs)
      | Some kvlist \<Rightarrow>
          (case cfl_kvlist_fetch kvlist ''routes'' of
             None \<Rightarrow> (0, irs)
           | Some (V_Kvlist routes_kvlist) \<Rightarrow>
               if routes_kvlist = [] then (0, irs)
               else (case cfl_kvlist_fetch kvlist ''name'' of
                  Some (V_String s) \<Rightarrow>
                    (case copy_from_cfl_sds s of
                       None \<Rightarrow> (-1, irs)
                     | Some name \<Rightarrow>
                         (case (case cfl_kvlist_fetch kvlist ''processors'' of
                                  None \<Rightarrow> Some []
                                | Some p \<Rightarrow> parse_processors fmt p) of
                            None \<Rightarrow> (-1, irs)
                          | Some processors \<Rightarrow>
                              (case parse_route_blocks fmt routes_kvlist [] of
                                 None \<Rightarrow> (-1, irs)
                               | Some routes \<Rightarrow>
                                   if routes = [] then (0, irs)
                                   else (1, irs @ [\<lparr>ir_input_name = name, ir_processors = processors,
                                                    ir_routes = routes\<rparr>]))))
                | _ \<Rightarrow> (-1, irs))
           | Some _ \<Rightarrow> (-1, irs)))"

definition flb_router_routes_destroy :: "flb_input_routes list \<Rightarrow> flb_input_routes list" where
  "flb_router_routes_destroy irs = []"

fun parse_sections ::
  "(u64 \<Rightarrow> cstring) \<Rightarrow> cfl_kvlist option list \<Rightarrow> flb_input_routes list \<Rightarrow> bool \<Rightarrow>
     int \<times> bool \<times> flb_input_routes list" where
  "parse_sections fmt [] irs found = (0, found, irs)"
| "parse_sections fmt (sec # secs) irs found =
     (case parse_input_section fmt sec irs of
        (ret, irs') \<Rightarrow>
          if ret = -1 then (-1, found, flb_router_routes_destroy irs')
          else parse_sections fmt secs irs' (if ret = 1 then True else found))"

text \<open>\<open>cf\<close> is the list of the properties of the input sections; NULL is \<open>None\<close>.\<close>

definition flb_router_config_parse ::
  "(u64 \<Rightarrow> cstring) \<Rightarrow> cfl_kvlist option list option \<Rightarrow> flb_input_routes list \<Rightarrow>
     int \<times> flb_input_routes list" where
  "flb_router_config_parse fmt cf irs =
     (case cf of
        None \<Rightarrow> (-1, irs)
      | Some sections \<Rightarrow>
          (case parse_sections fmt sections [] False of
             (ret, found, irs) \<Rightarrow>
               if ret = -1 then (-1, irs)
               else if irs = []
               then if found then (-1, flb_router_routes_destroy irs) else (0, irs)
               else (0, irs)))"

section \<open>Well-formed configurations\<close>

definition wf_condition :: "u32 \<Rightarrow> flb_route_condition \<Rightarrow> bool" where
  "wf_condition signals c \<longleftrightarrow>
     (is_default c \<or> cond_rules c \<noteq> [])
     \<and> (\<forall>r \<in> set (cond_rules c). validate_rule_field (rule_field r) signals)"

definition wf_route :: "flb_route \<Rightarrow> bool" where
  "wf_route r \<longleftrightarrow>
     route_signals r \<noteq> 0 \<and> route_signals r AND NOT FLB_ROUTER_SIGNAL_ANY = 0
     \<and> route_outputs r \<noteq> []
     \<and> (\<forall>c. route_condition r = Some c \<longrightarrow> wf_condition (route_signals r) c)"

definition wf_route_list :: "flb_route list \<Rightarrow> bool" where
  "wf_route_list rs \<longleftrightarrow> (\<forall>r \<in> set rs. wf_route r) \<and> distinct (map (\<lambda>r. c_str (route_name r)) rs)"

definition wf_input_routes :: "flb_input_routes \<Rightarrow> bool" where
  "wf_input_routes ir \<longleftrightarrow> ir_routes ir \<noteq> [] \<and> wf_route_list (ir_routes ir)"

lemma signal_token_bits: "signal_token tok AND NOT FLB_ROUTER_SIGNAL_ANY = 0"
  by (simp add: signal_token_def signal_defs)

lemma or_bits: "(a :: u32) AND NOT m = 0 \<Longrightarrow> b AND NOT m = 0 \<Longrightarrow> (a OR b) AND NOT m = 0"
  by (simp add: bit.conj_disj_distrib2)

lemma signal_loop_bits:
  "msk AND NOT FLB_ROUTER_SIGNAL_ANY = 0 \<Longrightarrow> signal_loop s msk AND NOT FLB_ROUTER_SIGNAL_ANY = 0"
proof (induction s msk rule: signal_loop.induct)
  case (1 cursor msk)
  then show ?case
    using or_bits [OF 1(2) signal_token_bits]
    by (subst signal_loop.simps) (simp add: Let_def)
qed

lemma parse_signal_key_bits: "parse_signal_key k AND NOT FLB_ROUTER_SIGNAL_ANY = 0"
  by (simp add: parse_signal_key_def signal_loop_bits del: signal_any)

lemma parse_each_SomeD:
  "parse_each f xs = Some ys \<Longrightarrow> (\<forall>y \<in> set ys. \<exists>x \<in> set xs. f x = Some y) \<and> length ys = length xs"
  by (induction xs arbitrary: ys) (fastforce split: option.splits)+

lemma parse_condition_wf:
  assumes "parse_condition fmt v signals = Some c"
  shows "wf_condition signals c"
proof -
  obtain kvlist where "v = V_Kvlist kvlist" using assms by (cases v) (auto simp: parse_condition_def)
  with assms obtain es where "parse_each (parse_valid_rule fmt signals) es = Some (cond_rules c)"
    and "is_default c \<or> cond_rules c \<noteq> []"
    by (auto simp: parse_condition_def split: option.splits if_splits cfl_variant.splits)
      (metis parse_each.simps(1))+
  then show ?thesis
    by (auto simp: wf_condition_def parse_valid_rule_def dest!: parse_each_SomeD
        split: option.splits if_splits)
qed

lemma parse_route_SomeD:
  assumes "parse_route fmt v routes signals = Some routes'"
  obtains r where "routes' = routes @ [r]" and "route_signals r = signals" and "signals \<noteq> 0"
    and "\<not> route_name_exists routes (route_name r)" and "route_outputs r \<noteq> []"
    and "\<forall>c. route_condition r = Some c \<longrightarrow> wf_condition signals c"
proof -
  obtain kvlist where v: "v = V_Kvlist kvlist" using assms by (cases v) (auto simp: parse_route_def)
  show ?thesis
    using assms that parse_condition_wf
    unfolding parse_route_def v
    by (fastforce split: option.splits if_splits cfl_variant.splits)
qed

lemma parse_route_wf:
  assumes "parse_route fmt v routes signals = Some routes'" and "wf_route_list routes"
    and "signals AND NOT FLB_ROUTER_SIGNAL_ANY = 0"
  shows "wf_route_list routes' \<and> length routes < length routes'"
  by (rule parse_route_SomeD [OF assms(1)])
    (use assms(2,3) in \<open>auto simp: wf_route_list_def wf_route_def route_name_exists_def strcmp_eq_def
      list_ex_iff\<close>)

lemma parse_route_list_wf:
  assumes "parse_route_list fmt es routes signals = Some routes'" and "wf_route_list routes"
    and "signals AND NOT FLB_ROUTER_SIGNAL_ANY = 0"
  shows "wf_route_list routes'"
  using assms
  by (induction es arbitrary: routes) (auto split: option.splits dest: parse_route_wf)

lemma parse_routes_block_wf:
  assumes "parse_routes_block fmt v routes signals = Some routes'" and "wf_route_list routes"
    and "signals AND NOT FLB_ROUTER_SIGNAL_ANY = 0"
  shows "wf_route_list routes'"
  using assms
  by (auto simp: parse_routes_block_def split: cfl_variant.splits if_splits
      dest: parse_route_wf parse_route_list_wf)

lemma parse_route_blocks_wf:
  assumes "parse_route_blocks fmt kvs routes = Some routes'" and "wf_route_list routes"
  shows "wf_route_list routes'"
  using assms parse_signal_key_bits
  by (induction fmt kvs routes rule: parse_route_blocks.induct)
    (auto simp: Let_def split: if_splits option.splits dest: parse_routes_block_wf)

lemma parse_input_section_wf:
  assumes "parse_input_section fmt sec irs = (ret, irs')" and "\<forall>ir \<in> set irs. wf_input_routes ir"
  shows "(\<forall>ir \<in> set irs'. wf_input_routes ir) \<and> (ret = 1 \<longrightarrow> irs' \<noteq> []) \<and> ret \<in> {-1, 0, 1}"
proof -
  have "wf_route_list []" by (simp add: wf_route_list_def)
  then have "wf_input_routes \<lparr>ir_input_name = n, ir_processors = ps, ir_routes = rs\<rparr>"
    if "parse_route_blocks fmt kvs [] = Some rs" and "rs \<noteq> []" for n ps rs kvs
    using that by (simp add: wf_input_routes_def parse_route_blocks_wf)
  then show ?thesis
    using assms unfolding parse_input_section_def
    by (auto split: option.splits if_splits cfl_variant.splits)
qed

lemma parse_sections_wf:
  assumes "parse_sections fmt secs irs found = (ret, found', irs')"
    and "\<forall>ir \<in> set irs. wf_input_routes ir" and "found \<longrightarrow> irs \<noteq> []"
  shows "(\<forall>ir \<in> set irs'. wf_input_routes ir) \<and> (ret = 0 \<longrightarrow> found' \<longrightarrow> irs' \<noteq> [])
    \<and> (ret = -1 \<longrightarrow> irs' = []) \<and> ret \<in> {-1, 0}"
  using assms
proof (induction fmt secs irs found rule: parse_sections.induct)
  case (2 fmt sec secs irs found)
  obtain ret1 irs1 where p: "parse_input_section fmt sec irs = (ret1, irs1)" by fastforce
  note wf = parse_input_section_wf [OF p 2(3)]
  have keep: "irs \<noteq> [] \<Longrightarrow> irs1 \<noteq> []"
    using p unfolding parse_input_section_def
    by (auto split: option.splits if_splits cfl_variant.splits)
  show ?case
  proof (cases "ret1 = -1")
    case True
    with p 2(2) show ?thesis by (auto simp: flb_router_routes_destroy_def)
  next
    case False
    with p 2(2) have "parse_sections fmt secs irs1 (if ret1 = 1 then True else found) = (ret, found', irs')"
      by simp
    with 2(1) [OF p [symmetric] False] wf 2(4) keep show ?thesis by auto
  qed
qed auto

section \<open>Printing\<close>

definition str :: "cstring \<Rightarrow> cfl_variant" where
  "str s = V_String (Some s)"

definition print_signals :: "u32 \<Rightarrow> cstring" where
  "print_signals s =
     (if s AND FLB_ROUTER_SIGNAL_LOGS \<noteq> 0 then ''logs,'' else [])
     @ (if s AND FLB_ROUTER_SIGNAL_METRICS \<noteq> 0 then ''metrics | '' else [])
     @ (if s AND FLB_ROUTER_SIGNAL_TRACES \<noteq> 0 then ''Traces'' else [])"

definition print_processor :: "flb_route_processor \<Rightarrow> cfl_variant" where
  "print_processor p =
     V_Kvlist ((''name'', str (rp_name p)) # map (\<lambda>(k, s). (k, str s)) (rp_properties p))"

definition print_rule :: "flb_route_condition_rule \<Rightarrow> cfl_variant" where
  "print_rule r =
     V_Kvlist ([(''field'', str (rule_field r)), (''op'', str (rule_op r))]
               @ (case rule_value r of None \<Rightarrow> [] | Some v \<Rightarrow> [(''value'', str v)]))"

definition print_condition :: "flb_route_condition \<Rightarrow> cfl_variant" where
  "print_condition c =
     V_Kvlist [(''rules'', V_Array (map print_rule (cond_rules c))), (''default'', V_Bool (is_default c))]"

definition print_output :: "flb_route_output \<Rightarrow> cfl_variant" where
  "print_output ro =
     (case ro_fallback ro of
        None \<Rightarrow> str (ro_name ro)
      | Some f \<Rightarrow> V_Kvlist [(''name'', str (ro_name ro)), (''fallback'', str f)])"

definition print_route :: "flb_route \<Rightarrow> cfl_variant" where
  "print_route r =
     V_Kvlist ([(''name'', str (route_name r)),
                (''processors'', V_Array (map print_processor (route_processors r))),
                (''to'', V_Kvlist [(''outputs'', V_Array (map print_output (route_outputs r)))])]
               @ (case route_condition r of None \<Rightarrow> [] | Some c \<Rightarrow> [(''condition'', print_condition c)]))"

definition print_section :: "flb_input_routes \<Rightarrow> cfl_kvlist option" where
  "print_section ir =
     Some [(''name'', str (ir_input_name ir)),
           (''processors'', V_Array (map print_processor (ir_processors ir))),
           (''routes'', V_Kvlist (map (\<lambda>r. (print_signals (route_signals r), print_route r)) (ir_routes ir)))]"

text \<open>A property called \<open>name\<close> would be taken for the name of the processor.\<close>

definition wf_processor :: "flb_route_processor \<Rightarrow> bool" where
  "wf_processor p \<longleftrightarrow> (\<forall>(k, s) \<in> set (rp_properties p). \<not> strcmp_eq k ''name'')"

definition wf_printable :: "flb_input_routes \<Rightarrow> bool" where
  "wf_printable ir \<longleftrightarrow>
     wf_input_routes ir \<and> list_all wf_processor (ir_processors ir)
     \<and> (\<forall>r \<in> set (ir_routes ir). list_all wf_processor (route_processors r))"

lemma fetch_cons:
  "cfl_kvlist_fetch ((l, v) # kvs) k =
     (if length l = length k \<and> strncasecmp_eq l k (length k) then Some v else cfl_kvlist_fetch kvs k)"
  by (simp add: cfl_kvlist_fetch_def cfl_kvlist_fetch_s_def)

lemma fetch_nil [simp]: "cfl_kvlist_fetch [] k = None"
  by (simp add: cfl_kvlist_fetch_def cfl_kvlist_fetch_s_def)

lemma field_value_keys [simp]: "\<not> strncasecmp_eq ''field'' ''value'' (Suc (Suc (Suc (Suc (Suc 0)))))"
  by code_simp

lemma copy_Some [simp]: "copy_from_cfl_sds (Some s) = Some s"
  by (simp add: copy_from_cfl_sds_def)

lemma parse_each_map: "(\<And>x. x \<in> set xs \<Longrightarrow> f (g x) = Some x) \<Longrightarrow> parse_each f (map g xs) = Some xs"
  by (induction xs) auto

lemma print_signals_inverse:
  assumes "s \<noteq> 0" and "s AND NOT FLB_ROUTER_SIGNAL_ANY = 0"
  shows "parse_signal_key (print_signals s) = s"
proof -
  have "s = (s AND mask 3) OR (s AND NOT (mask 3))"
    by (simp add: bit_eq_iff bit_simps) blast
  then have "take_bit 3 s = s" using assms(2) by (simp add: take_bit_eq_mask mask_eq_exp_minus_1)
  then have "unat s = take_bit 3 (unat s)" by (metis unsigned_take_bit_eq)
  then have "unat s < 8" using take_bit_nat_less_exp [of 3 "unat s"] by simp
  moreover have "unat s \<noteq> 0" using assms(1) by (simp add: unat_eq_0)
  ultimately have "unat s \<in> unat ` {1, 2, 3, 4, 5, 6, 7 :: u32}" by auto
  then have "s \<in> {1, 2, 3, 4, 5, 6, 7}" by (simp add: word_unat_eq_iff)
  then show ?thesis by (elim insertE) (simp_all only:, code_simp+)
qed

lemma print_processor_inverse:
  assumes "wf_processor p"
  shows "parse_processor fmt (print_processor p) = Some p"
proof -
  have "add_processor_properties fmt (map (\<lambda>(k, s). (k, str s)) ps) = Some ps"
    if "\<forall>(k, s) \<in> set ps. \<not> strcmp_eq k ''name''" for ps
    using that by (induction ps) (auto simp: str_def variant_to_sds_def)
  then show ?thesis
    using assms
    by (simp add: parse_processor_def print_processor_def wf_processor_def fetch_cons str_def
        strcmp_eq_def)
qed

lemma print_rule_inverse: "parse_condition_rule fmt (print_rule r) = Some r"
  by (cases "rule_value r")
    (simp_all add: parse_condition_rule_def print_rule_def fetch_cons str_def variant_to_sds_def)

lemma print_condition_inverse:
  assumes "wf_condition signals c"
  shows "parse_condition fmt (print_condition c) signals = Some c"
proof -
  have "parse_each (parse_valid_rule fmt signals) (map print_rule (cond_rules c)) = Some (cond_rules c)"
    using assms by (intro parse_each_map) (simp add: parse_valid_rule_def print_rule_inverse wf_condition_def)
  with assms show ?thesis
    by (simp add: parse_condition_def print_condition_def fetch_cons variant_to_bool_def wf_condition_def)
qed

lemma print_output_inverse: "add_output_from_variant (print_output ro) = Some ro"
  by (simp add: add_output_from_variant_def print_output_def fetch_cons str_def split: option.split)

lemma print_route_inverse:
  assumes "wf_route r" and "list_all wf_processor (route_processors r)"
    and "\<not> route_name_exists routes (route_name r)"
  shows "parse_route fmt (print_route r) routes (route_signals r) = Some (routes @ [r])"
proof -
  have "parse_each (parse_processor fmt) (map print_processor (route_processors r)) = Some (route_processors r)"
    using assms(2) by (intro parse_each_map print_processor_inverse) (simp add: list_all_iff)
  moreover have "parse_each add_output_from_variant (map print_output (route_outputs r)) = Some (route_outputs r)"
    by (intro parse_each_map print_output_inverse)
  ultimately show ?thesis
    using assms(1,3)
    by (cases "route_condition r")
      (auto simp: parse_route_def print_route_def fetch_cons str_def parse_processors_def
        parse_outputs_def wf_route_def print_condition_inverse)
qed

lemma print_blocks_inverse:
  assumes "wf_route_list (routes @ rs)" and "\<forall>r \<in> set rs. list_all wf_processor (route_processors r)"
  shows "parse_route_blocks fmt (map (\<lambda>r. (print_signals (route_signals r), print_route r)) rs) routes
           = Some (routes @ rs)"
  using assms
proof (induction rs arbitrary: routes)
  case (Cons r rs)
  have r: "wf_route r" and new: "\<not> route_name_exists routes (route_name r)"
    using Cons.prems(1)
    by (auto simp: wf_route_list_def route_name_exists_def strcmp_eq_def list_ex_iff image_iff)
  then have key: "parse_signal_key (print_signals (route_signals r)) = route_signals r"
    and "route_signals r \<noteq> 0"
    by (simp_all add: print_signals_inverse wf_route_def)
  moreover have "parse_routes_block fmt (print_route r) routes (route_signals r) = Some (routes @ [r])"
    using print_route_inverse [OF r _ new] Cons.prems(2)
    by (simp add: parse_routes_block_def print_route_def)
  ultimately show ?case using Cons.IH [of "routes @ [r]"] Cons.prems by (simp add: Let_def)
qed simp

lemma print_section_inverse:
  assumes "wf_printable ir"
  shows "parse_input_section fmt (print_section ir) irs = (1, irs @ [ir])"
proof -
  have "parse_each (parse_processor fmt) (map print_processor (ir_processors ir)) = Some (ir_processors ir)"
    using assms by (intro parse_each_map print_processor_inverse) (simp add: wf_printable_def list_all_iff)
  moreover have "parse_route_blocks fmt (map (\<lambda>r. (print_signals (route_signals r), print_route r)) (ir_routes ir)) []
      = Some (ir_routes ir)"
    using print_blocks_inverse [of "[]" "ir_routes ir" fmt] assms
    by (simp add: wf_printable_def wf_input_routes_def)
  ultimately show ?thesis
    using assms
    by (simp add: parse_input_section_def print_section_def fetch_cons str_def parse_processors_def
        wf_printable_def wf_input_routes_def)
qed

lemma print_sections_inverse:
  "\<forall>ir \<in> set irs. wf_printable ir \<Longrightarrow>
     parse_sections fmt (map print_section irs) acc found = (0, found \<or> irs \<noteq> [], acc @ irs)"
  by (induction irs arbitrary: acc found) (auto simp: print_section_inverse)

section \<open>Properties\<close>

text \<open>
  C37: a router configuration that is accepted is well formed: every input section kept has a route,
  the names of its routes are distinct, every route has a signal mask made of the three signals and
  at least one output, and a condition is the default one or has rules whose fields are all allowed
  for the signals of the route. When the parse fails no routes are left behind.
\<close>

theorem router_config_parse_wf:
  assumes "flb_router_config_parse fmt (Some sections) irs0 = (ret, irs)"
  shows "(\<forall>ir \<in> set irs. wf_input_routes ir) \<and> (ret = 0 \<or> ret = -1 \<and> irs = [])"
proof -
  obtain r found irs' where p: "parse_sections fmt sections [] False = (r, found, irs')"
    by (metis prod_cases3)
  have "(\<forall>ir \<in> set irs'. wf_input_routes ir) \<and> (r = 0 \<longrightarrow> found \<longrightarrow> irs' \<noteq> [])
    \<and> (r = -1 \<longrightarrow> irs' = []) \<and> r \<in> {-1, 0}"
    by (rule parse_sections_wf [OF p]) simp_all
  with assms p show ?thesis
    by (auto simp: flb_router_config_parse_def flb_router_routes_destroy_def split: if_splits)
qed

text \<open>
  C36: round trip: every well-formed configuration whose processors have no property called
  \<open>name\<close> is what the parser reads from its printed sections.
\<close>

theorem router_config_round_trip:
  assumes "\<forall>ir \<in> set irs. wf_printable ir"
  shows "flb_router_config_parse fmt (Some (map print_section irs)) irs0 = (0, irs)"
  using print_sections_inverse [OF assms] by (simp add: flb_router_config_parse_def)

definition sample_routes :: flb_input_routes where
  "sample_routes =
     \<lparr>ir_input_name = ''tail'', ir_processors = [\<lparr>rp_name = ''sampler'', rp_properties = [(''rate'', ''2'')]\<rparr>],
      ir_routes = [\<lparr>route_name = ''errors'', route_signals = 5,
        route_condition = Some \<lparr>cond_rules = [\<lparr>rule_field = ''$level'', rule_op = ''eq'', rule_value = Some ''error''\<rparr>],
                                is_default = False\<rparr>,
        route_outputs = [\<lparr>ro_name = ''loki'', ro_fallback = Some ''s3''\<rparr>, \<lparr>ro_name = ''null'', ro_fallback = None\<rparr>],
        route_processors = []\<rparr>]\<rparr>"

lemma sample_routes_printable: "wf_printable sample_routes"
proof -
  have "validate_rule_field ''$level'' 5" and "\<not> strcmp_eq ''rate'' ''name''" by code_simp+
  then show ?thesis
    by (simp add: wf_printable_def sample_routes_def wf_input_routes_def wf_route_list_def wf_route_def
        wf_condition_def wf_processor_def)
qed

lemma router_config_parse_wf_witness:
  "wf_input_routes (hd (snd (flb_router_config_parse (\<lambda>_. []) (Some (map print_section [sample_routes])) [])))"
  using router_config_parse_wf [of "\<lambda>_. []" "map print_section [sample_routes]" "[]" 0 "[sample_routes]"]
    print_sections_inverse [of "[sample_routes]" "\<lambda>_. []" "[]" False] sample_routes_printable
  by (simp add: flb_router_config_parse_def)

lemma router_config_round_trip_witness:
  "flb_router_config_parse (\<lambda>_. []) (Some (map print_section [sample_routes])) [] = (0, [sample_routes])"
  by (rule router_config_round_trip) (simp add: sample_routes_printable)

end
