(* ===== verification/Bucket_Queue.thy ===== *)
theory Bucket_Queue
  imports Flb_Prelude "HOL-Library.Multiset"
begin

text \<open>
  The queue in which the engine and its threads keep the events that are ready, in the order in which they
  are handled: \<^verbatim>\<open>src/include/fluent-bit/flb_bucket_queue.h\<close> and the loop over it of
  \<^verbatim>\<open>src/include/fluent-bit/flb_event_loop.h\<close>.

  There is one list per priority, and an index \<open>top\<close> below which all lists are empty; the pointer
  one past the last list is the index \<open>n_buckets\<close>. The interface is the locale \<open>prio_fifo\<close>:
  items come out by priority, and by age where priorities are equal. \<open>drain\<close> is the stable sort of what
  went in.
\<close>

section \<open>The queue\<close>

record 'a flb_bucket_queue =
  buckets :: "'a list list"
  n_buckets :: nat
  top :: nat
  n_items :: size_t

definition flb_bucket_queue_create :: "bool \<Rightarrow> bool \<Rightarrow> nat \<Rightarrow> 'a flb_bucket_queue option" where
  "flb_bucket_queue_create queue_ok buckets_ok priorities =
     (if \<not> queue_ok then None
      else if \<not> buckets_ok then None
      else Some \<lparr>buckets = replicate priorities [], n_buckets = priorities, top = priorities, n_items = 0\<rparr>)"

definition flb_bucket_queue_is_empty :: "'a flb_bucket_queue \<Rightarrow> bool" where
  "flb_bucket_queue_is_empty q \<longleftrightarrow> top q = n_buckets q"

function flb_bucket_queue_seek :: "'a flb_bucket_queue \<Rightarrow> 'a flb_bucket_queue" where
  "flb_bucket_queue_seek q =
     (if \<not> flb_bucket_queue_is_empty q \<and> top q < n_buckets q \<and> buckets q ! top q = []
      then flb_bucket_queue_seek (q\<lparr>top := top q + 1\<rparr>) else q)"
  by pat_completeness auto
termination by (relation "measure (\<lambda>q. n_buckets q - top q)") auto

declare flb_bucket_queue_seek.simps [simp del]

definition flb_bucket_queue_add :: "'a flb_bucket_queue \<Rightarrow> 'a \<Rightarrow> nat \<Rightarrow> int \<times> 'a flb_bucket_queue" where
  "flb_bucket_queue_add q x priority =
     (if priority \<ge> n_buckets q then (-1, q)
      else let q = flb_bucket_queue_seek q;
               q = q\<lparr>buckets := (buckets q)[priority := buckets q ! priority @ [x]]\<rparr>;
               q = (if priority < top q then q\<lparr>top := priority\<rparr> else q)
           in (0, q\<lparr>n_items := n_items q + 1\<rparr>))"

definition flb_bucket_queue_find_min :: "'a flb_bucket_queue \<Rightarrow> 'a option \<times> 'a flb_bucket_queue" where
  "flb_bucket_queue_find_min q =
     (let q = flb_bucket_queue_seek q
      in if flb_bucket_queue_is_empty q then (None, q) else (Some (hd (buckets q ! top q)), q))"

definition flb_bucket_queue_delete_min :: "'a flb_bucket_queue \<Rightarrow> 'a flb_bucket_queue" where
  "flb_bucket_queue_delete_min q =
     (let q = flb_bucket_queue_seek q
      in if flb_bucket_queue_is_empty q then q
         else let q = q\<lparr>buckets := (buckets q)[top q := tl (buckets q ! top q)]\<rparr>;
                  q = flb_bucket_queue_seek q
              in q\<lparr>n_items := n_items q - 1\<rparr>)"

definition flb_bucket_queue_pop_min :: "'a flb_bucket_queue \<Rightarrow> 'a option \<times> 'a flb_bucket_queue" where
  "flb_bucket_queue_pop_min q =
     (case flb_bucket_queue_find_min q of (x, q) \<Rightarrow> (x, flb_bucket_queue_delete_min q))"

text \<open>\<open>None\<close>: the memory is released.\<close>

definition flb_bucket_queue_destroy :: "'a flb_bucket_queue \<Rightarrow> int \<times> 'a flb_bucket_queue option" where
  "flb_bucket_queue_destroy q =
     (let q = flb_bucket_queue_seek q
      in if \<not> flb_bucket_queue_is_empty q then (-1, Some q) else (0, None))"

text \<open>Direct removal of an item, which the header allows: \<open>mk_list_del\<close> on its link.\<close>

definition bucket_item_del :: "'a \<Rightarrow> 'a flb_bucket_queue \<Rightarrow> 'a flb_bucket_queue" where
  "bucket_item_del x q = q\<lparr>buckets := map (filter (\<lambda>y. y \<noteq> x)) (buckets q)\<rparr>"

section \<open>A queue by priority and age\<close>

text \<open>Taking out up to \<open>n\<close> items.\<close>

fun drain :: "('q \<Rightarrow> 'a option \<times> 'q) \<Rightarrow> nat \<Rightarrow> 'q \<Rightarrow> 'a list" where
  "drain pop 0 q = []"
| "drain pop (Suc n) q = (case pop q of (None, q) \<Rightarrow> [] | (Some x, q) \<Rightarrow> x # drain pop n q)"

definition add_all :: "('q \<Rightarrow> 'a \<Rightarrow> nat \<Rightarrow> int \<times> 'q) \<Rightarrow> (nat \<times> 'a) list \<Rightarrow> 'q \<Rightarrow> 'q" where
  "add_all add xs q = fold (\<lambda>(p, x) q. snd (add q x p)) xs q"

lemma mset_filters:
  fixes xs ys :: "('k \<times> 'v) list"
  assumes "\<And>k. filter (\<lambda>y. fst y = k) xs = filter (\<lambda>y. fst y = k) ys"
  shows "mset xs = mset ys"
proof (rule multiset_eqI)
  fix y :: "'k \<times> 'v"
  have "count (mset zs) y = count (mset (filter (\<lambda>z. fst z = fst y) zs)) y" for zs :: "('k \<times> 'v) list" by (induction zs) auto
  then show "count (mset xs) y = count (mset ys) y" using assms [of "fst y"] by metis
qed

locale prio_fifo =
  fixes invar :: "'q \<Rightarrow> bool" and contents :: "'q \<Rightarrow> (nat \<times> 'a) list" and prios :: "'q \<Rightarrow> nat"
    and add :: "'q \<Rightarrow> 'a \<Rightarrow> nat \<Rightarrow> int \<times> 'q" and pop :: "'q \<Rightarrow> 'a option \<times> 'q"
  assumes ordered: "invar q \<Longrightarrow> sorted (map fst (contents q))"
    and add_refused: "prios q \<le> p \<Longrightarrow> add q x p = (-1, q)"
    and add_invar: "invar q \<Longrightarrow> p < prios q \<Longrightarrow> invar (snd (add q x p)) \<and> prios (snd (add q x p)) = prios q"
    and add_contents: "invar q \<Longrightarrow> p < prios q \<Longrightarrow>
      filter (\<lambda>y. fst y = k) (contents (snd (add q x p))) =
      filter (\<lambda>y. fst y = k) (contents q) @ (if p = k then [(p, x)] else [])"
    and pop_invar: "invar q \<Longrightarrow> invar (snd (pop q))"
    and pop_result: "invar q \<Longrightarrow> fst (pop q) = (case contents q of [] \<Rightarrow> None | y # ys \<Rightarrow> Some (snd y))"
    and pop_contents: "invar q \<Longrightarrow> contents (snd (pop q)) = tl (contents q)"
begin

lemma drain_contents: "invar q \<Longrightarrow> drain pop n q = map snd (take n (contents q))"
proof (induction n arbitrary: q)
  case (Suc n)
  obtain r q' where p: "pop q = (r, q')" by fastforce
  have "r = (case contents q of [] \<Rightarrow> None | y # ys \<Rightarrow> Some (snd y))" "contents q' = tl (contents q)" "invar q'"
    using pop_result [OF Suc.prems] pop_contents [OF Suc.prems] pop_invar [OF Suc.prems] p by simp_all
  then show ?case using Suc.IH [of q'] p by (auto split: list.split)
qed simp

lemma add_all_contents:
  assumes "invar q" and "\<forall>y \<in> set xs. fst y < prios q"
  shows "invar (add_all add xs q)
    \<and> filter (\<lambda>y. fst y = k) (contents (add_all add xs q)) =
      filter (\<lambda>y. fst y = k) (contents q) @ filter (\<lambda>y. fst y = k) xs"
  using assms
proof (induction xs arbitrary: q)
  case (Cons y xs)
  let ?q = "snd (add q (snd y) (fst y))"
  have q: "invar ?q" "prios ?q = prios q" using add_invar [OF Cons.prems(1)] Cons.prems(2) by auto
  have eq: "add_all add (y # xs) q = add_all add xs ?q" by (simp add: add_all_def case_prod_beta)
  show ?case
    using Cons.IH [OF q(1)] q(2) Cons.prems add_contents [OF Cons.prems(1), of "fst y" k "snd y"]
    unfolding eq by auto
qed (simp add: add_all_def)

lemma add_all_sorts:
  assumes "invar q" and "\<forall>y \<in> set xs. fst y < prios q" and "contents q = []"
  shows "contents (add_all add xs q) = sort_key fst xs"
proof (rule properties_for_sort_key [symmetric])
  let ?c = "contents (add_all add xs q)"
  have eq: "filter (\<lambda>y. fst y = k) ?c = filter (\<lambda>y. fst y = k) xs" for k
    using add_all_contents [OF assms(1,2), of k] assms(3) by simp
  show "mset ?c = mset xs" using eq by (rule mset_filters)
  show "filter (\<lambda>x. fst k = fst x) ?c = filter (\<lambda>x. fst k = fst x) xs" for k
    using eq [of "fst k"] by (simp add: eq_commute)
  show "sorted (map fst ?c)" using ordered add_all_contents [OF assms(1,2)] by blast
qed

end

section \<open>The buckets implement it\<close>

definition bq_contents :: "'a flb_bucket_queue \<Rightarrow> (nat \<times> 'a) list" where
  "bq_contents q = concat (map (\<lambda>p. map (Pair p) (buckets q ! p)) [0..<n_buckets q])"

definition bq_inv :: "'a flb_bucket_queue \<Rightarrow> bool" where
  "bq_inv q \<longleftrightarrow> length (buckets q) = n_buckets q \<and> top q \<le> n_buckets q \<and> (\<forall>p < top q. buckets q ! p = [])"

text \<open>The search for the first list that is not empty.\<close>

lemma seek_shape: "\<exists>k. flb_bucket_queue_seek q = q\<lparr>top := k\<rparr>"
proof (induction q rule: flb_bucket_queue_seek.induct)
  case (1 q)
  then show ?case by (subst flb_bucket_queue_seek.simps) (auto intro: exI [of _ "top q"])
qed

lemma seek_fields [simp]:
  "buckets (flb_bucket_queue_seek q) = buckets q" "n_buckets (flb_bucket_queue_seek q) = n_buckets q"
  "n_items (flb_bucket_queue_seek q) = n_items q"
  using seek_shape [of q] by auto

lemma seek_contents [simp]: "bq_contents (flb_bucket_queue_seek q) = bq_contents q"
  by (simp add: bq_contents_def)

lemma seek_inv: "bq_inv q \<Longrightarrow> bq_inv (flb_bucket_queue_seek q)"
proof (induction q rule: flb_bucket_queue_seek.induct)
  case (1 q)
  then show ?case
    by (subst flb_bucket_queue_seek.simps) (auto simp: bq_inv_def less_Suc_eq)
qed

lemma seek_found:
  "bq_inv q \<Longrightarrow> top (flb_bucket_queue_seek q) = n_buckets q \<or> buckets q ! top (flb_bucket_queue_seek q) \<noteq> []"
proof (induction q rule: flb_bucket_queue_seek.induct)
  case (1 q)
  show ?case
  proof (cases "\<not> flb_bucket_queue_is_empty q \<and> top q < n_buckets q \<and> buckets q ! top q = []")
    case True
    then have "bq_inv (q\<lparr>top := top q + 1\<rparr>)" using 1(2) by (auto simp: bq_inv_def less_Suc_eq)
    then show ?thesis using 1(1) [OF True] True by (subst (1 2) flb_bucket_queue_seek.simps) simp
  next
    case False
    then show ?thesis
      using 1(2) by (subst (1 2) flb_bucket_queue_seek.simps) (auto simp: bq_inv_def flb_bucket_queue_is_empty_def)
  qed
qed

lemma bq_filter:
  "filter (\<lambda>y. fst y = k) (bq_contents q) = (if k < n_buckets q then map (Pair k) (buckets q ! k) else [])"
proof -
  have "filter (\<lambda>y. fst y = k) (concat (map (\<lambda>p. map (Pair p) (f p)) ps)) =
      (if k \<in> set ps then map (Pair k) (f k) else [])" if "distinct ps" for ps and f :: "nat \<Rightarrow> 'a list"
    using that
  proof (induction ps)
    case (Cons p ps)
    have "filter (\<lambda>y. fst y = k) (map (Pair p) xs) = (if p = k then map (Pair p) xs else [])" for xs :: "'a list"
      by (induction xs) auto
    then show ?case using Cons by auto
  qed simp
  then show ?thesis by (simp add: bq_contents_def)
qed

lemma bq_ordered: "sorted (map fst (bq_contents q))"
proof -
  have "sorted (map fst (concat (map (\<lambda>p. map (Pair p) (f p)) [m..<n])))" for m n and f :: "nat \<Rightarrow> 'a list"
  proof (induction n)
    case (Suc n)
    then show ?case
      by (cases "m \<le> n") (auto simp: sorted_append map_concat comp_def map_replicate_const)
  qed simp
  then show ?thesis by (simp add: bq_contents_def)
qed

text \<open>The contents from the first list that is not empty.\<close>

lemma bq_contents_top:
  assumes "bq_inv q" and "top q < n_buckets q"
  shows "bq_contents q = map (Pair (top q)) (buckets q ! top q)
    @ concat (map (\<lambda>p. map (Pair p) (buckets q ! p)) [Suc (top q)..<n_buckets q])"
proof -
  have "[0..<n_buckets q] = [0..<top q] @ top q # [Suc (top q)..<n_buckets q]"
    using assms(2) upt_conv_Cons [OF assms(2)] upt_add_eq_append [of 0 "top q" "n_buckets q - top q"] by simp
  moreover have "concat (map (\<lambda>p. map (Pair p) (buckets q ! p)) [0..<top q]) = []"
    using assms(1) by (simp add: bq_inv_def)
  ultimately show ?thesis by (simp add: bq_contents_def)
qed

lemma bq_contents_none: "bq_inv q \<Longrightarrow> top q = n_buckets q \<Longrightarrow> bq_contents q = []"
  by (simp add: bq_contents_def bq_inv_def)

lemma upper_update:
  "concat (map (\<lambda>p. map (Pair p) (xs[k := z] ! p)) [Suc k..<n]) = concat (map (\<lambda>p. map (Pair p) (xs ! p)) [Suc k..<n])"
  by (intro arg_cong [where f = concat] map_cong) auto

lemma delete_min_eq:
  assumes I: "bq_inv q"
  shows "bq_inv (flb_bucket_queue_delete_min q) \<and> bq_contents (flb_bucket_queue_delete_min q) = tl (bq_contents q)"
proof -
  let ?q = "flb_bucket_queue_seek q"
  have I': "bq_inv ?q" using seek_inv [OF I] .
  show ?thesis
  proof (cases "top ?q = n_buckets q")
    case True
    then show ?thesis
      using I' bq_contents_none [OF I'] by (simp add: flb_bucket_queue_delete_min_def Let_def flb_bucket_queue_is_empty_def)
  next
    case False
    then have lt: "top ?q < n_buckets ?q" using I' by (auto simp: bq_inv_def)
    let ?q1 = "?q\<lparr>buckets := (buckets q)[top ?q := tl (buckets q ! top ?q)]\<rparr>"
    have I1: "bq_inv ?q1" using I' by (auto simp: bq_inv_def nth_list_update)
    have "bq_contents ?q1 = tl (bq_contents ?q)"
    proof -
      have "buckets q ! top ?q \<noteq> []" using seek_found [OF I] False by simp
      moreover have "top ?q < length (buckets q)" using I lt by (simp add: bq_inv_def)
      ultimately show ?thesis
        using bq_contents_top [OF I1] bq_contents_top [OF I' lt] lt by (simp add: map_tl upper_update)
    qed
    moreover have "flb_bucket_queue_delete_min q =
        (flb_bucket_queue_seek ?q1)\<lparr>n_items := n_items (flb_bucket_queue_seek ?q1) - 1\<rparr>"
      using False by (simp add: flb_bucket_queue_delete_min_def Let_def flb_bucket_queue_is_empty_def)
    ultimately show ?thesis using seek_inv [OF I1] by (simp add: bq_inv_def bq_contents_def)
  qed
qed

lemma find_min_eq:
  assumes I: "bq_inv q"
  shows "fst (flb_bucket_queue_find_min q) = (case bq_contents q of [] \<Rightarrow> None | y # ys \<Rightarrow> Some (snd y))"
    and "snd (flb_bucket_queue_find_min q) = flb_bucket_queue_seek q"
proof -
  let ?q = "flb_bucket_queue_seek q"
  have I': "bq_inv ?q" using seek_inv [OF I] .
  show "fst (flb_bucket_queue_find_min q) = (case bq_contents q of [] \<Rightarrow> None | y # ys \<Rightarrow> Some (snd y))"
  proof (cases "top ?q = n_buckets q")
    case True
    then show ?thesis
      using bq_contents_none [OF I'] by (simp add: flb_bucket_queue_find_min_def Let_def flb_bucket_queue_is_empty_def)
  next
    case False
    then have lt: "top ?q < n_buckets ?q" using I' by (auto simp: bq_inv_def)
    have "buckets q ! top ?q \<noteq> []" using seek_found [OF I] False by simp
    then show ?thesis
      using bq_contents_top [OF I' lt] False
      by (cases "buckets q ! top ?q") (simp_all add: flb_bucket_queue_find_min_def Let_def flb_bucket_queue_is_empty_def)
  qed
  show "snd (flb_bucket_queue_find_min q) = ?q" by (simp add: flb_bucket_queue_find_min_def Let_def)
qed

lemma pop_min_eq:
  assumes I: "bq_inv q"
  shows "bq_inv (snd (flb_bucket_queue_pop_min q))"
    and "bq_contents (snd (flb_bucket_queue_pop_min q)) = tl (bq_contents q)"
    and "fst (flb_bucket_queue_pop_min q) = (case bq_contents q of [] \<Rightarrow> None | y # ys \<Rightarrow> Some (snd y))"
  using delete_min_eq [OF seek_inv [OF I]] find_min_eq [OF I]
  by (simp_all add: flb_bucket_queue_pop_min_def case_prod_beta)

lemma bucket_add_eq:
  assumes I: "bq_inv q" and p: "p < n_buckets q"
  shows "bq_inv (snd (flb_bucket_queue_add q x p))" "n_buckets (snd (flb_bucket_queue_add q x p)) = n_buckets q"
    "buckets (snd (flb_bucket_queue_add q x p)) = (buckets q)[p := buckets q ! p @ [x]]"
    "fst (flb_bucket_queue_add q x p) = 0"
  using seek_inv [OF I] p by (auto simp: flb_bucket_queue_add_def Let_def bq_inv_def nth_list_update)

interpretation bq: prio_fifo bq_inv bq_contents n_buckets flb_bucket_queue_add flb_bucket_queue_pop_min
proof unfold_locales
  fix q :: "'a flb_bucket_queue" and p k x
  show "sorted (map fst (bq_contents q))" by (rule bq_ordered)
  show "n_buckets q \<le> p \<Longrightarrow> flb_bucket_queue_add q x p = (-1, q)" by (simp add: flb_bucket_queue_add_def)
  assume I: "bq_inv q"
  show "bq_inv (snd (flb_bucket_queue_pop_min q))" "bq_contents (snd (flb_bucket_queue_pop_min q)) = tl (bq_contents q)"
    "fst (flb_bucket_queue_pop_min q) = (case bq_contents q of [] \<Rightarrow> None | y # ys \<Rightarrow> Some (snd y))"
    using pop_min_eq [OF I] by simp_all
  assume p: "p < n_buckets q"
  show "bq_inv (snd (flb_bucket_queue_add q x p)) \<and> n_buckets (snd (flb_bucket_queue_add q x p)) = n_buckets q"
    using bucket_add_eq [OF I p] by simp
  show "filter (\<lambda>y. fst y = k) (bq_contents (snd (flb_bucket_queue_add q x p))) =
      filter (\<lambda>y. fst y = k) (bq_contents q) @ (if p = k then [(p, x)] else [])"
    using bucket_add_eq [OF I p] I p by (simp add: bq_filter bq_inv_def nth_list_update)
qed

lemma bq_create_inv:
  assumes "flb_bucket_queue_create b1 b2 n = Some q"
  shows "bq_inv q" "bq_contents q = []" "n_buckets q = n"
  using assms by (auto simp: flb_bucket_queue_create_def bq_inv_def bq_contents_def split: if_splits)

text \<open>
  C13: What is put in a bucket queue comes out by priority, and in the order in which it went in where
  priorities are equal: emptying the queue gives the stable sort of the insertions.
\<close>

theorem bucket_queue_sorts:
  assumes "flb_bucket_queue_create b1 b2 n = Some q" and "list_all (\<lambda>(p, x). p < n) xs" and "length xs \<le> k"
  shows "drain flb_bucket_queue_pop_min k (add_all flb_bucket_queue_add xs q) = map snd (sort_key fst xs)"
proof -
  note q = bq_create_inv [OF assms(1)]
  have lt: "\<forall>y \<in> set xs. fst y < n_buckets q" using assms(2) q(3) by (auto simp: list_all_iff)
  show ?thesis
    using bq.drain_contents [of "add_all flb_bucket_queue_add xs q" k] bq.add_all_contents [OF q(1) lt]
      bq.add_all_sorts [OF q(1) lt q(2)] assms(3) by simp
qed

lemma bucket_queue_sorts_witness:
  "drain flb_bucket_queue_pop_min 4
     (add_all flb_bucket_queue_add [(6, ''input''), (0, ''timer''), (6, ''output''), (1, ''net'')]
        (the (flb_bucket_queue_create True True 8))) = [''timer'', ''net'', ''input'', ''output'']"
  using bucket_queue_sorts [of True True 8 _ "[(6, ''input''), (0, ''timer''), (6, ''output''), (1, ''net'')]" 4]
  by (simp add: flb_bucket_queue_create_def)

section \<open>The loop over the events\<close>

text \<open>
  An event, by its address; \<open>_priority_head.prev\<close> is NULL while it is in no queue. The priority is a
  \<open>char\<close> that is converted to \<open>size_t\<close>.
\<close>

record mk_event =
  ev_addr :: addr
  ev_status :: nat
  ev_priority :: int

definition MK_EVENT_NONE :: nat where "MK_EVENT_NONE = 1"
definition FLB_ENGINE_LOOP_MAX_ITER :: nat where "FLB_ENGINE_LOOP_MAX_ITER = 10"
definition FLB_ENGINE_PRIORITY_COUNT :: nat where "FLB_ENGINE_PRIORITY_COUNT = 8"

definition in_bktq :: "mk_event flb_bucket_queue \<Rightarrow> mk_event \<Rightarrow> bool" where
  "in_bktq q ev \<longleftrightarrow> ev_addr ev \<in> ev_addr ` set (concat (buckets q))"

definition flb_event_load_bucket_queue_event ::
  "mk_event \<Rightarrow> mk_event flb_bucket_queue \<Rightarrow> mk_event flb_bucket_queue" where
  "flb_event_load_bucket_queue_event ev q =
     (if in_bktq q ev then q
      else snd (flb_bucket_queue_add q ev (unat (word_of_int (ev_priority ev) :: size_t))))"

definition flb_event_load_bucket_queue ::
  "mk_event list \<Rightarrow> mk_event flb_bucket_queue \<Rightarrow> mk_event flb_bucket_queue" where
  "flb_event_load_bucket_queue ready q =
     fold (\<lambda>ev q. if ev_status ev \<noteq> MK_EVENT_NONE then flb_event_load_bucket_queue_event ev q else q) ready q"

definition flb_event_load_injected_events ::
  "mk_event list \<Rightarrow> nat \<Rightarrow> mk_event flb_bucket_queue \<Rightarrow> mk_event flb_bucket_queue" where
  "flb_event_load_injected_events ready n_events_initial q =
     (if length ready < n_events_initial then q
      else if length ready > n_events_initial
      then fold flb_event_load_bucket_queue_event (drop n_events_initial ready) q
      else q)"

text \<open>
  The macro \<open>flb_event_priority_live_foreach\<close> with a limit: \<open>handle\<close> is the body of the loop, which
  may inject events and remove queued ones, \<open>wait\<close> is \<open>mk_event_wait_2\<close>. The state is the list of
  events the loop reports, the queue and the rest of the program. The result is the handled events, the event
  the loop holds when it ends, and the state.
\<close>

type_synonym 's loop_state = "mk_event list \<times> mk_event flb_bucket_queue \<times> 's"

definition next_event :: "mk_event flb_bucket_queue \<Rightarrow> mk_event option \<times> mk_event flb_bucket_queue" where
  "next_event q =
     (case flb_bucket_queue_find_min q of (None, q) \<Rightarrow> (None, q) | (Some _, q) \<Rightarrow> flb_bucket_queue_pop_min q)"

fun live_foreach ::
  "(mk_event \<Rightarrow> 's loop_state \<Rightarrow> 's loop_state) \<Rightarrow> ('s \<Rightarrow> mk_event list \<times> 's) \<Rightarrow> nat \<Rightarrow> nat \<Rightarrow> mk_event option \<Rightarrow>
     's loop_state \<Rightarrow> mk_event list \<times> mk_event option \<times> 's loop_state" where
  "live_foreach handle wait left n_events None st = ([], None, st)"
| "live_foreach handle wait 0 n_events (Some ev) st = ([], Some ev, st)"
| "live_foreach handle wait (Suc left) n_events (Some ev) st =
     (case handle ev st of
        (ready, q, s) \<Rightarrow>
          let q = flb_event_load_injected_events ready n_events q
          in case wait s of
               (ready, s) \<Rightarrow>
                 (case next_event (flb_event_load_bucket_queue ready q) of
                    (ev', q) \<Rightarrow>
                      (case live_foreach handle wait left (length ready) ev' (ready, q, s) of
                         (evs, held, st) \<Rightarrow> (ev # evs, held, st))))"

definition flb_event_priority_live_foreach ::
  "(mk_event \<Rightarrow> 's loop_state \<Rightarrow> 's loop_state) \<Rightarrow> ('s \<Rightarrow> mk_event list \<times> 's) \<Rightarrow> nat \<Rightarrow> 's loop_state \<Rightarrow>
     mk_event list \<times> mk_event option \<times> 's loop_state" where
  "flb_event_priority_live_foreach handle wait max_iter st =
     (case st of
        (ready, q, s) \<Rightarrow>
          (case next_event (flb_event_load_bucket_queue ready q) of
             (ev, q) \<Rightarrow> live_foreach handle wait max_iter (length ready) ev (ready, q, s)))"

lemma live_foreach_bound:
  "live_foreach handle wait left n ev st = (evs, held, st') \<Longrightarrow>
     length evs \<le> left \<and> (held \<noteq> None \<longrightarrow> length evs = left)
     \<and> (case ev of None \<Rightarrow> evs = [] | Some x \<Rightarrow> if left = 0 then held = Some x else \<exists>xs. evs = x # xs)"
proof (induction handle wait left n ev st arbitrary: evs held st' rule: live_foreach.induct)
  case (3 handle wait left n ev st)
  obtain ready q s where h: "handle ev st = (ready, q, s)" by (metis prod_cases3)
  obtain ready' s' where w: "wait s = (ready', s')" by fastforce
  obtain ev' q' where e: "next_event (flb_event_load_bucket_queue ready' (flb_event_load_injected_events ready n q)) = (ev', q')"
    by fastforce
  obtain evs' held' st'' where r: "live_foreach handle wait left (length ready') ev' (ready', q', s') = (evs', held', st'')"
    by (metis prod_cases3)
  show ?case using 3(1) [OF h [symmetric] refl refl w [symmetric] e [symmetric] r] 3(2) h w e r by auto
qed simp_all

lemma load_event_inv: "bq_inv q \<Longrightarrow> bq_inv (flb_event_load_bucket_queue_event ev q)"
  using bq.add_invar bq.add_refused
  by (metis flb_event_load_bucket_queue_event_def linorder_not_le snd_conv)

lemma load_inv: "bq_inv q \<Longrightarrow> bq_inv (flb_event_load_bucket_queue ready q)"
  unfolding flb_event_load_bucket_queue_def by (induction ready arbitrary: q) (simp_all add: load_event_inv)

lemma next_event_eq:
  assumes "bq_inv q"
  shows "fst (next_event q) = (case bq_contents q of [] \<Rightarrow> None | y # ys \<Rightarrow> Some (snd y))"
  using find_min_eq [OF assms] pop_min_eq(3) [OF seek_inv [OF assms]]
  by (auto simp: next_event_def case_prod_beta split: option.splits list.splits)


text \<open>Three ready events of one priority and a limit of two: the third is taken from the queue and left.\<close>

definition sample_event :: "nat \<Rightarrow> mk_event" where
  "sample_event n = \<lparr>ev_addr = n, ev_status = 2, ev_priority = 6\<rparr>"

definition sample_queue :: "mk_event flb_bucket_queue" where
  "sample_queue = the (flb_bucket_queue_create True True FLB_ENGINE_PRIORITY_COUNT)"

definition sample_round :: "mk_event list \<times> mk_event option \<times> nat loop_state" where
  "sample_round = flb_event_priority_live_foreach (\<lambda>ev st. st) (\<lambda>s. ([], s)) 2
     (map sample_event [0, 1, 2], sample_queue, 0)"

lemma event_loop_leaves_event:
  "map ev_addr (fst sample_round) = [0, 1] \<and> map_option ev_addr (fst (snd sample_round)) = Some 2
   \<and> concat (buckets (fst (snd (snd (snd sample_round))))) = []"
  by code_simp


end
