(* ===== verification/Hash_Table.thy ===== *)
theory Hash_Table
  imports Flb_Prelude
begin

text \<open>
  The hash table of \<^verbatim>\<open>src/src/flb_hash_table.c\<close>, used for the chunk indexes of the inputs, the
  environment and the upstream nodes. An entry is linked into two lists at once, its bucket chain
  and the table-wide insertion-order list, and its fields change in place; so the entries live in
  a store from addresses to entries and both lists hold addresses.

  The hash function (\<open>cfl_hash_64bits\<close>, XXH3) is a parameter \<open>hf\<close>; the clock and the random
  source are arguments; \<open>ok\<close> says which allocations succeed. The unchecked \<open>flb_strndup\<close> of the
  key is taken to succeed.

  The lemmas show the representation invariant is kept by every operation, that the table
  implements a finite map (interface \<open>kv_table\<close>), that eviction keeps the number of entries
  within \<open>max_entries\<close> and removes the entry its mode names, and that an expired entry is removed
  by the lookup that meets it.
\<close>

section \<open>Data\<close>

datatype evict_mode = EVICT_NONE | EVICT_OLDER | EVICT_LESS_USED | EVICT_RANDOM

text \<open>
  The value pointer of an entry: NULL, the table's own copy of the caller's buffer, or the
  caller's pointer stored as it is.
\<close>

datatype ht_value = Null_val | Owned addr "char list" | Ref addr

fun val_ptr :: "ht_value \<Rightarrow> addr option" where
  "val_ptr Null_val = None"
| "val_ptr (Owned p _) = Some p"
| "val_ptr (Ref p) = Some p"

record flb_hash_table_entry =
  created :: int
  hits :: u64
  e_hash :: u64
  key :: cstring
  key_len :: nat
  val :: ht_value
  val_size :: int
  e_table :: nat

record flb_hash_table_chain =
  c_count :: int
  chains :: "addr list"

record flb_hash_table =
  ht_evict_mode :: evict_mode
  max_entries :: int
  total_count :: int
  cache_ttl :: int
  case_sensitivity :: bool
  ht_size :: size_t
  entries :: "addr list"
  ht_table :: "flb_hash_table_chain list"
  ht_heap :: "addr \<rightharpoonup> flb_hash_table_entry"
  ht_next :: addr

text \<open>The allocations the code checks.\<close>

datatype ht_alloc = Table_Node | Table_Array | Lookup_Key | Insert_Key | Entry_Node | Value_Copy

type_synonym hash_fun = "char list \<Rightarrow> u64"

section \<open>Operations\<close>

definition convert_string_to_lowercase :: "cstring \<Rightarrow> nat \<Rightarrow> cstring" where
  "convert_string_to_lowercase input_buffer n = map c_tolower (take n input_buffer)"

text \<open>
  The lower-cased copy goes to a 64-byte buffer on the stack, or to the heap when the key has 63
  bytes or more; only the second can fail.
\<close>

definition flb_hash_table_compute_key_hash ::
  "hash_fun \<Rightarrow> bool \<Rightarrow> cstring \<Rightarrow> nat \<Rightarrow> bool \<Rightarrow> u64 option" where
  "flb_hash_table_compute_key_hash hf calloc_ok k n case_sensitive =
     (if \<not> case_sensitive
      then if n \<ge> 64 - 1 \<and> \<not> calloc_ok then None
           else Some (hf (convert_string_to_lowercase k n))
      else Some (hf (take n k)))"

definition ht_slot :: "flb_hash_table \<Rightarrow> u64 \<Rightarrow> nat" where
  "ht_slot ht h = unat (h mod ht_size ht)"

definition flb_hash_table_entry_free :: "flb_hash_table \<Rightarrow> addr \<Rightarrow> flb_hash_table" where
  "flb_hash_table_entry_free ht a =
     (case ht_heap ht a of
        None \<Rightarrow> ht
      | Some e \<Rightarrow>
          let c = ht_table ht ! e_table e
          in ht\<lparr>ht_table := (ht_table ht)[e_table e :=
                  c\<lparr>chains := remove1 a (chains c), c_count := c_count c - 1\<rparr>],
                entries := remove1 a (entries ht),
                total_count := total_count ht - 1,
                ht_heap := (ht_heap ht)(a := None)\<rparr>)"

definition flb_hash_table_create ::
  "(ht_alloc \<Rightarrow> bool) \<Rightarrow> evict_mode \<Rightarrow> size_t \<Rightarrow> int \<Rightarrow> flb_hash_table option" where
  "flb_hash_table_create ok mode sz mx =
     (if sz \<le> 0 then None
      else if \<not> ok Table_Node then None
      else if \<not> ok Table_Array then None
      else Some \<lparr>ht_evict_mode = mode, max_entries = mx, total_count = 0, cache_ttl = 0,
                 case_sensitivity = True, ht_size = sz, entries = [],
                 ht_table = replicate (unat sz) \<lparr>c_count = 0, chains = []\<rparr>,
                 ht_heap = Map.empty, ht_next = 1\<rparr>)"

definition flb_hash_table_create_with_ttl ::
  "(ht_alloc \<Rightarrow> bool) \<Rightarrow> int \<Rightarrow> evict_mode \<Rightarrow> size_t \<Rightarrow> int \<Rightarrow> flb_hash_table option" where
  "flb_hash_table_create_with_ttl ok ttl mode sz mx =
     (case flb_hash_table_create ok mode sz mx of
        None \<Rightarrow> None
      | Some ht \<Rightarrow> Some (ht\<lparr>cache_ttl := ttl\<rparr>))"

definition flb_hash_table_set_case_sensitivity ::
  "flb_hash_table \<Rightarrow> bool \<Rightarrow> flb_hash_table" where
  "flb_hash_table_set_case_sensitivity ht status = ht\<lparr>case_sensitivity := status\<rparr>"

text \<open>\<open>flb_hash_table_destroy\<close> frees the entries bucket by bucket, then the table itself.\<close>

definition destroy_chain :: "nat \<Rightarrow> flb_hash_table \<Rightarrow> flb_hash_table" where
  "destroy_chain i ht =
     fold (\<lambda>a ht. flb_hash_table_entry_free ht a) (chains (ht_table ht ! i)) ht"

definition flb_hash_table_destroy :: "flb_hash_table \<Rightarrow> flb_hash_table" where
  "flb_hash_table_destroy ht = fold destroy_chain [0..<unat (ht_size ht)] ht"

text \<open>\<open>random() % ht->total_count\<close> selects an index of the insertion-order list.\<close>

definition flb_hash_table_evict_random :: "nat \<Rightarrow> flb_hash_table \<Rightarrow> flb_hash_table" where
  "flb_hash_table_evict_random rnd ht =
     (let i = rnd mod nat (total_count ht)
      in if i < length (entries ht)
         then flb_hash_table_entry_free ht (entries ht ! i)
         else ht)"

definition hits_of :: "flb_hash_table \<Rightarrow> addr \<Rightarrow> u64" where
  "hits_of ht a = (case ht_heap ht a of None \<Rightarrow> 0 | Some e \<Rightarrow> hits e)"

fun less_used :: "flb_hash_table \<Rightarrow> addr option \<Rightarrow> addr list \<Rightarrow> addr option" where
  "less_used ht best [] = best"
| "less_used ht None (a # as) = less_used ht (Some a) as"
| "less_used ht (Some b) (a # as) =
     less_used ht (Some (if hits_of ht a < hits_of ht b then a else b)) as"

definition flb_hash_table_evict_less_used :: "flb_hash_table \<Rightarrow> flb_hash_table" where
  "flb_hash_table_evict_less_used ht =
     (case less_used ht None (entries ht) of
        None \<Rightarrow> ht
      | Some a \<Rightarrow> flb_hash_table_entry_free ht a)"

definition flb_hash_table_evict_older :: "flb_hash_table \<Rightarrow> flb_hash_table" where
  "flb_hash_table_evict_older ht =
     (case entries ht of [] \<Rightarrow> ht | a # _ \<Rightarrow> flb_hash_table_entry_free ht a)"

text \<open>The comparison every lookup makes: same length, same bytes (case folded on demand).\<close>

definition key_matches :: "flb_hash_table \<Rightarrow> cstring \<Rightarrow> nat \<Rightarrow> addr \<Rightarrow> bool" where
  "key_matches ht k n a =
     (case ht_heap ht a of
        None \<Rightarrow> False
      | Some e \<Rightarrow> key_len e = n
                 \<and> (if case_sensitivity ht then strncmp_eq (key e) k n
                    else strncasecmp_eq (key e) k n))"

definition hash_get_entry ::
  "(ht_alloc \<Rightarrow> bool) \<Rightarrow> hash_fun \<Rightarrow> flb_hash_table \<Rightarrow> cstring option \<Rightarrow> int \<Rightarrow>
     (nat \<times> addr) option" where
  "hash_get_entry ok hf ht k n =
     (case k of
        None \<Rightarrow> None
      | Some k \<Rightarrow>
          if n \<le> 0 then None
          else case flb_hash_table_compute_key_hash hf (ok Lookup_Key) k (nat n)
                      (case_sensitivity ht) of
                 None \<Rightarrow> None
               | Some h \<Rightarrow>
                   let i = ht_slot ht h; table = ht_table ht ! i
                   in if c_count table = 0 then None
                      else if c_count table = 1
                      then let a = hd (chains table)
                           in if key_matches ht k (nat n) a then Some (i, a) else None
                      else map_option (Pair i) (List.find (key_matches ht k (nat n)) (chains table)))"

text \<open>
  The caller hands a pointer and a size; \<open>bytes\<close> is the buffer of that size. Size 0 stores the
  pointer itself. A failed allocation leaves NULL behind with the old size.
\<close>

definition entry_set_value ::
  "(ht_alloc \<Rightarrow> bool) \<Rightarrow> int \<Rightarrow> addr \<Rightarrow> flb_hash_table_entry \<Rightarrow> addr \<Rightarrow> char list \<Rightarrow>
     int \<times> flb_hash_table_entry" where
  "entry_set_value ok now fresh e ptr bytes =
     (if length bytes > 0
      then if ok Value_Copy
           then (0, e\<lparr>val := Owned fresh bytes, val_size := int (length bytes), created := now\<rparr>)
           else (-1, e\<lparr>val := Null_val\<rparr>)
      else (0, e\<lparr>val := Ref ptr, val_size := -1, created := now\<rparr>))"

definition ht_make_room :: "nat \<Rightarrow> flb_hash_table \<Rightarrow> flb_hash_table" where
  "ht_make_room rnd ht =
     (if max_entries ht > 0 \<and> total_count ht \<ge> max_entries ht
      then case ht_evict_mode ht of
             EVICT_NONE \<Rightarrow> ht
           | EVICT_OLDER \<Rightarrow> flb_hash_table_evict_older ht
           | EVICT_LESS_USED \<Rightarrow> flb_hash_table_evict_less_used ht
           | EVICT_RANDOM \<Rightarrow> flb_hash_table_evict_random rnd ht
      else ht)"

definition ht_link :: "flb_hash_table \<Rightarrow> addr \<Rightarrow> flb_hash_table_entry \<Rightarrow> flb_hash_table" where
  "ht_link ht a e =
     (let c = ht_table ht ! e_table e
      in ht\<lparr>ht_heap := (ht_heap ht)(a \<mapsto> e),
            ht_table := (ht_table ht)[e_table e :=
              c\<lparr>chains := chains c @ [a], c_count := c_count c + 1\<rparr>],
            entries := entries ht @ [a],
            total_count := total_count ht + 1\<rparr>)"

definition flb_hash_table_add ::
  "(ht_alloc \<Rightarrow> bool) \<Rightarrow> hash_fun \<Rightarrow> int \<Rightarrow> nat \<Rightarrow> flb_hash_table \<Rightarrow> cstring option \<Rightarrow> int \<Rightarrow>
     addr \<Rightarrow> char list \<Rightarrow> int \<times> flb_hash_table" where
  "flb_hash_table_add ok hf now rnd ht k n ptr bytes =
     (case k of
        None \<Rightarrow> (-1, ht)
      | Some ks \<Rightarrow>
          if n \<le> 0 then (-1, ht)
          else
            let ht = ht_make_room rnd ht; fresh = ht_next ht
            in case hash_get_entry ok hf ht k n of
                 Some (i, a) \<Rightarrow>
                   (case ht_heap ht a of
                      None \<Rightarrow> (-1, ht)
                    | Some e \<Rightarrow>
                        (case entry_set_value ok now (fresh + 1) e ptr bytes of
                           (ret, e') \<Rightarrow>
                             (if ret = -1 then -1 else int i,
                              ht\<lparr>ht_heap := (ht_heap ht)(a \<mapsto> e'), ht_next := fresh + 2\<rparr>)))
               | None \<Rightarrow>
                   (case flb_hash_table_compute_key_hash hf (ok Insert_Key) ks (nat n)
                           (case_sensitivity ht) of
                      None \<Rightarrow> (-1, ht)
                    | Some h \<Rightarrow>
                        if \<not> ok Entry_Node then (-1, ht)
                        else
                          let i = ht_slot ht h;
                              e = \<lparr>created = now, hits = 0, e_hash = h, key = take (nat n) ks,
                                   key_len = nat n, val = Null_val, val_size = 0, e_table = i\<rparr>
                          in case entry_set_value ok now (fresh + 1) e ptr bytes of
                               (ret, e') \<Rightarrow>
                                 if ret = -1 then (-1, ht)
                                 else (int i, (ht_link ht fresh e')\<lparr>ht_next := fresh + 2\<rparr>)))"

text \<open>\<open>flb_hash_table_get\<close>: the id, the value and its size, or \<open>None\<close> for the \<open>-1\<close> return.\<close>

definition flb_hash_table_get ::
  "(ht_alloc \<Rightarrow> bool) \<Rightarrow> hash_fun \<Rightarrow> int \<Rightarrow> flb_hash_table \<Rightarrow> cstring option \<Rightarrow> int \<Rightarrow>
     (nat \<times> ht_value \<times> int) option \<times> flb_hash_table" where
  "flb_hash_table_get ok hf now ht k n =
     (case hash_get_entry ok hf ht k n of
        None \<Rightarrow> (None, ht)
      | Some (i, a) \<Rightarrow>
          (case ht_heap ht a of
             None \<Rightarrow> (None, ht)
           | Some e \<Rightarrow>
               if cache_ttl ht > 0 \<and> now > created e + cache_ttl ht
               then (None, flb_hash_table_entry_free ht a)
               else (Some (i, val e, val_size e),
                     ht\<lparr>ht_heap := (ht_heap ht)(a \<mapsto> e\<lparr>hits := hits e + 1\<rparr>)\<rparr>)))"

definition flb_hash_table_exists :: "flb_hash_table \<Rightarrow> u64 \<Rightarrow> bool" where
  "flb_hash_table_exists ht h =
     list_ex (\<lambda>a. case ht_heap ht a of None \<Rightarrow> False | Some e \<Rightarrow> e_hash e = h)
       (chains (ht_table ht ! ht_slot ht h))"

definition flb_hash_table_get_by_id ::
  "flb_hash_table \<Rightarrow> nat \<Rightarrow> cstring \<Rightarrow> (ht_value \<times> int) option" where
  "flb_hash_table_get_by_id ht i k =
     (if unat (ht_size ht) \<le> i then None
      else let table = ht_table ht ! i
           in if c_count table = 0 then None
              else let found = (if c_count table = 1 then Some (hd (chains table))
                                else List.find (\<lambda>a. case ht_heap ht a of None \<Rightarrow> False
                                                    | Some e \<Rightarrow> takeWhile (\<lambda>c. c \<noteq> NUL) (key e) = k)
                                       (chains table))
                   in case found of
                        None \<Rightarrow> None
                      | Some a \<Rightarrow> map_option (\<lambda>e. (val e, val_size e)) (ht_heap ht a))"

definition flb_hash_table_get_ptr ::
  "(ht_alloc \<Rightarrow> bool) \<Rightarrow> hash_fun \<Rightarrow> flb_hash_table \<Rightarrow> cstring option \<Rightarrow> int \<Rightarrow>
     ht_value option \<times> flb_hash_table" where
  "flb_hash_table_get_ptr ok hf ht k n =
     (case hash_get_entry ok hf ht k n of
        None \<Rightarrow> (None, ht)
      | Some (i, a) \<Rightarrow>
          (case ht_heap ht a of
             None \<Rightarrow> (None, ht)
           | Some e \<Rightarrow> (Some (val e),
                       ht\<lparr>ht_heap := (ht_heap ht)(a \<mapsto> e\<lparr>hits := hits e + 1\<rparr>)\<rparr>)))"

definition flb_hash_table_del ::
  "(ht_alloc \<Rightarrow> bool) \<Rightarrow> hash_fun \<Rightarrow> flb_hash_table \<Rightarrow> cstring option \<Rightarrow> int \<times> flb_hash_table" where
  "flb_hash_table_del ok hf ht k =
     (case k of
        None \<Rightarrow> (-1, ht)
      | Some ks \<Rightarrow>
          if length ks = 0 then (-1, ht)
          else case flb_hash_table_compute_key_hash hf (ok Lookup_Key) ks (length ks)
                      (case_sensitivity ht) of
                 None \<Rightarrow> (-1, ht)
               | Some h \<Rightarrow>
                   let table = ht_table ht ! ht_slot ht h;
                       found = (if c_count table = 1
                                then let a = hd (chains table)
                                     in if key_matches ht ks (length ks) a then Some a else None
                                else List.find (key_matches ht ks (length ks)) (chains table))
                   in case found of
                        None \<Rightarrow> (-1, ht)
                      | Some a \<Rightarrow> (0, flb_hash_table_entry_free ht a))"

text \<open>Deletion by key and value pointer; the key comparison is over the caller's length only.\<close>

definition flb_hash_table_del_ptr ::
  "(ht_alloc \<Rightarrow> bool) \<Rightarrow> hash_fun \<Rightarrow> flb_hash_table \<Rightarrow> cstring \<Rightarrow> nat \<Rightarrow> addr \<Rightarrow>
     int \<times> flb_hash_table" where
  "flb_hash_table_del_ptr ok hf ht k n ptr =
     (case flb_hash_table_compute_key_hash hf (ok Lookup_Key) k n (case_sensitivity ht) of
        None \<Rightarrow> (-1, ht)
      | Some h \<Rightarrow>
          (case List.find (\<lambda>a. case ht_heap ht a of None \<Rightarrow> False
                             | Some e \<Rightarrow> strncmp_eq (key e) k n \<and> val_ptr (val e) = Some ptr)
                  (chains (ht_table ht ! ht_slot ht h)) of
             None \<Rightarrow> (-1, ht)
           | Some a \<Rightarrow> (0, flb_hash_table_entry_free ht a)))"

section \<open>Representation invariant\<close>

definition key_hash :: "hash_fun \<Rightarrow> flb_hash_table \<Rightarrow> cstring \<Rightarrow> u64" where
  "key_hash hf ht k = (if case_sensitivity ht then hf k else hf (map c_tolower k))"

definition keys_eq :: "bool \<Rightarrow> cstring \<Rightarrow> cstring \<Rightarrow> bool" where
  "keys_eq cs k l \<longleftrightarrow>
     length k = length l \<and> (if cs then strncmp_eq k l (length k) else strncasecmp_eq k l (length k))"

text \<open>Both lists hold exactly the live entries and every counter is the length of its list.\<close>

definition ht_struct :: "flb_hash_table \<Rightarrow> bool" where
  "ht_struct ht \<longleftrightarrow>
     0 < unat (ht_size ht) \<and> length (ht_table ht) = unat (ht_size ht)
     \<and> total_count ht = int (length (entries ht))
     \<and> distinct (entries ht) \<and> set (entries ht) = dom (ht_heap ht)
     \<and> (\<forall>a \<in> dom (ht_heap ht). a < ht_next ht)
     \<and> (\<forall>a e. ht_heap ht a = Some e \<longrightarrow> e_table e < length (ht_table ht))
     \<and> (\<forall>i < length (ht_table ht).
          c_count (ht_table ht ! i) = int (length (chains (ht_table ht ! i)))
          \<and> distinct (chains (ht_table ht ! i))
          \<and> set (chains (ht_table ht ! i)) = {a. \<exists>e. ht_heap ht a = Some e \<and> e_table e = i})"

text \<open>Entries sit in the bucket of their key's hash, and no bucket holds a key twice.\<close>

definition ht_keys :: "hash_fun \<Rightarrow> flb_hash_table \<Rightarrow> bool" where
  "ht_keys hf ht \<longleftrightarrow>
     (\<forall>a e. ht_heap ht a = Some e \<longrightarrow>
        length (key e) = key_len e \<and> e_hash e = key_hash hf ht (key e)
        \<and> e_table e = ht_slot ht (e_hash e))
     \<and> (\<forall>a b e f. ht_heap ht a = Some e \<and> ht_heap ht b = Some f \<and> e_table e = e_table f
          \<and> keys_eq (case_sensitivity ht) (key e) (key f) \<longrightarrow> a = b)"

definition ht_inv :: "hash_fun \<Rightarrow> flb_hash_table \<Rightarrow> bool" where
  "ht_inv hf ht \<longleftrightarrow> ht_struct ht \<and> ht_keys hf ht"

text \<open>The entry that holds a key, and the finite map the table stands for.\<close>

definition holds_key :: "hash_fun \<Rightarrow> flb_hash_table \<Rightarrow> cstring \<Rightarrow> addr \<Rightarrow> bool" where
  "holds_key hf ht k a \<longleftrightarrow>
     (\<exists>e. ht_heap ht a = Some e \<and> e_table e = ht_slot ht (key_hash hf ht k)
          \<and> keys_eq (case_sensitivity ht) (key e) k)"

definition ht_lookup :: "hash_fun \<Rightarrow> flb_hash_table \<Rightarrow> cstring \<Rightarrow> ht_value option" where
  "ht_lookup hf ht k =
     (case List.find (holds_key hf ht k) (entries ht) of
        None \<Rightarrow> None
      | Some a \<Rightarrow> map_option val (ht_heap ht a))"

text \<open>Two keys the table cannot tell apart.\<close>

definition same_key :: "hash_fun \<Rightarrow> flb_hash_table \<Rightarrow> cstring \<Rightarrow> cstring \<Rightarrow> bool" where
  "same_key hf ht k l \<longleftrightarrow>
     keys_eq (case_sensitivity ht) k l
     \<and> ht_slot ht (key_hash hf ht k) = ht_slot ht (key_hash hf ht l)"

lemma keys_eq_refl [simp]: "keys_eq cs k k"
  by (simp add: keys_eq_def)

lemma keys_eq_sym: "keys_eq cs k l \<Longrightarrow> keys_eq cs l k"
  by (auto simp: keys_eq_def strncmp_eq_sym strncasecmp_eq_sym)

lemma keys_eq_trans: "keys_eq cs k l \<Longrightarrow> keys_eq cs l m \<Longrightarrow> keys_eq cs k m"
  by (auto simp: keys_eq_def intro: strncmp_eq_trans strncasecmp_eq_trans)

lemma same_key_refl [simp]: "same_key hf ht k k"
  by (simp add: same_key_def)

lemma same_key_exact:
  assumes "case_sensitivity ht" and "NUL \<notin> set k" and "NUL \<notin> set l"
  shows "same_key hf ht k l \<longleftrightarrow> k = l"
proof -
  have "keys_eq True k l \<longleftrightarrow> k = l"
    using assms(2,3) by (auto simp: keys_eq_def strncmp_eq_no_nul)
  then show ?thesis using assms(1) by (auto simp: same_key_def)
qed

lemma ht_structD:
  assumes "ht_struct ht"
  shows "0 < unat (ht_size ht)" and "length (ht_table ht) = unat (ht_size ht)"
    and "total_count ht = int (length (entries ht))" and "distinct (entries ht)"
    and "set (entries ht) = dom (ht_heap ht)"
    and "a \<in> dom (ht_heap ht) \<Longrightarrow> a < ht_next ht"
    and "ht_heap ht a = Some e \<Longrightarrow> e_table e < length (ht_table ht)"
  using assms by (auto simp: ht_struct_def)

lemma ht_struct_chain:
  assumes "ht_struct ht" and "i < length (ht_table ht)"
  shows "c_count (ht_table ht ! i) = int (length (chains (ht_table ht ! i)))"
    and "distinct (chains (ht_table ht ! i))"
    and "set (chains (ht_table ht ! i)) = {a. \<exists>e. ht_heap ht a = Some e \<and> e_table e = i}"
  using assms by (auto simp: ht_struct_def)

lemma ht_keysD:
  assumes "ht_keys hf ht" and "ht_heap ht a = Some e"
  shows "length (key e) = key_len e" and "e_hash e = key_hash hf ht (key e)"
    and "e_table e = ht_slot ht (e_hash e)"
  using assms by (auto simp: ht_keys_def)

lemma ht_keys_inj:
  assumes "ht_keys hf ht" and "ht_heap ht a = Some e" and "ht_heap ht b = Some f"
    and "e_table e = e_table f" and "keys_eq (case_sensitivity ht) (key e) (key f)"
  shows "a = b"
  using assms unfolding ht_keys_def by blast

lemma ht_keysI:
  assumes "\<And>a e. ht_heap ht a = Some e \<Longrightarrow> length (key e) = key_len e"
    and "\<And>a e. ht_heap ht a = Some e \<Longrightarrow> e_hash e = key_hash hf ht (key e)"
    and "\<And>a e. ht_heap ht a = Some e \<Longrightarrow> e_table e = ht_slot ht (e_hash e)"
    and "\<And>a b e f. ht_heap ht a = Some e \<Longrightarrow> ht_heap ht b = Some f \<Longrightarrow>
           e_table e = e_table f \<Longrightarrow> keys_eq (case_sensitivity ht) (key e) (key f) \<Longrightarrow> a = b"
  shows "ht_keys hf ht"
  using assms unfolding ht_keys_def by blast

lemma ht_slot_less: "ht_struct ht \<Longrightarrow> ht_slot ht h < length (ht_table ht)"
  using unat_mono [of "h mod ht_size ht" "ht_size ht"] ht_structD(1,2) [of ht]
  by (simp add: ht_slot_def unat_mod)

lemma holds_key_unique:
  assumes "ht_keys hf ht" and "holds_key hf ht k a" and "holds_key hf ht k b"
  shows "a = b"
proof -
  from assms(2,3) obtain e f where
    e: "ht_heap ht a = Some e" "e_table e = ht_slot ht (key_hash hf ht k)"
       "keys_eq (case_sensitivity ht) (key e) k" and
    f: "ht_heap ht b = Some f" "e_table f = ht_slot ht (key_hash hf ht k)"
       "keys_eq (case_sensitivity ht) (key f) k"
    by (auto simp: holds_key_def)
  then have "keys_eq (case_sensitivity ht) (key e) (key f)"
    by (blast intro: keys_eq_trans keys_eq_sym)
  with e f assms(1) show ?thesis by (metis ht_keys_inj)
qed

lemma find_unique:
  assumes "a \<in> set xs" and "P a" and "\<And>b. b \<in> set xs \<Longrightarrow> P b \<Longrightarrow> b = a"
  shows "List.find P xs = Some a"
proof (cases "List.find P xs")
  case None
  with assms(1,2) show ?thesis by (auto simp: find_None_iff)
next
  case (Some b)
  with assms(3) show ?thesis by (auto dest: find_SomeD)
qed

lemma holds_key_entries:
  "ht_struct ht \<Longrightarrow> holds_key hf ht k a \<Longrightarrow> a \<in> set (entries ht)"
  by (auto simp: holds_key_def ht_structD(5))

lemma ht_lookup_holds:
  assumes "ht_inv hf ht" and "holds_key hf ht k a"
  shows "ht_lookup hf ht k = map_option val (ht_heap ht a)"
proof -
  have "List.find (holds_key hf ht k) (entries ht) = Some a"
    using assms by (intro find_unique)
      (auto simp: ht_inv_def intro: holds_key_entries holds_key_unique)
  then show ?thesis by (simp add: ht_lookup_def)
qed

lemma ht_lookup_none_iff:
  assumes "ht_inv hf ht"
  shows "ht_lookup hf ht k = None \<longleftrightarrow> (\<forall>a. \<not> holds_key hf ht k a)"
proof
  assume "ht_lookup hf ht k = None"
  moreover have "map_option val (ht_heap ht a) \<noteq> None" if "holds_key hf ht k a" for a
    using that by (auto simp: holds_key_def)
  ultimately show "\<forall>a. \<not> holds_key hf ht k a"
    using ht_lookup_holds [OF assms] by metis
next
  assume "\<forall>a. \<not> holds_key hf ht k a"
  then have "List.find (holds_key hf ht k) (entries ht) = None" by (simp add: find_None_iff)
  then show "ht_lookup hf ht k = None" by (simp add: ht_lookup_def)
qed

section \<open>Lookup\<close>

lemma key_matches_holds:
  assumes "ht_inv hf ht" and "a \<in> set (chains (ht_table ht ! ht_slot ht (key_hash hf ht k)))"
  shows "key_matches ht k (length k) a \<longleftrightarrow> holds_key hf ht k a"
proof -
  let ?i = "ht_slot ht (key_hash hf ht k)"
  from assms obtain e where e: "ht_heap ht a = Some e" "e_table e = ?i"
    using ht_struct_chain(3) [OF _ ht_slot_less] by (auto simp: ht_inv_def)
  then have "length (key e) = key_len e"
    using assms(1) by (auto simp: ht_inv_def dest: ht_keysD)
  with e show ?thesis
    by (auto simp: key_matches_def holds_key_def keys_eq_def)
qed

lemma find_chain_holds:
  assumes "ht_inv hf ht"
  shows "List.find (key_matches ht k (length k))
           (chains (ht_table ht ! ht_slot ht (key_hash hf ht k))) = Some a \<longleftrightarrow> holds_key hf ht k a"
    (is "List.find _ ?c = _ \<longleftrightarrow> _")
proof -
  have eq: "List.find (key_matches ht k (length k)) ?c = List.find (holds_key hf ht k) ?c"
    by (rule find_cong_set) (rule key_matches_holds [OF assms])
  have mem: "b \<in> set ?c" if "holds_key hf ht k b" for b
    using that assms ht_struct_chain(3) [OF _ ht_slot_less]
    by (auto simp: ht_inv_def holds_key_def)
  show ?thesis
  proof
    assume "holds_key hf ht k a"
    with assms mem have "List.find (holds_key hf ht k) ?c = Some a"
      by (intro find_unique) (auto simp: ht_inv_def intro: holds_key_unique)
    with eq show "List.find (key_matches ht k (length k)) ?c = Some a" by simp
  next
    assume "List.find (key_matches ht k (length k)) ?c = Some a"
    with eq have "List.find (holds_key hf ht k) ?c = Some a" by simp
    then show "holds_key hf ht k a" by (auto dest: find_SomeD)
  qed
qed

text \<open>The shortcuts for empty and one-element buckets agree with the search of the chain.\<close>

lemma chain_shortcut:
  assumes "ht_struct ht" and "i < length (ht_table ht)"
  shows "(if c_count (ht_table ht ! i) = 0 then None
          else if c_count (ht_table ht ! i) = 1
          then if P (hd (chains (ht_table ht ! i))) then Some (hd (chains (ht_table ht ! i))) else None
          else List.find P (chains (ht_table ht ! i))) = List.find P (chains (ht_table ht ! i))"
  using ht_struct_chain(1) [OF assms]
  by (cases "chains (ht_table ht ! i)") (auto split: if_splits)

lemma compute_key_hash_whole:
  "ok_key \<Longrightarrow> flb_hash_table_compute_key_hash hf ok_key k (length k) (case_sensitivity ht)
      = Some (key_hash hf ht k)"
  by (simp add: flb_hash_table_compute_key_hash_def convert_string_to_lowercase_def key_hash_def)

lemma hash_get_entry_find:
  assumes "ht_inv hf ht" and "k \<noteq> []" and "ok Lookup_Key"
  shows "hash_get_entry ok hf ht (Some k) (int (length k)) =
           map_option (Pair (ht_slot ht (key_hash hf ht k)))
             (List.find (key_matches ht k (length k))
                (chains (ht_table ht ! ht_slot ht (key_hash hf ht k))))"
proof -
  let ?i = "ht_slot ht (key_hash hf ht k)"
  have "?i < length (ht_table ht)" and "ht_struct ht"
    using assms(1) by (auto simp: ht_inv_def ht_slot_less)
  then show ?thesis
    using assms(2,3) by (subst chain_shortcut [symmetric])
      (auto simp: hash_get_entry_def compute_key_hash_whole Let_def)
qed

lemma hash_get_entry_Some_iff:
  assumes "ht_inv hf ht" and "k \<noteq> []" and "ok Lookup_Key"
  shows "hash_get_entry ok hf ht (Some k) (int (length k)) = Some (i, a) \<longleftrightarrow>
           i = ht_slot ht (key_hash hf ht k) \<and> holds_key hf ht k a"
  using hash_get_entry_find [where ok = ok, OF assms] find_chain_holds [OF assms(1)]
  by (auto simp: map_option_eq_Some)

lemma hash_get_entry_None_iff:
  assumes "ht_inv hf ht" and "k \<noteq> []" and "ok Lookup_Key"
  shows "hash_get_entry ok hf ht (Some k) (int (length k)) = None \<longleftrightarrow>
           (\<forall>a. \<not> holds_key hf ht k a)"
  using hash_get_entry_find [where ok = ok, OF assms] find_chain_holds [OF assms(1), of k]
  by (metis not_None_eq option.map_disc_iff)

section \<open>Removing an entry, changing an entry in place, linking a new entry\<close>

lemma entry_free_sel [simp]:
  "max_entries (flb_hash_table_entry_free ht a) = max_entries ht"
  "cache_ttl (flb_hash_table_entry_free ht a) = cache_ttl ht"
  "case_sensitivity (flb_hash_table_entry_free ht a) = case_sensitivity ht"
  "ht_size (flb_hash_table_entry_free ht a) = ht_size ht"
  "ht_evict_mode (flb_hash_table_entry_free ht a) = ht_evict_mode ht"
  "ht_next (flb_hash_table_entry_free ht a) = ht_next ht"
  "length (ht_table (flb_hash_table_entry_free ht a)) = length (ht_table ht)"
  by (simp_all add: flb_hash_table_entry_free_def Let_def split: option.splits)

lemma entry_free_heap [simp]:
  "ht_heap (flb_hash_table_entry_free ht a) = (ht_heap ht)(a := None)"
  by (auto simp: flb_hash_table_entry_free_def Let_def split: option.splits)

lemma entry_free_entries:
  "ht_heap ht a = Some e \<Longrightarrow> entries (flb_hash_table_entry_free ht a) = remove1 a (entries ht)"
  "ht_heap ht a = Some e \<Longrightarrow> total_count (flb_hash_table_entry_free ht a) = total_count ht - 1"
  by (simp_all add: flb_hash_table_entry_free_def Let_def)

lemma entry_free_dead: "ht_heap ht a = None \<Longrightarrow> flb_hash_table_entry_free ht a = ht"
  by (simp add: flb_hash_table_entry_free_def)

lemma entry_free_chain:
  assumes "ht_heap ht a = Some e" and "e_table e < length (ht_table ht)"
    and "i < length (ht_table ht)"
  shows "ht_table (flb_hash_table_entry_free ht a) ! i =
           (if i = e_table e
            then (ht_table ht ! i)\<lparr>chains := remove1 a (chains (ht_table ht ! i)),
                                   c_count := c_count (ht_table ht ! i) - 1\<rparr>
            else ht_table ht ! i)"
  using assms by (simp add: flb_hash_table_entry_free_def Let_def nth_list_update)

lemma ht_struct_free:
  assumes "ht_struct ht"
  shows "ht_struct (flb_hash_table_entry_free ht a)"
proof (cases "ht_heap ht a")
  case None
  with assms show ?thesis by (simp add: entry_free_dead)
next
  case (Some e)
  note S = assms [unfolded ht_struct_def]
  have t: "e_table e < length (ht_table ht)" using S Some by blast
  have ents: "a \<in> set (entries ht)" using S Some by auto
  then have "0 < length (entries ht)" by (auto dest: length_pos_if_in_set)
  have chain: "a \<in> set (chains (ht_table ht ! e_table e))"
    using S Some t by auto
  let ?ht = "flb_hash_table_entry_free ht a"
  show ?thesis
    unfolding ht_struct_def
  proof (intro conjI allI impI ballI)
    have "length (entries ?ht) = length (entries ht) - 1"
      using Some ents by (simp add: entry_free_entries length_remove1)
    then show "total_count ?ht = int (length (entries ?ht))"
      using ht_structD(3) [OF assms] entry_free_entries(2) [OF Some] \<open>0 < length (entries ht)\<close>
      by linarith
    show "set (entries ?ht) = dom (ht_heap ?ht)"
      using S Some by (auto simp: entry_free_entries)
    show "distinct (entries ?ht)" using S Some by (simp add: entry_free_entries)
    fix i assume i: "i < length (ht_table ?ht)"
    then have i': "i < length (ht_table ht)" by simp
    have len: "0 < length (chains (ht_table ht ! e_table e))"
      using chain by (auto dest: length_pos_if_in_set)
    show "c_count (ht_table ?ht ! i) = int (length (chains (ht_table ?ht ! i)))"
      using ht_struct_chain(1) [OF assms i'] chain len
      by (auto simp: entry_free_chain [OF Some t i'] length_remove1)
    show "distinct (chains (ht_table ?ht ! i))"
      using ht_struct_chain(2) [OF assms i'] by (auto simp: entry_free_chain [OF Some t i'])
    show "set (chains (ht_table ?ht ! i)) = {x. \<exists>f. ht_heap ?ht x = Some f \<and> e_table f = i}"
      using ht_struct_chain(2,3) [OF assms i'] Some
      by (auto simp: entry_free_chain [OF Some t i'])
  qed (use S in \<open>auto split: if_splits\<close>)
qed

lemma key_hash_cong:
  "case_sensitivity ht' = case_sensitivity ht \<Longrightarrow> key_hash hf ht' = key_hash hf ht"
  by (rule ext) (simp add: key_hash_def)

lemma ht_slot_cong: "ht_size ht' = ht_size ht \<Longrightarrow> ht_slot ht' = ht_slot ht"
  by (rule ext) (simp add: ht_slot_def)

lemma entry_free_slot [simp]:
  "ht_slot (flb_hash_table_entry_free ht a) = ht_slot ht"
  "key_hash hf (flb_hash_table_entry_free ht a) = key_hash hf ht"
  by (rule ht_slot_cong, simp) (rule key_hash_cong, simp)

lemma ht_inv_free:
  assumes "ht_inv hf ht"
  shows "ht_inv hf (flb_hash_table_entry_free ht a)"
proof -
  have K: "ht_keys hf ht" using assms by (simp add: ht_inv_def)
  have live: "ht_heap ht b = Some e" if "ht_heap (flb_hash_table_entry_free ht a) b = Some e" for b e
    using that by (simp split: if_splits)
  have "ht_keys hf (flb_hash_table_entry_free ht a)"
  proof (rule ht_keysI)
    fix b c e f
    assume "ht_heap (flb_hash_table_entry_free ht a) b = Some e"
    then have b: "ht_heap ht b = Some e" by (rule live)
    show "length (key e) = key_len e"
      and "e_hash e = key_hash hf (flb_hash_table_entry_free ht a) (key e)"
      and "e_table e = ht_slot (flb_hash_table_entry_free ht a) (e_hash e)"
      using ht_keysD [OF K b] by simp_all
    assume "ht_heap (flb_hash_table_entry_free ht a) c = Some f" and "e_table e = e_table f"
      and "keys_eq (case_sensitivity (flb_hash_table_entry_free ht a)) (key e) (key f)"
    then show "b = c" using ht_keys_inj [OF K b live] by simp
  qed
  with assms show ?thesis by (simp add: ht_inv_def ht_struct_free)
qed

lemma holds_key_free:
  "holds_key hf (flb_hash_table_entry_free ht a) k b \<longleftrightarrow> holds_key hf ht k b \<and> b \<noteq> a"
  by (auto simp: holds_key_def)

lemma ht_lookup_free:
  assumes "ht_inv hf ht"
  shows "ht_lookup hf (flb_hash_table_entry_free ht a) k =
           (if holds_key hf ht k a then None else ht_lookup hf ht k)"
proof (cases "\<exists>b. holds_key hf ht k b \<and> b \<noteq> a")
  case True
  then obtain b where b: "holds_key hf ht k b" "b \<noteq> a" by blast
  then have "\<not> holds_key hf ht k a"
    using assms by (auto simp: ht_inv_def dest: holds_key_unique)
  with b assms show ?thesis
    using ht_lookup_holds [OF ht_inv_free [OF assms], of a k b] ht_lookup_holds [OF assms, of k b]
    by (simp add: holds_key_free)
next
  case False
  then have "ht_lookup hf (flb_hash_table_entry_free ht a) k = None"
    using assms by (simp add: ht_lookup_none_iff ht_inv_free holds_key_free)
  moreover have "ht_lookup hf ht k = None" if "\<not> holds_key hf ht k a"
    using False that assms ht_lookup_none_iff [OF assms] by blast
  ultimately show ?thesis by simp
qed

text \<open>Changing the value, the counters or the time stamp of a live entry.\<close>

definition same_place :: "flb_hash_table_entry \<Rightarrow> flb_hash_table_entry \<Rightarrow> bool" where
  "same_place e f \<longleftrightarrow> key f = key e \<and> key_len f = key_len e \<and> e_hash f = e_hash e \<and> e_table f = e_table e"

lemma ht_struct_touch:
  assumes "ht_struct ht" and "ht_heap ht a = Some e" and "e_table f = e_table e"
    and "ht_next ht \<le> n"
  shows "ht_struct (ht\<lparr>ht_heap := (ht_heap ht)(a \<mapsto> f), ht_next := n\<rparr>)"
proof -
  have "{x. \<exists>g. ((ht_heap ht)(a \<mapsto> f)) x = Some g \<and> e_table g = i}
          = {x. \<exists>g. ht_heap ht x = Some g \<and> e_table g = i}" for i
    using assms(2,3) by auto
  moreover have "a \<in> dom (ht_heap ht)" using assms(2) by blast
  ultimately show ?thesis
    using assms unfolding ht_struct_def by (auto simp: insert_absorb intro: less_le_trans)
qed

lemma ht_inv_touch:
  assumes "ht_inv hf ht" and "ht_heap ht a = Some e" and "same_place e f" and "ht_next ht \<le> n"
  shows "ht_inv hf (ht\<lparr>ht_heap := (ht_heap ht)(a \<mapsto> f), ht_next := n\<rparr>)"
proof -
  let ?ht = "ht\<lparr>ht_heap := (ht_heap ht)(a \<mapsto> f), ht_next := n\<rparr>"
  have "ht_slot ?ht = ht_slot ht" and "key_hash hf ?ht = key_hash hf ht"
    by (rule ht_slot_cong, simp) (rule key_hash_cong, simp)
  note eqs = this
  have K: "ht_keys hf ht" using assms(1) by (simp add: ht_inv_def)
  have place: "\<exists>g. ht_heap ht b = Some g \<and> same_place g h" if "ht_heap ?ht b = Some h" for b h
    using that assms(2,3) by (auto simp: same_place_def split: if_splits)
  have "ht_keys hf ?ht"
  proof (rule ht_keysI)
    fix b c g h
    assume "ht_heap ?ht b = Some g"
    then obtain g' where b: "ht_heap ht b = Some g'" and g: "same_place g' g" using place by blast
    show "length (key g) = key_len g" and "e_hash g = key_hash hf ?ht (key g)"
      and "e_table g = ht_slot ?ht (e_hash g)"
      using ht_keysD [OF K b] g by (simp_all add: eqs same_place_def)
    assume "ht_heap ?ht c = Some h" and same: "e_table g = e_table h"
      "keys_eq (case_sensitivity ?ht) (key g) (key h)"
    then obtain h' where "ht_heap ht c = Some h'" and "same_place h' h" using place by blast
    with b g same show "b = c" by (intro ht_keys_inj [OF K b]) (simp_all add: same_place_def)
  qed
  with assms show ?thesis by (auto simp: ht_inv_def same_place_def intro: ht_struct_touch)
qed

lemma holds_key_touch:
  assumes "ht_heap ht a = Some e" and "same_place e f"
  shows "holds_key hf (ht\<lparr>ht_heap := (ht_heap ht)(a \<mapsto> f), ht_next := n\<rparr>) k b = holds_key hf ht k b"
  using assms by (auto simp: holds_key_def same_place_def ht_slot_def key_hash_def)

lemma ht_lookup_touch:
  assumes "ht_inv hf ht" and "ht_heap ht a = Some e" and "same_place e f" and "ht_next ht \<le> n"
  shows "ht_lookup hf (ht\<lparr>ht_heap := (ht_heap ht)(a \<mapsto> f), ht_next := n\<rparr>) k =
           (if holds_key hf ht k a then Some (val f) else ht_lookup hf ht k)"
proof (cases "\<exists>b. holds_key hf ht k b")
  case True
  then obtain b where b: "holds_key hf ht k b" by blast
  have "b = a" if "holds_key hf ht k a"
    using that b assms(1) by (auto simp: ht_inv_def dest: holds_key_unique)
  with b show ?thesis
    using ht_lookup_holds [OF ht_inv_touch [OF assms], of k b] ht_lookup_holds [OF assms(1) b]
    by (auto simp: holds_key_touch [OF assms(2,3)])
next
  case False
  then show ?thesis
    using ht_lookup_none_iff [OF ht_inv_touch [OF assms], of k] ht_lookup_none_iff [OF assms(1), of k]
    by (simp add: holds_key_touch [OF assms(2,3)])
qed

definition ht_insert :: "flb_hash_table \<Rightarrow> addr \<Rightarrow> flb_hash_table_entry \<Rightarrow> addr \<Rightarrow> flb_hash_table" where
  "ht_insert ht a e n = (ht_link ht a e)\<lparr>ht_next := n\<rparr>"

lemma ht_insert_sel [simp]:
  "max_entries (ht_insert ht a e n) = max_entries ht"
  "cache_ttl (ht_insert ht a e n) = cache_ttl ht"
  "case_sensitivity (ht_insert ht a e n) = case_sensitivity ht"
  "ht_size (ht_insert ht a e n) = ht_size ht"
  "ht_evict_mode (ht_insert ht a e n) = ht_evict_mode ht"
  "ht_heap (ht_insert ht a e n) = (ht_heap ht)(a \<mapsto> e)"
  "entries (ht_insert ht a e n) = entries ht @ [a]"
  "total_count (ht_insert ht a e n) = total_count ht + 1"
  "ht_next (ht_insert ht a e n) = n"
  "length (ht_table (ht_insert ht a e n)) = length (ht_table ht)"
  by (simp_all add: ht_insert_def ht_link_def Let_def)

lemma ht_insert_slot [simp]:
  "ht_slot (ht_insert ht a e n) = ht_slot ht"
  "key_hash hf (ht_insert ht a e n) = key_hash hf ht"
  by (rule ht_slot_cong, simp) (rule key_hash_cong, simp)

lemma ht_insert_chain:
  "e_table e < length (ht_table ht) \<Longrightarrow> i < length (ht_table ht) \<Longrightarrow>
     ht_table (ht_insert ht a e n) ! i =
       (if i = e_table e
        then (ht_table ht ! i)\<lparr>chains := chains (ht_table ht ! i) @ [a],
                               c_count := c_count (ht_table ht ! i) + 1\<rparr>
        else ht_table ht ! i)"
  by (simp add: ht_insert_def ht_link_def Let_def nth_list_update)

lemma ht_struct_insert:
  assumes "ht_struct ht" and "ht_heap ht a = None" and "e_table e < length (ht_table ht)"
    and "a < n" and "ht_next ht \<le> n"
  shows "ht_struct (ht_insert ht a e n)"
  unfolding ht_struct_def
proof (intro conjI allI impI ballI)
  note S = assms(1) [unfolded ht_struct_def]
  have new: "a \<notin> set (entries ht)" using ht_structD(5) [OF assms(1)] assms(2) by auto
  show "total_count (ht_insert ht a e n) = int (length (entries (ht_insert ht a e n)))"
    and "distinct (entries (ht_insert ht a e n))"
    and "set (entries (ht_insert ht a e n)) = dom (ht_heap (ht_insert ht a e n))"
    using S new by simp_all
  fix i assume i: "i < length (ht_table (ht_insert ht a e n))"
  then have i': "i < length (ht_table ht)" by simp
  have "a \<notin> set (chains (ht_table ht ! i))"
    using ht_struct_chain(3) [OF assms(1) i'] assms(2) by auto
  then show "c_count (ht_table (ht_insert ht a e n) ! i)
          = int (length (chains (ht_table (ht_insert ht a e n) ! i)))"
    and "distinct (chains (ht_table (ht_insert ht a e n) ! i))"
    and "set (chains (ht_table (ht_insert ht a e n) ! i))
          = {x. \<exists>f. ht_heap (ht_insert ht a e n) x = Some f \<and> e_table f = i}"
    using ht_struct_chain [OF assms(1) i'] assms(2)
    by (auto simp: ht_insert_chain [OF assms(3) i'])
qed (use assms in \<open>auto simp: ht_struct_def split: if_splits intro: less_le_trans\<close>)

lemma ht_inv_insert:
  assumes "ht_inv hf ht" and "ht_heap ht a = None" and "a < n" and "ht_next ht \<le> n"
    and "length (key e) = key_len e" and "e_hash e = key_hash hf ht (key e)"
    and "e_table e = ht_slot ht (e_hash e)" and "\<forall>b. \<not> holds_key hf ht (key e) b"
  shows "ht_inv hf (ht_insert ht a e n)"
proof -
  have S: "ht_struct ht" and K: "ht_keys hf ht" using assms(1) by (simp_all add: ht_inv_def)
  have "e_table e < length (ht_table ht)" using assms(7) ht_slot_less [OF S] by simp
  then have "ht_struct (ht_insert ht a e n)"
    using S assms(2-4) by (intro ht_struct_insert)
  moreover have "ht_keys hf (ht_insert ht a e n)"
  proof (rule ht_keysI)
    fix b c g h
    assume b: "ht_heap (ht_insert ht a e n) b = Some g"
    then show "length (key g) = key_len g" and "e_hash g = key_hash hf (ht_insert ht a e n) (key g)"
      and "e_table g = ht_slot (ht_insert ht a e n) (e_hash g)"
      using assms(5-7) ht_keysD [OF K, of b g] by (simp_all split: if_splits)
    assume c: "ht_heap (ht_insert ht a e n) c = Some h" and t: "e_table g = e_table h"
      and eq: "keys_eq (case_sensitivity (ht_insert ht a e n)) (key g) (key h)"
    have no: "\<not> keys_eq (case_sensitivity ht) (key g') (key e)"
      if "ht_heap ht d = Some g'" and "e_table g' = e_table e" for d g'
      using that assms(6-8) by (auto simp: holds_key_def)
    show "b = c"
      using b c t eq no [of b g] no [of c h] keys_eq_sym [of "case_sensitivity ht"]
        ht_keys_inj [OF K, of b g c h]
      by (auto split: if_splits)
  qed
  ultimately show ?thesis by (simp add: ht_inv_def)
qed

lemma holds_key_insert:
  assumes "ht_heap ht a = None" and "e_hash e = key_hash hf ht (key e)"
    and "e_table e = ht_slot ht (e_hash e)"
  shows "holds_key hf (ht_insert ht a e n) k b \<longleftrightarrow>
           holds_key hf ht k b \<or> b = a \<and> same_key hf ht (key e) k"
  using assms by (auto simp: holds_key_def same_key_def)

lemma ht_lookup_insert:
  assumes "ht_inv hf ht" and "ht_heap ht a = None" and "a < n" and "ht_next ht \<le> n"
    and "length (key e) = key_len e" and "e_hash e = key_hash hf ht (key e)"
    and "e_table e = ht_slot ht (e_hash e)" and none: "\<forall>b. \<not> holds_key hf ht (key e) b"
  shows "ht_lookup hf (ht_insert ht a e n) k =
           (if same_key hf ht (key e) k then Some (val e) else ht_lookup hf ht k)"
proof -
  note inv = ht_inv_insert [OF assms]
  note holds = holds_key_insert [OF assms(2,6,7)]
  show ?thesis
  proof (cases "same_key hf ht (key e) k")
    case True
    then show ?thesis using ht_lookup_holds [OF inv, of k a] by (simp add: holds)
  next
    case False
    show ?thesis
    proof (cases "\<exists>b. holds_key hf ht k b")
      case True
      then obtain b where b: "holds_key hf ht k b" by blast
      then have "b \<noteq> a" using assms(2) by (auto simp: holds_key_def)
      then show ?thesis
        using False b ht_lookup_holds [OF inv, of k b] ht_lookup_holds [OF assms(1) b]
        by (simp add: holds)
    next
      case none: False
      then show ?thesis
        using False ht_lookup_none_iff [OF inv, of k] ht_lookup_none_iff [OF assms(1), of k]
        by (simp add: holds)
    qed
  qed
qed

lemma holds_same_key:
  assumes "holds_key hf ht k a"
  shows "holds_key hf ht l a \<longleftrightarrow> same_key hf ht k l"
proof -
  from assms obtain e where e: "ht_heap ht a = Some e"
    "e_table e = ht_slot ht (key_hash hf ht k)" "keys_eq (case_sensitivity ht) (key e) k"
    by (auto simp: holds_key_def)
  have "keys_eq (case_sensitivity ht) (key e) l \<longleftrightarrow> keys_eq (case_sensitivity ht) k l"
    using e(3) by (blast intro: keys_eq_trans keys_eq_sym)
  with e show ?thesis by (auto simp: holds_key_def same_key_def)
qed

lemma same_key_no_holder:
  assumes "\<forall>b. \<not> holds_key hf ht k b" and "same_key hf ht k l"
  shows "\<forall>b. \<not> holds_key hf ht l b"
  using assms holds_same_key [of hf ht l] by (metis keys_eq_sym same_key_def)

section \<open>Eviction\<close>

text \<open>The entry \<open>flb_hash_table_add\<close> removes before it looks the key up, if any.\<close>

definition ht_victim :: "nat \<Rightarrow> flb_hash_table \<Rightarrow> addr option" where
  "ht_victim rnd ht =
     (if max_entries ht > 0 \<and> total_count ht \<ge> max_entries ht
      then case ht_evict_mode ht of
             EVICT_NONE \<Rightarrow> None
           | EVICT_OLDER \<Rightarrow> (case entries ht of [] \<Rightarrow> None | a # _ \<Rightarrow> Some a)
           | EVICT_LESS_USED \<Rightarrow> less_used ht None (entries ht)
           | EVICT_RANDOM \<Rightarrow>
               (let i = rnd mod nat (total_count ht)
                in if i < length (entries ht) then Some (entries ht ! i) else None)
      else None)"

lemma make_room_victim:
  "ht_make_room rnd ht =
     (case ht_victim rnd ht of None \<Rightarrow> ht | Some a \<Rightarrow> flb_hash_table_entry_free ht a)"
  by (auto simp: ht_make_room_def ht_victim_def flb_hash_table_evict_older_def
      flb_hash_table_evict_less_used_def flb_hash_table_evict_random_def Let_def
      split: evict_mode.splits list.splits option.splits)

lemma less_used_best:
  "\<exists>a \<in> insert b (set as). less_used ht (Some b) as = Some a
     \<and> (\<forall>c \<in> insert b (set as). hits_of ht a \<le> hits_of ht c)"
proof (induction as arbitrary: b)
  case Nil
  then show ?case by simp
next
  case (Cons x as)
  let ?m = "if hits_of ht x < hits_of ht b then x else b"
  from Cons [of ?m] obtain a where a: "a \<in> insert ?m (set as)"
    "less_used ht (Some ?m) as = Some a" "\<forall>c \<in> insert ?m (set as). hits_of ht a \<le> hits_of ht c"
    by blast
  have "hits_of ht ?m \<le> hits_of ht x" and "hits_of ht ?m \<le> hits_of ht b" by auto
  with a show ?case by (intro bexI [of _ a]) (auto split: if_splits intro: order_trans)
qed

lemma less_used_spec:
  assumes "as \<noteq> []"
  obtains a where "a \<in> set as" and "less_used ht None as = Some a"
    and "\<forall>c \<in> set as. hits_of ht a \<le> hits_of ht c"
  using assms less_used_best [of "hd as" "tl as" ht] by (cases as) auto

lemma victim_live:
  assumes "ht_struct ht" and "ht_victim rnd ht = Some a"
  shows "a \<in> set (entries ht)" and "\<exists>e. ht_heap ht a = Some e"
proof -
  show "a \<in> set (entries ht)"
  proof (cases "ht_evict_mode ht")
    case EVICT_LESS_USED
    then show ?thesis
      using assms(2) less_used_spec [of "entries ht" ht]
      by (cases "entries ht") (auto simp: ht_victim_def split: if_splits)
  qed (use assms(2) in \<open>auto simp: ht_victim_def Let_def split: if_splits list.splits\<close>)
  then show "\<exists>e. ht_heap ht a = Some e" using ht_structD(5) [OF assms(1)] by auto
qed

lemma victim_exists:
  assumes "ht_struct ht" and "ht_evict_mode ht \<noteq> EVICT_NONE"
    and "0 < max_entries ht" and "max_entries ht \<le> total_count ht"
  shows "\<exists>a. ht_victim rnd ht = Some a"
proof -
  have pos: "0 < length (entries ht)" and tot: "nat (total_count ht) = length (entries ht)"
    using assms ht_structD(3) [OF assms(1)] by auto
  then have ne: "entries ht \<noteq> []" by auto
  show ?thesis
    using assms ne pos tot less_used_spec [OF ne, of ht]
    by (cases "ht_evict_mode ht") (auto simp: ht_victim_def Let_def split: list.splits)
qed

lemma make_room_inv: "ht_inv hf ht \<Longrightarrow> ht_inv hf (ht_make_room rnd ht)"
  by (simp add: make_room_victim ht_inv_free split: option.splits)

lemma make_room_sel [simp]:
  "max_entries (ht_make_room rnd ht) = max_entries ht"
  "cache_ttl (ht_make_room rnd ht) = cache_ttl ht"
  "case_sensitivity (ht_make_room rnd ht) = case_sensitivity ht"
  "ht_size (ht_make_room rnd ht) = ht_size ht"
  "ht_evict_mode (ht_make_room rnd ht) = ht_evict_mode ht"
  "ht_next (ht_make_room rnd ht) = ht_next ht"
  by (simp_all add: make_room_victim split: option.splits)

lemma make_room_slot [simp]:
  "ht_slot (ht_make_room rnd ht) = ht_slot ht"
  "key_hash hf (ht_make_room rnd ht) = key_hash hf ht"
  by (rule ht_slot_cong, simp) (rule key_hash_cong, simp)

lemma make_room_same_key [simp]: "same_key hf (ht_make_room rnd ht) = same_key hf ht"
  by (intro ext) (simp add: same_key_def)

lemma make_room_count:
  assumes "ht_struct ht" and "ht_evict_mode ht \<noteq> EVICT_NONE"
    and "0 < max_entries ht" and "total_count ht \<le> max_entries ht"
  shows "total_count (ht_make_room rnd ht) < max_entries ht"
proof (cases "max_entries ht \<le> total_count ht")
  case True
  with assms obtain a where a: "ht_victim rnd ht = Some a" by (metis victim_exists)
  with assms(1) obtain e where "ht_heap ht a = Some e" by (metis victim_live(2))
  with a assms(4) show ?thesis by (simp add: make_room_victim entry_free_entries)
next
  case False
  then show ?thesis by (simp add: make_room_victim ht_victim_def)
qed

section \<open>Insertion\<close>

definition stored_value :: "addr \<Rightarrow> addr \<Rightarrow> char list \<Rightarrow> ht_value" where
  "stored_value fresh ptr bytes = (if bytes = [] then Ref ptr else Owned fresh bytes)"

lemma entry_set_value_ok:
  "ok Value_Copy \<Longrightarrow> \<exists>e'. entry_set_value ok now fresh e ptr bytes = (0, e') \<and> same_place e e'
     \<and> val e' = stored_value fresh ptr bytes \<and> created e' = now \<and> hits e' = hits e"
  by (auto simp: entry_set_value_def same_place_def stored_value_def)

lemma entry_set_value_place:
  "entry_set_value ok now fresh e ptr bytes = (ret, e') \<Longrightarrow> same_place e e'"
  by (auto simp: entry_set_value_def same_place_def split: if_splits)

lemma fresh_dead: "ht_struct ht \<Longrightarrow> ht_heap ht (ht_next ht) = None"
  using ht_structD(6) [of ht "ht_next ht"] by (cases "ht_heap ht (ht_next ht)") auto

text \<open>
  The three outcomes of an insertion whose lookup ran: the value of the entry in place is
  changed, a new entry is linked, or nothing is stored.
\<close>

lemma add_replace:
  assumes "ht_inv hf ht" and "k \<noteq> []" and "ok Lookup_Key"
    and "holds_key hf (ht_make_room rnd ht) k a"
    and "ht_heap (ht_make_room rnd ht) a = Some e"
    and "entry_set_value ok now (ht_next ht + 1) e ptr bytes = (ret, e')"
  shows "flb_hash_table_add ok hf now rnd ht (Some k) (int (length k)) ptr bytes =
           (if ret = -1 then -1 else int (ht_slot ht (key_hash hf ht k)),
            (ht_make_room rnd ht)\<lparr>ht_heap := (ht_heap (ht_make_room rnd ht))(a \<mapsto> e'),
                                  ht_next := ht_next ht + 2\<rparr>)"
proof -
  have "hash_get_entry ok hf (ht_make_room rnd ht) (Some k) (int (length k))
          = Some (ht_slot ht (key_hash hf ht k), a)"
    using assms(1-4) by (simp add: hash_get_entry_Some_iff make_room_inv)
  with assms(2,5,6) show ?thesis
    by (simp add: flb_hash_table_add_def Let_def)
qed

lemma add_new:
  assumes "ht_inv hf ht" and "k \<noteq> []" and "ok Lookup_Key"
    and "\<forall>a. \<not> holds_key hf (ht_make_room rnd ht) k a"
  shows "flb_hash_table_add ok hf now rnd ht (Some k) (int (length k)) ptr bytes =
           (case flb_hash_table_compute_key_hash hf (ok Insert_Key) k (length k)
                   (case_sensitivity ht) of
              None \<Rightarrow> (-1, ht_make_room rnd ht)
            | Some h \<Rightarrow>
                if \<not> ok Entry_Node then (-1, ht_make_room rnd ht)
                else case entry_set_value ok now (ht_next ht + 1)
                            \<lparr>created = now, hits = 0, e_hash = h, key = k, key_len = length k,
                             val = Null_val, val_size = 0, e_table = ht_slot ht h\<rparr> ptr bytes of
                       (ret, e') \<Rightarrow>
                         if ret = -1 then (-1, ht_make_room rnd ht)
                         else (int (ht_slot ht h),
                               ht_insert (ht_make_room rnd ht) (ht_next ht) e' (ht_next ht + 2)))"
proof -
  have "hash_get_entry ok hf (ht_make_room rnd ht) (Some k) (int (length k)) = None"
    using assms by (simp add: hash_get_entry_None_iff make_room_inv)
  with assms(2) show ?thesis
    by (simp add: flb_hash_table_add_def Let_def ht_insert_def split: option.splits prod.splits)
qed

lemma compute_key_hash_SomeD:
  "flb_hash_table_compute_key_hash hf c k (length k) (case_sensitivity ht) = Some h \<Longrightarrow>
     h = key_hash hf ht k"
  by (auto simp: flb_hash_table_compute_key_hash_def convert_string_to_lowercase_def key_hash_def
      split: if_splits)

lemma add_inv:
  assumes "ht_inv hf ht" and "k \<noteq> []" and "ok Lookup_Key"
  shows "ht_inv hf (snd (flb_hash_table_add ok hf now rnd ht (Some k) (int (length k)) ptr bytes))"
proof (cases "\<exists>a. holds_key hf (ht_make_room rnd ht) k a")
  case True
  then obtain a e where a: "holds_key hf (ht_make_room rnd ht) k a"
    and e: "ht_heap (ht_make_room rnd ht) a = Some e"
    by (auto simp: holds_key_def)
  obtain ret e' where v: "entry_set_value ok now (ht_next ht + 1) e ptr bytes = (ret, e')"
    by (metis surj_pair)
  show ?thesis
    unfolding add_replace [where ok = ok, OF assms a e v]
    using ht_inv_touch [OF make_room_inv [OF assms(1)] e entry_set_value_place [OF v],
        of "ht_next ht + 2"] by simp
next
  case False
  let ?room = "ht_make_room rnd ht"
  have room: "ht_inv hf ?room" and S: "ht_struct ?room"
    using make_room_inv [OF assms(1)] by (simp_all add: ht_inv_def)
  have dead: "ht_heap ?room (ht_next ht) = None" using fresh_dead [OF S] by simp
  show ?thesis
    unfolding add_new [where ok = ok, OF assms False [simplified]]
    using room False
    by (auto split!: option.splits if_splits prod.splits intro!: ht_inv_insert dead
        dest!: entry_set_value_place compute_key_hash_SomeD simp: same_place_def)
qed

lemma add_effect:
  assumes "ht_inv hf ht" and "k \<noteq> []" and ok: "\<forall>x. ok x"
  shows "fst (flb_hash_table_add ok hf now rnd ht (Some k) (int (length k)) ptr bytes)
           = int (ht_slot ht (key_hash hf ht k))" (is "fst ?r = _")
    and "ht_lookup hf (snd (flb_hash_table_add ok hf now rnd ht (Some k) (int (length k)) ptr bytes)) l
           = (if same_key hf ht k l then Some (stored_value (ht_next ht + 1) ptr bytes)
              else ht_lookup hf (ht_make_room rnd ht) l)" (is "?look = _")
proof -
  let ?room = "ht_make_room rnd ht" and ?v = "stored_value (ht_next ht + 1) ptr bytes"
  have lk: "ok Lookup_Key" using ok by blast
  note room = make_room_inv [OF assms(1), of rnd]
  have "fst ?r = int (ht_slot ht (key_hash hf ht k))
        \<and> ?look = (if same_key hf ht k l then Some ?v else ht_lookup hf ?room l)"
  proof (cases "\<exists>a. holds_key hf ?room k a")
    case True
    then obtain a e where a: "holds_key hf ?room k a" and e: "ht_heap ?room a = Some e"
      by (auto simp: holds_key_def)
    obtain e' where v: "entry_set_value ok now (ht_next ht + 1) e ptr bytes = (0, e')"
      and p: "same_place e e'" and val: "val e' = ?v"
      using entry_set_value_ok [of ok] ok by metis
    show ?thesis
      using ht_lookup_touch [OF room e p, of "ht_next ht + 2" l] holds_same_key [OF a, of l] val
      by (simp add: add_replace [where ok = ok, OF assms(1,2) lk a e v])
  next
    case False
    let ?e = "\<lparr>created = now, hits = 0, e_hash = key_hash hf ht k, key = k, key_len = length k,
               val = Null_val, val_size = 0, e_table = ht_slot ht (key_hash hf ht k)\<rparr>"
    obtain e' where v: "entry_set_value ok now (ht_next ht + 1) ?e ptr bytes = (0, e')"
      and p: "same_place ?e e'" and val: "val e' = ?v"
      using entry_set_value_ok [of ok] ok by metis
    have dead: "ht_heap ?room (ht_next ht) = None"
      using fresh_dead [of ?room] room by (simp add: ht_inv_def)
    have h: "flb_hash_table_compute_key_hash hf (ok Insert_Key) k (length k) (case_sensitivity ht)
               = Some (key_hash hf ht k)"
      using ok by (simp add: compute_key_hash_whole)
    have "?r = (int (ht_slot ht (key_hash hf ht k)), ht_insert ?room (ht_next ht) e' (ht_next ht + 2))"
      using v h ok by (simp add: add_new [where ok = ok, OF assms(1,2) lk False [simplified]])
    moreover have "ht_lookup hf (ht_insert ?room (ht_next ht) e' (ht_next ht + 2)) l
        = (if same_key hf ?room (key e') l then Some (val e') else ht_lookup hf ?room l)"
      using p False by (intro ht_lookup_insert room dead) (simp_all add: same_place_def)
    ultimately show ?thesis using p val by (simp add: same_place_def)
  qed
  then show "fst ?r = int (ht_slot ht (key_hash hf ht k))"
    and "?look = (if same_key hf ht k l then Some ?v else ht_lookup hf ?room l)" by simp_all
qed

lemma add_count:
  assumes "ht_inv hf ht" and "k \<noteq> []" and "ok Lookup_Key"
  shows "total_count (snd (flb_hash_table_add ok hf now rnd ht (Some k) (int (length k)) ptr bytes))
           \<le> total_count (ht_make_room rnd ht) + 1"
proof (cases "\<exists>a. holds_key hf (ht_make_room rnd ht) k a")
  case True
  then obtain a e where a: "holds_key hf (ht_make_room rnd ht) k a"
    and e: "ht_heap (ht_make_room rnd ht) a = Some e"
    by (auto simp: holds_key_def)
  obtain ret e' where v: "entry_set_value ok now (ht_next ht + 1) e ptr bytes = (ret, e')"
    by (metis surj_pair)
  show ?thesis by (simp add: add_replace [where ok = ok, OF assms a e v])
next
  case False
  then show ?thesis
    by (auto simp: add_new [where ok = ok, OF assms] split: option.splits prod.splits)
qed

lemma add_sel:
  fixes now rnd ptr bytes
  assumes "ht_inv hf ht" and "k \<noteq> []" and "ok Lookup_Key"
  defines "ht' \<equiv> snd (flb_hash_table_add ok hf now rnd ht (Some k) (int (length k)) ptr bytes)"
  shows "max_entries ht' = max_entries ht \<and> ht_evict_mode ht' = ht_evict_mode ht
    \<and> case_sensitivity ht' = case_sensitivity ht \<and> ht_size ht' = ht_size ht
    \<and> cache_ttl ht' = cache_ttl ht"
proof (cases "\<exists>a. holds_key hf (ht_make_room rnd ht) k a")
  case True
  then obtain a e where a: "holds_key hf (ht_make_room rnd ht) k a"
    and e: "ht_heap (ht_make_room rnd ht) a = Some e"
    by (auto simp: holds_key_def)
  obtain ret e' where v: "entry_set_value ok now (ht_next ht + 1) e ptr bytes = (ret, e')"
    by (metis surj_pair)
  show ?thesis by (simp add: ht'_def add_replace [where ok = ok, OF assms(1-3) a e v])
next
  case False
  then show ?thesis
    by (auto simp: ht'_def add_new [where ok = ok, OF assms(1-3)] split: option.splits prod.splits)
qed

section \<open>Lookup and deletion operations\<close>

lemma get_effect:
  assumes "ht_inv hf ht" and "k \<noteq> []" and "ok Lookup_Key"
  shows "ht_inv hf (snd (flb_hash_table_get ok hf now ht (Some k) (int (length k))))"
    and "cache_ttl ht \<le> 0 \<Longrightarrow>
           map_option (fst \<circ> snd) (fst (flb_hash_table_get ok hf now ht (Some k) (int (length k))))
             = ht_lookup hf ht k"
    and "cache_ttl ht \<le> 0 \<Longrightarrow>
           ht_lookup hf (snd (flb_hash_table_get ok hf now ht (Some k) (int (length k))))
             = ht_lookup hf ht"
proof -
  let ?r = "flb_hash_table_get ok hf now ht (Some k) (int (length k))"
  have "ht_inv hf (snd ?r) \<and> (cache_ttl ht \<le> 0 \<longrightarrow>
          map_option (fst \<circ> snd) (fst ?r) = ht_lookup hf ht k
          \<and> ht_lookup hf (snd ?r) = ht_lookup hf ht)"
  proof (cases "\<exists>a. holds_key hf ht k a")
    case False
    then have "hash_get_entry ok hf ht (Some k) (int (length k)) = None"
      and "ht_lookup hf ht k = None"
      using hash_get_entry_None_iff [where ok = ok, OF assms] ht_lookup_none_iff [OF assms(1)] by blast+
    then show ?thesis using assms(1) by (simp add: flb_hash_table_get_def)
  next
    case True
    then obtain a e where a: "holds_key hf ht k a" and e: "ht_heap ht a = Some e"
      by (auto simp: holds_key_def)
    have g: "hash_get_entry ok hf ht (Some k) (int (length k))
               = Some (ht_slot ht (key_hash hf ht k), a)"
      using hash_get_entry_Some_iff [where ok = ok, OF assms] a by blast
    have place: "same_place e (e\<lparr>hits := hits e + 1\<rparr>)" by (simp add: same_place_def)
    have keep: "ht_lookup hf (ht\<lparr>ht_heap := (ht_heap ht)(a \<mapsto> e\<lparr>hits := hits e + 1\<rparr>)\<rparr>) l
                  = ht_lookup hf ht l" for l
      using ht_lookup_touch [OF assms(1) e place order_refl, of l] ht_lookup_holds [OF assms(1), of l a] e
      by (cases ht) auto
    have "ht_inv hf (ht\<lparr>ht_heap := (ht_heap ht)(a \<mapsto> e\<lparr>hits := hits e + 1\<rparr>)\<rparr>)"
      using ht_inv_touch [OF assms(1) e place order_refl] by (cases ht) simp
    then show ?thesis
      using g e assms(1) keep ht_lookup_holds [OF assms(1) a]
      by (auto simp: flb_hash_table_get_def ht_inv_free fun_eq_iff)
  qed
  then show "ht_inv hf (snd ?r)"
    and "cache_ttl ht \<le> 0 \<Longrightarrow> map_option (fst \<circ> snd) (fst ?r) = ht_lookup hf ht k"
    and "cache_ttl ht \<le> 0 \<Longrightarrow> ht_lookup hf (snd ?r) = ht_lookup hf ht" by simp_all
qed

lemma get_expired:
  assumes "ht_inv hf ht" and "k \<noteq> []" and "ok Lookup_Key"
    and "holds_key hf ht k a" and "ht_heap ht a = Some e"
    and "0 < cache_ttl ht" and "created e + cache_ttl ht < now"
  shows "flb_hash_table_get ok hf now ht (Some k) (int (length k))
           = (None, flb_hash_table_entry_free ht a)"
proof -
  have "hash_get_entry ok hf ht (Some k) (int (length k)) = Some (ht_slot ht (key_hash hf ht k), a)"
    using hash_get_entry_Some_iff [where ok = ok, OF assms(1-3)] assms(4) by blast
  with assms(5-7) show ?thesis by (simp add: flb_hash_table_get_def)
qed

lemma del_chain:
  assumes "ht_inv hf ht" and "k \<noteq> []" and "ok Lookup_Key"
  shows "flb_hash_table_del ok hf ht (Some k) =
           (case List.find (key_matches ht k (length k))
                   (chains (ht_table ht ! ht_slot ht (key_hash hf ht k))) of
              None \<Rightarrow> (-1, ht)
            | Some a \<Rightarrow> (0, flb_hash_table_entry_free ht a))"
proof -
  let ?i = "ht_slot ht (key_hash hf ht k)" and ?c = "chains (ht_table ht ! ht_slot ht (key_hash hf ht k))"
  have i: "?i < length (ht_table ht)" and S: "ht_struct ht"
    using assms(1) by (auto simp: ht_inv_def ht_slot_less)
  have short: "(if c_count (ht_table ht ! ?i) = 1
         then if key_matches ht k (length k) (hd ?c) then Some (hd ?c) else None
         else List.find (key_matches ht k (length k)) ?c)
          = List.find (key_matches ht k (length k)) ?c"
    using ht_struct_chain(1) [OF S i] by (cases ?c) (auto split: if_splits)
  show ?thesis
    using assms(2,3) short [symmetric]
    by (auto simp: flb_hash_table_del_def compute_key_hash_whole Let_def split: if_splits)
qed

lemma del_effect:
  assumes "ht_inv hf ht" and "k \<noteq> []" and "ok Lookup_Key"
  shows "ht_inv hf (snd (flb_hash_table_del ok hf ht (Some k)))"
    and "fst (flb_hash_table_del ok hf ht (Some k)) = (if ht_lookup hf ht k = None then -1 else 0)"
    and "ht_lookup hf (snd (flb_hash_table_del ok hf ht (Some k))) l
           = (if same_key hf ht k l then None else ht_lookup hf ht l)"
proof -
  let ?r = "flb_hash_table_del ok hf ht (Some k)"
  have "ht_inv hf (snd ?r) \<and> fst ?r = (if ht_lookup hf ht k = None then -1 else 0)
    \<and> ht_lookup hf (snd ?r) l = (if same_key hf ht k l then None else ht_lookup hf ht l)"
  proof (cases "\<exists>a. holds_key hf ht k a")
    case True
    then obtain a where a: "holds_key hf ht k a" by blast
    then have r: "?r = (0, flb_hash_table_entry_free ht a)"
      using del_chain [where ok = ok, OF assms] find_chain_holds [OF assms(1), THEN iffD2, OF a]
      by simp
    have "ht_lookup hf ht k \<noteq> None" using a ht_lookup_none_iff [OF assms(1)] by blast
    then show ?thesis
      using r assms(1) holds_same_key [OF a] by (simp add: ht_inv_free ht_lookup_free)
  next
    case False
    then have "List.find (key_matches ht k (length k))
                 (chains (ht_table ht ! ht_slot ht (key_hash hf ht k))) = None"
      using find_chain_holds [OF assms(1)] by (metis not_None_eq)
    then have "?r = (-1, ht)" using del_chain [where ok = ok, OF assms] by simp
    moreover have "ht_lookup hf ht l = None" if "same_key hf ht k l"
      using False that same_key_no_holder ht_lookup_none_iff [OF assms(1)] by metis
    moreover have "ht_lookup hf ht k = None" using False ht_lookup_none_iff [OF assms(1)] by blast
    ultimately show ?thesis using assms(1) by simp
  qed
  then show "ht_inv hf (snd ?r)" and "fst ?r = (if ht_lookup hf ht k = None then -1 else 0)"
    and "ht_lookup hf (snd ?r) l = (if same_key hf ht k l then None else ht_lookup hf ht l)"
    by simp_all
qed

lemma del_ptr_inv: "ht_inv hf ht \<Longrightarrow> ht_inv hf (snd (flb_hash_table_del_ptr ok hf ht k n ptr))"
  by (simp add: flb_hash_table_del_ptr_def ht_inv_free split: option.splits)

lemma create_inv:
  assumes "flb_hash_table_create ok mode sz mx = Some ht"
  shows "ht_inv hf ht" and "ht_lookup hf ht k = None"
proof -
  show "ht_inv hf ht"
    using assms by (auto simp: flb_hash_table_create_def ht_inv_def ht_struct_def ht_keys_def
        word_greater_zero_iff unat_gt_0 split: if_splits)
  show "ht_lookup hf ht k = None"
    using assms by (auto simp: flb_hash_table_create_def ht_lookup_def split: if_splits)
qed


lemma set_case_sensitivity_inv:
  assumes "ht_inv hf ht" and "ht_heap ht = Map.empty"
  shows "ht_inv hf (flb_hash_table_set_case_sensitivity ht status)"
  using assms by (auto simp: flb_hash_table_set_case_sensitivity_def ht_inv_def ht_struct_def ht_keys_def)

lemma get_ptr_effect:
  assumes "ht_inv hf ht" and "k \<noteq> []" and "ok Lookup_Key"
  shows "ht_inv hf (snd (flb_hash_table_get_ptr ok hf ht (Some k) (int (length k))))"
    and "fst (flb_hash_table_get_ptr ok hf ht (Some k) (int (length k))) = ht_lookup hf ht k"
proof -
  let ?now = "0 :: int"
  let ?ht = "ht\<lparr>cache_ttl := 0\<rparr>"
  have slot: "ht_slot (ht\<lparr>cache_ttl := t\<rparr>) = ht_slot ht"
    "key_hash hf (ht\<lparr>cache_ttl := t\<rparr>) = key_hash hf ht" for ht t
    by (rule ht_slot_cong, simp) (rule key_hash_cong, simp)
  have "holds_key hf (ht\<lparr>cache_ttl := t\<rparr>) l = holds_key hf ht l" for ht t l
    by (rule ext) (simp add: holds_key_def slot)
  then have upd: "ht_lookup hf (ht\<lparr>cache_ttl := t\<rparr>) l = ht_lookup hf ht l"
    "ht_inv hf (ht\<lparr>cache_ttl := t\<rparr>) = ht_inv hf ht" for ht t l
    by (simp_all add: ht_lookup_def ht_inv_def ht_struct_def ht_keys_def slot split: option.split)
  have inv: "ht_inv hf ?ht" using assms(1) by (simp add: upd)
  have match: "key_matches ?ht k n = key_matches ht k n" for n
    by (rule ext) (simp add: key_matches_def split: option.split)
  have entry: "hash_get_entry ok hf ?ht (Some k) (int (length k))
                 = hash_get_entry ok hf ht (Some k) (int (length k))"
    using hash_get_entry_find [where ok = ok, OF inv assms(2,3)]
      hash_get_entry_find [where ok = ok, OF assms]
    by (simp add: slot match)
  have eq: "fst (flb_hash_table_get_ptr ok hf ht (Some k) (int (length k)))
          = map_option (fst \<circ> snd) (fst (flb_hash_table_get ok hf ?now ?ht (Some k) (int (length k))))"
    "(snd (flb_hash_table_get_ptr ok hf ht (Some k) (int (length k))))\<lparr>cache_ttl := 0\<rparr>
          = snd (flb_hash_table_get ok hf ?now ?ht (Some k) (int (length k)))"
    by (auto simp: flb_hash_table_get_ptr_def flb_hash_table_get_def entry split: option.splits)
  show "fst (flb_hash_table_get_ptr ok hf ht (Some k) (int (length k))) = ht_lookup hf ht k"
    using get_effect(2) [where ok = ok, OF inv assms(2,3)] eq(1) by (simp add: upd)
  show "ht_inv hf (snd (flb_hash_table_get_ptr ok hf ht (Some k) (int (length k))))"
    using get_effect(1) [where ok = ok, OF inv assms(2,3), of ?now] eq(2) upd(2) by metis
qed

section \<open>The table as a finite map\<close>

text \<open>
  What the clients of the table rely on: the chunk indexes of the inputs and the environment use
  unbounded tables without expiry that store caller pointers.
\<close>

locale kv_table =
  fixes inv :: "'t \<Rightarrow> bool"
    and good :: "'k \<Rightarrow> bool"
    and same :: "'t \<Rightarrow> 'k \<Rightarrow> 'k \<Rightarrow> bool"
    and lookup :: "'t \<Rightarrow> 'k \<Rightarrow> 'v option"
    and put :: "'k \<Rightarrow> 'v \<Rightarrow> 't \<Rightarrow> 't"
    and del :: "'k \<Rightarrow> 't \<Rightarrow> 't"
  assumes same_refl: "same t k k"
    and put_inv: "inv t \<Longrightarrow> good k \<Longrightarrow> inv (put k v t)"
    and put_same: "inv t \<Longrightarrow> good k \<Longrightarrow> same (put k v t) = same t"
    and put_lookup: "inv t \<Longrightarrow> good k \<Longrightarrow>
          lookup (put k v t) l = (if same t k l then Some v else lookup t l)"
    and del_inv: "inv t \<Longrightarrow> good k \<Longrightarrow> inv (del k t)"
    and del_lookup: "inv t \<Longrightarrow> good k \<Longrightarrow>
          lookup (del k t) l = (if same t k l then None else lookup t l)"
begin

lemma fold_put:
  assumes "inv t" and "\<forall>(k, v) \<in> set kvs. good k"
  shows "inv (fold (\<lambda>(k, v). put k v) kvs t) \<and> same (fold (\<lambda>(k, v). put k v) kvs t) = same t"
  using assms by (induction kvs arbitrary: t) (auto simp: put_inv put_same)

text \<open>After a sequence of insertions a lookup returns the last value given to the key.\<close>

lemma lookup_fold_put:
  assumes "inv t" and "\<forall>(k, v) \<in> set kvs. good k"
  shows "lookup (fold (\<lambda>(k, v). put k v) kvs t) l =
           (case List.find (\<lambda>(k, v). same t k l) (rev kvs) of
              Some (k, v) \<Rightarrow> Some v
            | None \<Rightarrow> lookup t l)"
  using assms
proof (induction kvs arbitrary: t)
  case (Cons kv kvs)
  obtain k v where kv: "kv = (k, v)" by (cases kv)
  have "inv (put k v t)" and "same (put k v t) = same t"
    using Cons.prems kv by (simp_all add: put_inv put_same)
  moreover have "\<forall>(k, v) \<in> set kvs. good k" and "good k" using Cons.prems kv by simp_all
  ultimately show ?case
    using Cons.IH [of "put k v t"] Cons.prems(1)
    by (auto simp: kv find_append put_lookup split: option.splits)
qed simp

lemma del_put_lookup:
  assumes "inv t" and "good k"
  shows "lookup (del k (put k v t)) l = lookup (del k t) l"
  using assms by (simp add: put_inv put_same put_lookup del_lookup)

end

definition ht_pointer :: "hash_fun \<Rightarrow> flb_hash_table \<Rightarrow> cstring \<Rightarrow> addr option" where
  "ht_pointer hf ht k = Option.bind (ht_lookup hf ht k) val_ptr"

definition ht_unbounded :: "hash_fun \<Rightarrow> flb_hash_table \<Rightarrow> bool" where
  "ht_unbounded hf ht \<longleftrightarrow>
     ht_inv hf ht \<and> (max_entries ht \<le> 0 \<or> ht_evict_mode ht = EVICT_NONE)"

definition ht_put :: "hash_fun \<Rightarrow> cstring \<Rightarrow> addr \<Rightarrow> flb_hash_table \<Rightarrow> flb_hash_table" where
  "ht_put hf k p ht = snd (flb_hash_table_add (\<lambda>_. True) hf 0 0 ht (Some k) (int (length k)) p [])"

definition ht_del :: "hash_fun \<Rightarrow> cstring \<Rightarrow> flb_hash_table \<Rightarrow> flb_hash_table" where
  "ht_del hf k ht = snd (flb_hash_table_del (\<lambda>_. True) hf ht (Some k))"

lemma make_room_unbounded: "ht_unbounded hf ht \<Longrightarrow> ht_make_room rnd ht = ht"
  by (auto simp: ht_unbounded_def ht_make_room_def)

lemma del_sel:
  "max_entries (snd (flb_hash_table_del ok hf ht k)) = max_entries ht"
  "ht_evict_mode (snd (flb_hash_table_del ok hf ht k)) = ht_evict_mode ht"
  by (auto simp: flb_hash_table_del_def Let_def split: option.splits)

interpretation table: kv_table "ht_unbounded hf" "\<lambda>k. k \<noteq> []" "same_key hf" "ht_pointer hf"
  "ht_put hf" "ht_del hf" for hf
proof
  fix t and k l :: cstring and v :: addr
  assume t: "ht_unbounded hf t" and k: "k \<noteq> []"
  then have inv: "ht_inv hf t" by (simp add: ht_unbounded_def)
  note sel = add_sel [where ok = "\<lambda>_. True", OF inv k TrueI, of 0 0 v "[]"]
  show "ht_unbounded hf (ht_put hf k v t)"
    using t sel add_inv [where ok = "\<lambda>_. True", OF inv k TrueI] by (simp add: ht_unbounded_def ht_put_def)
  show "same_key hf (ht_put hf k v t) = same_key hf t"
    using sel by (intro ext) (simp add: ht_put_def same_key_def ht_slot_def key_hash_def)
  show "ht_pointer hf (ht_put hf k v t) l = (if same_key hf t k l then Some v else ht_pointer hf t l)"
    using add_effect(2) [where ok = "\<lambda>_. True", OF inv k] make_room_unbounded [OF t]
    by (simp add: ht_pointer_def ht_put_def stored_value_def)
  show "ht_unbounded hf (ht_del hf k t)"
    using t del_effect(1) [where ok = "\<lambda>_. True", OF inv k TrueI]
    by (simp add: ht_unbounded_def ht_del_def del_sel)
  show "ht_pointer hf (ht_del hf k t) l = (if same_key hf t k l then None else ht_pointer hf t l)"
    using del_effect(3) [where ok = "\<lambda>_. True", OF inv k TrueI] by (simp add: ht_pointer_def ht_del_def)
qed simp

section \<open>Reachable tables\<close>

text \<open>
  The tables a client can build: a fresh table whose case sensitivity is chosen before it is used,
  then any sequence of operations. Of the allocations, only the lower-cased copy a lookup makes of
  a key of 63 bytes or more is taken to succeed: when it fails an insertion cannot see the entry
  in place.
\<close>

inductive ht_reachable :: "hash_fun \<Rightarrow> flb_hash_table \<Rightarrow> bool" for hf where
  create: "flb_hash_table_create_with_ttl ok ttl mode sz mx = Some ht \<Longrightarrow>
     ht_reachable hf (flb_hash_table_set_case_sensitivity ht status)"
| add: "ht_reachable hf ht \<Longrightarrow> ok Lookup_Key \<Longrightarrow>
     ht_reachable hf (snd (flb_hash_table_add ok hf now rnd ht (Some k) (int (length k)) ptr bytes))"
| get: "ht_reachable hf ht \<Longrightarrow> ok Lookup_Key \<Longrightarrow>
     ht_reachable hf (snd (flb_hash_table_get ok hf now ht (Some k) (int (length k))))"
| get_ptr: "ht_reachable hf ht \<Longrightarrow> ok Lookup_Key \<Longrightarrow>
     ht_reachable hf (snd (flb_hash_table_get_ptr ok hf ht (Some k) (int (length k))))"
| del: "ht_reachable hf ht \<Longrightarrow> ok Lookup_Key \<Longrightarrow>
     ht_reachable hf (snd (flb_hash_table_del ok hf ht (Some k)))"
| del_ptr: "ht_reachable hf ht \<Longrightarrow>
     ht_reachable hf (snd (flb_hash_table_del_ptr ok hf ht k n ptr))"

definition ht_bounded :: "flb_hash_table \<Rightarrow> bool" where
  "ht_bounded ht \<longleftrightarrow>
     (ht_evict_mode ht \<noteq> EVICT_NONE \<and> 0 < max_entries ht \<longrightarrow> total_count ht \<le> max_entries ht)"

lemma ht_bounded_free: "ht_bounded ht \<Longrightarrow> ht_bounded (flb_hash_table_entry_free ht a)"
  by (cases "ht_heap ht a") (auto simp: ht_bounded_def entry_free_dead entry_free_entries)

lemma ht_bounded_heap: "ht_bounded (ht\<lparr>ht_heap := h\<rparr>) = ht_bounded ht"
  by (simp add: ht_bounded_def)

lemma bounded_ops:
  assumes "ht_bounded ht"
  shows "ht_bounded (snd (flb_hash_table_get ok hf now ht k n))"
    and "ht_bounded (snd (flb_hash_table_get_ptr ok hf ht k n))"
    and "ht_bounded (snd (flb_hash_table_del ok hf ht k))"
    and "ht_bounded (snd (flb_hash_table_del_ptr ok hf ht l m ptr))"
  using assms
  by (auto simp: flb_hash_table_get_def flb_hash_table_get_ptr_def flb_hash_table_del_def
      flb_hash_table_del_ptr_def Let_def ht_bounded_free ht_bounded_heap split: option.split)

lemma bounded_add:
  assumes "ht_inv hf ht" and "ht_bounded ht" and "k \<noteq> []" and "ok Lookup_Key"
  shows "ht_bounded (snd (flb_hash_table_add ok hf now rnd ht (Some k) (int (length k)) ptr bytes))"
  unfolding ht_bounded_def
proof (intro impI)
  let ?ht' = "snd (flb_hash_table_add ok hf now rnd ht (Some k) (int (length k)) ptr bytes)"
  note sel = add_sel [where ok = ok, OF assms(1,3,4), of now rnd ptr bytes]
  assume "ht_evict_mode ?ht' \<noteq> EVICT_NONE \<and> 0 < max_entries ?ht'"
  then have "total_count (ht_make_room rnd ht) < max_entries ht"
    using assms(1,2) sel by (intro make_room_count) (auto simp: ht_bounded_def ht_inv_def)
  then show "total_count ?ht' \<le> max_entries ?ht'"
    using add_count [where ok = ok, OF assms(1,3,4), of now rnd ptr bytes] sel by linarith
qed

lemma reachable_nil_key:
  "flb_hash_table_add ok hf now rnd ht (Some []) 0 ptr bytes = (-1, ht)"
  "flb_hash_table_get ok hf now ht (Some []) 0 = (None, ht)"
  "flb_hash_table_get_ptr ok hf ht (Some []) 0 = (None, ht)"
  "flb_hash_table_del ok hf ht (Some []) = (-1, ht)"
  by (simp_all add: flb_hash_table_add_def flb_hash_table_get_def flb_hash_table_get_ptr_def
      flb_hash_table_del_def hash_get_entry_def)

lemma create_ttl_inv:
  assumes "flb_hash_table_create_with_ttl ok ttl mode sz mx = Some ht"
  shows "ht_inv hf (flb_hash_table_set_case_sensitivity ht status)"
    and "ht_bounded (flb_hash_table_set_case_sensitivity ht status)"
  using assms
  by (auto simp: flb_hash_table_create_with_ttl_def flb_hash_table_create_def ht_inv_def ht_struct_def
      ht_keys_def ht_bounded_def flb_hash_table_set_case_sensitivity_def unat_gt_0
      split: option.splits if_splits)

lemma reachable_inv_bounded: "ht_reachable hf ht \<Longrightarrow> ht_inv hf ht \<and> ht_bounded ht"
proof (induction rule: ht_reachable.induct)
  case (create ok ttl mode sz mx ht status)
  then show ?case by (simp add: create_ttl_inv)
next
  case (add ht ok now rnd k ptr bytes)
  then show ?case
    by (cases "k = []") (simp_all add: reachable_nil_key add_inv bounded_add)
next
  case (get ht ok now k)
  then show ?case
    by (cases "k = []") (simp_all add: reachable_nil_key get_effect bounded_ops)
next
  case (get_ptr ht ok k)
  then show ?case
    by (cases "k = []") (simp_all add: reachable_nil_key get_ptr_effect bounded_ops)
next
  case (del ht ok k)
  then show ?case
    by (cases "k = []") (simp_all add: reachable_nil_key del_effect bounded_ops)
next
  case (del_ptr ht ok k n ptr)
  then show ?case by (simp add: del_ptr_inv bounded_ops)
qed

section \<open>Properties\<close>

definition sample_hash :: hash_fun where
  "sample_hash k = of_nat (length k)"

definition sample_table :: flb_hash_table where
  "sample_table = the (flb_hash_table_create (\<lambda>_. True) EVICT_OLDER 2 1)"

lemma sample_table_create: "flb_hash_table_create (\<lambda>_. True) EVICT_OLDER 2 1 = Some sample_table"
  by (simp add: sample_table_def flb_hash_table_create_def)

definition sample_full :: flb_hash_table where
  "sample_full = snd (flb_hash_table_add (\<lambda>_. True) sample_hash 2 0 sample_table (Some ''ab'')
                        (int (length ''ab'')) 9 [])"

lemma sample_full_sel:
  "entries sample_full = [1]" "total_count sample_full = 1" "max_entries sample_full = 1"
  "ht_evict_mode sample_full = EVICT_OLDER"
  by code_simp+

lemma sample_reachable: "ht_reachable sample_hash sample_table"
  using ht_reachable.create [of "\<lambda>_. True" 0 EVICT_OLDER 2 1 sample_table sample_hash True]
  by (simp add: flb_hash_table_create_with_ttl_def sample_table_def flb_hash_table_create_def
      flb_hash_table_set_case_sensitivity_def)

lemma sample_full_reachable: "ht_reachable sample_hash sample_full"
  unfolding sample_full_def by (rule ht_reachable.add [OF sample_reachable]) simp





text \<open>
  C35: an unbounded table that stores caller pointers is a finite map: after any sequence of
  insertions a key maps to the pointer of the last insertion under that key, and a key that was
  not inserted keeps what it had.
\<close>

theorem ht_last_insert_wins:
  assumes "ht_unbounded hf ht" and "\<forall>(k, p) \<in> set kvs. k \<noteq> []"
  shows "ht_pointer hf (fold (\<lambda>(k, p). ht_put hf k p) kvs ht) l =
           (case List.find (\<lambda>(k, p). same_key hf ht k l) (rev kvs) of
              Some (k, p) \<Rightarrow> Some p
            | None \<Rightarrow> ht_pointer hf ht l)"
  using assms by (rule table.lookup_fold_put)

lemma ht_last_insert_wins_witness:
  "ht_pointer sample_hash (fold (\<lambda>(k, p). ht_put sample_hash k p) [(''a'', 4), (''b'', 5), (''a'', 6)]
     (the (flb_hash_table_create (\<lambda>_. True) EVICT_NONE 2 0))) ''a'' = Some 6"
proof -
  let ?ht = "the (flb_hash_table_create (\<lambda>_. True) EVICT_NONE 2 0)"
  have c: "flb_hash_table_create (\<lambda>_. True) EVICT_NONE 2 0 = Some ?ht"
    by (simp add: flb_hash_table_create_def)
  have "ht_unbounded sample_hash ?ht"
    using create_inv(1) [OF c] by (simp add: ht_unbounded_def flb_hash_table_create_def)
  then show ?thesis
    by (subst ht_last_insert_wins) (simp_all add: same_key_refl)
qed

text \<open>
  when the table is full the entry removed to make room is the one the eviction mode names:
  the oldest, one with the fewest hits, or the one at \<open>random() % total_count\<close>; no other entry
  is touched.
\<close>

theorem ht_eviction_victim:
  assumes "ht_reachable hf ht" and "ht_evict_mode ht \<noteq> EVICT_NONE"
    and "0 < max_entries ht" and "max_entries ht \<le> total_count ht"
  shows "\<exists>a \<in> set (entries ht). ht_heap (ht_make_room rnd ht) = (ht_heap ht)(a := None)
    \<and> entries (ht_make_room rnd ht) = remove1 a (entries ht)
    \<and> (ht_evict_mode ht = EVICT_OLDER \<longrightarrow> a = hd (entries ht))
    \<and> (ht_evict_mode ht = EVICT_LESS_USED \<longrightarrow> (\<forall>b \<in> set (entries ht). hits_of ht a \<le> hits_of ht b))
    \<and> (ht_evict_mode ht = EVICT_RANDOM \<longrightarrow> a = entries ht ! (rnd mod length (entries ht)))"
proof -
  have S: "ht_struct ht" using reachable_inv_bounded [OF assms(1)] by (simp add: ht_inv_def)
  then obtain a e where a: "ht_victim rnd ht = Some a" "a \<in> set (entries ht)" "ht_heap ht a = Some e"
    using victim_exists [OF _ assms(2-4)] victim_live by metis
  then have "ht_heap (ht_make_room rnd ht) = (ht_heap ht)(a := None)"
    and "entries (ht_make_room rnd ht) = remove1 a (entries ht)"
    by (simp_all add: make_room_victim entry_free_entries)
  moreover have tot: "nat (total_count ht) = length (entries ht)" using ht_structD(3) [OF S] by simp
  have "ht_evict_mode ht = EVICT_OLDER \<longrightarrow> a = hd (entries ht)"
    and "ht_evict_mode ht = EVICT_RANDOM \<longrightarrow> a = entries ht ! (rnd mod length (entries ht))"
    using a(1) tot
    by (auto simp: ht_victim_def Let_def hd_conv_nth simp del: nat_add_distrib
        split: if_splits list.splits)
  moreover have "\<forall>b \<in> set (entries ht). hits_of ht a \<le> hits_of ht b" if "ht_evict_mode ht = EVICT_LESS_USED"
    by (rule less_used_spec [of "entries ht" ht])
      (use that a in \<open>auto simp: ht_victim_def split: if_splits\<close>)
  ultimately show ?thesis using a(2) by blast
qed

lemma ht_eviction_victim_witness:
  "entries (ht_make_room 0 sample_full) = []"
  using ht_eviction_victim [OF sample_full_reachable, of 0] by (simp add: sample_full_sel)

text \<open>
  in a table with a time to live, the lookup that meets an entry older than that reports the
  key absent and removes the entry, so that the next lookup of the key finds nothing either.
\<close>

theorem ht_expired_entry_removed:
  assumes "ht_reachable hf ht" and "k \<noteq> []" and "holds_key hf ht k a"
    and "ht_heap ht a = Some e" and "0 < cache_ttl ht" and "created e + cache_ttl ht < now"
  shows "fst (flb_hash_table_get (\<lambda>_. True) hf now ht (Some k) (int (length k))) = None
    \<and> ht_lookup hf (snd (flb_hash_table_get (\<lambda>_. True) hf now ht (Some k) (int (length k)))) k = None
    \<and> total_count (snd (flb_hash_table_get (\<lambda>_. True) hf now ht (Some k) (int (length k)))) = total_count ht - 1"
  using get_expired [where ok = "\<lambda>_. True", OF _ assms(2) TrueI assms(3-6)]
    reachable_inv_bounded [OF assms(1)] assms(3,4)
  by (simp add: ht_lookup_free entry_free_entries)


definition sample_ttl :: flb_hash_table where
  "sample_ttl = snd (flb_hash_table_add (\<lambda>_. True) sample_hash 2 0
     (flb_hash_table_set_case_sensitivity
        (the (flb_hash_table_create_with_ttl (\<lambda>_. True) 10 EVICT_NONE 2 0)) True)
     (Some ''ab'') (int (length ''ab'')) 9 [])"

lemma sample_ttl_reachable: "ht_reachable sample_hash sample_ttl"
  unfolding sample_ttl_def
  by (rule ht_reachable.add, rule ht_reachable.create [of "\<lambda>_. True" 10 EVICT_NONE 2 0])
    (simp_all add: flb_hash_table_create_with_ttl_def flb_hash_table_create_def)

lemma sample_ttl_sel:
  "cache_ttl sample_ttl = 10" "map_option created (ht_heap sample_ttl 1) = Some 2"
  "hash_get_entry (\<lambda>_. True) sample_hash sample_ttl (Some ''ab'') (int (length ''ab'')) = Some (0, 1)"
  by code_simp+

lemma ht_expired_entry_removed_witness:
  "fst (flb_hash_table_get (\<lambda>_. True) sample_hash 13 sample_ttl (Some ''ab'') (int (length ''ab''))) = None"
proof -
  obtain e where e: "ht_heap sample_ttl 1 = Some e" "created e = 2" using sample_ttl_sel(2) by auto
  have "holds_key sample_hash sample_ttl ''ab'' 1"
    using hash_get_entry_Some_iff [of sample_hash sample_ttl "''ab''" "\<lambda>_. True"] sample_ttl_sel(3)
      reachable_inv_bounded [OF sample_ttl_reachable] by blast
  then show ?thesis
    using ht_expired_entry_removed [OF sample_ttl_reachable _ _ e(1), of "''ab''" 13] e(2) sample_ttl_sel(1)
    by simp
qed

end
