(* ===== verification/Scheduler.thy ===== *)
theory Scheduler
  imports Flb_Prelude "HOL-Library.Signed_Division" "HOL-Library.Multiset"
begin

text \<open>
  The retry scheduler, \<^verbatim>\<open>src/src/flb_scheduler.c\<close>: timers, retry requests and their backoff, the
  frame timer that promotes waiting requests, timer coroutines.

  Timers and requests are records that carry their address; the scheduler's lists hold them. The
  event loop of the Monkey library is a parameter: \<open>tc a sec nsec\<close> is the descriptor that
  \<open>mk_event_timeout_create\<close> returns for the timer at \<open>a\<close>, \<open>-1\<close> on failure. The generator behind
  \<open>rand()\<close> is the sequence \<open>rnd\<close> of its results, the clock an argument. What a timer calls (the
  dispatch of a retry, a callback) is a parameter over the whole state, which extends the
  scheduler's fields.

  The lemmas show the bounds of the backoff, the invariant that ties requests to their timers, that
  promotion loses no request and leaves none behind that falls due within the frame, that an event of
  an invalidated timer is ignored, and that coroutine ids are fresh.
\<close>

section \<open>Data\<close>

datatype timer_type = TIMER_NONE | TIMER_REQUEST | TIMER_FRAME | TIMER_CB_ONESHOT | TIMER_CB_PERM

record flb_sched_timer =
  t_addr :: addr
  t_active :: bool
  t_type :: timer_type
  t_coro :: bool
  t_data :: addr
  t_cb :: addr
  t_fd :: int

record flb_sched_request =
  rq_addr :: addr
  rq_fd :: int
  rq_created :: int
  rq_timeout :: int
  rq_data :: addr
  rq_timer :: addr

record flb_sched_timer_coro =
  stc_addr :: addr
  stc_id :: u32
  stc_timer :: addr
  stc_data :: addr

text \<open>
  The scheduler with the fields of \<open>struct flb_config\<close> it reads; \<open>sched_brk\<close> is the next free
  address.
\<close>

record flb_sched =
  requests :: "flb_sched_request list"
  requests_wait :: "flb_sched_request list"
  timers :: "flb_sched_timer list"
  timers_drop :: "flb_sched_timer list"
  timer_coro_list :: "flb_sched_timer_coro list"
  timer_coro_list_drop :: "flb_sched_timer_coro list"
  frame_fd :: int
  sched_base :: int
  sched_cap :: int
  is_shutting_down :: bool
  sched_brk :: addr

type_synonym timeout_create = "addr \<Rightarrow> int \<Rightarrow> int \<Rightarrow> int"

definition FLB_SCHED_CAP :: int where "FLB_SCHED_CAP = 2000"
definition FLB_SCHED_BASE :: int where "FLB_SCHED_BASE = 5"
definition FLB_SCHED_REQUEST_FRAME :: int where "FLB_SCHED_REQUEST_FRAME = 10"
definition FLB_SCHED_TIMER_CORO_RETURN :: u32 where "FLB_SCHED_TIMER_CORO_RETURN = 1"
definition RAND_MAX :: int where "RAND_MAX = 2147483647"

section \<open>Backoff\<close>

definition xmin :: "int \<Rightarrow> int \<Rightarrow> int" where
  "xmin a b = (if a < b then a else b)"

text \<open>The calls of \<open>rand()\<close> from the \<open>n\<close>-th on; \<open>None\<close> when no acceptable number ever comes.\<close>

partial_function (option) rand_loop :: "(nat \<Rightarrow> int) \<Rightarrow> int \<Rightarrow> nat \<Rightarrow> int option" where
  "rand_loop rnd limit n =
     (if rnd n < 0 \<or> rnd n \<ge> limit then rand_loop rnd limit (Suc n) else Some (rnd n))"

declare rand_loop.simps [code]

text \<open>A zero range makes the division trap: \<open>None\<close>.\<close>

definition random_uniform :: "(nat \<Rightarrow> int) \<Rightarrow> int \<Rightarrow> int \<Rightarrow> int option" where
  "random_uniform rnd mn mx =
     (let range = mx - mn + 1
      in if range = 0 then None
         else let copies = RAND_MAX sdiv range; limit = range * copies
              in map_option (\<lambda>ra. ra sdiv copies + mn) (rand_loop rnd limit 0))"

text \<open>
  \<open>ipow\<close> computes in doubles. The one caller passes base 2, where every intermediate value is a power
  of two and so exact, until it overflows to infinity, which the comparison with the cap treats like
  the exact value.
\<close>

function ipow_loop :: "int \<Rightarrow> int \<Rightarrow> nat \<Rightarrow> int" where
  "ipow_loop result base e =
     (let result = (if odd e then result * base else result); e = e div 2
      in if e = 0 then result else ipow_loop result (base * base) e)"
  by pat_completeness auto

termination
  by (relation "measure (\<lambda>(_, _, e). e)") auto

declare ipow_loop.simps [simp del]

definition ipow :: "int \<Rightarrow> nat \<Rightarrow> int" where
  "ipow base e = ipow_loop 1 base e"

definition backoff_full_jitter :: "(nat \<Rightarrow> int) \<Rightarrow> int \<Rightarrow> int \<Rightarrow> nat \<Rightarrow> int option" where
  "backoff_full_jitter rnd base cap n =
     (let temp = xmin cap (base * ipow 2 n) in random_uniform rnd base temp)"

section \<open>Timers\<close>

definition timer_upd ::
  "addr \<Rightarrow> (flb_sched_timer \<Rightarrow> flb_sched_timer) \<Rightarrow> 'a flb_sched_scheme \<Rightarrow> 'a flb_sched_scheme" where
  "timer_upd a f s =
     s\<lparr>timers := map (\<lambda>t. if t_addr t = a then f t else t) (timers s),
       timers_drop := map (\<lambda>t. if t_addr t = a then f t else t) (timers_drop s)\<rparr>"

definition timer_del :: "addr \<Rightarrow> 'a flb_sched_scheme \<Rightarrow> 'a flb_sched_scheme" where
  "timer_del a s =
     s\<lparr>timers := filter (\<lambda>t. t_addr t \<noteq> a) (timers s),
       timers_drop := filter (\<lambda>t. t_addr t \<noteq> a) (timers_drop s)\<rparr>"

definition find_timer :: "'a flb_sched_scheme \<Rightarrow> addr \<Rightarrow> flb_sched_timer option" where
  "find_timer s a = List.find (\<lambda>t. t_addr t = a) (timers s @ timers_drop s)"

definition flb_sched_timer_create ::
  "bool \<Rightarrow> 'a flb_sched_scheme \<Rightarrow> addr option \<times> 'a flb_sched_scheme" where
  "flb_sched_timer_create calloc_ok s =
     (if \<not> calloc_ok then (None, s)
      else let a = sched_brk s;
               t = \<lparr>t_addr = a, t_active = True, t_type = TIMER_NONE, t_coro = False, t_data = 0,
                    t_cb = 0, t_fd = -1\<rparr>
           in (Some a, s\<lparr>timers := timers s @ [t], sched_brk := a + 1\<rparr>))"

text \<open>The destruction of the timeout in the event loop leaves no trace in the scheduler's state.\<close>

definition flb_sched_timer_cb_disable :: "addr \<Rightarrow> 'a flb_sched_scheme \<Rightarrow> 'a flb_sched_scheme" where
  "flb_sched_timer_cb_disable a s =
     timer_upd a (\<lambda>t. if t_fd t \<noteq> -1 then t\<lparr>t_fd := -1\<rparr> else t) s"

definition flb_sched_timer_invalidate :: "addr \<Rightarrow> 'a flb_sched_scheme \<Rightarrow> 'a flb_sched_scheme" where
  "flb_sched_timer_invalidate a s =
     (let s = flb_sched_timer_cb_disable a s
      in case find_timer s a of
           None \<Rightarrow> s
         | Some t \<Rightarrow> (timer_del a s)\<lparr>timers_drop := timers_drop (timer_del a s) @ [t\<lparr>t_active := False\<rparr>]\<rparr>)"

definition flb_sched_timer_destroy :: "addr \<Rightarrow> 'a flb_sched_scheme \<Rightarrow> 'a flb_sched_scheme" where
  "flb_sched_timer_destroy a s = timer_del a (flb_sched_timer_cb_disable a s)"

definition flb_sched_timer_cb_destroy :: "addr \<Rightarrow> 'a flb_sched_scheme \<Rightarrow> 'a flb_sched_scheme" where
  "flb_sched_timer_cb_destroy a s = flb_sched_timer_destroy a s"

text \<open>Returns the code and, where the C code sets \<open>*out_timer\<close>, the timer.\<close>

definition flb_sched_timer_cb_create ::
  "bool \<Rightarrow> timeout_create \<Rightarrow> timer_type \<Rightarrow> int \<Rightarrow> addr \<Rightarrow> addr \<Rightarrow> 'a flb_sched_scheme \<Rightarrow>
     (int \<times> addr option) \<times> 'a flb_sched_scheme" where
  "flb_sched_timer_cb_create calloc_ok tc ty ms cb data s =
     (if ty \<noteq> TIMER_CB_ONESHOT \<and> ty \<noteq> TIMER_CB_PERM then ((-1, None), s)
      else case flb_sched_timer_create calloc_ok s of
             (None, s) \<Rightarrow> ((-1, None), s)
           | (Some a, s) \<Rightarrow>
               let s = timer_upd a (\<lambda>t. t\<lparr>t_type := ty, t_data := data, t_cb := cb\<rparr>) s;
                   sec = ms sdiv 1000;
                   nsec = (ms smod 1000) * 1000000;
                   fd = tc a sec nsec
               in if fd = -1 then ((-1, None), flb_sched_timer_destroy a s)
                  else ((0, Some a), timer_upd a (\<lambda>t. t\<lparr>t_fd := fd\<rparr>) s))"

definition flb_sched_timer_coro_cb_create ::
  "bool \<Rightarrow> timeout_create \<Rightarrow> timer_type \<Rightarrow> int \<Rightarrow> addr \<Rightarrow> addr \<Rightarrow> 'a flb_sched_scheme \<Rightarrow>
     int \<times> 'a flb_sched_scheme" where
  "flb_sched_timer_coro_cb_create calloc_ok tc ty ms cb data s =
     (case flb_sched_timer_cb_create calloc_ok tc ty ms cb data s of
        ((ret, Some a), s) \<Rightarrow>
          if ret = -1 then (-1, s) else (0, timer_upd a (\<lambda>t. t\<lparr>t_coro := True\<rparr>) s)
      | ((ret, None), s) \<Rightarrow> (-1, s))"

section \<open>Requests\<close>

definition schedule_request_now ::
  "timeout_create \<Rightarrow> int \<Rightarrow> addr \<Rightarrow> flb_sched_request \<Rightarrow> 'a flb_sched_scheme \<Rightarrow>
     int \<times> 'a flb_sched_scheme" where
  "schedule_request_now tc seconds a request s =
     (let fd = tc a seconds 0
      in if fd = -1 then (-1, s)
         else let s = timer_upd a (\<lambda>t. t\<lparr>t_fd := fd\<rparr>) s
              in (0, s\<lparr>requests := requests s @ [request\<lparr>rq_fd := fd\<rparr>]\<rparr>))"

definition schedule_request_wait ::
  "flb_sched_request \<Rightarrow> 'a flb_sched_scheme \<Rightarrow> int \<times> 'a flb_sched_scheme" where
  "schedule_request_wait request s = (0, s\<lparr>requests_wait := requests_wait s @ [request]\<rparr>)"

definition request_del :: "addr \<Rightarrow> 'a flb_sched_scheme \<Rightarrow> 'a flb_sched_scheme" where
  "request_del r s =
     s\<lparr>requests := filter (\<lambda>q. rq_addr q \<noteq> r) (requests s),
       requests_wait := filter (\<lambda>q. rq_addr q \<noteq> r) (requests_wait s)\<rparr>"

text \<open>One turn of the promotion loop; the second component is the list of failed requests.\<close>

definition promote_step ::
  "timeout_create \<Rightarrow> int \<Rightarrow> flb_sched_request \<Rightarrow> 'a flb_sched_scheme \<times> flb_sched_request list \<Rightarrow>
     'a flb_sched_scheme \<times> flb_sched_request list" where
  "promote_step tc now request st =
     (case st of (s, failed) \<Rightarrow>
        let passed = now - rq_created request
        in if passed > rq_timeout request
           then case schedule_request_now tc 1 (rq_timer request) request (request_del (rq_addr request) s) of
                  (ret, s) \<Rightarrow> (s, if ret \<noteq> 0 then failed @ [request] else failed)
           else if passed + FLB_SCHED_REQUEST_FRAME \<ge> rq_timeout request
           then let next = \<bar>passed - rq_timeout request\<bar>
                in case schedule_request_now tc next (rq_timer request) request (request_del (rq_addr request) s) of
                     (ret, s) \<Rightarrow> (s, if ret \<noteq> 0 then failed @ [request] else failed)
           else (s, failed))"

definition schedule_request_promote ::
  "timeout_create \<Rightarrow> int \<Rightarrow> 'a flb_sched_scheme \<Rightarrow> int \<times> 'a flb_sched_scheme" where
  "schedule_request_promote tc now s =
     (case fold (promote_step tc now) (requests_wait s) (s, []) of
        (s, failed) \<Rightarrow> (0, s\<lparr>requests_wait := requests_wait s @ failed\<rparr>))"

text \<open>\<open>None\<close>: the computation of the wait time traps or never returns.\<close>

definition flb_sched_request_create ::
  "bool \<Rightarrow> bool \<Rightarrow> timeout_create \<Rightarrow> (nat \<Rightarrow> int) \<Rightarrow> int \<Rightarrow> addr \<Rightarrow> nat \<Rightarrow> 'a flb_sched_scheme \<Rightarrow>
     (int \<times> 'a flb_sched_scheme) option" where
  "flb_sched_request_create timer_ok request_ok tc rnd now data tries s =
     (case flb_sched_timer_create timer_ok s of
        (None, s) \<Rightarrow> Some (-1, s)
      | (Some a, s) \<Rightarrow>
          if \<not> request_ok then Some (-1, s)
          else
            let r = sched_brk s;
                s = timer_upd a (\<lambda>t. t\<lparr>t_type := TIMER_REQUEST, t_data := r\<rparr>) (s\<lparr>sched_brk := r + 1\<rparr>)
            in case (if is_shutting_down s then Some 0
                     else backoff_full_jitter rnd (sched_base s) (sched_cap s) tries) of
                 None \<Rightarrow> None
               | Some sec \<Rightarrow>
                   let seconds = sec + 1;
                       request = \<lparr>rq_addr = r, rq_fd = -1, rq_created = now, rq_timeout = seconds,
                                  rq_data = data, rq_timer = a\<rparr>
                   in if seconds > FLB_SCHED_REQUEST_FRAME
                      then Some (seconds, snd (schedule_request_wait request s))
                      else case schedule_request_now tc seconds a request s of
                             (ret, s) \<Rightarrow>
                               if ret = -1 then Some (-1, flb_sched_timer_destroy a s)
                               else Some (seconds, s))"

definition find_request :: "'a flb_sched_scheme \<Rightarrow> addr \<Rightarrow> flb_sched_request option" where
  "find_request s r = List.find (\<lambda>q. rq_addr q = r) (requests s @ requests_wait s)"

definition flb_sched_request_destroy ::
  "flb_sched_request option \<Rightarrow> 'a flb_sched_scheme \<Rightarrow> int \<times> 'a flb_sched_scheme" where
  "flb_sched_request_destroy req s =
     (case req of
        None \<Rightarrow> (0, s)
      | Some q \<Rightarrow> (0, flb_sched_timer_invalidate (rq_timer q) (request_del (rq_addr q) s)))"

definition flb_sched_request_invalidate ::
  "addr \<Rightarrow> 'a flb_sched_scheme \<Rightarrow> int \<times> 'a flb_sched_scheme" where
  "flb_sched_request_invalidate data s =
     (case List.find (\<lambda>q. rq_data q = data) (requests s) of
        Some q \<Rightarrow> (0, snd (flb_sched_request_destroy (Some q) s))
      | None \<Rightarrow>
          (case List.find (\<lambda>q. rq_data q = data) (requests_wait s) of
             Some q \<Rightarrow> (0, snd (flb_sched_request_destroy (Some q) s))
           | None \<Rightarrow> (-1, s)))"

definition flb_sched_retry_now ::
  "bool \<Rightarrow> bool \<Rightarrow> timeout_create \<Rightarrow> int \<Rightarrow> addr \<Rightarrow> 'a flb_sched_scheme \<Rightarrow>
     int \<times> 'a flb_sched_scheme" where
  "flb_sched_retry_now timer_ok request_ok tc now retry s =
     (case flb_sched_timer_create timer_ok s of
        (None, s) \<Rightarrow> (-1, s)
      | (Some a, s) \<Rightarrow>
          if \<not> request_ok then (-1, flb_sched_timer_destroy a s)
          else
            let r = sched_brk s;
                s = timer_upd a (\<lambda>t. t\<lparr>t_type := TIMER_REQUEST, t_data := r\<rparr>) (s\<lparr>sched_brk := r + 1\<rparr>);
                request = \<lparr>rq_addr = r, rq_fd = -1, rq_created = now, rq_timeout = 0,
                           rq_data = retry, rq_timer = a\<rparr>
            in case schedule_request_now tc 0 a request s of
                 (ret, s) \<Rightarrow> if ret = -1 then (-1, flb_sched_timer_destroy a s) else (0, s))"

section \<open>Timer coroutines\<close>

lemma unat_succ: "unat (n + 1) = Suc (unat n)" if "n < - 1" for n :: u32
proof -
  have "unat n < 2 ^ 32 - 1"
    using that by (simp add: word_less_nat_alt unsigned_minus_1_eq_mask mask_eq_exp_minus_1)
  then show ?thesis by (simp add: unat_add_less)
qed

function coro_id_loop :: "u32 list \<Rightarrow> u32 \<Rightarrow> u32" where
  "coro_id_loop ids n =
     (if n < - 1 then if n \<in> set ids then coro_id_loop ids (n + 1) else n else n)"
  by pat_completeness auto

termination
proof (relation "measure (\<lambda>(_, n). 2 ^ 32 - unat n)")
  fix ids :: "u32 list" and n :: u32
  assume "n < - 1"
  then have "unat (n + 1) = Suc (unat n)" by (rule unat_succ)
  moreover have "unat n < 2 ^ 32" using unsigned_less [of n] by simp
  ultimately show "((ids, n + 1), ids, n) \<in> measure (\<lambda>(_, n). 2 ^ 32 - unat n)" by simp
qed simp

declare coro_id_loop.simps [simp del]

definition sched_timer_coro_get_id :: "'a flb_sched_scheme \<Rightarrow> u32" where
  "sched_timer_coro_get_id s = coro_id_loop (map stc_id (timer_coro_list s)) 0"

definition sched_timer_coro_get_by_id :: "'a flb_sched_scheme \<Rightarrow> u32 \<Rightarrow> flb_sched_timer_coro option" where
  "sched_timer_coro_get_by_id s n = List.find (\<lambda>c. stc_id c = n) (timer_coro_list s)"

definition flb_sched_timer_coro_get :: "'a flb_sched_scheme \<Rightarrow> u32 \<Rightarrow> flb_sched_timer_coro option" where
  "flb_sched_timer_coro_get s n = List.find (\<lambda>c. stc_id c = n) (timer_coro_list s)"

text \<open>\<open>stc_ok\<close> and \<open>coro_ok\<close>: outcomes of the two allocations.\<close>

definition flb_sched_timer_coro_create ::
  "bool \<Rightarrow> bool \<Rightarrow> addr \<Rightarrow> addr \<Rightarrow> 'a flb_sched_scheme \<Rightarrow>
     flb_sched_timer_coro option \<times> 'a flb_sched_scheme" where
  "flb_sched_timer_coro_create stc_ok coro_ok timer data s =
     (if \<not> stc_ok then (None, s)
      else if \<not> coro_ok then (None, s)
      else let stc = \<lparr>stc_addr = sched_brk s, stc_id = sched_timer_coro_get_id s, stc_timer = timer,
                      stc_data = data\<rparr>
           in (Some stc, s\<lparr>timer_coro_list := timer_coro_list s @ [stc], sched_brk := sched_brk s + 1\<rparr>))"

definition flb_sched_timer_coro_destroy ::
  "flb_sched_timer_coro option \<Rightarrow> 'a flb_sched_scheme \<Rightarrow> 'a flb_sched_scheme" where
  "flb_sched_timer_coro_destroy c s =
     (case c of
        None \<Rightarrow> s
      | Some c \<Rightarrow>
          s\<lparr>timer_coro_list := filter (\<lambda>x. stc_addr x \<noteq> stc_addr c) (timer_coro_list s),
            timer_coro_list_drop := filter (\<lambda>x. stc_addr x \<noteq> stc_addr c) (timer_coro_list_drop s)\<rparr>)"

definition flb_sched_timer_coro_cleanup :: "'a flb_sched_scheme \<Rightarrow> int \<times> 'a flb_sched_scheme" where
  "flb_sched_timer_coro_cleanup s =
     fold (\<lambda>c (n, s). (n + 1, flb_sched_timer_coro_destroy (Some c) s)) (timer_coro_list_drop s) (0, s)"

definition flb_sched_timer_cleanup :: "'a flb_sched_scheme \<Rightarrow> int \<times> 'a flb_sched_scheme" where
  "flb_sched_timer_cleanup s =
     (case fold (\<lambda>t (n, s). (n + 1, flb_sched_timer_destroy (t_addr t) s)) (timers_drop s) (0, s) of
        (timer_count, s) \<Rightarrow>
          (case flb_sched_timer_coro_cleanup s of
             (timer_coro_count, s) \<Rightarrow> (timer_count + timer_coro_count, s)))"

section \<open>The scheduler\<close>

definition flb_sched_create ::
  "bool \<Rightarrow> bool \<Rightarrow> timeout_create \<Rightarrow> bool \<Rightarrow> int \<Rightarrow> int \<Rightarrow> bool \<Rightarrow> flb_sched option" where
  "flb_sched_create sched_ok timer_ok tc channel_ok base cap shutdown =
     (if \<not> sched_ok then None
      else
        let s = \<lparr>requests = [], requests_wait = [], timers = [], timers_drop = [],
                 timer_coro_list = [], timer_coro_list_drop = [], frame_fd = 0,
                 sched_base = base, sched_cap = cap, is_shutting_down = shutdown, sched_brk = 1\<rparr>
        in case flb_sched_timer_create timer_ok s of
             (None, s) \<Rightarrow> None
           | (Some a, s) \<Rightarrow>
               let s = timer_upd a (\<lambda>t. t\<lparr>t_type := TIMER_FRAME\<rparr>) s;
                   fd = tc a FLB_SCHED_REQUEST_FRAME 0
               in if fd = -1 then None
                  else if \<not> channel_ok then None
                  else Some (s\<lparr>frame_fd := fd\<rparr>))"

text \<open>The counter the function returns and the scheduler as it is when it is freed.\<close>

definition flb_sched_destroy :: "'a flb_sched_scheme \<Rightarrow> int \<times> 'a flb_sched_scheme" where
  "flb_sched_destroy s =
     (let (c, s) = fold (\<lambda>q (c, s). (c + 1, snd (flb_sched_request_destroy (Some q) s))) (requests s) (0, s);
          (c, s) = fold (\<lambda>q (c, s). (c + 1, snd (flb_sched_request_destroy (Some q) s))) (requests_wait s) (c, s);
          (c, s) = fold (\<lambda>t (c, s). (c + 1, flb_sched_timer_destroy (t_addr t) s)) (timers s) (c, s);
          (c, s) = fold (\<lambda>t (c, s). (c + 1, flb_sched_timer_destroy (t_addr t) s)) (timers_drop s) (c, s)
      in (c, s))"

text \<open>
  An event: a notification of a timer coroutine with the 64-bit value read from the channel
  (\<open>None\<close> when the read fails), or the expiry of the timer at an address.
\<close>

datatype sched_event = Ev_Sched_Coro "u64 option" | Ev_Timer addr

definition FLB_BITS_U64_HIGH :: "u64 \<Rightarrow> u32" where
  "FLB_BITS_U64_HIGH v = ucast (drop_bit 32 v)"

definition FLB_BITS_U64_LOW :: "u64 \<Rightarrow> u32" where
  "FLB_BITS_U64_LOW v = ucast (v AND 0xffffffff)"

text \<open>
  \<open>dispatch\<close> is \<open>flb_engine_dispatch_retry\<close>, \<open>run\<close> the call of a callback with its data, \<open>coro_ok\<close> the
  outcome of the allocations of a coroutine. A timer that is no longer there stands for memory the
  event loop still refers to: nothing happens.
\<close>

definition flb_sched_event_handler ::
  "timeout_create \<Rightarrow> int \<Rightarrow> (addr \<Rightarrow> 'a flb_sched_scheme \<Rightarrow> int \<times> 'a flb_sched_scheme) \<Rightarrow>
     (addr \<Rightarrow> addr \<Rightarrow> 'a flb_sched_scheme \<Rightarrow> 'a flb_sched_scheme) \<Rightarrow> bool \<Rightarrow>
     sched_event \<Rightarrow> 'a flb_sched_scheme \<Rightarrow> int \<times> 'a flb_sched_scheme" where
  "flb_sched_event_handler tc now dispatch run coro_ok ev s =
     (case ev of
        Ev_Sched_Coro None \<Rightarrow> (-1, s)
      | Ev_Sched_Coro (Some v) \<Rightarrow>
          (case sched_timer_coro_get_by_id s (FLB_BITS_U64_LOW v) of
             None \<Rightarrow> (-1, s)
           | Some stc \<Rightarrow>
               if FLB_BITS_U64_HIGH v = FLB_SCHED_TIMER_CORO_RETURN
               then (0, s\<lparr>timer_coro_list := filter (\<lambda>x. stc_addr x \<noteq> stc_addr stc) (timer_coro_list s),
                          timer_coro_list_drop := timer_coro_list_drop s @ [stc]\<rparr>)
               else (0, s))
      | Ev_Timer a \<Rightarrow>
          (case find_timer s a of
             None \<Rightarrow> (0, s)
           | Some t \<Rightarrow>
               if \<not> t_active t then (0, s)
               else case t_type t of
                      TIMER_REQUEST \<Rightarrow>
                        (case find_request s (t_data t) of
                           None \<Rightarrow> (0, s)
                         | Some req \<Rightarrow>
                             (case dispatch (rq_data req) s of
                                (ret, s) \<Rightarrow>
                                  if ret = 0 then (0, snd (flb_sched_request_destroy (Some req) s))
                                  else (0, s)))
                    | TIMER_FRAME \<Rightarrow> (0, snd (schedule_request_promote tc now s))
                    | TIMER_CB_ONESHOT \<Rightarrow>
                        let s = flb_sched_timer_cb_disable a s;
                            s = run (t_cb t) (t_data t) s
                        in (0, flb_sched_timer_cb_destroy a s)
                    | TIMER_CB_PERM \<Rightarrow>
                        if t_coro t
                        then (case flb_sched_timer_coro_create coro_ok coro_ok a (t_data t) s of
                                (None, s) \<Rightarrow> (0, s)
                              | (Some stc, s) \<Rightarrow> (0, run (t_cb t) (t_data t) s))
                        else (0, run (t_cb t) (t_data t) s)
                    | TIMER_NONE \<Rightarrow> (0, s)))"

section \<open>Backoff bounds\<close>

lemma ipow_loop_eq: "ipow_loop result base e = result * base ^ e"
proof (induction result base e rule: ipow_loop.induct)
  case (1 result base e)
  have e: "e = 2 * (e div 2) + e mod 2" by simp
  have "base ^ e = (base * base) ^ (e div 2) * base ^ (e mod 2)"
    by (subst e) (simp only: power_add power_mult power2_eq_square)
  then show ?case
    using 1 by (subst ipow_loop.simps) (auto simp: Let_def mod2_eq_if elim!: evenE oddE)
qed

lemma ipow_eq: "ipow base e = base ^ e"
  by (simp add: ipow_def ipow_loop_eq)

lemma rand_loop_Some: "rand_loop rnd limit n = Some x \<Longrightarrow> 0 \<le> x \<and> x < limit"
  by (induction rule: rand_loop.raw_induct [rotated, consumes 1]) (auto split: if_splits)

lemma rand_loop_returns:
  assumes "0 \<le> rnd (n + k)" and "rnd (n + k) < limit"
  shows "\<exists>x. rand_loop rnd limit n = Some x"
  using assms
proof (induction k arbitrary: n)
  case 0
  then show ?case by (subst rand_loop.simps) auto
next
  case (Suc k)
  then show ?case by (subst rand_loop.simps) (auto simp del: rand_loop.simps)
qed

lemma random_uniform_bounds:
  assumes "mn \<le> mx" and "mx - mn < 2 ^ 30" and "\<exists>k. 0 \<le> rnd k \<and> rnd k < 2 ^ 30"
  shows "\<exists>x. random_uniform rnd mn mx = Some x \<and> mn \<le> x \<and> x \<le> mx"
proof -
  let ?range = "mx - mn + 1"
  let ?copies = "RAND_MAX div ?range"
  have range: "0 < ?range" and small: "?range \<le> 2 ^ 30" using assms by auto
  have copies: "0 < ?copies"
    using range small by (auto simp: RAND_MAX_def pos_imp_zdiv_pos_iff)
  have sdiv: "RAND_MAX sdiv ?range = ?copies"
    using range by (simp add: signed_divide_int_def RAND_MAX_def)
  have "RAND_MAX < ?range * ?copies + ?range"
    using range by (metis add.commute add_less_cancel_left mult_div_mod_eq pos_mod_bound)
  then have limit: "2 ^ 30 \<le> ?range * ?copies" using small by (simp add: RAND_MAX_def)
  obtain k where "0 \<le> rnd (0 + k)" and "rnd (0 + k) < ?range * ?copies"
    using assms(3) limit by (metis add_0 order.strict_trans2)
  then obtain ra where ra: "rand_loop rnd (?range * ?copies) 0 = Some ra" using rand_loop_returns by blast
  then have bounds: "0 \<le> ra" "ra < ?range * ?copies" using rand_loop_Some by blast+
  have "ra sdiv ?copies = ra div ?copies"
    using bounds copies by (cases "ra = 0") (simp_all add: signed_divide_int_def)
  moreover have "0 \<le> ra div ?copies" using bounds copies by (simp add: pos_imp_zdiv_nonneg_iff)
  moreover have "?copies * (ra div ?copies) < ?copies * ?range"
    using bounds(2) pos_mod_sign [OF copies, of ra] mult_div_mod_eq [of ?copies ra]
    by (simp only: mult.commute [of ?range])
  then have "ra div ?copies < ?range" using copies by (simp only: mult_less_cancel_left_pos)
  ultimately show ?thesis
    using range ra by (simp add: random_uniform_def Let_def sdiv)
qed

lemma backoff_bounds:
  assumes "0 < base" and "base \<le> cap" and "cap \<le> 2 ^ 30" and "\<exists>k. 0 \<le> rnd k \<and> rnd k < 2 ^ 30"
  shows "\<exists>x. backoff_full_jitter rnd base cap n = Some x \<and> base \<le> x \<and> x \<le> min cap (base * 2 ^ n)"
proof -
  have "xmin cap (base * ipow 2 n) = min cap (base * 2 ^ n)" by (simp add: xmin_def ipow_eq)
  moreover have "base \<le> base * 2 ^ n" using assms(1) by simp
  ultimately show ?thesis
    using random_uniform_bounds [of base "min cap (base * 2 ^ n)" rnd] assms
    by (simp add: backoff_full_jitter_def Let_def)
qed

section \<open>Requests and their timers\<close>

definition linked :: "flb_sched_request \<Rightarrow> flb_sched_timer \<Rightarrow> bool" where
  "linked q t \<longleftrightarrow>
     t_addr t = rq_timer q \<and> t_type t = TIMER_REQUEST \<and> t_data t = rq_addr q \<and> t_fd t = rq_fd q"

text \<open>
  Timers and requests have distinct addresses; timers in use are active, dropped ones are not and
  have no descriptor; every request has its own active timer and every request timer its request; a
  scheduled request has a descriptor, a waiting one has none.
\<close>

definition sched_inv :: "'a flb_sched_scheme \<Rightarrow> bool" where
  "sched_inv s \<longleftrightarrow>
     distinct (map t_addr (timers s @ timers_drop s))
     \<and> distinct (map rq_addr (requests s @ requests_wait s))
     \<and> (\<forall>t \<in> set (timers s). t_active t)
     \<and> (\<forall>t \<in> set (timers_drop s). \<not> t_active t \<and> t_fd t = -1)
     \<and> (\<forall>q \<in> set (requests s @ requests_wait s). \<exists>t \<in> set (timers s). linked q t)
     \<and> (\<forall>t \<in> set (timers s). t_type t = TIMER_REQUEST \<longrightarrow>
          (\<exists>q \<in> set (requests s @ requests_wait s). linked q t))
     \<and> (\<forall>q \<in> set (requests s). rq_fd q \<noteq> -1)
     \<and> (\<forall>q \<in> set (requests_wait s). rq_fd q = -1)
     \<and> (\<forall>t \<in> set (timers s @ timers_drop s). t_addr t < sched_brk s)
     \<and> (\<forall>q \<in> set (requests s @ requests_wait s). rq_addr q < sched_brk s)"

lemma sched_invD:
  assumes "sched_inv s"
  shows "distinct (map t_addr (timers s @ timers_drop s))"
    and "distinct (map rq_addr (requests s @ requests_wait s))"
    and "t \<in> set (timers s) \<Longrightarrow> t_active t"
    and "t \<in> set (timers_drop s) \<Longrightarrow> \<not> t_active t \<and> t_fd t = -1"
    and "q \<in> set (requests s @ requests_wait s) \<Longrightarrow> \<exists>t \<in> set (timers s). linked q t"
    and "t \<in> set (timers s) \<Longrightarrow> t_type t = TIMER_REQUEST \<Longrightarrow>
          \<exists>q \<in> set (requests s @ requests_wait s). linked q t"
    and "q \<in> set (requests s) \<Longrightarrow> rq_fd q \<noteq> -1"
    and "q \<in> set (requests_wait s) \<Longrightarrow> rq_fd q = -1"
    and "t \<in> set (timers s @ timers_drop s) \<Longrightarrow> t_addr t < sched_brk s"
    and "q \<in> set (requests s @ requests_wait s) \<Longrightarrow> rq_addr q < sched_brk s"
  using assms by (simp_all add: sched_inv_def)

text \<open>What the timer operations do to a timer just created.\<close>

lemma map_upd_other: "a \<notin> f ` set xs \<Longrightarrow> map (\<lambda>x. if f x = a then g x else x) xs = xs"
  by (rule map_idI) auto

lemma filter_other: "a \<notin> f ` set xs \<Longrightarrow> filter (\<lambda>x. f x \<noteq> a) xs = xs"
  by (rule filter_True) auto

lemma brk_fresh:
  assumes "sched_inv s"
  shows "sched_brk s \<notin> t_addr ` set (timers s)" and "sched_brk s \<notin> t_addr ` set (timers_drop s)"
    and "Suc (sched_brk s) \<notin> rq_addr ` set (requests s)"
    and "Suc (sched_brk s) \<notin> rq_addr ` set (requests_wait s)"
  using sched_invD(9,10) [OF assms] by force+

lemma timer_upd_new:
  assumes "a \<notin> t_addr ` set (timers s)" and "a \<notin> t_addr ` set (timers_drop s)" and "t_addr t = a"
  shows "timer_upd a f (s\<lparr>timers := timers s @ [t], sched_brk := n\<rparr>) = s\<lparr>timers := timers s @ [f t], sched_brk := n\<rparr>"
  using assms by (simp add: timer_upd_def map_upd_other)

lemma timer_destroy_new:
  assumes "a \<notin> t_addr ` set (timers s)" and "a \<notin> t_addr ` set (timers_drop s)" and "t_addr t = a"
  shows "flb_sched_timer_destroy a (s\<lparr>timers := timers s @ [t], sched_brk := n\<rparr>) = s\<lparr>sched_brk := n\<rparr>"
  using assms
  by (simp add: flb_sched_timer_destroy_def flb_sched_timer_cb_disable_def timer_upd_new timer_del_def
      filter_other)

text \<open>A new timer with its request.\<close>

lemma sched_inv_add_now:
  assumes "sched_inv s" and "fd \<noteq> -1"
    and "linked q t" and "t_active t" and "t_addr t = sched_brk s" and "rq_addr q = Suc (sched_brk s)"
    and "rq_fd q = fd"
  shows "sched_inv (s\<lparr>timers := timers s @ [t], requests := requests s @ [q], sched_brk := sched_brk s + 2\<rparr>)"
  using assms brk_fresh [OF assms(1)] unfolding sched_inv_def by (auto simp: less_Suc_eq)

lemma sched_inv_add_wait:
  assumes "sched_inv s"
    and "linked q t" and "t_active t" and "t_addr t = sched_brk s" and "rq_addr q = Suc (sched_brk s)"
    and "rq_fd q = -1"
  shows "sched_inv (s\<lparr>timers := timers s @ [t], requests_wait := requests_wait s @ [q], sched_brk := sched_brk s + 2\<rparr>)"
  using assms brk_fresh [OF assms(1)] unfolding sched_inv_def by (auto simp: less_Suc_eq)

lemma sched_inv_add_timer:
  assumes "sched_inv s" and "t_active t" and "t_type t \<noteq> TIMER_REQUEST" and "t_addr t = sched_brk s"
  shows "sched_inv (s\<lparr>timers := timers s @ [t], sched_brk := Suc (sched_brk s)\<rparr>)"
  using assms brk_fresh [OF assms(1)] unfolding sched_inv_def by (auto simp: less_Suc_eq)

lemma sched_inv_brk: "sched_inv s \<Longrightarrow> sched_brk s \<le> n \<Longrightarrow> sched_inv (s\<lparr>sched_brk := n\<rparr>)"
  unfolding sched_inv_def by (auto intro: less_le_trans)

text \<open>The request and the timer that \<open>flb_sched_request_create\<close> and \<open>flb_sched_retry_now\<close> set up.\<close>

definition new_request :: "'a flb_sched_scheme \<Rightarrow> int \<Rightarrow> int \<Rightarrow> addr \<Rightarrow> int \<Rightarrow> flb_sched_request" where
  "new_request s now seconds data fd =
     \<lparr>rq_addr = Suc (sched_brk s), rq_fd = fd, rq_created = now, rq_timeout = seconds,
      rq_data = data, rq_timer = sched_brk s\<rparr>"

definition new_timer :: "'a flb_sched_scheme \<Rightarrow> int \<Rightarrow> flb_sched_timer" where
  "new_timer s fd =
     \<lparr>t_addr = sched_brk s, t_active = True, t_type = TIMER_REQUEST, t_coro = False,
      t_data = Suc (sched_brk s), t_cb = 0, t_fd = fd\<rparr>"

lemma linked_new: "linked (new_request s now seconds data fd) (new_timer s fd)"
  by (simp add: linked_def new_request_def new_timer_def)

definition with_now :: "'a flb_sched_scheme \<Rightarrow> int \<Rightarrow> int \<Rightarrow> addr \<Rightarrow> int \<Rightarrow> 'a flb_sched_scheme" where
  "with_now s now seconds data fd =
     s\<lparr>timers := timers s @ [new_timer s fd],
       requests := requests s @ [new_request s now seconds data fd], sched_brk := sched_brk s + 2\<rparr>"

definition with_wait :: "'a flb_sched_scheme \<Rightarrow> int \<Rightarrow> int \<Rightarrow> addr \<Rightarrow> 'a flb_sched_scheme" where
  "with_wait s now seconds data =
     s\<lparr>timers := timers s @ [new_timer s (-1)],
       requests_wait := requests_wait s @ [new_request s now seconds data (-1)], sched_brk := sched_brk s + 2\<rparr>"

lemma with_now_inv: "sched_inv s \<Longrightarrow> fd \<noteq> -1 \<Longrightarrow> sched_inv (with_now s now seconds data fd)"
  unfolding with_now_def
  by (rule sched_inv_add_now [where fd = fd]) (simp_all add: linked_new, simp_all add: new_request_def new_timer_def)

lemma with_wait_inv: "sched_inv s \<Longrightarrow> sched_inv (with_wait s now seconds data)"
  unfolding with_wait_def
  by (rule sched_inv_add_wait) (simp_all add: linked_new, simp_all add: new_request_def new_timer_def)

lemma retry_now_eq:
  assumes "sched_inv s"
  shows "flb_sched_retry_now timer_ok request_ok tc now retry s =
           (if \<not> timer_ok then (-1, s)
            else if \<not> request_ok then (-1, s\<lparr>sched_brk := sched_brk s + 1\<rparr>)
            else if tc (sched_brk s) 0 0 = -1 then (-1, s\<lparr>sched_brk := sched_brk s + 2\<rparr>)
            else (0, with_now s now 0 retry (tc (sched_brk s) 0 0)))"
  using brk_fresh(1,2) [OF assms]
  by (simp add: flb_sched_retry_now_def flb_sched_timer_create_def Let_def timer_upd_new timer_destroy_new
      schedule_request_now_def with_now_def new_timer_def new_request_def)

lemma request_create_eq:
  assumes "sched_inv s"
  shows "flb_sched_request_create timer_ok request_ok tc rnd now data tries s =
           (if \<not> timer_ok then Some (-1, s)
            else if \<not> request_ok then
              Some (-1, s\<lparr>timers := timers s @ [(new_timer s (-1))\<lparr>t_type := TIMER_NONE, t_data := 0\<rparr>],
                          sched_brk := sched_brk s + 1\<rparr>)
            else case (if is_shutting_down s then Some 0
                       else backoff_full_jitter rnd (sched_base s) (sched_cap s) tries) of
                   None \<Rightarrow> None
                 | Some sec \<Rightarrow>
                     if sec + 1 > FLB_SCHED_REQUEST_FRAME
                     then Some (sec + 1, with_wait s now (sec + 1) data)
                     else if tc (sched_brk s) (sec + 1) 0 = -1 then Some (-1, s\<lparr>sched_brk := sched_brk s + 2\<rparr>)
                     else Some (sec + 1, with_now s now (sec + 1) data (tc (sched_brk s) (sec + 1) 0)))"
proof -
  let ?t0 = "\<lparr>t_addr = sched_brk s, t_active = True, t_type = TIMER_NONE, t_coro = False, t_data = 0,
              t_cb = 0, t_fd = -1\<rparr>"
  have upd: "timer_upd (sched_brk s) f (s\<lparr>timers := timers s @ [t], sched_brk := n\<rparr>)
      = s\<lparr>timers := timers s @ [f t], sched_brk := n\<rparr>" if "t_addr t = sched_brk s" for f t n
    using timer_upd_new brk_fresh(1,2) [OF assms] that by blast
  have destroy: "flb_sched_timer_destroy (sched_brk s) (s\<lparr>timers := timers s @ [t], sched_brk := n\<rparr>)
      = s\<lparr>sched_brk := n\<rparr>" if "t_addr t = sched_brk s" for t n
    using timer_destroy_new brk_fresh(1,2) [OF assms] that by blast
  show ?thesis
    by (simp add: flb_sched_request_create_def flb_sched_timer_create_def Let_def upd destroy
        schedule_request_now_def schedule_request_wait_def with_now_def with_wait_def new_timer_def
        new_request_def split: option.split)
qed

text \<open>Destroying a request moves its timer to the drop list.\<close>

definition drop_request :: "flb_sched_request \<Rightarrow> flb_sched_timer \<Rightarrow> 'a flb_sched_scheme \<Rightarrow> 'a flb_sched_scheme" where
  "drop_request q t s =
     s\<lparr>requests := filter (\<lambda>r. rq_addr r \<noteq> rq_addr q) (requests s),
       requests_wait := filter (\<lambda>r. rq_addr r \<noteq> rq_addr q) (requests_wait s),
       timers := filter (\<lambda>u. t_addr u \<noteq> rq_timer q) (timers s),
       timers_drop := timers_drop s @ [t\<lparr>t_fd := -1, t_active := False\<rparr>]\<rparr>"

lemma distinct_addr_unique:
  "distinct (map f xs) \<Longrightarrow> x \<in> set xs \<Longrightarrow> y \<in> set xs \<Longrightarrow> f x = f y \<Longrightarrow> x = y"
  by (auto simp: distinct_map inj_on_def)

lemma find_addr:
  "distinct (map f xs) \<Longrightarrow> x \<in> set xs \<Longrightarrow> List.find (\<lambda>y. f y = f x) xs = Some x"
  by (induction xs) (auto simp: image_iff)

lemma timer_notin_drop:
  assumes "sched_inv s" and "t \<in> set (timers s)"
  shows "t_addr t \<notin> t_addr ` set (timers_drop s)"
  using sched_invD(1) [OF assms(1)] assms(2) by auto

lemma timer_invalidate_eq:
  assumes "sched_inv s" and "t \<in> set (timers s)"
  shows "flb_sched_timer_invalidate (t_addr t) s =
           s\<lparr>timers := filter (\<lambda>u. t_addr u \<noteq> t_addr t) (timers s),
             timers_drop := timers_drop s @ [t\<lparr>t_fd := -1, t_active := False\<rparr>]\<rparr>"
proof -
  let ?f = "\<lambda>t. if t_fd t \<noteq> -1 then t\<lparr>t_fd := -1\<rparr> else t"
  have f: "?f t = t\<lparr>t_fd := -1\<rparr>" by (cases t) auto
  let ?g = "\<lambda>u. if t_addr u = t_addr t then ?f u else u"
  have drop: "map ?g (timers_drop s) = timers_drop s"
    using timer_notin_drop [OF assms] by (rule map_upd_other)
  have keep: "filter (\<lambda>u. t_addr u \<noteq> t_addr t) (map ?g ts) = filter (\<lambda>u. t_addr u \<noteq> t_addr t) ts" for ts
    by (induction ts) auto
  have addrs: "map t_addr (map ?g ts) = map t_addr ts" for ts by (induction ts) auto
  have d: "distinct (map t_addr (map ?g (timers s)))"
    using sched_invD(1) [OF assms(1)] by (simp only: addrs map_append distinct_append)
  have "List.find (\<lambda>u. t_addr u = t_addr (?f t)) (map ?g (timers s)) = Some (?f t)"
    by (rule find_addr [OF d]) (use assms(2) in \<open>force simp: image_iff\<close>)
  then have "List.find (\<lambda>u. t_addr u = t_addr t) (map ?g (timers s)) = Some (t\<lparr>t_fd := -1\<rparr>)"
    by (simp add: f split: if_splits)
  moreover have "filter (\<lambda>u. t_addr u \<noteq> t_addr t) (timers_drop s) = timers_drop s"
    using timer_notin_drop [OF assms] by (rule filter_other)
  ultimately show ?thesis
    by (simp add: flb_sched_timer_invalidate_def flb_sched_timer_cb_disable_def timer_upd_def Let_def
        find_timer_def find_append drop timer_del_def keep)
qed

lemma request_timer:
  assumes "sched_inv s" and "q \<in> set (requests s @ requests_wait s)"
  obtains t where "t \<in> set (timers s)" and "linked q t" and "t_addr t = rq_timer q"
  using sched_invD(5) [OF assms] by (auto simp: linked_def)

lemma sched_inv_request_del_struct:
  assumes "sched_inv s" and "q \<in> set (requests s @ requests_wait s)" and "t \<in> set (timers s)" and "linked q t"
  shows "sched_inv (drop_request q t s)"
proof -
  note I = assms(1) [unfolded sched_inv_def]
  have t: "t_addr t = rq_timer q" using assms(4) by (simp add: linked_def)
  have uniq_t: "u = t" if "u \<in> set (timers s)" and "t_addr u = t_addr t" for u
    using I that assms(3) by (auto simp: distinct_map inj_on_def)
  have uniq_q: "r = q" if "r \<in> set (requests s @ requests_wait s)" and "rq_addr r = rq_addr q" for r
    using distinct_addr_unique [OF sched_invD(2) [OF assms(1)] that(1) assms(2) that(2)] .
  have req: "\<exists>u \<in> set (timers s). t_addr u \<noteq> rq_timer q \<and> linked r u"
    if "r \<in> set (requests s @ requests_wait s)" and "rq_addr r \<noteq> rq_addr q" for r
    using request_timer [OF assms(1) that(1)] uniq_t assms(4) t that(2) by (metis linked_def)
  have tim: "\<exists>r \<in> set (requests s @ requests_wait s). rq_addr r \<noteq> rq_addr q \<and> linked r u"
    if "u \<in> set (timers s)" and "t_type u = TIMER_REQUEST" and "t_addr u \<noteq> rq_timer q" for u
    using sched_invD(6) [OF assms(1) that(1,2)] that(3) uniq_q by (metis linked_def)
  have brk: "rq_timer q < sched_brk s" using sched_invD(9) [OF assms(1), of t] assms(3) t by simp
  let ?s = "drop_request q t s"
  show ?thesis
    unfolding sched_inv_def
  proof (intro conjI)
    show "\<forall>r \<in> set (requests ?s @ requests_wait ?s). \<exists>u \<in> set (timers ?s). linked r u"
      using req by (simp add: drop_request_def) blast
    show "\<forall>u \<in> set (timers ?s). t_type u = TIMER_REQUEST \<longrightarrow>
            (\<exists>r \<in> set (requests ?s @ requests_wait ?s). linked r u)"
      using tim by (simp add: drop_request_def) blast
  qed (use brk I t timer_notin_drop [OF assms(1,3)] assms(3) in
      \<open>auto simp: drop_request_def distinct_map_filter\<close>)
qed

lemma request_destroy_eq:
  assumes "sched_inv s" and "q \<in> set (requests s @ requests_wait s)"
  shows "\<exists>t \<in> set (timers s). linked q t \<and> flb_sched_request_destroy (Some q) s = (0, drop_request q t s)"
proof -
  obtain t where t: "t \<in> set (timers s)" "linked q t" "t_addr t = rq_timer q"
    using request_timer [OF assms] .
  let ?s = "request_del (rq_addr q) s"
  have eq: "flb_sched_timer_invalidate a (request_del r s) = request_del r (flb_sched_timer_invalidate a s)" for a r
    by (simp add: flb_sched_timer_invalidate_def Let_def flb_sched_timer_cb_disable_def request_del_def
        timer_upd_def find_timer_def timer_del_def split: option.split)
  have "flb_sched_timer_invalidate (rq_timer q) ?s = drop_request q t s"
    unfolding eq timer_invalidate_eq [OF assms(1) t(1), unfolded t(3)]
    by (simp add: request_del_def drop_request_def)
  with t show ?thesis by (auto simp: flb_sched_request_destroy_def)
qed

lemma request_destroy_inv:
  assumes "sched_inv s" and "q \<in> set (requests s @ requests_wait s)"
  shows "sched_inv (snd (flb_sched_request_destroy (Some q) s))"
  using request_destroy_eq [OF assms] sched_inv_request_del_struct [OF assms] by auto

lemma request_invalidate_inv:
  assumes "sched_inv s"
  shows "sched_inv (snd (flb_sched_request_invalidate data s))"
  using assms request_destroy_inv [OF assms]
  by (auto simp: flb_sched_request_invalidate_def dest!: find_SomeD split: option.split)

section \<open>Promotion\<close>

definition due :: "int \<Rightarrow> flb_sched_request \<Rightarrow> bool" where
  "due now q \<longleftrightarrow> now - rq_created q + FLB_SCHED_REQUEST_FRAME \<ge> rq_timeout q"

definition promote_delay :: "int \<Rightarrow> flb_sched_request \<Rightarrow> int" where
  "promote_delay now q =
     (if now - rq_created q > rq_timeout q then 1 else rq_timeout q - (now - rq_created q))"

lemma promote_step_eq:
  "promote_step tc now q (s, failed) =
     (if \<not> due now q then (s, failed)
      else case schedule_request_now tc (promote_delay now q) (rq_timer q) q (request_del (rq_addr q) s) of
             (ret, s) \<Rightarrow> (s, if ret \<noteq> 0 then failed @ [q] else failed))"
  by (auto simp: promote_step_def due_def promote_delay_def Let_def FLB_SCHED_REQUEST_FRAME_def)

definition promote_fd :: "timeout_create \<Rightarrow> int \<Rightarrow> flb_sched_request \<Rightarrow> int" where
  "promote_fd tc now q = tc (rq_timer q) (promote_delay now q) 0"

text \<open>The lists after the loop.\<close>

lemma promote_fold_lists:
  assumes "distinct (map rq_addr qs)" and "\<forall>q \<in> set qs. rq_addr q \<notin> rq_addr ` set (requests s)"
  shows "requests (fst (fold (promote_step tc now) qs (s, failed))) =
           requests s @ map (\<lambda>q. q\<lparr>rq_fd := promote_fd tc now q\<rparr>)
                         (filter (\<lambda>q. due now q \<and> promote_fd tc now q \<noteq> -1) qs)
    \<and> requests_wait (fst (fold (promote_step tc now) qs (s, failed))) =
           filter (\<lambda>r. \<forall>q \<in> set qs. due now q \<longrightarrow> rq_addr r \<noteq> rq_addr q) (requests_wait s)
    \<and> snd (fold (promote_step tc now) qs (s, failed)) =
           failed @ filter (\<lambda>q. due now q \<and> promote_fd tc now q = -1) qs"
  using assms
proof (induction qs arbitrary: s failed)
  case (Cons q qs)
  have fresh: "filter (\<lambda>r. rq_addr r \<noteq> rq_addr q) (requests s) = requests s"
    using Cons.prems(2) by (intro filter_other) auto
  obtain s' f' where st: "promote_step tc now q (s, failed) = (s', f')" by fastforce
  have step: "requests s' = requests s @ (if due now q \<and> promote_fd tc now q \<noteq> -1
                                            then [q\<lparr>rq_fd := promote_fd tc now q\<rparr>] else [])
    \<and> requests_wait s' = filter (\<lambda>r. due now q \<longrightarrow> rq_addr r \<noteq> rq_addr q) (requests_wait s)
    \<and> f' = failed @ (if due now q \<and> promote_fd tc now q = -1 then [q] else [])"
    using st fresh
    by (auto simp: promote_step_eq schedule_request_now_def Let_def promote_fd_def request_del_def
        timer_upd_def split: if_splits)
  have "\<forall>r \<in> set qs. rq_addr r \<notin> rq_addr ` set (requests s')"
    using Cons.prems step by (auto simp: image_iff)
  then show ?case
    using Cons.IH [of s' f'] Cons.prems(1) step st by (auto intro: filter_cong)
qed simp

lemma promote_lists:
  assumes "sched_inv s"
  shows "requests (snd (schedule_request_promote tc now s)) =
           requests s @ map (\<lambda>q. q\<lparr>rq_fd := promote_fd tc now q\<rparr>)
                         (filter (\<lambda>q. due now q \<and> promote_fd tc now q \<noteq> -1) (requests_wait s))"
    and "requests_wait (snd (schedule_request_promote tc now s)) =
           filter (\<lambda>q. \<not> due now q) (requests_wait s)
           @ filter (\<lambda>q. due now q \<and> promote_fd tc now q = -1) (requests_wait s)"
proof -
  have d: "distinct (map rq_addr (requests_wait s))"
    and fresh: "\<forall>q \<in> set (requests_wait s). rq_addr q \<notin> rq_addr ` set (requests s)"
    using sched_invD(2) [OF assms] by auto
  have "filter (\<lambda>r. \<forall>q \<in> set (requests_wait s). due now q \<longrightarrow> rq_addr r \<noteq> rq_addr q) (requests_wait s)
          = filter (\<lambda>q. \<not> due now q) (requests_wait s)"
    using d by (intro filter_cong) (auto dest: distinct_addr_unique)
  then show "requests (snd (schedule_request_promote tc now s)) =
           requests s @ map (\<lambda>q. q\<lparr>rq_fd := promote_fd tc now q\<rparr>)
                         (filter (\<lambda>q. due now q \<and> promote_fd tc now q \<noteq> -1) (requests_wait s))"
    and "requests_wait (snd (schedule_request_promote tc now s)) =
           filter (\<lambda>q. \<not> due now q) (requests_wait s)
           @ filter (\<lambda>q. due now q \<and> promote_fd tc now q = -1) (requests_wait s)"
    using promote_fold_lists [OF d fresh, of tc now "[]"]
    by (simp_all add: schedule_request_promote_def case_prod_beta)
qed

text \<open>The invariant holds of the state with the failed requests put back.\<close>

definition put_back :: "'a flb_sched_scheme \<times> flb_sched_request list \<Rightarrow> 'a flb_sched_scheme" where
  "put_back st = (fst st)\<lparr>requests_wait := requests_wait (fst st) @ snd st\<rparr>"

lemma sched_inv_wait_perm:
  assumes "sched_inv s" and "mset ws = mset (requests_wait s)"
  shows "sched_inv (s\<lparr>requests_wait := ws\<rparr>)"
proof -
  have "set ws = set (requests_wait s)" using assms(2) by (rule mset_eq_setD)
  moreover have "distinct (map rq_addr ws) \<longleftrightarrow> distinct (map rq_addr (requests_wait s))"
    using assms(2) by (metis mset_eq_imp_distinct_iff mset_map)
  ultimately show ?thesis using assms(1) by (simp add: sched_inv_def)
qed

lemma promoted_requests_linked:
  assumes "sched_inv s" and "q \<in> set (requests_wait s)"
    and "g = (\<lambda>u. if t_addr u = rq_timer q then u\<lparr>t_fd := fd\<rparr> else u)"
    and r: "r \<in> set (requests s @ [q\<lparr>rq_fd := fd\<rparr>] @ filter (\<lambda>r. rq_addr r \<noteq> rq_addr q) (requests_wait s))"
  shows "\<exists>u \<in> set (timers s). linked r (g u)"
proof -
  obtain t where t: "t \<in> set (timers s)" "linked q t" "t_addr t = rq_timer q"
    using request_timer [OF assms(1), of q] assms(2) by auto
  show ?thesis
  proof (cases "r = q\<lparr>rq_fd := fd\<rparr>")
    case True
    then show ?thesis using t assms(3) by (intro bexI [of _ t]) (auto simp: linked_def)
  next
    case False
    have mem: "r \<in> set (requests s @ requests_wait s)" and ne: "rq_addr r \<noteq> rq_addr q"
      using r False sched_invD(2) [OF assms(1)] assms(2) by auto
    obtain u where u: "u \<in> set (timers s)" "linked r u" using request_timer [OF assms(1) mem] by blast
    have "u = t" if "t_addr u = rq_timer q"
      using sched_invD(1) [OF assms(1)] that t u(1) by (auto simp: distinct_map inj_on_def)
    then have "t_addr u \<noteq> rq_timer q" using u(2) t(2) ne by (auto simp: linked_def)
    then show ?thesis using u assms(3) by auto
  qed
qed

lemma promoted_timers_linked:
  assumes "sched_inv s" and "q \<in> set (requests_wait s)"
    and "g = (\<lambda>u. if t_addr u = rq_timer q then u\<lparr>t_fd := fd\<rparr> else u)"
    and u: "u \<in> set (timers s)" "t_type (g u) = TIMER_REQUEST"
  shows "\<exists>r \<in> set (requests s @ [q\<lparr>rq_fd := fd\<rparr>] @ filter (\<lambda>r. rq_addr r \<noteq> rq_addr q) (requests_wait s)).
           linked r (g u)"
proof -
  obtain t where t: "t \<in> set (timers s)" "linked q t" "t_addr t = rq_timer q"
    using request_timer [OF assms(1), of q] assms(2) by auto
  show ?thesis
  proof (cases "t_addr u = rq_timer q")
    case True
    then have "u = t" using sched_invD(1) [OF assms(1)] t u(1) by (auto simp: distinct_map inj_on_def)
    then show ?thesis using t assms(3) by (intro bexI [of _ "q\<lparr>rq_fd := fd\<rparr>"]) (auto simp: linked_def)
  next
    case False
    then obtain r where r: "r \<in> set (requests s @ requests_wait s)" "linked r u"
      using sched_invD(6) [OF assms(1) u(1)] u(2) assms(3) by auto
    have "r = q" if "rq_addr r = rq_addr q"
      using distinct_addr_unique [OF sched_invD(2) [OF assms(1)] r(1) _ that] assms(2) by simp
    then have "rq_addr r \<noteq> rq_addr q" using r(2) False by (auto simp: linked_def)
    with r show ?thesis using False assms(3) by auto
  qed
qed

lemma sched_inv_promoted:
  assumes "sched_inv s" and "q \<in> set (requests_wait s)" and "fd \<noteq> -1"
  shows "sched_inv ((timer_upd (rq_timer q) (\<lambda>t. t\<lparr>t_fd := fd\<rparr>) s)
           \<lparr>requests := requests s @ [q\<lparr>rq_fd := fd\<rparr>],
            requests_wait := filter (\<lambda>r. rq_addr r \<noteq> rq_addr q) (requests_wait s)\<rparr>)"
    (is "sched_inv ?s")
proof -
  note I = assms(1) [unfolded sched_inv_def]
  define g where "g = (\<lambda>u :: flb_sched_timer. if t_addr u = rq_timer q then u\<lparr>t_fd := fd\<rparr> else u)"
  obtain t where t: "t \<in> set (timers s)" "t_addr t = rq_timer q"
    using request_timer [OF assms(1), of q] assms(2) by auto
  have "map g (timers_drop s) = timers_drop s"
    unfolding g_def using timer_notin_drop [OF assms(1) t(1)] t(2) by (intro map_upd_other) simp
  then have lists: "timers ?s = map g (timers s)" "timers_drop ?s = timers_drop s"
    "requests ?s = requests s @ [q\<lparr>rq_fd := fd\<rparr>]" "sched_brk ?s = sched_brk s"
    "requests_wait ?s = filter (\<lambda>r. rq_addr r \<noteq> rq_addr q) (requests_wait s)"
    by (simp_all add: timer_upd_def g_def)
  have g: "t_addr (g u) = t_addr u" "t_active (g u) = t_active u" for u by (simp_all add: g_def)
  then have addrs: "t_addr \<circ> g = t_addr" by (simp add: fun_eq_iff)
  have reqs: "\<forall>r \<in> set ((requests s @ [q\<lparr>rq_fd := fd\<rparr>]) @ filter (\<lambda>r. rq_addr r \<noteq> rq_addr q) (requests_wait s)).
            \<exists>u \<in> set (map g (timers s)). linked r u"
    using promoted_requests_linked [OF assms(1,2) g_def] by (simp add: image_iff)
  have tims: "\<forall>u \<in> set (map g (timers s)). t_type u = TIMER_REQUEST \<longrightarrow>
      (\<exists>r \<in> set ((requests s @ [q\<lparr>rq_fd := fd\<rparr>]) @ filter (\<lambda>r. rq_addr r \<noteq> rq_addr q) (requests_wait s)). linked r u)"
    using promoted_timers_linked [OF assms(1,2) g_def] by simp
  show ?thesis
    unfolding sched_inv_def lists
    by (intro conjI reqs tims) (use I assms(2,3) addrs g in \<open>auto simp: distinct_map_filter\<close>)
qed

lemma promote_step_inv:
  assumes "sched_inv (put_back (s, failed))" and "q \<in> set (requests_wait s)"
  shows "sched_inv (put_back (promote_step tc now q (s, failed)))"
proof -
  let ?s = "put_back (s, failed)"
  have d: "distinct (map rq_addr (requests s @ requests_wait s @ failed))"
    using sched_invD(2) [OF assms(1)] by (simp add: put_back_def)
  have q: "q \<in> set (requests_wait ?s)" using assms(2) by (simp add: put_back_def)
  have req: "filter (\<lambda>r. rq_addr r \<noteq> rq_addr q) (requests s) = requests s"
    and fail: "filter (\<lambda>r. rq_addr r \<noteq> rq_addr q) failed = failed"
    using d assms(2) by (intro filter_other; auto)+
  have "filter (\<lambda>r. rq_addr r \<noteq> rq_addr q) (requests_wait s) = filter (\<lambda>r. q \<noteq> r) (requests_wait s)"
    using d assms(2) by (intro filter_cong) (auto dest: distinct_addr_unique)
  also have "\<dots> = remove1 q (requests_wait s)"
    using d by (simp add: distinct_map distinct_remove1_removeAll removeAll_filter_not_eq)
  finally have wait: "mset (filter (\<lambda>r. rq_addr r \<noteq> rq_addr q) (requests_wait s) @ failed @ [q])
      = mset (requests_wait s @ failed)"
    using assms(2) by simp
  consider "\<not> due now q" | "due now q" "promote_fd tc now q = -1" | "due now q" "promote_fd tc now q \<noteq> -1" by blast
  then show ?thesis
  proof cases
    case 1
    then show ?thesis using assms(1) by (simp add: promote_step_eq)
  next
    case 2
    then have "put_back (promote_step tc now q (s, failed)) =
        ?s\<lparr>requests_wait := filter (\<lambda>r. rq_addr r \<noteq> rq_addr q) (requests_wait s) @ failed @ [q]\<rparr>"
      by (simp add: promote_step_eq schedule_request_now_def promote_fd_def request_del_def put_back_def req)
    then show ?thesis using sched_inv_wait_perm [OF assms(1)] wait by (simp add: put_back_def)
  next
    case 3
    then have "put_back (promote_step tc now q (s, failed)) =
        (timer_upd (rq_timer q) (\<lambda>t. t\<lparr>t_fd := promote_fd tc now q\<rparr>) ?s)
           \<lparr>requests := requests ?s @ [q\<lparr>rq_fd := promote_fd tc now q\<rparr>],
            requests_wait := filter (\<lambda>r. rq_addr r \<noteq> rq_addr q) (requests_wait ?s)\<rparr>"
      by (simp add: promote_step_eq schedule_request_now_def promote_fd_def request_del_def put_back_def
          req fail timer_upd_def Let_def)
    then show ?thesis using sched_inv_promoted [OF assms(1) q 3(2)] by simp
  qed
qed

lemma promote_fold_inv:
  assumes "sched_inv (put_back (s, failed))" and "set qs \<subseteq> set (requests_wait s)" and "distinct (map rq_addr qs)"
  shows "sched_inv (put_back (fold (promote_step tc now) qs (s, failed)))"
  using assms
proof (induction qs arbitrary: s failed)
  case (Cons q qs)
  obtain s' f' where st: "promote_step tc now q (s, failed) = (s', f')" by fastforce
  have "sched_inv (put_back (s', f'))"
    using promote_step_inv [OF Cons.prems(1), of q tc now] Cons.prems(2) st by simp
  moreover have "requests_wait s' = (if due now q then filter (\<lambda>r. rq_addr r \<noteq> rq_addr q) (requests_wait s)
                                     else requests_wait s)"
    using st by (auto simp: promote_step_eq schedule_request_now_def Let_def request_del_def timer_upd_def
        split: if_splits)
  then have "set qs \<subseteq> set (requests_wait s')" using Cons.prems(2,3) by (auto simp: image_iff)
  ultimately show ?case using Cons.IH [of s' f'] Cons.prems(3) st by simp
qed simp

lemma promote_inv: "sched_inv s \<Longrightarrow> sched_inv (snd (schedule_request_promote tc now s))"
  using promote_fold_inv [of s "[]" "requests_wait s" tc now] sched_invD(2) [of s]
  by (simp add: schedule_request_promote_def put_back_def case_prod_beta)

section \<open>Other operations keep the invariant\<close>

lemma timer_destroy_eq: "flb_sched_timer_destroy a s = timer_del a s"
proof -
  have "filter (\<lambda>t. t_addr t \<noteq> a) (map (\<lambda>t. if t_addr t = a then f t else t) ts) = filter (\<lambda>t. t_addr t \<noteq> a) ts"
    if "\<And>t. t_addr (f t) = t_addr t" for f :: "flb_sched_timer \<Rightarrow> flb_sched_timer" and ts
    using that by (induction ts) auto
  then show ?thesis
    by (simp add: flb_sched_timer_destroy_def flb_sched_timer_cb_disable_def timer_upd_def timer_del_def)
qed

lemma timer_del_inv:
  assumes "sched_inv s" and "\<forall>t \<in> set (timers s). t_addr t = a \<longrightarrow> t_type t \<noteq> TIMER_REQUEST"
  shows "sched_inv (timer_del a s)"
proof -
  have "\<forall>q \<in> set (requests s @ requests_wait s). \<exists>t \<in> set (timers s). t_addr t \<noteq> a \<and> linked q t"
    using sched_invD(5) [OF assms(1)] assms(2) unfolding linked_def by metis
  then have "\<forall>q \<in> set (requests (timer_del a s) @ requests_wait (timer_del a s)).
      \<exists>t \<in> set (timers (timer_del a s)). linked q t"
    by (simp add: timer_del_def) blast
  then show ?thesis
    unfolding sched_inv_def
    by (intro conjI) (use assms(1) in \<open>auto simp: timer_del_def sched_inv_def distinct_map_filter\<close>)
qed

lemma timer_upd_inv:
  assumes "sched_inv s"
    and f: "\<And>t. t_addr (f t) = t_addr t \<and> t_active (f t) = t_active t \<and> t_type (f t) = t_type t
              \<and> t_data (f t) = t_data t \<and> t_fd (f t) = t_fd t"
  shows "sched_inv (timer_upd a f s)"
proof -
  define g where "g = (\<lambda>t. if t_addr t = a then f t else t)"
  have g: "linked q (g t) = linked q t" "t_addr (g t) = t_addr t" "t_active (g t) = t_active t"
    "t_type (g t) = t_type t" "t_fd (g t) = t_fd t" for q t
    using f by (auto simp: linked_def g_def)
  have upd: "timer_upd a f s = s\<lparr>timers := map g (timers s), timers_drop := map g (timers_drop s)\<rparr>"
    by (simp add: timer_upd_def g_def)
  have "t_addr \<circ> g = t_addr" using g(2) by (simp add: fun_eq_iff)
  then show ?thesis
    using assms(1) unfolding sched_inv_def upd by (simp add: g image_image ball_Un)
qed

lemma timer_create_inv:
  "sched_inv s \<Longrightarrow> sched_inv (snd (flb_sched_timer_create ok s))"
  by (auto simp: flb_sched_timer_create_def Let_def intro: sched_inv_add_timer)

lemma timer_cb_create_eq:
  assumes "sched_inv s" and "ty = TIMER_CB_ONESHOT \<or> ty = TIMER_CB_PERM"
  shows "flb_sched_timer_cb_create ok tc ty ms cb data s =
     (if \<not> ok then ((-1, None), s)
      else if tc (sched_brk s) (ms sdiv 1000) ((ms smod 1000) * 1000000) = -1
      then ((-1, None), s\<lparr>sched_brk := sched_brk s + 1\<rparr>)
      else ((0, Some (sched_brk s)),
            s\<lparr>timers := timers s @ [\<lparr>t_addr = sched_brk s, t_active = True, t_type = ty, t_coro = False,
                 t_data = data, t_cb = cb, t_fd = tc (sched_brk s) (ms sdiv 1000) ((ms smod 1000) * 1000000)\<rparr>],
              sched_brk := sched_brk s + 1\<rparr>))"
  using assms brk_fresh(1,2) [OF assms(1)]
  by (auto simp: flb_sched_timer_cb_create_def flb_sched_timer_create_def Let_def timer_upd_new
      timer_destroy_new)

lemma timer_cb_create_inv:
  assumes "sched_inv s"
  shows "sched_inv (snd (flb_sched_timer_cb_create ok tc ty ms cb data s))"
proof (cases "ty = TIMER_CB_ONESHOT \<or> ty = TIMER_CB_PERM")
  case True
  then show ?thesis
    using assms by (auto simp: timer_cb_create_eq intro: sched_inv_brk sched_inv_add_timer)
next
  case False
  then show ?thesis using assms by (simp add: flb_sched_timer_cb_create_def)
qed

lemma timer_coro_cb_create_inv:
  assumes "sched_inv s"
  shows "sched_inv (snd (flb_sched_timer_coro_cb_create ok tc ty ms cb data s))"
  using timer_cb_create_inv [OF assms, of ok tc ty ms cb data]
  by (auto simp: flb_sched_timer_coro_cb_create_def intro: timer_upd_inv split: prod.splits option.splits)

text \<open>Cleaning up removes what was dropped, and only that.\<close>

lemma cleanup_fold:
  "fold (\<lambda>t (n, s). (n + 1, flb_sched_timer_destroy (t_addr t) s)) ts (n, s) =
     (n + int (length ts),
      s\<lparr>timers := filter (\<lambda>t. t_addr t \<notin> t_addr ` set ts) (timers s),
        timers_drop := filter (\<lambda>t. t_addr t \<notin> t_addr ` set ts) (timers_drop s)\<rparr>)"
  by (induction ts arbitrary: n s)
    (auto simp: timer_destroy_eq timer_del_def conj_commute intro!: flb_sched.fold_congs filter_cong)

lemma coro_cleanup_fold:
  "fold (\<lambda>c (n, s). (n + 1, flb_sched_timer_coro_destroy (Some c) s)) cs (n, s) =
     (n + int (length cs),
      s\<lparr>timer_coro_list := filter (\<lambda>c. stc_addr c \<notin> stc_addr ` set cs) (timer_coro_list s),
        timer_coro_list_drop := filter (\<lambda>c. stc_addr c \<notin> stc_addr ` set cs) (timer_coro_list_drop s)\<rparr>)"
  by (induction cs arbitrary: n s)
    (auto simp: flb_sched_timer_coro_destroy_def conj_commute intro!: flb_sched.fold_congs filter_cong)

lemma filter_drop_addr:
  "filter (\<lambda>t. t_addr t \<notin> t_addr ` set ts) ts = []" for ts :: "flb_sched_timer list"
  by (simp add: filter_empty_conv)

lemma timer_cleanup_eq:
  assumes "sched_inv s"
  shows "fst (flb_sched_timer_cleanup s) = int (length (timers_drop s) + length (timer_coro_list_drop s))"
    and "timers (snd (flb_sched_timer_cleanup s)) = timers s"
    and "timers_drop (snd (flb_sched_timer_cleanup s)) = []"
    and "timer_coro_list_drop (snd (flb_sched_timer_cleanup s)) = []"
    and "requests (snd (flb_sched_timer_cleanup s)) = requests s"
    and "requests_wait (snd (flb_sched_timer_cleanup s)) = requests_wait s"
    and "sched_brk (snd (flb_sched_timer_cleanup s)) = sched_brk s"
proof -
  have "filter (\<lambda>t. t_addr t \<notin> t_addr ` set (timers_drop s)) (timers s) = timers s"
    using timer_notin_drop [OF assms] by (intro filter_True) auto
  then show "fst (flb_sched_timer_cleanup s) = int (length (timers_drop s) + length (timer_coro_list_drop s))"
    "timers (snd (flb_sched_timer_cleanup s)) = timers s"
    "timers_drop (snd (flb_sched_timer_cleanup s)) = []"
    "timer_coro_list_drop (snd (flb_sched_timer_cleanup s)) = []"
    "requests (snd (flb_sched_timer_cleanup s)) = requests s"
    "requests_wait (snd (flb_sched_timer_cleanup s)) = requests_wait s"
    "sched_brk (snd (flb_sched_timer_cleanup s)) = sched_brk s"
    by (simp_all add: flb_sched_timer_cleanup_def flb_sched_timer_coro_cleanup_def cleanup_fold
        coro_cleanup_fold filter_drop_addr filter_empty_conv)
qed

lemma timer_cleanup_inv: "sched_inv s \<Longrightarrow> sched_inv (snd (flb_sched_timer_cleanup s))"
  by (subst sched_inv_def) (simp add: timer_cleanup_eq, simp add: sched_inv_def ball_Un)

lemma length_filter_addr:
  "distinct (map f xs) \<Longrightarrow> x \<in> set xs \<Longrightarrow> Suc (length (filter (\<lambda>y. f y \<noteq> f x) xs)) = length xs"
proof (induction xs)
  case (Cons y ys)
  show ?case
  proof (cases "x = y")
    case True
    then have "filter (\<lambda>z. f z \<noteq> f x) ys = ys" using Cons.prems(1) by (intro filter_other) auto
    then show ?thesis using True by simp
  next
    case False
    then have "f y \<noteq> f x" using Cons.prems by auto
    then show ?thesis using Cons False by simp
  qed
qed simp

lemma drop_request_length:
  assumes "sched_inv s" and "t \<in> set (timers s)" and "linked q t"
  shows "length (timers (drop_request q t s)) + length (timers_drop (drop_request q t s))
           = length (timers s) + length (timers_drop s)"
  using length_filter_addr [of t_addr "timers s" t] sched_invD(1) [OF assms(1)] assms(2,3)
  by (simp add: drop_request_def linked_def)

lemma destroy_requests_fold:
  assumes "sched_inv s" and "distinct (map rq_addr qs)" and "set qs \<subseteq> set (requests s @ requests_wait s)"
  shows "\<exists>s'. fold (\<lambda>q (c, s). (c + 1, snd (flb_sched_request_destroy (Some q) s))) qs (c, s)
                 = (c + int (length qs), s')
    \<and> sched_inv s'
    \<and> requests s' = filter (\<lambda>r. rq_addr r \<notin> rq_addr ` set qs) (requests s)
    \<and> requests_wait s' = filter (\<lambda>r. rq_addr r \<notin> rq_addr ` set qs) (requests_wait s)
    \<and> length (timers s') + length (timers_drop s') = length (timers s) + length (timers_drop s)
    \<and> length (timers s') = length (timers s) - length qs"
  using assms
proof (induction qs arbitrary: c s)
  case (Cons q qs)
  have q: "q \<in> set (requests s @ requests_wait s)" using Cons.prems(3) by simp
  obtain t where t: "t \<in> set (timers s)" "linked q t"
    and eq: "flb_sched_request_destroy (Some q) s = (0, drop_request q t s)"
    using request_destroy_eq [OF Cons.prems(1) q] by blast
  let ?s = "drop_request q t s"
  have inv: "sched_inv ?s" using request_destroy_inv [OF Cons.prems(1) q] eq by simp
  have sub: "set qs \<subseteq> set (requests ?s @ requests_wait ?s)"
    using Cons.prems(2,3) by (auto simp: drop_request_def image_iff)
  have len: "Suc (length (timers ?s)) = length (timers s)"
    using length_filter_addr [of t_addr "timers s" t] sched_invD(1) [OF Cons.prems(1)] t
    by (simp add: drop_request_def linked_def)
  obtain s' where s': "fold (\<lambda>q (c, s). (c + 1, snd (flb_sched_request_destroy (Some q) s))) qs (c + 1, ?s)
                 = (c + 1 + int (length qs), s')"
    "sched_inv s'"
    "requests s' = filter (\<lambda>r. rq_addr r \<notin> rq_addr ` set qs) (requests ?s)"
    "requests_wait s' = filter (\<lambda>r. rq_addr r \<notin> rq_addr ` set qs) (requests_wait ?s)"
    "length (timers s') + length (timers_drop s') = length (timers ?s) + length (timers_drop ?s)"
    "length (timers s') = length (timers ?s) - length qs"
    using Cons.IH [OF inv _ sub, of "c + 1"] Cons.prems(2) by auto
  moreover have "requests s' = filter (\<lambda>r. rq_addr r \<notin> rq_addr ` set (q # qs)) (requests s)"
    "requests_wait s' = filter (\<lambda>r. rq_addr r \<notin> rq_addr ` set (q # qs)) (requests_wait s)"
    using s'(3,4) by (auto simp: drop_request_def intro!: filter_cong)
  ultimately show ?case
    using eq drop_request_length [OF Cons.prems(1) t] len by auto
qed simp

lemma sched_destroy_all:
  assumes "sched_inv s"
  shows "fst (flb_sched_destroy s) =
           int (length (requests s) + length (requests_wait s) + length (timers s) + length (timers_drop s))"
    and "requests (snd (flb_sched_destroy s)) = []" and "requests_wait (snd (flb_sched_destroy s)) = []"
    and "timers (snd (flb_sched_destroy s)) = []" and "timers_drop (snd (flb_sched_destroy s)) = []"
proof -
  let ?d = "\<lambda>q (c, s). (c + 1, snd (flb_sched_request_destroy (Some q) s))"
  have d: "distinct (map rq_addr (requests s))" "distinct (map rq_addr (requests_wait s))"
    and disj: "rq_addr ` set (requests s) \<inter> rq_addr ` set (requests_wait s) = {}"
    using sched_invD(2) [OF assms] by auto
  obtain s1 where s1: "fold ?d (requests s) (0, s) = (int (length (requests s)), s1)" "sched_inv s1"
    "requests s1 = []" "requests_wait s1 = requests_wait s"
    "length (timers s1) + length (timers_drop s1) = length (timers s) + length (timers_drop s)"
  proof -
    have "filter (\<lambda>r. rq_addr r \<notin> rq_addr ` set (requests s)) (requests_wait s) = requests_wait s"
      using disj by (intro filter_True) auto
    then show ?thesis
      using destroy_requests_fold [OF assms d(1), of 0] that by (auto simp: filter_empty_conv)
  qed
  obtain s2 where s2: "fold ?d (requests_wait s) (int (length (requests s)), s1)
      = (int (length (requests s)) + int (length (requests_wait s)), s2)" "sched_inv s2"
    "requests s2 = []" "requests_wait s2 = []"
    "length (timers s2) + length (timers_drop s2) = length (timers s) + length (timers_drop s)"
    using destroy_requests_fold [OF s1(2) d(2), of "int (length (requests s))"] s1(3-5)
    by (auto simp: filter_empty_conv)
  have keep: "filter (\<lambda>t. t_addr t \<notin> t_addr ` set (timers s2)) (timers_drop s2) = timers_drop s2"
    using sched_invD(1) [OF s2(2)] by (intro filter_True) auto
  have "flb_sched_destroy s =
      (int (length (requests s)) + int (length (requests_wait s)) + int (length (timers s2))
         + int (length (timers_drop s2)), s2\<lparr>timers := [], timers_drop := []\<rparr>)"
    using s1 s2 by (simp add: flb_sched_destroy_def cleanup_fold filter_drop_addr keep)
  then show "fst (flb_sched_destroy s) =
           int (length (requests s) + length (requests_wait s) + length (timers s) + length (timers_drop s))"
    "requests (snd (flb_sched_destroy s)) = []" "requests_wait (snd (flb_sched_destroy s)) = []"
    "timers (snd (flb_sched_destroy s)) = []" "timers_drop (snd (flb_sched_destroy s)) = []"
    using s2(3-5) by simp_all
qed

section \<open>Coroutine ids\<close>

lemma coro_id_loop_spec:
  "n \<le> coro_id_loop ids n \<and> (\<forall>m. n \<le> m \<longrightarrow> m < coro_id_loop ids n \<longrightarrow> m \<in> set ids)
   \<and> (coro_id_loop ids n \<in> set ids \<longrightarrow> coro_id_loop ids n = -1)"
proof (induction ids n rule: coro_id_loop.induct)
  case (1 ids n)
  show ?case
  proof (cases "n < -1 \<and> n \<in> set ids")
    case True
    then have eq: "coro_id_loop ids n = coro_id_loop ids (n + 1)" by (simp add: coro_id_loop.simps [of ids n])
    have suc: "unat (n + 1) = Suc (unat n)" using True by (simp add: unat_succ)
    then have up: "n < n + 1" by (simp add: word_less_nat_alt)
    have split: "m = n \<or> n + 1 \<le> m" if "n \<le> m" for m :: u32
      using that suc by (auto simp: word_le_nat_alt word_unat_eq_iff)
    show ?thesis using 1 True up split unfolding eq by auto
  next
    case False
    then have "coro_id_loop ids n = n" by (auto simp: coro_id_loop.simps [of ids n])
    then show ?thesis using False order.not_eq_order_implies_strict [OF _ max_word_max, of n] by auto
  qed
qed

lemma coro_id_fresh:
  assumes "length (timer_coro_list s) < 2 ^ 32 - 1"
  shows "sched_timer_coro_get_id s \<notin> stc_id ` set (timer_coro_list s)"
proof
  let ?ids = "map stc_id (timer_coro_list s)"
  assume "sched_timer_coro_get_id s \<in> stc_id ` set (timer_coro_list s)"
  then have max: "coro_id_loop ?ids 0 = -1"
    using coro_id_loop_spec [of 0 ?ids] by (simp add: sched_timer_coro_get_id_def)
  have "UNIV - {-1} \<subseteq> set ?ids"
  proof
    fix m :: u32
    assume "m \<in> UNIV - {-1}"
    then have "m < -1" by (simp add: word_order.not_eq_extremum)
    then show "m \<in> set ?ids" using coro_id_loop_spec [of 0 ?ids] max by (metis word_zero_le)
  qed
  then have "card (UNIV - {-1 :: u32}) \<le> card (set ?ids)" by (intro card_mono) simp_all
  also have "\<dots> \<le> length (timer_coro_list s)" by (metis card_length length_map)
  finally show False using assms by (simp add: card_Diff_singleton card_word)
qed

section \<open>Reachable schedulers\<close>

lemma request_create_inv:
  assumes "sched_inv s" and "flb_sched_request_create timer_ok request_ok tc rnd now data tries s = Some (ret, s')"
  shows "sched_inv s'"
proof -
  have leak: "sched_inv (s\<lparr>timers := timers s @ [(new_timer s (-1))\<lparr>t_type := TIMER_NONE, t_data := 0\<rparr>],
                           sched_brk := Suc (sched_brk s)\<rparr>)"
    using assms(1) by (rule sched_inv_add_timer) (simp_all add: new_timer_def)
  show ?thesis
    using assms leak unfolding request_create_eq [OF assms(1)]
    by (auto simp: with_now_inv with_wait_inv sched_inv_brk split: if_splits option.splits)
qed

lemma retry_now_inv: "sched_inv s \<Longrightarrow> sched_inv (snd (flb_sched_retry_now timer_ok request_ok tc now retry s))"
  by (simp add: retry_now_eq with_now_inv sched_inv_brk)

lemma sched_create_inv:
  assumes "flb_sched_create sched_ok timer_ok tc channel_ok base cap shutdown = Some s"
  shows "sched_inv s"
  using assms
  by (auto simp: flb_sched_create_def flb_sched_timer_create_def Let_def timer_upd_def sched_inv_def
      split: if_splits)

lemma coro_fields_inv:
  "sched_inv (s\<lparr>timer_coro_list := a, timer_coro_list_drop := b\<rparr>) = sched_inv s"
  "sched_inv (s\<lparr>is_shutting_down := c\<rparr>) = sched_inv s"
  by (simp_all add: sched_inv_def)

lemma timer_coro_create_inv: "sched_inv s \<Longrightarrow> sched_inv (snd (flb_sched_timer_coro_create a b timer data s))"
  using sched_inv_brk [of s "Suc (sched_brk s)"]
  by (auto simp: flb_sched_timer_coro_create_def Let_def sched_inv_def)

text \<open>
  What can happen to a scheduler: its interface is called, or a frame or coroutine event is handled.
\<close>

inductive sched_reachable :: "flb_sched \<Rightarrow> bool" where
  create: "flb_sched_create sched_ok timer_ok tc channel_ok base cap shutdown = Some s \<Longrightarrow> sched_reachable s"
| request_create: "sched_reachable s \<Longrightarrow>
     flb_sched_request_create timer_ok request_ok tc rnd now data tries s = Some (ret, s') \<Longrightarrow> sched_reachable s'"
| retry_now: "sched_reachable s \<Longrightarrow>
     sched_reachable (snd (flb_sched_retry_now timer_ok request_ok tc now retry s))"
| invalidate: "sched_reachable s \<Longrightarrow> sched_reachable (snd (flb_sched_request_invalidate data s))"
| request_destroy: "sched_reachable s \<Longrightarrow> q \<in> set (requests s @ requests_wait s) \<Longrightarrow>
     sched_reachable (snd (flb_sched_request_destroy (Some q) s))"
| cb_create: "sched_reachable s \<Longrightarrow>
     sched_reachable (snd (flb_sched_timer_cb_create ok tc ty ms cb data s))"
| coro_cb_create: "sched_reachable s \<Longrightarrow>
     sched_reachable (snd (flb_sched_timer_coro_cb_create ok tc ty ms cb data s))"
| cb_destroy: "sched_reachable s \<Longrightarrow> t \<in> set (timers s) \<Longrightarrow> t_type t \<noteq> TIMER_REQUEST \<Longrightarrow>
     sched_reachable (flb_sched_timer_cb_destroy (t_addr t) s)"
| frame: "sched_reachable s \<Longrightarrow> sched_reachable (snd (schedule_request_promote tc now s))"
| cleanup: "sched_reachable s \<Longrightarrow> sched_reachable (snd (flb_sched_timer_cleanup s))"
| coro_create: "sched_reachable s \<Longrightarrow>
     sched_reachable (snd (flb_sched_timer_coro_create stc_ok coro_ok timer data s))"
| coro_event: "sched_reachable s \<Longrightarrow>
     sched_reachable (snd (flb_sched_event_handler tc now dispatch run coro_ok (Ev_Sched_Coro v) s))"
| shutdown: "sched_reachable s \<Longrightarrow> sched_reachable (s\<lparr>is_shutting_down := b\<rparr>)"

lemma reachable_inv: "sched_reachable s \<Longrightarrow> sched_inv s"
proof (induction rule: sched_reachable.induct)
  case (cb_destroy s t)
  have "\<forall>u \<in> set (timers s). t_addr u = t_addr t \<longrightarrow> t_type u \<noteq> TIMER_REQUEST"
    using distinct_addr_unique [of t_addr "timers s"] sched_invD(1) [OF cb_destroy(4)] cb_destroy(2,3)
    by (metis distinct_append map_append)
  then show ?case
    using cb_destroy(4) by (simp add: flb_sched_timer_cb_destroy_def timer_destroy_eq timer_del_inv)
next
  case (coro_event s tc now dispatch run coro_ok v)
  then show ?case
    by (simp add: flb_sched_event_handler_def coro_fields_inv split: option.split)
qed (simp_all add: sched_create_inv request_create_inv retry_now_inv request_invalidate_inv
    request_destroy_inv timer_cb_create_inv timer_coro_cb_create_inv promote_inv timer_cleanup_inv
    timer_coro_create_inv coro_fields_inv del: set_append)

lemma dropped_timer_inactive:
  assumes "sched_inv s" and "t \<in> set (timers_drop s)"
  shows "find_timer s (t_addr t) = Some t" and "\<not> t_active t"
  using find_addr [OF sched_invD(1) [OF assms(1)], of t] assms sched_invD(4) [OF assms]
  by (simp_all add: find_timer_def)

section \<open>Properties\<close>

text \<open>
  C31: in every reachable state of the scheduler requests and timers are in step: each scheduled or
  waiting retry request has its own active timer that points back to it, with the same descriptor;
  each active request timer has its request; a scheduled request has a descriptor and a waiting one has
  none; dropped timers are inactive and have no descriptor; addresses are distinct.
\<close>

theorem sched_requests_have_timers:
  assumes "sched_reachable s"
  shows "sched_inv s"
  using assms by (rule reachable_inv)

definition sample_sched :: flb_sched where
  "sample_sched = the (flb_sched_create True True (\<lambda>a sec nsec. int a) True FLB_SCHED_BASE FLB_SCHED_CAP False)"

lemma sample_sched_reachable: "sched_reachable sample_sched"
  by (rule sched_reachable.create [of True True "\<lambda>a sec nsec. int a" True FLB_SCHED_BASE FLB_SCHED_CAP False])
    (simp add: sample_sched_def flb_sched_create_def flb_sched_timer_create_def Let_def)

definition sample_sched2 :: flb_sched where
  "sample_sched2 = snd (flb_sched_retry_now True True (\<lambda>a sec nsec. int a) 100 77 sample_sched)"

lemma sample_sched2_reachable: "sched_reachable sample_sched2"
  unfolding sample_sched2_def by (rule sched_reachable.retry_now [OF sample_sched_reachable])

lemma sched_requests_have_timers_witness: "sched_inv sample_sched2 \<and> length (requests sample_sched2) = 1"
proof
  show "sched_inv sample_sched2" by (rule sched_requests_have_timers [OF sample_sched2_reachable])
  show "length (requests sample_sched2) = 1" by code_simp
qed



text \<open>
  C30: promotion by the frame timer: no request is lost or duplicated, the scheduled ones stay as they
  are, every waiting request that falls due within the frame is handed to the event loop with the
  remaining time (one second when it is overdue), and a request is left waiting only when it is not due
  or its timeout could not be created.
\<close>

theorem sched_promote_frame:
  assumes "sched_reachable s" and "s' = snd (schedule_request_promote tc now s)"
  shows "mset (map rq_addr (requests s' @ requests_wait s')) = mset (map rq_addr (requests s @ requests_wait s))
    \<and> requests s' = requests s
        @ map (\<lambda>q. q\<lparr>rq_fd := tc (rq_timer q) (if now - rq_created q > rq_timeout q then 1
                                              else rq_timeout q - (now - rq_created q)) 0\<rparr>)
            (filter (\<lambda>q. due now q \<and> promote_fd tc now q \<noteq> -1) (requests_wait s))
    \<and> (\<forall>q \<in> set (requests_wait s'). now + FLB_SCHED_REQUEST_FRAME < rq_created q + rq_timeout q
         \<or> promote_fd tc now q = -1)"
proof -
  have lists: "requests s' = requests s @ map (\<lambda>q. q\<lparr>rq_fd := promote_fd tc now q\<rparr>)
                 (filter (\<lambda>q. due now q \<and> promote_fd tc now q \<noteq> -1) (requests_wait s))"
    "requests_wait s' = filter (\<lambda>q. \<not> due now q) (requests_wait s)
           @ filter (\<lambda>q. due now q \<and> promote_fd tc now q = -1) (requests_wait s)"
    using promote_lists [OF reachable_inv [OF assms(1)]] assms(2) by simp_all
  have "filter_mset (\<lambda>q. due now q \<and> promote_fd tc now q \<noteq> -1) M
      + (filter_mset (\<lambda>q. \<not> due now q) M + filter_mset (\<lambda>q. due now q \<and> promote_fd tc now q = -1) M) = M" for M
    by (induction M) auto
  then have "mset (map rq_addr (requests s' @ requests_wait s')) = mset (map rq_addr (requests s @ requests_wait s))"
    unfolding lists by (simp add: image_mset_union [symmetric] o_def del: image_mset_union)
  then show ?thesis
    using lists by (auto simp: promote_fd_def promote_delay_def due_def)
qed

definition sample_sched3 :: flb_sched where
  "sample_sched3 = snd (the (flb_sched_request_create True True (\<lambda>a sec nsec. int a) (\<lambda>_. 2 ^ 29) 100 77 10
                               sample_sched))"

lemma sample_sched3_reachable: "sched_reachable sample_sched3"
proof (rule sched_reachable.request_create [OF sample_sched_reachable])
  have "flb_sched_request_create True True (\<lambda>a sec nsec. int a) (\<lambda>_. 2 ^ 29) 100 77 10 sample_sched \<noteq> None"
    by code_simp
  then show "flb_sched_request_create True True (\<lambda>a sec nsec. int a) (\<lambda>_. 2 ^ 29) 100 77 10 sample_sched
      = Some (fst (the (flb_sched_request_create True True (\<lambda>a sec nsec. int a) (\<lambda>_. 2 ^ 29) 100 77 10 sample_sched)),
              sample_sched3)"
    by (auto simp: sample_sched3_def)
qed

lemma sched_promote_frame_witness:
  "map rq_fd (requests (snd (schedule_request_promote (\<lambda>a sec nsec. sec) 600 sample_sched3))) = [5]"
proof -
  have "map rq_fd (requests sample_sched3 @ map (\<lambda>q. q\<lparr>rq_fd := (if 600 - rq_created q > rq_timeout q then 1
                                              else rq_timeout q - (600 - rq_created q))\<rparr>)
            (filter (\<lambda>q. due 600 q \<and> promote_fd (\<lambda>a sec nsec. sec) 600 q \<noteq> -1) (requests_wait sample_sched3)))
          = [5]" by code_simp
  then show ?thesis
    using sched_promote_frame [OF sample_sched3_reachable refl, of "\<lambda>a sec nsec. sec" 600] by simp
qed

text \<open>
  An event of a request that was cancelled in the same round of the event loop is ignored: after
  \<open>flb_sched_request_destroy\<close> the handler of the request's timer does nothing, whatever the dispatch and
  the callbacks would do.
\<close>

theorem sched_stale_event_ignored:
  assumes "sched_reachable s" and "q \<in> set (requests s @ requests_wait s)"
    and "s' = snd (flb_sched_request_destroy (Some q) s)"
  shows "flb_sched_event_handler tc now dispatch run coro_ok (Ev_Timer (rq_timer q)) s' = (0, s')
    \<and> q \<notin> set (requests s' @ requests_wait s')"
proof -
  note inv = reachable_inv [OF assms(1)]
  obtain t where t: "t \<in> set (timers s)" "linked q t" and s': "s' = drop_request q t s"
    using request_destroy_eq [OF inv assms(2)] assms(3) by auto
  let ?t = "t\<lparr>t_fd := -1, t_active := False\<rparr>"
  have "sched_inv s'" using request_destroy_inv [OF inv assms(2)] assms(3) by simp
  moreover have "?t \<in> set (timers_drop s')" and "t_addr ?t = rq_timer q"
    using t(2) by (simp_all add: s' drop_request_def linked_def)
  ultimately have "find_timer s' (rq_timer q) = Some ?t" by (metis dropped_timer_inactive(1))
  then show ?thesis by (simp add: flb_sched_event_handler_def) (simp add: s' drop_request_def)
qed

lemma sched_stale_event_ignored_witness:
  "flb_sched_event_handler (\<lambda>a sec nsec. 4) 100 (\<lambda>d s. (-1, s)) (\<lambda>c d s. s) True
     (Ev_Timer (rq_timer (hd (requests sample_sched2))))
     (snd (flb_sched_request_destroy (Some (hd (requests sample_sched2))) sample_sched2))
   = (0, snd (flb_sched_request_destroy (Some (hd (requests sample_sched2))) sample_sched2))"
proof -
  have "requests sample_sched2 \<noteq> []" by code_simp
  then show ?thesis by (intro sched_stale_event_ignored [OF sample_sched2_reachable _ refl, THEN conjunct1]) simp
qed

text \<open>
  destroying the scheduler releases every request and every timer, active or dropped, and returns
  how many objects that were.
\<close>

theorem sched_destroy_releases_all:
  assumes "sched_reachable s"
  shows "fst (flb_sched_destroy s) =
           int (length (requests s) + length (requests_wait s) + length (timers s) + length (timers_drop s))
    \<and> requests (snd (flb_sched_destroy s)) = [] \<and> requests_wait (snd (flb_sched_destroy s)) = []
    \<and> timers (snd (flb_sched_destroy s)) = [] \<and> timers_drop (snd (flb_sched_destroy s)) = []"
  using sched_destroy_all [OF reachable_inv [OF assms]] by simp

lemma sched_destroy_releases_all_witness: "fst (flb_sched_destroy sample_sched2) = 3"
proof -
  have "length (requests sample_sched2) + length (requests_wait sample_sched2)
    + length (timers sample_sched2) + length (timers_drop sample_sched2) = 3" by code_simp
  then show ?thesis using sched_destroy_releases_all [OF sample_sched2_reachable] by simp
qed

text \<open>
  the id given to a new timer coroutine is used by no coroutine in the list, as long as there are
  fewer than \<open>2 ^ 32 - 1\<close> of them; a notification with that id reaches the new coroutine.
\<close>

theorem sched_coro_id_fresh:
  assumes "length (timer_coro_list s) < 2 ^ 32 - 1"
  shows "\<exists>stc. flb_sched_timer_coro_create True True timer data s
      = (Some stc, s\<lparr>timer_coro_list := timer_coro_list s @ [stc], sched_brk := sched_brk s + 1\<rparr>)
    \<and> stc_id stc \<notin> stc_id ` set (timer_coro_list s)
    \<and> flb_sched_timer_coro_get (snd (flb_sched_timer_coro_create True True timer data s)) (stc_id stc) = Some stc"
  using coro_id_fresh [OF assms]
  by (auto simp: flb_sched_timer_coro_create_def Let_def flb_sched_timer_coro_get_def find_append
      image_iff split: option.split dest!: find_SomeD)

lemma sched_coro_id_fresh_witness:
  "\<exists>stc. fst (flb_sched_timer_coro_create True True 1 2 sample_sched) = Some stc"
  using sched_coro_id_fresh [of sample_sched 1 2]
  by (auto simp: sample_sched_def flb_sched_create_def flb_sched_timer_create_def Let_def timer_upd_def)

text \<open>
  C39: the bounds of the configuration are not checked: when \<open>scheduler.cap\<close> is one less than
  \<open>scheduler.base\<close> the range of wait times is empty and its computation divides by zero.
\<close>

theorem sched_backoff_traps:
  assumes "cap = base - 1" and "0 < base"
  shows "backoff_full_jitter rnd base cap n = None"
proof -
  have "base \<le> base * 2 ^ n" using assms(2) by simp
  then have "xmin cap (base * ipow 2 n) = cap" using assms(1) by (auto simp: xmin_def ipow_eq)
  then show ?thesis using assms(1) by (simp add: backoff_full_jitter_def random_uniform_def)
qed

lemma sched_backoff_traps_witness: "backoff_full_jitter (\<lambda>_. 1) 5 4 2 = None"
  by (rule sched_backoff_traps) simp_all

end
