(* ===== verification/Pipeline.thy ===== *)
theory Pipeline
  imports Hash_Table Router Scheduler
begin

text \<open>
  The shared state of the engine: input and output instances, input chunks, tasks and the scheduler
  (\<open>struct flb_config\<close>), and the basic operations on input chunks of
  \<^verbatim>\<open>src/src/flb_input_chunk.c\<close>: bringing a chunk up or down, memory limits, the accounting of the
  file system limits of the outputs, destruction.

  Tasks and chunks are reached through pointers from several places and change in place, so they live
  in stores from addresses to records. Instances are found by id. The chunk storage library (Chunk I/O)
  is a parameter: the record \<open>cio\<close> holds its functions over an abstract chunk \<open>'c\<close>. The plugin
  callbacks that pause and resume an input change nothing in this state; metrics and log messages are
  left out.
\<close>

section \<open>State\<close>

record 'c cio =
  cio_chunk_is_up :: "'c \<Rightarrow> bool"
  cio_chunk_up :: "'c \<Rightarrow> int \<times> 'c"
  cio_chunk_up_force :: "'c \<Rightarrow> int \<times> 'c"
  cio_chunk_down :: "'c \<Rightarrow> int \<times> 'c"
  cio_chunk_lock :: "'c \<Rightarrow> 'c"
  cio_chunk_get_content :: "'c \<Rightarrow> cstring option option"
  cio_chunk_get_content_size :: "'c \<Rightarrow> int"
  cio_chunk_get_real_size :: "'c \<Rightarrow> int"
  cio_meta_size :: "'c \<Rightarrow> int"
  cio_meta_read :: "'c \<Rightarrow> cstring option"
  cio_max_chunks_up :: nat
  cio_chunk_open :: "nat \<Rightarrow> 'c option"
  cio_chunk_is_locked :: "'c \<Rightarrow> bool"
  cio_meta_write :: "'c \<Rightarrow> cstring \<Rightarrow> int \<times> 'c"
  cio_chunk_write :: "'c \<Rightarrow> cstring \<Rightarrow> int \<times> 'c"
  cio_chunk_tx_rollback :: "'c \<Rightarrow> 'c"

text \<open>
  \<open>cio_chunk_get_content\<close>: \<open>None\<close> is the error return, \<open>Some None\<close> a NULL buffer. The argument of
  \<open>cio_chunk_open\<close> stands for the name of the new file.
\<close>

record 'c flb_input_chunk =
  ic_event_type :: int
  ic_fs_counted :: bool
  ic_busy :: bool
  ic_fs_backlog :: bool
  ic_total_records :: int
  ic_added_records :: int
  ic_chunk :: 'c
  ic_in :: int
  ic_task :: "addr option"
  ic_routes_mask :: route_mask

record flb_event_chunk =
  evc_type :: int
  evc_tag :: cstring
  evc_data :: "cstring option"
  evc_total_events :: int

datatype route_status = ROUTE_INACTIVE | ROUTE_ACTIVE | ROUTE_DROPPED

record flb_task_route =
  tr_status :: route_status
  tr_out :: int

record flb_task_retry =
  rt_attempts :: int
  rt_o_ins :: int
  rt_parent :: addr

datatype task_status = TASK_NEW | TASK_RUNNING

record flb_task =
  task_id :: int
  task_ref_id :: u64
  task_status :: task_status
  task_users :: int
  task_event_chunk :: "flb_event_chunk option"
  task_ic :: "addr option"
  task_records :: int
  task_routes :: "flb_task_route list"
  task_retries :: "addr list"
  task_i_ins :: "int option"

record flb_task_enqueued =
  eq_retry :: "addr option"
  eq_out :: int
  eq_task :: addr

record flb_task_queue =
  pending :: "flb_task_enqueued list"
  in_progress :: "flb_task_enqueued list"

text \<open>
  \<open>fl_evc\<close> is the event chunk the flush callback gets, \<open>fl_started\<close> whether the coroutine has called
  it.
\<close>

record flb_output_flush =
  fl_addr :: addr
  fl_id :: int
  fl_task :: addr
  fl_evc :: flb_event_chunk
  fl_started :: bool

datatype storage_type = STORAGE_FS | STORAGE_MEM | STORAGE_MEMRB

record flb_input = flb_input_instance +
  i_tasks :: "addr list"
  i_chunks :: "addr list"
  mem_buf_limit :: size_t
  mem_chunks_size :: size_t
  mem_buf_paused :: bool
  storage_buf_paused :: bool
  i_storage_type :: storage_type
  storage_pause_on_chunks_overlimit :: bool
  ht_log_chunks :: flb_hash_table
  ht_metric_chunks :: flb_hash_table
  ht_trace_chunks :: flb_hash_table
  ht_profile_chunks :: flb_hash_table
  i_routable :: bool

text \<open>
  \<open>o_ch_events\<close> holds the values written to the channel of the instance and not read yet. The worker
  threads of a threaded instance are merged: \<open>o_tp_queue\<close> holds the tasks posted to a worker that has
  not taken them yet, and their coroutines are in the same lists.
\<close>

record flb_output = flb_output_instance +
  o_flags :: u32
  o_retry_limit :: int
  o_total_limit_size :: size_t
  o_fs_chunks_size :: size_t
  o_fs_backlog_chunks_size :: size_t
  o_is_threaded :: bool
  o_test_formatter :: bool
  o_singleplex_queue :: flb_task_queue
  o_flush_id :: int
  o_flush_list :: "flb_output_flush list"
  o_flush_list_destroy :: "flb_output_flush list"
  o_tp_queue :: "addr list"
  o_ch_events :: "u64 list"

text \<open>
  A filter instance; \<open>f_properties\<close> are its keys and values, \<open>f_cb_filter\<close> the plugin's callback: the
  return value and the new buffer.
\<close>

record flb_filter =
  f_match :: "cstring option"
  f_match_regex :: "addr option"
  f_properties :: "(cstring \<times> cstring) list"
  f_cb_filter :: "cstring \<Rightarrow> cstring \<Rightarrow> int \<times> cstring"

record 'c flb_config = flb_sched +
  routes_cfg :: route_config
  cf_inputs :: "flb_input list"
  cf_outputs :: "flb_output list"
  chunk_heap :: "addr \<rightharpoonup> 'c flb_input_chunk"
  task_heap :: "addr \<rightharpoonup> flb_task"
  retry_heap :: "addr \<rightharpoonup> flb_task_retry"
  task_map :: "addr option list"
  is_running :: bool
  is_ingestion_active :: bool
  cf_filters :: "flb_filter list"
  storage_input_plugin :: int
  storage_del_bad_chunks :: bool
  ic_next :: addr

text \<open>\<open>ic_next\<close> is the address of the next chunk that is created.\<close>

definition FLB_OUTPUT_NO_MULTIPLEX :: u32 where "FLB_OUTPUT_NO_MULTIPLEX = 512"
definition FLB_OUTPUT_SYNCHRONOUS :: u32 where "FLB_OUTPUT_SYNCHRONOUS = 2048"
definition FLB_OUT_RETRY_UNLIMITED :: int where "FLB_OUT_RETRY_UNLIMITED = -1"
definition FLB_OUT_RETRY_NONE :: int where "FLB_OUT_RETRY_NONE = 0"

section \<open>Access\<close>

definition find_in :: "'c flb_config \<Rightarrow> int \<Rightarrow> flb_input option" where
  "find_in s n = List.find (\<lambda>i. i_id i = n) (cf_inputs s)"

definition upd_in :: "int \<Rightarrow> (flb_input \<Rightarrow> flb_input) \<Rightarrow> 'c flb_config \<Rightarrow> 'c flb_config" where
  "upd_in n f s = s\<lparr>cf_inputs := map (\<lambda>i. if i_id i = n then f i else i) (cf_inputs s)\<rparr>"

definition flb_output_get_instance :: "'c flb_config \<Rightarrow> int \<Rightarrow> flb_output option" where
  "flb_output_get_instance s n = List.find (\<lambda>out. o_id out = n) (cf_outputs s)"

definition upd_out :: "int \<Rightarrow> (flb_output \<Rightarrow> flb_output) \<Rightarrow> 'c flb_config \<Rightarrow> 'c flb_config" where
  "upd_out n f s = s\<lparr>cf_outputs := map (\<lambda>out. if o_id out = n then f out else out) (cf_outputs s)\<rparr>"

definition upd_chunk ::
  "addr \<Rightarrow> ('c flb_input_chunk \<Rightarrow> 'c flb_input_chunk) \<Rightarrow> 'c flb_config \<Rightarrow> 'c flb_config" where
  "upd_chunk a f s = s\<lparr>chunk_heap := (chunk_heap s)(a := map_option f (chunk_heap s a))\<rparr>"

definition upd_task :: "addr \<Rightarrow> (flb_task \<Rightarrow> flb_task) \<Rightarrow> 'c flb_config \<Rightarrow> 'c flb_config" where
  "upd_task a f s = s\<lparr>task_heap := (task_heap s)(a := map_option f (task_heap s a))\<rparr>"

definition upd_retry :: "addr \<Rightarrow> (flb_task_retry \<Rightarrow> flb_task_retry) \<Rightarrow> 'c flb_config \<Rightarrow> 'c flb_config" where
  "upd_retry a f s = s\<lparr>retry_heap := (retry_heap s)(a := map_option f (retry_heap s a))\<rparr>"

section \<open>Chunks up and down\<close>

text \<open>
  A pointer argument is the address; an address with no object behind it (a use after free in C)
  leaves the state as it is.
\<close>

definition flb_input_chunk_is_up :: "'c cio \<Rightarrow> addr \<Rightarrow> 'c flb_config \<Rightarrow> bool" where
  "flb_input_chunk_is_up cio a s =
     (case chunk_heap s a of None \<Rightarrow> False | Some ic \<Rightarrow> cio_chunk_is_up cio (ic_chunk ic))"

definition flb_input_chunk_down :: "'c cio \<Rightarrow> addr \<Rightarrow> 'c flb_config \<Rightarrow> int \<times> 'c flb_config" where
  "flb_input_chunk_down cio a s =
     (case chunk_heap s a of
        None \<Rightarrow> (0, s)
      | Some ic \<Rightarrow>
          if cio_chunk_is_up cio (ic_chunk ic)
          then (case cio_chunk_down cio (ic_chunk ic) of
                  (ret, c) \<Rightarrow> (ret, upd_chunk a (\<lambda>ic. ic\<lparr>ic_chunk := c\<rparr>) s))
          else (0, s))"

definition flb_input_chunk_set_up :: "'c cio \<Rightarrow> addr \<Rightarrow> 'c flb_config \<Rightarrow> int \<times> 'c flb_config" where
  "flb_input_chunk_set_up cio a s =
     (case chunk_heap s a of
        None \<Rightarrow> (0, s)
      | Some ic \<Rightarrow>
          if \<not> cio_chunk_is_up cio (ic_chunk ic)
          then (case cio_chunk_up cio (ic_chunk ic) of
                  (ret, c) \<Rightarrow> (ret, upd_chunk a (\<lambda>ic. ic\<lparr>ic_chunk := c\<rparr>) s))
          else (0, s))"

definition flb_input_chunk_get_size :: "'c cio \<Rightarrow> 'c flb_input_chunk \<Rightarrow> int" where
  "flb_input_chunk_get_size cio ic = cio_chunk_get_content_size cio (ic_chunk ic)"

definition flb_input_chunk_get_real_size :: "'c cio \<Rightarrow> 'c flb_input_chunk \<Rightarrow> int" where
  "flb_input_chunk_get_real_size cio ic =
     (let size = cio_chunk_get_real_size cio (ic_chunk ic)
      in if size \<noteq> 0 then size
         else let size = flb_input_chunk_get_size cio ic
              in if size = 0 then -1
                 else size + cio_meta_size cio (ic_chunk ic) + 2 + 4 + 16 + 2)"

section \<open>Limits of an input\<close>

text \<open>\<open>cio_stream_size_chunks_up\<close> over the chunks of the instance.\<close>

definition flb_input_chunk_total_size :: "'c cio \<Rightarrow> flb_input \<Rightarrow> 'c flb_config \<Rightarrow> size_t" where
  "flb_input_chunk_total_size cio i s =
     fold (\<lambda>a total. case chunk_heap s a of
             None \<Rightarrow> total
           | Some ic \<Rightarrow>
               if cio_chunk_is_up cio (ic_chunk ic) \<and> cio_chunk_get_content_size cio (ic_chunk ic) > 0
               then total + word_of_int (cio_chunk_get_content_size cio (ic_chunk ic))
               else total) (i_chunks i) 0"

definition flb_input_chunk_is_mem_overlimit :: "flb_input \<Rightarrow> bool" where
  "flb_input_chunk_is_mem_overlimit i =
     (if mem_buf_limit i \<le> 0 then False
      else if mem_chunks_size i \<ge> mem_buf_limit i then True
      else False)"

text \<open>The counter \<open>total_chunks_up\<close> of the storage context: the chunks of all instances that are up.\<close>

definition total_chunks_up :: "'c cio \<Rightarrow> 'c flb_config \<Rightarrow> nat" where
  "total_chunks_up cio s =
     length (filter (\<lambda>a. flb_input_chunk_is_up cio a s) (concat (map i_chunks (cf_inputs s))))"

definition flb_input_chunk_is_storage_overlimit :: "'c cio \<Rightarrow> flb_input \<Rightarrow> 'c flb_config \<Rightarrow> bool" where
  "flb_input_chunk_is_storage_overlimit cio i s =
     (if i_storage_type i = STORAGE_FS
      then if storage_pause_on_chunks_overlimit i
           then total_chunks_up cio s \<ge> cio_max_chunks_up cio
           else False
      else False)"

definition flb_input_chunk_set_limits :: "'c cio \<Rightarrow> int \<Rightarrow> 'c flb_config \<Rightarrow> size_t \<times> 'c flb_config" where
  "flb_input_chunk_set_limits cio n s =
     (case find_in s n of
        None \<Rightarrow> (0, s)
      | Some i \<Rightarrow>
          let total = flb_input_chunk_total_size cio i s
          in (total,
              upd_in n (\<lambda>i.
                let i = i\<lparr>mem_chunks_size := total\<rparr>;
                    i = (if \<not> flb_input_chunk_is_mem_overlimit i \<and> is_running s \<and> is_ingestion_active s
                            \<and> mem_buf_paused i
                         then i\<lparr>mem_buf_paused := False\<rparr> else i)
                in if \<not> flb_input_chunk_is_storage_overlimit cio i s \<and> is_running s
                      \<and> is_ingestion_active s \<and> storage_buf_paused i
                   then i\<lparr>storage_buf_paused := False\<rparr> else i) s))"

definition flb_input_chunk_protect :: "'c cio \<Rightarrow> int \<Rightarrow> 'c flb_config \<Rightarrow> bool \<times> 'c flb_config" where
  "flb_input_chunk_protect cio n s =
     (case find_in s n of
        None \<Rightarrow> (False, s)
      | Some i \<Rightarrow>
          if flb_input_chunk_is_storage_overlimit cio i s
          then (True, upd_in n (\<lambda>i. i\<lparr>storage_buf_paused := True\<rparr>) s)
          else if i_storage_type i = STORAGE_FS then (False, s)
          else if flb_input_chunk_is_mem_overlimit i
          then if i_storage_type i = STORAGE_MEMRB then (False, s)
               else (True, upd_in n (\<lambda>i. i\<lparr>mem_buf_paused := True\<rparr>) s)
          else (False, s))"

definition flb_input_chunk_set_up_down :: "'c cio \<Rightarrow> addr \<Rightarrow> 'c flb_config \<Rightarrow> bool \<times> 'c flb_config" where
  "flb_input_chunk_set_up_down cio a s =
     (case chunk_heap s a of
        None \<Rightarrow> (True, s)
      | Some ic \<Rightarrow>
          (case find_in s (ic_in ic) of
             None \<Rightarrow> (True, s)
           | Some i \<Rightarrow>
               let total = flb_input_chunk_total_size cio i s;
                   i = i\<lparr>mem_chunks_size := total\<rparr>;
                   s = upd_in (ic_in ic) (\<lambda>i. i\<lparr>mem_chunks_size := total\<rparr>) s
               in if flb_input_chunk_is_mem_overlimit i \<and> cio_chunk_is_up cio (ic_chunk ic)
                  then let s = upd_chunk a (\<lambda>ic. ic\<lparr>ic_chunk := snd (cio_chunk_down cio (ic_chunk ic))\<rparr>) s;
                           total = flb_input_chunk_total_size cio i s
                       in (False, upd_in (ic_in ic) (\<lambda>i. i\<lparr>mem_chunks_size := total\<rparr>) s)
                  else (True, s)))"

section \<open>Accounting and destruction\<close>

definition no_limit :: "flb_output \<Rightarrow> bool" where
  "no_limit out \<longleftrightarrow> o_total_limit_size out = - 1"

definition flb_input_chunk_update_output_instances ::
  "addr \<Rightarrow> size_t \<Rightarrow> 'c flb_config \<Rightarrow> 'c flb_config" where
  "flb_input_chunk_update_output_instances a chunk_size s =
     (case chunk_heap s a of
        None \<Rightarrow> s
      | Some ic \<Rightarrow>
          fold (\<lambda>out s.
                  if no_limit out then s
                  else if flb_routes_mask_get_bit (ic_routes_mask ic) (o_id out) (routes_cfg s)
                  then upd_chunk a (\<lambda>ic. ic\<lparr>ic_fs_counted := True\<rparr>)
                         (upd_out (o_id out)
                            (\<lambda>out. out\<lparr>o_fs_chunks_size := o_fs_chunks_size out + chunk_size\<rparr>) s)
                  else s) (cf_outputs s) s)"

text \<open>The loop over the outputs with which the destruction of a chunk starts.\<close>

definition chunk_uncount :: "'c cio \<Rightarrow> 'c flb_input_chunk \<Rightarrow> 'c flb_config \<Rightarrow> 'c flb_config" where
  "chunk_uncount cio ic s =
     s\<lparr>cf_outputs :=
         map (\<lambda>out.
                let bytes = flb_input_chunk_get_real_size cio ic
                in if no_limit out then out
                   else if bytes = -1 then out
                   else if flb_routes_mask_get_bit (ic_routes_mask ic) (o_id out) (routes_cfg s)
                           \<and> ic_fs_counted ic
                   then out\<lparr>o_fs_chunks_size := o_fs_chunks_size out - word_of_int bytes\<rparr>
                   else out) (cf_outputs s)\<rparr>"

definition FLB_INPUT_CHUNK_META_HEADER :: nat where "FLB_INPUT_CHUNK_META_HEADER = 4"

definition input_chunk_has_magic_bytes :: "cstring \<Rightarrow> bool" where
  "input_chunk_has_magic_bytes buf =
     (if length buf < FLB_INPUT_CHUNK_META_HEADER then False
      else buf ! 0 = CHR 0xF1 \<and> buf ! 1 = CHR 0x77 \<and> buf ! 3 = CHR 0x00)"

definition flb_input_chunk_get_tag :: "'c cio \<Rightarrow> 'c flb_input_chunk \<Rightarrow> cstring option" where
  "flb_input_chunk_get_tag cio ic =
     (case cio_meta_read cio (ic_chunk ic) of
        None \<Rightarrow> None
      | Some buf \<Rightarrow> if input_chunk_has_magic_bytes buf then Some (drop FLB_INPUT_CHUNK_META_HEADER buf)
                   else Some buf)"

definition flb_input_chunk_get_event_type :: "'c cio \<Rightarrow> 'c flb_input_chunk \<Rightarrow> int" where
  "flb_input_chunk_get_event_type cio ic =
     (case cio_meta_read cio (ic_chunk ic) of
        None \<Rightarrow> -1
      | Some buf \<Rightarrow>
          if input_chunk_has_magic_bytes buf
          then let b = of_char (buf ! 2)
               in if b = (0 :: int) then FLB_INPUT_LOGS
                  else if b = 1 then FLB_INPUT_METRICS
                  else if b = 2 then FLB_INPUT_TRACES
                  else if b = 4 then FLB_INPUT_PROFILES
                  else if b = 3 then FLB_INPUT_BLOBS
                  else -1
          else FLB_INPUT_LOGS)"

text \<open>The index of the input that a chunk of some event type is kept in.\<close>

definition chunk_index_del :: "hash_fun \<Rightarrow> int \<Rightarrow> cstring \<Rightarrow> addr \<Rightarrow> flb_input \<Rightarrow> flb_input" where
  "chunk_index_del hf ty tag a i =
     (let d = (\<lambda>ht. snd (flb_hash_table_del_ptr (\<lambda>_. True) hf ht tag (length tag) a))
      in if ty = FLB_INPUT_LOGS then i\<lparr>ht_log_chunks := d (ht_log_chunks i)\<rparr>
         else if ty = FLB_INPUT_METRICS then i\<lparr>ht_metric_chunks := d (ht_metric_chunks i)\<rparr>
         else if ty = FLB_INPUT_TRACES then i\<lparr>ht_trace_chunks := d (ht_trace_chunks i)\<rparr>
         else if ty = FLB_INPUT_PROFILES then i\<lparr>ht_profile_chunks := d (ht_profile_chunks i)\<rparr>
         else i)"

definition chunk_release :: "hash_fun \<Rightarrow> addr \<Rightarrow> 'c flb_input_chunk \<Rightarrow> cstring option \<Rightarrow> bool \<Rightarrow>
    'c flb_config \<Rightarrow> 'c flb_config" where
  "chunk_release hf a ic tag del s =
     (upd_in (ic_in ic)
        (\<lambda>i. (case tag of
                 None \<Rightarrow> i
               | Some t \<Rightarrow> if del then chunk_index_del hf (ic_event_type ic) t a i else i)
              \<lparr>i_chunks := filter (\<lambda>b. b \<noteq> a) (i_chunks i)\<rparr>) s)
     \<lparr>chunk_heap := (chunk_heap s)(a := None)\<rparr>"

definition flb_input_chunk_destroy_corrupted ::
  "'c cio \<Rightarrow> hash_fun \<Rightarrow> addr \<Rightarrow> cstring option \<Rightarrow> bool \<Rightarrow> 'c flb_config \<Rightarrow> int \<times> 'c flb_config" where
  "flb_input_chunk_destroy_corrupted cio hf a tag del s =
     (case chunk_heap s a of
        None \<Rightarrow> (0, s)
      | Some ic \<Rightarrow> (0, chunk_release hf a ic tag del (chunk_uncount cio ic s)))"

definition flb_input_chunk_destroy ::
  "'c cio \<Rightarrow> hash_fun \<Rightarrow> addr \<Rightarrow> bool \<Rightarrow> 'c flb_config \<Rightarrow> int \<times> 'c flb_config" where
  "flb_input_chunk_destroy cio hf a del s =
     (let s = (if \<not> flb_input_chunk_is_up cio a s then snd (flb_input_chunk_set_up cio a s) else s)
      in case chunk_heap s a of
           None \<Rightarrow> (0, s)
         | Some ic \<Rightarrow>
             let s = chunk_uncount cio ic s;
                 c = (if \<not> cio_chunk_is_up cio (ic_chunk ic) then snd (cio_chunk_up_force cio (ic_chunk ic))
                      else ic_chunk ic);
                 ic = ic\<lparr>ic_chunk := c\<rparr>
             in (0, chunk_release hf a ic (flb_input_chunk_get_tag cio ic) del s))"

definition flb_input_chunk_release_lock :: "addr \<Rightarrow> 'c flb_config \<Rightarrow> int \<times> 'c flb_config" where
  "flb_input_chunk_release_lock a s =
     (case chunk_heap s a of
        None \<Rightarrow> (-1, s)
      | Some ic \<Rightarrow> if \<not> ic_busy ic then (-1, s)
                   else (0, upd_chunk a (\<lambda>ic. ic\<lparr>ic_busy := False\<rparr>) s))"

text \<open>
  \<open>flb_input_chunk_flush\<close>: the buffer (\<open>None\<close> is NULL) and what it stores in \<open>*size\<close>: \<open>None\<close> when it
  returns before that.
\<close>

definition flb_input_chunk_flush ::
  "'c cio \<Rightarrow> addr \<Rightarrow> 'c flb_config \<Rightarrow> (cstring option \<times> nat option) \<times> 'c flb_config" where
  "flb_input_chunk_flush cio a s =
     (case chunk_heap s a of
        None \<Rightarrow> ((None, None), s)
      | Some ic \<Rightarrow>
          let pre_size = (word_of_int (flb_input_chunk_get_real_size cio ic) :: size_t);
              (up, c) = (if \<not> cio_chunk_is_up cio (ic_chunk ic) then cio_chunk_up cio (ic_chunk ic)
                         else (0, ic_chunk ic))
          in if up = -1 then ((None, None), upd_chunk a (\<lambda>ic. ic\<lparr>ic_chunk := c\<rparr>) s)
             else
               let c = cio_chunk_lock cio c;
                   s = upd_chunk a (\<lambda>ic. ic\<lparr>ic_chunk := c\<rparr>) s
               in case cio_chunk_get_content cio c of
                    None \<Rightarrow> ((None, None), s)
                  | Some None \<Rightarrow> ((None, Some 0), s)
                  | Some (Some buf) \<Rightarrow>
                      let s = upd_chunk a (\<lambda>ic. ic\<lparr>ic_busy := True\<rparr>) s;
                          post_size = word_of_int (flb_input_chunk_get_real_size cio (ic\<lparr>ic_chunk := c\<rparr>));
                          s = (if post_size \<noteq> pre_size
                               then flb_input_chunk_update_output_instances a (post_size - pre_size) s
                               else s)
                      in ((Some buf, Some (length buf)), s))"

section \<open>What chunk operations leave alone\<close>

text \<open>
  The part of the state that the engine's bookkeeping of tasks lives in: everything but the chunks and
  the counters, limits and indexes that go with them.
\<close>

definition out_core :: "flb_output \<Rightarrow> flb_output" where
  "out_core out = out\<lparr>o_fs_chunks_size := 0, o_fs_backlog_chunks_size := 0\<rparr>"

definition in_core :: "flb_input \<Rightarrow> int \<times> int list \<times> addr list" where
  "in_core i = (i_id i, i_routes_direct i, i_tasks i)"

definition core :: "'c flb_config \<Rightarrow> 'c flb_config \<times> (int \<times> int list \<times> addr list) list" where
  "core s = (s\<lparr>chunk_heap := Map.empty, ic_next := 0, cf_inputs := [], cf_outputs := map out_core (cf_outputs s)\<rparr>,
             map in_core (cf_inputs s))"

lemma core_upd_chunk [simp]: "core (upd_chunk a f s) = core s"
  by (simp add: core_def upd_chunk_def)

lemma core_upd_in: "(\<And>i. in_core (f i) = in_core i) \<Longrightarrow> core (upd_in n f s) = core s"
  by (simp add: core_def upd_in_def)

lemma core_upd_out: "(\<And>out. out_core (f out) = out_core out) \<Longrightarrow> core (upd_out n f s) = core s"
  by (simp add: core_def upd_out_def)

lemma core_chunk_heap [simp]: "core (s\<lparr>chunk_heap := h\<rparr>) = core s"
  by (simp add: core_def)

lemmas core_defs = in_core_def out_core_def

lemma core_chunk_down [simp]: "core (snd (flb_input_chunk_down cio a s)) = core s"
  by (simp add: flb_input_chunk_down_def split: option.splits prod.splits)

lemma core_chunk_set_up [simp]: "core (snd (flb_input_chunk_set_up cio a s)) = core s"
  by (simp add: flb_input_chunk_set_up_def split: option.splits prod.splits)

lemma core_set_limits [simp]: "core (snd (flb_input_chunk_set_limits cio n s)) = core s"
  by (auto simp: flb_input_chunk_set_limits_def Let_def in_core_def intro!: core_upd_in split: option.splits)

lemma core_protect [simp]: "core (snd (flb_input_chunk_protect cio n s)) = core s"
  by (auto simp: flb_input_chunk_protect_def in_core_def intro!: core_upd_in split: option.splits)

lemma core_set_up_down [simp]: "core (snd (flb_input_chunk_set_up_down cio a s)) = core s"
  by (auto simp: flb_input_chunk_set_up_down_def Let_def in_core_def core_upd_in split: option.splits)

lemma core_update_outputs [simp]: "core (flb_input_chunk_update_output_instances a n s) = core s"
proof -
  have "core (fold (\<lambda>out s.
                  if no_limit out then s
                  else if flb_routes_mask_get_bit m (o_id out) (routes_cfg s)
                  then upd_chunk a (\<lambda>ic. ic\<lparr>ic_fs_counted := True\<rparr>)
                         (upd_out (o_id out)
                            (\<lambda>out. out\<lparr>o_fs_chunks_size := o_fs_chunks_size out + n\<rparr>) s)
                  else s) outs s) = core s" for m outs
    by (induction outs arbitrary: s) (simp_all add: core_upd_out out_core_def)
  then show ?thesis
    by (simp add: flb_input_chunk_update_output_instances_def split: option.splits)
qed

lemma core_uncount [simp]: "core (chunk_uncount cio ic s) = core s"
  by (auto simp: core_def chunk_uncount_def out_core_def Let_def)

lemma core_index_del: "in_core (chunk_index_del hf ty tag a i) = in_core i"
  by (simp add: chunk_index_del_def in_core_def Let_def)

lemma core_release [simp]: "core (chunk_release hf a ic tag del s) = core s"
  using core_index_del by (auto simp: chunk_release_def in_core_def intro!: core_upd_in split: option.splits)

lemma core_chunk_destroy_corrupted [simp]:
  "core (snd (flb_input_chunk_destroy_corrupted cio hf a tag del s)) = core s"
  by (simp add: flb_input_chunk_destroy_corrupted_def split: option.splits)

lemma core_chunk_destroy [simp]: "core (snd (flb_input_chunk_destroy cio hf a del s)) = core s"
  by (simp add: flb_input_chunk_destroy_def Let_def split: option.splits)

lemma core_release_lock [simp]: "core (snd (flb_input_chunk_release_lock a s)) = core s"
  by (simp add: flb_input_chunk_release_lock_def split: option.splits)

lemma core_chunk_flush [simp]: "core (snd (flb_input_chunk_flush cio a s)) = core s"
  by (simp add: flb_input_chunk_flush_def Let_def split: option.splits prod.splits)

text \<open>What equal cores share.\<close>

lemma coreD:
  assumes "core s' = core s"
  shows "requests s' = requests s" "requests_wait s' = requests_wait s" "timers s' = timers s"
    "timers_drop s' = timers_drop s" "sched_brk s' = sched_brk s"
    "sched_base s' = sched_base s" "sched_cap s' = sched_cap s"
    "task_heap s' = task_heap s" "retry_heap s' = retry_heap s" "task_map s' = task_map s"
    "map out_core (cf_outputs s') = map out_core (cf_outputs s)"
    "map in_core (cf_inputs s') = map in_core (cf_inputs s)"
proof -
  note sel = arg_cong [OF arg_cong [OF assms, of fst]]
  show "requests s' = requests s" using sel [of requests] by (simp add: core_def)
  show "requests_wait s' = requests_wait s" using sel [of requests_wait] by (simp add: core_def)
  show "timers s' = timers s" using sel [of timers] by (simp add: core_def)
  show "timers_drop s' = timers_drop s" using sel [of timers_drop] by (simp add: core_def)
  show "sched_brk s' = sched_brk s" using sel [of sched_brk] by (simp add: core_def)
  show "sched_base s' = sched_base s" using sel [of sched_base] by (simp add: core_def)
  show "sched_cap s' = sched_cap s" using sel [of sched_cap] by (simp add: core_def)
  show "task_heap s' = task_heap s" using sel [of task_heap] by (simp add: core_def)
  show "retry_heap s' = retry_heap s" using sel [of retry_heap] by (simp add: core_def)
  show "task_map s' = task_map s" using sel [of task_map] by (simp add: core_def)
  show "map out_core (cf_outputs s') = map out_core (cf_outputs s)"
    using sel [of cf_outputs] by (simp add: core_def)
  show "map in_core (cf_inputs s') = map in_core (cf_inputs s)"
    using arg_cong [OF assms, of snd] by (simp add: core_def)
qed

end
