(* ===== verification/Task.thy ===== *)
theory Task
  imports Pipeline
begin

text \<open>
  Tasks, \<^verbatim>\<open>src/src/flb_task.c\<close> and \<^verbatim>\<open>src/include/fluent-bit/flb_task.h\<close>, with the task map of
  \<^verbatim>\<open>src/src/flb_config.c\<close>: the encoding of an output event in 32 bits, task ids, creation and
  destruction of tasks, retry contexts, users, routes.

  A record \<open>env\<close> holds what an operation gets from outside: Chunk I/O, the hash function, the event loop,
  \<open>rand()\<close>, the clock, which allocations succeed (by kind of object and next free address or output id),
  which writes to a channel succeed, what the processors of an output make of an event chunk, the
  regular expression library and the number of records in a buffer (\<open>flb_mp_count\<close>).
  Operations that ask the scheduler for a new request return \<open>None\<close> where the computation of the wait
  time traps or never returns.
\<close>

section \<open>Environment\<close>

datatype alloc = A_task | A_task_map | A_event_chunk | A_route | A_retry | A_timer | A_request
  | A_enqueued | A_flush | A_meta | A_chunk | A_mask | A_ntag

record 'c env =
  e_cio :: "'c cio"
  e_hash :: hash_fun
  e_timeout :: timeout_create
  e_rand :: "nat \<Rightarrow> int"
  e_now :: int
  e_alloc :: "alloc \<Rightarrow> nat \<Rightarrow> bool"
  e_junk :: "addr \<Rightarrow> route_status"
  e_pipe :: "addr \<Rightarrow> int \<Rightarrow> bool"
  e_process :: "int \<Rightarrow> flb_event_chunk \<Rightarrow> flb_event_chunk option"
  e_onig :: onig
  e_mp_count :: "cstring \<Rightarrow> int"

section \<open>Event values\<close>

definition FLB_TASK_RET :: "u32 \<Rightarrow> u32" where
  "FLB_TASK_RET v = drop_bit 28 v"

definition FLB_TASK_ID :: "u32 \<Rightarrow> u32" where
  "FLB_TASK_ID v = drop_bit 14 (v AND 0xfffc000)"

definition FLB_TASK_OUT :: "u32 \<Rightarrow> u32" where
  "FLB_TASK_OUT v = v AND 0x3fff"

definition FLB_TASK_SET :: "int \<Rightarrow> int \<Rightarrow> int \<Rightarrow> u32" where
  "FLB_TASK_SET ret tid out_id =
     push_bit 28 (word_of_int ret) OR push_bit 14 (word_of_int tid) OR word_of_int out_id"

definition FLB_BITS_U64_SET :: "u32 \<Rightarrow> u32 \<Rightarrow> u64" where
  "FLB_BITS_U64_SET a b = push_bit 32 (ucast a) OR ucast b"

definition FLB_ENGINE_TASK :: u32 where "FLB_ENGINE_TASK = 2"
definition FLB_ERROR :: int where "FLB_ERROR = 0"
definition FLB_OK :: int where "FLB_OK = 1"
definition FLB_RETRY :: int where "FLB_RETRY = 2"

section \<open>The task map\<close>

definition FLB_CONFIG_DEFAULT_TASK_MAP_SIZE :: nat where
  "FLB_CONFIG_DEFAULT_TASK_MAP_SIZE = 2048"
definition FLB_CONFIG_DEFAULT_TASK_MAP_SIZE_LIMIT :: nat where
  "FLB_CONFIG_DEFAULT_TASK_MAP_SIZE_LIMIT = 16384"
definition FLB_CONFIG_DEFAULT_TASK_MAP_SIZE_GROWTH_SIZE :: nat where
  "FLB_CONFIG_DEFAULT_TASK_MAP_SIZE_GROWTH_SIZE = 256"

text \<open>The NULL map is the empty list.\<close>

definition flb_config_task_map_resize ::
  "bool \<Rightarrow> nat \<Rightarrow> 'c flb_config \<Rightarrow> int \<times> 'c flb_config" where
  "flb_config_task_map_resize ok new_size s =
     (let n = length (task_map s)
      in if new_size = n then (0, s)
         else if new_size = 0 then (0, s\<lparr>task_map := []\<rparr>)
         else if \<not> ok then (-1, s)
         else if new_size > n
         then (0, s\<lparr>task_map := task_map s @ replicate (new_size - n) None\<rparr>)
         else (0, s\<lparr>task_map := take new_size (task_map s)\<rparr>))"

definition flb_config_task_map_grow :: "bool \<Rightarrow> 'c flb_config \<Rightarrow> int \<times> 'c flb_config" where
  "flb_config_task_map_grow ok s =
     (if length (task_map s) \<ge> FLB_CONFIG_DEFAULT_TASK_MAP_SIZE_LIMIT then (-1, s)
      else flb_config_task_map_resize ok
             (length (task_map s) + FLB_CONFIG_DEFAULT_TASK_MAP_SIZE_GROWTH_SIZE) s)"

fun first_free :: "addr option list \<Rightarrow> nat \<Rightarrow> nat option" where
  "first_free [] i = None"
| "first_free (None # xs) i = Some i"
| "first_free (Some a # xs) i = first_free xs (Suc i)"

definition map_get_task_id :: "'c env \<Rightarrow> 'c flb_config \<Rightarrow> int \<times> 'c flb_config" where
  "map_get_task_id e s =
     (case first_free (task_map s) 0 of
        Some i \<Rightarrow> (int i, s)
      | None \<Rightarrow>
          let i = length (task_map s)
          in case flb_config_task_map_grow (e_alloc e A_task_map (length (task_map s))) s of
               (ret, s) \<Rightarrow> if ret = 0 then (int i, s) else (-1, s))"

definition map_set_task_id :: "int \<Rightarrow> addr \<Rightarrow> 'c flb_config \<Rightarrow> 'c flb_config" where
  "map_set_task_id n a s = s\<lparr>task_map := (task_map s)[nat n := Some a]\<rparr>"

definition map_free_task_id :: "int \<Rightarrow> 'c flb_config \<Rightarrow> 'c flb_config" where
  "map_free_task_id n s = s\<lparr>task_map := (task_map s)[nat n := None]\<rparr>"

definition flb_task_map_get_task_id :: "'c env \<Rightarrow> 'c flb_config \<Rightarrow> int \<times> 'c flb_config" where
  "flb_task_map_get_task_id e s = map_get_task_id e s"

section \<open>Retry contexts\<close>

definition flb_task_retry_destroy :: "addr \<Rightarrow> 'c flb_config \<Rightarrow> 'c flb_config" where
  "flb_task_retry_destroy r s =
     (case retry_heap s r of
        None \<Rightarrow> s
      | Some rt \<Rightarrow>
          let s = snd (flb_sched_request_invalidate r s);
              s = upd_task (rt_parent rt) (\<lambda>t. t\<lparr>task_retries := filter (\<lambda>x. x \<noteq> r) (task_retries t)\<rparr>) s
          in s\<lparr>retry_heap := (retry_heap s)(r := None)\<rparr>)"

definition retry_for :: "'c flb_config \<Rightarrow> int \<Rightarrow> addr list \<Rightarrow> addr option" where
  "retry_for s out_id rs =
     List.find (\<lambda>r. case retry_heap s r of None \<Rightarrow> False | Some rt \<Rightarrow> rt_o_ins rt = out_id) rs"

text \<open>
  The last part of \<open>flb_task_retry_create\<close>: put the chunk down where the limits ask for it, and
  always when the task has one route.
\<close>

definition retry_chunk_down :: "'c env \<Rightarrow> addr \<Rightarrow> 'c flb_config \<Rightarrow> 'c flb_config" where
  "retry_chunk_down e a s =
     (case task_heap s a of
        None \<Rightarrow> s
      | Some t \<Rightarrow>
          (case task_ic t of
             None \<Rightarrow> s
           | Some ic \<Rightarrow>
               let s = (if task_users t \<le> 1 then snd (flb_input_chunk_set_up_down (e_cio e) ic s) else s)
               in if length (task_routes t) = 1 then snd (flb_input_chunk_down (e_cio e) ic s) else s))"

definition flb_task_retry_create ::
  "'c env \<Rightarrow> addr \<Rightarrow> flb_output \<Rightarrow> 'c flb_config \<Rightarrow> addr option \<times> 'c flb_config" where
  "flb_task_retry_create e a ins s =
     (case task_heap s a of
        None \<Rightarrow> (None, s)
      | Some t \<Rightarrow>
          (case retry_for s (o_id ins) (task_retries t) of
             Some r \<Rightarrow>
               (case retry_heap s r of
                  None \<Rightarrow> (None, s)
                | Some rt \<Rightarrow>
                    if rt_attempts rt \<ge> o_retry_limit ins \<and> o_retry_limit ins \<ge> 0
                    then (None, flb_task_retry_destroy r s)
                    else (Some r, retry_chunk_down e a
                                    (upd_retry r (\<lambda>rt. rt\<lparr>rt_attempts := rt_attempts rt + 1\<rparr>) s)))
           | None \<Rightarrow>
               if \<not> e_alloc e A_retry (sched_brk s) then (None, s)
               else let r = sched_brk s;
                        rt = \<lparr>rt_attempts = 1, rt_o_ins = o_id ins, rt_parent = a\<rparr>;
                        s = s\<lparr>retry_heap := (retry_heap s)(r \<mapsto> rt), sched_brk := r + 1\<rparr>;
                        s = upd_task a (\<lambda>t. t\<lparr>task_retries := task_retries t @ [r]\<rparr>) s
                    in (Some r, retry_chunk_down e a s)))"

definition flb_task_from_fs_storage :: "addr \<Rightarrow> 'c flb_config \<Rightarrow> bool" where
  "flb_task_from_fs_storage a s =
     (case task_heap s a of
        None \<Rightarrow> False
      | Some t \<Rightarrow>
          (case task_ic t of
             None \<Rightarrow> False
           | Some ic \<Rightarrow> (case chunk_heap s ic of None \<Rightarrow> False | Some c \<Rightarrow> ic_fs_backlog c)))"

definition flb_task_retry_count :: "addr \<Rightarrow> int \<Rightarrow> 'c flb_config \<Rightarrow> int" where
  "flb_task_retry_count a out_id s =
     (case task_heap s a of
        None \<Rightarrow> -1
      | Some t \<Rightarrow>
          (case retry_for s out_id (task_retries t) of
             None \<Rightarrow> -1
           | Some r \<Rightarrow> (case retry_heap s r of None \<Rightarrow> -1 | Some rt \<Rightarrow> rt_attempts rt)))"

definition flb_task_retry_clean :: "addr \<Rightarrow> int \<Rightarrow> 'c flb_config \<Rightarrow> int \<times> 'c flb_config" where
  "flb_task_retry_clean a out_id s =
     (case task_heap s a of
        None \<Rightarrow> (-1, s)
      | Some t \<Rightarrow>
          (case retry_for s out_id (task_retries t) of
             None \<Rightarrow> (-1, s)
           | Some r \<Rightarrow> (0, flb_task_retry_destroy r s)))"

section \<open>Destruction and users\<close>

definition flb_task_destroy :: "'c env \<Rightarrow> addr \<Rightarrow> bool \<Rightarrow> 'c flb_config \<Rightarrow> 'c flb_config" where
  "flb_task_destroy e a del s =
     (case task_heap s a of
        None \<Rightarrow> s
      | Some t \<Rightarrow>
          let s = map_free_task_id (task_id t) s;
              s = upd_task a (\<lambda>t. t\<lparr>task_routes := []\<rparr>) s;
              s = (case task_i_ins t of
                     None \<Rightarrow> s
                   | Some n \<Rightarrow> upd_in n (\<lambda>i. i\<lparr>i_tasks := filter (\<lambda>b. b \<noteq> a) (i_tasks i)\<rparr>) s);
              s = (case task_ic t of
                     None \<Rightarrow> s
                   | Some ic \<Rightarrow> snd (flb_input_chunk_destroy (e_cio e) (e_hash e) ic del s));
              s = fold flb_task_retry_destroy (task_retries t) s;
              s = (case task_i_ins t of
                     None \<Rightarrow> s
                   | Some n \<Rightarrow> snd (flb_input_chunk_set_limits (e_cio e) n s))
          in s\<lparr>task_heap := (task_heap s)(a := None)\<rparr>)"

definition flb_task_users_release :: "'c env \<Rightarrow> addr \<Rightarrow> 'c flb_config \<Rightarrow> 'c flb_config" where
  "flb_task_users_release e a s =
     (case task_heap s a of
        None \<Rightarrow> s
      | Some t \<Rightarrow>
          if task_users t = 0 \<and> length (task_retries t) = 0 then flb_task_destroy e a True s else s)"

definition flb_task_users_inc :: "addr \<Rightarrow> 'c flb_config \<Rightarrow> 'c flb_config" where
  "flb_task_users_inc a s = upd_task a (\<lambda>t. t\<lparr>task_users := task_users t + 1\<rparr>) s"

definition flb_task_users_dec :: "'c env \<Rightarrow> addr \<Rightarrow> bool \<Rightarrow> 'c flb_config \<Rightarrow> 'c flb_config" where
  "flb_task_users_dec e a release_check s =
     (let s = upd_task a (\<lambda>t. t\<lparr>task_users := task_users t - 1\<rparr>) s
      in if release_check then flb_task_users_release e a s else s)"

text \<open>The wait time of a new request comes from the sequence of random numbers.\<close>

definition sched_request :: "'c env \<Rightarrow> addr \<Rightarrow> int \<Rightarrow> 'c flb_config \<Rightarrow> (int \<times> 'c flb_config) option" where
  "sched_request e r tries s =
     flb_sched_request_create (e_alloc e A_timer (sched_brk s)) (e_alloc e A_request (sched_brk s))
       (e_timeout e) (e_rand e) (e_now e) r (nat tries) s"

definition flb_task_retry_reschedule :: "'c env \<Rightarrow> addr \<Rightarrow> 'c flb_config \<Rightarrow> (int \<times> 'c flb_config) option" where
  "flb_task_retry_reschedule e r s =
     (case retry_heap s r of
        None \<Rightarrow> Some (-1, s)
      | Some rt \<Rightarrow>
          (case sched_request e r (rt_attempts rt) s of
             None \<Rightarrow> None
           | Some (seconds, s) \<Rightarrow>
               if seconds = -1
               then Some (-1, flb_task_users_release e (rt_parent rt) (flb_task_retry_destroy r s))
               else Some (0, s)))"

section \<open>Creation\<close>

definition task_alloc :: "'c env \<Rightarrow> 'c flb_config \<Rightarrow> addr option \<times> 'c flb_config" where
  "task_alloc e s =
     (let a = sched_brk s
      in if \<not> e_alloc e A_task a then (None, s)
         else case map_get_task_id e s of
                (tid, s) \<Rightarrow>
                  if tid = -1 then (None, s)
                  else let s = map_set_task_id tid a s;
                           t = \<lparr>task_id = tid, task_ref_id = 0, task_status = TASK_NEW, task_users = 0,
                                task_event_chunk = None, task_ic = None, task_records = 0,
                                task_routes = [], task_retries = [], task_i_ins = None\<rparr>
                       in (Some a, s\<lparr>task_heap := (task_heap s)(a \<mapsto> t), sched_brk := a + 1\<rparr>))"

definition flb_event_chunk_create ::
  "bool \<Rightarrow> int \<Rightarrow> int \<Rightarrow> cstring \<Rightarrow> cstring \<Rightarrow> flb_event_chunk option" where
  "flb_event_chunk_create ok ty total_events tag buf =
     (if \<not> ok then None
      else Some \<lparr>evc_type = ty, evc_tag = tag, evc_data = Some buf, evc_total_events = total_events\<rparr>)"

definition flb_event_chunk_update :: "flb_event_chunk \<Rightarrow> cstring \<Rightarrow> flb_event_chunk" where
  "flb_event_chunk_update evc buf = evc\<lparr>evc_data := Some buf\<rparr>"

text \<open>
  The direct routes of the input: \<open>False\<close> when an allocation failed. The status of such a route is not
  set: it is what the memory held.
\<close>

fun direct_routes :: "'c env \<Rightarrow> int list \<Rightarrow> flb_task_route list \<Rightarrow> bool \<times> flb_task_route list" where
  "direct_routes e [] rs = (True, rs)"
| "direct_routes e (n # ns) rs =
     (if \<not> e_alloc e A_route (nat n) then (False, rs)
      else direct_routes e ns (rs @ [\<lparr>tr_status = e_junk e (nat n), tr_out = n\<rparr>]))"

definition matching_routes :: "'c env \<Rightarrow> 'c flb_input_chunk \<Rightarrow> 'c flb_config \<Rightarrow> flb_task_route list" where
  "matching_routes e ic s =
     map (\<lambda>out. \<lparr>tr_status = ROUTE_INACTIVE, tr_out = o_id out\<rparr>)
       (filter (\<lambda>out. flb_router_match_type (ic_event_type ic) out
                 \<and> flb_routes_mask_get_bit (ic_routes_mask ic) (o_id out) (routes_cfg s)
                 \<and> e_alloc e A_route (nat (o_id out))) (cf_outputs s))"

text \<open>The created task, and \<open>*err\<close>.\<close>

definition flb_task_create ::
  "'c env \<Rightarrow> u64 \<Rightarrow> cstring \<Rightarrow> int \<Rightarrow> addr \<Rightarrow> cstring \<Rightarrow> 'c flb_config \<Rightarrow>
     (addr option \<times> bool) \<times> 'c flb_config" where
  "flb_task_create e ref_id buf i_ins ica tag s =
     (case (chunk_heap s ica, find_in s i_ins) of
        (Some ic, Some i) \<Rightarrow>
          (case task_alloc e s of
             (None, s) \<Rightarrow> ((None, True), s)
           | (Some a, s) \<Rightarrow>
               (case flb_event_chunk_create (e_alloc e A_event_chunk a) (ic_event_type ic)
                       (ic_total_records ic) tag buf of
                  None \<Rightarrow> ((None, True), s\<lparr>task_heap := (task_heap s)(a := None)\<rparr>)
                | Some evc \<Rightarrow>
                    let s = upd_chunk ica (\<lambda>ic. ic\<lparr>ic_task := Some a\<rparr>) s;
                        s = upd_task a (\<lambda>t. t\<lparr>task_event_chunk := Some evc, task_ref_id := ref_id,
                              task_i_ins := Some i_ins, task_ic := Some ica,
                              task_records := ic_total_records ic\<rparr>) s;
                        s = upd_in i_ins (\<lambda>i. i\<lparr>i_tasks := i_tasks i @ [a]\<rparr>) s
                    in if i_routes_direct i \<noteq> []
                       then case direct_routes e (i_routes_direct i) [] of
                              (ok, rs) \<Rightarrow>
                                let s = upd_task a (\<lambda>t. t\<lparr>task_routes := rs\<rparr>) s
                                in if ok then ((Some a, False), s)
                                   else ((None, False), flb_task_destroy e a True s)
                       else let rs = matching_routes e ic s;
                                s = upd_task a (\<lambda>t. t\<lparr>task_routes := rs\<rparr>) s
                            in if rs = [] then ((None, False), flb_task_destroy e a True s)
                               else ((Some a, False), s)))
      | _ \<Rightarrow> ((None, True), s))"

text \<open>Tasks with a flush in progress or a retry.\<close>

definition flb_task_running_count :: "'c flb_config \<Rightarrow> nat" where
  "flb_task_running_count s =
     length (filter (\<lambda>a. case task_heap s a of
                None \<Rightarrow> False
              | Some t \<Rightarrow> task_users t > 0 \<or> length (task_retries t) > 0)
       (concat (map i_tasks (cf_inputs s))))"

section \<open>Routes\<close>

definition flb_task_get_active_route_count :: "flb_task \<Rightarrow> int" where
  "flb_task_get_active_route_count t = int (length (filter (\<lambda>r. tr_status r = ROUTE_ACTIVE) (task_routes t)))"

definition flb_task_get_route_status :: "flb_task \<Rightarrow> int \<Rightarrow> route_status" where
  "flb_task_get_route_status t out_id =
     (case List.find (\<lambda>r. tr_out r = out_id) (task_routes t) of
        None \<Rightarrow> ROUTE_INACTIVE
      | Some r \<Rightarrow> tr_status r)"

fun set_route_status :: "int \<Rightarrow> route_status \<Rightarrow> flb_task_route list \<Rightarrow> flb_task_route list" where
  "set_route_status out_id st [] = []"
| "set_route_status out_id st (r # rs) =
     (if tr_out r = out_id then r\<lparr>tr_status := st\<rparr> # rs else r # set_route_status out_id st rs)"

definition flb_task_set_route_status :: "flb_task \<Rightarrow> int \<Rightarrow> route_status \<Rightarrow> flb_task" where
  "flb_task_set_route_status t out_id st = t\<lparr>task_routes := set_route_status out_id st (task_routes t)\<rparr>"

definition flb_task_activate_route :: "flb_task \<Rightarrow> int \<Rightarrow> flb_task" where
  "flb_task_activate_route t out_id = flb_task_set_route_status t out_id ROUTE_ACTIVE"

definition flb_task_deactivate_route :: "flb_task \<Rightarrow> int \<Rightarrow> flb_task" where
  "flb_task_deactivate_route t out_id = flb_task_set_route_status t out_id ROUTE_INACTIVE"

definition flb_task_drop_route :: "flb_task \<Rightarrow> int \<Rightarrow> flb_task" where
  "flb_task_drop_route t out_id = flb_task_set_route_status t out_id ROUTE_DROPPED"

section \<open>Queues\<close>

definition flb_task_queue_create :: "bool \<Rightarrow> flb_task_queue option" where
  "flb_task_queue_create ok = (if \<not> ok then None else Some \<lparr>pending = [], in_progress = []\<rparr>)"

section \<open>Event values decode\<close>

lemma bit_below: "bit r n \<Longrightarrow> 0 \<le> r \<Longrightarrow> r < 2 ^ k \<Longrightarrow> n < k" for r :: int
  by (metis bit_take_bit_iff take_bit_int_eq_self)

lemma task_set_masks: "0x3fff = (mask 14 :: u32)" "0xfffc000 = (push_bit 14 (mask 14) :: u32)"
  by (simp_all add: mask_eq_exp_minus_1 push_bit_eq_mult)

lemma task_set_fields:
  assumes "0 \<le> r" "r < 2 ^ 4" "0 \<le> i" "i < 2 ^ 14" "0 \<le> d" "d < 2 ^ 14"
  shows "FLB_TASK_RET (FLB_TASK_SET r i d) = word_of_int r"
    and "FLB_TASK_ID (FLB_TASK_SET r i d) = word_of_int i"
    and "FLB_TASK_OUT (FLB_TASK_SET r i d) = word_of_int d"
  unfolding FLB_TASK_RET_def FLB_TASK_ID_def FLB_TASK_OUT_def FLB_TASK_SET_def task_set_masks
  by (rule bit_eqI; use bit_below [OF _ assms(1,2)] bit_below [OF _ assms(3,4)] bit_below [OF _ assms(5,6)] in
        \<open>auto simp: bit_simps; force?\<close>)+

lemma uint_small: "0 \<le> n \<Longrightarrow> n < 2 ^ 14 \<Longrightarrow> uint (word_of_int n :: u32) = n"
  by (simp add: unsigned_of_int take_bit_int_eq_self)

lemma task_set_decode:
  assumes "0 \<le> r" "r < 2 ^ 4" "0 \<le> i" "i < 2 ^ 14" "0 \<le> d" "d < 2 ^ 14"
  shows "uint (FLB_TASK_RET (FLB_TASK_SET r i d)) = r"
    and "uint (FLB_TASK_ID (FLB_TASK_SET r i d)) = i"
    and "uint (FLB_TASK_OUT (FLB_TASK_SET r i d)) = d"
  using assms by (simp_all add: task_set_fields uint_small)

lemma u64_set_decode:
  "FLB_BITS_U64_HIGH (FLB_BITS_U64_SET a b) = a" "FLB_BITS_U64_LOW (FLB_BITS_U64_SET a b) = b"
proof -
  have m: "0xffffffff = (mask 32 :: u64)" by (simp add: mask_eq_exp_minus_1)
  show "FLB_BITS_U64_HIGH (FLB_BITS_U64_SET a b) = a"
    unfolding FLB_BITS_U64_HIGH_def FLB_BITS_U64_SET_def
    by (rule bit_eqI) (auto simp: bit_simps dest: bit_imp_le_length)
  show "FLB_BITS_U64_LOW (FLB_BITS_U64_SET a b) = b"
    unfolding FLB_BITS_U64_LOW_def FLB_BITS_U64_SET_def m
    by (rule bit_eqI) (auto simp: bit_simps dest: bit_imp_le_length)
qed

text \<open>
  C28: The 64-bit value with which an output reports the result of a flush decodes to what was encoded:
  the kind of event, and the return value, the task id and the output id, as long as the return value
  has 4 bits and the ids 14 bits.
\<close>

theorem task_event_round_trip:
  assumes "0 \<le> r" "r < 16" "0 \<le> i" "i < 16384" "0 \<le> d" "d < 16384"
  defines "v \<equiv> FLB_BITS_U64_SET FLB_ENGINE_TASK (FLB_TASK_SET r i d)"
  shows "FLB_BITS_U64_HIGH v = FLB_ENGINE_TASK \<and> uint (FLB_TASK_RET (FLB_BITS_U64_LOW v)) = r
    \<and> uint (FLB_TASK_ID (FLB_BITS_U64_LOW v)) = i \<and> uint (FLB_TASK_OUT (FLB_BITS_U64_LOW v)) = d"
  using assms(1-6) by (simp add: v_def u64_set_decode task_set_decode)

lemma task_event_round_trip_witness:
  "uint (FLB_TASK_ID (FLB_BITS_U64_LOW (FLB_BITS_U64_SET FLB_ENGINE_TASK (FLB_TASK_SET 2 16383 5)))) = 16383"
  using task_event_round_trip [of 2 16383 5] by simp

section \<open>Task ids\<close>

lemma first_free_Some:
  "first_free xs i = Some n \<Longrightarrow>
     i \<le> n \<and> n - i < length xs \<and> xs ! (n - i) = None \<and> (\<forall>j < n - i. xs ! j \<noteq> None)"
proof (induction xs i arbitrary: n rule: first_free.induct)
  case (3 a xs i)
  then show ?case by (auto simp: Suc_le_eq less_diff_conv nth_Cons' elim: allE [of _ "_ - 1"])
qed auto

lemma first_free_None: "first_free xs i = None \<longleftrightarrow> (\<forall>x \<in> set xs. x \<noteq> None)"
  by (induction xs i rule: first_free.induct) auto

definition task_map_ok :: "'c flb_config \<Rightarrow> bool" where
  "task_map_ok s \<longleftrightarrow> 256 dvd length (task_map s) \<and> length (task_map s) \<le> 16384"

lemma task_map_grow_eq:
  "flb_config_task_map_grow ok s =
     (if length (task_map s) \<ge> 16384 \<or> \<not> ok then (-1, s)
      else (0, s\<lparr>task_map := task_map s @ replicate 256 None\<rparr>))"
  by (simp add: flb_config_task_map_grow_def flb_config_task_map_resize_def
      FLB_CONFIG_DEFAULT_TASK_MAP_SIZE_LIMIT_def FLB_CONFIG_DEFAULT_TASK_MAP_SIZE_GROWTH_SIZE_def Let_def)

lemma dvd_256_step: "256 dvd n \<Longrightarrow> n < 16384 \<Longrightarrow> n + 256 \<le> (16384 :: nat)"
  by (elim dvdE) simp

text \<open>What \<open>map_get_task_id\<close> does to the state and returns.\<close>

lemma map_get_task_id_cases:
  assumes "map_get_task_id e s = (tid, s')"
  obtains (none) "tid = -1" "s' = s" "\<forall>x \<in> set (task_map s). x \<noteq> None"
    | (free) "s' = s" "0 \<le> tid" "nat tid < length (task_map s)" "task_map s ! nat tid = None"
        "\<forall>j < nat tid. task_map s ! j \<noteq> None"
    | (grown) "s' = s\<lparr>task_map := task_map s @ replicate 256 None\<rparr>" "tid = int (length (task_map s))"
        "\<forall>x \<in> set (task_map s). x \<noteq> None" "length (task_map s) < 16384"
proof (cases "first_free (task_map s) 0")
  case (Some n)
  then have "tid = int n" "s' = s" using assms by (simp_all add: map_get_task_id_def)
  then show ?thesis using that(2) first_free_Some [OF Some] by simp
next
  case None
  then have full: "\<forall>x \<in> set (task_map s). x \<noteq> None" by (simp add: first_free_None)
  show ?thesis
  proof (cases "length (task_map s) \<ge> 16384 \<or> \<not> e_alloc e A_task_map (length (task_map s))")
    case True
    then show ?thesis
      using assms None full that(1) by (simp add: map_get_task_id_def task_map_grow_eq Let_def)
  next
    case False
    then show ?thesis
      using assms None full that(3) by (simp add: map_get_task_id_def task_map_grow_eq Let_def)
  qed
qed

text \<open>
  The id a new task gets is the lowest one no task has, and it fits in the 14 bits an event value
  has for it. There is none only when all slots of the map are taken and the map is at its limit of
  16384 slots or cannot be enlarged.
\<close>

theorem task_id_lowest_free:
  assumes "task_map_ok s" and "map_get_task_id e s = (tid, s')"
  shows "task_map_ok s'
    \<and> (if tid = -1 then s' = s \<and> None \<notin> set (task_map s)
         \<and> (length (task_map s) = 16384 \<or> \<not> e_alloc e A_task_map (length (task_map s)))
       else 0 \<le> tid \<and> tid < 16384 \<and> nat tid < length (task_map s') \<and> task_map s' ! nat tid = None
         \<and> list_all (\<lambda>x. x \<noteq> None) (take (nat tid) (task_map s')))"
  using assms(2)
proof (cases rule: map_get_task_id_cases)
  case none
  then have "length (task_map s) \<ge> 16384 \<or> \<not> e_alloc e A_task_map (length (task_map s))"
    using assms(2) first_free_None [of "task_map s" 0]
    by (auto simp: map_get_task_id_def task_map_grow_eq Let_def split: option.splits if_splits)
  then show ?thesis using none assms(1) by (auto simp: task_map_ok_def)
next
  case free
  then show ?thesis using assms(1) by (auto simp: task_map_ok_def list_all_length)
next
  case grown
  then show ?thesis
    using assms(1) by (auto simp: task_map_ok_def dvd_256_step nth_append list_all_iff)
qed

section \<open>A small configuration\<close>

text \<open>
  One input with the busy chunk of a running task, one output with room for two retries; chunks are
  their content, and their metadata is a tag.
\<close>

definition sample_cio :: "cstring cio" where
  "sample_cio = \<lparr>cio_chunk_is_up = (\<lambda>_. True), cio_chunk_up = (\<lambda>c. (0, c)), cio_chunk_up_force = (\<lambda>c. (0, c)),
     cio_chunk_down = (\<lambda>c. (0, c)), cio_chunk_lock = (\<lambda>c. c), cio_chunk_get_content = (\<lambda>c. Some (Some c)),
     cio_chunk_get_content_size = (\<lambda>c. int (length c)), cio_chunk_get_real_size = (\<lambda>c. int (length c)),
     cio_meta_size = (\<lambda>_. 1), cio_meta_read = (\<lambda>_. Some ''t''), cio_max_chunks_up = 128,
     cio_chunk_open = (\<lambda>_. Some []), cio_chunk_is_locked = (\<lambda>_. False), cio_meta_write = (\<lambda>c m. (0, c)),
     cio_chunk_write = (\<lambda>c buf. (0, c @ buf)), cio_chunk_tx_rollback = (\<lambda>c. c)\<rparr>"

definition sample_env :: "cstring env" where
  "sample_env = \<lparr>e_cio = sample_cio, e_hash = (\<lambda>_. 0), e_timeout = (\<lambda>_ _ _. 7), e_rand = (\<lambda>_. 0),
     e_now = 100, e_alloc = (\<lambda>_ _. True), e_junk = (\<lambda>_. ROUTE_INACTIVE), e_pipe = (\<lambda>_ _. True),
     e_process = (\<lambda>_ evc. Some evc), e_onig = (\<lambda>_ _. -1), e_mp_count = (\<lambda>buf. int (length buf))\<rparr>"

definition sample_table :: flb_hash_table where
  "sample_table = \<lparr>ht_evict_mode = EVICT_NONE, max_entries = 0, total_count = 0, cache_ttl = 0,
     case_sensitivity = True, ht_size = 1, entries = [], ht_table = [\<lparr>c_count = 0, chains = []\<rparr>],
     ht_heap = Map.empty, ht_next = 1\<rparr>"

definition sample_input :: flb_input where
  "sample_input = \<lparr>i_id = 0, i_p = Some \<lparr>p_name = Some ''cpu''\<rparr>, i_name = ''cpu.0'', i_alias = None,
     i_tag = Some ''t'', i_tag_len = 1, i_routes = [], i_routes_direct = [], i_tasks = [], i_chunks = [1],
     mem_buf_limit = 0, mem_chunks_size = 0, mem_buf_paused = False, storage_buf_paused = False,
     i_storage_type = STORAGE_MEM, storage_pause_on_chunks_overlimit = False,
     ht_log_chunks = sample_table, ht_metric_chunks = sample_table, ht_trace_chunks = sample_table,
     ht_profile_chunks = sample_table, i_routable = True\<rparr>"

definition sample_output :: flb_output where
  "sample_output = \<lparr>o_id = 0, o_p = Some \<lparr>p_name = Some ''stdout''\<rparr>, o_name = ''stdout.0'', o_alias = None,
     o_match = Some ''*'', o_match_regex = None, o_event_type = 1, o_flags = 0, o_retry_limit = 2,
     o_total_limit_size = - 1, o_fs_chunks_size = 0, o_fs_backlog_chunks_size = 0, o_is_threaded = False,
     o_test_formatter = False, o_singleplex_queue = \<lparr>pending = [], in_progress = []\<rparr>, o_flush_id = 0,
     o_flush_list = [], o_flush_list_destroy = [], o_tp_queue = [], o_ch_events = []\<rparr>"

definition sample_chunk :: "cstring flb_input_chunk" where
  "sample_chunk = \<lparr>ic_event_type = 0, ic_fs_counted = False, ic_busy = False, ic_fs_backlog = False,
     ic_total_records = 3, ic_added_records = 3, ic_chunk = ''abc'', ic_in = 0, ic_task = None, ic_routes_mask = [1]\<rparr>"

definition sample_config :: "cstring flb_config" where
  "sample_config = \<lparr>requests = [], requests_wait = [], timers = [], timers_drop = [], timer_coro_list = [],
     timer_coro_list_drop = [], frame_fd = 0, sched_base = 5, sched_cap = 2000, is_shutting_down = False,
     sched_brk = 10, routes_cfg = \<lparr>route_mask_size = 1, route_mask_slots = 64, route_empty_mask = Some [0]\<rparr>,
     cf_inputs = [sample_input], cf_outputs = [sample_output], chunk_heap = [1 \<mapsto> sample_chunk],
     task_heap = Map.empty, retry_heap = Map.empty, task_map = [], is_running = True,
     is_ingestion_active = True, cf_filters = [], storage_input_plugin = 0, storage_del_bad_chunks = False,
     ic_next = 2\<rparr>"

lemmas sample_defs = sample_cio_def sample_env_def sample_table_def sample_input_def sample_output_def
  sample_chunk_def sample_config_def

lemma task_id_lowest_free_witness:
  "fst (map_get_task_id sample_env sample_config) = 0
   \<and> task_map_ok (snd (map_get_task_id sample_env sample_config))"
proof -
  have "task_map_ok sample_config" by (simp add: task_map_ok_def sample_defs)
  moreover have tid: "fst (map_get_task_id sample_env sample_config) = 0"
    by (simp add: map_get_task_id_def task_map_grow_eq sample_defs)
  ultimately show ?thesis
    using task_id_lowest_free [of sample_config sample_env 0 "snd (map_get_task_id sample_env sample_config)"]
    by (metis prod.collapse)
qed

section \<open>What the scheduler's operations leave alone\<close>

definition nosched :: "'c flb_config \<Rightarrow> 'c flb_config" where
  "nosched s = s\<lparr>requests := [], requests_wait := [], timers := [], timers_drop := [], sched_brk := 0\<rparr>"

lemma noschedD:
  assumes "nosched s' = nosched s"
  shows "task_heap s' = task_heap s" "retry_heap s' = retry_heap s" "task_map s' = task_map s"
    "cf_outputs s' = cf_outputs s" "cf_inputs s' = cf_inputs s" "chunk_heap s' = chunk_heap s"
    "sched_base s' = sched_base s" "sched_cap s' = sched_cap s"
proof -
  note sel = arg_cong [OF assms]
  show "task_heap s' = task_heap s" using sel [of task_heap] by (simp add: nosched_def)
  show "retry_heap s' = retry_heap s" using sel [of retry_heap] by (simp add: nosched_def)
  show "task_map s' = task_map s" using sel [of task_map] by (simp add: nosched_def)
  show "cf_outputs s' = cf_outputs s" using sel [of cf_outputs] by (simp add: nosched_def)
  show "cf_inputs s' = cf_inputs s" using sel [of cf_inputs] by (simp add: nosched_def)
  show "chunk_heap s' = chunk_heap s" using sel [of chunk_heap] by (simp add: nosched_def)
  show "sched_base s' = sched_base s" using sel [of sched_base] by (simp add: nosched_def)
  show "sched_cap s' = sched_cap s" using sel [of sched_cap] by (simp add: nosched_def)
qed

text \<open>The data of all requests, scheduled or waiting.\<close>

definition reqs :: "'a flb_sched_scheme \<Rightarrow> addr multiset" where
  "reqs s = mset (map rq_data (requests s @ requests_wait s))"

lemma nosched_drop_request [simp]: "nosched (drop_request q t s) = nosched s"
  by (simp add: nosched_def drop_request_def)

lemma mset_filter_addr:
  "distinct (map f xs) \<Longrightarrow> x \<in> set xs \<Longrightarrow> mset (filter (\<lambda>y. f y \<noteq> f x) xs) = mset xs - {#x#}"
proof (induction xs)
  case (Cons y xs)
  show ?case
  proof (cases "y = x")
    case True
    then have "filter (\<lambda>z. f z \<noteq> f x) xs = xs" using Cons.prems by (intro filter_True) (fastforce simp: image_iff)
    with True show ?thesis by simp
  next
    case False
    then have "x \<in> set xs" "f y \<noteq> f x" using Cons.prems by (auto simp: image_iff)
    with Cons show ?thesis by (simp add: add_mset_diff_bothsides)
  qed
qed simp

lemma reqs_drop_request:
  assumes "sched_inv s" and "q \<in> set (requests s @ requests_wait s)"
  shows "reqs (drop_request q t s) = reqs s - {#rq_data q#}"
proof -
  let ?qs = "requests s @ requests_wait s"
  have "mset (filter (\<lambda>r. rq_addr r \<noteq> rq_addr q) ?qs) = mset ?qs - {#q#}"
    using mset_filter_addr [OF sched_invD(2) [OF assms(1)] assms(2)] .
  moreover have "q \<in># mset ?qs" using assms(2) by simp
  ultimately show ?thesis
    by (simp add: reqs_def drop_request_def image_mset_Diff del: mset_append flip: filter_append map_append)
qed

lemma request_destroy_effect:
  assumes "sched_inv s" and "q \<in> set (requests s @ requests_wait s)"
    and "s' = snd (flb_sched_request_destroy (Some q) s)"
  shows "nosched s' = nosched s" "sched_inv s'" "sched_brk s' = sched_brk s" "reqs s' = reqs s - {#rq_data q#}"
proof -
  obtain t where t: "t \<in> set (timers s)" "linked q t" "s' = drop_request q t s"
    using request_destroy_eq [OF assms(1,2)] assms(3) by auto
  show "nosched s' = nosched s" "sched_brk s' = sched_brk s" "reqs s' = reqs s - {#rq_data q#}"
    using t(3) reqs_drop_request [OF assms(1,2)] by (simp_all add: drop_request_def nosched_def)
  show "sched_inv s'" using request_destroy_inv [OF assms(1,2)] assms(3) by simp
qed

lemma request_invalidate_effect:
  assumes "sched_inv s" and "s' = snd (flb_sched_request_invalidate r s)"
  shows "nosched s' = nosched s" "sched_inv s'" "sched_brk s' = sched_brk s" "reqs s' = reqs s - {#r#}"
proof -
  consider (req) q where "q \<in> set (requests s @ requests_wait s)" "rq_data q = r"
      "s' = snd (flb_sched_request_destroy (Some q) s)"
    | (no) "\<forall>q \<in> set (requests s @ requests_wait s). rq_data q \<noteq> r" "s' = s"
    using assms(2)
    by (auto simp: flb_sched_request_invalidate_def find_None_iff dest!: find_SomeD split: option.splits)
  then have "nosched s' = nosched s \<and> sched_inv s' \<and> sched_brk s' = sched_brk s \<and> reqs s' = reqs s - {#r#}"
  proof cases
    case req
    then show ?thesis using request_destroy_effect [OF assms(1) req(1,3)] by simp
  next
    case no
    then have "r \<notin># reqs s" by (auto simp: reqs_def)
    with no assms(1) show ?thesis by (simp add: diff_single_trivial)
  qed
  then show "nosched s' = nosched s" "sched_inv s'" "sched_brk s' = sched_brk s" "reqs s' = reqs s - {#r#}"
    by simp_all
qed

text \<open>A configuration for which the wait time is defined and positive.\<close>

definition sched_cfg_ok :: "'a flb_sched_scheme \<Rightarrow> bool" where
  "sched_cfg_ok s \<longleftrightarrow> 0 < sched_base s \<and> sched_base s \<le> sched_cap s \<and> sched_cap s \<le> 2 ^ 30"

definition rand_ok :: "'c env \<Rightarrow> bool" where
  "rand_ok e \<longleftrightarrow> (\<exists>k. 0 \<le> e_rand e k \<and> e_rand e k < 2 ^ 30)"

lemma sched_request_effect:
  assumes "sched_inv s" and "sched_cfg_ok s" and "rand_ok e"
  obtains ret s' where "sched_request e r n s = Some (ret, s')" "nosched s' = nosched s" "sched_inv s'"
    "sched_brk s \<le> sched_brk s'" "reqs s' = (if ret = -1 then reqs s else add_mset r (reqs s))"
proof -
  obtain x where x: "backoff_full_jitter (e_rand e) (sched_base s) (sched_cap s) (nat n) = Some x"
      "sched_base s \<le> x"
    using backoff_bounds [of "sched_base s" "sched_cap s" "e_rand e" "nat n"] assms(2,3)
    by (auto simp: sched_cfg_ok_def rand_ok_def)
  have "\<exists>ret s'. sched_request e r n s = Some (ret, s')"
    using x(1) by (auto simp: sched_request_def request_create_eq [OF assms(1)] split: option.splits)
  then obtain ret s' where eq: "sched_request e r n s = Some (ret, s')" by blast
  have pos: "0 < sched_base s" using assms(2) by (simp add: sched_cfg_ok_def)
  have "nosched s' = nosched s \<and> sched_brk s \<le> sched_brk s'
      \<and> reqs s' = (if ret = -1 then reqs s else add_mset r (reqs s))"
    using eq x pos unfolding sched_request_def request_create_eq [OF assms(1)]
    by (auto simp: nosched_def with_now_def with_wait_def reqs_def new_request_def split: if_splits)
  moreover have "sched_inv s'"
    using request_create_inv [OF assms(1)] eq by (auto simp: sched_request_def)
  ultimately show ?thesis using that eq by blast
qed

lemma retry_now_effect:
  assumes "sched_inv s" and "s' = snd (flb_sched_retry_now timer_ok request_ok tc now r s)"
  shows "nosched s' = nosched s" "sched_inv s'" "sched_brk s \<le> sched_brk s'"
    "reqs s' = reqs s \<or> reqs s' = add_mset r (reqs s)"
proof -
  show "sched_inv s'" using retry_now_inv assms by blast
  show "nosched s' = nosched s" "sched_brk s \<le> sched_brk s'"
    "reqs s' = reqs s \<or> reqs s' = add_mset r (reqs s)"
    unfolding assms(2) retry_now_eq [OF assms(1)]
    by (auto simp: nosched_def with_now_def reqs_def new_request_def)
qed

lemma promote_nosched: "nosched (snd (schedule_request_promote tc now s)) = nosched s"
proof -
  have now: "nosched (snd (schedule_request_now tc n a q s)) = nosched s" for n a q and s :: "'a flb_config"
    by (simp add: schedule_request_now_def nosched_def timer_upd_def Let_def)
  have del: "nosched (request_del q s) = nosched s" for q and s :: "'a flb_config"
    by (simp add: nosched_def request_del_def)
  have step: "nosched (fst (promote_step tc now q st)) = nosched (fst st)" for q and st :: "'a flb_config \<times> _"
  proof -
    obtain s f where st: "st = (s, f)" by (cases st)
    have "nosched (snd (schedule_request_now tc n (rq_timer q) q (request_del (rq_addr q) s))) = nosched s" for n
      by (simp add: now del)
    then show ?thesis by (auto simp: st promote_step_def Let_def case_prod_beta)
  qed
  have fold: "nosched (fst (fold (promote_step tc now) qs st)) = nosched (fst st)" for qs and st :: "'a flb_config \<times> _"
    by (induction qs arbitrary: st) (simp_all add: step)
  have wait: "nosched (s\<lparr>requests_wait := ws\<rparr>) = nosched s" for ws and s :: "'a flb_config"
    by (simp add: nosched_def)
  show ?thesis
    using fold [of "requests_wait s" "(s, [])"]
    by (simp add: schedule_request_promote_def case_prod_beta wait)
qed

lemma promote_reqs:
  assumes "sched_inv s"
  shows "reqs (snd (schedule_request_promote tc now s)) = reqs s"
proof -
  have "mset (map rq_data (map (\<lambda>q. q\<lparr>rq_fd := f q\<rparr>) (filter (\<lambda>q. P q \<and> Q q) xs)))
      + (mset (map rq_data (filter (\<lambda>q. \<not> P q) xs)) + mset (map rq_data (filter (\<lambda>q. P q \<and> \<not> Q q) xs)))
      = mset (map rq_data xs)" for P Q f and xs :: "flb_sched_request list"
    by (induction xs) auto
  from this [of "promote_fd tc now" "due now" "\<lambda>q. promote_fd tc now q \<noteq> -1" "requests_wait s"]
  show ?thesis
    unfolding reqs_def promote_lists [OF assms] by (simp add: ac_simps)
qed

end
