(* ===== verification/Chunk_Ingest.thy ===== *)
theory Chunk_Ingest
  imports Task
begin

text \<open>
  Data enters the pipeline, \<^verbatim>\<open>src/src/flb_input_chunk.c\<close> with \<open>flb_filter_do\<close> of
  \<^verbatim>\<open>src/src/flb_filter.c\<close> and \<open>flb_routes_mask_set_by_tag\<close> of \<^verbatim>\<open>src/src/flb_routes_mask.c\<close>: the
  routes of a chunk from its tag, the header of a chunk file, the chunk a tag writes to, the space that is
  taken from older chunks when an output is over its limit, the filters, the write.

  The build has no storage backlog plugin: \<open>sb_release_output_queue_space\<close> is the stub of
  \<^verbatim>\<open>flb_input_chunk.c\<close>. Metrics, chunk traces and the stream processor are left out; what counting the
  records of a dropped chunk does to the chunk is not.
\<close>

section \<open>Routes and headers\<close>

definition flb_routes_mask_set_by_tag ::
  "onig \<Rightarrow> cstring \<Rightarrow> 'c flb_config \<Rightarrow> bool \<times> route_mask" where
  "flb_routes_mask_set_by_tag onig tag s =
     fold (\<lambda>out (has_routes, m).
             if flb_router_match onig (Some tag) (int (length tag)) (o_match out) (o_match_regex out)
             then (True, flb_routes_mask_set_bit m (o_id out) (routes_cfg s))
             else (has_routes, m)) (cf_outputs s) (False, fresh_mask (routes_cfg s))"

definition FLB_INPUT_CHUNK_TAG_MAX :: nat where
  "FLB_INPUT_CHUNK_TAG_MAX = 65535 - FLB_INPUT_CHUNK_META_HEADER"

text \<open>The byte of an event type stays 0 for a type the function does not know.\<close>

definition chunk_meta :: "int \<Rightarrow> cstring \<Rightarrow> cstring" where
  "chunk_meta event_type tag =
     [CHR 0xF1, CHR 0x77,
      if event_type = FLB_INPUT_LOGS then CHR 0x00
      else if event_type = FLB_INPUT_METRICS then CHR 0x01
      else if event_type = FLB_INPUT_TRACES then CHR 0x02
      else if event_type = FLB_INPUT_PROFILES then CHR 0x04
      else CHR 0x00,
      CHR 0x00] @ take FLB_INPUT_CHUNK_TAG_MAX tag"

definition input_chunk_write_header ::
  "'c env \<Rightarrow> 'c \<Rightarrow> int \<Rightarrow> cstring \<Rightarrow> nat \<Rightarrow> int \<times> 'c" where
  "input_chunk_write_header e c event_type tag brk =
     (if \<not> e_alloc e A_meta brk then (-1, c)
      else case cio_meta_write (e_cio e) c (chunk_meta event_type tag) of
             (ret, c) \<Rightarrow> if ret = -1 then (-1, c) else (0, c))"

definition CIO_OK :: int where "CIO_OK = 0"
definition CIO_CORRUPTED :: int where "CIO_CORRUPTED = -3"

text \<open>The index of the input that holds the chunks of an event type.\<close>

definition chunk_index_upd :: "int \<Rightarrow> (flb_hash_table \<Rightarrow> flb_hash_table) \<Rightarrow> flb_input \<Rightarrow> flb_input" where
  "chunk_index_upd ty f i =
     (if ty = FLB_INPUT_LOGS then i\<lparr>ht_log_chunks := f (ht_log_chunks i)\<rparr>
      else if ty = FLB_INPUT_METRICS then i\<lparr>ht_metric_chunks := f (ht_metric_chunks i)\<rparr>
      else if ty = FLB_INPUT_TRACES then i\<lparr>ht_trace_chunks := f (ht_trace_chunks i)\<rparr>
      else if ty = FLB_INPUT_PROFILES then i\<lparr>ht_profile_chunks := f (ht_profile_chunks i)\<rparr>
      else i)"

definition chunk_index :: "int \<Rightarrow> flb_input \<Rightarrow> flb_hash_table option" where
  "chunk_index ty i =
     (if ty = FLB_INPUT_LOGS then Some (ht_log_chunks i)
      else if ty = FLB_INPUT_METRICS then Some (ht_metric_chunks i)
      else if ty = FLB_INPUT_TRACES then Some (ht_trace_chunks i)
      else if ty = FLB_INPUT_PROFILES then Some (ht_profile_chunks i)
      else None)"

definition flb_input_chunk_create ::
  "'c env \<Rightarrow> int \<Rightarrow> int \<Rightarrow> cstring \<Rightarrow> 'c flb_config \<Rightarrow> addr option \<times> 'c flb_config" where
  "flb_input_chunk_create e n event_type tag s =
     (let cio = e_cio e; a = ic_next s
      in case cio_chunk_open cio a of
           None \<Rightarrow> (None, s)
         | Some c \<Rightarrow>
             (case (if \<not> cio_chunk_is_up cio c then cio_chunk_up_force cio c else (0, c)) of
                (up, c') \<Rightarrow>
                  let set_down = (\<not> cio_chunk_is_up cio c); c = c'
                  in if set_down \<and> up = -1 then (None, s)
                     else case input_chunk_write_header e c event_type tag a of
                            (ret, c) \<Rightarrow>
                              if ret = -1 then (None, s)
                              else if \<not> e_alloc e A_chunk a then (None, s)
                              else if \<not> e_alloc e A_mask a then (None, s)
                              else
                                let m = snd (flb_routes_mask_set_by_tag (e_onig e) tag s);
                                    c = (if set_down then snd (cio_chunk_down cio c) else c);
                                    ic = \<lparr>ic_event_type = event_type, ic_fs_counted = False, ic_busy = False,
                                          ic_fs_backlog = False, ic_total_records = 0,
                                          ic_added_records = 0, ic_chunk = c, ic_in = n,
                                          ic_task = None, ic_routes_mask = m\<rparr>;
                                    s = s\<lparr>chunk_heap := (chunk_heap s)(a \<mapsto> ic), ic_next := a + 1\<rparr>
                                in (Some a,
                                    upd_in n (\<lambda>i.
                                      chunk_index_upd event_type
                                        (\<lambda>ht. snd (flb_hash_table_add (\<lambda>_. True) (e_hash e) (e_now e) 0 ht
                                                (Some tag) (int (length tag)) a []))
                                        (i\<lparr>i_chunks := i_chunks i @ [a]\<rparr>)) s)))"

section \<open>Releasing space\<close>

text \<open>
  \<open>get_input_chunk_record_count\<close> as far as the chunk is concerned: it is brought up and put down again.
\<close>

definition get_input_chunk_record_count :: "'c cio \<Rightarrow> addr \<Rightarrow> 'c flb_config \<Rightarrow> 'c flb_config" where
  "get_input_chunk_record_count cio a s =
     (case chunk_heap s a of
        None \<Rightarrow> s
      | Some ic \<Rightarrow>
          if cio_chunk_is_up cio (ic_chunk ic) then s
          else case cio_chunk_up_force cio (ic_chunk ic) of
                 (ret, c) \<Rightarrow>
                   if ret = -1 then upd_chunk a (\<lambda>ic. ic\<lparr>ic_chunk := c\<rparr>) s
                   else upd_chunk a (\<lambda>ic. ic\<lparr>ic_chunk := snd (cio_chunk_down cio c)\<rparr>) s)"

text \<open>The result, and the number of dropped records.\<close>

definition flb_input_chunk_drop_task_route ::
  "addr option \<Rightarrow> int option \<Rightarrow> 'c flb_config \<Rightarrow> (bool \<times> int) \<times> 'c flb_config" where
  "flb_input_chunk_drop_task_route task output_plugin s =
     (case task of
        None \<Rightarrow> ((True, 0), s)
      | Some a \<Rightarrow>
          (case task_heap s a of
             None \<Rightarrow> ((False, 0), s)
           | Some t \<Rightarrow>
               if task_users t \<noteq> 0
               then (case output_plugin of
                       None \<Rightarrow> ((False, 0), s)
                     | Some n \<Rightarrow>
                         if flb_task_get_route_status t n = ROUTE_INACTIVE
                         then ((True, task_records t),
                               upd_task a (\<lambda>t. flb_task_set_route_status t n ROUTE_DROPPED) s)
                         else ((False, 0), s))
               else ((True, 0), s)))"

definition flb_input_chunk_is_task_safe_delete :: "addr option \<Rightarrow> 'c flb_config \<Rightarrow> bool" where
  "flb_input_chunk_is_task_safe_delete task s =
     (case task of
        None \<Rightarrow> True
      | Some a \<Rightarrow> (case task_heap s a of None \<Rightarrow> False | Some t \<Rightarrow> task_users t = 0))"

definition flb_input_chunk_safe_delete :: "addr \<Rightarrow> addr \<Rightarrow> int \<Rightarrow> 'c flb_config \<Rightarrow> bool" where
  "flb_input_chunk_safe_delete ic old_ic out_id s =
     (if ic = old_ic then False
      else case chunk_heap s old_ic of
             None \<Rightarrow> False
           | Some old \<Rightarrow> flb_routes_mask_get_bit (ic_routes_mask old) out_id (routes_cfg s))"

datatype release_scope = SCOPE_LOCAL | SCOPE_GLOBAL

text \<open>The end of a turn of the loop: the chunk, or its task, goes when nothing routes to it any more.\<close>

definition release_destroy :: "'c env \<Rightarrow> addr \<Rightarrow> 'c flb_config \<Rightarrow> bool \<times> 'c flb_config" where
  "release_destroy e c s =
     (case chunk_heap s c of
        None \<Rightarrow> (False, s)
      | Some ic \<Rightarrow>
          (case ic_task ic of
             Some a \<Rightarrow>
               (case task_heap s a of
                  None \<Rightarrow> (False, s)
                | Some t \<Rightarrow> if task_users t = 0 then (True, flb_task_destroy e a True s) else (False, s))
           | None \<Rightarrow> (True, snd (flb_input_chunk_destroy (e_cio e) (e_hash e) c True s))))"

text \<open>A turn of the loop; \<open>None\<close> stands for \<open>continue\<close>, else the space that counts as released.\<close>

definition release_turn ::
  "'c env \<Rightarrow> addr \<Rightarrow> int \<Rightarrow> release_scope \<Rightarrow> addr \<Rightarrow> 'c flb_config \<Rightarrow> int option \<times> 'c flb_config" where
  "release_turn e new out_id scope c s =
     (case chunk_heap s c of
        None \<Rightarrow> (None, s)
      | Some ic \<Rightarrow>
          if \<not> flb_routes_mask_get_bit (ic_routes_mask ic) out_id (routes_cfg s) then (None, s)
          else if \<not> flb_input_chunk_safe_delete new c out_id s then (None, s)
          else (case flb_input_chunk_drop_task_route (ic_task ic) (Some out_id) s of
                 ((False, _), s) \<Rightarrow> (None, s)
               | ((True, dropped), s) \<Rightarrow>
                   let chunk_size = flb_input_chunk_get_real_size (e_cio e) ic;
                       m = flb_routes_mask_clear_bit (ic_routes_mask ic) out_id (routes_cfg s);
                       local = (scope = SCOPE_LOCAL);
                       s = (if local
                            then upd_out out_id
                                   (\<lambda>out. out\<lparr>o_fs_chunks_size := o_fs_chunks_size out - word_of_int chunk_size\<rparr>)
                                   (upd_chunk c (\<lambda>ic. ic\<lparr>ic_routes_mask := m\<rparr>) s)
                            else s);
                       chunk_destroy_flag = (if local then flb_routes_mask_is_empty m (routes_cfg s) else True);
                       s = (if dropped = 0 then get_input_chunk_record_count (e_cio e) c s else s)
                   in case (if chunk_destroy_flag then release_destroy e c s else (False, s)) of
                        (destroyed, s) \<Rightarrow> (Some (if local \<or> destroyed then chunk_size else 0), s)))"

fun release_loop ::
  "'c env \<Rightarrow> addr \<Rightarrow> int \<Rightarrow> release_scope \<Rightarrow> int \<Rightarrow> addr list \<Rightarrow> int \<Rightarrow> 'c flb_config \<Rightarrow> int \<times> 'c flb_config" where
  "release_loop e new out_id scope required [] released s = (released, s)"
| "release_loop e new out_id scope required (c # cs) released s =
     (case release_turn e new out_id scope c s of
        (None, s) \<Rightarrow> release_loop e new out_id scope required cs released s
      | (Some k, s) \<Rightarrow>
          if released + k \<ge> required then (released + k, s)
          else release_loop e new out_id scope required cs (released + k) s)"

text \<open>The space that is still required afterwards; \<open>None\<close>: there is no such input.\<close>

definition flb_input_chunk_release_space ::
  "'c env \<Rightarrow> addr \<Rightarrow> int \<Rightarrow> int \<Rightarrow> int \<Rightarrow> release_scope \<Rightarrow> 'c flb_config \<Rightarrow> (int \<times> 'c flb_config) option" where
  "flb_input_chunk_release_space e new n out_id required scope s =
     (case find_in s n of
        None \<Rightarrow> None
      | Some i \<Rightarrow>
          (case release_loop e new out_id scope required (i_chunks i) 0 s of
             (released, s) \<Rightarrow> Some (required - released, s)))"

text \<open>The loop over the other inputs.\<close>

fun release_others ::
  "'c env \<Rightarrow> addr \<Rightarrow> int \<Rightarrow> int \<Rightarrow> int list \<Rightarrow> int \<Rightarrow> 'c flb_config \<Rightarrow> (int \<times> 'c flb_config) option" where
  "release_others e new out_id own [] required s = Some (required, s)"
| "release_others e new out_id own (n # ns) required s =
     (case (if n \<noteq> own then flb_input_chunk_release_space e new n out_id required SCOPE_LOCAL s
            else Some (required, s)) of
        None \<Rightarrow> None
      | Some (required, s) \<Rightarrow>
          if required \<le> 0 then Some (required, s) else release_others e new out_id own ns required s)"

definition sb_release_output_queue_space :: "int \<Rightarrow> int \<Rightarrow> 'c flb_config \<Rightarrow> int \<times> 'c flb_config" where
  "sb_release_output_queue_space out_id required s = (required, s)"

text \<open>\<open>*local_release_requirement\<close> at the end.\<close>

definition flb_input_chunk_release_space_compound ::
  "'c env \<Rightarrow> addr \<Rightarrow> int \<Rightarrow> bool \<Rightarrow> 'c flb_config \<Rightarrow> (int \<times> 'c flb_config) option" where
  "flb_input_chunk_release_space_compound e new out_id release_local_space s =
     (case chunk_heap s new of
        None \<Rightarrow> None
      | Some ic \<Rightarrow>
          let required = flb_input_chunk_get_real_size (e_cio e) ic
          in (case (if required > 0
                   then flb_input_chunk_release_space e new (storage_input_plugin s) out_id required SCOPE_GLOBAL s
                   else Some (required, s)) of
               None \<Rightarrow> None
             | Some (required, s) \<Rightarrow>
                 (case (if required > 0 then sb_release_output_queue_space out_id required s else (required, s)) of
                    (required, s) \<Rightarrow>
                      (case (if release_local_space \<and> required > 0
                             then flb_input_chunk_release_space e new (ic_in ic) out_id required SCOPE_LOCAL s
                             else Some (required, s)) of
                         None \<Rightarrow> None
                       | Some (required, s) \<Rightarrow>
                           (case (if required > 0
                                  then release_others e new out_id (ic_in ic) (map i_id (cf_inputs s)) required s
                                  else Some (required, s)) of
                              None \<Rightarrow> None
                            | Some (required, s) \<Rightarrow> Some (max required 0, s))))))"

text \<open>
  \<open>1 << o_ins->id\<close> in an \<open>int\<close>; the shift is defined in C for ids below 31.
\<close>

definition overlimit_bit :: "int \<Rightarrow> u32" where
  "overlimit_bit out_id = push_bit (nat out_id) 1"

definition flb_input_chunk_find_space_new_data ::
  "'c env \<Rightarrow> addr \<Rightarrow> u32 \<Rightarrow> 'c flb_config \<Rightarrow> (nat \<times> 'c flb_config) option" where
  "flb_input_chunk_find_space_new_data e new overlimit s =
     fold_opt (\<lambda>n (failed, s).
         case (flb_output_get_instance s n, chunk_heap s new) of
           (Some out, Some ic) \<Rightarrow>
             if no_limit out \<or> overlimit_bit n AND overlimit = 0
                \<or> \<not> flb_routes_mask_get_bit (ic_routes_mask ic) n (routes_cfg s)
             then Some (failed, s)
             else map_option (\<lambda>(requirement, s). (if requirement \<noteq> 0 then failed + 1 else failed, s))
                    (flb_input_chunk_release_space_compound e new n True s)
         | _ \<Rightarrow> Some (failed, s)) (map o_id (cf_outputs s)) (0, s)"

definition flb_input_chunk_has_overlimit_routes :: "'c flb_input_chunk \<Rightarrow> size_t \<Rightarrow> 'c flb_config \<Rightarrow> u32" where
  "flb_input_chunk_has_overlimit_routes ic chunk_size s =
     fold (\<lambda>out overlimit.
             if no_limit out \<or> \<not> flb_routes_mask_get_bit (ic_routes_mask ic) (o_id out) (routes_cfg s) then overlimit
             else if o_fs_chunks_size out + o_fs_backlog_chunks_size out + chunk_size > o_total_limit_size out
             then overlimit OR overlimit_bit (o_id out) else overlimit) (cf_outputs s) 0"

definition flb_input_chunk_place_new_chunk ::
  "'c env \<Rightarrow> addr \<Rightarrow> size_t \<Rightarrow> 'c flb_config \<Rightarrow> (bool \<times> 'c flb_config) option" where
  "flb_input_chunk_place_new_chunk e new chunk_size s =
     (case chunk_heap s new of
        None \<Rightarrow> None
      | Some ic \<Rightarrow>
          (case find_in s (ic_in ic) of
             None \<Rightarrow> None
           | Some i \<Rightarrow>
               let overlimit = (if i_storage_type i = STORAGE_FS
                                then flb_input_chunk_has_overlimit_routes ic chunk_size s else 0)
               in (case (if overlimit \<noteq> 0 then flb_input_chunk_find_space_new_data e new overlimit s
                        else Some (0, s)) of
                    None \<Rightarrow> None
                  | Some (failed, s) \<Rightarrow>
                      if failed \<noteq> 0 then Some (False, s)
                      else Some ((case chunk_heap s new of
                                    None \<Rightarrow> False
                                  | Some ic \<Rightarrow> \<not> flb_routes_mask_is_empty (ic_routes_mask ic) (routes_cfg s)), s))))"

section \<open>The chunk for some data\<close>

text \<open>The chunk the index of the input has for a tag.\<close>

definition chunk_lookup ::
  "'c env \<Rightarrow> int \<Rightarrow> flb_input \<Rightarrow> int \<Rightarrow> cstring \<Rightarrow> 'c flb_config \<Rightarrow> addr option \<times> 'c flb_config" where
  "chunk_lookup e n i event_type tag s =
     (case chunk_index event_type i of
        None \<Rightarrow> (None, s)
      | Some ht \<Rightarrow>
          (case flb_hash_table_get (\<lambda>_. True) (e_hash e) (e_now e) ht (Some tag) (int (length tag)) of
             (r, ht) \<Rightarrow>
               ((case r of None \<Rightarrow> None | Some (_, v, _) \<Rightarrow> val_ptr v),
                upd_in n (chunk_index_upd event_type (\<lambda>_. ht)) s)))"

text \<open>Whether that chunk takes more data; it is brought up. With it goes \<open>*set_down\<close>.\<close>

definition chunk_reuse ::
  "'c env \<Rightarrow> addr \<Rightarrow> 'c flb_input_chunk \<Rightarrow> cstring \<Rightarrow> 'c flb_config \<Rightarrow> (addr option \<times> bool) \<times> 'c flb_config" where
  "chunk_reuse e a ic tag s =
     (if ic_busy ic \<or> cio_chunk_is_locked (e_cio e) (ic_chunk ic) then ((None, False), s)
      else if \<not> cio_chunk_is_up (e_cio e) (ic_chunk ic)
      then (case cio_chunk_up_force (e_cio e) (ic_chunk ic) of
              (ret, c) \<Rightarrow>
                let s = upd_chunk a (\<lambda>ic. ic\<lparr>ic_chunk := c\<rparr>) s
                in if ret = CIO_CORRUPTED
                   then ((None, True),
                         snd (flb_input_chunk_destroy_corrupted (e_cio e) (e_hash e) a (Some tag)
                                (storage_del_bad_chunks s) s))
                   else if ret \<noteq> CIO_OK then ((None, True), s)
                   else ((Some a, True), s))
      else ((Some a, False), s))"

text \<open>The check of the limits for a chunk that was found or created.\<close>

definition chunk_admit ::
  "'c env \<Rightarrow> addr \<Rightarrow> bool \<Rightarrow> size_t \<Rightarrow> 'c flb_config \<Rightarrow> (addr option \<times> 'c flb_config) option" where
  "chunk_admit e a new_chunk chunk_size s =
     (case chunk_heap s a of
        None \<Rightarrow> None
      | Some c \<Rightarrow>
          if flb_routes_mask_is_empty (ic_routes_mask c) (routes_cfg s) then Some (Some a, s)
          else (case flb_input_chunk_place_new_chunk e a chunk_size s of
                  None \<Rightarrow> None
                | Some (placed, s) \<Rightarrow>
                    if placed then Some (Some a, s)
                    else if new_chunk
                            \<or> (case chunk_heap s a of
                                  None \<Rightarrow> False
                                | Some c \<Rightarrow> flb_routes_mask_is_empty (ic_routes_mask c) (routes_cfg s))
                    then Some (None, snd (flb_input_chunk_destroy (e_cio e) (e_hash e) a True s))
                    else Some (None, s)))"

text \<open>\<open>None\<close>: the index points to a chunk that is not there.\<close>

definition input_chunk_get ::
  "'c env \<Rightarrow> int \<Rightarrow> int \<Rightarrow> cstring \<Rightarrow> size_t \<Rightarrow> 'c flb_config \<Rightarrow>
     ((addr option \<times> bool) \<times> 'c flb_config) option" where
  "input_chunk_get e n event_type tag chunk_size s =
     (case find_in s n of
        None \<Rightarrow> None
      | Some i \<Rightarrow>
          let tag = take FLB_INPUT_CHUNK_TAG_MAX tag;
              (found, s) = chunk_lookup e n i event_type tag s
          in (case (case found of
                      None \<Rightarrow> Some ((None, False), s)
                    | Some a \<Rightarrow>
                        (case chunk_heap s a of
                           None \<Rightarrow> None
                         | Some ic \<Rightarrow> Some (chunk_reuse e a ic tag s))) of
                None \<Rightarrow> None
              | Some ((reused, set_down), s) \<Rightarrow>
                  (case (case reused of
                           Some a \<Rightarrow> (Some a, s)
                         | None \<Rightarrow> flb_input_chunk_create e n event_type tag s) of
                     (None, s) \<Rightarrow> Some ((None, set_down), s)
                   | (Some a, s) \<Rightarrow>
                       (case chunk_admit e a (reused = None) chunk_size s of
                          None \<Rightarrow> None
                        | Some (r, s) \<Rightarrow> Some ((r, set_down), s)))))"

section \<open>Filters\<close>

definition FLB_FILTER_MODIFIED :: int where "FLB_FILTER_MODIFIED = 1"

fun is_active :: "(cstring \<times> cstring) list \<Rightarrow> bool" where
  "is_active [] = True"
| "is_active ((k, v) # kvs) =
     (if strcasecmp_eq k ''active'' \<and> (strcasecmp_eq v ''FALSE'' \<or> strcmp_eq v ''0'') then False else is_active kvs)"

text \<open>
  The loop over the filters: the buffer, and the value of \<open>ic->total_records\<close>. A filter that leaves no
  data ends the loop.
\<close>

fun filter_loop ::
  "'c env \<Rightarrow> cstring \<Rightarrow> int \<Rightarrow> flb_filter list \<Rightarrow> cstring \<Rightarrow> int \<Rightarrow> cstring \<times> int" where
  "filter_loop e tag pre_records [] work total_records = (work, total_records)"
| "filter_loop e tag pre_records (f # fs) work total_records =
     (if \<not> is_active (f_properties f) then filter_loop e tag pre_records fs work total_records
      else if flb_router_match (e_onig e) (Some tag) (int (length tag)) (f_match f) (f_match_regex f)
      then case f_cb_filter f work tag of
             (ret, out) \<Rightarrow>
               if ret = FLB_FILTER_MODIFIED
               then if out = [] then ([], pre_records)
                    else filter_loop e tag pre_records fs out (pre_records + e_mp_count e out)
               else filter_loop e tag pre_records fs work total_records
      else filter_loop e tag pre_records fs work total_records)"

text \<open>Without memory for the copy of the tag the output stays empty.\<close>

definition flb_filter_do ::
  "'c env \<Rightarrow> 'c flb_input_chunk \<Rightarrow> cstring \<Rightarrow> cstring \<Rightarrow> 'c flb_config \<Rightarrow> cstring \<times> 'c flb_input_chunk" where
  "flb_filter_do e ic data tag s =
     (if \<not> e_alloc e A_ntag (length tag) then ([], ic)
      else let pre_records = ic_total_records ic - ic_added_records ic
           in case filter_loop e tag pre_records (cf_filters s) data (ic_total_records ic) of
                (out, total_records) \<Rightarrow> (out, ic\<lparr>ic_total_records := total_records\<rparr>))"

section \<open>Appending data\<close>

text \<open>
  The space of a ring buffer in memory. The signed sum of the released sizes is compared as an unsigned
  number.
\<close>

fun memrb_loop ::
  "'c env \<Rightarrow> size_t \<Rightarrow> addr list \<Rightarrow> size_t \<Rightarrow> 'c flb_config \<Rightarrow> size_t \<times> 'c flb_config" where
  "memrb_loop e required [] released s = (released, s)"
| "memrb_loop e required (c # cs) released s =
     (case chunk_heap s c of
        None \<Rightarrow> memrb_loop e required cs released s
      | Some ic \<Rightarrow>
          if \<not> flb_input_chunk_is_task_safe_delete (ic_task ic) s then memrb_loop e required cs released s
          else let chunk_size = flb_input_chunk_get_real_size (e_cio e) ic
               in case release_destroy e c s of
                    (destroyed, s) \<Rightarrow>
                      let released = (if destroyed then released + word_of_int chunk_size else released)
                      in if released \<ge> required then (released, s) else memrb_loop e required cs released s)"

definition memrb_input_chunk_release_space ::
  "'c env \<Rightarrow> flb_input \<Rightarrow> size_t \<Rightarrow> 'c flb_config \<Rightarrow> int \<times> 'c flb_config" where
  "memrb_input_chunk_release_space e i required s =
     (case memrb_loop e required (i_chunks i) 0 s of
        (released, s) \<Rightarrow> (if released \<ge> required then 0 else -1, s))"

definition flb_input_buf_paused :: "flb_input \<Rightarrow> bool" where
  "flb_input_buf_paused i \<longleftrightarrow> mem_buf_paused i \<or> storage_buf_paused i"

definition FLB_INPUT_CHUNK_FS_MAX_SIZE :: nat where "FLB_INPUT_CHUNK_FS_MAX_SIZE = 2048000"

definition flb_input_chunk_write :: "'c cio \<Rightarrow> 'c flb_input_chunk \<Rightarrow> cstring \<Rightarrow> int \<times> 'c flb_input_chunk" where
  "flb_input_chunk_write cio ic buf =
     (case cio_chunk_write cio (ic_chunk ic) buf of (ret, c) \<Rightarrow> (ret, ic\<lparr>ic_chunk := c\<rparr>))"

text \<open>The tag of the data: of the caller, of the instance, or its name.\<close>

definition append_tag :: "flb_input \<Rightarrow> cstring option \<Rightarrow> cstring" where
  "append_tag i tag =
     (case tag of
        Some t \<Rightarrow> t
      | None \<Rightarrow> (case i_tag i of
                   Some t \<Rightarrow> if i_tag_len i > 0 then take (nat (i_tag_len i)) t else i_name i
                 | None \<Rightarrow> i_name i))"

text \<open>
  The part that counts, filters and writes the data, on a chunk that is up: the result of the write,
  and the chunk after it.
\<close>

definition append_write ::
  "'c env \<Rightarrow> int \<Rightarrow> int \<Rightarrow> cstring \<Rightarrow> cstring \<Rightarrow> 'c flb_config \<Rightarrow> 'c flb_input_chunk \<Rightarrow> int \<times> 'c flb_input_chunk" where
  "append_write e event_type n_records tag buf s ic =
     (let start = ic_total_records ic;
          ic = ic\<lparr>ic_added_records := n_records, ic_total_records := ic_total_records ic + n_records\<rparr>;
          (final, ic) = (if event_type = FLB_INPUT_LOGS then flb_filter_do e ic buf tag s else (buf, ic));
          (ret, ic) = (if length final > 0 then flb_input_chunk_write (e_cio e) ic final else (0, ic));
          ic = (if ret \<noteq> CIO_OK then ic\<lparr>ic_added_records := 0, ic_total_records := start\<rparr> else ic);
          ic = (if ret = -1 then ic\<lparr>ic_chunk := cio_chunk_tx_rollback (e_cio e) (ic_chunk ic)\<rparr> else ic)
      in (ret, ic))"

text \<open>
  What follows the write. A chunk of an input that is over its limit goes down when less than a hundredth
  of its size is free; the difference is computed in \<open>size_t\<close>.
\<close>

definition append_unload :: "'c cio \<Rightarrow> int \<Rightarrow> addr \<Rightarrow> 'c flb_config \<Rightarrow> 'c flb_config" where
  "append_unload cio n a s =
     (case (find_in s n, chunk_heap s a) of
        (Some i, Some ic) \<Rightarrow>
          if flb_input_chunk_is_mem_overlimit i \<and> i_storage_type i = STORAGE_FS \<and> cio_chunk_is_up cio (ic_chunk ic)
             \<and> of_nat FLB_INPUT_CHUNK_FS_MAX_SIZE
                 - (word_of_int (cio_chunk_get_content_size cio (ic_chunk ic)) :: size_t) < 20480
          then upd_chunk a (\<lambda>ic. ic\<lparr>ic_chunk := snd (cio_chunk_down cio (ic_chunk ic))\<rparr>) s
          else s
      | _ \<Rightarrow> s)"

definition append_account :: "'c cio \<Rightarrow> addr \<Rightarrow> size_t \<Rightarrow> 'c flb_config \<Rightarrow> 'c flb_config" where
  "append_account cio a pre_real_size s =
     (case chunk_heap s a of
        None \<Rightarrow> s
      | Some ic \<Rightarrow>
          let real_diff = word_of_int (flb_input_chunk_get_real_size cio ic) - pre_real_size
          in if real_diff \<noteq> 0 then flb_input_chunk_update_output_instances a real_diff s else s)"

definition append_finish ::
  "'c env \<Rightarrow> int \<Rightarrow> addr \<Rightarrow> bool \<Rightarrow> size_t \<Rightarrow> 'c flb_config \<Rightarrow> 'c flb_config" where
  "append_finish e n a set_down pre_real_size s =
     (case (find_in s n, chunk_heap s a) of
        (Some i, Some ic) \<Rightarrow>
          let cio = e_cio e;
              content_size = word_of_int (cio_chunk_get_content_size cio (ic_chunk ic)) :: size_t;
              s = (if content_size > of_nat FLB_INPUT_CHUNK_FS_MAX_SIZE
                   then upd_chunk a (\<lambda>ic. ic\<lparr>ic_chunk := cio_chunk_lock cio (ic_chunk ic)\<rparr>) s else s)
          in if content_size = 0
             then snd (flb_input_chunk_set_limits cio n (snd (flb_input_chunk_destroy cio (e_hash e) a True s)))
             else
               let s = (if set_down
                        then upd_chunk a (\<lambda>ic. ic\<lparr>ic_chunk := snd (cio_chunk_down cio (ic_chunk ic))\<rparr>) s else s)
               in if \<not> i_routable i then snd (flb_input_chunk_destroy cio (e_hash e) a True s)
                  else let s = snd (flb_input_chunk_set_limits cio n s);
                           s = append_account cio a pre_real_size (append_unload cio n a s)
                       in snd (flb_input_chunk_protect cio n s)
      | _ \<Rightarrow> s)"

text \<open>The part with the chunk that \<open>input_chunk_get\<close> returned.\<close>

definition append_chunk ::
  "'c env \<Rightarrow> int \<Rightarrow> int \<Rightarrow> int \<Rightarrow> cstring \<Rightarrow> cstring \<Rightarrow> addr \<Rightarrow> bool \<Rightarrow> 'c flb_input_chunk \<Rightarrow>
     'c flb_config \<Rightarrow> int \<times> 'c flb_config" where
  "append_chunk e n event_type n_records tag buf a set_down ic s =
     (let cio = e_cio e;
          new_chunk = (flb_input_chunk_get_size cio ic = 0);
          down = (\<not> cio_chunk_is_up cio (ic_chunk ic));
          (up, c) = (if down then cio_chunk_up_force cio (ic_chunk ic) else (0, ic_chunk ic));
          ic = ic\<lparr>ic_chunk := c\<rparr>
      in if down \<and> up = -1 then (-1, upd_chunk a (\<lambda>_. ic) s)
         else let set_down = (set_down \<or> down);
                  pre_real_size = (if new_chunk then 0 else word_of_int (flb_input_chunk_get_real_size cio ic));
                  (ret, ic) = append_write e event_type n_records tag buf s ic;
                  s = upd_chunk a (\<lambda>_. ic) s
              in if ret = -1 then (-1, s) else (0, append_finish e n a set_down pre_real_size s))"

definition input_chunk_append_raw ::
  "'c env \<Rightarrow> int \<Rightarrow> int \<Rightarrow> int \<Rightarrow> cstring option \<Rightarrow> cstring \<Rightarrow> 'c flb_config \<Rightarrow> (int \<times> 'c flb_config) option" where
  "input_chunk_append_raw e n event_type n_records tag buf s =
     (case find_in s n of
        None \<Rightarrow> None
      | Some i \<Rightarrow>
          let buf_size = of_nat (length buf) :: size_t;
              (ret, s) = (if i_storage_type i = STORAGE_MEMRB \<and> flb_input_chunk_is_mem_overlimit i
                          then memrb_input_chunk_release_space e i buf_size s else (0, s))
          in if ret \<noteq> 0 then Some (-1, s)
             else if (case find_in s n of None \<Rightarrow> False | Some i \<Rightarrow> flb_input_buf_paused i) then Some (-1, s)
             else if buf_size = 0 then Some (-1, s)
             else (case input_chunk_get e n event_type (append_tag i tag) buf_size s of
                     None \<Rightarrow> None
                   | Some ((None, _), s) \<Rightarrow> Some (-1, s)
                   | Some ((Some a, set_down), s) \<Rightarrow>
                       (case chunk_heap s a of
                          None \<Rightarrow> None
                        | Some ic \<Rightarrow>
                            Some (append_chunk e n event_type n_records (append_tag i tag) buf a set_down ic s))))"

section \<open>What every turn of a release keeps\<close>

text \<open>
  All ways to make room for a chunk are sequences of turns of one loop. What a turn keeps, they keep.
\<close>

locale release_invariant =
  fixes e :: "'c env" and new :: addr and P :: "'c flb_config \<Rightarrow> bool"
  assumes turn: "P s \<Longrightarrow> P (snd (release_turn e new n scope c s))"
begin

lemma loop: "P s \<Longrightarrow> P (snd (release_loop e new n scope required cs released s))"
proof (induction cs arbitrary: released s)
  case (Cons c cs)
  obtain r s1 where s1: "release_turn e new n scope c s = (r, s1)" by fastforce
  have "P s1" using turn [OF Cons.prems, of n scope c] s1 by simp
  then show ?case using Cons.IH by (auto simp: s1 split: option.split)
qed simp

lemma space: "flb_input_chunk_release_space e new m n required scope s = Some (k, s') \<Longrightarrow> P s \<Longrightarrow> P s'"
  using loop [of s n scope required _ 0]
  by (fastforce simp: flb_input_chunk_release_space_def case_prod_beta split: option.splits)

lemma others: "release_others e new n own ms required s = Some (k, s') \<Longrightarrow> P s \<Longrightarrow> P s'"
proof (induction ms arbitrary: required s)
  case (Cons m ms)
  obtain k1 s1 where s1: "(if m \<noteq> own then flb_input_chunk_release_space e new m n required SCOPE_LOCAL s
      else Some (required, s)) = Some (k1, s1)" and rest: "s' = s1 \<or> release_others e new n own ms k1 s1 = Some (k, s')"
    using Cons.prems(1) by (auto split: option.splits if_splits)
  have "P s1" using s1 space Cons.prems(2) by (auto split: if_splits)
  then show ?case using rest Cons.IH by blast
qed simp

lemma compound: "flb_input_chunk_release_space_compound e new n l s = Some (k, s') \<Longrightarrow> P s \<Longrightarrow> P s'"
  unfolding flb_input_chunk_release_space_compound_def sb_release_output_queue_space_def Let_def
  by (auto dest!: space others split: option.splits if_splits)

lemma find_space:
  assumes "flb_input_chunk_find_space_new_data e new overlimit s = Some (k, s')" and "P s"
  shows "P s'"
proof -
  let ?f = "\<lambda>n (failed, s).
         case (flb_output_get_instance s n, chunk_heap s new) of
           (Some out, Some ic) \<Rightarrow>
             if no_limit out \<or> overlimit_bit n AND overlimit = 0
                \<or> \<not> flb_routes_mask_get_bit (ic_routes_mask ic) n (routes_cfg s)
             then Some (failed, s)
             else map_option (\<lambda>(requirement, s). (if requirement \<noteq> 0 then failed + 1 else failed, s))
                    (flb_input_chunk_release_space_compound e new n True s)
         | _ \<Rightarrow> Some (failed, s)"
  have step: "P s1" if "?f n (failed, s) = Some (failed', s1)" and "P s" for n failed failed' s s1
    using that compound by (fastforce split: option.splits if_splits)
  have "P s1" if "fold_opt ?f ns (failed, s) = Some (k, s1)" and "P s" for ns failed s s1
    using that
  proof (induction ns arbitrary: failed s)
    case (Cons n ns)
    obtain f1 s0 where "?f n (failed, s) = Some (f1, s0)" "fold_opt ?f ns (f1, s0) = Some (k, s1)"
      using Cons.prems(1) by (cases "?f n (failed, s)") auto
    then show ?case using Cons.IH step Cons.prems(2) by blast
  qed simp
  then show ?thesis using assms unfolding flb_input_chunk_find_space_new_data_def by blast
qed

lemma place: "flb_input_chunk_place_new_chunk e new sz s = Some (b, s') \<Longrightarrow> P s \<Longrightarrow> P s'"
  using find_space by (fastforce simp: flb_input_chunk_place_new_chunk_def Let_def split: option.splits if_splits)

end

end
