(* ===== verification/Chunk_Data.thy ===== *)
theory Chunk_Data
  imports Chunk_Ingest
begin

text \<open>
  What a chunk says about its data: the header it starts with, the outputs its mask names, and the number of
  records it counts.

  Chunk I/O is described by what its functions return: metadata that was written is read back, and a write that
  succeeds appends to the content while one that fails leaves it alone.
\<close>

section \<open>Header\<close>

lemma chunk_meta_magic: "input_chunk_has_magic_bytes (chunk_meta ty tag)"
  by (simp add: input_chunk_has_magic_bytes_def chunk_meta_def FLB_INPUT_CHUNK_META_HEADER_def)

lemma chunk_meta_tag:
  "drop FLB_INPUT_CHUNK_META_HEADER (chunk_meta ty tag) = take FLB_INPUT_CHUNK_TAG_MAX tag"
  by (simp add: chunk_meta_def FLB_INPUT_CHUNK_META_HEADER_def)

lemma chunk_meta_type:
  "flb_input_chunk_get_event_type cio ic =
     (if ty \<in> {FLB_INPUT_LOGS, FLB_INPUT_METRICS, FLB_INPUT_TRACES, FLB_INPUT_PROFILES} then ty else FLB_INPUT_LOGS)"
  if "cio_meta_read cio (ic_chunk ic) = Some (chunk_meta ty tag)"
  using that chunk_meta_magic [of ty tag]
  by (auto simp: flb_input_chunk_get_event_type_def Let_def chunk_meta_def event_type_defs)


text \<open>Storage that keeps the metadata and the content of a chunk.\<close>

definition pair_cio :: "(cstring \<times> cstring) cio" where
  "pair_cio = \<lparr>cio_chunk_is_up = (\<lambda>_. True), cio_chunk_up = (\<lambda>c. (0, c)), cio_chunk_up_force = (\<lambda>c. (0, c)),
     cio_chunk_down = (\<lambda>c. (0, c)), cio_chunk_lock = (\<lambda>c. c), cio_chunk_get_content = (\<lambda>c. Some (Some (snd c))),
     cio_chunk_get_content_size = (\<lambda>c. int (length (snd c))), cio_chunk_get_real_size = (\<lambda>c. int (length (snd c))),
     cio_meta_size = (\<lambda>c. int (length (fst c))), cio_meta_read = (\<lambda>c. Some (fst c)), cio_max_chunks_up = 128,
     cio_chunk_open = (\<lambda>_. Some ([], [])), cio_chunk_is_locked = (\<lambda>_. False),
     cio_meta_write = (\<lambda>c m. (0, (m, snd c))), cio_chunk_write = (\<lambda>c buf. (0, (fst c, snd c @ buf))),
     cio_chunk_tx_rollback = (\<lambda>c. c)\<rparr>"

definition pair_env :: "(cstring \<times> cstring) env" where
  "pair_env = \<lparr>e_cio = pair_cio, e_hash = (\<lambda>_. 0), e_timeout = (\<lambda>_ _ _. 7), e_rand = (\<lambda>_. 0),
     e_now = 100, e_alloc = (\<lambda>_ _. True), e_junk = (\<lambda>_. ROUTE_INACTIVE), e_pipe = (\<lambda>_ _. True),
     e_process = (\<lambda>_ evc. Some evc), e_onig = (\<lambda>_ _. -1), e_mp_count = (\<lambda>buf. int (length buf))\<rparr>"

definition pair_chunk :: "cstring \<times> cstring \<Rightarrow> (cstring \<times> cstring) flb_input_chunk" where
  "pair_chunk c = \<lparr>ic_event_type = 0, ic_fs_counted = False, ic_busy = False, ic_fs_backlog = False,
     ic_total_records = int (length (snd c)), ic_added_records = 0, ic_chunk = c, ic_in = 0, ic_task = None,
     ic_routes_mask = [1]\<rparr>"

lemmas pair_defs = pair_cio_def pair_env_def pair_chunk_def


text \<open>A chunk of blobs has the header of a chunk of logs.\<close>

lemma blob_header_is_log_header: "chunk_meta FLB_INPUT_BLOBS tag = chunk_meta FLB_INPUT_LOGS tag"
  by (simp add: chunk_meta_def event_type_defs)

section \<open>Routes\<close>

lemma match_glob:
  "flb_router_match onig (Some tag) (int (length tag)) m r \<longleftrightarrow>
     (\<exists>x. r = Some x \<and> 0 < onig x tag) \<or> (\<exists>p. m = Some p \<and> glob p tag)"
  by (auto simp: flb_router_match_def router_match_def Let_def rm_correct split: option.split)

lemma set_by_tag_eq:
  fixes s :: "'c flb_config"
  defines "hit \<equiv> \<lambda>onig tag out. flb_router_match onig (Some tag) (int (length tag)) (o_match out) (o_match_regex out)"
  shows "flb_routes_mask_set_by_tag onig tag s =
    (\<exists>out \<in> set (cf_outputs s). hit onig tag out,
     fold (\<lambda>v m. flb_routes_mask_set_bit m v (routes_cfg s)) (map o_id (filter (hit onig tag) (cf_outputs s)))
       (fresh_mask (routes_cfg s)))"
proof -
  have "fold (\<lambda>out (has_routes, m).
             if hit onig tag out then (True, flb_routes_mask_set_bit m (o_id out) (routes_cfg s))
             else (has_routes, m)) os (h, m)
    = (h \<or> (\<exists>out \<in> set os. hit onig tag out),
       fold (\<lambda>v m. flb_routes_mask_set_bit m v (routes_cfg s)) (map o_id (filter (hit onig tag) os)) m)" for os h m
    by (induction os arbitrary: h m) auto
  from this [of "cf_outputs s" False] show ?thesis by (simp add: flb_routes_mask_set_by_tag_def hit_def)
qed

text \<open>The state after the creation of a chunk; \<open>f\<close> adds the chunk to the index of its input.\<close>

lemma chunk_create_shape:
  assumes "flb_input_chunk_create e n ty tag s = (Some a, s')"
  shows "\<exists>c f. a = ic_next s \<and> s' = upd_in n (\<lambda>i. chunk_index_upd ty f (i\<lparr>i_chunks := i_chunks i @ [a]\<rparr>))
    (s\<lparr>chunk_heap := (chunk_heap s)(a \<mapsto> \<lparr>ic_event_type = ty, ic_fs_counted = False, ic_busy = False,
         ic_fs_backlog = False, ic_total_records = 0, ic_added_records = 0, ic_chunk = c, ic_in = n, ic_task = None,
         ic_routes_mask = snd (flb_routes_mask_set_by_tag (e_onig e) tag s)\<rparr>), ic_next := Suc a\<rparr>)"
  using assms unfolding flb_input_chunk_create_def Let_def
  by (auto split: option.splits prod.splits if_splits)

text \<open>
  C11: A new chunk is routed by its tag: it gets an address no other chunk has, joins the chunks of its input, has no task,
  and its mask names exactly the outputs whose pattern or regular expression accepts the tag.
\<close>

theorem chunk_routes_by_tag:
  assumes "flb_input_chunk_create e n ty tag s = (Some a, s')" and "wf_routes (routes_cfg s)"
    and "\<forall>out \<in> set (cf_outputs s). valid_id (routes_cfg s) (o_id out) \<and> o_id out < 2 ^ 31" and "v < 2 ^ 31"
  shows "\<exists>ic. chunk_heap s' a = Some ic \<and> ic_task ic = None \<and> a = ic_next s
    \<and> (\<forall>i \<in> set (cf_inputs s'). i_id i = n \<longrightarrow> a \<in> set (i_chunks i))
    \<and> (flb_routes_mask_get_bit (ic_routes_mask ic) v (routes_cfg s) \<longleftrightarrow>
        (\<exists>out \<in> set (cf_outputs s). o_id out = v
           \<and> ((\<exists>r. o_match_regex out = Some r \<and> 0 < e_onig e r tag) \<or> (\<exists>p. o_match out = Some p \<and> glob p tag))))"
proof -
  let ?hit = "\<lambda>out. flb_router_match (e_onig e) (Some tag) (int (length tag)) (o_match out) (o_match_regex out)"
  let ?m = "snd (flb_routes_mask_set_by_tag (e_onig e) tag s)" and ?ids = "map o_id (filter ?hit (cf_outputs s))"
  have mask: "flb_routes_mask_get_bit ?m v (routes_cfg s) \<longleftrightarrow> valid_id (routes_cfg s) v \<and> v \<in> set ?ids"
    using mask.has_fold_put [of "routes_cfg s" ?ids v "fresh_mask (routes_cfg s)"] assms(2-4)
      get_fresh_mask [OF assms(2,4)] by (simp add: set_by_tag_eq)
  have index: "i_chunks (chunk_index_upd ty f i) = i_chunks i" "i_id (chunk_index_upd ty f i) = i_id i" for f i
    by (simp_all add: chunk_index_upd_def)
  obtain ic where ic: "chunk_heap s' a = Some ic" "ic_task ic = None" "ic_routes_mask ic = ?m" "a = ic_next s"
    "\<forall>i \<in> set (cf_inputs s'). i_id i = n \<longrightarrow> a \<in> set (i_chunks i)"
  proof -
    obtain c f where a: "a = ic_next s" and s': "s' = upd_in n (\<lambda>i. chunk_index_upd ty f (i\<lparr>i_chunks := i_chunks i @ [a]\<rparr>))
      (s\<lparr>chunk_heap := (chunk_heap s)(a \<mapsto> \<lparr>ic_event_type = ty, ic_fs_counted = False, ic_busy = False,
           ic_fs_backlog = False, ic_total_records = 0, ic_added_records = 0, ic_chunk = c, ic_in = n, ic_task = None,
           ic_routes_mask = ?m\<rparr>), ic_next := Suc a\<rparr>)" using chunk_create_shape [OF assms(1)] by blast
    have "chunk_heap s' a \<noteq> None" by (simp add: s' upd_in_def)
    then obtain ic where ic: "chunk_heap s' a = Some ic" by blast
    moreover have "ic_task ic = None" "ic_routes_mask ic = ?m" using ic by (auto simp: s' upd_in_def)
    moreover have "\<forall>i \<in> set (cf_inputs s'). i_id i = n \<longrightarrow> a \<in> set (i_chunks i)"
    proof (intro ballI impI)
      fix i
      assume i: "i \<in> set (cf_inputs s')" "i_id i = n"
      have "i \<in> (\<lambda>x. if i_id x = n then chunk_index_upd ty f (x\<lparr>i_chunks := i_chunks x @ [a]\<rparr>) else x) ` set (cf_inputs s)"
        using i(1) by (simp only: s' upd_in_def) simp
      then obtain x where "i = (if i_id x = n then chunk_index_upd ty f (x\<lparr>i_chunks := i_chunks x @ [a]\<rparr>) else x)" by blast
      then show "a \<in> set (i_chunks i)" using \<open>i_id i = n\<close> by (cases "i_id x = n") (simp_all add: index)
    qed
    ultimately show thesis using that a by blast
  qed
  have "v \<in> set ?ids \<longleftrightarrow> (\<exists>out \<in> set (cf_outputs s). o_id out = v
      \<and> ((\<exists>r. o_match_regex out = Some r \<and> 0 < e_onig e r tag) \<or> (\<exists>p. o_match out = Some p \<and> glob p tag)))"
    by (auto simp: match_glob)
  moreover have "valid_id (routes_cfg s) v" if "v \<in> set ?ids" using assms(3) that by auto
  ultimately show ?thesis using mask ic by auto
qed

definition pair_output :: "int \<Rightarrow> cstring \<Rightarrow> flb_output" where
  "pair_output n pat = sample_output\<lparr>o_id := n, o_match := Some pat\<rparr>"

definition pair_config :: "(cstring \<times> cstring) flb_config" where
  "pair_config = \<lparr>requests = [], requests_wait = [], timers = [], timers_drop = [], timer_coro_list = [],
     timer_coro_list_drop = [], frame_fd = 0, sched_base = 5, sched_cap = 2000, is_shutting_down = False,
     sched_brk = 10, routes_cfg = \<lparr>route_mask_size = 1, route_mask_slots = 64, route_empty_mask = Some [0]\<rparr>,
     cf_inputs = [sample_input\<lparr>i_chunks := []\<rparr>], cf_outputs = [pair_output 0 ''app.*'', pair_output 1 ''db.*''],
     chunk_heap = Map.empty, task_heap = Map.empty, retry_heap = Map.empty, task_map = [], is_running = True,
     is_ingestion_active = True, cf_filters = [], storage_input_plugin = 0, storage_del_bad_chunks = False,
     ic_next = 1\<rparr>"

lemma chunk_routes_by_tag_witness:
  "\<exists>ic. chunk_heap (snd (flb_input_chunk_create pair_env 0 FLB_INPUT_LOGS ''app.log'' pair_config)) 1 = Some ic
     \<and> flb_routes_mask_get_bit (ic_routes_mask ic) 0 (routes_cfg pair_config)
     \<and> \<not> flb_routes_mask_get_bit (ic_routes_mask ic) 1 (routes_cfg pair_config)"
proof -
  obtain s' where s': "flb_input_chunk_create pair_env 0 FLB_INPUT_LOGS ''app.log'' pair_config = (Some 1, s')"
    by (simp add: flb_input_chunk_create_def input_chunk_write_header_def pair_env_def pair_cio_def pair_config_def)
  have wf: "wf_routes (routes_cfg pair_config)" by (simp add: wf_routes_def pair_config_def)
  have ids: "\<forall>out \<in> set (cf_outputs pair_config). valid_id (routes_cfg pair_config) (o_id out) \<and> o_id out < 2 ^ 31"
    by (simp add: pair_config_def pair_output_def valid_id_def)
  have "rm_loop ''app.*'' ''app.log''" "\<not> rm_loop ''db.*'' ''app.log''" by code_simp+
  then have glob: "glob ''app.*'' ''app.log''" "\<not> glob ''db.*'' ''app.log''" unfolding rm_correct by blast+
  note C = chunk_routes_by_tag [OF s' wf ids]
  show ?thesis using C [of 0] C [of 1] glob s' by (auto simp: pair_config_def pair_output_def pair_env_def sample_output_def)
qed

section \<open>Filters and records\<close>

text \<open>The data after one filter, and after all of them; a filter sees no empty data.\<close>

definition filter_once :: "'c env \<Rightarrow> cstring \<Rightarrow> flb_filter \<Rightarrow> cstring \<Rightarrow> cstring" where
  "filter_once e tag f d =
     (if d \<noteq> [] \<and> is_active (f_properties f)
         \<and> flb_router_match (e_onig e) (Some tag) (int (length tag)) (f_match f) (f_match_regex f)
         \<and> fst (f_cb_filter f d tag) = FLB_FILTER_MODIFIED
      then snd (f_cb_filter f d tag) else d)"

definition filtered :: "'c env \<Rightarrow> cstring \<Rightarrow> flb_filter list \<Rightarrow> cstring \<Rightarrow> cstring" where
  "filtered e tag fs d = fold (filter_once e tag) fs d"

lemma filtered_nil: "filtered e tag fs [] = []"
  by (induction fs) (simp_all add: filtered_def filter_once_def)

lemma filter_loop_chain:
  assumes "d \<noteq> []" and "k = pre + e_mp_count e d" and "e_mp_count e [] = 0"
  shows "filter_loop e tag pre fs d k = (filtered e tag fs d, pre + e_mp_count e (filtered e tag fs d))"
  using assms(1,2)
proof (induction fs arbitrary: d k)
  case (Cons f fs)
  then show ?case
    using filtered_nil [of e tag fs] assms(3)
    by (cases "f_cb_filter f d tag") (auto simp: filtered_def filter_once_def)
qed (simp add: filtered_def)


text \<open>A filter that removes the first record, records being single bytes.\<close>

definition drop_filter :: flb_filter where
  "drop_filter = \<lparr>f_match = Some ''app.*'', f_match_regex = None, f_properties = [], f_cb_filter = (\<lambda>d tag. (1, tl d))\<rparr>"


text \<open>
  Without memory for the copy of the tag nothing is written, the result is success, and the records are counted.
\<close>

lemma filter_alloc_failure:
  assumes "\<not> e_alloc e A_ntag (length tag)"
  shows "\<exists>ic'. append_write e FLB_INPUT_LOGS n_records tag buf s ic = (0, ic')
    \<and> ic_chunk ic' = ic_chunk ic \<and> ic_total_records ic' = ic_total_records ic + n_records"
  using assms by (simp add: append_write_def flb_filter_do_def Let_def CIO_OK_def)

end
