(* ===== verification/Output.thy ===== *)
theory Output
  imports Task
begin

text \<open>
  Flushing a task through an output instance, \<^verbatim>\<open>src/src/flb_output.c\<close> and the inline functions of
  \<^verbatim>\<open>src/include/fluent-bit/flb_output.h\<close>: the coroutine of a flush, its return, the queue of a
  synchronous output that runs one flush at a time, the hand-over to a worker thread
  (\<^verbatim>\<open>src/src/flb_output_thread.c\<close>).

  A failing flush of a queued task starts the next one, so the functions of the queue call each other.
  They take fuel; every call of \<open>flb_output_task_queue_flush_one\<close> takes an element off the pending list,
  and \<open>queue_fuel\<close>, one more than the length of that list, is always enough.
\<close>

section \<open>Flush coroutines\<close>

definition flb_output_flush_id_get :: "int \<Rightarrow> 'c flb_config \<Rightarrow> int \<times> 'c flb_config" where
  "flb_output_flush_id_get oid s =
     (case flb_output_get_instance s oid of
        None \<Rightarrow> (0, s)
      | Some out \<Rightarrow>
          let max14 = 2 * 2 ^ 13 - 1;
              next = o_flush_id out + 1
          in (o_flush_id out, upd_out oid (\<lambda>out. out\<lparr>o_flush_id := (if next > max14 then 0 else next)\<rparr>) s))"

text \<open>
  \<open>e_process\<close> stands for the processors of the output: \<open>None\<close> when they or the allocation of their
  result fail.
\<close>

definition flb_output_flush_create ::
  "'c env \<Rightarrow> addr \<Rightarrow> int \<Rightarrow> 'c flb_config \<Rightarrow> flb_output_flush option \<times> 'c flb_config" where
  "flb_output_flush_create e a oid s =
     (let f = sched_brk s
      in if \<not> e_alloc e A_flush f then (None, s)
         else case task_heap s a of
                None \<Rightarrow> (None, s)
              | Some t \<Rightarrow>
                  (case task_event_chunk t of
                     None \<Rightarrow> (None, s)
                   | Some evc \<Rightarrow>
                       (case flb_output_flush_id_get oid s of
                          (n, s) \<Rightarrow>
                            (case e_process e oid evc of
                               None \<Rightarrow> (None, s)
                             | Some evc \<Rightarrow>
                                 let fl = \<lparr>fl_addr = f, fl_id = n, fl_task = a, fl_evc = evc,
                                           fl_started = False\<rparr>;
                                     s = s\<lparr>sched_brk := f + 1\<rparr>
                                 in (Some fl, upd_out oid
                                       (\<lambda>out. out\<lparr>o_flush_list := o_flush_list out @ [fl]\<rparr>) s)))))"

definition flb_output_flush_destroy :: "int \<Rightarrow> flb_output_flush \<Rightarrow> 'c flb_config \<Rightarrow> 'c flb_config" where
  "flb_output_flush_destroy oid fl s =
     upd_out oid (\<lambda>out. out\<lparr>o_flush_list := filter (\<lambda>x. fl_addr x \<noteq> fl_addr fl) (o_flush_list out),
       o_flush_list_destroy := filter (\<lambda>x. fl_addr x \<noteq> fl_addr fl) (o_flush_list_destroy out)\<rparr>) s"

definition flb_output_flush_prepare_destroy ::
  "int \<Rightarrow> flb_output_flush \<Rightarrow> 'c flb_config \<Rightarrow> 'c flb_config" where
  "flb_output_flush_prepare_destroy oid fl s =
     upd_out oid (\<lambda>out. out\<lparr>o_flush_list := filter (\<lambda>x. fl_addr x \<noteq> fl_addr fl) (o_flush_list out),
       o_flush_list_destroy := o_flush_list_destroy out @ [fl]\<rparr>) s"

definition flb_output_flush_finished :: "int \<Rightarrow> 'c flb_config \<Rightarrow> int \<times> 'c flb_config" where
  "flb_output_flush_finished oid s =
     (case flb_output_get_instance s oid of
        None \<Rightarrow> (-1, s)
      | Some out \<Rightarrow> (0, fold (flb_output_flush_destroy oid) (o_flush_list_destroy out) s))"

definition flb_output_coros_size :: "flb_output \<Rightarrow> nat" where
  "flb_output_coros_size out = length (o_flush_list out)"

definition event_value :: "int \<Rightarrow> int \<Rightarrow> int \<Rightarrow> u64" where
  "event_value ret tid oid = FLB_BITS_U64_SET 2 (FLB_TASK_SET ret tid oid)"

definition flb_output_return ::
  "'c env \<Rightarrow> int \<Rightarrow> int \<Rightarrow> flb_output_flush \<Rightarrow> 'c flb_config \<Rightarrow> 'c flb_config" where
  "flb_output_return e ret oid fl s =
     (case task_heap s (fl_task fl) of
        None \<Rightarrow> s
      | Some t \<Rightarrow>
          let s = upd_task (fl_task fl) (\<lambda>t. flb_task_deactivate_route t oid) s;
              v = event_value ret (task_id t) oid;
              s = (if e_pipe e (fl_addr fl) oid
                   then upd_out oid (\<lambda>out. out\<lparr>o_ch_events := o_ch_events out @ [v]\<rparr>) s
                   else s)
          in flb_output_flush_prepare_destroy oid fl s)"

text \<open>What a coroutine does when it is resumed for the first time, up to the call of the callback.\<close>

definition output_pre_cb_flush ::
  "'c env \<Rightarrow> int \<Rightarrow> flb_output_flush \<Rightarrow> 'c flb_config \<Rightarrow> 'c flb_config" where
  "output_pre_cb_flush e oid fl s =
     (let evc = fl_evc fl
      in if evc_type evc = FLB_INPUT_LOGS \<and> evc_total_events evc = 0
         then flb_output_return e FLB_OK oid fl s
         else if evc_type evc = FLB_INPUT_METRICS \<and> (case evc_data evc of None \<Rightarrow> True | Some d \<Rightarrow> d = [])
         then flb_output_return e FLB_OK oid fl s
         else case task_heap s (fl_task fl) of
                None \<Rightarrow> s
              | Some t \<Rightarrow>
                  if flb_task_get_route_status t oid = ROUTE_DROPPED
                  then flb_output_return e FLB_ERROR oid fl s
                  else upd_out oid
                         (\<lambda>out. out\<lparr>o_flush_list :=
                            map (\<lambda>x. if fl_addr x = fl_addr fl then x\<lparr>fl_started := True\<rparr> else x)
                              (o_flush_list out)\<rparr>)
                         (upd_task (fl_task fl) (\<lambda>t. flb_task_activate_route t oid) s))"

section \<open>Flushing\<close>

definition synchronous :: "flb_output \<Rightarrow> bool" where
  "synchronous out \<longleftrightarrow> o_flags out AND FLB_OUTPUT_SYNCHRONOUS \<noteq> 0"

definition upd_queue ::
  "int \<Rightarrow> (flb_task_queue \<Rightarrow> flb_task_queue) \<Rightarrow> 'c flb_config \<Rightarrow> 'c flb_config" where
  "upd_queue oid f s = upd_out oid (\<lambda>out. out\<lparr>o_singleplex_queue := f (o_singleplex_queue out)\<rparr>) s"

text \<open>Posting a task to a worker of the thread pool.\<close>

definition flb_output_thread_pool_flush ::
  "'c env \<Rightarrow> addr \<Rightarrow> int \<Rightarrow> 'c flb_config \<Rightarrow> int \<times> 'c flb_config" where
  "flb_output_thread_pool_flush e a oid s =
     (if \<not> e_pipe e a oid then (-1, s)
      else (0, upd_out oid (\<lambda>out. out\<lparr>o_tp_queue := o_tp_queue out @ [a]\<rparr>) s))"

fun flb_output_task_queue_flush_one ::
      "nat \<Rightarrow> 'c env \<Rightarrow> int \<Rightarrow> 'c flb_config \<Rightarrow> (int \<times> 'c flb_config) option"
  and flb_output_task_flush ::
      "nat \<Rightarrow> 'c env \<Rightarrow> addr \<Rightarrow> int \<Rightarrow> 'c flb_config \<Rightarrow> (int \<times> 'c flb_config) option"
  and flb_output_task_singleplex_flush_next ::
      "nat \<Rightarrow> 'c env \<Rightarrow> int \<Rightarrow> 'c flb_config \<Rightarrow> (int \<times> 'c flb_config) option"
where
  "flb_output_task_queue_flush_one 0 e oid s = None"
| "flb_output_task_queue_flush_one (Suc n) e oid s =
     (case flb_output_get_instance s oid of
        None \<Rightarrow> Some (-1, s)
      | Some out \<Rightarrow>
          (case pending (o_singleplex_queue out) of
             [] \<Rightarrow> Some (-1, s)
           | q # qs \<Rightarrow>
               let s = upd_queue oid (\<lambda>tq. tq\<lparr>pending := qs, in_progress := in_progress tq @ [q]\<rparr>) s;
                   s = flb_task_users_dec e (eq_task q) False s
               in case flb_output_task_flush n e (eq_task q) (eq_out q) s of
                    None \<Rightarrow> None
                  | Some (ret, s) \<Rightarrow>
                      if ret = -1
                      then let s = (case eq_retry q of None \<Rightarrow> s | Some r \<Rightarrow> flb_task_retry_destroy r s)
                           in map_option (\<lambda>(_, s). (-1, s)) (flb_output_task_singleplex_flush_next n e oid s)
                      else Some (ret, s)))"
| "flb_output_task_flush n e a oid s =
     (case flb_output_get_instance s oid of
        None \<Rightarrow> Some (-1, s)
      | Some out \<Rightarrow>
          if o_is_threaded out
          then (case flb_output_thread_pool_flush e a oid (flb_task_users_inc a s) of
                  (ret, s) \<Rightarrow>
                    if ret = -1
                    then let s = flb_task_users_dec e a False s
                         in if synchronous out
                            then map_option (\<lambda>(_, s). (0, s)) (flb_output_task_singleplex_flush_next n e oid s)
                            else Some (0, s)
                    else Some (0, s))
          else (case flb_output_flush_create e a oid s of
                  (None, s) \<Rightarrow> Some (-1, s)
                | (Some fl, s) \<Rightarrow>
                    let s = flb_task_users_inc a s
                    in if e_pipe e a oid then Some (0, s)
                       else let s = flb_task_users_dec e a False (flb_output_flush_destroy oid fl s)
                            in if synchronous out
                               then map_option (\<lambda>(_, s). (-1, s)) (flb_output_task_singleplex_flush_next n e oid s)
                               else Some (-1, s)))"
| "flb_output_task_singleplex_flush_next n e oid s =
     (let s = upd_queue oid (\<lambda>tq. tq\<lparr>in_progress := tl (in_progress tq)\<rparr>) s
      in case flb_output_get_instance s oid of
           None \<Rightarrow> Some (0, s)
         | Some out \<Rightarrow>
             if pending (o_singleplex_queue out) \<noteq> [] then flb_output_task_queue_flush_one n e oid s
             else Some (0, s))"

declare flb_output_task_queue_flush_one.simps [simp del]
  flb_output_task_flush.simps [simp del] flb_output_task_singleplex_flush_next.simps [simp del]

definition queue_fuel :: "int \<Rightarrow> 'c flb_config \<Rightarrow> nat" where
  "queue_fuel oid s =
     (case flb_output_get_instance s oid of
        None \<Rightarrow> 1
      | Some out \<Rightarrow> Suc (length (pending (o_singleplex_queue out))))"

definition flb_output_task_queue_enqueue ::
  "'c env \<Rightarrow> addr option \<Rightarrow> addr \<Rightarrow> int \<Rightarrow> 'c flb_config \<Rightarrow> int \<times> 'c flb_config" where
  "flb_output_task_queue_enqueue e retry a oid s =
     (if \<not> e_alloc e A_enqueued (sched_brk s)
      then (-1, case retry of None \<Rightarrow> s | Some r \<Rightarrow> flb_task_retry_destroy r s)
      else (0, upd_queue oid (\<lambda>tq. tq\<lparr>pending := pending tq @
                 [\<lparr>eq_retry = retry, eq_out = oid, eq_task = a\<rparr>]\<rparr>) s))"

definition flb_output_task_singleplex_enqueue ::
  "'c env \<Rightarrow> addr option \<Rightarrow> addr \<Rightarrow> int \<Rightarrow> 'c flb_config \<Rightarrow> (int \<times> 'c flb_config) option" where
  "flb_output_task_singleplex_enqueue e retry a oid s =
     (case flb_output_task_queue_enqueue e retry a oid (flb_task_users_inc a s) of
        (ret, s) \<Rightarrow>
          if ret = -1 then Some (-1, s)
          else case flb_output_get_instance s oid of
                 None \<Rightarrow> Some (-1, s)
               | Some out \<Rightarrow>
                   if in_progress (o_singleplex_queue out) = []
                   then flb_output_task_queue_flush_one (queue_fuel oid s) e oid s
                   else Some (0, s))"

text \<open>
  A worker thread takes the next posted task, creates the coroutine and resumes it. When the coroutine
  cannot be created the task is forgotten.
\<close>

definition output_thread_take :: "'c env \<Rightarrow> int \<Rightarrow> 'c flb_config \<Rightarrow> 'c flb_config" where
  "output_thread_take e oid s =
     (case flb_output_get_instance s oid of
        None \<Rightarrow> s
      | Some out \<Rightarrow>
          (case o_tp_queue out of
             [] \<Rightarrow> s
           | a # as \<Rightarrow>
               let s = upd_out oid (\<lambda>out. out\<lparr>o_tp_queue := as\<rparr>) s
               in case flb_output_flush_create e a oid s of
                    (None, s) \<Rightarrow> s
                  | (Some fl, s) \<Rightarrow> output_pre_cb_flush e oid fl s))"

end
