(* ===== verification/Engine.thy ===== *)
theory Engine
  imports Output
begin

text \<open>
  The engine, \<^verbatim>\<open>src/src/flb_engine.c\<close> and \<^verbatim>\<open>src/src/flb_engine_dispatch.c\<close>: turning the chunks of an
  input into tasks and starting them, dispatching a retry, handling the events with which the outputs
  report the result of a flush.

  A dereference of NULL or of a freed task in the event handlers is \<open>None\<close>, as is a trap in the
  computation of a wait time.
\<close>

section \<open>Dispatch\<close>

definition flb_engine_dispatch_retry :: "'c env \<Rightarrow> addr \<Rightarrow> 'c flb_config \<Rightarrow> (int \<times> 'c flb_config) option" where
  "flb_engine_dispatch_retry e r s =
     (case retry_heap s r of
        None \<Rightarrow> None
      | Some rt \<Rightarrow>
          (case task_heap s (rt_parent rt) of
             None \<Rightarrow> None
           | Some t \<Rightarrow>
               (case task_ic t of
                  None \<Rightarrow> None
                | Some ic \<Rightarrow>
                    (case flb_input_chunk_set_up (e_cio e) ic s of
                       (ret, s) \<Rightarrow>
                         if ret = -1 then flb_task_retry_reschedule e r s
                         else
                           (case flb_input_chunk_flush (e_cio e) ic s of
                              ((None, _), s) \<Rightarrow> Some (-1, flb_task_retry_destroy r s)
                            | ((Some buf, _), s) \<Rightarrow>
                                let s = upd_task (rt_parent rt)
                                          (\<lambda>t. t\<lparr>task_event_chunk :=
                                             map_option (\<lambda>evc. flb_event_chunk_update evc buf) (task_event_chunk t)\<rparr>) s
                                in case flb_output_get_instance s (rt_o_ins rt) of
                                     None \<Rightarrow> None
                                   | Some out \<Rightarrow>
                                       if synchronous out
                                       then (case flb_output_task_singleplex_enqueue e (Some r) (rt_parent rt) (o_id out) s of
                                               None \<Rightarrow> None
                                             | Some (ret, s) \<Rightarrow> if ret = -1 then Some (-1, s) else Some (0, s))
                                       else (case flb_output_task_flush (queue_fuel (o_id out) s) e (rt_parent rt) (o_id out) s of
                                               None \<Rightarrow> None
                                             | Some (ret, s) \<Rightarrow>
                                                 if ret = -1 then Some (-1, flb_task_retry_destroy r s)
                                                 else Some (0, s)))))))"

text \<open>One route of a new task; the counter is \<open>hits\<close>.\<close>

definition start_route ::
  "'c env \<Rightarrow> addr \<Rightarrow> nat \<Rightarrow> flb_task_route \<Rightarrow> nat \<times> 'c flb_config \<Rightarrow> (nat \<times> 'c flb_config) option" where
  "start_route e a retry route st =
     (case st of (nhits, s) \<Rightarrow>
        (case flb_output_get_instance s (tr_out route) of
           None \<Rightarrow> None
         | Some out \<Rightarrow>
             if o_test_formatter out
             then Some (nhits, upd_task a (\<lambda>t. t\<lparr>task_routes :=
                                remove_first (\<lambda>r. tr_out r = tr_out route) (task_routes t)\<rparr>) s)
             else if o_flags out AND FLB_OUTPUT_NO_MULTIPLEX \<noteq> 0
                     \<and> (flb_output_coros_size out > 0 \<or> retry > 0)
             then Some (nhits, s)
             else if synchronous out
             then map_option (\<lambda>(_, s). (nhits + 1, s))
                    (flb_output_task_singleplex_enqueue e None a (tr_out route) s)
             else map_option (\<lambda>(_, s). (nhits + 1, s))
                    (flb_output_task_flush (queue_fuel (tr_out route) s) e a (tr_out route) s)))"

definition start_task :: "'c env \<Rightarrow> addr \<Rightarrow> nat \<times> 'c flb_config \<Rightarrow> (nat \<times> 'c flb_config) option" where
  "start_task e a st =
     (case st of (retry, s) \<Rightarrow>
        (case task_heap s a of
           None \<Rightarrow> None
         | Some t \<Rightarrow>
             let retry = (if task_retries t \<noteq> [] then retry + 1 else retry)
             in if task_status t \<noteq> TASK_NEW then Some (retry, s)
                else
                  let s = upd_task a (\<lambda>t. t\<lparr>task_status := TASK_RUNNING\<rparr>) s
                  in case fold_opt (start_route e a retry) (task_routes t) (0, s) of
                       None \<Rightarrow> None
                     | Some (nhits, s) \<Rightarrow>
                         Some (retry, if nhits = 0 then upd_task a (\<lambda>t. t\<lparr>task_status := TASK_NEW\<rparr>) s
                                      else s)))"

definition tasks_start :: "'c env \<Rightarrow> int \<Rightarrow> 'c flb_config \<Rightarrow> 'c flb_config option" where
  "tasks_start e n s =
     (case find_in s n of
        None \<Rightarrow> Some s
      | Some i \<Rightarrow> map_option snd (fold_opt (start_task e) (i_tasks i) (0, s)))"

text \<open>
  The loop over the chunks of the input. \<open>buf_size\<close> keeps its value from one turn to the next when
  \<open>flb_input_chunk_flush\<close> does not set it.
\<close>

definition release_chunk :: "addr \<Rightarrow> 'c flb_config \<Rightarrow> 'c flb_config" where
  "release_chunk c s = snd (flb_input_chunk_release_lock c s)"

definition dispatch_chunk ::
  "'c env \<Rightarrow> u64 \<Rightarrow> addr \<Rightarrow> nat \<Rightarrow> 'c flb_input_chunk \<Rightarrow> 'c flb_config \<Rightarrow> nat \<times> 'c flb_config" where
  "dispatch_chunk e ref_id c buf_size ic s =
     (case flb_input_chunk_flush (e_cio e) c s of
        ((buf, sz), s) \<Rightarrow>
          let buf_size = (case sz of None \<Rightarrow> buf_size | Some k \<Rightarrow> k)
          in if buf_size = 0 then (buf_size, release_chunk c s)
             else case buf of
                    None \<Rightarrow> (buf_size, release_chunk c s)
                  | Some b \<Rightarrow>
                      (case chunk_heap s c of
                         None \<Rightarrow> (buf_size, s)
                       | Some ic \<Rightarrow>
                           (case flb_input_chunk_get_tag (e_cio e) ic of
                              None \<Rightarrow> (buf_size, release_chunk c s)
                            | Some tag \<Rightarrow>
                                if tag = [] then (buf_size, release_chunk c s)
                                else case flb_task_create e ref_id b (ic_in ic) c tag s of
                                       ((Some a, _), s) \<Rightarrow> (buf_size, s)
                                     | ((None, err), s) \<Rightarrow>
                                         (buf_size,
                                          if err then snd (flb_input_chunk_down (e_cio e) c (release_chunk c s))
                                          else s))))"

fun dispatch_chunks :: "'c env \<Rightarrow> u64 \<Rightarrow> addr list \<Rightarrow> nat \<Rightarrow> 'c flb_config \<Rightarrow> 'c flb_config" where
  "dispatch_chunks e ref_id [] buf_size s = s"
| "dispatch_chunks e ref_id (c # cs) buf_size s =
     (case chunk_heap s c of
        None \<Rightarrow> dispatch_chunks e ref_id cs buf_size s
      | Some ic \<Rightarrow>
          if ic_busy ic then dispatch_chunks e ref_id cs buf_size s
          else case flb_task_map_get_task_id e s of
                 (tid, s) \<Rightarrow>
                   if tid = -1 then s
                   else case dispatch_chunk e ref_id c buf_size ic s of
                          (buf_size, s) \<Rightarrow> dispatch_chunks e ref_id cs buf_size s)"

text \<open>The tasks of outputs in test mode lose their routes; they are removed at the end.\<close>

definition cleanup_task :: "'c env \<Rightarrow> addr \<Rightarrow> 'c flb_config \<Rightarrow> 'c flb_config" where
  "cleanup_task e a s =
     (case task_heap s a of
        None \<Rightarrow> s
      | Some t \<Rightarrow>
          if task_users t = 0 \<and> length (task_retries t) = 0 \<and> length (task_routes t) = 0
          then flb_task_destroy e a True s else s)"

definition flb_engine_dispatch :: "'c env \<Rightarrow> u64 \<Rightarrow> int \<Rightarrow> 'c flb_config \<Rightarrow> (int \<times> 'c flb_config) option" where
  "flb_engine_dispatch e ref_id n s =
     (case find_in s n of
        None \<Rightarrow> Some (0, s)
      | Some i \<Rightarrow>
          if i_p i = None then Some (0, s)
          else case tasks_start e n (dispatch_chunks e ref_id (i_chunks i) 0 s) of
                 None \<Rightarrow> None
               | Some s \<Rightarrow>
                   (case find_in s n of
                      None \<Rightarrow> Some (0, s)
                    | Some i \<Rightarrow> Some (0, fold (cleanup_task e) (i_tasks i) s)))"

text \<open>\<open>in_force\<close>: the plugin whose instances are flushed, all of them when it is NULL.\<close>

definition flb_engine_flush ::
  "'c env \<Rightarrow> flb_plugin_ref option \<Rightarrow> 'c flb_config \<Rightarrow> (int \<times> 'c flb_config) option" where
  "flb_engine_flush e in_force s =
     map_option (\<lambda>s. (0, s))
       (fold_opt (\<lambda>i s. if in_force \<noteq> None \<and> i_p i \<noteq> in_force then Some s
                        else map_option snd (flb_engine_dispatch e 0 (i_id i) s)) (cf_inputs s) s)"

section \<open>Events\<close>

text \<open>The branches of \<open>handle_output_event\<close> that end with the task losing a user.\<close>

definition task_finished :: "'c env \<Rightarrow> addr \<Rightarrow> int \<Rightarrow> 'c flb_config \<Rightarrow> 'c flb_config" where
  "task_finished e a oid s = flb_task_users_dec e a True (snd (flb_task_retry_clean a oid s))"

definition event_retry :: "'c env \<Rightarrow> addr \<Rightarrow> flb_output \<Rightarrow> 'c flb_config \<Rightarrow> (int \<times> 'c flb_config) option" where
  "event_retry e a ins s =
     (if o_retry_limit ins = FLB_OUT_RETRY_NONE then Some (0, task_finished e a (o_id ins) s)
      else case flb_task_retry_create e a ins s of
             (None, s) \<Rightarrow> Some (0, task_finished e a (o_id ins) s)
           | (Some r, s) \<Rightarrow>
               let s = flb_task_users_dec e a False s
               in case retry_heap s r of
                    None \<Rightarrow> None
                  | Some rt \<Rightarrow>
                      (case sched_request e r (rt_attempts rt) s of
                         None \<Rightarrow> None
                       | Some (seconds, s) \<Rightarrow>
                           if seconds = -1
                           then Some (0, flb_task_users_release e a (flb_task_retry_destroy r s))
                           else Some (0, s)))"

definition handle_output_event :: "'c env \<Rightarrow> u64 \<Rightarrow> 'c flb_config \<Rightarrow> (int \<times> 'c flb_config) option" where
  "handle_output_event e v s =
     (let ty = FLB_BITS_U64_HIGH v; k = FLB_BITS_U64_LOW v
      in if ty \<noteq> FLB_ENGINE_TASK then Some (-1, s)
         else
           let ret = uint (FLB_TASK_RET k);
               tid = unat (FLB_TASK_ID k);
               out_id = uint (FLB_TASK_OUT k)
           in if tid \<ge> length (task_map s) then None
              else case (task_map s ! tid, flb_output_get_instance s out_id) of
                     (Some a, Some ins) \<Rightarrow>
                       let s = (if \<not> o_is_threaded ins then snd (flb_output_flush_finished out_id s) else s)
                       in case (if synchronous ins \<and> (ret = FLB_OK \<or> ret = FLB_RETRY \<or> ret = FLB_ERROR)
                                then map_option snd
                                       (flb_output_task_singleplex_flush_next (queue_fuel out_id s) e out_id s)
                                else Some s) of
                            None \<Rightarrow> None
                          | Some s \<Rightarrow>
                              if task_heap s a = None then None
                              else if ret = FLB_OK then Some (0, task_finished e a out_id s)
                              else if ret = FLB_RETRY then event_retry e a ins s
                              else if ret = FLB_ERROR then Some (0, task_finished e a out_id s)
                              else Some (0, s)
                   | _ \<Rightarrow> None)"

definition FLB_ENGINE_OUTPUT_EVENT_BATCH_SIZE :: nat where
  "FLB_ENGINE_OUTPUT_EVENT_BATCH_SIZE = 1"

text \<open>
  Reading the channel of an output: a batch of the values written to it, up to one that is 0. \<open>None\<close>
  inside the result: the return value is not set when the read returns no value.
\<close>

definition handle_output_events ::
  "'c env \<Rightarrow> int \<Rightarrow> 'c flb_config \<Rightarrow> (int option \<times> 'c flb_config) option" where
  "handle_output_events e oid s =
     (case flb_output_get_instance s oid of
        None \<Rightarrow> Some (Some (-1), s)
      | Some out \<Rightarrow>
          let vs = take FLB_ENGINE_OUTPUT_EVENT_BATCH_SIZE (o_ch_events out);
              s = upd_out oid (\<lambda>out. out\<lparr>o_ch_events :=
                    drop FLB_ENGINE_OUTPUT_EVENT_BATCH_SIZE (o_ch_events out)\<rparr>) s
          in fold_opt (\<lambda>v (_, s). map_option (\<lambda>(ret, s). (Some ret, s)) (handle_output_event e v s))
               (takeWhile (\<lambda>v. v \<noteq> 0) vs) (None, s))"

section \<open>Shutdown\<close>

definition flb_engine_destroy_tasks :: "'c env \<Rightarrow> addr list \<Rightarrow> 'c flb_config \<Rightarrow> nat \<times> 'c flb_config" where
  "flb_engine_destroy_tasks e as s =
     fold (\<lambda>a (c, s). (c + 1, flb_task_destroy e a False s)) as (0, s)"

definition reschedule_task :: "'c env \<Rightarrow> addr \<Rightarrow> 'c flb_config \<Rightarrow> 'c flb_config" where
  "reschedule_task e a s =
     (case task_heap s a of
        None \<Rightarrow> s
      | Some t \<Rightarrow>
          if task_users t > 0 then s
          else fold (\<lambda>r s.
                 let s = snd (flb_sched_request_invalidate r s)
                 in snd (flb_sched_retry_now (e_alloc e A_timer (sched_brk s)) (e_alloc e A_request (sched_brk s))
                           (e_timeout e) (e_now e) r s)) (task_retries t) s)"

definition flb_engine_reschedule_retries :: "'c env \<Rightarrow> 'c flb_config \<Rightarrow> 'c flb_config" where
  "flb_engine_reschedule_retries e s = fold (\<lambda>i s. fold (reschedule_task e) (i_tasks i) s) (cf_inputs s) s"

end
