(* ===== verification/Task_Accounting.thy ===== *)
theory Task_Accounting
  imports Engine
begin

text \<open>
  The accounting of tasks: every flush in progress, queued or reported and not yet handled holds a user of
  its task, every scheduled retry request refers to a retry context of a task that is still there, and
  no output works twice at a time on a task.

  A pair of a task and an output id is in flight while a flush coroutine, a worker's channel, the queue of a
  synchronous output or the event channel refers to it. The invariant has two parameters that are empty
  between the engine's steps: the pairs a running handler has taken over, and the requests it is
  about to destroy.
\<close>

section \<open>Pairs in flight\<close>

definition event_target :: "addr option list \<Rightarrow> u64 \<Rightarrow> addr \<times> int" where
  "event_target tm v =
     (the (tm ! unat (FLB_TASK_ID (FLB_BITS_U64_LOW v))), uint (FLB_TASK_OUT (FLB_BITS_U64_LOW v)))"

definition out_pairs :: "addr option list \<Rightarrow> flb_output \<Rightarrow> (addr \<times> int) multiset" where
  "out_pairs tm out =
     mset (map (\<lambda>f. (fl_task f, o_id out)) (o_flush_list out))
     + mset (map (\<lambda>a. (a, o_id out)) (o_tp_queue out))
     + mset (map (\<lambda>q. (eq_task q, o_id out)) (pending (o_singleplex_queue out)))
     + mset (map (event_target tm) (o_ch_events out))"

definition flight :: "'c flb_config \<Rightarrow> (addr \<times> int) multiset" where
  "flight s = sum_list (map (out_pairs (task_map s)) (cf_outputs s))"

definition refs :: "(addr \<times> int) multiset \<Rightarrow> addr \<Rightarrow> nat" where
  "refs M a = size (filter_mset (\<lambda>p. fst p = a) M)"

definition retry_pair :: "'c flb_config \<Rightarrow> addr \<Rightarrow> addr \<times> int" where
  "retry_pair s r = (case retry_heap s r of None \<Rightarrow> (0, 0) | Some rt \<Rightarrow> (rt_parent rt, rt_o_ins rt))"

definition oids :: "'c flb_config \<Rightarrow> int set" where
  "oids s = o_id ` set (cf_outputs s)"

lemma refs_simps [simp]:
  "refs {#} a = 0" "refs (M + N) a = refs M a + refs N a"
  "refs (add_mset p M) a = (if fst p = a then Suc (refs M a) else refs M a)"
  by (simp_all add: refs_def)

lemma refs_pos: "p \<in># M \<Longrightarrow> 0 < refs M (fst p)"
  by (auto simp: refs_def dest!: multi_member_split)

lemma refs_mono: "M \<subseteq># N \<Longrightarrow> refs M a \<le> refs N a"
  by (simp add: refs_def multiset_filter_mono size_mset_mono)

section \<open>The invariant\<close>

definition event_ok :: "addr option list \<Rightarrow> flb_output \<Rightarrow> u64 \<Rightarrow> bool" where
  "event_ok tm out v \<longleftrightarrow>
     FLB_BITS_U64_HIGH v = FLB_ENGINE_TASK
     \<and> uint (FLB_TASK_RET (FLB_BITS_U64_LOW v)) \<in> {FLB_ERROR, FLB_OK, FLB_RETRY}
     \<and> uint (FLB_TASK_OUT (FLB_BITS_U64_LOW v)) = o_id out
     \<and> unat (FLB_TASK_ID (FLB_BITS_U64_LOW v)) < length tm
     \<and> tm ! unat (FLB_TASK_ID (FLB_BITS_U64_LOW v)) \<noteq> None"

definition out_ok :: "'c flb_config \<Rightarrow> flb_output \<Rightarrow> bool" where
  "out_ok s out \<longleftrightarrow>
     0 \<le> o_id out \<and> o_id out < 16384
     \<and> (\<forall>v \<in> set (o_ch_events out). event_ok (task_map s) out v)
     \<and> (\<forall>q \<in> set (pending (o_singleplex_queue out)).
          eq_out q = o_id out
          \<and> (\<forall>r. eq_retry q = Some r \<longrightarrow> r \<in> dom (retry_heap s) \<and> retry_pair s r = (eq_task q, o_id out)))
     \<and> distinct (map fl_addr (o_flush_list out @ o_flush_list_destroy out))
     \<and> (\<forall>f \<in> set (o_flush_list out @ o_flush_list_destroy out). fl_addr f < sched_brk s)"

definition wf_outs :: "'c flb_config \<Rightarrow> bool" where
  "wf_outs s \<longleftrightarrow> distinct (map o_id (cf_outputs s)) \<and> (\<forall>out \<in> set (cf_outputs s). out_ok s out)"

definition task_ok :: "'c flb_config \<Rightarrow> addr \<Rightarrow> flb_task \<Rightarrow> bool" where
  "task_ok s a t \<longleftrightarrow>
     a < sched_brk s
     \<and> 0 \<le> task_id t \<and> nat (task_id t) < length (task_map s) \<and> task_map s ! nat (task_id t) = Some a
     \<and> task_event_chunk t \<noteq> None \<and> task_ic t \<noteq> None
     \<and> distinct (map tr_out (task_routes t)) \<and> tr_out ` set (task_routes t) \<subseteq> oids s
     \<and> distinct (task_retries t)
     \<and> (\<forall>r \<in> set (task_retries t). \<exists>rt. retry_heap s r = Some rt \<and> rt_parent rt = a)"

definition retry_ok :: "'c flb_config \<Rightarrow> addr \<Rightarrow> flb_task_retry \<Rightarrow> bool" where
  "retry_ok s r rt \<longleftrightarrow>
     r < sched_brk s \<and> rt_o_ins rt \<in> oids s
     \<and> (\<exists>t. task_heap s (rt_parent rt) = Some t \<and> r \<in> set (task_retries t))"

definition wf_tasks :: "'c flb_config \<Rightarrow> bool" where
  "wf_tasks s \<longleftrightarrow>
     task_map_ok s
     \<and> (\<forall>a t. task_heap s a = Some t \<longrightarrow> task_ok s a t)
     \<and> (\<forall>r rt. retry_heap s r = Some rt \<longrightarrow> retry_ok s r rt)
     \<and> inj_on (retry_pair s) (dom (retry_heap s))"

definition wf_inputs :: "'c flb_config \<Rightarrow> bool" where
  "wf_inputs s \<longleftrightarrow>
     (\<forall>i \<in> set (cf_inputs s). set (i_routes_direct i) \<subseteq> oids s \<and> distinct (i_routes_direct i)
        \<and> (\<forall>a \<in> set (i_tasks i). \<exists>t. task_heap s a = Some t \<and> task_i_ins t = Some (i_id i)))"

text \<open>The requests that count, and the pairs they stand for.\<close>

definition waiting :: "addr multiset \<Rightarrow> 'c flb_config \<Rightarrow> (addr \<times> int) multiset" where
  "waiting Y s = image_mset (retry_pair s) (reqs s - Y)"

definition wf_flight :: "(addr \<times> int) multiset \<Rightarrow> addr multiset \<Rightarrow> 'c flb_config \<Rightarrow> bool" where
  "wf_flight X Y s \<longleftrightarrow>
     (\<forall>p \<in># flight s + X. \<exists>t. task_heap s (fst p) = Some t)
     \<and> (\<forall>a t. task_heap s a = Some t \<longrightarrow> int (refs (flight s + X) a) \<le> task_users t)
     \<and> (\<forall>a t. task_heap s a = Some t \<longrightarrow> task_status t = TASK_NEW \<longrightarrow>
          refs (flight s + X) a = 0 \<and> task_retries t = [])
     \<and> (\<forall>p. count (flight s + X + waiting Y s) p \<le> 1)
     \<and> Y \<subseteq># reqs s \<and> set_mset (reqs s - Y) \<subseteq> dom (retry_heap s)"

definition inv :: "(addr \<times> int) multiset \<Rightarrow> addr multiset \<Rightarrow> 'c flb_config \<Rightarrow> bool" where
  "inv X Y s \<longleftrightarrow>
     wf_outs s \<and> wf_tasks s \<and> wf_inputs s \<and> wf_flight X Y s \<and> sched_inv s \<and> sched_cfg_ok s"

lemmas inv_defs = inv_def wf_outs_def wf_tasks_def wf_inputs_def wf_flight_def

section \<open>Instances\<close>

lemma get_instance_Some:
  assumes "flb_output_get_instance s n = Some out"
  shows "out \<in> set (cf_outputs s)" "o_id out = n" "n \<in> oids s"
  using assms by (auto simp: flb_output_get_instance_def oids_def dest: find_SomeD)

lemma get_instance_iff: "(\<exists>out. flb_output_get_instance s n = Some out) \<longleftrightarrow> n \<in> oids s"
  unfolding flb_output_get_instance_def oids_def not_None_eq [symmetric] by (auto simp: find_None_iff)

text \<open>The pairs of the other outputs.\<close>

definition rest_pairs :: "int \<Rightarrow> 'c flb_config \<Rightarrow> (addr \<times> int) multiset" where
  "rest_pairs n s = sum_list (map (out_pairs (task_map s)) (filter (\<lambda>out. o_id out \<noteq> n) (cf_outputs s)))"

lemma sum_list_filter_id:
  "distinct (map f xs) \<Longrightarrow> x \<in> set xs \<Longrightarrow>
     sum_list (map g xs) = g x + sum_list (map g (filter (\<lambda>y. f y \<noteq> f x) xs))" for g :: "_ \<Rightarrow> _ multiset"
proof (induction xs)
  case (Cons y xs)
  show ?case
  proof (cases "y = x")
    case True
    then have "filter (\<lambda>z. f z \<noteq> f x) xs = xs" using Cons.prems by (intro filter_True) (fastforce simp: image_iff)
    with True show ?thesis by simp
  next
    case False
    then have "x \<in> set xs" "f y \<noteq> f x" using Cons.prems by (auto simp: image_iff)
    with Cons show ?thesis by (simp add: ac_simps)
  qed
qed simp

lemma flight_split:
  assumes "wf_outs s" and "flb_output_get_instance s n = Some out"
  shows "flight s = out_pairs (task_map s) out + rest_pairs n s"
  using assms sum_list_filter_id [of o_id "cf_outputs s" out] get_instance_Some [OF assms(2)]
  by (simp add: flight_def rest_pairs_def wf_outs_def)

text \<open>Updates of one output.\<close>

lemma find_map_id:
  "(\<And>x. f (g x) = f x) \<Longrightarrow>
     List.find (\<lambda>x. f x = n) (map (\<lambda>x. if f x = m then g x else x) xs) =
     map_option (\<lambda>x. if n = m then g x else x) (List.find (\<lambda>x. f x = n) xs)"
  by (induction xs) auto

lemma get_upd_out:
  assumes "\<And>out. o_id (f out) = o_id out"
  shows "flb_output_get_instance (upd_out m f s) n =
           map_option (\<lambda>out. if n = m then f out else out) (flb_output_get_instance s n)"
  using find_map_id [of o_id f n m "cf_outputs s"] assms
  by (simp add: flb_output_get_instance_def upd_out_def)

lemma upd_out_ids: "(\<And>out. o_id (f out) = o_id out) \<Longrightarrow> map o_id (cf_outputs (upd_out n f s)) = map o_id (cf_outputs s)"
  by (simp add: upd_out_def)

lemma upd_out_oids: "(\<And>out. o_id (f out) = o_id out) \<Longrightarrow> oids (upd_out n f s) = oids s"
  using upd_out_ids [of f n s] by (metis list.set_map oids_def)

lemma filter_map_other:
  "(\<And>x. f (g x) = f x) \<Longrightarrow>
     filter (\<lambda>x. f x \<noteq> n) (map (\<lambda>x. if f x = n then g x else x) xs) = filter (\<lambda>x. f x \<noteq> n) xs"
  by (induction xs) auto

lemma upd_out_rest: "(\<And>out. o_id (f out) = o_id out) \<Longrightarrow> rest_pairs n (upd_out n f s) = rest_pairs n s"
  by (simp add: rest_pairs_def upd_out_def filter_map_other [where f = o_id])

lemma upd_out_frame [simp]:
  "task_heap (upd_out n f s) = task_heap s" "retry_heap (upd_out n f s) = retry_heap s"
  "task_map (upd_out n f s) = task_map s" "cf_inputs (upd_out n f s) = cf_inputs s"
  "requests (upd_out n f s) = requests s" "requests_wait (upd_out n f s) = requests_wait s"
  "timers (upd_out n f s) = timers s" "timers_drop (upd_out n f s) = timers_drop s"
  "sched_brk (upd_out n f s) = sched_brk s" "sched_base (upd_out n f s) = sched_base s"
  "sched_cap (upd_out n f s) = sched_cap s" "chunk_heap (upd_out n f s) = chunk_heap s"
  by (simp_all add: upd_out_def)

lemma upd_task_frame [simp]:
  "cf_outputs (upd_task a f s) = cf_outputs s" "retry_heap (upd_task a f s) = retry_heap s"
  "task_map (upd_task a f s) = task_map s" "cf_inputs (upd_task a f s) = cf_inputs s"
  "requests (upd_task a f s) = requests s" "requests_wait (upd_task a f s) = requests_wait s"
  "timers (upd_task a f s) = timers s" "timers_drop (upd_task a f s) = timers_drop s"
  "sched_brk (upd_task a f s) = sched_brk s" "sched_base (upd_task a f s) = sched_base s"
  "sched_cap (upd_task a f s) = sched_cap s" "chunk_heap (upd_task a f s) = chunk_heap s"
  "task_heap (upd_task a f s) b = (if b = a then map_option f (task_heap s b) else task_heap s b)"
  by (simp_all add: upd_task_def)

section \<open>Changes that do not matter\<close>

lemma out_core_simps [simp]:
  "o_id (out_core out) = o_id out" "out_pairs tm (out_core out) = out_pairs tm out"
  "out_ok s (out_core out) = out_ok s out"
  by (simp_all add: out_core_def out_pairs_def out_ok_def event_ok_def)

lemma sched_inv_cong:
  "requests s' = requests s \<Longrightarrow> requests_wait s' = requests_wait s \<Longrightarrow> timers s' = timers s \<Longrightarrow>
     timers_drop s' = timers_drop s \<Longrightarrow> sched_brk s' = sched_brk s \<Longrightarrow> sched_inv s' = sched_inv s"
  by (simp add: sched_inv_def)

lemma ball_map: "(\<forall>x \<in> set xs. P (f x)) \<longleftrightarrow> (\<forall>y \<in> set (map f xs). P y)"
  by simp

lemma inv_core:
  assumes "core s' = core s"
  shows "inv X Y s' = inv X Y s"
proof -
  note D = coreD [OF assms]
  have ids: "map o_id (cf_outputs s') = map o_id (cf_outputs s)"
    using arg_cong [OF D(11), of "map o_id"] by (simp add: comp_def)
  then have oids: "oids s' = oids s" by (metis list.set_map oids_def)
  have flight: "flight s' = flight s"
    using arg_cong [OF D(11), of "map (out_pairs (task_map s))"] D(10) by (simp add: flight_def comp_def)
  have pair: "retry_pair s' = retry_pair s" by (simp add: retry_pair_def D fun_eq_iff)
  have out_ok: "out_ok s' = out_ok s" by (simp add: out_ok_def D pair fun_eq_iff)
  have "wf_outs s' = wf_outs s"
    using ball_map [of "cf_outputs s'" "out_ok s" out_core] ball_map [of "cf_outputs s" "out_ok s" out_core]
    by (simp only: wf_outs_def ids out_ok D out_core_simps)
  moreover have "wf_tasks s' = wf_tasks s"
    by (simp add: wf_tasks_def task_map_ok_def task_ok_def retry_ok_def D oids pair)
  moreover have "wf_inputs s' = wf_inputs s"
  proof -
    let ?P = "\<lambda>(n, ds, as). set ds \<subseteq> oids s \<and> distinct ds
        \<and> (\<forall>a \<in> set as. \<exists>t. task_heap s a = Some t \<and> task_i_ins t = Some n)"
    have "wf_inputs s'' = (\<forall>i \<in> set (cf_inputs s''). ?P (in_core i))"
      if "oids s'' = oids s" "task_heap s'' = task_heap s" for s'' :: "'a flb_config"
      by (simp add: wf_inputs_def in_core_def that)
    then have "wf_inputs s' = (\<forall>c \<in> set (map in_core (cf_inputs s')). ?P c)"
      "wf_inputs s = (\<forall>c \<in> set (map in_core (cf_inputs s)). ?P c)"
      using oids D(8) by (simp_all only: ball_map)
    then show ?thesis by (simp only: D)
  qed
  moreover have "wf_flight X Y s' = wf_flight X Y s"
    by (simp add: wf_flight_def flight waiting_def pair reqs_def D)
  moreover have "sched_inv s' = sched_inv s" by (intro sched_inv_cong D)
  ultimately show ?thesis by (simp add: inv_def sched_cfg_ok_def D)
qed

section \<open>Elementary changes\<close>

lemma wf_flightD:
  assumes "wf_flight X Y s"
  shows "p \<in># flight s + X \<Longrightarrow> \<exists>t. task_heap s (fst p) = Some t"
    and "task_heap s a = Some t \<Longrightarrow> int (refs (flight s + X) a) \<le> task_users t"
    and "task_heap s a = Some t \<Longrightarrow> task_status t = TASK_NEW \<Longrightarrow>
           refs (flight s + X) a = 0 \<and> task_retries t = []"
    and "count (flight s + X + waiting Y s) p \<le> 1"
    and "Y \<subseteq># reqs s" and "r \<in># reqs s - Y \<Longrightarrow> \<exists>rt. retry_heap s r = Some rt"
  using assms unfolding wf_flight_def by blast+

lemma wf_flightI:
  assumes "\<And>p. p \<in># flight s + X \<Longrightarrow> \<exists>t. task_heap s (fst p) = Some t"
    and "\<And>a t. task_heap s a = Some t \<Longrightarrow> int (refs (flight s + X) a) \<le> task_users t"
    and "\<And>a t. task_heap s a = Some t \<Longrightarrow> task_status t = TASK_NEW \<Longrightarrow>
           refs (flight s + X) a = 0 \<and> task_retries t = []"
    and "\<And>p. count (flight s + X + waiting Y s) p \<le> 1"
    and "Y \<subseteq># reqs s" and "\<And>r. r \<in># reqs s - Y \<Longrightarrow> \<exists>rt. retry_heap s r = Some rt"
  shows "wf_flight X Y s"
  using assms unfolding wf_flight_def by blast

lemma invD:
  assumes "inv X Y s"
  shows "wf_outs s" "wf_tasks s" "wf_inputs s" "wf_flight X Y s" "sched_inv s" "sched_cfg_ok s"
  using assms by (simp_all add: inv_def)

lemma inv_weaken: "inv X Y s \<Longrightarrow> X' \<subseteq># X \<Longrightarrow> inv X' Y s"
proof -
  assume I: "inv X Y s" and le: "X' \<subseteq># X"
  have sub: "flight s + X' \<subseteq># flight s + X" using le by simp
  have refs: "refs (flight s + X') a \<le> refs (flight s + X) a" for a using sub by (rule refs_mono)
  have cnt: "count (flight s + X' + waiting Y s) p \<le> count (flight s + X + waiting Y s) p" for p
    using mset_subset_eq_count [OF le] by simp
  note F = wf_flightD [OF invD(4) [OF I]]
  have "wf_flight X' Y s"
  proof (rule wf_flightI)
    show "\<exists>t. task_heap s (fst p) = Some t" if "p \<in># flight s + X'" for p
      using F(1) mset_subset_eqD [OF sub that] .
    show "int (refs (flight s + X') a) \<le> task_users t" if "task_heap s a = Some t" for a t
      using F(2) [OF that] refs [of a] by linarith
    show "refs (flight s + X') a = 0 \<and> task_retries t = []"
      if "task_heap s a = Some t" "task_status t = TASK_NEW" for a t
      using F(3) [OF that] refs [of a] by simp
    show "count (flight s + X' + waiting Y s) p \<le> 1" for p using F(4) [of p] cnt [of p] by linarith
  qed (use F(5,6) in blast)+
  with I show ?thesis by (simp add: inv_def)
qed

lemma pair_upd_task [simp]: "retry_pair (upd_task a f s) = retry_pair s"
  by (simp add: retry_pair_def fun_eq_iff)

lemma upd_task_views [simp]:
  "flight (upd_task a f s) = flight s" "waiting Y (upd_task a f s) = waiting Y s"
  "reqs (upd_task a f s) = reqs s" "oids (upd_task a f s) = oids s"
  "wf_outs (upd_task a f s) = wf_outs s" "sched_inv (upd_task a f s) = sched_inv s"
  "sched_cfg_ok (upd_task a f s) = sched_cfg_ok s"
  by (simp_all add: flight_def waiting_def reqs_def oids_def wf_outs_def out_ok_def sched_inv_def sched_cfg_ok_def)

text \<open>A change of a task that leaves its identity, its retries and the outputs of its routes.\<close>

definition task_same :: "flb_task \<Rightarrow> flb_task \<Rightarrow> bool" where
  "task_same t t' \<longleftrightarrow>
     task_id t' = task_id t \<and> (task_event_chunk t \<noteq> None \<longrightarrow> task_event_chunk t' \<noteq> None)
     \<and> task_ic t' = task_ic t \<and> task_retries t' = task_retries t \<and> task_i_ins t' = task_i_ins t
     \<and> (distinct (map tr_out (task_routes t)) \<longrightarrow> distinct (map tr_out (task_routes t')))
     \<and> tr_out ` set (task_routes t') \<subseteq> tr_out ` set (task_routes t)"

lemma inv_upd_task:
  assumes "inv X Y s" and same: "\<And>t. task_heap s a = Some t \<Longrightarrow> task_same t (f t)"
    and "wf_flight X' Y (upd_task a f s)"
  shows "inv X' Y (upd_task a f s)"
proof -
  let ?s = "upd_task a f s"
  have tasks: "\<And>b t. task_heap s b = Some t \<Longrightarrow> task_ok s b t"
    and retries: "\<And>r rt. retry_heap s r = Some rt \<Longrightarrow> retry_ok s r rt" and map_ok: "task_map_ok s"
    and inj: "inj_on (retry_pair s) (dom (retry_heap s))"
    using assms(1) by (auto simp: inv_def wf_tasks_def)
  have "task_ok ?s b t" if "task_heap ?s b = Some t" for b t
  proof (cases "b = a")
    case True
    then obtain u where u: "task_heap s a = Some u" "t = f u" using \<open>task_heap ?s b = Some t\<close> by auto
    then show ?thesis using tasks [OF u(1)] same [OF u(1)] True by (auto simp: task_ok_def task_same_def)
  next
    case False
    then show ?thesis using tasks [of b t] that by (simp add: task_ok_def)
  qed
  moreover have "retry_ok ?s r rt" if "retry_heap ?s r = Some rt" for r rt
    using retries [of r rt] that same by (fastforce simp: retry_ok_def task_same_def)
  moreover have "task_map_ok ?s" using map_ok by (simp add: task_map_ok_def)
  ultimately have "wf_tasks ?s" using inj by (simp add: wf_tasks_def)
  moreover have "wf_inputs ?s"
    using assms(1) same by (fastforce simp: inv_def wf_inputs_def task_same_def)
  ultimately show ?thesis using assms(1,3) by (simp add: inv_def)
qed

lemma inv_users_inc:
  assumes "inv X Y s" and "task_heap s a = Some t" and "task_status t \<noteq> TASK_NEW"
    and "(a, n) \<notin># flight s + X + waiting Y s"
  shows "inv (add_mset (a, n) X) Y (flb_task_users_inc a s)"
proof -
  let ?f = "\<lambda>t. t\<lparr>task_users := task_users t + 1\<rparr>"
  note F = wf_flightD [OF invD(4) [OF assms(1)]]
  have "wf_flight (add_mset (a, n) X) Y (upd_task a ?f s)"
  proof (rule wf_flightI)
    show "\<exists>t. task_heap (upd_task a ?f s) (fst p) = Some t"
      if "p \<in># flight (upd_task a ?f s) + add_mset (a, n) X" for p
      using F(1) [of p] that assms(2) by auto
    show "int (refs (flight (upd_task a ?f s) + add_mset (a, n) X) b) \<le> task_users u"
      if "task_heap (upd_task a ?f s) b = Some u" for b u
      using F(2) [of b] that by (auto split: if_splits)
    show "refs (flight (upd_task a ?f s) + add_mset (a, n) X) b = 0 \<and> task_retries u = []"
      if "task_heap (upd_task a ?f s) b = Some u" "task_status u = TASK_NEW" for b u
      using F(3) [of b u] that assms(2,3) by (auto split: if_splits)
    show "count (flight (upd_task a ?f s) + add_mset (a, n) X + waiting Y (upd_task a ?f s)) p \<le> 1" for p
      using F(4) [of p] assms(4) by (cases "p = (a, n)") (simp_all add: not_in_iff)
  qed (use F(5,6) in auto)
  then show ?thesis
    unfolding flb_task_users_inc_def by (rule inv_upd_task [OF assms(1), rotated]) (simp add: task_same_def)
qed

lemma inv_users_dec:
  assumes "inv (add_mset (a, n) X) Y s"
  shows "inv X Y (flb_task_users_dec e a False s)"
proof -
  let ?f = "\<lambda>t. t\<lparr>task_users := task_users t - 1\<rparr>"
  note F = wf_flightD [OF invD(4) [OF assms]]
  note W = wf_flightD [OF invD(4) [OF inv_weaken [OF assms, of X]], simplified]
  have "wf_flight X Y (upd_task a ?f s)"
  proof (rule wf_flightI)
    show "int (refs (flight (upd_task a ?f s) + X) b) \<le> task_users u"
      if "task_heap (upd_task a ?f s) b = Some u" for b u
      using F(2) [of b] that by (auto split: if_splits)
    show "refs (flight (upd_task a ?f s) + X) b = 0 \<and> task_retries u = []"
      if "task_heap (upd_task a ?f s) b = Some u" "task_status u = TASK_NEW" for b u
      using W(3) [of b] that by (auto split: if_splits)
    show "\<exists>t. task_heap (upd_task a ?f s) (fst p) = Some t" if "p \<in># flight (upd_task a ?f s) + X" for p
      using W(1) [of p] that by auto
  qed (use W in auto)
  then show ?thesis
    using inv_upd_task [OF assms, of a ?f X] by (simp add: flb_task_users_dec_def task_same_def)
qed

lemma flight_upd_out:
  assumes "wf_outs s" and "flb_output_get_instance s n = Some out" and "\<And>out. o_id (f out) = o_id out"
  shows "flight (upd_out n f s) = out_pairs (task_map s) (f out) + rest_pairs n s"
proof -
  have get: "flb_output_get_instance (upd_out n f s) n = Some (f out)"
    using get_upd_out [of f n s n] assms by simp
  have d: "distinct (map o_id (cf_outputs (upd_out n f s)))"
    using assms(1) upd_out_ids [of f n s, OF assms(3)] by (simp add: wf_outs_def)
  show ?thesis
    using sum_list_filter_id [OF d, of "f out" "out_pairs (task_map s)"] get_instance_Some [OF get]
      upd_out_rest [of f n s, OF assms(3)]
    by (simp add: flight_def rest_pairs_def)
qed

lemma pair_cong: "retry_heap s' = retry_heap s \<Longrightarrow> retry_pair s' = retry_pair s"
  by (simp add: retry_pair_def fun_eq_iff)

lemma pair_upd_out [simp]: "retry_pair (upd_out n f s) = retry_pair s"
  by (rule pair_cong) simp

lemma upd_out_views [simp]:
  "reqs (upd_out n f s) = reqs s"
  "waiting Y (upd_out n f s) = waiting Y s" "sched_inv (upd_out n f s) = sched_inv s"
  "sched_cfg_ok (upd_out n f s) = sched_cfg_ok s" "out_ok (upd_out n f s) = out_ok s"
  by (simp_all add: reqs_def waiting_def sched_inv_def sched_cfg_ok_def out_ok_def fun_eq_iff)

text \<open>The pairs of an output change hands with the running handler.\<close>

lemma wf_flight_cong:
  assumes "wf_flight X Y s" and "flight s' + X' = flight s + X" and "task_heap s' = task_heap s"
    and "retry_heap s' = retry_heap s" and "reqs s' = reqs s"
  shows "wf_flight X' Y s'"
proof -
  have "waiting Y s' = waiting Y s" using assms(5) pair_cong [OF assms(4)] by (simp add: waiting_def)
  then show ?thesis using assms unfolding wf_flight_def by simp
qed

lemma inv_upd_out:
  assumes "inv X Y s" and "flb_output_get_instance s n = Some out" and ids: "\<And>out. o_id (f out) = o_id out"
    and "out_ok s (f out)"
    and "out_pairs (task_map s) (f out) + X' = out_pairs (task_map s) out + X"
  shows "inv X' Y (upd_out n f s)"
proof -
  let ?s = "upd_out n f s"
  note I = invD [OF assms(1)]
  have oids: "oids ?s = oids s" using ids by (rule upd_out_oids)
  have mem: "out' = out" if "out' \<in> set (cf_outputs s)" "o_id out' = n" for out'
    using I(1) that get_instance_Some [OF assms(2)] by (auto simp: wf_outs_def distinct_map inj_on_def)
  have "\<forall>out' \<in> set (cf_outputs ?s). out_ok s out'"
    using I(1) assms(4) mem by (auto simp: wf_outs_def upd_out_def)
  then have "wf_outs ?s" using I(1) upd_out_ids [of f n s, OF ids] by (simp add: wf_outs_def)
  moreover have "flight ?s + X' = flight s + X"
    using flight_upd_out [OF I(1) assms(2) ids] flight_split [OF I(1) assms(2)] assms(5)
    by (metis add.assoc add.commute)
  then have "wf_flight X' Y ?s" by (rule wf_flight_cong [OF I(4)]) simp_all
  moreover have "wf_tasks ?s"
    using I(2) by (simp add: wf_tasks_def task_ok_def retry_ok_def task_map_ok_def oids)
  moreover have "wf_inputs ?s" using I(3) by (simp add: wf_inputs_def oids)
  ultimately show ?thesis using I by (simp add: inv_def)
qed

lemma inv_upd_out_same:
  assumes "inv X Y s" and ids: "\<And>out. o_id (f out) = o_id out"
    and "\<And>out. out \<in> set (cf_outputs s) \<Longrightarrow> o_id out = n \<Longrightarrow> out_ok s (f out)"
    and "\<And>tm out. out_pairs tm (f out) = out_pairs tm out"
  shows "inv X Y (upd_out n f s)"
proof (cases "flb_output_get_instance s n")
  case None
  then have "map (\<lambda>out. if o_id out = n then f out else out) (cf_outputs s) = cf_outputs s"
    by (intro map_idI) (auto simp: flb_output_get_instance_def find_None_iff)
  then have "upd_out n f s = s" by (simp add: upd_out_def)
  then show ?thesis using assms(1) by simp
next
  case (Some out)
  then show ?thesis
    using inv_upd_out [OF assms(1) Some ids, of X] assms(3,4) get_instance_Some [OF Some] by simp
qed

lemma out_ok_mono:
  assumes "out_ok s out" and "sched_brk s \<le> sched_brk s'" and "task_map s' = task_map s"
    and "\<And>r. r \<in> dom (retry_heap s) \<Longrightarrow> r \<in> dom (retry_heap s') \<and> retry_pair s' r = retry_pair s r"
  shows "out_ok s' out"
proof -
  have "r \<in> dom (retry_heap s') \<and> retry_pair s' r = (eq_task q, o_id out)"
    if "q \<in> set (pending (o_singleplex_queue out))" "eq_retry q = Some r" for q r
    using assms(1,4) that by (auto simp: out_ok_def)
  moreover have "\<forall>f \<in> set (o_flush_list out @ o_flush_list_destroy out). fl_addr f < sched_brk s'"
    using assms(1,2) less_le_trans unfolding out_ok_def by blast
  ultimately show ?thesis using assms(1) by (simp add: out_ok_def assms(3))
qed

section \<open>Changes of the scheduler\<close>

lemma inv_sched:
  assumes "inv X Y s" and "nosched s' = nosched s" and "sched_inv s'" and "sched_brk s \<le> sched_brk s'"
    and "wf_flight X Y' s'"
  shows "inv X Y' s'"
proof -
  note D = noschedD [OF assms(2)] and I = invD [OF assms(1)]
  have oids: "oids s' = oids s" by (simp add: oids_def D)
  have pair: "retry_pair s' = retry_pair s" using D(2) by (rule pair_cong)
  have "wf_outs s'"
    using I(1) out_ok_mono [of s _ s'] assms(4) D pair by (simp add: wf_outs_def)
  moreover have "wf_tasks s'"
  proof -
    have "task_ok s' a t" if "task_ok s a t" for a t
      using that assms(4) by (simp add: task_ok_def D oids)
    moreover have "retry_ok s' r rt" if "retry_ok s r rt" for r rt
      using that assms(4) by (simp add: retry_ok_def D oids)
    ultimately show ?thesis using I(2) by (simp add: wf_tasks_def task_map_ok_def D pair)
  qed
  moreover have "wf_inputs s'" using I(3) by (simp add: wf_inputs_def D oids)
  moreover have "sched_cfg_ok s'" using I(6) by (simp add: sched_cfg_ok_def D)
  ultimately show ?thesis using assms(3,5) by (simp add: inv_def)
qed

lemma flight_cong: "cf_outputs s' = cf_outputs s \<Longrightarrow> task_map s' = task_map s \<Longrightarrow> flight s' = flight s"
  by (simp add: flight_def)

lemma inv_sched_same:
  assumes "inv X Y s" and "nosched s' = nosched s" and "sched_inv s'" and "sched_brk s \<le> sched_brk s'"
    and "reqs s' = reqs s"
  shows "inv X Y s'"
  by (rule inv_sched [OF assms(1-4)], rule wf_flight_cong [OF invD(4) [OF assms(1)]])
     (simp_all add: noschedD [OF assms(2)] assms(5) flight_cong [OF noschedD(4,3) [OF assms(2)]])

lemma inv_brk:
  assumes "inv X Y s" and "sched_brk s \<le> n"
  shows "inv X Y (s\<lparr>sched_brk := n\<rparr>)"
  using assms by (intro inv_sched_same [OF assms(1)]) (simp_all add: nosched_def sched_inv_brk invD reqs_def)

text \<open>A new request for a retry whose pair is free.\<close>

lemma inv_request_added:
  assumes "inv X Y s" and "nosched s' = nosched s" and "sched_inv s'" and "sched_brk s \<le> sched_brk s'"
    and "reqs s' = add_mset r (reqs s)" and "r \<in> dom (retry_heap s)"
    and "retry_pair s r \<notin># flight s + X + waiting Y s"
  shows "inv X Y s'"
proof -
  note D = noschedD [OF assms(2)] and F = wf_flightD [OF invD(4) [OF assms(1)]]
  have fl: "flight s' = flight s" using D(4,3) by (rule flight_cong)
  have diff: "reqs s' - Y = add_mset r (reqs s - Y)"
    using multiset_diff_union_assoc [OF F(5), of "{#r#}"] assms(5) by simp
  have w: "waiting Y s' = add_mset (retry_pair s r) (waiting Y s)"
    by (simp add: waiting_def diff pair_cong [OF D(2)])
  have "wf_flight X Y s'"
  proof (rule wf_flightI)
    show "count (flight s' + X + waiting Y s') p \<le> 1" for p
      using F(4) [of p] assms(7) by (cases "p = retry_pair s r") (simp_all add: fl w not_in_iff)
    show "Y \<subseteq># reqs s'" using F(5) assms(5) by (metis add_mset_remove_trivial diff_subset_eq_self subset_mset.order_trans)
    show "\<exists>rt. retry_heap s' r' = Some rt" if "r' \<in># reqs s' - Y" for r'
      using that F(6) [of r'] assms(6) by (auto simp: diff D)
  qed (use F in \<open>auto simp: fl D\<close>)
  then show ?thesis by (rule inv_sched [OF assms(1-4)])
qed

section \<open>Retry contexts\<close>

lemma retry_destroy_fields:
  assumes "sched_inv s" and "retry_heap s r = Some rt" and "s' = flb_task_retry_destroy r s"
  shows "retry_heap s' = (retry_heap s)(r := None)"
    "task_heap s' = (task_heap s)(rt_parent rt :=
       map_option (\<lambda>t. t\<lparr>task_retries := filter (\<lambda>x. x \<noteq> r) (task_retries t)\<rparr>) (task_heap s (rt_parent rt)))"
    "task_map s' = task_map s" "cf_outputs s' = cf_outputs s" "cf_inputs s' = cf_inputs s"
    "chunk_heap s' = chunk_heap s" "sched_inv s'" "sched_brk s' = sched_brk s" "reqs s' = reqs s - {#r#}"
    "sched_base s' = sched_base s" "sched_cap s' = sched_cap s"
proof -
  let ?s1 = "snd (flb_sched_request_invalidate r s)"
  note E = request_invalidate_effect [OF assms(1) refl, of r] and D = noschedD [OF E(1)]
  have s': "s' = (upd_task (rt_parent rt) (\<lambda>t. t\<lparr>task_retries := filter (\<lambda>x. x \<noteq> r) (task_retries t)\<rparr>) ?s1)
      \<lparr>retry_heap := (retry_heap ?s1)(r := None)\<rparr>"
    using assms(2,3) by (simp add: flb_task_retry_destroy_def Let_def)
  have "sched_inv s' = sched_inv ?s1" unfolding s' by (simp add: sched_inv_def)
  then show "sched_inv s'" using E(2) by simp
  show "reqs s' = reqs s - {#r#}" using E(4) by (simp add: s' reqs_def)
  show "retry_heap s' = (retry_heap s)(r := None)"
    "task_heap s' = (task_heap s)(rt_parent rt :=
       map_option (\<lambda>t. t\<lparr>task_retries := filter (\<lambda>x. x \<noteq> r) (task_retries t)\<rparr>) (task_heap s (rt_parent rt)))"
    "task_map s' = task_map s" "cf_outputs s' = cf_outputs s" "cf_inputs s' = cf_inputs s"
    "chunk_heap s' = chunk_heap s" "sched_brk s' = sched_brk s"
    "sched_base s' = sched_base s" "sched_cap s' = sched_cap s"
    by (simp_all add: s' D E upd_task_def)
qed

lemma retry_destroy_dead: "retry_heap s r = None \<Longrightarrow> flb_task_retry_destroy r s = s"
  by (simp add: flb_task_retry_destroy_def)

lemma pending_in_flight:
  assumes "out \<in> set (cf_outputs s)" and "q \<in> set (pending (o_singleplex_queue out))"
  shows "(eq_task q, o_id out) \<in># flight s"
proof -
  have "out_pairs tm out \<subseteq># sum_list (map (out_pairs tm) outs)" if "out \<in> set outs" for tm outs
    using that by (induction outs) (auto simp: subset_mset.add_increasing2 subset_mset.add_increasing)
  then have "out_pairs (task_map s) out \<subseteq># flight s" using assms(1) by (simp add: flight_def)
  then show ?thesis
    using assms(2) by (auto simp: out_pairs_def elim!: mset_subset_eqD)
qed

lemma count_image_ge: "count M x \<le> count (image_mset f M) (f x)"
  by (induction M) auto

lemma mset_diff_mono: "A \<subseteq># B \<Longrightarrow> C - B \<subseteq># C - A"
  by (simp add: subseteq_mset_def diff_le_mono2)

text \<open>
  The destruction of a retry context whose pair is not in flight and that has at most one request,
  possibly the one about to be destroyed.
\<close>

lemma inv_retry_destroy:
  assumes I: "inv X Y s" and "Y \<subseteq># {#r#}" and "count (reqs s) r \<le> 1"
    and "retry_heap s r \<noteq> None \<Longrightarrow> retry_pair s r \<notin># flight s"
    and "retry_heap s r = None \<Longrightarrow> Y = {#}"
  shows "inv X {#} (flb_task_retry_destroy r s)"
proof (cases "retry_heap s r")
  case None
  then show ?thesis using assms by (simp add: retry_destroy_dead)
next
  case (Some rt)
  let ?s = "flb_task_retry_destroy r s" and ?a = "rt_parent rt"
  note S = retry_destroy_fields [OF invD(5) [OF I] Some refl] and F = wf_flightD [OF invD(4) [OF I]]
  have tasks: "\<And>b t. task_heap s b = Some t \<Longrightarrow> task_ok s b t"
    and retries: "\<And>r rt. retry_heap s r = Some rt \<Longrightarrow> retry_ok s r rt"
    using invD(2) [OF I] by (auto simp: wf_tasks_def)
  have heap: "\<exists>u. task_heap s b = Some u \<and> t = u\<lparr>task_retries := filter (\<lambda>x. x \<noteq> r) (task_retries u)\<rparr>"
    if "task_heap ?s b = Some t" for b t
  proof (cases "b = ?a")
    case True
    then show ?thesis using that by (auto simp: S(2))
  next
    case False
    then have "task_heap s b = Some t" using that by (simp add: S(2))
    moreover have "r \<notin> set (task_retries t)"
      using tasks [OF calculation] False Some by (auto simp: task_ok_def)
    then have "filter (\<lambda>x. x \<noteq> r) (task_retries t) = task_retries t" by (intro filter_True) auto
    ultimately show ?thesis by simp
  qed
  have pair: "retry_pair ?s r' = retry_pair s r'" if "r' \<noteq> r" for r'
    using that by (simp add: retry_pair_def S(1))
  have fl: "flight ?s = flight s" using S(4,3) by (rule flight_cong)
  have oids: "oids ?s = oids s" by (simp add: oids_def S)
  have sub: "reqs s - {#r#} \<subseteq># reqs s - Y" using assms(2) by (rule mset_diff_mono)
  have notin: "r \<notin># reqs s - {#r#}" using assms(3) by (simp add: not_in_iff)
  have "waiting {#} ?s = image_mset (retry_pair s) (reqs s - {#r#})"
    using notin pair by (auto simp: waiting_def S(9) intro!: image_mset_cong) metis
  then have w: "waiting {#} ?s \<subseteq># waiting Y s"
    using sub by (simp add: waiting_def image_mset_subseteq_mono)
  have "wf_flight X {#} ?s"
  proof (rule wf_flightI)
    show "\<exists>t. task_heap ?s (fst p) = Some t" if "p \<in># flight ?s + X" for p
      using F(1) [of p] that by (auto simp: fl S(2))
    show "int (refs (flight ?s + X) b) \<le> task_users t" if "task_heap ?s b = Some t" for b t
      using heap [OF that] F(2) [of b] by (auto simp: fl)
    show "refs (flight ?s + X) b = 0 \<and> task_retries t = []"
      if "task_heap ?s b = Some t" "task_status t = TASK_NEW" for b t
      using heap [OF that(1)] that(2) F(3) [of b] by (auto simp: fl)
    show "count (flight ?s + X + waiting {#} ?s) p \<le> 1" for p
      using F(4) [of p] mset_subset_eq_count [OF w, of p] by (simp add: fl)
    show "{#} \<subseteq># reqs ?s" by simp
    show "\<exists>rt. retry_heap ?s r' = Some rt" if "r' \<in># reqs ?s - {#}" for r'
      using that F(6) [of r'] mset_subset_eqD [OF sub] notin by (auto simp: S(1,9))
  qed
  moreover have "wf_tasks ?s"
    unfolding wf_tasks_def
  proof (intro conjI allI impI)
    show "task_ok ?s b t" if "task_heap ?s b = Some t" for b t
      using heap [OF that] tasks [of b] by (auto simp: task_ok_def S oids image_subset_iff)
    show "retry_ok ?s r' rt'" if "retry_heap ?s r' = Some rt'" for r' rt'
      using that retries [of r' rt'] by (auto simp: retry_ok_def S oids split: if_splits)
    show "inj_on (retry_pair ?s) (dom (retry_heap ?s))"
      using invD(2) [OF I] by (auto simp: wf_tasks_def inj_on_def S(1) pair domIff split: if_splits)
    show "task_map_ok ?s" using invD(2) [OF I] by (simp add: wf_tasks_def task_map_ok_def S(3))
  qed
  moreover have "wf_outs ?s"
  proof -
    have "out_ok ?s out" if out: "out \<in> set (cf_outputs s)" for out
    proof -
      have ok: "out_ok s out" using invD(1) [OF I] out by (simp add: wf_outs_def)
      have "r' \<noteq> r" if "q \<in> set (pending (o_singleplex_queue out))" "eq_retry q = Some r'" for q r'
        using ok that pending_in_flight [OF out that(1)] assms(4) Some by (auto simp: out_ok_def)
      then show ?thesis using ok unfolding out_ok_def S(1,3,8) by (auto simp: pair)
    qed
    then show ?thesis using invD(1) [OF I] by (simp add: wf_outs_def S(4))
  qed
  moreover have "wf_inputs ?s"
  proof -
    have "\<exists>t. task_heap ?s b = Some t \<and> task_i_ins t = Some n" if "task_heap s b = Some u" "task_i_ins u = Some n" for b u n
      using that by (auto simp: S(2))
    then show ?thesis using invD(3) [OF I] unfolding wf_inputs_def S(5) oids by blast
  qed
  ultimately show ?thesis
    using S(7) invD(6) [OF I] by (simp add: inv_def sched_cfg_ok_def S(10,11))
qed

text \<open>A request counted by the invariant is the only one for its retry.\<close>

lemma reqs_once:
  assumes "inv X {#} s"
  shows "count (reqs s) r \<le> 1"
proof -
  have "count (reqs s) r \<le> count (waiting {#} s) (retry_pair s r)"
    using count_image_ge [of "reqs s"] by (simp add: waiting_def)
  also have "\<dots> \<le> count (flight s + X + waiting {#} s) (retry_pair s r)" by simp
  also have "\<dots> \<le> 1" using wf_flightD(4) [OF invD(4) [OF assms]] .
  finally show ?thesis .
qed

lemma inv_retry_destroy_free:
  assumes "inv X {#} s" and "retry_heap s r \<noteq> None \<Longrightarrow> retry_pair s r \<notin># flight s"
  shows "inv X {#} (flb_task_retry_destroy r s)"
  using inv_retry_destroy [OF assms(1) _ reqs_once [OF assms(1)]] assms(2) by simp

lemma core_retry_chunk_down [simp]: "core (retry_chunk_down e a s) = core s"
  by (simp add: retry_chunk_down_def Let_def split: option.split)

lemma retry_for_Some:
  assumes "retry_for s n rs = Some r"
  obtains rt where "r \<in> set rs" "retry_heap s r = Some rt" "rt_o_ins rt = n"
  using assms by (auto simp: retry_for_def dest!: find_SomeD split: option.splits)

lemma retry_for_None:
  "retry_for s n rs = None \<Longrightarrow> r \<in> set rs \<Longrightarrow> retry_heap s r = Some rt \<Longrightarrow> rt_o_ins rt \<noteq> n"
  by (auto simp: retry_for_def find_None_iff)

lemma inv_upd_retry:
  assumes I: "inv X Y s" and f: "\<And>rt. rt_parent (f rt) = rt_parent rt \<and> rt_o_ins (f rt) = rt_o_ins rt"
  shows "inv X Y (upd_retry r f s)"
proof -
  let ?s = "upd_retry r f s"
  have frame: "task_heap ?s = task_heap s" "task_map ?s = task_map s" "cf_outputs ?s = cf_outputs s"
    "cf_inputs ?s = cf_inputs s" "requests ?s = requests s" "requests_wait ?s = requests_wait s"
    "timers ?s = timers s" "timers_drop ?s = timers_drop s" "sched_brk ?s = sched_brk s"
    "sched_base ?s = sched_base s" "sched_cap ?s = sched_cap s"
    by (simp_all add: upd_retry_def)
  have pair: "retry_pair ?s = retry_pair s" using f by (auto simp: retry_pair_def upd_retry_def fun_eq_iff split: option.splits)
  have dom: "dom (retry_heap ?s) = dom (retry_heap s)" by (auto simp: upd_retry_def split: if_splits)
  have get: "\<exists>rt'. retry_heap s r' = Some rt' \<and> rt_parent rt' = rt_parent rt \<and> rt_o_ins rt' = rt_o_ins rt"
    if "retry_heap ?s r' = Some rt" for r' rt
    using that f by (auto simp: upd_retry_def split: if_splits)
  have put: "\<exists>rt'. retry_heap ?s r' = Some rt' \<and> rt_parent rt' = rt_parent rt \<and> rt_o_ins rt' = rt_o_ins rt"
    if "retry_heap s r' = Some rt" for r' rt
    using that f by (auto simp: upd_retry_def split: if_splits)
  have oids: "oids ?s = oids s" by (simp add: oids_def frame)
  have fl: "flight ?s = flight s" using frame(3,2) by (rule flight_cong)
  have "wf_outs ?s" using invD(1) [OF I] by (simp add: wf_outs_def out_ok_def frame pair dom)
  moreover have "wf_tasks ?s"
  proof -
    have "task_ok ?s a t" if "task_ok s a t" for a t
      using that put by (fastforce simp: task_ok_def frame oids)
    moreover have "retry_ok ?s r' rt" if "retry_heap ?s r' = Some rt" for r' rt
      using get [OF that] invD(2) [OF I] by (fastforce simp: wf_tasks_def retry_ok_def frame oids)
    ultimately show ?thesis using invD(2) [OF I] by (simp add: wf_tasks_def task_map_ok_def frame pair dom)
  qed
  moreover have "wf_inputs ?s" using invD(3) [OF I] by (simp add: wf_inputs_def frame oids)
  moreover have "wf_flight X Y ?s"
    using invD(4) [OF I] by (simp add: wf_flight_def fl frame waiting_def pair dom reqs_def)
  moreover have "sched_inv ?s = sched_inv s" by (intro sched_inv_cong frame)
  ultimately show ?thesis using I by (simp add: inv_def sched_cfg_ok_def frame)
qed

lemma inv_new_retry:
  assumes I: "inv X Y s" and t: "task_heap s a = Some t" "task_status t \<noteq> TASK_NEW" and n: "n \<in> oids s"
    and none: "retry_for s n (task_retries t) = None"
    and s': "s' = upd_task a (\<lambda>t. t\<lparr>task_retries := task_retries t @ [sched_brk s]\<rparr>)
               (s\<lparr>retry_heap := (retry_heap s)(sched_brk s \<mapsto> \<lparr>rt_attempts = 1, rt_o_ins = n, rt_parent = a\<rparr>),
                  sched_brk := sched_brk s + 1\<rparr>)"
  shows "inv X Y s'"
proof -
  let ?r = "sched_brk s" and ?rt = "\<lparr>rt_attempts = 1, rt_o_ins = n, rt_parent = a\<rparr>"
  have frame: "task_map s' = task_map s" "cf_outputs s' = cf_outputs s"
    "cf_inputs s' = cf_inputs s" "requests s' = requests s" "requests_wait s' = requests_wait s"
    "timers s' = timers s" "timers_drop s' = timers_drop s" "sched_brk s' = Suc (sched_brk s)"
    "sched_base s' = sched_base s" "sched_cap s' = sched_cap s" "retry_heap s' = (retry_heap s)(?r \<mapsto> ?rt)"
    "\<And>b. task_heap s' b = (if b = a then Some (t\<lparr>task_retries := task_retries t @ [?r]\<rparr>) else task_heap s b)"
    using t(1) by (simp_all add: s')
  have tasks: "\<And>b t. task_heap s b = Some t \<Longrightarrow> task_ok s b t"
    and retries: "\<And>r rt. retry_heap s r = Some rt \<Longrightarrow> retry_ok s r rt"
    using invD(2) [OF I] by (auto simp: wf_tasks_def)
  have fresh: "retry_heap s ?r = None"
    using retries [of ?r] by (cases "retry_heap s ?r") (auto simp: retry_ok_def)
  have newr: "?r \<notin> set (task_retries u)" if "task_heap s b = Some u" for b u
    using tasks [OF that] fresh by (auto simp: task_ok_def)
  have pair: "retry_pair s' r' = (if r' = ?r then (a, n) else retry_pair s r')" for r'
    by (simp add: retry_pair_def frame)
  have oids: "oids s' = oids s" by (simp add: oids_def frame)
  have fl: "flight s' = flight s" using frame(2,1) by (rule flight_cong)
  have reqs: "reqs s' = reqs s" by (simp add: reqs_def frame)
  note F = wf_flightD [OF invD(4) [OF I]]
  have free: "retry_pair s r' \<noteq> (a, n)" if r': "retry_heap s r' = Some rt" for r' rt
  proof
    assume eq: "retry_pair s r' = (a, n)"
    then have "rt_parent rt = a" "rt_o_ins rt = n" using r' by (simp_all add: retry_pair_def)
    moreover have "r' \<in> set (task_retries t)" using retries [OF r'] t(1) calculation(1) by (auto simp: retry_ok_def)
    ultimately show False using retry_for_None [OF none _ r'] by simp
  qed
  have w: "waiting Y s' = waiting Y s"
    using F(6) [of ?r] fresh by (auto simp: waiting_def reqs pair intro!: image_mset_cong)
  have "wf_flight X Y s'"
  proof (rule wf_flightI)
    show "\<exists>t. task_heap s' (fst p) = Some t" if "p \<in># flight s' + X" for p
      using F(1) [of p] that by (auto simp: fl frame)
    show "int (refs (flight s' + X) b) \<le> task_users u" if "task_heap s' b = Some u" for b u
      using F(2) [of b] that t(1) by (auto simp: fl frame split: if_splits)
    show "refs (flight s' + X) b = 0 \<and> task_retries u = []"
      if "task_heap s' b = Some u" "task_status u = TASK_NEW" for b u
      using F(3) [of b u] that t by (auto simp: fl frame split: if_splits)
    show "count (flight s' + X + waiting Y s') p \<le> 1" for p using F(4) [of p] by (simp add: fl w)
    show "Y \<subseteq># reqs s'" using F(5) by (simp add: reqs)
    show "\<exists>rt. retry_heap s' r' = Some rt" if "r' \<in># reqs s' - Y" for r'
      using F(6) [of r'] that by (auto simp: reqs frame)
  qed
  moreover have "wf_tasks s'"
    unfolding wf_tasks_def
  proof (intro conjI allI impI)
    show "task_ok s' b u" if "task_heap s' b = Some u" for b u
    proof (cases "b = a")
      case True
      then show ?thesis
        using that tasks [OF t(1)] newr [OF t(1)] by (auto simp: task_ok_def frame oids)
    next
      case False
      then show ?thesis using that tasks [of b u] newr [of b u] by (auto simp: task_ok_def frame oids)
    qed
    show "retry_ok s' r' rt'" if "retry_heap s' r' = Some rt'" for r' rt'
      using that retries [of r' rt'] n t(1) by (auto simp: retry_ok_def frame oids split: if_splits)
    show "inj_on (retry_pair s') (dom (retry_heap s'))"
      using invD(2) [OF I] free fresh
      by (auto simp: wf_tasks_def inj_on_def frame pair domIff split: if_splits) metis+
    show "task_map_ok s'" using invD(2) [OF I] by (simp add: wf_tasks_def task_map_ok_def frame)
  qed
  moreover have "out_ok s' out" if "out_ok s out" for out
    using that by (rule out_ok_mono) (use fresh in \<open>auto simp: frame pair\<close>)
  then have "wf_outs s'" using invD(1) [OF I] by (simp add: wf_outs_def frame)
  moreover have "wf_inputs s'"
    using invD(3) [OF I] t(1) by (fastforce simp: wf_inputs_def frame oids)
  moreover have "sched_inv s'"
    using sched_inv_brk [OF invD(5) [OF I], of "Suc ?r"] by (simp add: sched_inv_def frame)
  ultimately show ?thesis using invD(6) [OF I] by (simp add: inv_def sched_cfg_ok_def frame)
qed

text \<open>The retry context of a pair the handler has taken over.\<close>

lemma retry_create_effect:
  assumes I: "inv X {#} s" and t: "task_heap s a = Some t" and ins: "o_id ins \<in> oids s"
    and held: "(a, o_id ins) \<in># X" and eq: "flb_task_retry_create e a ins s = (res, s')"
  shows "inv X {#} s'"
    and "res = Some r \<Longrightarrow> (\<exists>rt. retry_heap s' r = Some rt) \<and> retry_pair s' r = (a, o_id ins)"
    and "\<exists>t'. task_heap s' a = Some t'"
proof -
  note F = wf_flightD [OF invD(4) [OF I]]
  have run: "task_status t \<noteq> TASK_NEW"
    using F(3) [OF t] refs_pos [OF held] by auto
  have notfl: "(a, o_id ins) \<notin># flight s"
    using F(4) [of "(a, o_id ins)"] held by (auto simp: not_in_iff dest!: multi_member_split)
  have "inv X {#} s' \<and> (res = Some r \<longrightarrow> (\<exists>rt. retry_heap s' r = Some rt) \<and> retry_pair s' r = (a, o_id ins))
      \<and> (\<exists>t'. task_heap s' a = Some t')" for r
  proof (cases "retry_for s (o_id ins) (task_retries t)")
    case (Some r')
    then obtain rt where rt: "r' \<in> set (task_retries t)" "retry_heap s r' = Some rt" "rt_o_ins rt = o_id ins"
      by (rule retry_for_Some)
    have parent: "rt_parent rt = a"
      using invD(2) [OF I] t rt(1,2) by (fastforce simp: wf_tasks_def task_ok_def)
    have pair: "retry_pair s r' = (a, o_id ins)" using rt parent by (simp add: retry_pair_def)
    show ?thesis
    proof (cases "rt_attempts rt \<ge> o_retry_limit ins \<and> o_retry_limit ins \<ge> 0")
      case True
      then have "res = None" "s' = flb_task_retry_destroy r' s"
        using eq t Some rt(2) by (simp_all add: flb_task_retry_create_def)
      then show ?thesis
        using inv_retry_destroy_free [OF I, of r'] pair notfl retry_destroy_fields [OF invD(5) [OF I] rt(2) refl]
          t parent by auto
    next
      case False
      let ?s = "upd_retry r' (\<lambda>rt. rt\<lparr>rt_attempts := rt_attempts rt + 1\<rparr>) s"
      have res: "res = Some r'" "s' = retry_chunk_down e a ?s"
        using eq t Some rt(2) False by (auto simp: flb_task_retry_create_def)
      have "inv X {#} ?s" using I by (rule inv_upd_retry) simp
      moreover have core: "core s' = core ?s" by (simp add: res)
      ultimately have "inv X {#} s'" using inv_core [OF core] by simp
      then show ?thesis
        using res(1) rt(2) pair t coreD(8,9) [OF core]
        by (auto simp: retry_pair_def upd_retry_def)
    qed
  next
    case None
    show ?thesis
    proof (cases "e_alloc e A_retry (sched_brk s)")
      case False
      then show ?thesis using eq t None I by (simp add: flb_task_retry_create_def)
    next
      case True
      let ?s = "upd_task a (\<lambda>t. t\<lparr>task_retries := task_retries t @ [sched_brk s]\<rparr>)
          (s\<lparr>retry_heap := (retry_heap s)(sched_brk s \<mapsto> \<lparr>rt_attempts = 1, rt_o_ins = o_id ins, rt_parent = a\<rparr>),
             sched_brk := sched_brk s + 1\<rparr>)"
      have res: "res = Some (sched_brk s)" "s' = retry_chunk_down e a ?s"
        using eq t None True by (simp_all add: flb_task_retry_create_def Let_def)
      have "inv X {#} ?s" using inv_new_retry [OF I t run ins None refl] .
      moreover have core: "core s' = core ?s" by (simp add: res)
      ultimately have "inv X {#} s'" using inv_core [OF core] by simp
      then show ?thesis
        using res(1) t coreD(8,9) [OF core] by (auto simp: retry_pair_def)
    qed
  qed
  then show "inv X {#} s'" "\<exists>t'. task_heap s' a = Some t'"
    "res = Some r \<Longrightarrow> (\<exists>rt. retry_heap s' r = Some rt) \<and> retry_pair s' r = (a, o_id ins)" by blast+
qed

lemma inv_retry_clean:
  assumes I: "inv X {#} s" and "(a, n) \<notin># flight s"
  shows "inv X {#} (snd (flb_task_retry_clean a n s))"
proof (cases "task_heap s a")
  case None
  then show ?thesis using I by (simp add: flb_task_retry_clean_def)
next
  case (Some t)
  show ?thesis
  proof (cases "retry_for s n (task_retries t)")
    case None
    then show ?thesis using I Some by (simp add: flb_task_retry_clean_def)
  next
    case (Some r)
    then obtain rt where rt: "r \<in> set (task_retries t)" "retry_heap s r = Some rt" "rt_o_ins rt = n"
      by (rule retry_for_Some)
    have "rt_parent rt = a"
      using invD(2) [OF I] \<open>task_heap s a = Some t\<close> rt(1,2) by (fastforce simp: wf_tasks_def task_ok_def)
    then have "retry_pair s r = (a, n)" using rt by (simp add: retry_pair_def)
    then show ?thesis
      using inv_retry_destroy_free [OF I, of r] assms(2) Some \<open>task_heap s a = Some t\<close>
      by (simp add: flb_task_retry_clean_def)
  qed
qed

section \<open>Destruction of a task\<close>

lemma fold_retry_destroy:
  assumes "sched_inv s" and "distinct rs"
    and "\<And>r. r \<in> set rs \<Longrightarrow> \<exists>rt. retry_heap s r = Some rt \<and> rt_parent rt = a"
    and "s' = fold flb_task_retry_destroy rs s"
  shows "retry_heap s' = retry_heap s |` (- set rs) \<and> (\<forall>b. b \<noteq> a \<longrightarrow> task_heap s' b = task_heap s b)
    \<and> task_map s' = task_map s \<and> cf_outputs s' = cf_outputs s \<and> cf_inputs s' = cf_inputs s
    \<and> sched_inv s' \<and> sched_brk s' = sched_brk s \<and> reqs s' = reqs s - mset rs
    \<and> sched_base s' = sched_base s \<and> sched_cap s' = sched_cap s"
  using assms
proof (induction rs arbitrary: s)
  case Nil
  then show ?case by (auto simp: restrict_map_def)
next
  case (Cons r rs)
  obtain rt where rt: "retry_heap s r = Some rt" "rt_parent rt = a" using Cons.prems(3) [of r] by auto
  note S = retry_destroy_fields [OF Cons.prems(1) rt(1) refl]
  let ?s = "flb_task_retry_destroy r s"
  have "\<exists>rt. retry_heap ?s r' = Some rt \<and> rt_parent rt = a" if "r' \<in> set rs" for r'
    using Cons.prems(2,3) that by (auto simp: S(1))
  then have IH: "retry_heap s' = retry_heap ?s |` (- set rs) \<and> (\<forall>b. b \<noteq> a \<longrightarrow> task_heap s' b = task_heap ?s b)
    \<and> task_map s' = task_map ?s \<and> cf_outputs s' = cf_outputs ?s \<and> cf_inputs s' = cf_inputs ?s
    \<and> sched_inv s' \<and> sched_brk s' = sched_brk ?s \<and> reqs s' = reqs ?s - mset rs
    \<and> sched_base s' = sched_base ?s \<and> sched_cap s' = sched_cap ?s"
    using Cons.IH [OF S(7)] Cons.prems(2,4) by simp
  have "retry_heap ?s |` (- set rs) = retry_heap s |` (- set (r # rs))"
    by (auto simp: S(1) restrict_map_def fun_eq_iff)
  with IH show ?case using rt(2) by (simp add: S(2-11))
qed

definition drop_task :: "addr \<Rightarrow> flb_input \<Rightarrow> flb_input" where
  "drop_task a i = i\<lparr>i_tasks := filter (\<lambda>b. b \<noteq> a) (i_tasks i)\<rparr>"

lemma task_destroy_fields:
  assumes "sched_inv s" and t: "task_heap s a = Some t" and "distinct (task_retries t)"
    and "\<And>r. r \<in> set (task_retries t) \<Longrightarrow> \<exists>rt. retry_heap s r = Some rt \<and> rt_parent rt = a"
    and s': "s' = flb_task_destroy e a del s"
  shows "task_heap s' = (task_heap s)(a := None)" "retry_heap s' = retry_heap s |` (- set (task_retries t))"
    "task_map s' = (task_map s)[nat (task_id t) := None]"
    "map out_core (cf_outputs s') = map out_core (cf_outputs s)"
    "map in_core (cf_inputs s') =
       map in_core (map (\<lambda>i. if task_i_ins t = Some (i_id i) then drop_task a i else i) (cf_inputs s))"
    "sched_inv s'" "sched_brk s' = sched_brk s" "reqs s' = reqs s - mset (task_retries t)"
    "sched_base s' = sched_base s" "sched_cap s' = sched_cap s"
proof -
  define s1 where "s1 = upd_task a (\<lambda>t. t\<lparr>task_routes := []\<rparr>) (map_free_task_id (task_id t) s)"
  define s2 where "s2 = (case task_i_ins t of None \<Rightarrow> s1 | Some n \<Rightarrow> upd_in n (drop_task a) s1)"
  define s3 where "s3 = (case task_ic t of
      None \<Rightarrow> s2 | Some ic \<Rightarrow> snd (flb_input_chunk_destroy (e_cio e) (e_hash e) ic del s2))"
  define s4 where "s4 = fold flb_task_retry_destroy (task_retries t) s3"
  define s5 where "s5 = (case task_i_ins t of
      None \<Rightarrow> s4 | Some n \<Rightarrow> snd (flb_input_chunk_set_limits (e_cio e) n s4))"
  have s': "s' = s5\<lparr>task_heap := (task_heap s5)(a := None)\<rparr>"
    using t by (simp add: assms(5) flb_task_destroy_def Let_def s1_def s2_def s3_def s4_def s5_def
        drop_task_def [abs_def] cong: option.case_cong)
  have S1: "\<And>b. b \<noteq> a \<Longrightarrow> task_heap s1 b = task_heap s b" "retry_heap s1 = retry_heap s"
    "task_map s1 = (task_map s)[nat (task_id t) := None]"
    "cf_outputs s1 = cf_outputs s" "cf_inputs s1 = cf_inputs s" "requests s1 = requests s"
    "requests_wait s1 = requests_wait s" "timers s1 = timers s" "timers_drop s1 = timers_drop s"
    "sched_brk s1 = sched_brk s" "sched_base s1 = sched_base s" "sched_cap s1 = sched_cap s"
    by (simp_all add: s1_def map_free_task_id_def)
  have S2: "\<And>b. task_heap s2 b = task_heap s1 b" "retry_heap s2 = retry_heap s1" "task_map s2 = task_map s1"
    "cf_outputs s2 = cf_outputs s1" "requests s2 = requests s1"
    "requests_wait s2 = requests_wait s1" "timers s2 = timers s1" "timers_drop s2 = timers_drop s1"
    "sched_brk s2 = sched_brk s1" "sched_base s2 = sched_base s1" "sched_cap s2 = sched_cap s1"
    by (simp_all add: s2_def upd_in_def split: option.split)
  have S2i: "cf_inputs s2 = map (\<lambda>i. if task_i_ins t = Some (i_id i) then drop_task a i else i) (cf_inputs s1)"
    by (auto simp: s2_def upd_in_def split: option.split)
  have c3: "core s3 = core s2" by (simp add: s3_def split: option.split)
  note S3 = coreD [OF c3]
  have inv3: "sched_inv s3"
    using assms(1) by (simp add: sched_inv_def S1 S2 S3)
  have S4: "retry_heap s4 = retry_heap s3 |` (- set (task_retries t)) \<and> (\<forall>b. b \<noteq> a \<longrightarrow> task_heap s4 b = task_heap s3 b)
    \<and> task_map s4 = task_map s3 \<and> cf_outputs s4 = cf_outputs s3 \<and> cf_inputs s4 = cf_inputs s3
    \<and> sched_inv s4 \<and> sched_brk s4 = sched_brk s3 \<and> reqs s4 = reqs s3 - mset (task_retries t)
    \<and> sched_base s4 = sched_base s3 \<and> sched_cap s4 = sched_cap s3"
    by (rule fold_retry_destroy [OF inv3 assms(3) _ s4_def]) (simp add: S3 S2 S1 assms(4))
  have c5: "core s5 = core s4" by (simp add: s5_def split: option.split)
  note S5 = coreD [OF c5]
  have "sched_inv s5 = sched_inv s4" by (intro sched_inv_cong S5)
  moreover have "sched_inv s' = sched_inv s5" by (simp add: s' sched_inv_def)
  ultimately show "sched_inv s'" using S4 by simp
  show "task_heap s' = (task_heap s)(a := None)"
    using S4 by (auto simp: s' S5 S3 S2 S1 fun_eq_iff)
  have "reqs s' = reqs s4" "reqs s3 = reqs s" by (simp_all add: reqs_def s' S5 S3 S2 S1)
  then show "reqs s' = reqs s - mset (task_retries t)" using S4 by simp
  show "retry_heap s' = retry_heap s |` (- set (task_retries t))"
    "task_map s' = (task_map s)[nat (task_id t) := None]"
    "map out_core (cf_outputs s') = map out_core (cf_outputs s)"
    "map in_core (cf_inputs s') =
       map in_core (map (\<lambda>i. if task_i_ins t = Some (i_id i) then drop_task a i else i) (cf_inputs s))"
    "sched_brk s' = sched_brk s" "sched_base s' = sched_base s" "sched_cap s' = sched_cap s"
    using S4 by (simp_all add: s' S5 S3 S2 S2i S1)
qed

lemma event_in_flight:
  assumes "out \<in> set (cf_outputs s)" and "v \<in> set (o_ch_events out)"
  shows "event_target (task_map s) v \<in># flight s"
proof -
  have "out_pairs tm out \<subseteq># sum_list (map (out_pairs tm) outs)" if "out \<in> set outs" for tm outs
    using that by (induction outs) (auto simp: subset_mset.add_increasing2 subset_mset.add_increasing)
  then have "out_pairs (task_map s) out \<subseteq># flight s" using assms(1) by (simp add: flight_def)
  then show ?thesis using assms(2) by (auto simp: out_pairs_def elim!: mset_subset_eqD)
qed

text \<open>
  Changes of the task map that keep the slots of the events in the channels keep the pairs in flight.
\<close>

lemma flight_map_cong:
  assumes "map out_core (cf_outputs s') = map out_core (cf_outputs s)"
    and "\<And>out v. out \<in> set (cf_outputs s) \<Longrightarrow> v \<in> set (o_ch_events out) \<Longrightarrow>
           task_map s' ! unat (FLB_TASK_ID (FLB_BITS_U64_LOW v)) = task_map s ! unat (FLB_TASK_ID (FLB_BITS_U64_LOW v))"
  shows "flight s' = flight s"
proof -
  have "out_pairs (task_map s') out = out_pairs (task_map s) out" if "out \<in> set (cf_outputs s)" for out
    using assms(2) [OF that] by (simp add: out_pairs_def event_target_def cong: map_cong)
  then have "map (out_pairs (task_map s')) (cf_outputs s) = map (out_pairs (task_map s)) (cf_outputs s)"
    by simp
  moreover have "map (out_pairs (task_map s')) (cf_outputs s') = map (out_pairs (task_map s')) (cf_outputs s)"
    using arg_cong [OF assms(1), of "map (out_pairs (task_map s'))"] by (simp add: comp_def)
  ultimately show ?thesis unfolding flight_def by (simp only:)
qed

lemma ids_core:
  assumes "map out_core (cf_outputs s') = map out_core (cf_outputs s)"
  shows "map o_id (cf_outputs s') = map o_id (cf_outputs s)" "oids s' = oids s"
proof -
  show "map o_id (cf_outputs s') = map o_id (cf_outputs s)"
    using arg_cong [OF assms, of "map o_id"] by (simp add: comp_def)
  then show "oids s' = oids s" by (metis list.set_map oids_def)
qed

lemma outs_ok_core:
  assumes "map out_core (cf_outputs s') = map out_core (cf_outputs s)"
    and "\<And>out. out \<in> set (cf_outputs s) \<Longrightarrow> out_ok s' out"
  shows "\<forall>out \<in> set (cf_outputs s'). out_ok s' out"
proof -
  have "\<forall>c \<in> set (map out_core (cf_outputs s)). out_ok s' c" using assms(2) by simp
  then show ?thesis by (simp flip: assms(1))
qed

lemma wf_inputs_core:
  "wf_inputs s \<longleftrightarrow> (\<forall>(n, ds, as) \<in> set (map in_core (cf_inputs s)). set ds \<subseteq> oids s \<and> distinct ds
     \<and> (\<forall>a \<in> set as. \<exists>t. task_heap s a = Some t \<and> task_i_ins t = Some n))"
  by (simp add: wf_inputs_def in_core_def)

lemma inv_task_destroy:
  assumes I: "inv X {#} s" and t: "task_heap s a = Some t" and none: "refs (flight s + X) a = 0"
  shows "inv X {#} (flb_task_destroy e a del s)"
proof -
  let ?s = "flb_task_destroy e a del s" and ?i = "nat (task_id t)" and ?rs = "task_retries t"
  have tasks: "\<And>b t. task_heap s b = Some t \<Longrightarrow> task_ok s b t"
    and retries: "\<And>r rt. retry_heap s r = Some rt \<Longrightarrow> retry_ok s r rt"
    using invD(2) [OF I] by (auto simp: wf_tasks_def)
  have ta: "task_ok s a t" using tasks t .
  note F = wf_flightD [OF invD(4) [OF I]]
  have S: "task_heap ?s = (task_heap s)(a := None)" "retry_heap ?s = retry_heap s |` (- set ?rs)"
    "task_map ?s = (task_map s)[?i := None]" "map out_core (cf_outputs ?s) = map out_core (cf_outputs s)"
    "map in_core (cf_inputs ?s) =
       map in_core (map (\<lambda>i. if task_i_ins t = Some (i_id i) then drop_task a i else i) (cf_inputs s))"
    "sched_inv ?s" "sched_brk ?s = sched_brk s" "reqs ?s = reqs s - mset ?rs"
    "sched_base ?s = sched_base s" "sched_cap ?s = sched_cap s"
    by (rule task_destroy_fields [OF invD(5) [OF I] t _ _ refl]; use ta in \<open>simp add: task_ok_def\<close>)+
  have nofl: "fst p \<noteq> a" if "p \<in># flight s + X" for p using refs_pos [OF that] none by auto
  have slot: "unat (FLB_TASK_ID (FLB_BITS_U64_LOW v)) \<noteq> ?i"
    if "out \<in> set (cf_outputs s)" "v \<in> set (o_ch_events out)" for out v
    using nofl [of "event_target (task_map s) v"] event_in_flight [OF that] ta
    by (auto simp: event_target_def task_ok_def)
  have fl: "flight ?s = flight s"
    using slot by (intro flight_map_cong S(4)) (metis S(3) nth_list_update_neq)
  note ids = ids_core [OF S(4)]
  have own: "b = a" if "task_heap s b = Some u" "r \<in> set (task_retries u)" "r \<in> set ?rs" for b u r
    using tasks [OF that(1)] that ta by (fastforce simp: task_ok_def)
  have pair: "retry_pair ?s r = retry_pair s r" if "r \<notin> set ?rs" for r
    using that by (simp add: retry_pair_def S(2))
  have gone: "r \<notin> set ?rs" if "r \<in># reqs s - mset ?rs" for r
  proof
    assume "r \<in> set ?rs"
    then have "count (mset ?rs) r \<ge> 1" by (simp add: Suc_le_eq count_greater_zero_iff)
    moreover have "count (mset ?rs) r < count (reqs s) r" using that by (simp only: in_diff_count)
    ultimately show False using reqs_once [OF I, of r] by linarith
  qed
  have "waiting {#} ?s = image_mset (retry_pair s) (reqs s - mset ?rs)"
    using gone pair by (auto simp: waiting_def S(8) intro!: image_mset_cong)
  then have w: "waiting {#} ?s \<subseteq># waiting {#} s" by (simp add: waiting_def image_mset_subseteq_mono)
  have "wf_flight X {#} ?s"
  proof (rule wf_flightI)
    show "\<exists>t. task_heap ?s (fst p) = Some t" if "p \<in># flight ?s + X" for p
      using F(1) [of p] nofl [of p] that by (auto simp: fl S(1))
    show "int (refs (flight ?s + X) b) \<le> task_users u" if "task_heap ?s b = Some u" for b u
      using F(2) [of b u] that by (auto simp: fl S(1) split: if_splits)
    show "refs (flight ?s + X) b = 0 \<and> task_retries u = []"
      if "task_heap ?s b = Some u" "task_status u = TASK_NEW" for b u
      using F(3) [of b u] that by (auto simp: fl S(1) split: if_splits)
    show "count (flight ?s + X + waiting {#} ?s) p \<le> 1" for p
      using F(4) [of p] mset_subset_eq_count [OF w, of p] by (simp add: fl)
    show "\<exists>rt. retry_heap ?s r = Some rt" if "r \<in># reqs ?s - {#}" for r
      using that F(6) [of r] gone [of r] by (auto simp: S(2,8) restrict_map_def dest: in_diffD)
  qed simp
  moreover have "wf_tasks ?s"
    unfolding wf_tasks_def
  proof (intro conjI allI impI)
    show "task_ok ?s b u" if "task_heap ?s b = Some u" for b u
    proof -
      have u: "task_heap s b = Some u" "b \<noteq> a" using that by (auto simp: S(1) split: if_splits)
      have "nat (task_id u) \<noteq> ?i" using tasks [OF u(1)] ta u(2) by (auto simp: task_ok_def)
      then show ?thesis
        using tasks [OF u(1)] own [OF u(1)] u(2) by (fastforce simp: task_ok_def S ids restrict_map_def)
    qed
    show "retry_ok ?s r rt" if "retry_heap ?s r = Some rt" for r rt
    proof -
      have r: "retry_heap s r = Some rt" "r \<notin> set ?rs" using that by (auto simp: S(2) restrict_map_def split: if_splits)
      then show ?thesis using retries [OF r(1)] t by (auto simp: retry_ok_def S ids)
    qed
    show "inj_on (retry_pair ?s) (dom (retry_heap ?s))"
      using invD(2) [OF I] by (auto simp: wf_tasks_def inj_on_def S(2) pair)
    show "task_map_ok ?s" using invD(2) [OF I] by (simp add: wf_tasks_def task_map_ok_def S(3))
  qed
  moreover have "wf_outs ?s"
  proof -
    have "out_ok ?s out" if out: "out \<in> set (cf_outputs s)" for out
    proof -
      have ok: "out_ok s out" using invD(1) [OF I] out by (simp add: wf_outs_def)
      have "r \<notin> set ?rs" if q: "q \<in> set (pending (o_singleplex_queue out))" "eq_retry q = Some r" for q r
      proof
        assume "r \<in> set ?rs"
        then have "fst (retry_pair s r) = a" using ta by (auto simp: task_ok_def retry_pair_def)
        moreover have "retry_pair s r = (eq_task q, o_id out)" using ok q by (auto simp: out_ok_def)
        ultimately show False using nofl [of "(eq_task q, o_id out)"] pending_in_flight [OF out q(1)] by simp
      qed
      moreover have "event_ok (task_map ?s) out v" if "v \<in> set (o_ch_events out)" for v
        using ok slot [OF out that] that by (auto simp: out_ok_def event_ok_def S(3))
      ultimately show ?thesis
        using ok unfolding out_ok_def S(2,7) by (auto simp: pair)
    qed
    then show ?thesis using invD(1) [OF I] outs_ok_core [OF S(4)] by (simp add: wf_outs_def ids)
  qed
  moreover have "wf_inputs ?s"
    using invD(3) [OF I] t unfolding wf_inputs_core S(1,5) ids
    by (auto simp: in_core_def drop_task_def wf_inputs_def) (metis option.inject)+
  ultimately show ?thesis using S(6) invD(6) [OF I] by (simp add: inv_def sched_cfg_ok_def S(9,10))
qed

lemma task_destroy_core:
  assumes I: "inv X {#} s"
  shows "map out_core (cf_outputs (flb_task_destroy e a del s)) = map out_core (cf_outputs s)"
proof (cases "task_heap s a")
  case None
  then show ?thesis by (simp add: flb_task_destroy_def)
next
  case (Some t)
  have "task_ok s a t" using invD(2) [OF I] Some by (simp add: wf_tasks_def)
  then show ?thesis
    by (intro task_destroy_fields(4) [OF invD(5) [OF I] Some _ _ refl]) (simp_all add: task_ok_def)
qed

lemma inv_users_release:
  assumes I: "inv X {#} s"
  shows "inv X {#} (flb_task_users_release e a s)"
proof (cases "task_heap s a")
  case None
  then show ?thesis using I by (simp add: flb_task_users_release_def)
next
  case (Some t)
  show ?thesis
  proof (cases "task_users t = 0 \<and> length (task_retries t) = 0")
    case True
    then have "refs (flight s + X) a = 0" using wf_flightD(2) [OF invD(4) [OF I] Some] by simp
    then show ?thesis using inv_task_destroy [OF I Some] True Some by (simp add: flb_task_users_release_def)
  next
    case False
    then show ?thesis using I Some by (auto simp: flb_task_users_release_def)
  qed
qed

lemma users_dec_True: "flb_task_users_dec e a True s = flb_task_users_release e a (flb_task_users_dec e a False s)"
  by (simp add: flb_task_users_dec_def)

lemma held_free:
  assumes "inv (add_mset p X) Y s"
  shows "p \<notin># flight s + X + waiting Y s"
  using wf_flightD(4) [OF invD(4) [OF assms], of p] by (simp add: not_in_iff)

lemma held_live:
  assumes "inv (add_mset p X) Y s"
  obtains t where "task_heap s (fst p) = Some t" "task_status t \<noteq> TASK_NEW"
proof -
  note F = wf_flightD [OF invD(4) [OF assms]]
  obtain t where t: "task_heap s (fst p) = Some t" using F(1) [of p] by auto
  then show ?thesis using F(3) [OF t] that by auto
qed

lemma inv_task_finished:
  assumes "inv (add_mset (a, n) X) {#} s"
  shows "inv X {#} (task_finished e a n s)"
proof -
  have "inv (add_mset (a, n) X) {#} (snd (flb_task_retry_clean a n s))"
    using inv_retry_clean [OF assms] held_free [OF assms] by simp
  then show ?thesis
    unfolding task_finished_def users_dec_True by (intro inv_users_release inv_users_dec)
qed

lemma users_release_core:
  assumes "inv X {#} s"
  shows "map out_core (cf_outputs (flb_task_users_release e a s)) = map out_core (cf_outputs s)"
  using task_destroy_core [OF assms] by (simp add: flb_task_users_release_def split: option.split)

lemma retry_destroy_outs:
  assumes "sched_inv s"
  shows "cf_outputs (flb_task_retry_destroy r s) = cf_outputs s"
  using retry_destroy_fields(4) [OF assms _ refl] by (cases "retry_heap s r") (auto simp: retry_destroy_dead)

lemma task_finished_core:
  assumes "inv (add_mset (a, n) X) {#} s"
  shows "map out_core (cf_outputs (task_finished e a n s)) = map out_core (cf_outputs s)"
proof -
  let ?s = "snd (flb_task_retry_clean a n s)"
  have I: "inv (add_mset (a, n) X) {#} ?s"
    using inv_retry_clean [OF assms] held_free [OF assms] by simp
  have "cf_outputs ?s = cf_outputs s"
    using retry_destroy_outs [OF invD(5) [OF assms]] by (simp add: flb_task_retry_clean_def split: option.split)
  then show ?thesis
    using users_release_core [OF inv_users_dec [OF I]]
    by (simp add: task_finished_def users_dec_True) (simp add: flb_task_users_dec_def)
qed

lemma retry_create_core:
  assumes "sched_inv s"
  shows "map out_core (cf_outputs (snd (flb_task_retry_create e a ins s))) = map out_core (cf_outputs s)"
proof -
  have down: "map out_core (cf_outputs (retry_chunk_down e a u)) = map out_core (cf_outputs u)" for u
    using coreD(11) [OF core_retry_chunk_down] .
  show ?thesis
    using retry_destroy_outs [OF assms]
    by (simp add: flb_task_retry_create_def Let_def down upd_retry_def split: option.split)
qed

lemma users_dec_frame:
  "retry_heap (flb_task_users_dec e a False s) = retry_heap s" "cf_outputs (flb_task_users_dec e a False s) = cf_outputs s"
  "flight (flb_task_users_dec e a False s) = flight s" "waiting Y (flb_task_users_dec e a False s) = waiting Y s"
  "retry_pair (flb_task_users_dec e a False s) = retry_pair s"
  by (simp_all add: flb_task_users_dec_def)

lemma inv_event_retry:
  assumes I: "inv (add_mset (a, o_id ins) X) {#} s" and ins: "o_id ins \<in> oids s" and "rand_ok e"
  shows "\<exists>ret s'. event_retry e a ins s = Some (ret, s') \<and> inv X {#} s'
    \<and> map out_core (cf_outputs s') = map out_core (cf_outputs s)"
proof (cases "o_retry_limit ins = FLB_OUT_RETRY_NONE")
  case True
  then show ?thesis using inv_task_finished [OF I] task_finished_core [OF I] by (simp add: event_retry_def)
next
  case False
  obtain t where t: "task_heap s a = Some t" using held_live [OF I] by auto
  obtain res s1 where eq: "flb_task_retry_create e a ins s = (res, s1)" by fastforce
  note C = retry_create_effect [OF I t ins _ eq, simplified]
  have outs: "map out_core (cf_outputs s1) = map out_core (cf_outputs s)"
    using retry_create_core [OF invD(5) [OF I], of e a ins] eq by simp
  show ?thesis
  proof (cases res)
    case None
    then show ?thesis
      using False eq inv_task_finished [OF C(1)] task_finished_core [OF C(1), of e] outs by (simp add: event_retry_def)
  next
    case (Some r)
    let ?s2 = "flb_task_users_dec e a False s1"
    obtain rt where rt: "retry_heap s1 r = Some rt" and pair: "retry_pair s1 r = (a, o_id ins)"
      using C(2) [OF Some] by auto
    have I2: "inv X {#} ?s2" using inv_users_dec [OF C(1)] .
    have free: "retry_pair ?s2 r \<notin># flight ?s2 + X + waiting {#} ?s2"
      using held_free [OF C(1)] pair by (simp add: users_dec_frame)
    obtain sec s3 where req: "sched_request e r (rt_attempts rt) ?s2 = Some (sec, s3)" "nosched s3 = nosched ?s2"
        "sched_inv s3" "sched_brk ?s2 \<le> sched_brk s3"
        "reqs s3 = (if sec = -1 then reqs ?s2 else add_mset r (reqs ?s2))"
      using sched_request_effect [OF invD(5,6) [OF I2] assms(3)] by blast
    have ev: "event_retry e a ins s = Some (0, if sec = -1
        then flb_task_users_release e a (flb_task_retry_destroy r s3) else s3)"
      using False eq Some rt req(1) by (simp add: event_retry_def users_dec_frame)
    have outs3: "map out_core (cf_outputs s3) = map out_core (cf_outputs s)"
      using noschedD(4) [OF req(2)] outs by (simp add: users_dec_frame)
    show ?thesis
    proof (cases "sec = -1")
      case True
      then have I3: "inv X {#} s3" using inv_sched_same [OF I2 req(2-4)] req(5) by simp
      have "retry_pair s3 r \<notin># flight s3"
        using free noschedD [OF req(2)] flight_cong [of s3 ?s2] pair_cong [of s3 ?s2] by simp
      then have I4: "inv X {#} (flb_task_retry_destroy r s3)" using inv_retry_destroy_free [OF I3] by simp
      then show ?thesis
        using ev True inv_users_release [OF I4] users_release_core [OF I4] retry_destroy_outs [OF invD(5) [OF I3]] outs3
        by simp
    next
      case False
      then have "inv X {#} s3"
        using inv_request_added [OF I2 req(2-4), of r] req(5) free rt by (auto simp: users_dec_frame)
      then show ?thesis using ev False outs3 by simp
    qed
  qed
qed

end
