(* ===== verification/Engine_Safety.thy ===== *)
theory Engine_Safety
  imports Task_Accounting
begin

text \<open>
  The engine's steps keep the accounting of tasks. The queue functions of a synchronous output call each
  other; the lemmas about them are proved together by induction on the fuel, and show that the fuel
  \<open>queue_fuel\<close> is enough. Reachable states are those the engine's steps lead to, whatever the inputs,
  the plugins and the allocations do in between; the properties at the end hold in all of them.
\<close>

section \<open>One flush\<close>

definition queue_of :: "'c flb_config \<Rightarrow> int \<Rightarrow> flb_task_queue option" where
  "queue_of s n = map_option o_singleplex_queue (flb_output_get_instance s n)"

definition qlen :: "'c flb_config \<Rightarrow> int \<Rightarrow> nat" where
  "qlen s n = (case queue_of s n of None \<Rightarrow> 0 | Some tq \<Rightarrow> length (pending tq))"

text \<open>Nothing waits in the queue of an output that is not working.\<close>

definition queue_ok :: "'c flb_config \<Rightarrow> int \<Rightarrow> bool" where
  "queue_ok s n \<longleftrightarrow>
     (case queue_of s n of None \<Rightarrow> True | Some tq \<Rightarrow> in_progress tq = [] \<longrightarrow> pending tq = [])"

lemma queue_of_upd_out:
  assumes "\<And>out. o_id (f out) = o_id out"
  shows "queue_of (upd_out m f s) n =
           map_option (\<lambda>out. o_singleplex_queue (if n = m then f out else out)) (flb_output_get_instance s n)"
  unfolding queue_of_def get_upd_out [of f, OF assms] by (simp add: option.map_comp comp_def)

lemma queue_of_upd_out_same:
  assumes "\<And>out. o_id (f out) = o_id out" and "\<And>out. o_singleplex_queue (f out) = o_singleplex_queue out"
  shows "queue_of (upd_out m f s) = queue_of s"
proof (rule ext)
  show "queue_of (upd_out m f s) n = queue_of s n" for n
    using queue_of_upd_out [of f m s n, OF assms(1)] assms(2)
    by (cases "flb_output_get_instance s n"; cases "n = m") (simp_all add: queue_of_def)
qed

lemma get_instance_upd_task [simp]: "flb_output_get_instance (upd_task a f s) n = flb_output_get_instance s n"
  by (simp add: flb_output_get_instance_def)

lemma queue_of_upd_task [simp]: "queue_of (upd_task a f s) = queue_of s"
  by (simp add: queue_of_def fun_eq_iff)

lemma upd_task_upd_out: "upd_task a g (upd_out n f s) = upd_out n f (upd_task a g s)"
  by (simp add: upd_task_def upd_out_def)

text \<open>What a flush leaves alone besides the users of the task and the pairs of the output.\<close>

definition flush_frame :: "'c flb_config \<Rightarrow> 'c flb_config \<Rightarrow> bool" where
  "flush_frame s s' \<longleftrightarrow>
     retry_heap s' = retry_heap s \<and> requests s' = requests s \<and> requests_wait s' = requests_wait s
     \<and> cf_inputs s' = cf_inputs s \<and> oids s' = oids s \<and> queue_of s' = queue_of s
     \<and> chunk_heap s' = chunk_heap s"

lemma flush_frame_waiting: "flush_frame s s' \<Longrightarrow> waiting Y s' = waiting Y s"
  unfolding flush_frame_def waiting_def reqs_def using pair_cong [of s' s] by simp

lemma flush_id_get_effect:
  assumes "inv X Y s" and "flb_output_flush_id_get n s = (k, s')"
  shows "inv X Y s'" "flush_frame s s'" "flight s' = flight s" "task_heap s' = task_heap s" "sched_brk s' = sched_brk s"
proof -
  have "inv X Y s' \<and> flush_frame s s' \<and> flight s' = flight s \<and> task_heap s' = task_heap s \<and> sched_brk s' = sched_brk s"
  proof (cases "flb_output_get_instance s n")
    case None
    then show ?thesis using assms by (simp add: flb_output_flush_id_get_def flush_frame_def)
  next
    case (Some out)
    then obtain j where s': "s' = upd_out n (\<lambda>out. out\<lparr>o_flush_id := j\<rparr>) s"
      using assms(2) by (auto simp: flb_output_flush_id_get_def Let_def)
    have "inv X Y s'"
      unfolding s' using invD(1) [OF assms(1)]
      by (intro inv_upd_out_same [OF assms(1)]) (auto simp: wf_outs_def out_ok_def out_pairs_def event_ok_def)
    moreover have "flight s' = flight s"
      using flight_upd_out [OF invD(1) [OF assms(1)] Some] flight_split [OF invD(1) [OF assms(1)] Some]
      by (simp add: s' out_pairs_def)
    ultimately show ?thesis by (simp add: s' flush_frame_def queue_of_upd_out_same upd_out_oids)
  qed
  then show "inv X Y s'" "flush_frame s s'" "flight s' = flight s" "task_heap s' = task_heap s"
    "sched_brk s' = sched_brk s" by simp_all
qed

lemma flush_frame_trans: "flush_frame s s' \<Longrightarrow> flush_frame s' s'' \<Longrightarrow> flush_frame s s''"
  by (simp add: flush_frame_def)

text \<open>The coroutine of a flush: not created, or created and in the list of its output.\<close>

lemma flush_create_effect:
  assumes I: "inv X Y s" and out: "flb_output_get_instance s n = Some out"
    and eq: "flb_output_flush_create e a n s = (res, s')"
  obtains (none) "res = None" "inv X Y s'" "flush_frame s s'" "flight s' = flight s" "task_heap s' = task_heap s"
  | (some) fl s0 out0 where "res = Some fl" "inv X Y s0" "flush_frame s s0" "flight s0 = flight s"
      "task_heap s0 = task_heap s" "fl_task fl = a" "fl_addr fl = sched_brk s" "sched_brk s0 = Suc (sched_brk s)"
      "flb_output_get_instance s0 n = Some out0"
      "\<forall>x \<in> set (o_flush_list out0 @ o_flush_list_destroy out0). fl_addr x < sched_brk s"
      "s' = upd_out n (\<lambda>out. out\<lparr>o_flush_list := o_flush_list out @ [fl]\<rparr>) s0"
proof (cases "e_alloc e A_flush (sched_brk s) \<and> (\<exists>t evc. task_heap s a = Some t \<and> task_event_chunk t = Some evc)")
  case False
  then have "res = None" "s' = s"
    using eq by (auto simp: flb_output_flush_create_def Let_def split: option.splits if_splits)
  then show ?thesis using that(1) I by (simp add: flush_frame_def)
next
  case True
  then obtain t evc where t: "task_heap s a = Some t" "task_event_chunk t = Some evc" by blast
  obtain k s1 where s1: "flb_output_flush_id_get n s = (k, s1)" by fastforce
  note E = flush_id_get_effect [OF I s1]
  show ?thesis
  proof (cases "e_process e n evc")
    case None
    then show ?thesis
      using that(1) eq True t s1 E by (simp add: flb_output_flush_create_def)
  next
    case (Some evc')
    let ?s0 = "s1\<lparr>sched_brk := Suc (sched_brk s)\<rparr>"
    obtain out0 where out0: "flb_output_get_instance s1 n = Some out0"
      using E(2) get_instance_iff [of s1 n] get_instance_iff [of s n] out by (auto simp: flush_frame_def)
    have "out_ok s1 out0"
      using invD(1) [OF E(1)] get_instance_Some(1) [OF out0] by (simp add: wf_outs_def)
    then have lt: "\<forall>x \<in> set (o_flush_list out0 @ o_flush_list_destroy out0). fl_addr x < sched_brk s"
      using E(5) by (simp add: out_ok_def)
    have same: "flush_frame s ?s0" "flight ?s0 = flight s" "flb_output_get_instance ?s0 n = Some out0"
      using E(2,3) out0
      by (simp_all add: flush_frame_def oids_def queue_of_def flight_def flb_output_get_instance_def fun_eq_iff)
    let ?fl = "\<lparr>fl_addr = sched_brk s, fl_id = k, fl_task = a, fl_evc = evc', fl_started = False\<rparr>"
    have "res = Some ?fl" "s' = upd_out n (\<lambda>out. out\<lparr>o_flush_list := o_flush_list out @ [?fl]\<rparr>) ?s0"
      using eq True t s1 Some by (simp_all add: flb_output_flush_create_def Let_def)
    then show ?thesis
      using inv_brk [OF E(1), of "Suc (sched_brk s)"] E(4,5)
      by (intro that(2) [OF _ _ same(1,2) _ _ _ _ same(3) lt]) simp_all
  qed
qed

lemma out_pairs_flush:
  "out_pairs tm (out\<lparr>o_flush_list := o_flush_list out @ [fl]\<rparr>) = add_mset (fl_task fl, o_id out) (out_pairs tm out)"
  by (simp add: out_pairs_def)

lemma inv_put_flush:
  assumes I: "inv (add_mset (a, n) X) Y s" and "flb_output_get_instance s n = Some out" and "fl_task fl = a"
    and "fl_addr fl < sched_brk s"
    and "\<forall>x \<in> set (o_flush_list out @ o_flush_list_destroy out). fl_addr x < fl_addr fl"
  shows "inv X Y (upd_out n (\<lambda>out. out\<lparr>o_flush_list := o_flush_list out @ [fl]\<rparr>) s)"
proof -
  have ok: "out_ok s out" "o_id out = n"
    using invD(1) [OF I] get_instance_Some [OF assms(2)] by (auto simp: wf_outs_def)
  show ?thesis
    by (rule inv_upd_out [OF I assms(2)])
       (use ok assms(3-5) in \<open>auto simp: out_pairs_flush out_ok_def event_ok_def\<close>)
qed

lemma inv_put_posted:
  assumes I: "inv (add_mset (a, n) X) Y s" and "flb_output_get_instance s n = Some out"
  shows "inv X Y (upd_out n (\<lambda>out. out\<lparr>o_tp_queue := o_tp_queue out @ [a]\<rparr>) s)"
proof -
  have "out_ok s out" "o_id out = n"
    using invD(1) [OF I] get_instance_Some [OF assms(2)] by (auto simp: wf_outs_def)
  then show ?thesis
    by (intro inv_upd_out [OF I assms(2)]) (auto simp: out_pairs_def out_ok_def event_ok_def)
qed

lemma users_inc_dec: "flb_task_users_dec e a False (flb_task_users_inc a s) = s"
proof -
  have "(task_heap s)(a := task_heap s a) = task_heap s" by simp
  then show ?thesis
    by (simp add: flb_task_users_dec_def flb_task_users_inc_def upd_task_def option.map_comp comp_def
        option.map_ident)
qed

lemma users_inc_upd_out: "flb_task_users_inc a (upd_out n f s) = upd_out n f (flb_task_users_inc a s)"
  by (simp add: flb_task_users_inc_def upd_task_upd_out)

lemma users_dec_upd_out: "flb_task_users_dec e a False (upd_out n f s) = upd_out n f (flb_task_users_dec e a False s)"
  by (simp add: flb_task_users_dec_def upd_task_upd_out)

lemma upd_out_twice:
  "(\<And>out. o_id (g out) = o_id out) \<Longrightarrow> upd_out n f (upd_out n g s) = upd_out n (\<lambda>out. f (g out)) s"
  by (auto simp: upd_out_def)

lemma flush_frame_users_inc: "flush_frame s (flb_task_users_inc a s)"
  by (simp add: flush_frame_def flb_task_users_inc_def)

lemma flush_frame_upd_out:
  "(\<And>out. o_id (f out) = o_id out) \<Longrightarrow> (\<And>out. o_singleplex_queue (f out) = o_singleplex_queue out) \<Longrightarrow>
     flush_frame s (upd_out n f s)"
  by (simp add: flush_frame_def queue_of_upd_out_same upd_out_oids)

lemma get_instance_frame:
  assumes "flush_frame s s'" and "flb_output_get_instance s n = Some out"
  obtains out' where "flb_output_get_instance s' n = Some out'"
  using assms get_instance_iff [of s' n] get_instance_iff [of s n] by (auto simp: flush_frame_def)

lemma users_inc_frame [simp]:
  "flb_output_get_instance (flb_task_users_inc a s) n = flb_output_get_instance s n"
  "flight (flb_task_users_inc a s) = flight s" "waiting Y (flb_task_users_inc a s) = waiting Y s"
  "sched_brk (flb_task_users_inc a s) = sched_brk s"
  by (simp_all add: flb_task_users_inc_def)

text \<open>
  A flush starts, or fails and leaves the tasks and the pairs in flight as they were; then a synchronous
  output goes on with the next task of its queue.
\<close>

lemma flush_attempt:
  assumes I: "inv X Y s" and t: "task_heap s a = Some t" "task_status t \<noteq> TASK_NEW"
    and free: "(a, n) \<notin># flight s + X + waiting Y s" and out: "flb_output_get_instance s n = Some out"
  obtains (started) s1 where "\<And>k. flb_output_task_flush k e a n s = Some (0, s1)" "inv X Y s1" "flush_frame s s1"
      "flight s1 = add_mset (a, n) (flight s)" "task_heap s1 = task_heap (flb_task_users_inc a s)"
    | (failed) ret s1 again where
      "\<And>k. flb_output_task_flush k e a n s =
         (if again then map_option (\<lambda>(_, s). (ret, s)) (flb_output_task_singleplex_flush_next k e n s1)
          else Some (ret, s1))"
      "inv X Y s1" "flush_frame s s1" "flight s1 = flight s" "task_heap s1 = task_heap s"
      "ret = -1 \<or> ret = 0" "again \<Longrightarrow> synchronous out"
proof (cases "o_is_threaded out")
  case True
  show ?thesis
  proof (cases "e_pipe e a n")
    case pipe: True
    let ?s1 = "upd_out n (\<lambda>out. out\<lparr>o_tp_queue := o_tp_queue out @ [a]\<rparr>) (flb_task_users_inc a s)"
    have inc: "inv (add_mset (a, n) X) Y (flb_task_users_inc a s)" using inv_users_inc [OF I t free] .
    have "flight ?s1 = add_mset (a, n) (flight s)"
      using flight_upd_out [of "flb_task_users_inc a s" n out] flight_split [of "flb_task_users_inc a s" n out]
        invD(1) [OF inc] out get_instance_Some(2) [OF out] by (simp add: out_pairs_def)
    moreover have "flush_frame s ?s1"
      by (rule flush_frame_trans [OF flush_frame_users_inc flush_frame_upd_out]) simp_all
    ultimately show ?thesis
      using that(1) [of ?s1] inv_put_posted [OF inc] out True pipe
      by (simp add: flb_output_task_flush.simps flb_output_thread_pool_flush_def)
  next
    case pipe: False
    have "flb_output_task_flush k e a n s =
         (if synchronous out then map_option (\<lambda>(_, s). (0, s)) (flb_output_task_singleplex_flush_next k e n s)
          else Some (0, s))" for k
      using out True pipe
      by (simp add: flb_output_task_flush.simps flb_output_thread_pool_flush_def users_inc_dec)
    then show ?thesis using that(2) [of "synchronous out" 0 s] I by (simp add: flush_frame_def)
  qed
next
  case False
  obtain res s' where eq: "flb_output_flush_create e a n s = (res, s')" by fastforce
  from I out eq show ?thesis
  proof (cases rule: flush_create_effect)
    case none
    then show ?thesis using that(2) [of False "-1" s'] eq out False by (simp add: flb_output_task_flush.simps)
  next
    case (some fl s0 out0)
    let ?add = "\<lambda>out. out\<lparr>o_flush_list := o_flush_list out @ [fl]\<rparr>"
    have id0: "o_id out0 = n" using get_instance_Some(2) [OF some(9)] .
    have ok0: "out_ok s0 out0"
      using invD(1) [OF some(2)] get_instance_Some(1) [OF some(9)] by (simp add: wf_outs_def)
    show ?thesis
    proof (cases "e_pipe e a n")
      case pipe: True
      let ?s1 = "upd_out n ?add (flb_task_users_inc a s0)"
      have inc: "inv (add_mset (a, n) X) Y (flb_task_users_inc a s0)"
        using inv_users_inc [OF some(2), of a t n] t free some(4,5) flush_frame_waiting [OF some(3), of Y] by simp
      have "inv X Y ?s1"
        using inv_put_flush [OF inc, of out0 fl] some(6-10) by simp
      moreover have "flight ?s1 = add_mset (a, n) (flight s)"
        using flight_upd_out [of "flb_task_users_inc a s0" n out0 ?add] flight_split [of "flb_task_users_inc a s0" n out0]
          invD(1) [OF inc] some(4,6,9) id0 by (simp add: out_pairs_flush)
      moreover have "flush_frame s ?s1"
        by (rule flush_frame_trans [OF some(3) flush_frame_trans [OF flush_frame_users_inc flush_frame_upd_out]]) simp_all
      moreover have "task_heap ?s1 = task_heap (flb_task_users_inc a s)"
        using some(5) by (simp add: flb_task_users_inc_def upd_task_def)
      ultimately show ?thesis
        using that(1) [of ?s1] eq some(1,11) out False pipe
        by (simp add: flb_output_task_flush.simps users_inc_upd_out)
    next
      case pipe: False
      let ?del = "\<lambda>out. out\<lparr>o_flush_list := filter (\<lambda>x. fl_addr x \<noteq> fl_addr fl) (o_flush_list out @ [fl]),
          o_flush_list_destroy := filter (\<lambda>x. fl_addr x \<noteq> fl_addr fl) (o_flush_list_destroy out)\<rparr>"
      let ?s1 = "upd_out n ?del s0"
      have "fl_addr x \<noteq> fl_addr fl" if "x \<in> set (o_flush_list out0 @ o_flush_list_destroy out0)" for x
        using some(7) some(10) [rule_format, OF that] by simp
      then have "filter (\<lambda>x. fl_addr x \<noteq> fl_addr fl) (o_flush_list out0) = o_flush_list out0"
        "filter (\<lambda>x. fl_addr x \<noteq> fl_addr fl) (o_flush_list_destroy out0) = o_flush_list_destroy out0"
        by (simp_all add: filter_id_conv)
      then have pairs: "out_pairs tm (?del out0) = out_pairs tm out0" and ok: "out_ok s0 (?del out0)" for tm
        using ok0 by (simp_all add: out_pairs_def out_ok_def event_ok_def)
      have "inv X Y ?s1" using inv_upd_out [OF some(2,9), of ?del X] ok pairs by simp
      moreover have "flight ?s1 = flight s"
        using flight_upd_out [of s0 n out0 ?del] flight_split [of s0 n out0] invD(1) [OF some(2)] some(4,9) pairs by simp
      moreover have "flush_frame s ?s1"
        by (rule flush_frame_trans [OF some(3) flush_frame_upd_out]) simp_all
      moreover have "flb_task_users_dec e a False (flb_output_flush_destroy n fl (flb_task_users_inc a s')) = ?s1"
        by (simp add: some(11) flb_output_flush_destroy_def users_inc_upd_out upd_out_twice users_dec_upd_out users_inc_dec)
      then have "flb_output_task_flush k e a n s =
         (if synchronous out then map_option (\<lambda>(_, s). (-1, s)) (flb_output_task_singleplex_flush_next k e n ?s1)
          else Some (-1, ?s1))" for k
        using eq some(1) out False pipe by (simp add: flb_output_task_flush.simps)
      ultimately show ?thesis using that(2) [of "synchronous out" "-1" ?s1] some(5) by simp
    qed
  qed
qed

section \<open>The queue of a synchronous output\<close>

definition task_static :: "flb_task \<Rightarrow> int \<times> task_status \<times> flb_task_route list \<times> addr option \<times> int option" where
  "task_static t = (task_id t, task_status t, task_routes t, task_ic t, task_i_ins t)"

text \<open>
  What working on the queue of the output \<open>n\<close> leaves alone; \<open>P\<close> are the pairs it may put in flight.
\<close>

definition calm :: "(addr \<times> int) multiset \<Rightarrow> int \<Rightarrow> 'c flb_config \<Rightarrow> 'c flb_config \<Rightarrow> bool" where
  "calm P n s s' \<longleftrightarrow>
     (\<forall>b. map_option task_static (task_heap s' b) = map_option task_static (task_heap s b))
     \<and> retry_heap s' \<subseteq>\<^sub>m retry_heap s \<and> oids s' = oids s \<and> cf_inputs s' = cf_inputs s
     \<and> chunk_heap s' = chunk_heap s
     \<and> flight s' + waiting {#} s' \<subseteq># flight s + waiting {#} s + P
     \<and> (\<forall>m. m \<noteq> n \<longrightarrow> queue_of s' m = queue_of s m)"

lemma calm_refl: "calm P n s s"
  by (simp add: calm_def)

lemma calm_trans:
  assumes "calm P n s s'" and "calm Q n s' s''"
  shows "calm (P + Q) n s s''"
proof -
  have "flight s'' + waiting {#} s'' \<subseteq># flight s' + waiting {#} s' + Q" using assms(2) by (simp add: calm_def)
  also have "\<dots> \<subseteq># flight s + waiting {#} s + P + Q" using assms(1) by (simp add: calm_def)
  finally show ?thesis
    using assms by (auto simp: calm_def add.assoc intro: map_le_trans)
qed

lemmas calm_step = calm_trans [where P = "{#}", simplified]

lemma calm_live:
  assumes "calm P n s s'" and "task_heap s b = Some t"
  obtains t' where "task_heap s' b = Some t'" "task_static t' = task_static t"
proof -
  have "map_option task_static (task_heap s' b) = Some (task_static t)" using assms by (simp add: calm_def)
  then show ?thesis using that by auto
qed

lemma calm_running:
  assumes "calm P n s s'" and "task_heap s b = Some t" and "task_status t \<noteq> TASK_NEW"
  shows "\<exists>t'. task_heap s' b = Some t' \<and> task_status t' \<noteq> TASK_NEW"
proof -
  obtain t' where "task_heap s' b = Some t'" "task_static t' = task_static t" using calm_live [OF assms(1,2)] .
  then show ?thesis using assms(3) by (simp add: task_static_def)
qed

lemma calm_frame:
  assumes "flush_frame s s'" and "flight s' \<subseteq># flight s + P"
    and "\<And>b. map_option task_static (task_heap s' b) = map_option task_static (task_heap s b)"
  shows "calm P n s s'"
proof -
  have "flight s' + waiting {#} s' \<subseteq># flight s + waiting {#} s + P"
    using assms(2) flush_frame_waiting [OF assms(1), of "{#}"]
    by (metis add.assoc add.commute subset_mset.add_right_mono)
  then show ?thesis using assms(1,3) by (simp add: calm_def flush_frame_def)
qed

lemma users_inc_static:
  "map_option task_static (task_heap (flb_task_users_inc a s) b) = map_option task_static (task_heap s b)"
  "map_option task_static (task_heap (flb_task_users_dec e a False s) b) = map_option task_static (task_heap s b)"
  by (simp_all add: flb_task_users_inc_def flb_task_users_dec_def option.map_comp comp_def task_static_def [abs_def])

lemma qlen_eq: "flb_output_get_instance s n = Some out \<Longrightarrow> qlen s n = length (pending (o_singleplex_queue out))"
  by (simp add: qlen_def queue_of_def)

text \<open>Taking a task off the queue.\<close>

lemma pop_pending:
  assumes I: "inv X {#} s" and out: "flb_output_get_instance s n = Some out"
    and q: "pending (o_singleplex_queue out) = q # qs"
    and s1: "s1 = flb_task_users_dec e (eq_task q) False
               (upd_queue n (\<lambda>tq. tq\<lparr>pending := qs, in_progress := in_progress tq @ [q]\<rparr>) s)"
  shows "inv X {#} s1" "(eq_task q, n) \<notin># flight s1 + X + waiting {#} s1" "eq_out q = n"
    "\<exists>t. task_heap s1 (eq_task q) = Some t \<and> task_status t \<noteq> TASK_NEW" "calm {#} n s s1"
    "qlen s1 n = length qs" "queue_ok s1 n" "qlen s n = Suc (length qs)"
    "\<And>r. eq_retry q = Some r \<Longrightarrow> retry_pair s r = (eq_task q, n)" "n \<in> oids s1" "retry_heap s1 = retry_heap s"
    "flight s + waiting {#} s = add_mset (eq_task q, n) (flight s1 + waiting {#} s1)"
proof -
  let ?p = "(eq_task q, n)"
  let ?f = "\<lambda>out. out\<lparr>o_singleplex_queue := (o_singleplex_queue out)
      \<lparr>pending := qs, in_progress := in_progress (o_singleplex_queue out) @ [q]\<rparr>\<rparr>"
  let ?s0 = "upd_out n ?f s"
  have s0: "s1 = flb_task_users_dec e (eq_task q) False ?s0" by (simp add: s1 upd_queue_def)
  have id: "o_id out = n" and ok: "out_ok s out"
    using get_instance_Some [OF out] invD(1) [OF I] by (auto simp: wf_outs_def)
  show "eq_out q = n" "\<And>r. eq_retry q = Some r \<Longrightarrow> retry_pair s r = ?p"
    using ok q id by (auto simp: out_ok_def)
  have pairs: "out_pairs tm out = add_mset ?p (out_pairs tm (?f out))" for tm
    using q id by (simp add: out_pairs_def)
  have I0: "inv (add_mset ?p X) {#} ?s0"
    by (rule inv_upd_out [OF I out]) (use ok q pairs in \<open>simp_all add: out_ok_def event_ok_def\<close>)
  show "inv X {#} s1" unfolding s0 using inv_users_dec [OF I0] .
  show "?p \<notin># flight s1 + X + waiting {#} s1" using held_free [OF I0] by (simp add: s0 users_dec_frame)
  obtain t where "task_heap ?s0 (eq_task q) = Some t" "task_status t \<noteq> TASK_NEW" using held_live [OF I0] by auto
  then show "\<exists>t. task_heap s1 (eq_task q) = Some t \<and> task_status t \<noteq> TASK_NEW"
    by (auto simp: s0 flb_task_users_dec_def)
  have fl: "flight s = add_mset ?p (flight ?s0)"
    using flight_upd_out [OF invD(1) [OF I] out, of ?f] flight_split [OF invD(1) [OF I] out] pairs by simp
  have quo: "queue_of ?s0 m = (if m = n then Some (o_singleplex_queue (?f out)) else queue_of s m)" for m
    using queue_of_upd_out [of ?f n s m] out by (simp add: queue_of_def)
  have quo1: "queue_of s1 = queue_of ?s0" by (simp add: s0 flb_task_users_dec_def)
  show "qlen s1 n = length qs" "queue_ok s1 n" by (simp_all add: qlen_def queue_ok_def quo1 quo)
  show "qlen s n = Suc (length qs)" using out q by (simp add: qlen_eq)
  have oids: "oids s1 = oids s" by (simp add: s0 flb_task_users_dec_def upd_out_oids)
  then show "n \<in> oids s1" using get_instance_Some(3) [OF out] by simp
  show "retry_heap s1 = retry_heap s" by (simp add: s0 users_dec_frame)
  have "waiting {#} s1 = waiting {#} s" by (simp add: s0 users_dec_frame)
  moreover have "flight s1 \<subseteq># flight s" using fl by (simp add: s0 users_dec_frame)
  moreover show "flight s + waiting {#} s = add_mset ?p (flight s1 + waiting {#} s1)"
    using fl by (simp add: s0 users_dec_frame)
  ultimately show "calm {#} n s s1"
    using users_inc_static(2) [of e "eq_task q" ?s0] quo
    by (simp add: calm_def oids quo1) (simp add: s0 flb_task_users_dec_def)
qed

lemma retry_destroy_calm:
  assumes I: "inv X {#} s"
  shows "calm {#} n s (flb_task_retry_destroy r s)" "queue_of (flb_task_retry_destroy r s) = queue_of s"
proof -
  let ?s = "flb_task_retry_destroy r s"
  have "calm {#} n s ?s \<and> queue_of ?s = queue_of s"
  proof (cases "retry_heap s r")
    case None
    then show ?thesis by (simp add: retry_destroy_dead calm_refl)
  next
    case (Some rt)
    note S = retry_destroy_fields [OF invD(5) [OF I] Some refl]
    have notin: "r \<notin># reqs s - {#r#}" using reqs_once [OF I, of r] by (simp add: not_in_iff)
    have "retry_pair ?s r' = retry_pair s r'" if "r' \<in># reqs s - {#r#}" for r'
      using that notin by (cases "r' = r") (simp_all add: retry_pair_def S(1))
    then have "waiting {#} ?s = image_mset (retry_pair s) (reqs s - {#r#})"
      by (auto simp: waiting_def S(9) intro!: image_mset_cong)
    then have "waiting {#} ?s \<subseteq># waiting {#} s" by (simp add: waiting_def image_mset_subseteq_mono)
    moreover have "flight ?s = flight s" using S(4,3) by (rule flight_cong)
    moreover have "queue_of ?s = queue_of s" by (simp add: queue_of_def flb_output_get_instance_def S(4) fun_eq_iff)
    moreover have "retry_heap ?s \<subseteq>\<^sub>m retry_heap s" by (auto simp: S(1) map_le_def)
    ultimately show ?thesis
      by (auto simp: calm_def S(2,4,5,6) oids_def option.map_comp comp_def task_static_def [abs_def])
  qed
  then show "calm {#} n s ?s" "queue_of ?s = queue_of s" by simp_all
qed

text \<open>What is proved of the three functions; the fuel only has to cover the pending tasks.\<close>

definition one_safe :: "nat \<Rightarrow> 'c env \<Rightarrow> bool" where
  "one_safe k e \<longleftrightarrow> (\<forall>X n s. inv X {#} s \<longrightarrow> n \<in> oids s \<longrightarrow> 0 < k \<longrightarrow> qlen s n \<le> k \<longrightarrow>
     (\<exists>ret s'. flb_output_task_queue_flush_one k e n s = Some (ret, s') \<and> inv X {#} s'
        \<and> calm {#} n s s' \<and> queue_ok s' n \<and> qlen s' n \<le> qlen s n))"

definition flush_safe :: "nat \<Rightarrow> 'c env \<Rightarrow> bool" where
  "flush_safe k e \<longleftrightarrow> (\<forall>X a n s t. inv X {#} s \<longrightarrow> n \<in> oids s \<longrightarrow> qlen s n \<le> k \<longrightarrow>
     task_heap s a = Some t \<longrightarrow> task_status t \<noteq> TASK_NEW \<longrightarrow>
     (a, n) \<notin># flight s + X + waiting {#} s \<longrightarrow>
     (\<exists>ret s'. flb_output_task_flush k e a n s = Some (ret, s') \<and> inv X {#} s'
        \<and> calm (if ret = -1 then {#} else {#(a, n)#}) n s s'
        \<and> (queue_ok s n \<longrightarrow> queue_ok s' n) \<and> qlen s' n \<le> qlen s n))"

definition next_safe :: "nat \<Rightarrow> 'c env \<Rightarrow> bool" where
  "next_safe k e \<longleftrightarrow> (\<forall>X n s. inv X {#} s \<longrightarrow> n \<in> oids s \<longrightarrow> qlen s n \<le> k \<longrightarrow>
     (\<exists>ret s'. flb_output_task_singleplex_flush_next k e n s = Some (ret, s') \<and> inv X {#} s'
        \<and> calm {#} n s s' \<and> queue_ok s' n \<and> qlen s' n \<le> qlen s n))"

lemma one_safeE:
  assumes "one_safe k e" and "inv X {#} s" and "n \<in> oids s" and "0 < k" and "qlen s n \<le> k"
  obtains ret s' where "flb_output_task_queue_flush_one k e n s = Some (ret, s')" "inv X {#} s'"
    "calm {#} n s s'" "queue_ok s' n" "qlen s' n \<le> qlen s n"
  using assms unfolding one_safe_def by blast

lemma flush_safeE:
  assumes "flush_safe k e" and "inv X {#} s" and "n \<in> oids s" and "qlen s n \<le> k" and "task_heap s a = Some t"
    and "task_status t \<noteq> TASK_NEW" and "(a, n) \<notin># flight s + X + waiting {#} s"
  obtains ret s' where "flb_output_task_flush k e a n s = Some (ret, s')" "inv X {#} s'"
    "calm (if ret = -1 then {#} else {#(a, n)#}) n s s'" "queue_ok s n \<Longrightarrow> queue_ok s' n" "qlen s' n \<le> qlen s n"
  using assms unfolding flush_safe_def by blast

lemma next_safeE:
  assumes "next_safe k e" and "inv X {#} s" and "n \<in> oids s" and "qlen s n \<le> k"
  obtains ret s' where "flb_output_task_singleplex_flush_next k e n s = Some (ret, s')" "inv X {#} s'"
    "calm {#} n s s'" "queue_ok s' n" "qlen s' n \<le> qlen s n"
  using assms unfolding next_safe_def by blast

lemma calm_more: "calm {#} n s s' \<Longrightarrow> calm P n s s'"
  using calm_trans [OF _ calm_refl, of "{#}" n s s' P] by simp

lemma calm_tighten:
  "calm P n s s' \<Longrightarrow> flight s' + waiting {#} s' \<subseteq># flight s + waiting {#} s \<Longrightarrow> calm {#} n s s'"
  by (simp add: calm_def)

lemma next_safe_if:
  assumes "one_safe k e"
  shows "next_safe k e"
  unfolding next_safe_def
proof (intro allI impI)
  fix X n and s :: "'a flb_config"
  assume I: "inv X {#} s" and n: "n \<in> oids s" and len: "qlen s n \<le> k"
  let ?f = "\<lambda>out. out\<lparr>o_singleplex_queue := (o_singleplex_queue out)
      \<lparr>in_progress := tl (in_progress (o_singleplex_queue out))\<rparr>\<rparr>"
  let ?s = "upd_out n ?f s"
  obtain out where out: "flb_output_get_instance s n = Some out" using n get_instance_iff by blast
  have get: "flb_output_get_instance ?s n = Some (?f out)" using out get_upd_out [of ?f n s n] by simp
  have I1: "inv X {#} ?s"
    using invD(1) [OF I]
    by (intro inv_upd_out_same [OF I]) (auto simp: wf_outs_def out_ok_def out_pairs_def event_ok_def)
  have fl: "flight ?s = flight s"
    using flight_upd_out [OF invD(1) [OF I] out, of ?f] flight_split [OF invD(1) [OF I] out]
    by (simp add: out_pairs_def)
  have quo: "queue_of ?s m = (if m = n then Some (o_singleplex_queue (?f out)) else queue_of s m)" for m
    using queue_of_upd_out [of ?f n s m] out by (simp add: queue_of_def)
  have calm: "calm {#} n s ?s" by (simp add: calm_def fl upd_out_oids quo)
  have qlen: "qlen ?s n = qlen s n" using get out by (simp add: qlen_eq)
  show "\<exists>ret s'. flb_output_task_singleplex_flush_next k e n s = Some (ret, s') \<and> inv X {#} s'
        \<and> calm {#} n s s' \<and> queue_ok s' n \<and> qlen s' n \<le> qlen s n"
  proof (cases "pending (o_singleplex_queue out) = []")
    case True
    then have "flb_output_task_singleplex_flush_next k e n s = Some (0, ?s)"
      using get by (simp add: flb_output_task_singleplex_flush_next.simps upd_queue_def)
    moreover have "queue_ok ?s n" using True quo [of n] by (simp add: queue_ok_def)
    ultimately show ?thesis using I1 calm qlen by auto
  next
    case False
    then have eq: "flb_output_task_singleplex_flush_next k e n s = flb_output_task_queue_flush_one k e n ?s"
      using get by (simp add: flb_output_task_singleplex_flush_next.simps upd_queue_def)
    have "0 < k" using False len out by (cases k) (simp_all add: qlen_eq)
    moreover have "n \<in> oids ?s" "qlen ?s n \<le> k" using n len qlen by (simp_all add: upd_out_oids)
    ultimately obtain ret s' where "flb_output_task_queue_flush_one k e n ?s = Some (ret, s')" "inv X {#} s'"
        "calm {#} n ?s s'" "queue_ok s' n" "qlen s' n \<le> qlen ?s n"
      using one_safeE [OF assms I1] by blast
    then show ?thesis using eq calm_step [OF calm] qlen by auto
  qed
qed

lemma flush_safe_if:
  assumes "next_safe k e"
  shows "flush_safe k e"
  unfolding flush_safe_def
proof (intro allI impI)
  fix X a n t and s :: "'a flb_config"
  assume I: "inv X {#} s" and n: "n \<in> oids s" and len: "qlen s n \<le> k" and t: "task_heap s a = Some t"
    "task_status t \<noteq> TASK_NEW" and free: "(a, n) \<notin># flight s + X + waiting {#} s"
  obtain out where out: "flb_output_get_instance s n = Some out" using n get_instance_iff by blast
  from I t free out
  show "\<exists>ret s'. flb_output_task_flush k e a n s = Some (ret, s') \<and> inv X {#} s'
        \<and> calm (if ret = -1 then {#} else {#(a, n)#}) n s s'
        \<and> (queue_ok s n \<longrightarrow> queue_ok s' n) \<and> qlen s' n \<le> qlen s n"
  proof (cases rule: flush_attempt [where e = e])
    case (started s1)
    have "calm {#(a, n)#} n s s1"
      using calm_frame [OF started(3), of "{#(a, n)#}"] started(4,5) users_inc_static(1) [of a s] by simp
    moreover have "queue_ok s1 n = queue_ok s n" "qlen s1 n = qlen s n"
      using started(3) by (simp_all add: queue_ok_def qlen_def flush_frame_def)
    ultimately show ?thesis using started(1,2) by auto
  next
    case (failed ret s1 again)
    have calm1: "calm {#} n s s1" using calm_frame [OF failed(3), of "{#}"] failed(4,5) by simp
    have same: "queue_ok s1 n = queue_ok s n" "qlen s1 n = qlen s n" "n \<in> oids s1"
      using failed(3) n by (simp_all add: queue_ok_def qlen_def flush_frame_def)
    show ?thesis
    proof (cases again)
      case True
      obtain r s' where "flb_output_task_singleplex_flush_next k e n s1 = Some (r, s')" "inv X {#} s'"
          "calm {#} n s1 s'" "queue_ok s' n" "qlen s' n \<le> qlen s1 n"
        using next_safeE [OF assms failed(2) same(3)] same(2) len by auto
      moreover have "calm P n s s'" for P
        using calm_step [OF calm1 \<open>calm {#} n s1 s'\<close>] by (rule calm_more)
      ultimately show ?thesis using failed(1) [of k] True same by auto
    next
      case False
      moreover have "calm P n s s1" for P using calm1 by (rule calm_more)
      ultimately show ?thesis using failed(1) [of k] failed(2) same by auto
    qed
  qed
qed

lemma one_safe_Suc:
  assumes "flush_safe k e" and "next_safe k e"
  shows "one_safe (Suc k) e"
  unfolding one_safe_def
proof (intro allI impI)
  fix X n and s :: "'a flb_config"
  assume I: "inv X {#} s" and n: "n \<in> oids s" and len: "qlen s n \<le> Suc k"
  obtain out where out: "flb_output_get_instance s n = Some out" using n get_instance_iff by blast
  show "\<exists>ret s'. flb_output_task_queue_flush_one (Suc k) e n s = Some (ret, s') \<and> inv X {#} s'
        \<and> calm {#} n s s' \<and> queue_ok s' n \<and> qlen s' n \<le> qlen s n"
  proof (cases "pending (o_singleplex_queue out)")
    case Nil
    then have "queue_ok s n" using out by (simp add: queue_ok_def queue_of_def)
    then show ?thesis
      using Nil out I calm_refl by (simp add: flb_output_task_queue_flush_one.simps)
  next
    case (Cons q qs)
    let ?a = "eq_task q"
    define s1 where "s1 = flb_task_users_dec e ?a False
               (upd_queue n (\<lambda>tq. tq\<lparr>pending := qs, in_progress := in_progress tq @ [q]\<rparr>) s)"
    note pop = pop_pending [OF I out Cons s1_def]
    have len1: "qlen s1 n \<le> k" using len pop(6,8) by simp
    obtain t where "task_heap s1 ?a = Some t" "task_status t \<noteq> TASK_NEW" using pop(4) by blast
    then obtain ret s2 where fl: "flb_output_task_flush k e ?a n s1 = Some (ret, s2)" "inv X {#} s2"
        "calm (if ret = -1 then {#} else {#(?a, n)#}) n s1 s2" "queue_ok s2 n" "qlen s2 n \<le> qlen s1 n"
      using flush_safeE [OF assms(1) pop(1,10) len1 _ _ pop(2)] pop(7) by blast
    have one: "flb_output_task_queue_flush_one (Suc k) e n s =
        (if ret = -1
         then map_option (\<lambda>(_, s). (-1, s)) (flb_output_task_singleplex_flush_next k e n
                (case eq_retry q of None \<Rightarrow> s2 | Some r \<Rightarrow> flb_task_retry_destroy r s2))
         else Some (ret, s2))"
      using out Cons pop(3) fl(1) s1_def by (simp add: flb_output_task_queue_flush_one.simps Let_def)
    show ?thesis
    proof (cases "ret = -1")
      case False
      have "flight s2 + waiting {#} s2 \<subseteq># flight s1 + waiting {#} s1 + {#(?a, n)#}"
        using fl(3) False by (simp add: calm_def)
      moreover have "flight s1 + waiting {#} s1 + {#(?a, n)#} \<subseteq># flight s + waiting {#} s"
        using pop(12) by simp
      ultimately have "flight s2 + waiting {#} s2 \<subseteq># flight s + waiting {#} s" by (rule subset_mset.order_trans)
      moreover have "calm {#(?a, n)#} n s1 s2" using fl(3) False by simp
      ultimately have "calm {#} n s s2" using calm_tighten [OF calm_step [OF pop(5)]] by blast
      then show ?thesis using one False fl pop(6,8) by auto
    next
      case True
      define s3 where "s3 = (case eq_retry q of None \<Rightarrow> s2 | Some r \<Rightarrow> flb_task_retry_destroy r s2)"
      have calm2: "calm {#} n s s2" using calm_step [OF pop(5), of "{#}" s2] fl(3) True by simp
      have notfl: "(?a, n) \<notin># flight s2"
      proof -
        have "flight s2 + waiting {#} s2 \<subseteq># flight s1 + waiting {#} s1" using fl(3) True by (simp add: calm_def)
        then have "p \<in># flight s2 \<Longrightarrow> p \<in># flight s1 + waiting {#} s1" for p by (rule mset_subset_eqD) simp
        then show ?thesis using pop(2) by auto
      qed
      have pair: "retry_pair s2 r = (?a, n)" if "eq_retry q = Some r" "retry_heap s2 r \<noteq> None" for r
      proof -
        have "retry_heap s2 \<subseteq>\<^sub>m retry_heap s" using calm2 by (simp add: calm_def)
        then have "retry_heap s r = retry_heap s2 r" using that(2) by (auto simp: map_le_def dom_def)
        then show ?thesis using pop(9) [OF that(1)] by (simp add: retry_pair_def)
      qed
      have I3: "inv X {#} s3"
        using fl(2) inv_retry_destroy_free [OF fl(2)] pair notfl by (auto simp: s3_def split: option.split)
      have calm3: "calm {#} n s2 s3" "queue_of s3 = queue_of s2"
        using retry_destroy_calm [OF fl(2)] calm_refl by (auto simp: s3_def split: option.split)
      have "n \<in> oids s3" "qlen s3 n \<le> k"
        using calm2 calm3 n fl(5) len1 by (simp_all add: calm_def qlen_def)
      then obtain r' s' where "flb_output_task_singleplex_flush_next k e n s3 = Some (r', s')" "inv X {#} s'"
          "calm {#} n s3 s'" "queue_ok s' n" "qlen s' n \<le> qlen s3 n"
        using next_safeE [OF assms(2) I3] by blast
      moreover have "qlen s3 n \<le> qlen s n" using fl(5) pop(6,8) calm3(2) by (simp add: qlen_def)
      ultimately show ?thesis
        using one True s3_def calm_step [OF calm2 calm_step [OF calm3(1)]] by auto
    qed
  qed
qed

lemma queue_safe: "one_safe k e" "flush_safe k e" "next_safe k e"
proof -
  have "one_safe k e \<and> next_safe k e \<and> flush_safe k e"
  proof (induction k)
    case 0
    have "one_safe 0 e" by (simp add: one_safe_def)
    then show ?case using next_safe_if flush_safe_if by blast
  next
    case (Suc k)
    then have "one_safe (Suc k) e" using one_safe_Suc by blast
    then show ?case using next_safe_if flush_safe_if by blast
  qed
  then show "one_safe k e" "flush_safe k e" "next_safe k e" by simp_all
qed

section \<open>Events\<close>

definition queues_ok :: "'c flb_config \<Rightarrow> bool" where
  "queues_ok s \<longleftrightarrow> (\<forall>n. queue_ok s n)"

lemma queues_ok_calm: "queues_ok s \<Longrightarrow> calm P n s s' \<Longrightarrow> queue_ok s' n \<Longrightarrow> queues_ok s'"
  unfolding queues_ok_def calm_def queue_ok_def by metis

lemma queues_ok_same: "queue_of s' = queue_of s \<Longrightarrow> queues_ok s' = queues_ok s"
  by (simp add: queues_ok_def queue_ok_def)

lemma queue_of_core:
  assumes "map out_core (cf_outputs s') = map out_core (cf_outputs s)"
  shows "queue_of s' = queue_of s"
proof -
  have "map_option o_singleplex_queue (List.find (\<lambda>out. o_id out = n) outs) =
      map_option o_singleplex_queue (List.find (\<lambda>out. o_id out = n) (map out_core outs))" for n outs
    by (induction outs) (auto simp: out_core_def)
  then show ?thesis
    unfolding queue_of_def flb_output_get_instance_def fun_eq_iff by (metis assms)
qed

text \<open>The coroutines that have finished go away.\<close>

lemma flush_destroy_fold:
  assumes "\<forall>f \<in> set fs. fl_addr f \<notin> fl_addr ` set (o_flush_list out)"
  shows "fold (\<lambda>fl out. out\<lparr>o_flush_list := filter (\<lambda>x. fl_addr x \<noteq> fl_addr fl) (o_flush_list out),
            o_flush_list_destroy := filter (\<lambda>x. fl_addr x \<noteq> fl_addr fl) (o_flush_list_destroy out)\<rparr>) fs out
         = out\<lparr>o_flush_list_destroy :=
             filter (\<lambda>x. fl_addr x \<notin> fl_addr ` set fs) (o_flush_list_destroy out)\<rparr>"
  using assms
proof (induction fs arbitrary: out)
  case (Cons f fs)
  have "filter (\<lambda>x. fl_addr x \<noteq> fl_addr f) (o_flush_list out) = o_flush_list out"
    using Cons.prems by (auto simp: filter_id_conv image_iff)
  then show ?case using Cons.IH Cons.prems by (simp add: conj_commute)
qed simp

lemma fold_upd_out:
  assumes "\<And>x out. o_id (g x out) = o_id out"
  shows "fold (\<lambda>x. upd_out n (g x)) xs s = upd_out n (fold g xs) s"
proof (induction xs arbitrary: s)
  case Nil
  then show ?case by (simp add: upd_out_def)
next
  case (Cons x xs)
  then show ?case using assms by (simp add: upd_out_twice comp_def)
qed

lemma flush_finished_effect:
  assumes I: "inv X Y s" and s': "s' = snd (flb_output_flush_finished n s)"
  shows "inv X Y s'" "flush_frame s s'" "flight s' = flight s" "task_heap s' = task_heap s" "task_map s' = task_map s"
proof -
  have "inv X Y s' \<and> flush_frame s s' \<and> flight s' = flight s \<and> task_heap s' = task_heap s \<and> task_map s' = task_map s"
  proof (cases "flb_output_get_instance s n")
    case None
    then show ?thesis using I s' by (simp add: flb_output_flush_finished_def flush_frame_def)
  next
    case (Some out)
    let ?g = "\<lambda>fl out. out\<lparr>o_flush_list := filter (\<lambda>x. fl_addr x \<noteq> fl_addr fl) (o_flush_list out),
        o_flush_list_destroy := filter (\<lambda>x. fl_addr x \<noteq> fl_addr fl) (o_flush_list_destroy out)\<rparr>"
    let ?f = "fold ?g (o_flush_list_destroy out)"
    have ids: "o_id (fold ?g fs out) = o_id out" for fs out by (induction fs arbitrary: out) auto
    have quo: "o_singleplex_queue (fold ?g fs out) = o_singleplex_queue out" for fs out
      by (induction fs arbitrary: out) auto
    have eq: "s' = upd_out n ?f s"
      using Some s' fold_upd_out [of ?g n "o_flush_list_destroy out" s]
      by (simp add: flb_output_flush_finished_def flb_output_flush_destroy_def [abs_def])
    have ok: "out_ok s out" using invD(1) [OF I] get_instance_Some [OF Some] by (simp add: wf_outs_def)
    then have "\<forall>f \<in> set (o_flush_list_destroy out). fl_addr f \<notin> fl_addr ` set (o_flush_list out)"
      by (auto simp: out_ok_def)
    then have f: "?f out = out\<lparr>o_flush_list_destroy := []\<rparr>" by (simp add: flush_destroy_fold)
    then have pairs: "out_pairs tm (?f out) = out_pairs tm out" and ok': "out_ok s (?f out)" for tm
      using ok by (simp_all add: out_pairs_def out_ok_def event_ok_def)
    have "inv X Y s'" unfolding eq by (rule inv_upd_out [OF I Some]) (simp_all add: ids ok' pairs)
    moreover have "flight s' = flight s"
      using flight_upd_out [OF invD(1) [OF I] Some, of ?f] flight_split [OF invD(1) [OF I] Some] pairs
      by (simp add: eq ids)
    ultimately show ?thesis by (simp add: eq flush_frame_upd_out ids quo)
  qed
  then show "inv X Y s'" "flush_frame s s'" "flight s' = flight s" "task_heap s' = task_heap s"
    "task_map s' = task_map s" by simp_all
qed

lemma queue_fuel_enough: "qlen s n \<le> queue_fuel n s" "0 < queue_fuel n s"
  by (simp_all add: qlen_def queue_of_def queue_fuel_def split: option.split)

lemma queue_of_users_dec [simp]: "queue_of (flb_task_users_dec e a False s) = queue_of s"
  by (simp add: flb_task_users_dec_def)

lemma decode_event:
  assumes "event_ok tm out v" and "FLB_BITS_U64_LOW v = k"
  obtains a where "tm ! unat (FLB_TASK_ID k) = Some a" "unat (FLB_TASK_ID k) < length tm"
    "event_target tm v = (a, o_id out)" "uint (FLB_TASK_OUT k) = o_id out" "FLB_BITS_U64_HIGH v = FLB_ENGINE_TASK"
    "uint (FLB_TASK_RET k) = FLB_ERROR \<or> uint (FLB_TASK_RET k) = FLB_OK \<or> uint (FLB_TASK_RET k) = FLB_RETRY"
  using assms by (auto simp: event_ok_def event_target_def)

text \<open>
  Handling an event that has been read from the channel: its task is there, the handler does not trap,
  and the pair is no longer held at the end.
\<close>

lemma handle_event_safe:
  assumes I: "inv (add_mset (event_target (task_map s) v) X) {#} s" and q: "queues_ok s"
    and out: "out \<in> set (cf_outputs s)" and ok: "event_ok (task_map s) out v" and "rand_ok e"
  shows "\<exists>ret s'. handle_output_event e v s = Some (ret, s') \<and> inv X {#} s' \<and> queues_ok s'"
proof -
  obtain k where k: "FLB_BITS_U64_LOW v = k" by simp
  from ok k obtain a where tm: "task_map s ! unat (FLB_TASK_ID k) = Some a" "unat (FLB_TASK_ID k) < length (task_map s)"
      "event_target (task_map s) v = (a, o_id out)" "uint (FLB_TASK_OUT k) = o_id out"
      "FLB_BITS_U64_HIGH v = FLB_ENGINE_TASK"
      "uint (FLB_TASK_RET k) = FLB_ERROR \<or> uint (FLB_TASK_RET k) = FLB_OK \<or> uint (FLB_TASK_RET k) = FLB_RETRY"
    by (rule decode_event)
  let ?n = "o_id out" and ?ret = "uint (FLB_TASK_RET k)"
  note I = I [unfolded tm(3)]
  have get: "flb_output_get_instance s ?n = Some out"
  proof -
    obtain out' where "flb_output_get_instance s ?n = Some out'"
      using out get_instance_iff [of s ?n] by (auto simp: oids_def)
    moreover have "out' = out"
      using invD(1) [OF I] out get_instance_Some [OF calculation] by (auto simp: wf_outs_def distinct_map inj_on_def)
    ultimately show ?thesis by simp
  qed
  define s1 where "s1 = (if \<not> o_is_threaded out then snd (flb_output_flush_finished ?n s) else s)"
  have S1: "inv (add_mset (a, ?n) X) {#} s1" "flush_frame s s1" "task_map s1 = task_map s"
    using I flush_finished_effect [OF I refl, of ?n] by (auto simp: s1_def flush_frame_def)
  have q1: "queues_ok s1" using q S1(2) queues_ok_same [of s1 s] by (simp add: flush_frame_def)
  have n1: "?n \<in> oids s1" using S1(2) out by (simp add: flush_frame_def) (simp add: oids_def)
  obtain r2 s2 where next_eq: "flb_output_task_singleplex_flush_next (queue_fuel ?n s1) e ?n s1 = Some (r2, s2)"
      and I2: "inv (add_mset (a, ?n) X) {#} s2" and calm2: "calm {#} ?n s1 s2" and "queue_ok s2 ?n"
    using next_safeE [OF queue_safe(3) S1(1) n1 queue_fuel_enough(1)] by blast
  have q2: "queues_ok s2" using queues_ok_calm [OF q1 calm2 \<open>queue_ok s2 ?n\<close>] .
  define s3 where "s3 = (if synchronous out then s2 else s1)"
  have I3: "inv (add_mset (a, ?n) X) {#} s3" and q3: "queues_ok s3" and n3: "?n \<in> oids s3"
    using S1(1) I2 q1 q2 n1 calm2 by (simp_all add: s3_def calm_def)
  obtain t where t: "task_heap s3 a = Some t" using held_live [OF I3] by auto
  have run: "handle_output_event e v s =
      (if ?ret = FLB_OK then Some (0, task_finished e a ?n s3)
       else if ?ret = FLB_RETRY then event_retry e a out s3
       else Some (0, task_finished e a ?n s3))"
  proof -
    have "handle_output_event e v s =
       (case (if synchronous out \<and> (?ret = FLB_OK \<or> ?ret = FLB_RETRY \<or> ?ret = FLB_ERROR)
              then map_option snd (flb_output_task_singleplex_flush_next (queue_fuel ?n s1) e ?n s1)
              else Some s1) of
          None \<Rightarrow> None
        | Some s \<Rightarrow>
            if task_heap s a = None then None
            else if ?ret = FLB_OK then Some (0, task_finished e a ?n s)
            else if ?ret = FLB_RETRY then event_retry e a out s
            else if ?ret = FLB_ERROR then Some (0, task_finished e a ?n s)
            else Some (0, s))"
      unfolding handle_output_event_def k Let_def tm(1,4,5) get s1_def using tm(2) by simp
    moreover have "(if synchronous out \<and> (?ret = FLB_OK \<or> ?ret = FLB_RETRY \<or> ?ret = FLB_ERROR)
        then map_option snd (flb_output_task_singleplex_flush_next (queue_fuel ?n s1) e ?n s1)
        else Some s1) = Some s3"
      using next_eq tm(6) by (auto simp: s3_def)
    ultimately show ?thesis using t tm(6) by (simp split: if_splits)
  qed
  have fin: "inv X {#} (task_finished e a ?n s3)" "queues_ok (task_finished e a ?n s3)"
    using inv_task_finished [OF I3] q3 queues_ok_same [OF queue_of_core [OF task_finished_core [OF I3]]] by auto
  show ?thesis
  proof (cases "?ret = FLB_RETRY")
    case True
    then have "?ret \<noteq> FLB_OK" by (simp add: FLB_OK_def FLB_RETRY_def)
    obtain out3 where get3: "flb_output_get_instance s3 ?n = Some out3" using n3 get_instance_iff by blast
    obtain ret s' where "event_retry e a out s3 = Some (ret, s')" "inv X {#} s'"
        "map out_core (cf_outputs s') = map out_core (cf_outputs s3)"
      using inv_event_retry [OF I3 n3 assms(5)] by blast
    then show ?thesis
      using run True \<open>?ret \<noteq> FLB_OK\<close> q3 queues_ok_same [OF queue_of_core] by auto
  next
    case False
    then show ?thesis using run fin by auto
  qed
qed

lemma v_nonzero: "event_ok tm out v \<Longrightarrow> v \<noteq> 0"
  by (auto simp: event_ok_def FLB_BITS_U64_HIGH_def FLB_ENGINE_TASK_def)

lemma handle_events_safe:
  assumes I: "inv {#} {#} s" and q: "queues_ok s" and "rand_ok e"
  shows "\<exists>r s'. handle_output_events e n s = Some (r, s') \<and> inv {#} {#} s' \<and> queues_ok s'"
proof (cases "flb_output_get_instance s n")
  case None
  then show ?thesis using I q by (simp add: handle_output_events_def)
next
  case (Some out)
  let ?f = "\<lambda>out. out\<lparr>o_ch_events := drop 1 (o_ch_events out)\<rparr>"
  let ?s = "upd_out n ?f s"
  have out: "out \<in> set (cf_outputs s)" "o_id out = n" using get_instance_Some [OF Some] by auto
  have ok: "out_ok s out" using invD(1) [OF I] out(1) by (simp add: wf_outs_def)
  have quo: "queue_of ?s = queue_of s" by (rule queue_of_upd_out_same) simp_all
  show ?thesis
  proof (cases "o_ch_events out")
    case Nil
    have "inv {#} {#} ?s"
      by (rule inv_upd_out [OF I Some]) (use ok Nil in \<open>simp_all add: out_ok_def out_pairs_def event_ok_def\<close>)
    moreover have "handle_output_events e n s = Some (None, ?s)"
      using Some Nil by (simp add: handle_output_events_def FLB_ENGINE_OUTPUT_EVENT_BATCH_SIZE_def)
    ultimately show ?thesis using q queues_ok_same [OF quo] by blast
  next
    case (Cons v vs)
    have ev: "event_ok (task_map s) out v" using ok Cons by (simp add: out_ok_def)
    have I1: "inv (add_mset (event_target (task_map ?s) v) {#}) {#} ?s"
      by (rule inv_upd_out [OF I Some]) (use ok Cons in \<open>simp_all add: out_ok_def out_pairs_def event_ok_def\<close>)
    have "?f out \<in> set (cf_outputs ?s)" using out by (auto simp: upd_out_def)
    moreover have "event_ok (task_map ?s) (?f out) v" using ev by (simp add: event_ok_def)
    ultimately obtain ret s' where "handle_output_event e v ?s = Some (ret, s')" "inv {#} {#} s'" "queues_ok s'"
      using handle_event_safe [OF I1] q queues_ok_same [OF quo] assms(3) by blast
    moreover have "handle_output_events e n s =
        fold_opt (\<lambda>v (_, s). map_option (\<lambda>(ret, s). (Some ret, s)) (handle_output_event e v s)) [v] (None, ?s)"
      using Some Cons v_nonzero [OF ev]
      by (simp add: handle_output_events_def FLB_ENGINE_OUTPUT_EVENT_BATCH_SIZE_def)
    ultimately show ?thesis by simp
  qed
qed

section \<open>Coroutines\<close>

lemma set_route_status_outs: "map tr_out (set_route_status n st rs) = map tr_out rs"
  by (induction rs) auto

lemma set_route_status_same: "task_same t (flb_task_set_route_status t n st)"
proof -
  have outs: "map tr_out (set_route_status n st (task_routes t)) = map tr_out (task_routes t)"
    by (rule set_route_status_outs)
  then have "tr_out ` set (set_route_status n st (task_routes t)) = tr_out ` set (task_routes t)"
    by (metis list.set_map)
  then show ?thesis
    using outs by (simp add: task_same_def flb_task_set_route_status_def)
qed

lemma inv_set_route:
  assumes I: "inv X Y s"
  shows "inv X Y (upd_task a (\<lambda>t. flb_task_set_route_status t n st) s)"
proof (rule inv_upd_task [OF I set_route_status_same])
  show "wf_flight X Y (upd_task a (\<lambda>t. flb_task_set_route_status t n st) s)"
  proof (rule wf_flightI)
    note F = wf_flightD [OF invD(4) [OF I]]
    let ?s = "upd_task a (\<lambda>t. flb_task_set_route_status t n st) s"
    show "\<exists>t. task_heap ?s (fst p) = Some t" if "p \<in># flight ?s + X" for p using F(1) [of p] that by auto
    show "int (refs (flight ?s + X) b) \<le> task_users u" if "task_heap ?s b = Some u" for b u
      using F(2) [of b] that by (auto simp: flb_task_set_route_status_def split: if_splits)
    show "refs (flight ?s + X) b = 0 \<and> task_retries u = []"
      if "task_heap ?s b = Some u" "task_status u = TASK_NEW" for b u
      using F(3) [of b] that by (auto simp: flb_task_set_route_status_def split: if_splits)
  qed (use wf_flightD(4-6) [OF invD(4) [OF I]] in auto)
qed

lemma event_value_ok:
  assumes "ret \<in> {FLB_ERROR, FLB_OK, FLB_RETRY}" and "task_ok s a t" and "task_map_ok s"
    and "0 \<le> o_id out" and "o_id out < 16384"
  shows "event_ok (task_map s) out (event_value ret (task_id t) (o_id out))"
    "event_target (task_map s) (event_value ret (task_id t) (o_id out)) = (a, o_id out)"
proof -
  have r: "0 \<le> ret" "ret < 2 ^ 4" using assms(1) by (auto simp: FLB_ERROR_def FLB_OK_def FLB_RETRY_def)
  have i: "0 \<le> task_id t" "task_id t < 2 ^ 14" using assms(2,3) by (auto simp: task_ok_def task_map_ok_def)
  have d: "0 \<le> o_id out" "o_id out < 2 ^ 14" using assms(4,5) by auto
  note dec = task_set_decode [OF r i d]
  have "unat (FLB_TASK_ID (FLB_TASK_SET ret (task_id t) (o_id out))) = nat (task_id t)"
    using dec(2) by (metis nat_uint_eq)
  then show "event_ok (task_map s) out (event_value ret (task_id t) (o_id out))"
    "event_target (task_map s) (event_value ret (task_id t) (o_id out)) = (a, o_id out)"
    using assms(1,2) dec
    by (auto simp: event_ok_def event_target_def event_value_def u64_set_decode task_ok_def FLB_ENGINE_TASK_def)
qed

lemma output_return_safe:
  assumes I: "inv X Y s" and get: "flb_output_get_instance s n = Some out" and fl: "fl \<in> set (o_flush_list out)"
    and ret: "ret \<in> {FLB_ERROR, FLB_OK, FLB_RETRY}"
  shows "inv X Y (flb_output_return e ret n fl s)" "queue_of (flb_output_return e ret n fl s) = queue_of s"
proof -
  let ?a = "fl_task fl"
  have id: "o_id out = n" and ok: "out_ok s out"
    using get_instance_Some [OF get] invD(1) [OF I] by (auto simp: wf_outs_def)
  have "(?a, n) \<in># flight s"
    using fl id by (auto simp: flight_split [OF invD(1) [OF I] get] out_pairs_def)
  then obtain t where t: "task_heap s ?a = Some t" using wf_flightD(1) [OF invD(4) [OF I], of "(?a, n)"] by auto
  let ?v = "event_value ret (task_id t) n"
  let ?s1 = "upd_task ?a (\<lambda>t. flb_task_set_route_status t n ROUTE_INACTIVE) s"
  let ?del = "\<lambda>out. out\<lparr>o_flush_list := filter (\<lambda>x. fl_addr x \<noteq> fl_addr fl) (o_flush_list out),
       o_flush_list_destroy := o_flush_list_destroy out @ [fl]\<rparr>"
  let ?add = "\<lambda>out. if e_pipe e (fl_addr fl) n then out\<lparr>o_ch_events := o_ch_events out @ [?v]\<rparr> else out"
  have s': "flb_output_return e ret n fl s = upd_out n (\<lambda>out. ?del (?add out)) ?s1"
  proof (cases "e_pipe e (fl_addr fl) n")
    case True
    then show ?thesis
      using t by (simp add: flb_output_return_def flb_output_flush_prepare_destroy_def flb_task_deactivate_route_def
          Let_def upd_out_twice)
  next
    case False
    then show ?thesis
      using t by (simp add: flb_output_return_def flb_output_flush_prepare_destroy_def flb_task_deactivate_route_def
          Let_def)
  qed
  have I1: "inv X Y ?s1" using inv_set_route [OF I] .
  have get1: "flb_output_get_instance ?s1 n = Some out" using get by simp
  have tok: "task_ok s ?a t" and mok: "task_map_ok s" using invD(2) [OF I] t by (auto simp: wf_tasks_def)
  have v: "event_ok (task_map s) out ?v" "event_target (task_map s) ?v = (?a, n)"
    using event_value_ok [OF ret tok mok, of out] ok id by (auto simp: out_ok_def)
  have d: "distinct (map fl_addr (o_flush_list out))" using ok by (simp add: out_ok_def)
  have pairs: "out_pairs (task_map s) out =
      add_mset (?a, n) (out_pairs (task_map s) (out\<lparr>o_flush_list := filter (\<lambda>x. fl_addr x \<noteq> fl_addr fl) (o_flush_list out)\<rparr>))"
  proof -
    have "mset (o_flush_list out) = add_mset fl (mset (filter (\<lambda>x. fl_addr x \<noteq> fl_addr fl) (o_flush_list out)))"
      using mset_filter_addr [OF d fl] fl by simp
    then show ?thesis using id by (simp add: out_pairs_def flip: mset_filter)
  qed
  have okd: "out_ok ?s1 (?del (?add out))"
    using ok v(1) fl by (auto simp: out_ok_def event_ok_def distinct_map_filter)
  have "inv X Y (upd_out n (\<lambda>out. ?del (?add out)) ?s1)"
  proof (cases "e_pipe e (fl_addr fl) n")
    case True
    show ?thesis
      by (rule inv_upd_out [OF I1 get1], simp, rule okd)
         (use True pairs v(2) id in \<open>simp add: out_pairs_def\<close>)
  next
    case False
    have "inv (add_mset (?a, n) X) Y (upd_out n (\<lambda>out. ?del (?add out)) ?s1)"
      by (rule inv_upd_out [OF I1 get1], simp, rule okd)
         (use False pairs id in \<open>simp add: out_pairs_def\<close>)
    then show ?thesis by (rule inv_weaken) simp
  qed
  then show "inv X Y (flb_output_return e ret n fl s)" by (simp only: s')
  show "queue_of (flb_output_return e ret n fl s) = queue_of s"
    unfolding s' by (subst queue_of_upd_out_same) simp_all
qed

lemma inv_started:
  assumes I: "inv X Y s"
  shows "inv X Y (upd_out n (\<lambda>out. out\<lparr>o_flush_list :=
      map (\<lambda>x. if fl_addr x = b then x\<lparr>fl_started := True\<rparr> else x) (o_flush_list out)\<rparr>) s)"
proof (rule inv_upd_out_same [OF I])
  let ?g = "\<lambda>x. if fl_addr x = b then x\<lparr>fl_started := True\<rparr> else x"
  have addrs: "map fl_addr (map ?g fs) = map fl_addr fs" for fs by (induction fs) auto
  have tasks: "fl_task (?g x) = fl_task x" for x by simp
  show "out_pairs tm (out\<lparr>o_flush_list := map ?g (o_flush_list out)\<rparr>) = out_pairs tm out" for tm out
    by (simp add: out_pairs_def comp_def tasks)
  have "fl_addr (?g x) = fl_addr x" for x by simp
  then have lt: "(\<forall>f \<in> set (map ?g fs). fl_addr f < k) = (\<forall>f \<in> set fs. fl_addr f < k)" for fs k
    by (simp only: set_map ball_simps(9)) auto
  show "out_ok s (out\<lparr>o_flush_list := map ?g (o_flush_list out)\<rparr>)"
    if "out \<in> set (cf_outputs s)" "o_id out = n" for out
  proof -
    have ok: "out_ok s out" using invD(1) [OF I] that by (simp add: wf_outs_def)
    have "distinct (map fl_addr (map ?g (o_flush_list out) @ o_flush_list_destroy out))"
      using ok by (simp only: map_append addrs out_ok_def)
    moreover have "\<forall>f \<in> set (map ?g (o_flush_list out) @ o_flush_list_destroy out). fl_addr f < sched_brk s"
      using ok lt [of "o_flush_list out"] by (simp only: out_ok_def set_append ball_Un) blast
    ultimately show ?thesis using ok by (simp add: out_ok_def event_ok_def)
  qed
qed simp

lemma pre_cb_flush_safe:
  assumes I: "inv X Y s" and get: "flb_output_get_instance s n = Some out" and fl: "fl \<in> set (o_flush_list out)"
  shows "inv X Y (output_pre_cb_flush e n fl s)" "queue_of (output_pre_cb_flush e n fl s) = queue_of s"
proof -
  have ret: "inv X Y (flb_output_return e r n fl s) \<and> queue_of (flb_output_return e r n fl s) = queue_of s"
    if "r \<in> {FLB_ERROR, FLB_OK, FLB_RETRY}" for r
    using output_return_safe [OF I get fl that] by simp
  have act: "inv X Y (upd_out n (\<lambda>out. out\<lparr>o_flush_list :=
      map (\<lambda>x. if fl_addr x = fl_addr fl then x\<lparr>fl_started := True\<rparr> else x) (o_flush_list out)\<rparr>)
      (upd_task (fl_task fl) (\<lambda>t. flb_task_activate_route t n) s))"
    unfolding flb_task_activate_route_def by (intro inv_started inv_set_route I)
  have quo: "queue_of (upd_out n (\<lambda>out. out\<lparr>o_flush_list :=
      map (\<lambda>x. if fl_addr x = fl_addr fl then x\<lparr>fl_started := True\<rparr> else x) (o_flush_list out)\<rparr>)
      (upd_task (fl_task fl) (\<lambda>t. flb_task_activate_route t n) s)) = queue_of s"
    by (subst queue_of_upd_out_same) simp_all
  show "inv X Y (output_pre_cb_flush e n fl s)" "queue_of (output_pre_cb_flush e n fl s) = queue_of s"
    using ret [of FLB_OK] ret [of FLB_ERROR] act quo I
    by (simp_all add: output_pre_cb_flush_def Let_def split: option.split)
qed

lemma thread_take_safe:
  assumes I: "inv X Y s"
  shows "inv X Y (output_thread_take e n s)" "queue_of (output_thread_take e n s) = queue_of s"
proof -
  have "inv X Y (output_thread_take e n s) \<and> queue_of (output_thread_take e n s) = queue_of s"
  proof (cases "flb_output_get_instance s n")
    case None
    then show ?thesis using I by (simp add: output_thread_take_def)
  next
    case (Some out)
    show ?thesis
    proof (cases "o_tp_queue out")
      case Nil
      then show ?thesis using I Some by (simp add: output_thread_take_def)
    next
      case (Cons a as)
      let ?f = "\<lambda>out. out\<lparr>o_tp_queue := as\<rparr>"
      let ?s = "upd_out n ?f s"
      have id: "o_id out = n" and ok: "out_ok s out"
        using get_instance_Some [OF Some] invD(1) [OF I] by (auto simp: wf_outs_def)
      have I1: "inv (add_mset (a, n) X) Y ?s"
        by (rule inv_upd_out [OF I Some]) (use ok Cons id in \<open>simp_all add: out_ok_def out_pairs_def event_ok_def\<close>)
      have get1: "flb_output_get_instance ?s n = Some (?f out)" using Some get_upd_out [of ?f n s n] by simp
      have q1: "queue_of ?s = queue_of s" by (rule queue_of_upd_out_same) simp_all
      obtain res s' where eq: "flb_output_flush_create e a n ?s = (res, s')" by fastforce
      from I1 get1 eq show ?thesis
      proof (cases rule: flush_create_effect)
        case none
        then show ?thesis
          using Some Cons eq inv_weaken [OF none(2), of X] q1 by (simp add: output_thread_take_def flush_frame_def)
      next
        case (some fl s0 out0)
        have I2: "inv X Y s'"
          using inv_put_flush [OF some(2,9,6)] some(7,8,10,11) by simp
        have "flb_output_get_instance s' n = Some (out0\<lparr>o_flush_list := o_flush_list out0 @ [fl]\<rparr>)"
          using some(9,11) get_upd_out [of "\<lambda>out. out\<lparr>o_flush_list := o_flush_list out @ [fl]\<rparr>" n s0 n] by simp
        moreover have "queue_of s' = queue_of s"
          using some(3,11) q1 queue_of_upd_out_same [of "\<lambda>out. out\<lparr>o_flush_list := o_flush_list out @ [fl]\<rparr>" n s0]
          by (simp add: flush_frame_def)
        ultimately show ?thesis
          using Some Cons eq some(1) pre_cb_flush_safe [OF I2] by (simp add: output_thread_take_def)
      qed
    qed
  qed
  then show "inv X Y (output_thread_take e n s)" "queue_of (output_thread_take e n s) = queue_of s" by simp_all
qed

section \<open>Enqueueing\<close>

text \<open>What a flush through the output \<open>n\<close> leaves alone, the requests included.\<close>

definition flush_like :: "(addr \<times> int) multiset \<Rightarrow> int \<Rightarrow> 'c flb_config \<Rightarrow> 'c flb_config \<Rightarrow> bool" where
  "flush_like P n s s' \<longleftrightarrow>
     (\<forall>b. map_option task_static (task_heap s' b) = map_option task_static (task_heap s b))
     \<and> retry_heap s' = retry_heap s \<and> requests s' = requests s \<and> requests_wait s' = requests_wait s
     \<and> oids s' = oids s \<and> cf_inputs s' = cf_inputs s \<and> chunk_heap s' = chunk_heap s
     \<and> flight s' \<subseteq># flight s + P \<and> (\<forall>m. m \<noteq> n \<longrightarrow> queue_of s' m = queue_of s m)"

lemma flush_like_frame:
  assumes "flush_frame s s'" and "flight s' \<subseteq># flight s + P"
    and "\<And>b. map_option task_static (task_heap s' b) = map_option task_static (task_heap s b)"
  shows "flush_like P n s s'"
  using assms by (simp add: flush_like_def flush_frame_def)

lemma flush_like_trans:
  assumes "flush_like P n s s'" and "flush_like Q n s' s''"
  shows "flush_like (P + Q) n s s''"
proof -
  have "flight s'' \<subseteq># flight s' + Q" using assms(2) by (simp add: flush_like_def)
  also have "\<dots> \<subseteq># flight s + P + Q" using assms(1) by (simp add: flush_like_def)
  finally show ?thesis using assms by (simp add: flush_like_def add.assoc)
qed

lemma flush_like_more: "flush_like {#} n s s' \<Longrightarrow> flush_like P n s s'"
  by (auto simp: flush_like_def subset_mset.add_increasing2)

lemma flush_like_waiting: "flush_like P n s s' \<Longrightarrow> waiting Y s' = waiting Y s"
  unfolding flush_like_def waiting_def reqs_def using pair_cong [of s' s] by simp

lemma flush_like_calm:
  assumes "flush_like P n s s'"
  shows "calm P n s s'"
proof -
  have "flight s' + waiting {#} s' \<subseteq># flight s + waiting {#} s + P"
    using assms flush_like_waiting [OF assms, of "{#}"]
    by (simp add: flush_like_def)
  then show ?thesis using assms by (simp add: calm_def flush_like_def)
qed

lemma inv_queue_progress:
  assumes I: "inv X Y s"
  shows "inv X Y (upd_queue n (\<lambda>tq. tq\<lparr>in_progress := g (in_progress tq)\<rparr>) s)"
  unfolding upd_queue_def using invD(1) [OF I]
  by (intro inv_upd_out_same [OF I]) (auto simp: wf_outs_def out_ok_def out_pairs_def event_ok_def)

lemma queue_of_upd_queue:
  "queue_of (upd_queue n f s) m = map_option (if m = n then f else (\<lambda>tq. tq)) (queue_of s m)"
proof -
  have "queue_of (upd_queue n f s) m = map_option (\<lambda>out. o_singleplex_queue
      (if m = n then out\<lparr>o_singleplex_queue := f (o_singleplex_queue out)\<rparr> else out)) (flb_output_get_instance s m)"
    unfolding upd_queue_def by (rule queue_of_upd_out) simp
  then show ?thesis by (simp add: queue_of_def option.map_comp comp_def option.map_ident)
qed

lemma queue_progress_like:
  assumes I: "inv X Y s"
  shows "flush_like {#} n s (upd_queue n (\<lambda>tq. tq\<lparr>in_progress := g (in_progress tq)\<rparr>) s)"
proof -
  let ?f = "\<lambda>out. out\<lparr>o_singleplex_queue := (o_singleplex_queue out)
      \<lparr>in_progress := g (in_progress (o_singleplex_queue out))\<rparr>\<rparr>"
  have "flight (upd_out n ?f s) = flight s"
  proof (cases "flb_output_get_instance s n")
    case None
    then have "map (\<lambda>out. if o_id out = n then ?f out else out) (cf_outputs s) = cf_outputs s"
      by (intro map_idI) (auto simp: flb_output_get_instance_def find_None_iff)
    then show ?thesis by (simp add: upd_out_def)
  next
    case (Some out)
    then show ?thesis
      using flight_upd_out [OF invD(1) [OF I] Some, of ?f] flight_split [OF invD(1) [OF I] Some]
      by (simp add: out_pairs_def)
  qed
  then show ?thesis
    using queue_of_upd_queue [of n "\<lambda>tq. tq\<lparr>in_progress := g (in_progress tq)\<rparr>" s]
    by (simp add: flush_like_def option.map_ident) (simp add: upd_queue_def upd_out_oids)
qed

text \<open>With nothing pending, going on to the next task only clears the entry in progress.\<close>

lemma next_empty:
  assumes "queue_of s n = Some tq" and "pending tq = []"
  shows "flb_output_task_singleplex_flush_next k e n s =
           Some (0, upd_queue n (\<lambda>tq. tq\<lparr>in_progress := tl (in_progress tq)\<rparr>) s)"
proof -
  let ?s = "upd_queue n (\<lambda>tq. tq\<lparr>in_progress := tl (in_progress tq)\<rparr>) s"
  have "queue_of ?s n = Some (tq\<lparr>in_progress := tl (in_progress tq)\<rparr>)"
    using assms(1) by (simp add: queue_of_upd_queue)
  then obtain out where "flb_output_get_instance ?s n = Some out" "pending (o_singleplex_queue out) = []"
    using assms(2) by (auto simp: queue_of_def)
  then show ?thesis by (simp add: flb_output_task_singleplex_flush_next.simps)
qed

text \<open>A flush of a task whose output has nothing pending, for any requests about to be destroyed.\<close>

lemma flush_alone:
  assumes I: "inv X Y s" and t: "task_heap s a = Some t" "task_status t \<noteq> TASK_NEW"
    and free: "(a, n) \<notin># flight s + X + waiting Y s"
    and q: "queue_of s n = Some tq" "pending tq = [] \<or> \<not> synchronous out" and out: "flb_output_get_instance s n = Some out"
  obtains ret s' tq' where "flb_output_task_flush k e a n s = Some (ret, s')" "inv X Y s'"
    "flush_like (if ret = -1 then {#} else {#(a, n)#}) n s s'" "ret = -1 \<or> ret = 0" "queue_of s' n = Some tq'"
    "pending tq' = pending tq" "\<not> synchronous out \<Longrightarrow> queue_of s' = queue_of s"
proof -
  from I t free out show ?thesis
  proof (cases rule: flush_attempt [where e = e])
    case (started s1)
    have "flush_like {#(a, n)#} n s s1"
      using flush_like_frame [OF started(3), of "{#(a, n)#}"] started(4,5) users_inc_static(1) [of a s] by simp
    moreover have "queue_of s1 = queue_of s" using started(3) by (simp add: flush_frame_def)
    ultimately show ?thesis using that [of 0 s1 tq] started(1,2) q(1) by simp
  next
    case (failed ret s1 again)
    have like: "flush_like {#} n s s1" using flush_like_frame [OF failed(3), of "{#}"] failed(4,5) by simp
    have q1: "queue_of s1 = queue_of s" using failed(3) by (simp add: flush_frame_def)
    note more = flush_like_more [of n s]
    show ?thesis
    proof (cases again)
      case True
      let ?s2 = "upd_queue n (\<lambda>tq. tq\<lparr>in_progress := tl (in_progress tq)\<rparr>) s1"
      have "pending tq = []" using q(2) failed(7) [OF True] by simp
      then have "flb_output_task_flush k e a n s = Some (ret, ?s2)"
        using failed(1) [of k] True next_empty [of s1 n tq k e] q(1) q1 by simp
      moreover have "flush_like {#} n s ?s2"
        using flush_like_trans [OF like queue_progress_like [OF failed(2), of n tl]] by simp
      moreover have "inv X Y ?s2" using inv_queue_progress [OF failed(2)] .
      moreover have "queue_of ?s2 n = Some (tq\<lparr>in_progress := tl (in_progress tq)\<rparr>)"
        using q(1) q1 by (simp add: queue_of_upd_queue)
      ultimately show ?thesis using that [of ret ?s2] more failed(6) failed(7) [OF True] by simp
    next
      case False
      then show ?thesis using that [of ret s1 tq] failed(1) [of k] failed(2,6) more [OF like] q(1) q1 by simp
    qed
  qed
qed

text \<open>
  Enqueueing a task, for the first time or for the retry \<open>r\<close> whose request is about to be destroyed. When
  it fails for a retry, the retry context is gone.
\<close>

lemma inv_put_pending:
  assumes I: "inv (add_mset (a, n) X) Y s" and get: "flb_output_get_instance s n = Some out"
    and r: "\<And>r. retry = Some r \<Longrightarrow> r \<in> dom (retry_heap s) \<and> retry_pair s r = (a, n)"
  shows "inv X Y (upd_queue n (\<lambda>tq. tq\<lparr>pending := pending tq @ [\<lparr>eq_retry = retry, eq_out = n, eq_task = a\<rparr>]\<rparr>) s)"
    "flight (upd_queue n (\<lambda>tq. tq\<lparr>pending := pending tq @ [\<lparr>eq_retry = retry, eq_out = n, eq_task = a\<rparr>]\<rparr>) s)
       = add_mset (a, n) (flight s)"
proof -
  let ?q = "\<lparr>eq_retry = retry, eq_out = n, eq_task = a\<rparr>"
  let ?f = "\<lambda>out. out\<lparr>o_singleplex_queue := (o_singleplex_queue out)
      \<lparr>pending := pending (o_singleplex_queue out) @ [?q]\<rparr>\<rparr>"
  have id: "o_id out = n" and ok: "out_ok s out"
    using get_instance_Some [OF get] invD(1) [OF I] by (auto simp: wf_outs_def)
  have pairs: "out_pairs tm (?f out) = add_mset (a, n) (out_pairs tm out)" for tm
    using id by (simp add: out_pairs_def)
  have ok': "out_ok s (?f out)"
    using ok id r by (auto simp: out_ok_def event_ok_def)
  show "inv X Y (upd_queue n (\<lambda>tq. tq\<lparr>pending := pending tq @ [?q]\<rparr>) s)"
    unfolding upd_queue_def by (rule inv_upd_out [OF I get], simp, rule ok') (simp add: pairs)
  show "flight (upd_queue n (\<lambda>tq. tq\<lparr>pending := pending tq @ [?q]\<rparr>) s) = add_mset (a, n) (flight s)"
    using flight_upd_out [OF invD(1) [OF I] get, of ?f] flight_split [OF invD(1) [OF I] get] pairs
    by (simp add: upd_queue_def)
qed

lemma inv_discounted_destroy:
  assumes "inv X {#r#} s" and "retry_heap s r \<noteq> None" and "retry_pair s r \<notin># flight s + waiting {#r#} s"
  shows "inv X {#} (flb_task_retry_destroy r s)"
proof -
  have "r \<notin># reqs s - {#r#}"
  proof
    assume "r \<in># reqs s - {#r#}"
    then have "retry_pair s r \<in># waiting {#r#} s" by (simp add: waiting_def)
    then show False using assms(3) by simp
  qed
  then have "count (reqs s) r \<le> 1" by (simp add: not_in_iff)
  then show ?thesis using inv_retry_destroy [OF assms(1)] assms(2,3) by simp
qed

definition lists_kept :: "'c flb_config \<Rightarrow> 'c flb_config \<Rightarrow> bool" where
  "lists_kept s s' \<longleftrightarrow> set (requests s @ requests_wait s) \<subseteq> set (requests s' @ requests_wait s')"

lemma flush_like_lists: "flush_like P n s s' \<Longrightarrow> lists_kept s s'"
  by (simp add: lists_kept_def flush_like_def)

lemma queues_ok_like: "queues_ok s \<Longrightarrow> flush_like P n s s' \<Longrightarrow> queue_ok s' n \<Longrightarrow> queues_ok s'"
  using queues_ok_calm flush_like_calm by blast

lemma enqueue_safe:
  assumes I: "inv X Y s" and qs: "queues_ok s" and t: "task_heap s a = Some t" "task_status t \<noteq> TASK_NEW"
    and free: "(a, n) \<notin># flight s + X + waiting Y s" and n: "n \<in> oids s"
    and retry: "retry = None \<and> Y = {#} \<or> (\<exists>r. retry = Some r \<and> Y = {#r#} \<and> r \<in> dom (retry_heap s) \<and> retry_pair s r = (a, n))"
  obtains ret s' where "flb_output_task_singleplex_enqueue e retry a n s = Some (ret, s')" "queues_ok s'"
    "ret = -1 \<Longrightarrow> inv X {#} s'" "ret \<noteq> -1 \<Longrightarrow> inv X Y s'" "ret = -1 \<or> ret = 0"
    "ret \<noteq> -1 \<or> retry = None \<Longrightarrow> flush_like {#(a, n)#} n s s'"
proof -
  obtain out where out: "flb_output_get_instance s n = Some out" using n get_instance_iff by blast
  let ?s1 = "flb_task_users_inc a s"
  have I1: "inv (add_mset (a, n) X) Y ?s1" using inv_users_inc [OF I t free] .
  have like1: "flush_like {#} n s ?s1"
    by (rule flush_like_frame [OF flush_frame_users_inc]) (simp_all add: users_inc_static)
  have q1: "queue_of ?s1 = queue_of s" by (simp add: flb_task_users_inc_def)
  have pair1: "retry_pair ?s1 = retry_pair s" "retry_heap ?s1 = retry_heap s" by (simp_all add: flb_task_users_inc_def)
  show ?thesis
  proof (cases "e_alloc e A_enqueued (sched_brk s)")
    case False
    let ?s' = "case retry of None \<Rightarrow> ?s1 | Some r \<Rightarrow> flb_task_retry_destroy r ?s1"
    have eq: "flb_output_task_singleplex_enqueue e retry a n s = Some (-1, ?s')"
      using False by (simp add: flb_output_task_singleplex_enqueue_def flb_output_task_queue_enqueue_def)
    have I2: "inv X Y ?s1" using inv_weaken [OF I1, of X] by simp
    show ?thesis
    proof (cases retry)
      case None
      then show ?thesis
        using that [OF eq] retry I2 qs queues_ok_same [OF q1] flush_like_trans [OF like1, of "{#(a, n)#}" ?s1]
        by (simp add: flush_like_def)
    next
      case (Some r)
      then have r: "Y = {#r#}" "r \<in> dom (retry_heap s)" "retry_pair s r = (a, n)" using retry by auto
      have "inv X {#} ?s'"
        using inv_discounted_destroy [OF I2 [unfolded r(1)]] r free pair1 Some by auto
      moreover have quo: "queue_of ?s' = queue_of s"
        using Some q1 retry_destroy_outs [OF invD(5) [OF I2], of r]
        by (simp add: queue_of_def flb_output_get_instance_def fun_eq_iff)
      ultimately show ?thesis using that [OF eq] qs queues_ok_same [OF quo] Some by simp
    qed
  next
    case True
    let ?q = "\<lparr>eq_retry = retry, eq_out = n, eq_task = a\<rparr>"
    let ?s2 = "upd_queue n (\<lambda>tq. tq\<lparr>pending := pending tq @ [?q]\<rparr>) ?s1"
    let ?tq = "o_singleplex_queue out"
    have out1: "flb_output_get_instance ?s1 n = Some out" using out by simp
    have r1: "r \<in> dom (retry_heap ?s1) \<and> retry_pair ?s1 r = (a, n)" if "retry = Some r" for r
      using retry that unfolding pair1 by auto
    have I2: "inv X Y ?s2" and fl2: "flight ?s2 = add_mset (a, n) (flight ?s1)"
      using inv_put_pending [OF I1 out1 r1] by blast+
    have quo: "queue_of s n = Some ?tq" using out by (simp add: queue_of_def)
    have q2: "queue_of ?s2 m = (if m = n then Some (?tq\<lparr>pending := pending ?tq @ [?q]\<rparr>) else queue_of s m)" for m
      using quo q1 by (simp add: queue_of_upd_queue option.map_ident)
    have like2: "flush_like {#(a, n)#} n s ?s2"
    proof -
      have "flush_like {#(a, n)#} n ?s1 ?s2"
        using fl2 q2 q1 by (simp add: flush_like_def) (simp add: upd_queue_def upd_out_oids)
      then show ?thesis using flush_like_trans [OF like1] by simp
    qed
    obtain out2 where out2: "flb_output_get_instance ?s2 n = Some out2"
        "o_singleplex_queue out2 = ?tq\<lparr>pending := pending ?tq @ [?q]\<rparr>"
      using q2 [of n] by (auto simp: queue_of_def)
    show ?thesis
    proof (cases "in_progress ?tq = []")
      case False
      then have "flb_output_task_singleplex_enqueue e retry a n s = Some (0, ?s2)"
        using True out2 by (simp add: flb_output_task_singleplex_enqueue_def flb_output_task_queue_enqueue_def)
      moreover have "queue_ok ?s2 n" using False q2 by (simp add: queue_ok_def)
      ultimately show ?thesis using that [of 0 ?s2] I2 like2 queues_ok_like [OF qs like2] by simp
    next
      case idle: True
      then have empty: "pending ?tq = []" using qs quo by (auto simp: queues_ok_def queue_ok_def dest!: spec [of _ n])
      then have fuel: "queue_fuel n ?s2 = Suc (Suc 0)" using out2 by (simp add: queue_fuel_def)
      have eq: "flb_output_task_singleplex_enqueue e retry a n s = flb_output_task_queue_flush_one (Suc (Suc 0)) e n ?s2"
        using True out2 idle fuel
        by (simp add: flb_output_task_singleplex_enqueue_def flb_output_task_queue_enqueue_def)
      define s3 where "s3 = flb_task_users_dec e a False
          (upd_queue n (\<lambda>tq. tq\<lparr>pending := [], in_progress := in_progress tq @ [?q]\<rparr>) ?s2)"
      have s3: "s3 = upd_queue n (\<lambda>tq. tq\<lparr>pending := [], in_progress := in_progress tq @ [?q]\<rparr>)
          (upd_queue n (\<lambda>tq. tq\<lparr>pending := pending tq @ [?q]\<rparr>) s)"
        by (simp add: s3_def upd_queue_def users_dec_upd_out users_inc_upd_out users_inc_dec)
      have I3: "inv X Y s3" and fl3: "flight s3 = flight s" and q3: "queue_of s3 n = Some (?tq\<lparr>pending := [], in_progress := [?q]\<rparr>)"
          and like3: "flush_like {#} n s s3"
      proof -
        let ?f = "\<lambda>out. out\<lparr>o_singleplex_queue := (o_singleplex_queue out)
            \<lparr>pending := [], in_progress := in_progress (o_singleplex_queue out) @ [?q]\<rparr>\<rparr>"
        have eq3: "s3 = upd_out n ?f s"
          by (simp add: s3 upd_queue_def upd_out_twice)
        have ok: "out_ok s out" using invD(1) [OF I] get_instance_Some [OF out] by (simp add: wf_outs_def)
        have pairs: "out_pairs tm (?f out) = out_pairs tm out" for tm using empty by (simp add: out_pairs_def)
        show "inv X Y s3"
          unfolding eq3 by (rule inv_upd_out [OF I out]) (use ok pairs in \<open>simp_all add: out_ok_def event_ok_def\<close>)
        show fl: "flight s3 = flight s"
          using flight_upd_out [OF invD(1) [OF I] out, of ?f] flight_split [OF invD(1) [OF I] out] pairs by (simp add: eq3)
        have quo3: "queue_of s3 m = (if m = n then Some (?tq\<lparr>pending := [], in_progress := [?q]\<rparr>) else queue_of s m)" for m
          unfolding eq3 using queue_of_upd_out [of ?f n s m] out idle by (simp add: queue_of_def)
        then show "queue_of s3 n = Some (?tq\<lparr>pending := [], in_progress := [?q]\<rparr>)" by simp
        show "flush_like {#} n s s3" using fl quo3 by (simp add: flush_like_def) (simp add: eq3 upd_out_oids)
      qed
      obtain t3 where t3: "task_heap s3 a = Some t3" "task_status t3 \<noteq> TASK_NEW"
        using calm_running [OF flush_like_calm [OF like3] t] by blast
      have free3: "(a, n) \<notin># flight s3 + X + waiting Y s3" using free fl3 flush_like_waiting [OF like3] by simp
      obtain out3 where out3: "flb_output_get_instance s3 n = Some out3" using q3 by (auto simp: queue_of_def)
      obtain ret s4 tq4 where fl4: "flb_output_task_flush (Suc 0) e a n s3 = Some (ret, s4)" "inv X Y s4"
          "flush_like (if ret = -1 then {#} else {#(a, n)#}) n s3 s4" "ret = -1 \<or> ret = 0" "queue_of s4 n = Some tq4"
          "pending tq4 = pending (?tq\<lparr>pending := [], in_progress := [?q]\<rparr>)"
        using flush_alone [OF I3 t3 free3 q3 _ out3, of "Suc 0" e thesis] by simp
      have one: "flb_output_task_queue_flush_one (Suc (Suc 0)) e n ?s2 =
          (if ret = -1
           then map_option (\<lambda>(_, s). (-1, s)) (flb_output_task_singleplex_flush_next (Suc 0) e n
                  (case retry of None \<Rightarrow> s4 | Some r \<Rightarrow> flb_task_retry_destroy r s4))
           else Some (ret, s4))"
        using out2 empty fl4(1) s3_def by (simp add: flb_output_task_queue_flush_one.simps Let_def)
      show ?thesis
      proof (cases "ret = -1")
        case False
        have like4: "flush_like {#(a, n)#} n s s4" using flush_like_trans [OF like3 fl4(3)] False by simp
        moreover have "queue_ok s4 n" using fl4(5,6) by (simp add: queue_ok_def)
        ultimately show ?thesis
          using that [of ret s4] eq one False fl4(2,4) queues_ok_like [OF qs like4] by simp
      next
        case fail: True
        define s5 where "s5 = (case retry of None \<Rightarrow> s4 | Some r \<Rightarrow> flb_task_retry_destroy r s4)"
        have like4: "flush_like {#} n s s4" using flush_like_trans [OF like3 fl4(3)] fail by simp
        have free4: "(a, n) \<notin># flight s4 + waiting Y s4"
          using free flush_like_waiting [OF like4] mset_subset_eqD [of "flight s4" "flight s"] like4
          by (auto simp: flush_like_def)
        have heap4: "retry_heap s4 = retry_heap s" "retry_pair s4 = retry_pair s"
          using like4 pair_cong [of s4 s] by (simp_all add: flush_like_def)
        have I5: "inv X {#} s5"
        proof (cases retry)
          case None
          then show ?thesis using fl4(2) retry by (simp add: s5_def)
        next
          case (Some r)
          then show ?thesis
            using retry free4 heap4 inv_discounted_destroy [of X r s4] fl4(2) by (auto simp: s5_def)
        qed
        have q5: "queue_of s5 = queue_of s4"
          using retry_destroy_outs [OF invD(5) [OF fl4(2)]]
          by (auto simp: s5_def queue_of_def flb_output_get_instance_def fun_eq_iff split: option.split)
        let ?s6 = "upd_queue n (\<lambda>tq. tq\<lparr>in_progress := tl (in_progress tq)\<rparr>) s5"
        have run: "flb_output_task_singleplex_enqueue e retry a n s = Some (-1, ?s6)"
          using eq one fail next_empty [of s5 n tq4 "Suc 0" e] fl4(5,6) q5 by (simp add: s5_def)
        have I6: "inv X {#} ?s6" using inv_queue_progress [OF I5] .
        have same4: "\<forall>m. m \<noteq> n \<longrightarrow> queue_of s4 m = queue_of s m" using like4 by (simp add: flush_like_def)
        have "queue_of ?s6 m = (if m = n then Some (tq4\<lparr>in_progress := tl (in_progress tq4)\<rparr>) else queue_of s m)" for m
          unfolding queue_of_upd_queue q5 using fl4(5) same4 by (simp add: option.map_ident)
        then have "queues_ok ?s6" using qs fl4(6) by (simp add: queues_ok_def queue_ok_def)
        moreover have "flush_like {#(a, n)#} n s ?s6" if "retry = None"
        proof -
          have "s5 = s4" using that by (simp add: s5_def)
          then show ?thesis
            using flush_like_trans [OF like4 queue_progress_like [OF fl4(2), of n tl]] flush_like_more by simp
        qed
        ultimately show ?thesis using that [OF run] I6 by simp
      qed
    qed
  qed
qed

section \<open>Retries\<close>

lemma queues_ok_core: "core s' = core s \<Longrightarrow> queues_ok s' = queues_ok s"
  using queues_ok_same [OF queue_of_core [OF coreD(11)]] .

lemma views_core:
  assumes "core s' = core s"
  shows "flight s' = flight s" "waiting Y s' = waiting Y s" "retry_pair s' = retry_pair s" "oids s' = oids s"
    "lists_kept s s'" "reqs s' = reqs s"
proof -
  note D = coreD [OF assms]
  show "flight s' = flight s" using D by (intro flight_map_cong) simp_all
  show pair: "retry_pair s' = retry_pair s" using D(9) by (rule pair_cong)
  show "oids s' = oids s" using ids_core(2) [OF D(11)] .
  show "lists_kept s s'" by (simp add: lists_kept_def D)
  show "reqs s' = reqs s" by (simp add: reqs_def D)
  then show "waiting Y s' = waiting Y s" by (simp add: waiting_def pair)
qed

lemma lists_kept_trans: "lists_kept s s' \<Longrightarrow> lists_kept s' s'' \<Longrightarrow> lists_kept s s''"
  by (auto simp: lists_kept_def)

text \<open>A request that is being handled counts no more.\<close>

lemma inv_discount:
  assumes I: "inv X {#} s" and r: "r \<in># reqs s"
  shows "inv X {#r#} s" "retry_pair s r \<notin># flight s + X + waiting {#r#} s" "r \<in> dom (retry_heap s)"
proof -
  note F = wf_flightD [OF invD(4) [OF I]]
  obtain M where M: "reqs s = add_mset r M" using r by (meson multi_member_split)
  have w: "waiting {#} s = add_mset (retry_pair s r) (waiting {#r#} s)" by (simp add: waiting_def M)
  have "wf_flight X {#r#} s"
  proof (rule wf_flightI)
    show "count (flight s + X + waiting {#r#} s) p \<le> 1" for p using F(4) [of p] by (simp add: w split: if_splits)
    show "\<exists>rt. retry_heap s r' = Some rt" if "r' \<in># reqs s - {#r#}" for r' using F(6) [of r'] that by (simp add: M)
  qed (use F r in auto)
  then show "inv X {#r#} s" using I by (simp add: inv_def)
  show "retry_pair s r \<notin># flight s + X + waiting {#r#} s"
    using F(4) [of "retry_pair s r"] by (simp add: w not_in_iff)
  show "r \<in> dom (retry_heap s)" using F(6) [of r] r by auto
qed

lemma inv_discounted_request:
  assumes I: "inv X {#r#} s" and q: "q \<in> set (requests s @ requests_wait s)" "rq_data q = r"
  shows "inv X {#} (snd (flb_sched_request_destroy (Some q) s))"
proof -
  let ?s = "snd (flb_sched_request_destroy (Some q) s)"
  note E = request_destroy_effect [OF invD(5) [OF I] q(1) refl] and F = wf_flightD [OF invD(4) [OF I]]
  note D = noschedD [OF E(1)]
  have fl: "flight ?s = flight s" using D(4,3) by (rule flight_cong)
  have w: "waiting {#} ?s = waiting {#r#} s" by (simp add: waiting_def E(4) q(2) pair_cong [OF D(2)])
  have "wf_flight X {#} ?s"
    by (rule wf_flightI) (use F E(4) q(2) in \<open>auto simp: fl w D(1,2)\<close>)
  then show ?thesis using inv_sched [OF I E(1,2)] E(3) by simp
qed

lemma sched_request_lists:
  assumes "sched_inv s" and "sched_request e r n s = Some (ret, s')"
  shows "lists_kept s s'"
  using assms unfolding sched_request_def request_create_eq [OF assms(1)]
  by (auto simp: lists_kept_def with_now_def with_wait_def split: if_splits option.splits)

text \<open>
  The dispatch of a retry while its request is still in the scheduler: it ends with the pair in flight
  or a new request, or with the retry context gone.
\<close>

definition dispatched :: "addr \<Rightarrow> (addr \<times> int) multiset \<Rightarrow> 'c flb_config \<Rightarrow> int \<Rightarrow> 'c flb_config \<Rightarrow> bool" where
  "dispatched r X s ret s' \<longleftrightarrow>
     queues_ok s' \<and> (if ret = 0 then inv X {#r#} s' \<and> lists_kept s s' else inv X {#} s')"

lemma reschedule_safe:
  assumes I: "inv X {#r#} s" and q: "queues_ok s" and r: "r \<in> dom (retry_heap s)"
    and free: "retry_pair s r \<notin># flight s + X + waiting {#r#} s" and "rand_ok e"
  shows "\<exists>ret s'. flb_task_retry_reschedule e r s = Some (ret, s') \<and> dispatched r X s ret s'"
proof -
  obtain rt where rt: "retry_heap s r = Some rt" using r by auto
  obtain sec s1 where req: "sched_request e r (rt_attempts rt) s = Some (sec, s1)" "nosched s1 = nosched s"
      "sched_inv s1" "sched_brk s \<le> sched_brk s1" "reqs s1 = (if sec = -1 then reqs s else add_mset r (reqs s))"
    using sched_request_effect [OF invD(5,6) [OF I] assms(5)] by blast
  note D = noschedD [OF req(2)]
  have quo: "queue_of s1 = queue_of s" by (simp add: queue_of_def flb_output_get_instance_def D fun_eq_iff)
  show ?thesis
  proof (cases "sec = -1")
    case False
    then have "inv X {#r#} s1" using inv_request_added [OF I req(2-4)] req(5) r free by simp
    moreover have "lists_kept s s1" using sched_request_lists [OF invD(5) [OF I] req(1)] .
    ultimately show ?thesis
      using rt req(1) False q queues_ok_same [OF quo] by (simp add: flb_task_retry_reschedule_def dispatched_def)
  next
    case True
    then have I1: "inv X {#r#} s1" using inv_sched_same [OF I req(2-4)] req(5) by simp
    have "retry_pair s1 r \<notin># flight s1 + waiting {#r#} s1"
      using free flight_cong [OF D(4,3)] True req(5) by (simp add: waiting_def pair_cong [OF D(2)])
    then have I2: "inv X {#} (flb_task_retry_destroy r s1)"
      using inv_discounted_destroy [OF I1] r D(2) by auto
    let ?s = "flb_task_users_release e (rt_parent rt) (flb_task_retry_destroy r s1)"
    have "queue_of ?s = queue_of s"
      using queue_of_core [OF users_release_core [OF I2, of e "rt_parent rt"]] quo
        retry_destroy_outs [OF invD(5) [OF I1], of r]
      by (simp add: queue_of_def flb_output_get_instance_def fun_eq_iff)
    then have "queues_ok ?s" using q queues_ok_same [of ?s s] by simp
    then show ?thesis
      using rt req(1) True inv_users_release [OF I2] by (simp add: flb_task_retry_reschedule_def dispatched_def)
  qed
qed

lemma inv_event_chunk:
  assumes I: "inv X Y s"
  shows "inv X Y (upd_task a (\<lambda>t. t\<lparr>task_event_chunk := map_option f (task_event_chunk t)\<rparr>) s)"
proof (rule inv_upd_task [OF I])
  let ?s = "upd_task a (\<lambda>t. t\<lparr>task_event_chunk := map_option f (task_event_chunk t)\<rparr>) s"
  note F = wf_flightD [OF invD(4) [OF I]]
  show "wf_flight X Y ?s"
  proof (rule wf_flightI)
    show "\<exists>t. task_heap ?s (fst p) = Some t" if "p \<in># flight ?s + X" for p using F(1) [of p] that by auto
    show "int (refs (flight ?s + X) b) \<le> task_users u" if "task_heap ?s b = Some u" for b u
      using F(2) [of b] that by (auto split: if_splits)
    show "refs (flight ?s + X) b = 0 \<and> task_retries u = []"
      if "task_heap ?s b = Some u" "task_status u = TASK_NEW" for b u
      using F(3) [of b] that by (auto split: if_splits)
  qed (use F(4-6) in auto)
qed (simp add: task_same_def)

lemma retry_flush_safe:
  assumes I: "inv X {#r#} s" and q: "queues_ok s" and rt: "retry_heap s r = Some rt"
    and free: "retry_pair s r \<notin># flight s + X + waiting {#r#} s"
    and out: "flb_output_get_instance s (rt_o_ins rt) = Some out"
    and t: "task_heap s (rt_parent rt) = Some t" "task_status t \<noteq> TASK_NEW"
  shows "\<exists>ret s'. (if synchronous out
       then (case flb_output_task_singleplex_enqueue e (Some r) (rt_parent rt) (o_id out) s of
               None \<Rightarrow> None | Some (ret, s) \<Rightarrow> if ret = -1 then Some (-1, s) else Some (0, s))
       else (case flb_output_task_flush (queue_fuel (o_id out) s) e (rt_parent rt) (o_id out) s of
               None \<Rightarrow> None
             | Some (ret, s) \<Rightarrow> if ret = -1 then Some (-1, flb_task_retry_destroy r s) else Some (0, s)))
     = Some (ret, s') \<and> dispatched r X s ret s'"
proof -
  let ?a = "rt_parent rt" and ?n = "o_id out"
  have n: "?n = rt_o_ins rt" "?n \<in> oids s" using get_instance_Some [OF out] by auto
  have pair: "retry_pair s r = (?a, ?n)" using rt n by (simp add: retry_pair_def)
  note free = free [unfolded pair]
  show ?thesis
  proof (cases "synchronous out")
    case True
    have retry: "Some r = None \<and> {#r#} = {#} \<or>
        (\<exists>r'. Some r = Some r' \<and> {#r#} = {#r'#} \<and> r' \<in> dom (retry_heap s) \<and> retry_pair s r' = (?a, ?n))"
      using rt pair by auto
    obtain ret s' where E: "flb_output_task_singleplex_enqueue e (Some r) ?a ?n s = Some (ret, s')" "queues_ok s'"
        "ret = -1 \<Longrightarrow> inv X {#} s'" "ret \<noteq> -1 \<Longrightarrow> inv X {#r#} s'" "ret = -1 \<or> ret = 0"
        "ret \<noteq> -1 \<or> Some r = None \<Longrightarrow> flush_like {#(?a, ?n)#} ?n s s'"
      using enqueue_safe [OF I q t free n(2) retry] by blast
    then show ?thesis
      using True flush_like_lists [of "{#(?a, ?n)#}" ?n s s'] by (cases "ret = -1") (auto simp: dispatched_def)
  next
    case False
    have out': "flb_output_get_instance s ?n = Some out" using out n by simp
    then have quo: "queue_of s ?n = Some (o_singleplex_queue out)" by (simp add: queue_of_def)
    obtain ret s' where E: "flb_output_task_flush (queue_fuel ?n s) e ?a ?n s = Some (ret, s')" "inv X {#r#} s'"
        "flush_like (if ret = -1 then {#} else {#(?a, ?n)#}) ?n s s'" "ret = -1 \<or> ret = 0"
        "queue_of s' = queue_of s"
      using flush_alone [OF I t free quo _ out', of "queue_fuel ?n s" e thesis] False by simp
    have q': "queues_ok s'" using q queues_ok_same [OF E(5)] by simp
    show ?thesis
    proof (cases "ret = -1")
      case True
      have like: "flush_like {#} ?n s s'" using E(3) True by simp
      have heap: "retry_heap s' = retry_heap s" using like by (simp add: flush_like_def)
      have sub: "flight s' \<subseteq># flight s" using like by (simp add: flush_like_def)
      have "retry_pair s' r \<notin># flight s' + waiting {#r#} s'"
        using free flush_like_waiting [OF like, of "{#r#}"] mset_subset_eqD [OF sub, of "(?a, ?n)"]
          pair_cong [OF heap] pair by auto
      then have "inv X {#} (flb_task_retry_destroy r s')"
        using inv_discounted_destroy [OF E(2)] rt heap by simp
      moreover have "queue_of (flb_task_retry_destroy r s') = queue_of s'"
        using retry_destroy_outs [OF invD(5) [OF E(2)], of r]
        by (simp add: queue_of_def flb_output_get_instance_def fun_eq_iff)
      ultimately show ?thesis
        using False E(1) True q' queues_ok_same [of "flb_task_retry_destroy r s'" s'] by (simp add: dispatched_def)
    next
      case ok: False
      then have "lists_kept s s'" using E(3) flush_like_lists [of "{#(?a, ?n)#}" ?n s s'] by simp
      then show ?thesis using False E(1,2) ok q' by (simp add: dispatched_def)
    qed
  qed
qed

lemma dispatched_core:
  assumes "core s1 = core s" and "dispatched r X s1 ret s'"
  shows "dispatched r X s ret s'"
  using assms(2) lists_kept_trans [OF views_core(5) [OF assms(1)]] by (auto simp: dispatched_def split: if_splits)

lemma dispatch_retry_safe:
  assumes I: "inv X {#r#} s" and q: "queues_ok s" and r: "r \<in> dom (retry_heap s)"
    and free: "retry_pair s r \<notin># flight s + X + waiting {#r#} s" and "rand_ok e"
  shows "\<exists>ret s'. flb_engine_dispatch_retry e r s = Some (ret, s') \<and> dispatched r X s ret s'"
proof -
  obtain rt where rt: "retry_heap s r = Some rt" using r by auto
  have rok: "retry_ok s r rt" using invD(2) [OF I] rt by (simp add: wf_tasks_def)
  then obtain t where t: "task_heap s (rt_parent rt) = Some t" "r \<in> set (task_retries t)" by (auto simp: retry_ok_def)
  have run: "task_status t \<noteq> TASK_NEW" using wf_flightD(3) [OF invD(4) [OF I] t(1)] t(2) by auto
  have "task_ok s (rt_parent rt) t" using invD(2) [OF I] t(1) by (simp add: wf_tasks_def)
  then obtain ic where ic: "task_ic t = Some ic" by (auto simp: task_ok_def)
  obtain up s1 where s1: "flb_input_chunk_set_up (e_cio e) ic s = (up, s1)" by fastforce
  have c1: "core s1 = core s" using core_chunk_set_up [of "e_cio e" ic s] s1 by simp
  have q1: "queues_ok s1" using q queues_ok_core [OF c1] by simp
  have free1: "retry_pair s1 r \<notin># flight s1 + X + waiting {#r#} s1"
    using free views_core [OF c1] by simp
  have I1: "inv X {#r#} s1" using I inv_core [OF c1] by simp
  have heap1: "retry_heap s1 = retry_heap s" "task_heap s1 = task_heap s" using coreD(8,9) [OF c1] by simp_all
  show ?thesis
  proof (cases "up = -1")
    case True
    then have "flb_engine_dispatch_retry e r s = flb_task_retry_reschedule e r s1"
      using rt t(1) ic s1 by (simp add: flb_engine_dispatch_retry_def)
    moreover obtain ret s' where "flb_task_retry_reschedule e r s1 = Some (ret, s')" "dispatched r X s1 ret s'"
      using reschedule_safe [OF I1 q1 _ free1 assms(5)] r heap1 by auto
    ultimately show ?thesis using dispatched_core [OF c1] by auto
  next
    case False
    obtain buf sz s2 where s2: "flb_input_chunk_flush (e_cio e) ic s1 = ((buf, sz), s2)" by (metis prod.exhaust_sel)
    have c2: "core s2 = core s" using core_chunk_flush [of "e_cio e" ic s1] s2 c1 by simp
    have q2: "queues_ok s2" using q queues_ok_core [OF c2] by simp
    have free2: "retry_pair s2 r \<notin># flight s2 + X + waiting {#r#} s2" using free views_core [OF c2] by simp
    have I2: "inv X {#r#} s2" using I inv_core [OF c2] by simp
    have heap2: "retry_heap s2 = retry_heap s" "task_heap s2 = task_heap s" using coreD(8,9) [OF c2] by simp_all
    show ?thesis
    proof (cases buf)
      case None
      then have "flb_engine_dispatch_retry e r s = Some (-1, flb_task_retry_destroy r s2)"
        using rt t(1) ic s1 s2 False by (simp add: flb_engine_dispatch_retry_def)
      moreover have "inv X {#} (flb_task_retry_destroy r s2)"
        using inv_discounted_destroy [OF I2] free2 r heap2 by auto
      moreover have "queue_of (flb_task_retry_destroy r s2) = queue_of s2"
        using retry_destroy_outs [OF invD(5) [OF I2], of r]
        by (simp add: queue_of_def flb_output_get_instance_def fun_eq_iff)
      ultimately show ?thesis using q2 queues_ok_same [of "flb_task_retry_destroy r s2" s2] by (simp add: dispatched_def)
    next
      case (Some b)
      let ?s3 = "upd_task (rt_parent rt) (\<lambda>t. t\<lparr>task_event_chunk :=
          map_option (\<lambda>evc. flb_event_chunk_update evc b) (task_event_chunk t)\<rparr>) s2"
      have n: "rt_o_ins rt \<in> oids ?s3" using rok views_core(4) [OF c2] by (simp add: retry_ok_def)
      then obtain out where out: "flb_output_get_instance ?s3 (rt_o_ins rt) = Some out" using get_instance_iff by blast
      have I3: "inv X {#r#} ?s3" using inv_event_chunk [OF I2] .
      have q3: "queues_ok ?s3" using q2 queues_ok_same [of ?s3 s2] by simp
      have t3: "\<exists>u. task_heap ?s3 (rt_parent rt) = Some u \<and> task_status u \<noteq> TASK_NEW" using t(1) run heap2 by simp
      have rt3: "retry_heap ?s3 r = Some rt" using rt heap2 by simp
      have free3: "retry_pair ?s3 r \<notin># flight ?s3 + X + waiting {#r#} ?s3" using free2 by simp
      obtain u where u: "task_heap ?s3 (rt_parent rt) = Some u" "task_status u \<noteq> TASK_NEW" using t3 by blast
      have step: "\<exists>ret s'. flb_engine_dispatch_retry e r s = Some (ret, s') \<and> dispatched r X ?s3 ret s'"
        using retry_flush_safe [OF I3 q3 rt3 free3 out u, of e] rt t(1) ic s1 s2 False Some out
        by (simp add: flb_engine_dispatch_retry_def Let_def del: get_instance_upd_task)
      have "lists_kept s ?s3" using views_core(5) [OF c2] by (simp add: lists_kept_def)
      then show ?thesis using step lists_kept_trans [of s ?s3] by (auto simp: dispatched_def split: if_splits)
    qed
  qed
qed

lemma promote_brk:
  fixes s :: "'a flb_config"
  shows "sched_brk (snd (schedule_request_promote tc now s)) = sched_brk s"
proof -
  have now: "sched_brk (snd (schedule_request_now tc n a q s)) = sched_brk s" for n a q and s :: "'a flb_config"
    by (simp add: schedule_request_now_def timer_upd_def Let_def)
  have del: "sched_brk (request_del q s) = sched_brk s" for q and s :: "'a flb_config"
    by (simp add: request_del_def)
  have step: "sched_brk (fst (promote_step tc now q st)) = sched_brk (fst st)" for q and st :: "'a flb_config \<times> _"
    by (cases st) (auto simp: promote_step_def Let_def case_prod_beta now del)
  have "sched_brk (fst (fold (promote_step tc now) qs st)) = sched_brk (fst st)" for qs and st :: "'a flb_config \<times> _"
    by (induction qs arbitrary: st) (simp_all add: step)
  from this [of "requests_wait s" "(s, [])"] show ?thesis
    by (simp add: schedule_request_promote_def case_prod_beta)
qed

text \<open>The expiry of a timer, with the dispatch of a retry as the engine's handler.\<close>

definition engine_dispatch :: "'c env \<Rightarrow> addr \<Rightarrow> 'c flb_config \<Rightarrow> int \<times> 'c flb_config" where
  "engine_dispatch e r s = (case flb_engine_dispatch_retry e r s of None \<Rightarrow> (-1, s) | Some x \<Rightarrow> x)"

lemma timer_event_safe:
  assumes I: "inv {#} {#} s" and q: "queues_ok s" and "rand_ok e"
    and t: "find_timer s a = Some t" "t_type t \<in> {TIMER_REQUEST, TIMER_FRAME}"
    and s': "s' = snd (flb_sched_event_handler tc now (engine_dispatch e) run ok (Ev_Timer a) s)"
  shows "inv {#} {#} s' \<and> queues_ok s'"
proof (cases "t_active t")
  case False
  then show ?thesis using I q t s' by (simp add: flb_sched_event_handler_def)
next
  case active: True
  show ?thesis
  proof (cases "t_type t = TIMER_FRAME")
    case True
    then have s'': "s' = snd (schedule_request_promote tc now s)"
      using t active s' by (simp add: flb_sched_event_handler_def)
    have "inv {#} {#} s'"
    proof (rule inv_sched_same [OF I])
      show "sched_brk s \<le> sched_brk s'" using promote_brk [of tc now s] by (simp add: s'')
    qed (simp_all add: s'' promote_nosched promote_inv invD(5) [OF I] promote_reqs)
    moreover have "queue_of s' = queue_of s"
      using noschedD(4) [OF promote_nosched, of tc now s]
      by (simp add: s'' queue_of_def flb_output_get_instance_def fun_eq_iff)
    ultimately show ?thesis using q queues_ok_same [of s' s] by simp
  next
    case False
    then have ty: "t_type t = TIMER_REQUEST" using t by simp
    show ?thesis
    proof (cases "find_request s (t_data t)")
      case None
      then show ?thesis using I q t(1) ty active s' by (simp add: flb_sched_event_handler_def)
    next
      case (Some rq)
      let ?r = "rq_data rq"
      have rq: "rq \<in> set (requests s @ requests_wait s)" using Some by (auto simp: find_request_def dest: find_SomeD)
      then have mem: "?r \<in># reqs s" unfolding reqs_def by force
      note D = inv_discount [OF I mem]
      obtain ret s1 where d: "flb_engine_dispatch_retry e ?r s = Some (ret, s1)" "dispatched ?r {#} s ret s1"
        using dispatch_retry_safe [OF D(1) q D(3) _ assms(3)] D(2) by auto
      have s'': "s' = (if ret = 0 then snd (flb_sched_request_destroy (Some rq) s1) else s1)"
        using t(1) ty active Some d(1) s' by (simp add: flb_sched_event_handler_def engine_dispatch_def)
      show ?thesis
      proof (cases "ret = 0")
        case True
        then have I1: "inv {#} {#?r#} s1" and kept: "rq \<in> set (requests s1 @ requests_wait s1)" and q1: "queues_ok s1"
          using d(2) rq by (auto simp: dispatched_def lists_kept_def)
        have "queue_of s' = queue_of s1"
          using noschedD(4) [OF request_destroy_effect(1) [OF invD(5) [OF I1] kept refl]] True
          by (simp add: s'' queue_of_def flb_output_get_instance_def fun_eq_iff)
        then show ?thesis
          using inv_discounted_request [OF I1 kept refl] True q1 queues_ok_same [of s' s1] by (simp add: s'')
      next
        case False
        then show ?thesis using d(2) by (simp add: s'' dispatched_def)
      qed
    qed
  qed
qed

end
