(* ===== verification/Engine_Start.thy ===== *)
theory Engine_Start
  imports Engine_Safety
begin

text \<open>
  The accounting of tasks through the creation and the start of tasks, the flush of the inputs and the
  immediate retry at shutdown: none of them traps, and all of them keep the invariant.
\<close>

section \<open>Starting the routes of a task\<close>

text \<open>What starting a route leaves alone; \<open>P\<close> are the pairs it may put in flight.\<close>

definition task_kind :: "flb_task \<Rightarrow> task_status \<times> int option" where
  "task_kind t = (task_status t, task_i_ins t)"

definition starting :: "(addr \<times> int) multiset \<Rightarrow> 'c flb_config \<Rightarrow> 'c flb_config \<Rightarrow> bool" where
  "starting P s s' \<longleftrightarrow>
     (\<forall>b. map_option task_kind (task_heap s' b) = map_option task_kind (task_heap s b))
     \<and> retry_heap s' = retry_heap s \<and> oids s' = oids s \<and> cf_inputs s' = cf_inputs s
     \<and> waiting {#} s' = waiting {#} s \<and> flight s' \<subseteq># flight s + P"

lemma starting_refl: "starting {#} s s"
  by (simp add: starting_def)

lemma starting_trans:
  assumes "starting P s s'" and "starting Q s' s''"
  shows "starting (P + Q) s s''"
proof -
  have "flight s'' \<subseteq># flight s' + Q" using assms(2) by (simp add: starting_def)
  also have "\<dots> \<subseteq># flight s + P + Q" using assms(1) by (simp add: starting_def)
  finally show ?thesis using assms by (simp add: starting_def add.assoc)
qed

lemma starting_like:
  assumes "flush_like P n s s'"
  shows "starting P s s'"
proof -
  have "map_option task_kind (task_heap s' b) = map_option task_kind (task_heap s b)" for b
  proof -
    have "map_option task_static (task_heap s' b) = map_option task_static (task_heap s b)"
      using assms by (simp add: flush_like_def)
    from arg_cong [OF this, of "map_option (\<lambda>(_, st, _, _, n). (st, n))"] show ?thesis
      by (simp add: option.map_comp comp_def task_static_def task_kind_def [abs_def])
  qed
  then show ?thesis using assms flush_like_waiting [OF assms] by (simp add: starting_def flush_like_def)
qed

lemma starting_running:
  assumes "starting P s s'" and "task_heap s a = Some t" and "task_status t \<noteq> TASK_NEW"
  shows "\<exists>t'. task_heap s' a = Some t' \<and> task_status t' \<noteq> TASK_NEW"
proof -
  have "map_option task_kind (task_heap s' a) = Some (task_kind t)" using assms(1,2) by (simp add: starting_def)
  then show ?thesis using assms(3) by (auto simp: task_kind_def)
qed

lemma starting_free:
  assumes "starting P s s'" and "p \<notin># flight s + waiting {#} s" and "p \<notin># P"
  shows "p \<notin># flight s' + waiting {#} s'"
proof
  assume "p \<in># flight s' + waiting {#} s'"
  then have "p \<in># flight s + P \<or> p \<in># waiting {#} s"
    using assms(1) mset_subset_eqD [of "flight s'" "flight s + P" p] by (auto simp: starting_def)
  then show False using assms(2,3) by auto
qed

lemma remove_first_sublist: "set (remove_first P xs) \<subseteq> set xs" "distinct (map f xs) \<Longrightarrow> distinct (map f (remove_first P xs))"
  by (induction xs) auto

lemma drop_route_safe:
  assumes I: "inv X Y s" and s': "s' = upd_task a (\<lambda>t. t\<lparr>task_routes := remove_first P (task_routes t)\<rparr>) s"
  shows "inv X Y s'" "starting {#} s s'" "queue_of s' = queue_of s"
proof -
  have "wf_flight X Y s'"
  proof (rule wf_flightI)
    note F = wf_flightD [OF invD(4) [OF I]]
    show "\<exists>t. task_heap s' (fst p) = Some t" if "p \<in># flight s' + X" for p
      using F(1) [of p] that by (auto simp: s')
    show "int (refs (flight s' + X) b) \<le> task_users u" if "task_heap s' b = Some u" for b u
      using F(2) [of b] that by (auto simp: s' split: if_splits)
    show "refs (flight s' + X) b = 0 \<and> task_retries u = []"
      if "task_heap s' b = Some u" "task_status u = TASK_NEW" for b u
      using F(3) [of b] that by (auto simp: s' split: if_splits)
  qed (use wf_flightD [OF invD(4) [OF I]] in \<open>auto simp: s'\<close>)
  then show "inv X Y s'"
    unfolding s' by (rule inv_upd_task [OF I, rotated])
      (auto simp: task_same_def remove_first_sublist dest: subsetD [OF remove_first_sublist(1)])
  show "starting {#} s s'"
    by (simp add: starting_def s' option.map_comp comp_def task_kind_def [abs_def])
  show "queue_of s' = queue_of s" by (simp add: s')
qed

lemma start_route_safe:
  assumes I: "inv {#} {#} s" and q: "queues_ok s" and t: "task_heap s a = Some t" "task_status t \<noteq> TASK_NEW"
    and n: "tr_out route \<in> oids s" and free: "(a, tr_out route) \<notin># flight s + waiting {#} s"
  obtains k s' where "start_route e a retry route (h, s) = Some (k, s')" "inv {#} {#} s'" "queues_ok s'"
    "h \<le> k" "starting (if k = h then {#} else {#(a, tr_out route)#}) s s'"
proof -
  let ?n = "tr_out route"
  obtain out where out: "flb_output_get_instance s ?n = Some out" using n get_instance_iff by blast
  have free': "(a, ?n) \<notin># flight s + {#} + waiting {#} s" using free by simp
  consider (test) "o_test_formatter out"
    | (skip) "\<not> o_test_formatter out"
        "o_flags out AND FLB_OUTPUT_NO_MULTIPLEX \<noteq> 0 \<and> (flb_output_coros_size out > 0 \<or> retry > 0)"
    | (sync) "\<not> o_test_formatter out"
        "\<not> (o_flags out AND FLB_OUTPUT_NO_MULTIPLEX \<noteq> 0 \<and> (flb_output_coros_size out > 0 \<or> retry > 0))"
        "synchronous out"
    | (async) "\<not> o_test_formatter out"
        "\<not> (o_flags out AND FLB_OUTPUT_NO_MULTIPLEX \<noteq> 0 \<and> (flb_output_coros_size out > 0 \<or> retry > 0))"
        "\<not> synchronous out"
    by blast
  then show ?thesis
  proof cases
    case test
    let ?s = "upd_task a (\<lambda>t. t\<lparr>task_routes := remove_first (\<lambda>r. tr_out r = ?n) (task_routes t)\<rparr>) s"
    note D = drop_route_safe [OF I refl, of a "\<lambda>r. tr_out r = ?n"]
    show ?thesis
    proof (rule that [of h ?s])
      show "start_route e a retry route (h, s) = Some (h, ?s)" using test out by (simp add: start_route_def)
      show "queues_ok ?s" using q queues_ok_same [OF D(3)] by simp
    qed (use D in simp_all)
  next
    case skip
    then have "start_route e a retry route (h, s) = Some (h, s)" using out by (simp add: start_route_def)
    then show ?thesis using that [of h s] I q starting_refl [of s] by simp
  next
    case sync
    obtain ret s' where E: "flb_output_task_singleplex_enqueue e None a ?n s = Some (ret, s')" "queues_ok s'"
      "ret = -1 \<Longrightarrow> inv {#} {#} s'" "ret \<noteq> -1 \<Longrightarrow> inv {#} {#} s'" "flush_like {#(a, ?n)#} ?n s s'"
      by (rule enqueue_safe [OF I q t free' n, of None e]) simp_all
    have "start_route e a retry route (h, s) = Some (h + 1, s')" using sync out E(1) by (simp add: start_route_def)
    then show ?thesis using that [of "h + 1" s'] E starting_like [OF E(5)] by auto
  next
    case async
    obtain tq where tq: "queue_of s ?n = Some tq" using out by (simp add: queue_of_def)
    obtain ret s' where E: "flb_output_task_flush (queue_fuel ?n s) e a ?n s = Some (ret, s')" "inv {#} {#} s'"
      "flush_like (if ret = -1 then {#} else {#(a, ?n)#}) ?n s s'" "queue_of s' = queue_of s"
      by (rule flush_alone [OF I t free' tq _ out, of "queue_fuel ?n s" e]) (use async in simp_all)
    have "flush_like {#(a, ?n)#} ?n s s'" using E(3) flush_like_more by (auto split: if_splits)
    moreover have "start_route e a retry route (h, s) = Some (h + 1, s')"
      using async out E(1) by (simp add: start_route_def)
    ultimately show ?thesis using that [of "h + 1" s'] E q queues_ok_same [OF E(4)] starting_like by auto
  qed
qed

lemma start_routes_safe:
  assumes "inv {#} {#} s" and "queues_ok s" and "task_heap s a = Some t" and "task_status t \<noteq> TASK_NEW"
    and "\<And>r. r \<in> set rs \<Longrightarrow> tr_out r \<in> oids s \<and> (a, tr_out r) \<notin># flight s + waiting {#} s"
    and "distinct (map tr_out rs)"
  shows "\<exists>k s' P. fold_opt (start_route e a retry) rs (h, s) = Some (k, s') \<and> inv {#} {#} s' \<and> queues_ok s'
    \<and> h \<le> k \<and> starting P s s' \<and> (k = h \<longrightarrow> P = {#})"
  using assms
proof (induction rs arbitrary: h s t)
  case Nil
  then show ?case using starting_refl by auto
next
  case (Cons r rs)
  have r: "tr_out r \<in> oids s" "(a, tr_out r) \<notin># flight s + waiting {#} s" using Cons.prems(5) [of r] by auto
  obtain k s1 where s1: "start_route e a retry r (h, s) = Some (k, s1)" "inv {#} {#} s1" "queues_ok s1" "h \<le> k"
    "starting (if k = h then {#} else {#(a, tr_out r)#}) s s1"
    by (rule start_route_safe [OF Cons.prems(1-4) r, of e retry h])
  obtain t1 where t1: "task_heap s1 a = Some t1" "task_status t1 \<noteq> TASK_NEW"
    using starting_running [OF s1(5) Cons.prems(3,4)] by auto
  have rest: "tr_out x \<in> oids s1 \<and> (a, tr_out x) \<notin># flight s1 + waiting {#} s1" if "x \<in> set rs" for x
  proof
    show "tr_out x \<in> oids s1" using Cons.prems(5) [of x] that s1(5) by (simp add: starting_def)
    have "(a, tr_out x) \<notin># (if k = h then {#} else {#(a, tr_out r)#})" using Cons.prems(6) that by (auto simp: image_iff)
    then show "(a, tr_out x) \<notin># flight s1 + waiting {#} s1"
      using starting_free [OF s1(5)] Cons.prems(5) [of x] that by auto
  qed
  obtain k' s' P where s': "fold_opt (start_route e a retry) rs (k, s1) = Some (k', s')" "inv {#} {#} s'"
    "queues_ok s'" "k \<le> k'" "starting P s1 s'" "k' = k \<longrightarrow> P = {#}"
    using Cons.IH [OF s1(2,3) t1 rest, of k] Cons.prems(6) by auto
  have "starting ((if k = h then {#} else {#(a, tr_out r)#}) + P) s s'" using starting_trans [OF s1(5) s'(5)] .
  then show ?case using s1(1,4) s' by (intro exI [of _ k'] exI [of _ s'] exI) auto
qed

section \<open>Starting tasks\<close>

lemma inv_task_status:
  assumes I: "inv X Y s"
    and new: "\<And>t. st = TASK_NEW \<Longrightarrow> task_heap s a = Some t \<Longrightarrow> refs (flight s + X) a = 0 \<and> task_retries t = []"
  shows "inv X Y (upd_task a (\<lambda>t. t\<lparr>task_status := st\<rparr>) s)"
proof -
  let ?s = "upd_task a (\<lambda>t. t\<lparr>task_status := st\<rparr>) s"
  note F = wf_flightD [OF invD(4) [OF I]]
  have "wf_flight X Y ?s"
  proof (rule wf_flightI)
    show "\<exists>t. task_heap ?s (fst p) = Some t" if "p \<in># flight ?s + X" for p using F(1) [of p] that by auto
    show "int (refs (flight ?s + X) b) \<le> task_users u" if "task_heap ?s b = Some u" for b u
      using F(2) [of b] that by (auto split: if_splits)
    show "refs (flight ?s + X) b = 0 \<and> task_retries u = []"
      if "task_heap ?s b = Some u" "task_status u = TASK_NEW" for b u
      using F(3) [of b] new that by (auto split: if_splits)
  qed (use F(4-6) in auto)
  then show ?thesis by (rule inv_upd_task [OF I, rotated]) (simp add: task_same_def)
qed

text \<open>A task without retries in one state has none in another with the same retry contexts.\<close>

lemma no_retries_if:
  assumes I: "inv X Y s" "inv X' Y' s'" and same: "retry_heap s' = retry_heap s"
    and t: "task_heap s a = Some t" "task_retries t = []" and t': "task_heap s' a = Some t'"
  shows "task_retries t' = []"
proof (rule ccontr)
  assume "task_retries t' \<noteq> []"
  then obtain r where r: "r \<in> set (task_retries t')" by (cases "task_retries t'") auto
  have "task_ok s' a t'" using invD(2) [OF I(2)] t' by (simp add: wf_tasks_def)
  then obtain rt where rt: "retry_heap s r = Some rt" "rt_parent rt = a" using r same by (auto simp: task_ok_def)
  then show False using invD(2) [OF I(1)] t by (fastforce simp: wf_tasks_def retry_ok_def)
qed

text \<open>What a turn of \<open>tasks_start\<close> keeps: which tasks there are and their inputs.\<close>

definition tasks_kept :: "'c flb_config \<Rightarrow> 'c flb_config \<Rightarrow> bool" where
  "tasks_kept s s' \<longleftrightarrow> dom (task_heap s') = dom (task_heap s) \<and> cf_inputs s' = cf_inputs s"

lemma tasks_kept_starting:
  assumes "starting P s s'"
  shows "tasks_kept s s'"
proof -
  have "map_option task_kind (task_heap s' b) = map_option task_kind (task_heap s b)" for b
    using assms by (simp add: starting_def)
  then have "task_heap s' b = None \<longleftrightarrow> task_heap s b = None" for b by (metis option.map_disc_iff)
  then show ?thesis using assms by (auto simp: tasks_kept_def starting_def dom_def)
qed

lemma start_task_safe:
  assumes I: "inv {#} {#} s" and q: "queues_ok s" and "task_heap s a = Some t"
  shows "\<exists>k s'. start_task e a (n, s) = Some (k, s') \<and> inv {#} {#} s' \<and> queues_ok s' \<and> tasks_kept s s'"
proof (cases "task_status t = TASK_NEW")
  case False
  then show ?thesis using assms by (auto simp: start_task_def tasks_kept_def Let_def)
next
  case new: True
  let ?s = "upd_task a (\<lambda>t. t\<lparr>task_status := TASK_RUNNING\<rparr>) s"
  let ?k = "if task_retries t \<noteq> [] then n + 1 else n"
  have fresh: "refs (flight s) a = 0" "task_retries t = []"
    using wf_flightD(3) [OF invD(4) [OF I] assms(3) new] by simp_all
  have ok: "task_ok s a t" using invD(2) [OF I] assms(3) by (simp add: wf_tasks_def)
  have I1: "inv {#} {#} ?s" using inv_task_status [OF I, of TASK_RUNNING a] by simp
  have q1: "queues_ok ?s" using q queues_ok_same [of ?s s] by simp
  have free: "(a, m) \<notin># flight ?s + waiting {#} ?s" for m
  proof -
    have "(a, m) \<notin># flight s" using refs_pos [of "(a, m)" "flight s"] fresh by auto
    moreover have "(a, m) \<notin># waiting {#} s"
    proof
      assume "(a, m) \<in># waiting {#} s"
      then obtain r where r: "r \<in># reqs s" "retry_pair s r = (a, m)" by (auto simp: waiting_def)
      obtain rt where rt: "retry_heap s r = Some rt" using wf_flightD(6) [OF invD(4) [OF I], of r] r(1) by auto
      then have "rt_parent rt = a" using r(2) by (simp add: retry_pair_def)
      then show False
        using invD(2) [OF I] rt assms(3) fresh(2) by (fastforce simp: wf_tasks_def retry_ok_def)
    qed
    ultimately show ?thesis by simp
  qed
  have t1: "task_heap ?s a = Some (t\<lparr>task_status := TASK_RUNNING\<rparr>)" using assms(3) by simp
  have routes: "tr_out r \<in> oids ?s \<and> (a, tr_out r) \<notin># flight ?s + waiting {#} ?s" if "r \<in> set (task_routes t)" for r
    using ok that free by (auto simp: task_ok_def)
  obtain k s' P where s': "fold_opt (start_route e a ?k) (task_routes t) (0, ?s) = Some (k, s')" "inv {#} {#} s'"
    "queues_ok s'" "starting P ?s s'" "k = 0 \<longrightarrow> P = {#}"
    using start_routes_safe [OF I1 q1 t1 _ routes, of "task_routes t" e ?k 0] ok by (auto simp: task_ok_def)
  have kept: "tasks_kept s s'"
    using tasks_kept_starting [OF s'(4)] by (auto simp: tasks_kept_def dom_def)
  have eq: "start_task e a (n, s) = Some (?k, if k = 0 then upd_task a (\<lambda>t. t\<lparr>task_status := TASK_NEW\<rparr>) s' else s')"
    using assms(3) new s'(1) by (simp add: start_task_def Let_def)
  show ?thesis
  proof (cases "k = 0")
    case False
    then show ?thesis using eq s' kept by auto
  next
    case True
    have "flight s' \<subseteq># flight s" using s'(4,5) True by (simp add: starting_def)
    then have none: "refs (flight s') a = 0" using refs_mono [of "flight s'" "flight s" a] fresh by simp
    have nor: "task_retries t' = []" if "task_heap s' a = Some t'" for t'
      by (rule no_retries_if [OF I s'(2) _ assms(3) fresh(2) that]) (use s'(4) in \<open>simp add: starting_def\<close>)
    have "inv {#} {#} (upd_task a (\<lambda>t. t\<lparr>task_status := TASK_NEW\<rparr>) s')"
      by (rule inv_task_status [OF s'(2)]) (use none nor in auto)
    moreover have "queues_ok (upd_task a (\<lambda>t. t\<lparr>task_status := TASK_NEW\<rparr>) s')"
      using s'(3) queues_ok_same [of "upd_task a _ s'" s'] by simp
    moreover have "tasks_kept s (upd_task a (\<lambda>t. t\<lparr>task_status := TASK_NEW\<rparr>) s')"
      using kept by (auto simp: tasks_kept_def dom_def)
    ultimately show ?thesis using eq True by auto
  qed
qed

lemma start_tasks_safe:
  assumes "inv {#} {#} s" and "queues_ok s" and "set as \<subseteq> dom (task_heap s)"
  shows "\<exists>k s'. fold_opt (start_task e) as (n, s) = Some (k, s') \<and> inv {#} {#} s' \<and> queues_ok s' \<and> tasks_kept s s'"
  using assms
proof (induction as arbitrary: n s)
  case Nil
  then show ?case by (simp add: tasks_kept_def)
next
  case (Cons a as)
  then obtain t where "task_heap s a = Some t" by auto
  from start_task_safe [OF Cons.prems(1,2) this, of e n] obtain k s1 where
    s1: "start_task e a (n, s) = Some (k, s1)" "inv {#} {#} s1" "queues_ok s1" "tasks_kept s s1" by auto
  then have "set as \<subseteq> dom (task_heap s1)" using Cons.prems(3) by (simp add: tasks_kept_def)
  from Cons.IH [OF s1(2,3) this, of k] show ?case using s1 by (auto simp: tasks_kept_def)
qed

lemma find_in_Some: "find_in s n = Some i \<Longrightarrow> i \<in> set (cf_inputs s) \<and> i_id i = n"
  by (auto simp: find_in_def dest: find_SomeD)

lemma tasks_live:
  assumes "inv X Y s" and "find_in s n = Some i"
  shows "set (i_tasks i) \<subseteq> dom (task_heap s)"
  using invD(3) [OF assms(1)] find_in_Some [OF assms(2)] unfolding wf_inputs_def by blast

lemma tasks_start_safe:
  assumes I: "inv {#} {#} s" and q: "queues_ok s"
  shows "\<exists>s'. tasks_start e n s = Some s' \<and> inv {#} {#} s' \<and> queues_ok s' \<and> cf_inputs s' = cf_inputs s"
proof (cases "find_in s n")
  case None
  then show ?thesis using assms by (simp add: tasks_start_def)
next
  case (Some i)
  then show ?thesis
    using start_tasks_safe [OF I q tasks_live [OF I Some], of e 0] by (auto simp: tasks_start_def tasks_kept_def)
qed

section \<open>New tasks\<close>

text \<open>The map of tasks may grow and its free slots may be taken.\<close>

lemma inv_task_map:
  assumes I: "inv X Y s" and len: "256 dvd length tm" "length tm \<le> 16384" "length (task_map s) \<le> length tm"
    and kept: "\<And>i. i < length (task_map s) \<Longrightarrow> task_map s ! i \<noteq> None \<Longrightarrow> tm ! i = task_map s ! i"
  shows "inv X Y (s\<lparr>task_map := tm\<rparr>)"
proof -
  let ?s = "s\<lparr>task_map := tm\<rparr>"
  have ev: "event_ok (task_map s) out v" if "out \<in> set (cf_outputs s)" "v \<in> set (o_ch_events out)" for out v
    using invD(1) [OF I] that by (simp add: wf_outs_def out_ok_def)
  have flight: "flight ?s = flight s"
    by (rule flight_map_cong) (use ev kept in \<open>auto simp: event_ok_def\<close>)
  have pair: "retry_pair ?s = retry_pair s" by (rule pair_cong) simp
  have oids: "oids ?s = oids s" by (simp add: oids_def)
  have "out_ok ?s out" if "out \<in> set (cf_outputs s)" for out
  proof -
    have "event_ok tm out v" if v: "v \<in> set (o_ch_events out)" for v
      using ev [OF \<open>out \<in> set (cf_outputs s)\<close> v] kept len(3) by (fastforce simp: event_ok_def)
    then show ?thesis using invD(1) [OF I] that by (simp add: wf_outs_def out_ok_def pair)
  qed
  then have "wf_outs ?s" using invD(1) [OF I] by (simp add: wf_outs_def)
  moreover have "task_ok ?s a t" if "task_heap s a = Some t" for a t
  proof -
    have "task_ok s a t" using invD(2) [OF I] that by (simp add: wf_tasks_def)
    then show ?thesis using kept [of "nat (task_id t)"] len(3) by (simp add: task_ok_def oids)
  qed
  then have "wf_tasks ?s" using invD(2) [OF I] len by (simp add: wf_tasks_def task_map_ok_def retry_ok_def oids pair)
  moreover have "wf_inputs ?s" using invD(3) [OF I] by (simp add: wf_inputs_def oids)
  moreover have "wf_flight X Y ?s"
    by (rule wf_flight_cong [OF invD(4) [OF I]]) (simp_all add: flight reqs_def)
  moreover have "sched_inv ?s" using invD(5) [OF I] sched_inv_cong [of ?s s] by simp
  ultimately show ?thesis using invD(6) [OF I] by (simp add: inv_def sched_cfg_ok_def)
qed

lemma inv_get_task_id:
  assumes I: "inv X Y s" and eq: "map_get_task_id e s = (tid, s1)"
  shows "inv X Y s1" "tid \<noteq> -1 \<Longrightarrow> inv X Y (s1\<lparr>task_map := (task_map s1)[nat tid := b]\<rparr>)"
    "core (s1\<lparr>task_map := []\<rparr>) = core (s\<lparr>task_map := []\<rparr>)"
    "tid \<noteq> -1 \<Longrightarrow> 0 \<le> tid \<and> nat tid < length (task_map s1)" "cf_inputs s1 = cf_inputs s" "cf_outputs s1 = cf_outputs s"
    "chunk_heap s1 = chunk_heap s"
proof -
  have map_ok: "256 dvd length (task_map s)" "length (task_map s) \<le> 16384"
    using invD(2) [OF I] by (simp_all add: wf_tasks_def task_map_ok_def)
  have "inv X Y s1 \<and> (tid \<noteq> -1 \<longrightarrow> inv X Y (s1\<lparr>task_map := (task_map s1)[nat tid := b]\<rparr>))
    \<and> core (s1\<lparr>task_map := []\<rparr>) = core (s\<lparr>task_map := []\<rparr>)
    \<and> (tid \<noteq> -1 \<longrightarrow> 0 \<le> tid \<and> nat tid < length (task_map s1)) \<and> cf_inputs s1 = cf_inputs s
    \<and> cf_outputs s1 = cf_outputs s \<and> chunk_heap s1 = chunk_heap s"
    using eq
  proof (cases rule: map_get_task_id_cases)
    case none
    then show ?thesis using I by simp
  next
    case free
    have "inv X Y (s\<lparr>task_map := (task_map s)[nat tid := b]\<rparr>)"
    proof (rule inv_task_map [OF I])
      show "(task_map s)[nat tid := b] ! i = task_map s ! i" if "task_map s ! i \<noteq> None" for i
        using free(4) that by (cases "i = nat tid") auto
    qed (use map_ok in simp_all)
    then show ?thesis using I free by simp
  next
    case grown
    have len: "length (task_map s) + 256 \<le> 16384" using dvd_256_step [OF map_ok(1) grown(4)] .
    have I1: "inv X Y s1"
      unfolding grown(1) by (rule inv_task_map [OF I]) (use map_ok len in \<open>auto simp: nth_append\<close>)
    have "inv X Y (s\<lparr>task_map := (task_map s @ replicate 256 None)[nat tid := b]\<rparr>)"
      by (rule inv_task_map [OF I]) (use map_ok len grown(2) in \<open>auto simp: nth_append\<close>)
    then show ?thesis using I1 grown by (simp add: core_def)
  qed
  then show "inv X Y s1" "tid \<noteq> -1 \<Longrightarrow> inv X Y (s1\<lparr>task_map := (task_map s1)[nat tid := b]\<rparr>)"
    "core (s1\<lparr>task_map := []\<rparr>) = core (s\<lparr>task_map := []\<rparr>)"
    "tid \<noteq> -1 \<Longrightarrow> 0 \<le> tid \<and> nat tid < length (task_map s1)" "cf_inputs s1 = cf_inputs s" "cf_outputs s1 = cf_outputs s"
    "chunk_heap s1 = chunk_heap s"
    by blast+
qed

text \<open>A task that is linked into its input once its slot in the map is taken.\<close>

definition add_task :: "int \<Rightarrow> addr \<Rightarrow> flb_task \<Rightarrow> 'c flb_config \<Rightarrow> 'c flb_config" where
  "add_task n a t s = upd_in n (\<lambda>i. i\<lparr>i_tasks := i_tasks i @ [a]\<rparr>) (s\<lparr>task_heap := (task_heap s)(a \<mapsto> t)\<rparr>)"

lemma add_task_fields [simp]:
  "task_heap (add_task n a t s) = (task_heap s)(a \<mapsto> t)" "retry_heap (add_task n a t s) = retry_heap s"
  "task_map (add_task n a t s) = task_map s" "cf_outputs (add_task n a t s) = cf_outputs s"
  "sched_brk (add_task n a t s) = sched_brk s" "requests (add_task n a t s) = requests s"
  "requests_wait (add_task n a t s) = requests_wait s" "timers (add_task n a t s) = timers s"
  "timers_drop (add_task n a t s) = timers_drop s" "sched_base (add_task n a t s) = sched_base s"
  "sched_cap (add_task n a t s) = sched_cap s" "chunk_heap (add_task n a t s) = chunk_heap s"
  "cf_inputs (add_task n a t s) =
     map (\<lambda>i. if i_id i = n then i\<lparr>i_tasks := i_tasks i @ [a]\<rparr> else i) (cf_inputs s)"
  by (simp_all add: add_task_def upd_in_def)

lemma inv_add_task:
  assumes I: "inv X Y s" and fresh: "task_heap s a = None" and "task_ok s a t"
    and t: "task_status t = TASK_NEW" "0 \<le> task_users t" "task_retries t = []" "task_i_ins t = Some n"
  shows "inv X Y (add_task n a t s)"
proof -
  let ?s = "add_task n a t s"
  note F = wf_flightD [OF invD(4) [OF I]]
  have pair: "retry_pair ?s = retry_pair s" by (rule pair_cong) simp
  have oids: "oids ?s = oids s" by (simp add: oids_def)
  have flight: "flight ?s = flight s" by (rule flight_cong) simp_all
  have reqs: "reqs ?s = reqs s" by (simp add: reqs_def)
  have waiting: "waiting Y ?s = waiting Y s" by (simp add: waiting_def pair reqs)
  have none: "refs (flight s + X) a = 0"
  proof (rule ccontr)
    assume "refs (flight s + X) a \<noteq> 0"
    then have "filter_mset (\<lambda>p. fst p = a) (flight s + X) \<noteq> {#}" by (auto simp: refs_def)
    then obtain p where "p \<in># filter_mset (\<lambda>p. fst p = a) (flight s + X)" by (rule multiset_nonemptyE)
    then have "p \<in># flight s + X" "fst p = a" by auto
    then show False using F(1) [of p] fresh by simp
  qed
  have "wf_outs ?s" using invD(1) [OF I] by (simp add: wf_outs_def out_ok_def pair)
  moreover have "task_ok ?s b u" if "task_heap ?s b = Some u" for b u
    using that assms(3) invD(2) [OF I] by (auto simp: wf_tasks_def task_ok_def oids split: if_splits)
  moreover have "retry_ok ?s r rt" if "retry_heap s r = Some rt" for r rt
  proof -
    have "retry_ok s r rt" using that invD(2) [OF I] by (simp add: wf_tasks_def)
    then show ?thesis using fresh by (auto simp: retry_ok_def oids)
  qed
  ultimately have outs: "wf_outs ?s" and tasks: "wf_tasks ?s"
    using invD(2) [OF I] by (auto simp: wf_tasks_def task_map_ok_def pair)
  have "wf_inputs ?s"
    using invD(3) [OF I] fresh t(4) by (auto simp: wf_inputs_def oids) (blast | fastforce)+
  moreover have "wf_flight X Y ?s"
  proof (rule wf_flightI)
    show "\<exists>t. task_heap ?s (fst p) = Some t" if "p \<in># flight ?s + X" for p using F(1) [of p] that by (simp add: flight)
    show "int (refs (flight ?s + X) b) \<le> task_users u" if "task_heap ?s b = Some u" for b u
      using F(2) [of b] that none t(2) by (auto simp: flight split: if_splits)
    show "refs (flight ?s + X) b = 0 \<and> task_retries u = []" if "task_heap ?s b = Some u" "task_status u = TASK_NEW" for b u
      using F(3) [of b] that none t(3) by (auto simp: flight split: if_splits)
  qed (use F(4-6) in \<open>auto simp: flight waiting reqs\<close>)
  moreover have "sched_inv ?s" using invD(5) [OF I] sched_inv_cong [of ?s s] by simp
  ultimately show ?thesis using outs tasks invD(6) [OF I] by (simp add: inv_def sched_cfg_ok_def)
qed

lemma direct_routes_outs:
  "direct_routes e ns rs = (ok, rs') \<Longrightarrow> \<exists>k. map tr_out rs' = map tr_out rs @ take k ns"
proof (induction ns arbitrary: rs)
  case Nil
  then show ?case by auto
next
  case (Cons n ns)
  show ?case
  proof (cases "e_alloc e A_route (nat n)")
    case False
    then show ?thesis using Cons.prems by (auto intro: exI [of _ 0])
  next
    case True
    then obtain k where "map tr_out rs' = map tr_out rs @ n # take k ns"
      using Cons.IH [of "rs @ [\<lparr>tr_status = e_junk e (nat n), tr_out = n\<rparr>]"] Cons.prems by auto
    then show ?thesis by (auto intro: exI [of _ "Suc k"])
  qed
qed

lemma matching_routes_outs:
  assumes "distinct (map o_id (cf_outputs s))"
  shows "distinct (map tr_out (matching_routes e ic s))" "tr_out ` set (matching_routes e ic s) \<subseteq> oids s"
  using distinct_map_filter [OF assms] by (auto simp: matching_routes_def comp_def oids_def)

text \<open>The state after a task has been set up with its routes; only the chunk differs.\<close>

lemma task_set_up_core:
  fixes s :: "'c flb_config"
  assumes "find_in s n = Some i"
    and "s' = upd_task a (\<lambda>t. t\<lparr>task_routes := rs\<rparr>)
       (upd_in n (\<lambda>i. i\<lparr>i_tasks := i_tasks i @ [a]\<rparr>)
         (upd_task a (\<lambda>t. t\<lparr>task_event_chunk := Some evc, task_ref_id := rid, task_i_ins := Some n,
              task_ic := Some ica, task_records := k\<rparr>)
           (upd_chunk ica (\<lambda>ic. ic\<lparr>ic_task := Some a\<rparr>) (s\<lparr>task_heap := (task_heap s)(a \<mapsto> t)\<rparr>))))"
  shows "core s' = core (add_task n a (t\<lparr>task_event_chunk := Some evc, task_ref_id := rid, task_i_ins := Some n,
              task_ic := Some ica, task_records := k, task_routes := rs\<rparr>) s)"
  by (simp add: assms(2) core_def upd_task_def upd_in_def upd_chunk_def add_task_def)

lemma inv_fresh: "inv X Y s \<Longrightarrow> task_heap s (sched_brk s) = None"
  by (rule ccontr) (auto simp: inv_def wf_tasks_def task_ok_def)

definition blank_task :: "int \<Rightarrow> flb_task" where
  "blank_task tid = \<lparr>task_id = tid, task_ref_id = 0, task_status = TASK_NEW, task_users = 0, task_event_chunk = None,
     task_ic = None, task_records = 0, task_routes = [], task_retries = [], task_i_ins = None\<rparr>"

text \<open>\<open>slot\<close>: the state once the slot of the task is taken and its address is used up.\<close>

lemma task_alloc_cases:
  assumes I: "inv X Y s" and eq: "task_alloc e s = (res, s')"
  obtains (none) "res = None" "s' = s"
  | (some) tid slot where "res = Some (sched_brk s)" "s' = slot\<lparr>task_heap := (task_heap slot)(sched_brk s \<mapsto> blank_task tid)\<rparr>"
      "inv X Y slot" "task_heap slot (sched_brk s) = None" "sched_brk slot = Suc (sched_brk s)" "0 \<le> tid"
      "nat tid < length (task_map slot)" "task_map slot ! nat tid = Some (sched_brk s)" "cf_inputs slot = cf_inputs s"
      "cf_outputs slot = cf_outputs s"
proof (cases "e_alloc e A_task (sched_brk s)")
  case False
  then show ?thesis using eq none by (simp add: task_alloc_def)
next
  case True
  obtain tid s1 where g: "map_get_task_id e s = (tid, s1)" by fastforce
  note G = inv_get_task_id [OF I g]
  show ?thesis
  proof (cases "tid = -1")
    case no: True
    have "s1 = s" using g no by (elim map_get_task_id_cases) auto
    then show ?thesis using eq True g no none by (simp add: task_alloc_def)
  next
    case False
    let ?slot = "s1\<lparr>task_map := (task_map s1)[nat tid := Some (sched_brk s)], sched_brk := Suc (sched_brk s)\<rparr>"
    have same: "task_heap s1 = task_heap s" "sched_brk s1 = sched_brk s"
      using coreD(5,8) [OF G(3)] by simp_all
    show ?thesis
    proof (rule some [of ?slot tid])
      show "inv X Y ?slot" using inv_brk [OF G(2) [OF False, of "Some (sched_brk s)"], of "Suc (sched_brk s)"] same by simp
      show "task_heap ?slot (sched_brk s) = None" using inv_fresh [OF I] same by simp
    qed (use eq True g False G same in \<open>auto simp: task_alloc_def map_set_task_id_def blank_task_def Let_def\<close>)
  qed
qed

lemma inv_new_task_destroy:
  assumes I: "inv X {#} s" and t: "task_heap s a = Some t" "task_status t = TASK_NEW"
  shows "inv X {#} (flb_task_destroy e a del s)"
  by (rule inv_task_destroy [OF I t(1)]) (use wf_flightD(3) [OF invD(4) [OF I] t] in simp)

lemma task_create_safe:
  assumes I: "inv {#} {#} s" and eq: "flb_task_create e rid buf n ica tag s = (res, s')"
  shows "inv {#} {#} s'" "map out_core (cf_outputs s') = map out_core (cf_outputs s)"
proof -
  have "inv {#} {#} s' \<and> map out_core (cf_outputs s') = map out_core (cf_outputs s)"
  proof (cases "chunk_heap s ica = None \<or> find_in s n = None")
    case True
    then have "s' = s" using eq by (auto simp: flb_task_create_def split: option.splits)
    then show ?thesis using I by simp
  next
    case False
    then obtain ic i where ic: "chunk_heap s ica = Some ic" and i: "find_in s n = Some i" by auto
    obtain al s1 where al: "task_alloc e s = (al, s1)" by fastforce
    from I al show ?thesis
    proof (cases rule: task_alloc_cases)
      case none
      then have "s' = s" using eq ic i al by (simp add: flb_task_create_def)
      then show ?thesis using I by simp
    next
      case (some tid slot)
      let ?a = "sched_brk s"
      show ?thesis
      proof (cases "flb_event_chunk_create (e_alloc e A_event_chunk ?a) (ic_event_type ic) (ic_total_records ic) tag buf")
        case None
        have "(task_heap slot)(?a \<mapsto> blank_task tid, ?a := None) = task_heap slot" using some(4) by auto
        then have "s' = slot" using eq ic i al some(1,2) None by (simp add: flb_task_create_def)
        then show ?thesis using some(3,10) by simp
      next
        case (Some evc)
        let ?t = "\<lambda>rs. (blank_task tid)\<lparr>task_event_chunk := Some evc, task_ref_id := rid, task_i_ins := Some n,
            task_ic := Some ica, task_records := ic_total_records ic, task_routes := rs\<rparr>"
        let ?s2 = "upd_in n (\<lambda>i. i\<lparr>i_tasks := i_tasks i @ [?a]\<rparr>)
            (upd_task ?a (\<lambda>t. t\<lparr>task_event_chunk := Some evc, task_ref_id := rid, task_i_ins := Some n,
                task_ic := Some ica, task_records := ic_total_records ic\<rparr>)
              (upd_chunk ica (\<lambda>ic. ic\<lparr>ic_task := Some ?a\<rparr>)
                 (slot\<lparr>task_heap := (task_heap slot)(?a \<mapsto> blank_task tid)\<rparr>)))"
        let ?s3 = "\<lambda>rs. upd_task ?a (\<lambda>t. t\<lparr>task_routes := rs\<rparr>) ?s2"
        define rs where "rs = (if i_routes_direct i \<noteq> [] then snd (direct_routes e (i_routes_direct i) [])
          else matching_routes e ic ?s2)"
        have res: "s' = ?s3 rs \<or> s' = flb_task_destroy e ?a True (?s3 rs)"
          using eq ic i al some(1,2) Some
          by (auto simp: flb_task_create_def rs_def Let_def split: prod.splits if_splits)
        have i_in: "i \<in> set (cf_inputs slot)" using find_in_Some [OF i] some(9) by simp
        have slot2: "cf_outputs ?s2 = cf_outputs slot" by (simp add: upd_in_def upd_chunk_def)
        have rs: "distinct (map tr_out rs) \<and> tr_out ` set rs \<subseteq> oids slot"
        proof (cases "i_routes_direct i \<noteq> []")
          case True
          obtain ok rs' where d: "direct_routes e (i_routes_direct i) [] = (ok, rs')" by fastforce
          then obtain k where k: "map tr_out rs' = take k (i_routes_direct i)" using direct_routes_outs [OF d] by auto
          have "distinct (i_routes_direct i)" "set (i_routes_direct i) \<subseteq> oids slot"
            using invD(3) [OF some(3)] i_in by (auto simp: wf_inputs_def)
          then have "distinct (map tr_out rs')" "set (map tr_out rs') \<subseteq> oids slot"
            using set_take_subset [of k "i_routes_direct i"] by (auto simp: k)
          then show ?thesis using True d by (simp add: rs_def)
        next
          case False
          have "distinct (map o_id (cf_outputs ?s2))" using invD(1) [OF some(3)] slot2 by (simp add: wf_outs_def)
          then show ?thesis
            using matching_routes_outs [of ?s2 e ic] False slot2 by (simp add: rs_def oids_def)
        qed
        have c: "core (?s3 rs) = core (add_task n ?a (?t rs) slot)"
          by (rule task_set_up_core [of slot n i]) (use i some(9) in \<open>simp_all add: find_in_def\<close>)
        have "inv {#} {#} (add_task n ?a (?t rs) slot)"
          by (rule inv_add_task [OF some(3,4)]) (use rs some(5-8) in \<open>auto simp: task_ok_def blank_task_def\<close>)
        then have I3: "inv {#} {#} (?s3 rs)" using inv_core [OF c] by simp
        have t3: "task_heap (?s3 rs) ?a = Some (?t rs)" "task_status (?t rs) = TASK_NEW"
          using coreD(8) [OF c] by (simp_all add: blank_task_def)
        have o3: "cf_outputs (?s3 rs) = cf_outputs s" using slot2 some(10) by simp
        from res show ?thesis
        proof
          assume "s' = ?s3 rs"
          then show ?thesis using I3 o3 by simp
        next
          assume s': "s' = flb_task_destroy e ?a True (?s3 rs)"
          show ?thesis
            using inv_new_task_destroy [OF I3 t3, of e True] task_destroy_core [OF I3, of e ?a True] o3
            by (simp add: s')
        qed
      qed
    qed
  qed
  then show "inv {#} {#} s'" "map out_core (cf_outputs s') = map out_core (cf_outputs s)" by simp_all
qed

section \<open>Dispatch and flush\<close>

text \<open>A step that keeps the invariant and the queues of the outputs.\<close>

definition quiet :: "'c flb_config \<Rightarrow> 'c flb_config \<Rightarrow> bool" where
  "quiet s s' \<longleftrightarrow> inv {#} {#} s' \<and> map out_core (cf_outputs s') = map out_core (cf_outputs s)"

lemma quiet_queues: "quiet s s' \<Longrightarrow> queues_ok s \<Longrightarrow> queues_ok s'"
  using queues_ok_same [OF queue_of_core] by (auto simp: quiet_def)

lemma quiet_trans: "quiet s s' \<Longrightarrow> quiet s' s'' \<Longrightarrow> quiet s s''"
  by (simp add: quiet_def)

lemma quiet_refl: "inv {#} {#} s \<Longrightarrow> quiet s s"
  by (simp add: quiet_def)

lemma quiet_core: "inv {#} {#} s \<Longrightarrow> core s' = core s \<Longrightarrow> quiet s s'"
  using inv_core [of s' s "{#}" "{#}"] coreD(11) [of s' s] by (simp add: quiet_def)

lemma core_release_chunk [simp]: "core (release_chunk c s) = core s"
  by (simp add: release_chunk_def)

lemma dispatch_chunk_safe:
  assumes I: "inv {#} {#} s"
  shows "quiet s (snd (dispatch_chunk e rid c k ic s))"
proof -
  obtain buf sz s1 where s1: "flb_input_chunk_flush (e_cio e) c s = ((buf, sz), s1)" by (metis prod.exhaust_sel)
  have c1: "core s1 = core s" using core_chunk_flush [of "e_cio e" c s] s1 by simp
  have q1: "quiet s s1" and I1: "inv {#} {#} s1" using quiet_core [OF I c1] by (simp_all add: quiet_def)
  have q2: "quiet s (release_chunk c s1)" using quiet_core [OF I] c1 by simp
  have create: "quiet s (snd (case flb_task_create e rid b n c tag s1 of
        ((Some a, _), s) \<Rightarrow> (k', s)
      | ((None, err), s) \<Rightarrow> (k', if err then snd (flb_input_chunk_down (e_cio e) c (release_chunk c s)) else s)))"
    for b tag k' n
  proof -
    obtain a err s2 where s2: "flb_task_create e rid b n c tag s1 = ((a, err), s2)" by (metis prod.exhaust_sel)
    have q: "quiet s s2" using task_create_safe [OF I1 s2] q1 by (simp add: quiet_def)
    have "quiet s2 (snd (flb_input_chunk_down (e_cio e) c (release_chunk c s2)))"
      by (rule quiet_core) (use q in \<open>simp_all add: quiet_def\<close>)
    from quiet_trans [OF q this] show ?thesis using q by (simp add: s2 split: option.split)
  qed
  show ?thesis
    unfolding dispatch_chunk_def s1
    using q1 q2 by (simp add: Let_def split: option.split) (intro allI impI conjI; rule create)
qed

lemma dispatch_chunks_safe:
  "inv {#} {#} s \<Longrightarrow> quiet s (dispatch_chunks e rid cs k s)"
proof (induction cs arbitrary: k s)
  case Nil
  then show ?case by (simp add: quiet_refl)
next
  case (Cons c cs)
  obtain tid s1 where s1: "flb_task_map_get_task_id e s = (tid, s1)" by fastforce
  note G = inv_get_task_id [OF Cons.prems s1 [unfolded flb_task_map_get_task_id_def]]
  have q1: "quiet s s1" using G by (simp add: quiet_def)
  have "quiet s (case dispatch_chunk e rid c k ic s1 of (k, s) \<Rightarrow> dispatch_chunks e rid cs k s)" for ic
    using quiet_trans [OF quiet_trans [OF q1 dispatch_chunk_safe [OF G(1)]] Cons.IH]
      dispatch_chunk_safe [OF G(1), of e rid c k ic] by (simp add: quiet_def case_prod_beta)
  then show ?case using q1 s1 Cons by (auto split: option.split)
qed

lemma cleanup_task_safe:
  assumes I: "inv {#} {#} s"
  shows "quiet s (cleanup_task e a s)"
proof (cases "\<exists>t. task_heap s a = Some t \<and> task_users t = 0 \<and> length (task_retries t) = 0 \<and> length (task_routes t) = 0")
  case False
  then show ?thesis using quiet_refl [OF I] by (auto simp: cleanup_task_def split: option.split)
next
  case True
  then obtain t where t: "task_heap s a = Some t" "task_users t = 0" by auto
  have "refs (flight s) a = 0" using wf_flightD(2) [OF invD(4) [OF I] t(1)] t(2) by simp
  then show ?thesis
    using True inv_task_destroy [OF I t(1), of e True] task_destroy_core [OF I, of e a True]
    by (auto simp: cleanup_task_def quiet_def)
qed

lemma cleanup_tasks_safe: "inv {#} {#} s \<Longrightarrow> quiet s (fold (cleanup_task e) as s)"
proof (induction as arbitrary: s)
  case (Cons a as)
  have "quiet s (cleanup_task e a s)" using cleanup_task_safe [OF Cons.prems] .
  then show ?case using Cons.IH [of "cleanup_task e a s"] quiet_trans by (fastforce simp: quiet_def)
qed (simp add: quiet_refl)

lemma engine_dispatch_safe:
  assumes I: "inv {#} {#} s" and q: "queues_ok s"
  shows "\<exists>s'. flb_engine_dispatch e rid n s = Some (0, s') \<and> inv {#} {#} s' \<and> queues_ok s'"
proof (cases "\<exists>i. find_in s n = Some i \<and> i_p i \<noteq> None")
  case False
  then show ?thesis using assms by (auto simp: flb_engine_dispatch_def split: option.split)
next
  case True
  then obtain i where i: "find_in s n = Some i" "i_p i \<noteq> None" by blast
  let ?s1 = "dispatch_chunks e rid (i_chunks i) 0 s"
  have s1: "quiet s ?s1" using dispatch_chunks_safe [OF I] .
  then have I1: "inv {#} {#} ?s1" by (simp add: quiet_def)
  obtain s2 where s2: "tasks_start e n ?s1 = Some s2" "inv {#} {#} s2" "queues_ok s2"
    using tasks_start_safe [OF I1 quiet_queues [OF s1 q], of e n] by auto
  show ?thesis
  proof (cases "find_in s2 n")
    case None
    then show ?thesis using i s2 by (auto simp: flb_engine_dispatch_def)
  next
    case (Some j)
    have "quiet s2 (fold (cleanup_task e) (i_tasks j) s2)" using cleanup_tasks_safe [OF s2(2)] .
    then show ?thesis
      using i s2 Some quiet_queues [OF _ s2(3)] by (auto simp: flb_engine_dispatch_def quiet_def)
  qed
qed

lemma engine_flush_safe:
  assumes "inv {#} {#} s" and "queues_ok s"
  shows "\<exists>s'. flb_engine_flush e in_force s = Some (0, s') \<and> inv {#} {#} s' \<and> queues_ok s'"
proof -
  let ?f = "\<lambda>i s. if in_force \<noteq> None \<and> i_p i \<noteq> in_force then Some s
      else map_option snd (flb_engine_dispatch e 0 (i_id i) s)"
  have "\<exists>s'. fold_opt ?f xs s = Some s' \<and> inv {#} {#} s' \<and> queues_ok s'" for xs
    using assms
  proof (induction xs arbitrary: s)
    case (Cons i xs)
    obtain s1 where "?f i s = Some s1" "inv {#} {#} s1" "queues_ok s1"
      using engine_dispatch_safe [OF Cons.prems, of e 0 "i_id i"] Cons.prems by (cases "in_force \<noteq> None \<and> i_p i \<noteq> in_force") auto
    then show ?case using Cons.IH [of s1] by simp
  qed simp
  then show ?thesis by (auto simp: flb_engine_flush_def)
qed

section \<open>Immediate retries\<close>

text \<open>Dropping the request of a retry, which frees its pair.\<close>

lemma inv_request_dropped:
  assumes I: "inv X {#} s" and s': "s' = snd (flb_sched_request_invalidate r s)"
  shows "inv X {#} s'" "r \<in> dom (retry_heap s) \<Longrightarrow> retry_pair s' r \<notin># waiting {#} s'"
proof -
  note E = request_invalidate_effect [OF invD(5) [OF I] s'] and F = wf_flightD [OF invD(4) [OF I]]
  note D = noschedD [OF E(1)]
  have flight: "flight s' = flight s" using D by (intro flight_cong)
  have pair: "retry_pair s' = retry_pair s" using D by (intro pair_cong)
  have sub: "waiting {#} s' \<subseteq># waiting {#} s" by (simp add: waiting_def pair E(4) image_mset_subseteq_mono)
  have "wf_flight X {#} s'"
  proof (rule wf_flightI)
    show "count (flight s' + X + waiting {#} s') p \<le> 1" for p
      using F(4) [of p] mset_subset_eq_count [OF sub, of p] by (simp add: flight)
    show "\<exists>rt. retry_heap s' x = Some rt" if "x \<in># reqs s' - {#}" for x
      using that F(6) [of x] D in_diffD [of x "reqs s" "{#r#}"] by (simp add: E(4))
  qed (use F(1-3) D flight in auto)
  then show "inv X {#} s'" by (rule inv_sched [OF I E(1,2), rotated]) (simp add: E(3))
  show "retry_pair s' r \<notin># waiting {#} s'" if "r \<in> dom (retry_heap s)"
  proof
    assume "retry_pair s' r \<in># waiting {#} s'"
    then obtain x where x: "x \<in># reqs s - {#r#}" "retry_pair s x = retry_pair s r"
      by (auto simp: waiting_def pair E(4))
    have "x \<in># reqs s" using in_diffD [OF x(1)] .
    then have "x \<in> dom (retry_heap s)" using F(6) [of x] by auto
    then have "x = r" using invD(2) [OF I] x(2) that by (auto simp: wf_tasks_def dest: inj_onD)
    then show False using x(1) reqs_once [OF I, of r] by (auto simp flip: count_greater_zero_iff)
  qed
qed

lemma retry_now_safe:
  assumes I: "inv {#} {#} s" and r: "r \<in> dom (retry_heap s)" and free: "retry_pair s r \<notin># flight s"
    and s': "s' = snd (flb_sched_retry_now b1 b2 tc now r (snd (flb_sched_request_invalidate r s)))"
  shows "inv {#} {#} s'" "nosched s' = nosched s"
proof -
  let ?s1 = "snd (flb_sched_request_invalidate r s)"
  note D = inv_request_dropped [OF I refl] and E = request_invalidate_effect [OF invD(5) [OF I] refl, of r]
  note N = retry_now_effect [OF invD(5) [OF D(1)] s']
  have flight: "flight ?s1 = flight s" and pair: "retry_pair ?s1 = retry_pair s"
    using flight_cong [OF noschedD(4,3) [OF E(1)]] pair_cong [OF noschedD(2) [OF E(1)]] by simp_all
  show "inv {#} {#} s'"
    using N(4)
  proof
    assume "reqs s' = reqs ?s1"
    then show ?thesis by (rule inv_sched_same [OF D(1) N(1-3)])
  next
    assume "reqs s' = add_mset r (reqs ?s1)"
    then show ?thesis
      by (rule inv_request_added [OF D(1) N(1-3)]) (use r free D(2) [OF r] noschedD(2) [OF E(1)] flight pair in auto)
  qed
  show "nosched s' = nosched s" using N(1) E(1) by simp
qed

lemma retries_now_safe:
  assumes "inv {#} {#} s" and "\<And>r. r \<in> set rs \<Longrightarrow> r \<in> dom (retry_heap s) \<and> retry_pair s r \<notin># flight s"
  shows "inv {#} {#} (fold (\<lambda>r s. let s = snd (flb_sched_request_invalidate r s)
           in snd (flb_sched_retry_now (b1 s) (b2 s) tc now r s)) rs s)
    \<and> nosched (fold (\<lambda>r s. let s = snd (flb_sched_request_invalidate r s)
           in snd (flb_sched_retry_now (b1 s) (b2 s) tc now r s)) rs s) = nosched s"
  using assms
proof (induction rs arbitrary: s)
  case (Cons r rs)
  let ?s0 = "snd (flb_sched_request_invalidate r s)"
  let ?s1 = "snd (flb_sched_retry_now (b1 ?s0) (b2 ?s0) tc now r ?s0)"
  have r: "r \<in> dom (retry_heap s)" "retry_pair s r \<notin># flight s" using Cons.prems(2) [of r] by auto
  note R = retry_now_safe [OF Cons.prems(1) r refl, of "b1 ?s0" "b2 ?s0" tc now]
  note D = noschedD [OF R(2)]
  have "flight ?s1 = flight s" using flight_cong [OF D(4) D(3)] .
  moreover have "retry_pair ?s1 = retry_pair s" using pair_cong [OF D(2)] .
  ultimately have "x \<in> dom (retry_heap ?s1) \<and> retry_pair ?s1 x \<notin># flight ?s1" if "x \<in> set rs" for x
    using Cons.prems(2) [of x] that D(2) by simp
  from Cons.IH [OF R(1) this] show ?case using R(2) by (simp add: Let_def)
qed simp

lemma reschedule_task_safe:
  assumes I: "inv {#} {#} s"
  shows "inv {#} {#} (reschedule_task e a s) \<and> nosched (reschedule_task e a s) = nosched s"
proof (cases "\<exists>t. task_heap s a = Some t \<and> task_users t \<le> 0")
  case False
  then show ?thesis using I by (auto simp: reschedule_task_def split: option.split)
next
  case True
  then obtain t where t: "task_heap s a = Some t" "task_users t \<le> 0" by blast
  have none: "refs (flight s) a = 0" using wf_flightD(2) [OF invD(4) [OF I] t(1)] t(2) by simp
  have "task_ok s a t" using invD(2) [OF I] t(1) by (simp add: wf_tasks_def)
  then have "r \<in> dom (retry_heap s) \<and> retry_pair s r \<notin># flight s" if "r \<in> set (task_retries t)" for r
    using that none refs_pos [of "retry_pair s r" "flight s"] by (auto simp: task_ok_def retry_pair_def)
  from retries_now_safe [OF I this] show ?thesis using t by (simp add: reschedule_task_def Let_def)
qed

lemma reschedule_retries_safe:
  assumes "inv {#} {#} s" and "queues_ok s"
  shows "inv {#} {#} (flb_engine_reschedule_retries e s) \<and> queues_ok (flb_engine_reschedule_retries e s)"
proof -
  have tasks: "inv {#} {#} s \<Longrightarrow> inv {#} {#} (fold (reschedule_task e) as s)
      \<and> nosched (fold (reschedule_task e) as s) = nosched s" for as and s :: "'a flb_config"
  proof (induction as arbitrary: s)
    case (Cons a as)
    have "inv {#} {#} (reschedule_task e a s)" "nosched (reschedule_task e a s) = nosched s"
      using reschedule_task_safe [OF Cons.prems] by simp_all
    then show ?case using Cons.IH [of "reschedule_task e a s"] by simp
  qed simp
  have "inv {#} {#} s \<Longrightarrow> inv {#} {#} (fold (\<lambda>i s. fold (reschedule_task e) (i_tasks i) s) is s)
      \<and> nosched (fold (\<lambda>i s. fold (reschedule_task e) (i_tasks i) s) is s) = nosched s" for "is" and s :: "'a flb_config"
  proof (induction "is" arbitrary: s)
    case (Cons i "is")
    let ?s = "fold (reschedule_task e) (i_tasks i) s"
    have "inv {#} {#} ?s" "nosched ?s = nosched s" using tasks [OF Cons.prems] by simp_all
    then show ?case using Cons.IH [of ?s] by simp
  qed simp
  from this [OF assms(1), of "cf_inputs s"]
  have "inv {#} {#} (flb_engine_reschedule_retries e s)" and n: "nosched (flb_engine_reschedule_retries e s) = nosched s"
    by (simp_all add: flb_engine_reschedule_retries_def)
  moreover have "queue_of (flb_engine_reschedule_retries e s) = queue_of s"
    using noschedD(4) [OF n] by (simp add: queue_of_def flb_output_get_instance_def fun_eq_iff)
  ultimately show ?thesis using assms(2) queues_ok_same by metis
qed

end
