(* ===== verification/Ingest_Safety.thy ===== *)
theory Ingest_Safety
  imports Chunk_Ingest Engine_Start
begin

text \<open>
  Appending data keeps the accounting of tasks: space is only taken from chunks without a task, or with
  a task that has no user, and the routes that are dropped are not in progress.
\<close>

section \<open>Steps that keep the invariant\<close>

lemma quiet_inv: "quiet s s' \<Longrightarrow> inv {#} {#} s'"
  by (simp add: quiet_def)

lemma quiet_then: "quiet s s1 \<Longrightarrow> (inv {#} {#} s1 \<Longrightarrow> quiet s1 s2) \<Longrightarrow> quiet s s2"
  by (simp add: quiet_def)

lemma quiet_destroy:
  assumes I: "inv {#} {#} s" and t: "task_heap s a = Some t" and "task_users t = 0"
  shows "quiet s (flb_task_destroy e a del s)"
proof -
  have "refs (flight s) a = 0" using wf_flightD(2) [OF invD(4) [OF I] t] assms(3) by simp
  then show ?thesis
    using inv_task_destroy [OF I t, of e del] task_destroy_core [OF I, of e a del] by (simp add: quiet_def)
qed

lemma quiet_release_destroy: "inv {#} {#} s \<Longrightarrow> quiet s (snd (release_destroy e c s))"
  by (auto simp: release_destroy_def intro: quiet_refl quiet_destroy quiet_core split: option.split)

lemma quiet_drop_route: "inv {#} {#} s \<Longrightarrow> quiet s (snd (flb_input_chunk_drop_task_route task n s))"
  using inv_set_route quiet_refl
  by (fastforce simp: flb_input_chunk_drop_task_route_def quiet_def split: option.split)

lemma core_record_count [simp]: "core (get_input_chunk_record_count cio a s) = core s"
  by (simp add: get_input_chunk_record_count_def split: option.split prod.split)

section \<open>Releasing space\<close>

lemma quiet_release_turn:
  assumes I: "inv {#} {#} s"
  shows "quiet s (snd (release_turn e new n scope c s))"
proof (cases "chunk_heap s c")
  case None
  then show ?thesis using quiet_refl [OF I] by (simp add: release_turn_def)
next
  case (Some ic)
  obtain ok dropped s1 where s1: "flb_input_chunk_drop_task_route (ic_task ic) (Some n) s = ((ok, dropped), s1)"
    by (metis prod.exhaust_sel)
  have q1: "quiet s s1" using quiet_drop_route [OF I, of "ic_task ic" "Some n"] s1 by simp
  have kept: "quiet s s2" if "core s2 = core s1" for s2 by (rule quiet_then [OF q1 quiet_core [OF _ that]])
  have gone: "quiet s (snd (release_destroy e c s2))" if "core s2 = core s1" for s2
    by (rule quiet_then [OF kept [OF that] quiet_release_destroy])
  show ?thesis
    unfolding release_turn_def Some option.case s1
    using quiet_refl [OF I] q1
    by (cases ok) (auto simp: Let_def case_prod_beta core_upd_out out_core_def intro!: kept gone)
qed

interpretation quiet_release: release_invariant e new "quiet s" for e new s
  by unfold_locales (erule quiet_then, rule quiet_release_turn)

lemma quiet_place: "flb_input_chunk_place_new_chunk e new sz s = Some (b, s') \<Longrightarrow> inv {#} {#} s \<Longrightarrow> quiet s s'"
  using quiet_release.place quiet_refl by blast

section \<open>Appending data\<close>

lemma core_index_upd: "in_core (chunk_index_upd ty f i) = in_core i"
  by (simp add: chunk_index_upd_def in_core_def)

lemma quiet_chunk_create:
  assumes "flb_input_chunk_create e n ty tag s = (a, s')" and I: "inv {#} {#} s"
  shows "quiet s s'"
proof -
  have core: "core (upd_in n (\<lambda>i. chunk_index_upd ty f (i\<lparr>i_chunks := i_chunks i @ [b]\<rparr>))
      (s\<lparr>chunk_heap := h, ic_next := k\<rparr>)) = core s" for f b h k
    by (subst core_upd_in) (simp_all add: chunk_index_upd_def in_core_def core_def)
  show ?thesis
    using assms(1) quiet_core [OF I core] quiet_refl [OF I] unfolding flb_input_chunk_create_def Let_def
    by (auto split: option.splits prod.splits if_splits)
qed

lemma core_lookup: "chunk_lookup e n i ty tag s = (r, s') \<Longrightarrow> core s' = core s"
  by (auto simp: chunk_lookup_def core_upd_in core_index_upd split: option.splits prod.splits)

lemma core_reuse: "chunk_reuse e a ic tag s = (r, s') \<Longrightarrow> core s' = core s"
  by (auto simp: chunk_reuse_def Let_def split: prod.splits if_splits)

lemma quiet_admit: "chunk_admit e a b sz s = Some (r, s') \<Longrightarrow> inv {#} {#} s \<Longrightarrow> quiet s s'"
proof -
  assume run: "chunk_admit e a b sz s = Some (r, s')" and I: "inv {#} {#} s"
  have gone: "quiet s (snd (flb_input_chunk_destroy (e_cio e) (e_hash e) a True s1))" if "quiet s s1" for s1
    by (rule quiet_then [OF that quiet_core]) simp_all
  show "quiet s s'"
    using run quiet_place [OF _ I] quiet_refl [OF I] gone
    by (auto simp: chunk_admit_def split: option.splits if_splits)
qed

lemma quiet_chunk_get:
  assumes run: "input_chunk_get e n ty tag sz s = Some (r, s')" and I: "inv {#} {#} s"
  shows "quiet s s'"
proof -
  let ?tag = "take FLB_INPUT_CHUNK_TAG_MAX tag"
  obtain i where i: "find_in s n = Some i" using run by (auto simp: input_chunk_get_def split: option.splits)
  obtain found s1 where s1: "chunk_lookup e n i ty ?tag s = (found, s1)" by fastforce
  obtain reused down s2 where s2: "(case found of None \<Rightarrow> Some ((None, False), s1)
      | Some a \<Rightarrow> (case chunk_heap s1 a of None \<Rightarrow> None | Some ic \<Rightarrow> Some (chunk_reuse e a ic ?tag s1)))
      = Some ((reused, down), s2)" (is "?r = _")
  proof (cases ?r)
    case None
    then show thesis using run unfolding input_chunk_get_def i s1 Let_def option.case prod.case by simp
  qed auto
  have "core s2 = core s1"
    using s2 core_reuse by (fastforce split: option.splits)
  then have "core s2 = core s" using core_lookup [OF s1] by simp
  then have q2: "quiet s s2" by (rule quiet_core [OF I])
  obtain c s3 where s3: "(case reused of Some a \<Rightarrow> (Some a, s2) | None \<Rightarrow> flb_input_chunk_create e n ty ?tag s2)
      = (c, s3)" by fastforce
  have q3: "quiet s s3"
    using s3 q2 quiet_then [OF q2 quiet_chunk_create] by (auto split: option.splits)
  have "s' = s3 \<or> (\<exists>a b x. chunk_admit e a b sz s3 = Some (x, s'))"
    using run unfolding input_chunk_get_def i s1 Let_def option.case prod.case s2 s3
    by (auto split: option.splits)
  then show ?thesis using q3 quiet_then [OF q3 quiet_admit] by blast
qed

lemma quiet_memrb_loop: "inv {#} {#} s \<Longrightarrow> quiet s (snd (memrb_loop e required cs released s))"
proof (induction cs arbitrary: released s)
  case (Cons c cs)
  have "quiet s (snd (release_destroy e c s))" using quiet_release_destroy [OF Cons.prems] .
  then show ?case using quiet_then [OF _ Cons.IH] Cons by (auto simp: Let_def case_prod_beta split: option.split)
qed (simp add: quiet_refl)

lemma quiet_memrb:
  "memrb_input_chunk_release_space e i required s = (r, s') \<Longrightarrow> inv {#} {#} s \<Longrightarrow> quiet s s'"
  using quiet_memrb_loop [of s e required "i_chunks i" 0] by (auto simp: memrb_input_chunk_release_space_def case_prod_beta)

lemma core_append_parts [simp]:
  "core (append_unload cio n a s) = core s" "core (append_account cio a pre s) = core s"
  by (simp_all add: append_unload_def append_account_def Let_def split: option.split)

lemma core_append_finish [simp]: "core (append_finish e n a set_down pre s) = core s"
  by (simp add: append_finish_def Let_def split: option.split)

lemma core_append_chunk [simp]: "core (snd (append_chunk e n ty k tag buf a set_down ic s)) = core s"
  by (simp add: append_chunk_def Let_def case_prod_beta)

lemma append_safe:
  assumes run: "input_chunk_append_raw e n ty k tag buf s = Some (r, s')" and I: "inv {#} {#} s"
  shows "quiet s s'"
proof -
  let ?sz = "of_nat (length buf) :: size_t"
  obtain i where i: "find_in s n = Some i" using run by (auto simp: input_chunk_append_raw_def split: option.splits)
  obtain x s1 where s1: "(if i_storage_type i = STORAGE_MEMRB \<and> flb_input_chunk_is_mem_overlimit i
      then memrb_input_chunk_release_space e i ?sz s else (0, s)) = (x, s1)" by fastforce
  have q1: "quiet s s1" using s1 quiet_memrb I quiet_refl by (auto split: if_splits)
  consider "s' = s1" | y s2 where "input_chunk_get e n ty (append_tag i tag) ?sz s1 = Some (y, s2)" "core s' = core s2"
    using run unfolding input_chunk_append_raw_def i s1 Let_def option.case prod.case
    by (auto split: option.splits if_splits) (metis core_append_chunk snd_conv)+
  then show ?thesis
  proof cases
    case 2
    have "quiet s s2" by (rule quiet_then [OF q1 quiet_chunk_get [OF 2(1)]])
    then show ?thesis using quiet_then quiet_core 2(2) by blast
  qed (use q1 in simp)
qed

end
