(* ===== verification/Chunk_Links.thy ===== *)
theory Chunk_Links
  imports Ingest_Safety
begin

text \<open>
  The pointers between tasks and chunks: a task points to a chunk that is there, is busy and points back,
  and a chunk points to a task that is there and points back. So a chunk that is destroyed because it is not
  busy takes no task with it, and a task that is destroyed takes its own chunk and no other.

  Most operations leave both pointers alone: they keep the view \<open>lview\<close>. The rules of \<open>lview\<close> are
  a collection of simplification rules over the operations.
\<close>

section \<open>Views\<close>

definition lview :: "'c flb_config \<Rightarrow>
    (addr \<Rightarrow> addr option option) \<times> (addr \<Rightarrow> (addr option \<times> bool) option) \<times> addr" where
  "lview s = ((\<lambda>a. map_option task_ic (task_heap s a)),
     (\<lambda>c. map_option (\<lambda>ic. (ic_task ic, ic_busy ic)) (chunk_heap s c)), ic_next s)"

abbreviation tview :: "'c flb_config \<Rightarrow> addr \<Rightarrow> addr option option" where
  "tview s \<equiv> fst (lview s)"

abbreviation cview :: "'c flb_config \<Rightarrow> addr \<Rightarrow> (addr option \<times> bool) option" where
  "cview s \<equiv> fst (snd (lview s))"

abbreviation cnext :: "'c flb_config \<Rightarrow> addr" where
  "cnext s \<equiv> snd (snd (lview s))"

definition links :: "'c flb_config \<Rightarrow> bool" where
  "links s \<longleftrightarrow>
     (\<forall>a t c. task_heap s a = Some t \<longrightarrow> task_ic t = Some c \<longrightarrow>
        (\<exists>ic. chunk_heap s c = Some ic \<and> ic_task ic = Some a \<and> ic_busy ic))
     \<and> (\<forall>c ic a. chunk_heap s c = Some ic \<longrightarrow> ic_task ic = Some a \<longrightarrow>
        (\<exists>t. task_heap s a = Some t \<and> task_ic t = Some c))
     \<and> (\<forall>c ic. chunk_heap s c = Some ic \<longrightarrow> c < ic_next s)"

text \<open>The same on the view: the chunk of a task, and the task of a chunk with its busy flag.\<close>

definition lok :: "(addr \<Rightarrow> addr option option) \<Rightarrow> (addr \<Rightarrow> (addr option \<times> bool) option) \<Rightarrow> addr \<Rightarrow> bool" where
  "lok T C n \<longleftrightarrow>
     (\<forall>a c. T a = Some (Some c) \<longrightarrow> C c = Some (Some a, True))
     \<and> (\<forall>c a b. C c = Some (Some a, b) \<longrightarrow> T a = Some (Some c))
     \<and> (\<forall>c x. C c = Some x \<longrightarrow> c < n)"

lemma links_view: "links s \<longleftrightarrow> lok (tview s) (cview s) (cnext s)"
  by (auto simp: links_def lok_def lview_def)

lemma lokI:
  assumes "\<And>a c. T a = Some (Some c) \<Longrightarrow> C c = Some (Some a, True)"
    and "\<And>c a b. C c = Some (Some a, b) \<Longrightarrow> T a = Some (Some c)"
    and "\<And>c x. C c = Some x \<Longrightarrow> c < n"
  shows "lok T C n"
  using assms unfolding lok_def by blast

lemma lokD:
  assumes "lok T C n"
  shows "T a = Some (Some c) \<Longrightarrow> C c = Some (Some a, True)" "C c = Some (Some a, b) \<Longrightarrow> T a = Some (Some c)"
    "C c = Some x \<Longrightarrow> c < n"
  using assms unfolding lok_def by blast+

lemma lok_remove_chunk:
  assumes L: "lok T C n" and c: "\<forall>a b. C c \<noteq> Some (Some a, b)"
  shows "lok T (C(c := None)) n"
proof (rule lokI)
  show "(C(c := None)) d = Some (Some a, True)" if "T a = Some (Some d)" for a d
    using lokD(1) [OF L that] c by auto
  show "T a = Some (Some d)" if "(C(c := None)) d = Some (Some a, b)" for d a b
    using lokD(2) [OF L, of d a b] that by (auto split: if_splits)
  show "d < n" if "(C(c := None)) d = Some z" for d z
    using lokD(3) [OF L, of d z] that by (auto split: if_splits)
qed

lemma lok_remove_task:
  assumes L: "lok T C n" and a: "T a = Some None"
  shows "lok (T(a := None)) C n"
proof (rule lokI)
  show "C d = Some (Some x, True)" if "(T(a := None)) x = Some (Some d)" for x d
    using lokD(1) [OF L, of x d] that by (auto split: if_splits)
  show "(T(a := None)) x = Some (Some d)" if "C d = Some (Some x, b)" for d x b
    using lokD(2) [OF L that] a by auto
  show "d < n" if "C d = Some z" for d z using lokD(3) [OF L that] .
qed

lemma lok_remove_both: "lok T C n \<Longrightarrow> T a = Some (Some c) \<Longrightarrow> lok (T(a := None)) (C(c := None)) n"
proof (rule lokI)
  assume L: "lok T C n" and a: "T a = Some (Some c)"
  show "(C(c := None)) d = Some (Some x, True)" if "(T(a := None)) x = Some (Some d)" for x d
    using that lokD(1) [OF L a] lokD(1) [OF L, of x d] by (auto split: if_splits)
  show "(T(a := None)) x = Some (Some d)" if "(C(c := None)) d = Some (Some x, b)" for d x b
    using that lokD(2) [OF L, of d x b] a by (auto split: if_splits)
  show "d < n" if "(C(c := None)) d = Some x" for d x
    using that lokD(3) [OF L, of d x] by (auto split: if_splits)
qed

lemma lok_set_flag:
  assumes L: "lok T C n" and c: "C c = Some (x, b)" and y: "x = None \<or> y"
  shows "lok T (C(c \<mapsto> (x, y))) n"
proof (rule lokI)
  show "(C(c \<mapsto> (x, y))) d = Some (Some a, True)" if "T a = Some (Some d)" for a d
    using lokD(1) [OF L that] c y by auto
  show "T a = Some (Some d)" if "(C(c \<mapsto> (x, y))) d = Some (Some a, b')" for d a b'
    using lokD(2) [OF L, of d a b'] lokD(2) [OF L, of c a b] c that by (auto split: if_splits)
  show "d < n" if "(C(c \<mapsto> (x, y))) d = Some z" for d z
    using lokD(3) [OF L, of d z] lokD(3) [OF L c] that by (auto split: if_splits)
qed

lemma lok_new_task:
  assumes L: "lok T C n" and a: "T a = None" and c: "C c = Some (None, True)"
  shows "lok (T(a \<mapsto> Some c)) (C(c \<mapsto> (Some a, True))) n"
proof (rule lokI)
  show "(C(c \<mapsto> (Some a, True))) d = Some (Some x, True)" if "(T(a \<mapsto> Some c)) x = Some (Some d)" for x d
    using lokD(1) [OF L, of x d] that c by (auto split: if_splits)
  show "(T(a \<mapsto> Some c)) x = Some (Some d)" if "(C(c \<mapsto> (Some a, True))) d = Some (Some x, b)" for d x b
    using lokD(2) [OF L, of d x b] that a by (auto split: if_splits)
  show "d < n" if "(C(c \<mapsto> (Some a, True))) d = Some z" for d z
    using lokD(3) [OF L, of d z] lokD(3) [OF L c] that by (auto split: if_splits)
qed

lemma lok_new_chunk: "lok T C n \<Longrightarrow> lok T (C(n \<mapsto> (None, x))) (Suc n)"
proof (rule lokI)
  assume L: "lok T C n"
  then have n: "C n = None" using lokD(3) [OF L, of n] by (cases "C n") auto
  show "(C(n \<mapsto> (None, x))) c = Some (Some a, True)" if "T a = Some (Some c)" for a c
    using lokD(1) [OF L that] n by auto
  show "T a = Some (Some c)" if "(C(n \<mapsto> (None, x))) c = Some (Some a, b)" for c a b
    using lokD(2) [OF L, of c a b] that by (auto split: if_splits)
  show "c < Suc n" if "(C(n \<mapsto> (None, x))) c = Some y" for c y
    using lokD(3) [OF L, of c y] that by (auto split: if_splits)
qed

lemma links_cong: "lview s' = lview s \<Longrightarrow> links s' = links s"
  by (simp add: links_view)

lemma lview_cong: "task_heap s' = task_heap s \<Longrightarrow> chunk_heap s' = chunk_heap s \<Longrightarrow> ic_next s' = ic_next s \<Longrightarrow> lview s' = lview s"
  by (simp add: lview_def)

named_theorems lv \<open>operations that keep the links\<close>

lemma lview_fields [lv]:
  "lview (s\<lparr>requests := rs\<rparr>) = lview s" "lview (s\<lparr>requests_wait := rs\<rparr>) = lview s"
  "lview (s\<lparr>timers := ts\<rparr>) = lview s" "lview (s\<lparr>timers_drop := ts\<rparr>) = lview s"
  "lview (s\<lparr>timer_coro_list := cs\<rparr>) = lview s" "lview (s\<lparr>timer_coro_list_drop := cs\<rparr>) = lview s"
  "lview (s\<lparr>sched_brk := n\<rparr>) = lview s" "lview (s\<lparr>retry_heap := h\<rparr>) = lview s"
  "lview (s\<lparr>task_map := m\<rparr>) = lview s" "lview (s\<lparr>cf_outputs := os\<rparr>) = lview s"
  "lview (s\<lparr>cf_inputs := is\<rparr>) = lview s"
  by (simp_all add: lview_def)

lemma lview_upd [lv]:
  "lview (upd_out n f s) = lview s" "lview (upd_in n g s) = lview s" "lview (upd_retry r h s) = lview s"
  "lview (upd_queue n q s) = lview s"
  by (simp_all add: lview_def upd_out_def upd_in_def upd_retry_def upd_queue_def)

lemma lview_upd_task [lv]: "(\<And>t. task_ic (f t) = task_ic t) \<Longrightarrow> lview (upd_task a f s) = lview s"
  by (auto simp: lview_def upd_task_def fun_eq_iff option.map_comp comp_def)

lemma lview_upd_chunk [lv]:
  "(\<And>ic. ic_task (f ic) = ic_task ic \<and> ic_busy (f ic) = ic_busy ic) \<Longrightarrow> lview (upd_chunk c f s) = lview s"
  by (auto simp: lview_def upd_chunk_def fun_eq_iff option.map_comp comp_def)

lemma lview_route [lv]:
  "task_ic (flb_task_set_route_status t n st) = task_ic t" "task_ic (flb_task_activate_route t n) = task_ic t"
  "task_ic (flb_task_deactivate_route t n) = task_ic t" "task_ic (flb_task_drop_route t n) = task_ic t"
  by (simp_all add: flb_task_set_route_status_def flb_task_activate_route_def flb_task_deactivate_route_def
      flb_task_drop_route_def)

section \<open>The scheduler\<close>

lemma lview_fold [lv]: "(\<And>x s. x \<in> set xs \<Longrightarrow> lview (f x s) = lview s) \<Longrightarrow> lview (fold f xs s) = lview s"
  by (induction xs arbitrary: s) auto

lemma lview_timers [lv]:
  "lview (timer_upd a f s) = lview s" "lview (timer_del a s) = lview s" "lview (request_del r s) = lview s"
  "lview (flb_sched_timer_cb_disable a s) = lview s" "lview (flb_sched_timer_destroy a s) = lview s"
  "lview (flb_sched_timer_invalidate a s) = lview s"
  by (simp_all add: lv timer_upd_def timer_del_def request_del_def flb_sched_timer_cb_disable_def
      flb_sched_timer_destroy_def flb_sched_timer_invalidate_def Let_def split: option.split)

lemma lview_request_destroy [lv]:
  "lview (snd (flb_sched_request_destroy q s)) = lview s"
  "lview (snd (flb_sched_request_invalidate r s)) = lview s"
  by (simp_all add: lv flb_sched_request_destroy_def flb_sched_request_invalidate_def split: option.split)

lemma lview_request_now [lv]: "lview (snd (schedule_request_now tc n a q s)) = lview s"
  by (simp add: lv schedule_request_now_def Let_def)

lemma lview_promote [lv]:
  fixes s :: "'c flb_config"
  shows "lview (snd (schedule_request_promote tc now s)) = lview s"
proof -
  have step: "lview (fst (promote_step tc now q st)) = lview (fst st)" for q and st :: "'c flb_config \<times> _"
    by (cases st) (simp add: promote_step_def Let_def case_prod_beta lv)
  have "lview (fst (fold (promote_step tc now) qs st)) = lview (fst st)" for qs and st :: "'c flb_config \<times> _"
    by (induction qs arbitrary: st) (simp_all add: step)
  from this [of "requests_wait s" "(s, [])"] show ?thesis by (simp add: schedule_request_promote_def case_prod_beta lv)
qed

lemma lview_retry_now [lv]: "lview (snd (flb_sched_retry_now x y tc now r s)) = lview s"
  by (simp add: lv flb_sched_retry_now_def flb_sched_timer_create_def Let_def case_prod_beta)

lemma lview_sched_request: "sched_request e r n s = Some (ret, s') \<Longrightarrow> lview s' = lview s"
  by (auto simp: lv sched_request_def flb_sched_request_create_def flb_sched_timer_create_def schedule_request_wait_def
      Let_def case_prod_beta split: option.splits if_splits)

lemma cleanup_shape:
  "\<exists>ts td l l'. snd (flb_sched_timer_cleanup s) =
     s\<lparr>timers := ts, timers_drop := td\<rparr>\<lparr>timer_coro_list := l, timer_coro_list_drop := l'\<rparr>"
  by (simp add: flb_sched_timer_cleanup_def flb_sched_timer_coro_cleanup_def cleanup_fold coro_cleanup_fold
      case_prod_beta) blast

lemma lview_cleanup [lv]: "lview (snd (flb_sched_timer_cleanup s)) = lview s"
  using cleanup_shape [of s] by (auto simp: lv)

section \<open>Tasks and flushes\<close>

lemma lview_users [lv]:
  "lview (flb_task_users_inc a s) = lview s" "lview (flb_task_users_dec e a False s) = lview s"
  by (simp_all add: lv flb_task_users_inc_def flb_task_users_dec_def)

lemma lview_retry_destroy [lv]: "lview (flb_task_retry_destroy r s) = lview s"
  by (simp add: lv flb_task_retry_destroy_def Let_def split: option.split)

lemma lview_chunk_ops [lv]:
  "lview (snd (flb_input_chunk_down cio c s)) = lview s" "lview (snd (flb_input_chunk_set_up cio c s)) = lview s"
  "lview (snd (flb_input_chunk_set_limits cio n s)) = lview s" "lview (snd (flb_input_chunk_protect cio n s)) = lview s"
  "lview (snd (flb_input_chunk_set_up_down cio c s)) = lview s"
  by (auto simp: lv flb_input_chunk_down_def flb_input_chunk_set_up_def flb_input_chunk_set_limits_def
      flb_input_chunk_protect_def flb_input_chunk_set_up_down_def Let_def case_prod_beta split: option.split)

lemma lview_retry_create [lv]:
  "lview (retry_chunk_down e a s) = lview s" "lview (snd (flb_task_retry_create e a ins s)) = lview s"
  "lview (snd (flb_task_retry_clean a n s)) = lview s"
  by (simp_all add: lv retry_chunk_down_def flb_task_retry_create_def flb_task_retry_clean_def Let_def split: option.split)

lemma lview_flush_ops [lv]:
  "lview (snd (flb_output_flush_id_get n s)) = lview s" "lview (flb_output_flush_destroy n fl s) = lview s"
  "lview (flb_output_flush_prepare_destroy n fl s) = lview s" "lview (snd (flb_output_flush_finished n s)) = lview s"
  "lview (snd (flb_output_thread_pool_flush e a n s)) = lview s"
  "lview (snd (flb_output_task_queue_enqueue e retry a n s)) = lview s"
  by (simp_all add: lv flb_output_flush_id_get_def flb_output_flush_destroy_def flb_output_flush_prepare_destroy_def
      flb_output_flush_finished_def flb_output_thread_pool_flush_def flb_output_task_queue_enqueue_def Let_def
      split: option.split)

lemma lview_flush_create [lv]: "lview (snd (flb_output_flush_create e a n s)) = lview s"
  by (simp add: lv flb_output_flush_create_def Let_def case_prod_beta split: option.split)

lemma lview_return [lv]:
  "lview (flb_output_return e ret n fl s) = lview s" "lview (output_pre_cb_flush e n fl s) = lview s"
  by (simp_all add: lv flb_output_return_def output_pre_cb_flush_def Let_def split: option.split)

lemma lview_thread_take [lv]: "lview (output_thread_take e n s) = lview s"
proof -
  have "lview s1 = lview s" if "flb_output_flush_create e a n s = (r, s1)" for a r s s1
    using lview_flush_create [of e a n s] that by simp
  then show ?thesis by (fastforce simp: lv output_thread_take_def Let_def split: option.split list.split prod.split)
qed

text \<open>The queue of a synchronous output.\<close>

lemma lview_queue:
  "\<forall>ret s'. flb_output_task_queue_flush_one k e n s = Some (ret, s') \<longrightarrow> lview s' = lview s"
  "\<forall>ret s'. flb_output_task_flush k e a n s = Some (ret, s') \<longrightarrow> lview s' = lview s"
  "\<forall>ret s'. flb_output_task_singleplex_flush_next k e n s = Some (ret, s') \<longrightarrow> lview s' = lview s"
proof (induction k e n s and k e a n s and k e n s
    rule: flb_output_task_queue_flush_one_flb_output_task_flush_flb_output_task_singleplex_flush_next.induct)
  case (1 e n s)
  then show ?case by (simp add: flb_output_task_queue_flush_one.simps)
next
  case (2 k e n s)
  show ?case
  proof (intro allI impI)
    fix ret s'
    assume run: "flb_output_task_queue_flush_one (Suc k) e n s = Some (ret, s')"
    show "lview s' = lview s"
    proof (cases "flb_output_get_instance s n")
      case None
      then show ?thesis using run by (simp add: flb_output_task_queue_flush_one.simps)
    next
      case (Some out)
      show ?thesis
      proof (cases "pending (o_singleplex_queue out)")
        case Nil
        then show ?thesis using run Some by (simp add: flb_output_task_queue_flush_one.simps)
      next
        case (Cons q qs)
        show ?thesis
          using run Some Cons "2.IH" [OF Some Cons refl refl]
          by (auto simp: flb_output_task_queue_flush_one.simps Let_def lv split: option.splits if_splits)
      qed
    qed
  qed
next
  case (3 k e a n s)
  show ?case
  proof (intro allI impI)
    fix ret s'
    assume run: "flb_output_task_flush k e a n s = Some (ret, s')"
    obtain r s1 where pool: "flb_output_thread_pool_flush e a n (flb_task_users_inc a s) = (r, s1)" by fastforce
    obtain fl s2 where create: "flb_output_flush_create e a n s = (fl, s2)" by fastforce
    have kept: "lview s1 = lview s" "lview s2 = lview s"
      using lview_flush_ops(5) [of e a n "flb_task_users_inc a s"] lview_flush_create [of e a n s] pool create
      by (simp_all add: lv)
    show "lview s' = lview s"
    proof (cases "flb_output_get_instance s n")
      case None
      then show ?thesis using run by (simp add: flb_output_task_flush.simps)
    next
      case (Some out)
      show ?thesis
        using run Some kept "3.IH" [OF Some] pool create
        by (auto simp: flb_output_task_flush.simps Let_def lv split: option.splits if_splits)
    qed
  qed
next
  case (4 k e n s)
  then show ?case
    by (auto simp: flb_output_task_singleplex_flush_next.simps Let_def lv split: option.splits if_splits)
qed

lemma lview_enqueue: "flb_output_task_singleplex_enqueue e retry a n s = Some (ret, s') \<Longrightarrow> lview s' = lview s"
proof -
  assume run: "flb_output_task_singleplex_enqueue e retry a n s = Some (ret, s')"
  obtain r s1 where s1: "flb_output_task_queue_enqueue e retry a n (flb_task_users_inc a s) = (r, s1)" by fastforce
  have "lview s1 = lview s" using lview_flush_ops(6) [of e retry a n "flb_task_users_inc a s"] s1 by (simp add: lv)
  then show ?thesis
    using run s1 lview_queue(1) by (fastforce simp: flb_output_task_singleplex_enqueue_def split: option.splits if_splits)
qed

section \<open>Destruction\<close>

lemma lview_uncount [lv]: "lview (chunk_uncount cio ic s) = lview s"
  by (simp add: lv chunk_uncount_def)

lemma lview_release:
  "lview (chunk_release hf c ic tag del s) = (tview s, (cview s)(c := None), cnext s)"
  by (auto simp: chunk_release_def lview_def upd_in_def fun_eq_iff)

lemma lview_chunk_destroy:
  "lview (snd (flb_input_chunk_destroy cio hf c del s)) = (tview s, (cview s)(c := None), cnext s)"
proof -
  let ?s = "if \<not> flb_input_chunk_is_up cio c s then snd (flb_input_chunk_set_up cio c s) else s"
  have s: "lview ?s = lview s" by (simp add: lv)
  show ?thesis
  proof (cases "chunk_heap ?s c")
    case None
    then have "cview ?s c = None" by (simp add: lview_def)
    then have "cview s c = None" by (simp only: s)
    then have "(tview s, (cview s)(c := None), cnext s) = lview s" by (simp add: fun_upd_idem)
    then show ?thesis unfolding flb_input_chunk_destroy_def Let_def using None s by simp
  next
    case (Some ic)
    then show ?thesis
      unfolding flb_input_chunk_destroy_def Let_def using s by (simp add: lview_release lv)
  qed
qed

lemma lview_destroy_corrupted:
  "lview (snd (flb_input_chunk_destroy_corrupted cio hf c tag del s)) = (tview s, (cview s)(c := None), cnext s)"
  by (auto simp: flb_input_chunk_destroy_corrupted_def lview_release lv split: option.split)
     (simp add: lview_def fun_upd_idem)

text \<open>A chunk without a task may go.\<close>

lemma links_remove_chunk:
  assumes "links s" and "\<forall>a b. cview s c \<noteq> Some (Some a, b)"
  shows "links (snd (flb_input_chunk_destroy cio hf c del s))"
    "links (snd (flb_input_chunk_destroy_corrupted cio hf c tag del s))"
  using lok_remove_chunk assms by (simp_all add: links_view lview_chunk_destroy lview_destroy_corrupted)

lemma lview_task_destroy:
  assumes "task_heap s a = Some t"
  shows "lview (flb_task_destroy e a del s) =
    ((tview s)(a := None), (case task_ic t of None \<Rightarrow> cview s | Some c \<Rightarrow> (cview s)(c := None)), cnext s)"
proof -
  have gone: "lview (s\<lparr>task_heap := (task_heap s)(a := None)\<rparr>) = ((tview s)(a := None), cview s, cnext s)"
    for s :: "'a flb_config" by (auto simp: lview_def fun_eq_iff)
  show ?thesis
    using assms by (simp add: flb_task_destroy_def Let_def gone lv lview_chunk_destroy map_free_task_id_def split: option.split)
qed

lemma links_task_destroy:
  assumes L: "links s"
  shows "links (flb_task_destroy e a del s)"
proof (cases "task_heap s a")
  case None
  then show ?thesis using L by (simp add: flb_task_destroy_def)
next
  case (Some t)
  have "tview s a = Some (task_ic t)" using Some by (simp add: lview_def)
  then show ?thesis
    using L lok_remove_task [of "tview s" "cview s" "cnext s" a]
      lok_remove_both [of "tview s" "cview s" "cnext s" a]
    by (simp add: links_view lview_task_destroy [OF Some] split: option.split)
qed

section \<open>The engine's handlers\<close>

lemmas links_simps = lview_upd [THEN links_cong] lview_users [THEN links_cong] lview_retry_destroy [THEN links_cong]
  lview_retry_create [THEN links_cong] lview_chunk_ops [THEN links_cong] lview_flush_ops [THEN links_cong]
  lview_request_destroy [THEN links_cong] lview_promote [THEN links_cong] lview_retry_now [THEN links_cong]
  lview_cleanup [THEN links_cong] lview_return [THEN links_cong] lview_thread_take [THEN links_cong]

lemmas links_results = lview_sched_request [THEN links_cong] lview_enqueue [THEN links_cong]
  lview_queue(1-3) [rule_format, THEN links_cong]

lemma links_users_release: "links s \<Longrightarrow> links (flb_task_users_release e a s)"
  by (auto simp: flb_task_users_release_def intro: links_task_destroy split: option.split)

lemma links_finished: "links s \<Longrightarrow> links (task_finished e a n s)"
  by (simp add: task_finished_def users_dec_True links_users_release links_simps)

lemma links_reschedule: "flb_task_retry_reschedule e r s = Some (ret, s') \<Longrightarrow> links s \<Longrightarrow> links s'"
  by (auto simp: flb_task_retry_reschedule_def links_simps links_results intro!: links_users_release
      split: option.splits if_splits)

lemma links_event_retry:
  assumes run: "event_retry e a ins s = Some (ret, s')" and L: "links s"
  shows "links s'"
proof -
  obtain r s1 where s1: "flb_task_retry_create e a ins s = (r, s1)" by fastforce
  have "links s1" using links_simps(9) [of e a ins s] s1 L by simp
  then show ?thesis
    using run L
    by (auto simp: event_retry_def s1 Let_def links_simps links_results intro!: links_finished links_users_release
        split: option.splits if_splits)
qed

lemma links_output_event:
  assumes run: "handle_output_event e v s = Some (ret, s')" and L: "links s"
  shows "links s'"
proof -
  have kept: "links s2" if "flb_output_task_singleplex_flush_next k e n s1 = Some (x, s2)" "links s1" for k n x s1 s2
    using links_results(5) [OF that(1)] that(2) by simp
  show ?thesis
    using run L kept unfolding handle_output_event_def Let_def
    by (auto simp: links_simps intro: links_finished links_event_retry split: option.splits if_splits)
qed

lemma links_output_events:
  assumes run: "handle_output_events e n s = Some (ret, s')" and L: "links s"
  shows "links s'"
proof -
  have "links s'" if "fold_opt (\<lambda>v (_, s). map_option (\<lambda>(ret, s). (Some ret, s)) (handle_output_event e v s)) vs st
      = Some (ret, s')" "links (snd st)" for vs st
    using that
  proof (induction vs arbitrary: st)
    case (Cons v vs)
    then show ?case using links_output_event by (cases st) (fastforce split: option.splits)
  qed simp
  then show ?thesis using run L by (fastforce simp: handle_output_events_def Let_def links_simps split: option.splits)
qed

section \<open>Dispatch\<close>

lemma lview_update_outputs [lv]: "lview (flb_input_chunk_update_output_instances c n s) = lview s"
  by (auto simp: flb_input_chunk_update_output_instances_def lv split: option.split)

lemma lview_busy:
  "chunk_heap s c = Some ic \<Longrightarrow>
     lview (upd_chunk c (\<lambda>ic. ic\<lparr>ic_busy := b\<rparr>) s) = (tview s, (cview s)(c \<mapsto> (ic_task ic, b)), cnext s)"
  by (auto simp: lview_def upd_chunk_def fun_eq_iff)

lemma chunk_flush_view:
  assumes run: "flb_input_chunk_flush cio c s = ((buf, sz), s')"
  obtains "lview s' = lview s" "buf = None"
  | ic where "chunk_heap s c = Some ic" "lview s' = (tview s, (cview s)(c \<mapsto> (ic_task ic, True)), cnext s)"
proof (cases "chunk_heap s c")
  case None
  then show thesis using run that(1) by (simp add: flb_input_chunk_flush_def)
next
  case (Some ic)
  have busy: "lview (upd_chunk c (\<lambda>ic. ic\<lparr>ic_busy := True\<rparr>) (upd_chunk c (\<lambda>ic. ic\<lparr>ic_chunk := x\<rparr>) s))
      = (tview s, (cview s)(c \<mapsto> (ic_task ic, True)), cnext s)" for x
    using Some by (auto simp: lview_def upd_chunk_def fun_eq_iff)
  have "(lview s' = lview s \<and> buf = None) \<or> lview s' = (tview s, (cview s)(c \<mapsto> (ic_task ic, True)), cnext s)"
    using run Some
    by (auto simp: flb_input_chunk_flush_def Let_def case_prod_beta lv busy split: option.splits if_splits)
  then show thesis using that Some by blast
qed

lemma links_chunk_flush:
  assumes run: "flb_input_chunk_flush cio c s = ((buf, sz), s')" and L: "links s"
  shows "links s'"
proof (cases rule: chunk_flush_view [OF run])
  case 1
  then show ?thesis using L by (simp add: links_view)
next
  case (2 ic)
  then have "cview s c = Some (ic_task ic, ic_busy ic)" by (simp add: lview_def)
  then show ?thesis using lok_set_flag [of "tview s" "cview s" "cnext s" c _ _ True] L 2 by (simp add: links_view)
qed

lemma links_dispatch_retry:
  assumes run: "flb_engine_dispatch_retry e r s = Some (ret, s')" and L: "links s"
  shows "links s'"
proof -
  have flush: "links s2" if "flb_input_chunk_flush (e_cio e) c s1 = (x, s2)" "links s1" for c x s1 s2
    using links_chunk_flush that by (cases x) blast
  have up: "links s1" if "flb_input_chunk_set_up (e_cio e) c s = (x, s1)" for c x s1
    using lview_chunk_ops(2) [THEN links_cong, of "e_cio e" c s] that L by simp
  have chunk: "links (upd_task a (\<lambda>t. t\<lparr>task_event_chunk := f t\<rparr>) s1) = links s1" for a f s1
    by (rule links_cong) (simp add: lv)
  show ?thesis
    using run up flush unfolding flb_engine_dispatch_retry_def Let_def
    by (auto simp: links_simps chunk links_results intro: links_reschedule split: option.splits if_splits prod.splits)
qed

lemma lview_start_route: "start_route e a k route (n, s) = Some (n', s') \<Longrightarrow> lview s' = lview s"
  using lview_enqueue lview_queue(2)
  by (fastforce simp: start_route_def lv split: option.splits if_splits)

lemma lview_start_task: "start_task e a (k, s) = Some (k', s') \<Longrightarrow> lview s' = lview s"
proof -
  have routes: "lview s' = lview s" if "fold_opt (start_route e a k) rs (n, s) = Some (n', s')" for k rs n n' s s'
    using that
  proof (induction rs arbitrary: n s)
    case (Cons r rs)
    then show ?case by (auto dest!: lview_start_route Cons.IH split: option.splits)
  qed simp
  assume "start_task e a (k, s) = Some (k', s')"
  then show ?thesis
    by (auto simp: start_task_def Let_def lv dest!: routes split: option.splits if_splits)
qed

lemma lview_tasks_start: "tasks_start e n s = Some s' \<Longrightarrow> lview s' = lview s"
proof -
  have tasks: "lview s' = lview s" if "fold_opt (start_task e) as (k, s) = Some (k', s')" for as k k' s s'
    using that
  proof (induction as arbitrary: k s)
    case (Cons a as)
    then show ?case by (auto dest!: lview_start_task Cons.IH split: option.splits)
  qed simp
  assume "tasks_start e n s = Some s'"
  then show ?thesis using tasks by (auto simp: tasks_start_def split: option.splits)
qed

lemma links_cleanup_tasks: "links s \<Longrightarrow> links (fold (cleanup_task e) as s)"
  by (induction as arbitrary: s) (simp_all add: cleanup_task_def links_task_destroy split: option.split)

text \<open>The creation of a task for a busy chunk that has none.\<close>

lemma lview_get_task_id: "map_get_task_id e s = (tid, s') \<Longrightarrow> lview s' = lview s"
  by (auto simp: map_get_task_id_def flb_config_task_map_grow_def flb_config_task_map_resize_def Let_def lv
      split: option.splits if_splits prod.splits)

lemma lview_task_alloc:
  assumes "task_alloc e s = (res, s')"
  shows "case res of None \<Rightarrow> lview s' = lview s
    | Some a \<Rightarrow> a = sched_brk s \<and> lview s' = ((tview s)(a \<mapsto> None), cview s, cnext s) \<and> task_heap s' a \<noteq> None"
proof -
  obtain tid s1 where s1: "map_get_task_id e s = (tid, s1)" by fastforce
  have v: "lview s1 = lview s" using lview_get_task_id [OF s1] .
  have "lview (s1\<lparr>task_map := m, task_heap := (task_heap s1)(a \<mapsto> t)\<rparr>) = ((tview s)(a \<mapsto> task_ic t), cview s, cnext s)"
    for a t m unfolding v [symmetric] by (auto simp: lview_def fun_eq_iff)
  then show ?thesis
    using assms s1 v by (auto simp: task_alloc_def Let_def lv map_set_task_id_def split: if_splits)
qed

lemma task_create_links:
  assumes run: "flb_task_create e rid buf n c tag s = ((res, err), s')" and L: "links s"
    and c: "chunk_heap s c = Some ic" "ic_task ic = None" "ic_busy ic" and fresh: "task_heap s (sched_brk s) = None"
  shows "if err then lview s' = lview s else links s'"
proof -
  let ?T = "tview s" and ?C = "cview s" and ?n = "cnext s" and ?a = "sched_brk s"
  have a: "?T ?a = None" and cv: "?C c = Some (None, True)" using fresh c by (simp_all add: lview_def)
  have M: "lok (?T(?a \<mapsto> Some c)) (?C(c \<mapsto> (Some ?a, True))) ?n"
    using lok_new_task [of ?T ?C ?n ?a c] a cv L by (simp add: links_view)
  obtain x s1 where s1: "task_alloc e s = (x, s1)" by fastforce
  note V = lview_task_alloc [OF s1]
  show ?thesis
  proof (cases "x = None \<or> find_in s n = None")
    case True
    then show ?thesis using run s1 V c by (auto simp: flb_task_create_def split: option.splits)
  next
    case False
    then obtain i where i: "find_in s n = Some i" and x: "x = Some ?a" using V by auto
    have v1: "lview s1 = (?T(?a \<mapsto> None), ?C, ?n)" using V x by simp
    have ch: "chunk_heap s1 c \<noteq> None"
    proof -
      have "cview s1 c \<noteq> None" using v1 cv by simp
      then show ?thesis by (simp add: lview_def)
    qed
    have th: "task_heap s1 ?a \<noteq> None" using V x by simp
    define M where "M evc = upd_in n (\<lambda>i. i\<lparr>i_tasks := i_tasks i @ [?a]\<rparr>)
        (upd_task ?a (\<lambda>t. t\<lparr>task_event_chunk := Some evc, task_ref_id := rid, task_i_ins := Some n, task_ic := Some c,
          task_records := ic_total_records ic\<rparr>) (upd_chunk c (\<lambda>ic. ic\<lparr>ic_task := Some ?a\<rparr>) s1))" for evc
    have "cview s1 c = Some (None, True)" using v1 cv by simp
    then have "lview (M evc) = (?T(?a \<mapsto> Some c), ?C(c \<mapsto> (Some ?a, True)), ?n)" for evc
      using v1 th ch by (auto simp: M_def lview_def upd_in_def upd_task_def upd_chunk_def fun_eq_iff)
    then have LM: "links (M evc)" for evc using M by (simp add: links_view)
    have routes: "links (upd_task ?a (\<lambda>t. t\<lparr>task_routes := rs\<rparr>) (M evc))" for rs evc
      by (subst links_cong [OF lview_upd_task]) (simp_all add: LM)
    have gone: "lview (s1\<lparr>task_heap := (task_heap s1)(?a := None)\<rparr>) = lview s"
      using v1 a by (auto simp: lview_def fun_eq_iff)
    show ?thesis
      using run routes gone links_task_destroy [OF routes]
      unfolding flb_task_create_def c(1) i s1 x option.case prod.case Let_def M_def [symmetric]
      by (auto split: option.splits if_splits prod.splits)
  qed
qed

lemma view_not_busy:
  "links s \<Longrightarrow> chunk_heap s c = Some ic \<Longrightarrow> \<not> ic_busy ic \<Longrightarrow> ic_task ic = None \<and> cview s c = Some (None, False)"
proof -
  assume L: "links s" and c: "chunk_heap s c = Some ic" "\<not> ic_busy ic"
  have "ic_task ic = None"
  proof (rule ccontr)
    assume "ic_task ic \<noteq> None"
    then obtain a where a: "ic_task ic = Some a" by auto
    then obtain t where "task_heap s a = Some t" "task_ic t = Some c" using L c unfolding links_def by blast
    then show False using L c unfolding links_def by fastforce
  qed
  then show ?thesis using c by (simp add: lview_def)
qed

lemma links_release_chunk:
  assumes L: "links s" and c: "cview s c = Some (None, b)"
  shows "links (release_chunk c s)"
proof -
  obtain ic where ic: "chunk_heap s c = Some ic" "ic_task ic = None" using c by (auto simp: lview_def)
  show ?thesis
    using L lok_set_flag [of "tview s" "cview s" "cnext s" c None b False] c ic
    by (auto simp: release_chunk_def flb_input_chunk_release_lock_def links_view lview_busy [OF ic(1)])
qed

lemma links_dispatch_chunk:
  assumes L: "links s" and I: "inv {#} {#} s" and c: "chunk_heap s c = Some ic" "\<not> ic_busy ic"
  shows "links (snd (dispatch_chunk e rid c k ic s))"
proof -
  obtain buf sz s1 where s1: "flb_input_chunk_flush (e_cio e) c s = ((buf, sz), s1)" by (metis prod.exhaust_sel)
  have L1: "links s1" using links_chunk_flush [OF s1 L] .
  have c1: "cview s1 c = Some (None, False) \<or> cview s1 c = Some (None, True)"
    "buf \<noteq> None \<Longrightarrow> cview s1 c = Some (None, True)"
    using view_not_busy [OF L c] c by (cases rule: chunk_flush_view [OF s1]; auto)+
  have rel: "links (release_chunk c s1)" using links_release_chunk [OF L1] c1(1) by auto
  have fresh: "task_heap s1 (sched_brk s1) = None"
  proof -
    have "inv {#} {#} s1" using quiet_inv [OF quiet_core [OF I]] core_chunk_flush [of "e_cio e" c s] s1 by simp
    then show ?thesis by (rule inv_fresh)
  qed
  have create: "links (snd (case flb_task_create e rid b n c tag s1 of
        ((Some a, _), s) \<Rightarrow> (k', s)
      | ((None, err), s) \<Rightarrow> (k', if err then snd (flb_input_chunk_down (e_cio e) c (release_chunk c s)) else s)))"
    if "buf = Some b" "chunk_heap s1 c = Some ic1" for b ic1 n tag k'
  proof -
    obtain res err s2 where s2: "flb_task_create e rid b n c tag s1 = ((res, err), s2)" by (metis prod.exhaust_sel)
    have "ic_task ic1 = None" "ic_busy ic1" using c1(2) that by (simp_all add: lview_def)
    note C = task_create_links [OF s2 L1 that(2) this fresh]
    have "links s2" using C L1 by (auto simp: links_view split: if_splits)
    moreover have "links (release_chunk c s2)" if err
      using links_release_chunk [of s2 c] C that c1(1) L1 by (auto simp: links_view)
    ultimately show ?thesis by (simp add: s2 links_simps split: option.split)
  qed
  show ?thesis
    unfolding dispatch_chunk_def s1
    using L1 rel by (simp add: Let_def split: option.split) (intro allI impI conjI; rule create; simp)
qed

lemma links_dispatch_chunks:
  "links s \<Longrightarrow> inv {#} {#} s \<Longrightarrow> links (dispatch_chunks e rid cs k s)"
proof (induction cs arbitrary: k s)
  case (Cons c cs)
  obtain tid s1 where s1: "flb_task_map_get_task_id e s = (tid, s1)" by fastforce
  note G = inv_get_task_id [OF Cons.prems(2) s1 [unfolded flb_task_map_get_task_id_def]]
  have L1: "links s1" using links_cong [OF lview_get_task_id [of e s tid s1]] s1 Cons.prems(1) by (simp add: flb_task_map_get_task_id_def)
  show ?case
  proof (cases "\<exists>ic. chunk_heap s c = Some ic \<and> \<not> ic_busy ic \<and> tid \<noteq> -1")
    case True
    then obtain ic where ic: "chunk_heap s c = Some ic" "\<not> ic_busy ic" "tid \<noteq> -1" by blast
    obtain k2 s2 where s2: "dispatch_chunk e rid c k ic s1 = (k2, s2)" by fastforce
    have "links s2" using links_dispatch_chunk [OF L1 G(1), of c ic e rid k] ic s2 G(7) by simp
    moreover have "inv {#} {#} s2" using quiet_inv [OF dispatch_chunk_safe [OF G(1), of e rid c k ic]] s2 by simp
    ultimately show ?thesis using ic s1 s2 Cons.IH by simp
  next
    case False
    then show ?thesis using s1 L1 Cons by (auto split: option.split)
  qed
qed simp

lemma links_dispatch:
  assumes run: "flb_engine_dispatch e rid n s = Some (ret, s')" and L: "links s" and I: "inv {#} {#} s"
  shows "links s'"
  using run links_cleanup_tasks lview_tasks_start [THEN links_cong] links_dispatch_chunks [OF L I] L
  by (fastforce simp: flb_engine_dispatch_def split: option.splits if_splits)

lemma links_flush:
  assumes run: "flb_engine_flush e in_force s = Some (ret, s')" and "links s" and "inv {#} {#} s" and "queues_ok s"
  shows "links s'"
proof -
  let ?f = "\<lambda>i s. if in_force \<noteq> None \<and> i_p i \<noteq> in_force then Some s
      else map_option snd (flb_engine_dispatch e 0 (i_id i) s)"
  have "links s1" if "fold_opt ?f xs s = Some s1" "links s" "inv {#} {#} s" "queues_ok s" for xs s s1
    using that
  proof (induction xs arbitrary: s)
    case (Cons i xs)
    show ?case
    proof (cases "in_force \<noteq> None \<and> i_p i \<noteq> in_force")
      case True
      then show ?thesis using Cons by simp
    next
      case False
      obtain s0 where s0: "flb_engine_dispatch e 0 (i_id i) s = Some (0, s0)" "inv {#} {#} s0" "queues_ok s0"
        using engine_dispatch_safe [OF Cons.prems(3,4), of e 0 "i_id i"] by auto
      then show ?thesis using Cons links_dispatch [OF s0(1) Cons.prems(2,3)] False by auto
    qed
  qed simp
  then show ?thesis using assms by (auto simp: flb_engine_flush_def)
qed

section \<open>Timers\<close>

lemma links_timer:
  assumes L: "links s" and t: "find_timer s a = Some t" "t_type t \<in> {TIMER_REQUEST, TIMER_FRAME}"
  shows "links (snd (flb_sched_event_handler tc now (engine_dispatch e) run ok (Ev_Timer a) s))"
proof -
  have "links (snd (engine_dispatch e r s))" for r
    using L links_dispatch_retry [OF _ L, of e r] by (auto simp: engine_dispatch_def split: option.split)
  then show ?thesis
    using t L by (auto simp: flb_sched_event_handler_def Let_def case_prod_beta links_simps split: option.split)
qed

lemma links_reschedule_retries: "links s \<Longrightarrow> links (flb_engine_reschedule_retries e s)"
proof -
  have task: "lview (reschedule_task e a s) = lview s" for a s
    by (auto simp: reschedule_task_def Let_def lv split: option.split)
  have "lview (flb_engine_reschedule_retries e s) = lview s"
    unfolding flb_engine_reschedule_retries_def by (simp add: lview_fold task)
  then show "links s \<Longrightarrow> ?thesis" using links_cong by blast
qed

section \<open>Appending data\<close>

lemma links_release_destroy: "links s \<Longrightarrow> links (snd (release_destroy e c s))"
proof (cases "chunk_heap s c")
  case (Some ic)
  assume L: "links s"
  show ?thesis
  proof (cases "ic_task ic")
    case None
    then have "\<forall>a b. cview s c \<noteq> Some (Some a, b)" using Some by (simp add: lview_def)
    then show ?thesis using links_remove_chunk(1) [OF L] Some None by (simp add: release_destroy_def)
  next
    case task: (Some a)
    then show ?thesis using Some L links_task_destroy by (auto simp: release_destroy_def split: option.split)
  qed
qed (simp add: release_destroy_def)

lemma lview_drop_route [lv]: "lview (snd (flb_input_chunk_drop_task_route task n s)) = lview s"
  by (simp add: flb_input_chunk_drop_task_route_def lv split: option.split)

lemma lview_record_count [lv]: "lview (get_input_chunk_record_count cio c s) = lview s"
  by (simp add: get_input_chunk_record_count_def lv split: option.split prod.split)

lemma links_release_turn:
  assumes L: "links s"
  shows "links (snd (release_turn e new n scope c s))"
proof (cases "chunk_heap s c")
  case None
  then show ?thesis using L by (simp add: release_turn_def)
next
  case (Some ic)
  obtain ok dropped s1 where s1: "flb_input_chunk_drop_task_route (ic_task ic) (Some n) s = ((ok, dropped), s1)"
    by (metis prod.exhaust_sel)
  have v1: "lview s1 = lview s" using lview_drop_route [of "ic_task ic" "Some n" s] s1 by simp
  have kept: "links s2" if "lview s2 = lview s1" for s2 using that v1 L links_cong [of s2 s] by simp
  have gone: "links (snd (release_destroy e c s2))" if "lview s2 = lview s1" for s2
    by (rule links_release_destroy [OF kept [OF that]])
  show ?thesis
    unfolding release_turn_def Some option.case s1
    using L kept [of s1] by (cases ok) (auto simp: Let_def case_prod_beta lv intro!: kept gone)
qed

text \<open>A turn changes one chunk only, and not the one that needs the space.\<close>

lemma heap_chunk_destroy:
  "chunk_heap (snd (flb_input_chunk_destroy cio hf c del s)) = (chunk_heap s)(c := None)"
proof -
  have up: "(chunk_heap (snd (flb_input_chunk_set_up cio c s)))(c := None) = (chunk_heap s)(c := None)"
    by (auto simp: flb_input_chunk_set_up_def upd_chunk_def split: option.split prod.split)
  have dead: "chunk_heap (snd (flb_input_chunk_set_up cio c s)) c = None \<longleftrightarrow> chunk_heap s c = None"
    "chunk_heap s c = None \<Longrightarrow> snd (flb_input_chunk_set_up cio c s) = s"
    by (auto simp: flb_input_chunk_set_up_def upd_chunk_def split: option.splits prod.splits if_splits)
  have release: "chunk_heap (chunk_release hf c ic tag del s) = (chunk_heap s)(c := None)" for ic tag s
    by (simp add: chunk_release_def)
  have "chunk_heap (chunk_uncount cio ic s) = chunk_heap s" for ic s by (simp add: chunk_uncount_def)
  moreover have "(chunk_heap s)(c := None) = chunk_heap s" if "chunk_heap s c = None" for s :: "'a flb_config"
    using that by (rule fun_upd_idem)
  ultimately show ?thesis
    using up dead by (auto simp: flb_input_chunk_destroy_def Let_def release split: option.split)
qed

lemma heap_task_destroy:
  assumes "task_heap s a = Some t" "task_ic t = Some c" "d \<noteq> c"
  shows "chunk_heap (flb_task_destroy e a del s) d = chunk_heap s d"
proof -
  have sched: "chunk_heap (flb_task_retry_destroy r s) = chunk_heap s" for r and s :: "'a flb_config"
    by (simp add: flb_task_retry_destroy_def flb_sched_request_invalidate_def flb_sched_request_destroy_def
        flb_sched_timer_invalidate_def flb_sched_timer_cb_disable_def timer_upd_def timer_del_def request_del_def Let_def
        split: option.split)
  then have retries: "chunk_heap (fold flb_task_retry_destroy rs s) = chunk_heap s" for rs and s :: "'a flb_config"
    by (induction rs arbitrary: s) simp_all
  have lim: "chunk_heap (snd (flb_input_chunk_set_limits cio n s)) = chunk_heap s" for cio n and s :: "'a flb_config"
    by (simp add: flb_input_chunk_set_limits_def Let_def upd_in_def split: option.split)
  show ?thesis
    using assms
    by (simp add: flb_task_destroy_def Let_def heap_chunk_destroy retries lim map_free_task_id_def upd_in_def split: option.split)
qed

lemma heap_release_destroy:
  assumes L: "links s" and "d \<noteq> c"
  shows "chunk_heap (snd (release_destroy e c s)) d = chunk_heap s d"
proof (cases "chunk_heap s c")
  case None
  then show ?thesis by (simp add: release_destroy_def)
next
  case (Some ic)
  have "chunk_heap (flb_task_destroy e a True s) d = chunk_heap s d" if "ic_task ic = Some a" for a
  proof -
    obtain t where "task_heap s a = Some t" "task_ic t = Some c" using L Some \<open>ic_task ic = Some a\<close> unfolding links_def by blast
    then show ?thesis by (rule heap_task_destroy) (rule \<open>d \<noteq> c\<close>)
  qed
  then show ?thesis using Some assms(2) by (auto simp: release_destroy_def heap_chunk_destroy split: option.split)
qed

lemma heap_release_turn:
  assumes L: "links s" and d: "d \<noteq> c \<or> d = new"
  shows "chunk_heap (snd (release_turn e new n scope c s)) d = chunk_heap s d"
proof (cases "chunk_heap s c = None \<or> \<not> flb_input_chunk_safe_delete new c n s")
  case True
  then show ?thesis by (auto simp: release_turn_def split: option.split)
next
  case False
  then obtain ic where ic: "chunk_heap s c = Some ic" by auto
  have ne: "d \<noteq> c" using d False by (auto simp: flb_input_chunk_safe_delete_def)
  obtain ok dropped s1 where s1: "flb_input_chunk_drop_task_route (ic_task ic) (Some n) s = ((ok, dropped), s1)"
    by (metis prod.exhaust_sel)
  have v1: "lview s1 = lview s" using lview_drop_route [of "ic_task ic" "Some n" s] s1 by simp
  have h1: "chunk_heap s1 = chunk_heap s"
    using s1 by (auto simp: flb_input_chunk_drop_task_route_def upd_task_def split: option.splits if_splits)
  have count: "chunk_heap (get_input_chunk_record_count (e_cio e) c s) d = chunk_heap s d" for s
    using ne by (simp add: get_input_chunk_record_count_def upd_chunk_def split: option.split prod.split)
  have out: "chunk_heap (upd_out m f s) = chunk_heap s" and upd: "chunk_heap (upd_chunk c g s) d = chunk_heap s d"
    for m f g and s :: "'a flb_config" using ne by (simp_all add: upd_out_def upd_chunk_def)
  have gone: "chunk_heap (snd (release_destroy e c s2)) d = chunk_heap s2 d" if "lview s2 = lview s1" for s2
    by (rule heap_release_destroy [OF _ ne]) (use that v1 L links_cong [of s2 s] in simp)
  show ?thesis
    unfolding release_turn_def ic option.case s1
    using h1 by (cases ok) (simp_all add: Let_def case_prod_beta lv count out upd gone)
qed

interpretation links_release: release_invariant e new links for e new
  by unfold_locales (rule links_release_turn)

text \<open>The creation of a chunk, and the choice of the chunk for some data.\<close>

lemma links_chunk_create:
  assumes run: "flb_input_chunk_create e n ty tag s = (a, s')" and L: "links s"
  shows "links s'" "a = Some c \<Longrightarrow> cview s' c = Some (None, False)"
proof -
  have new: "lview (upd_in n f (s\<lparr>chunk_heap := (chunk_heap s)(ic_next s \<mapsto> ic), ic_next := Suc (ic_next s)\<rparr>))
      = (tview s, (cview s)(ic_next s \<mapsto> (ic_task ic, ic_busy ic)), Suc (cnext s))" for f ic
    by (auto simp: lview_def upd_in_def fun_eq_iff)
  have n: "cnext s = ic_next s" for s :: "'a flb_config" by (simp add: lview_def)
  have up: "ic_next (upd_in n f s) = ic_next s" for f and s :: "'a flb_config" by (simp add: upd_in_def)
  have "links s' \<and> (a = Some c \<longrightarrow> cview s' c = Some (None, False))"
    using run L lok_new_chunk [of "tview s" "cview s" "cnext s" False] unfolding flb_input_chunk_create_def Let_def
    by (auto simp: links_view new n up split: option.splits prod.splits if_splits)
  then show "links s'" "a = Some c \<Longrightarrow> cview s' c = Some (None, False)" by blast+
qed

interpretation new_kept: release_invariant e new "\<lambda>s. links s \<and> chunk_heap s new = x" for e new x
  by unfold_locales (simp add: links_release_turn heap_release_turn)

lemma lview_lookup: "chunk_lookup e n i ty tag s = (r, s') \<Longrightarrow> lview s' = lview s"
  by (auto simp: chunk_lookup_def lv split: option.splits prod.splits)

lemma links_reuse:
  assumes L: "links s" and c: "chunk_heap s c = Some ic" and run: "chunk_reuse e c ic tag s = ((r, down), s')"
  shows "links s'" "r = Some a \<Longrightarrow> cview s' a = Some (None, False)"
proof -
  have "links s' \<and> (r = Some a \<longrightarrow> cview s' a = Some (None, False))"
  proof (cases "ic_busy ic")
    case True
    then show ?thesis using run L by (simp add: chunk_reuse_def)
  next
    case False
    have v: "cview s c = Some (None, False)" using view_not_busy [OF L c False] by blast
    have up: "lview (upd_chunk c (\<lambda>ic. ic\<lparr>ic_chunk := x\<rparr>) s) = lview s" for x by (simp add: lv)
    have L1: "links (upd_chunk c (\<lambda>ic. ic\<lparr>ic_chunk := x\<rparr>) s)" for x using links_cong [OF up] L by blast
    show ?thesis
      using run L v up L1 links_remove_chunk(2) [OF L1] False
      by (auto simp: chunk_reuse_def Let_def split: if_splits prod.splits)
  qed
  then show "links s'" "r = Some a \<Longrightarrow> cview s' a = Some (None, False)" by blast+
qed

lemma links_admit:
  assumes L: "links s" and a: "cview s a = Some (None, False)" and run: "chunk_admit e a b sz s = Some (r, s')"
  shows "links s'" "r = Some c \<Longrightarrow> cview s' c = Some (None, False)"
proof -
  obtain ic where ic: "chunk_heap s a = Some ic" using a by (auto simp: lview_def)
  have placed: "links s1 \<and> cview s1 a = Some (None, False)"
    if "flb_input_chunk_place_new_chunk e a sz s = Some (x, s1)" for x s1
  proof -
    have "links s1 \<and> chunk_heap s1 a = Some ic" by (rule new_kept.place [OF that]) (simp add: L ic)
    then show ?thesis using a ic by (simp add: lview_def)
  qed
  have "links s' \<and> (r = Some c \<longrightarrow> cview s' c = Some (None, False))"
    using run L a ic placed links_remove_chunk(1)
    by (fastforce simp: chunk_admit_def split: option.splits if_splits)
  then show "links s'" "r = Some c \<Longrightarrow> cview s' c = Some (None, False)" by blast+
qed

lemma links_chunk_get:
  assumes run: "input_chunk_get e n ty tag sz s = Some ((r, down), s')" and L: "links s"
  shows "links s'" "r = Some c \<Longrightarrow> cview s' c = Some (None, False)"
proof -
  let ?tag = "take FLB_INPUT_CHUNK_TAG_MAX tag"
  obtain i where i: "find_in s n = Some i" using run by (auto simp: input_chunk_get_def split: option.splits)
  obtain found s1 where s1: "chunk_lookup e n i ty ?tag s = (found, s1)" by fastforce
  have L1: "links s1" using links_cong [OF lview_lookup [OF s1]] L by simp
  obtain reused down1 s2 where s2: "(case found of None \<Rightarrow> Some ((None, False), s1)
      | Some a \<Rightarrow> (case chunk_heap s1 a of None \<Rightarrow> None | Some ic \<Rightarrow> Some (chunk_reuse e a ic ?tag s1)))
      = Some ((reused, down1), s2)" (is "?r = _")
  proof (cases ?r)
    case None
    then show thesis using run unfolding input_chunk_get_def i s1 Let_def option.case prod.case by simp
  qed auto
  have L2: "links s2 \<and> (reused = Some a \<longrightarrow> cview s2 a = Some (None, False))" for a
    using s2 L1 links_reuse [OF L1] by (fastforce split: option.splits)
  obtain x s3 where s3: "(case reused of Some a \<Rightarrow> (Some a, s2) | None \<Rightarrow> flb_input_chunk_create e n ty ?tag s2)
      = (x, s3)" by fastforce
  have L3: "links s3 \<and> (x = Some a \<longrightarrow> cview s3 a = Some (None, False))" for a
    using s3 L2 links_chunk_create [of e n ty ?tag s2 x s3] by (auto split: option.splits)
  have "(x = None \<and> r = None \<and> s' = s3) \<or> (\<exists>a. x = Some a \<and> chunk_admit e a (reused = None) sz s3 = Some (r, s'))"
    using run unfolding input_chunk_get_def i s1 Let_def option.case prod.case s2 s3
    by (auto split: option.splits)
  then show "links s'" "r = Some c \<Longrightarrow> cview s' c = Some (None, False)"
    using L3 links_admit [of s3 _ e "reused = None" sz r s'] by blast+
qed

lemma links_memrb_loop: "links s \<Longrightarrow> links (snd (memrb_loop e required cs released s))"
proof (induction cs arbitrary: released s)
  case (Cons c cs)
  have "links (snd (release_destroy e c s))" using links_release_destroy [OF Cons.prems] .
  then show ?case using Cons by (auto simp: Let_def case_prod_beta split: option.split)
qed simp

lemma lview_append_parts [lv]:
  "lview (append_unload cio n a s) = lview s" "lview (append_account cio a pre s) = lview s"
  by (simp_all add: append_unload_def append_account_def Let_def lv split: option.split)

lemma links_append_finish:
  assumes L: "links s" and a: "cview s a = Some (None, False)"
  shows "links (append_finish e n a down pre s)"
proof -
  have kept: "links s1" if "lview s1 = lview s" for s1 using that L links_cong by blast
  have gone: "links (snd (flb_input_chunk_destroy cio hf a True s1))" if "lview s1 = lview s" for cio hf s1
    by (rule links_remove_chunk [OF kept [OF that]]) (simp add: that a)
  show ?thesis
    using L
    by (auto simp: append_finish_def Let_def lv links_simps intro!: kept gone split: option.split)
qed

lemma append_write_links:
  assumes "append_write e ty k tag buf s ic = (ret, ic')"
  shows "ic_task ic' = ic_task ic" "ic_busy ic' = ic_busy ic"
  using assms
  by (auto simp: append_write_def Let_def flb_filter_do_def flb_input_chunk_write_def split: prod.splits if_splits)

lemma links_append_chunk:
  assumes L: "links s" and a: "chunk_heap s a = Some ic" "cview s a = Some (None, False)"
  shows "links (snd (append_chunk e n ty k tag buf a down ic s))"
proof -
  have set: "lview (upd_chunk a (\<lambda>_. ic') s) = lview s" if "ic_task ic' = ic_task ic" "ic_busy ic' = ic_busy ic" for ic'
    using that a(1) by (auto simp: lview_def upd_chunk_def fun_eq_iff)
  have kept: "links (upd_chunk a (\<lambda>_. ic') s)" if "ic_task ic' = ic_task ic" "ic_busy ic' = ic_busy ic" for ic'
    using links_cong [OF set [OF that]] L by blast
  have fin: "links (append_finish e n a d pre (upd_chunk a (\<lambda>_. ic') s))"
    if "ic_task ic' = ic_task ic" "ic_busy ic' = ic_busy ic" for ic' d pre
    by (rule links_append_finish [OF kept [OF that]]) (simp add: set [OF that] a)
  obtain up c where up: "(if \<not> cio_chunk_is_up (e_cio e) (ic_chunk ic) then cio_chunk_up_force (e_cio e) (ic_chunk ic)
      else (0, ic_chunk ic)) = (up, c)" by fastforce
  obtain ret ic' where w: "append_write e ty k tag buf s (ic\<lparr>ic_chunk := c\<rparr>) = (ret, ic')" by fastforce
  have "ic_task ic' = ic_task ic" "ic_busy ic' = ic_busy ic" using append_write_links [OF w] by simp_all
  note wrote = kept [OF this] fin [OF this]
  have brought: "links (upd_chunk a (\<lambda>_. ic\<lparr>ic_chunk := c\<rparr>) s)" by (rule kept) simp_all
  show ?thesis
    unfolding append_chunk_def Let_def up prod.case w using wrote brought by simp
qed

lemma links_append:
  assumes run: "input_chunk_append_raw e n ty k tag buf s = Some (r, s')" and L: "links s"
  shows "links s'"
proof -
  let ?sz = "of_nat (length buf) :: size_t"
  obtain i where i: "find_in s n = Some i" using run by (auto simp: input_chunk_append_raw_def split: option.splits)
  obtain x s1 where s1: "(if i_storage_type i = STORAGE_MEMRB \<and> flb_input_chunk_is_mem_overlimit i
      then memrb_input_chunk_release_space e i ?sz s else (0, s)) = (x, s1)" by fastforce
  have L1: "links s1"
    using s1 L links_memrb_loop [OF L, of e ?sz "i_chunks i" 0]
    by (auto simp: memrb_input_chunk_release_space_def case_prod_beta split: if_splits)
  consider "s' = s1" | y s2 where "input_chunk_get e n ty (append_tag i tag) ?sz s1 = Some ((None, y), s2)" "s' = s2"
    | a d s2 ic where "input_chunk_get e n ty (append_tag i tag) ?sz s1 = Some ((Some a, d), s2)" "chunk_heap s2 a = Some ic"
        "s' = snd (append_chunk e n ty k (append_tag i tag) buf a d ic s2)"
    using run unfolding input_chunk_append_raw_def i s1 Let_def option.case prod.case
    by (auto split: option.splits if_splits)
  then show ?thesis
  proof cases
    case 3
    show ?thesis unfolding 3(3) by (rule links_append_chunk [OF links_chunk_get(1) [OF 3(1) L1] 3(2)])
      (rule links_chunk_get(2) [OF 3(1) L1 refl])
  qed (use L1 links_chunk_get(1) in blast)+
qed

end
