(* ===== verification/Engine_Run.thy ===== *)
theory Engine_Run
  imports Chunk_Links
begin

text \<open>
  The engine as a state machine. A step is an event the engine's loop handles or something another part of
  the program does between two of them: the flush timer, the resumption of a flush coroutine, the return
  of a plugin's callback, a worker thread taking a task, the event a finished flush wrote, a retry timer or
  the frame timer, the cleanup of timers, the immediate retry at shutdown, an input appending data, the
  inputs changing their chunks in another way. Each step may see another environment: allocations and writes fail when they like.
\<close>

section \<open>Steps\<close>

text \<open>The engine before its first event: instances are set up, nothing is in progress.\<close>

definition engine_init :: "'c flb_config \<Rightarrow> bool" where
  "engine_init s \<longleftrightarrow>
     task_heap s = Map.empty \<and> retry_heap s = Map.empty
     \<and> task_map_ok s \<and> (\<forall>x \<in> set (task_map s). x = None)
     \<and> requests s = [] \<and> requests_wait s = [] \<and> sched_inv s \<and> sched_cfg_ok s
     \<and> distinct (map o_id (cf_outputs s))
     \<and> (\<forall>out \<in> set (cf_outputs s). 0 \<le> o_id out \<and> o_id out < 16384
          \<and> o_flush_list out = [] \<and> o_flush_list_destroy out = [] \<and> o_tp_queue out = [] \<and> o_ch_events out = []
          \<and> o_singleplex_queue out = \<lparr>pending = [], in_progress = []\<rparr>)
     \<and> (\<forall>c ic. chunk_heap s c = Some ic \<longrightarrow> c < ic_next s \<and> ic_task ic = None)
     \<and> (\<forall>i \<in> set (cf_inputs s). i_tasks i = [] \<and> distinct (i_routes_direct i) \<and> set (i_routes_direct i) \<subseteq> oids s)"

inductive engine_step :: "'c flb_config \<Rightarrow> 'c flb_config \<Rightarrow> bool" where
  flush: "flb_engine_flush e in_force s = Some (ret, s') \<Longrightarrow> engine_step s s'"
| dispatch: "flb_engine_dispatch e rid n s = Some (ret, s') \<Longrightarrow> engine_step s s'"
| resume: "flb_output_get_instance s n = Some out \<Longrightarrow> fl \<in> set (o_flush_list out) \<Longrightarrow> \<not> fl_started fl \<Longrightarrow>
     engine_step s (output_pre_cb_flush e n fl s)"
| plugin_return: "flb_output_get_instance s n = Some out \<Longrightarrow> fl \<in> set (o_flush_list out) \<Longrightarrow> fl_started fl \<Longrightarrow>
     ret \<in> {FLB_ERROR, FLB_OK, FLB_RETRY} \<Longrightarrow> engine_step s (flb_output_return e ret n fl s)"
| worker: "engine_step s (output_thread_take e n s)"
| output_event: "rand_ok e \<Longrightarrow> handle_output_events e n s = Some (ret, s') \<Longrightarrow> engine_step s s'"
| timer: "rand_ok e \<Longrightarrow> find_timer s a = Some t \<Longrightarrow> t_type t \<in> {TIMER_REQUEST, TIMER_FRAME} \<Longrightarrow>
     engine_step s (snd (flb_sched_event_handler tc now (engine_dispatch e) run ok (Ev_Timer a) s))"
| timer_cleanup: "engine_step s (snd (flb_sched_timer_cleanup s))"
| reschedule: "engine_step s (flb_engine_reschedule_retries e s)"
| append: "input_chunk_append_raw e n ty k tag buf s = Some (ret, s') \<Longrightarrow> engine_step s s'"
| ingest: "core s' = core s \<Longrightarrow> lview s' = lview s \<Longrightarrow> engine_step s s'"

inductive engine_reachable :: "'c flb_config \<Rightarrow> bool" where
  init: "engine_init s \<Longrightarrow> engine_reachable s"
| step: "engine_reachable s \<Longrightarrow> engine_step s s' \<Longrightarrow> engine_reachable s'"

inductive_cases engine_stepE: "engine_step s s'"

section \<open>The invariant holds in every reachable state\<close>

lemma init_inv:
  assumes "engine_init s"
  shows "inv {#} {#} s" "queues_ok s"
proof -
  have outs: "\<And>out. out \<in> set (cf_outputs s) \<Longrightarrow> out_pairs (task_map s) out = {#} \<and> out_ok s out"
    using assms by (simp add: engine_init_def out_pairs_def out_ok_def)
  have flight: "flight s = {#}"
  proof -
    have "sum_list (map (out_pairs (task_map s)) os) = {#}" if "set os \<subseteq> set (cf_outputs s)" for os
      using that outs by (induction os) auto
    then show ?thesis by (simp add: flight_def)
  qed
  have reqs: "reqs s = {#}" using assms by (simp add: engine_init_def reqs_def)
  show "inv {#} {#} s"
    using assms outs by (simp add: inv_defs engine_init_def flight reqs waiting_def oids_def)
  show "queues_ok s"
    using assms get_instance_Some(1) [of s]
    by (fastforce simp: queues_ok_def queue_ok_def queue_of_def engine_init_def split: option.split)
qed

lemma inv_coro_lists:
  "inv X Y (s\<lparr>timer_coro_list := l, timer_coro_list_drop := l'\<rparr>) = inv X Y s"
  by (simp add: inv_defs out_ok_def task_ok_def retry_ok_def flight_def waiting_def retry_pair_def [abs_def] reqs_def
      oids_def sched_inv_def sched_cfg_ok_def task_map_ok_def)

lemma cleanup_safe:
  assumes I: "inv {#} {#} s" and q: "queues_ok s" and s': "s' = snd (flb_sched_timer_cleanup s)"
  shows "inv {#} {#} s' \<and> queues_ok s'"
proof -
  obtain ts td l l' where shape: "s' = s\<lparr>timers := ts, timers_drop := td\<rparr>\<lparr>timer_coro_list := l, timer_coro_list_drop := l'\<rparr>"
    using cleanup_shape s' by blast
  have "sched_inv s'" using timer_cleanup_inv [OF invD(5) [OF I]] s' by simp
  then have S: "sched_inv (s\<lparr>timers := ts, timers_drop := td\<rparr>)" by (simp add: shape sched_inv_def)
  have "inv {#} {#} (s\<lparr>timers := ts, timers_drop := td\<rparr>)"
    by (rule inv_sched_same [OF I _ S]) (simp_all add: nosched_def reqs_def)
  then have "inv {#} {#} s'" by (simp only: shape inv_coro_lists)
  moreover have "queue_of s' = queue_of s" by (simp add: shape queue_of_def flb_output_get_instance_def fun_eq_iff)
  ultimately show ?thesis using q queues_ok_same by metis
qed

lemma reachable_safe:
  assumes "engine_reachable s"
  shows "inv {#} {#} s \<and> queues_ok s"
  using assms
proof (induction rule: engine_reachable.induct)
  case (init s)
  then show ?case using init_inv by blast
next
  case (step s s')
  then have I: "inv {#} {#} s" and q: "queues_ok s" by simp_all
  from \<open>engine_step s s'\<close> show ?case
  proof cases
    case (flush e in_force ret)
    then show ?thesis using engine_flush_safe [OF I q, of e in_force] by auto
  next
    case (dispatch e rid n ret)
    then show ?thesis using engine_dispatch_safe [OF I q, of e rid n] by auto
  next
    case (resume n out fl e)
    then show ?thesis using pre_cb_flush_safe [OF I resume(2,3), of e] queues_ok_same q by metis
  next
    case (plugin_return n out fl ret e)
    then show ?thesis using output_return_safe [OF I plugin_return(2,3,5), of e] queues_ok_same q by metis
  next
    case (worker e n)
    then show ?thesis using thread_take_safe [OF I, of e n] queues_ok_same q by metis
  next
    case (output_event e n ret)
    then show ?thesis using handle_events_safe [OF I q output_event(1), of n] by auto
  next
    case (timer e a t tc now run ok)
    show ?thesis by (rule timer_event_safe [OF I q timer(2-4)]) (rule timer(1))
  next
    case timer_cleanup
    then show ?thesis using cleanup_safe [OF I q] by simp
  next
    case (reschedule e)
    then show ?thesis using reschedule_retries_safe [OF I q, of e] by simp
  next
    case (append e n ty k tag buf ret)
    then show ?thesis using append_safe [OF append I] quiet_queues [OF _ q] by (simp add: quiet_inv)
  next
    case ingest
    then show ?thesis using I q inv_core [OF ingest(1)] queues_ok_core [OF ingest(1)] by simp
  qed
qed

lemmas reachable_inv = reachable_safe [THEN conjunct1] and reachable_queues = reachable_safe [THEN conjunct2]

lemma reachable_links:
  assumes "engine_reachable s"
  shows "links s"
  using assms
proof (induction rule: engine_reachable.induct)
  case (init s)
  then show ?case by (auto simp: engine_init_def links_def)
next
  case (step s s')
  note I = reachable_inv [OF step(1)] and q = reachable_queues [OF step(1)] and L = step.IH
  from \<open>engine_step s s'\<close> show ?case
  proof cases
    case (flush e in_force ret)
    then show ?thesis using links_flush [OF flush L I q] by simp
  next
    case (dispatch e rid n ret)
    then show ?thesis using links_dispatch [OF dispatch L I] by simp
  next
    case (output_event e n ret)
    then show ?thesis using links_output_events [OF output_event(2) L] by simp
  next
    case (timer e a t tc now run ok)
    then show ?thesis using links_timer [OF L timer(3,4)] by simp
  next
    case (append e n ty k tag buf ret)
    then show ?thesis using links_append [OF append L] by simp
  next
    case ingest
    then show ?thesis using links_cong [OF ingest(2)] L by simp
  qed (use L in \<open>simp_all add: links_simps links_reschedule_retries\<close>)
qed

section \<open>What the invariant says\<close>

text \<open>The tasks an output works on: in coroutines, posted to a worker, queued, or reported and not handled yet.\<close>

definition work :: "'c flb_config \<Rightarrow> flb_output \<Rightarrow> addr list" where
  "work s out =
     map fl_task (o_flush_list out) @ o_tp_queue out @ map eq_task (pending (o_singleplex_queue out))
     @ map (\<lambda>v. the (task_map s ! unat (FLB_TASK_ID (FLB_BITS_U64_LOW v)))) (o_ch_events out)"

lemma work_pairs:
  assumes "inv X Y s" and "out \<in> set (cf_outputs s)"
  shows "out_pairs (task_map s) out = mset (map (\<lambda>a. (a, o_id out)) (work s out))"
proof -
  have "event_target (task_map s) v = (the (task_map s ! unat (FLB_TASK_ID (FLB_BITS_U64_LOW v))), o_id out)"
    if "v \<in> set (o_ch_events out)" for v
    using invD(1) [OF assms(1)] assms(2) that by (simp add: wf_outs_def out_ok_def event_ok_def event_target_def)
  then have "map (event_target (task_map s)) (o_ch_events out) = map (\<lambda>a. (a, o_id out))
      (map (\<lambda>v. the (task_map s ! unat (FLB_TASK_ID (FLB_BITS_U64_LOW v)))) (o_ch_events out))"
    by simp
  then have "image_mset (event_target (task_map s)) (mset (o_ch_events out)) = mset (map (\<lambda>a. (a, o_id out))
      (map (\<lambda>v. the (task_map s ! unat (FLB_TASK_ID (FLB_BITS_U64_LOW v)))) (o_ch_events out)))"
    by (simp only: flip: mset_map)
  then show ?thesis by (simp add: out_pairs_def work_def comp_def)
qed

lemma get_instance_unique:
  assumes "wf_outs s" and "out \<in> set (cf_outputs s)"
  shows "flb_output_get_instance s (o_id out) = Some out"
proof -
  obtain x where x: "flb_output_get_instance s (o_id out) = Some x"
    using get_instance_iff [of s "o_id out"] assms(2) by (auto simp: oids_def)
  have "inj_on o_id (set (cf_outputs s))" using assms(1) by (simp add: wf_outs_def distinct_map)
  then have "x = out" using get_instance_Some(1,2) [OF x] assms(2) by (auto dest: inj_onD)
  then show ?thesis using x by simp
qed

lemma count_map_filter: "count (mset (map f xs)) y = length (filter (\<lambda>x. f x = y) xs)"
  by (induction xs) auto

lemma distinct_if_count: "(\<And>x. count (mset xs) x \<le> 1) \<Longrightarrow> distinct xs"
proof (induction xs)
  case (Cons x xs)
  have "count (mset xs) y \<le> 1" for y by (rule le_trans [OF _ Cons.prems [of y]]) simp
  moreover have "count (mset xs) x = 0" using Cons.prems [of x] by simp
  ultimately show ?case using Cons.IH by (simp add: count_eq_zero_iff)
qed simp

lemma work_refs:
  assumes I: "inv X Y s"
  shows "length (filter (\<lambda>out. a \<in> set (work s out)) (cf_outputs s)) \<le> refs (flight s) a"
proof -
  have one: "0 < refs (out_pairs (task_map s) out) a" if "out \<in> set (cf_outputs s)" "a \<in> set (work s out)" for out
    using that refs_pos [of "(a, o_id out)" "out_pairs (task_map s) out"] by (simp add: work_pairs [OF I])
  have "length (filter (\<lambda>out. a \<in> set (work s out)) os) \<le> refs (sum_list (map (out_pairs (task_map s)) os)) a"
    if "set os \<subseteq> set (cf_outputs s)" for os
    using that
  proof (induction os)
    case (Cons out os)
    then show ?case using one [of out] by auto
  qed simp
  then show ?thesis by (simp add: flight_def)
qed

lemma work_in_flight:
  assumes "inv X Y s" and "out \<in> set (cf_outputs s)" and "a \<in> set (work s out)"
  shows "(a, o_id out) \<in># flight s"
proof -
  have "(a, o_id out) \<in># out_pairs (task_map s) out" using assms(3) by (simp add: work_pairs [OF assms(1,2)])
  then show ?thesis
    using flight_split [OF invD(1) [OF assms(1)] get_instance_unique [OF invD(1) [OF assms(1)] assms(2)]] by simp
qed

text \<open>A running engine, step by step: a flush, the callback, its answer, and the handling of the answer.\<close>

definition sample_flushed :: "cstring flb_config" where
  "sample_flushed = snd (the (flb_engine_flush sample_env None sample_config))"

definition sample_flush :: flb_output_flush where
  "sample_flush = \<lparr>fl_addr = 11, fl_id = 0, fl_task = 10, fl_evc = \<lparr>evc_type = 0, evc_tag = ''t'',
     evc_data = Some ''abc'', evc_total_events = 3\<rparr>, fl_started = False\<rparr>"

definition sample_started :: "cstring flb_config" where
  "sample_started = output_pre_cb_flush sample_env 0 sample_flush sample_flushed"

definition sample_reported :: "int \<Rightarrow> cstring flb_config" where
  "sample_reported ret = flb_output_return sample_env ret 0 (sample_flush\<lparr>fl_started := True\<rparr>) sample_started"

definition sample_retry :: "cstring flb_config" where
  "sample_retry = snd (the (handle_output_events sample_env 0 (sample_reported FLB_RETRY)))"

lemma sample_init: "engine_init sample_config"
  by (simp add: engine_init_def sample_defs task_map_ok_def sched_inv_def sched_cfg_ok_def oids_def)

lemma sample_rand: "rand_ok sample_env"
  by (simp add: rand_ok_def sample_env_def)

lemma sample_flushed_reachable: "engine_reachable sample_flushed"
proof -
  have r: "engine_reachable sample_config" using sample_init by (rule engine_reachable.init)
  obtain s' where "flb_engine_flush sample_env None sample_config = Some (0, s')"
    using engine_flush_safe [OF reachable_inv [OF r] reachable_queues [OF r]] by blast
  then show ?thesis
    using engine_reachable.step [OF r engine_step.flush, of sample_env None 0] by (simp add: sample_flushed_def)
qed

lemma sample_flushes:
  "map (\<lambda>out. (o_id out, o_flush_list out)) (cf_outputs sample_flushed) = [(0, [sample_flush])]"
  "map (\<lambda>out. (o_id out, o_flush_list out)) (cf_outputs sample_started) = [(0, [sample_flush\<lparr>fl_started := True\<rparr>])]"
  by code_simp+

lemma one_instance:
  assumes "map (\<lambda>out. (o_id out, f out)) (cf_outputs s) = [(n, x)]"
  shows "\<exists>out. flb_output_get_instance s n = Some out \<and> cf_outputs s = [out] \<and> o_id out = n \<and> f out = x"
  using assms by (auto simp: flb_output_get_instance_def map_eq_Cons_conv)

lemma sample_started_reachable: "engine_reachable sample_started"
  using one_instance [OF sample_flushes(1)] engine_reachable.step [OF sample_flushed_reachable engine_step.resume]
  by (auto simp: sample_started_def sample_flush_def)

lemma sample_reported_reachable:
  assumes "ret \<in> {FLB_ERROR, FLB_OK, FLB_RETRY}"
  shows "engine_reachable (sample_reported ret)"
  using one_instance [OF sample_flushes(2)] engine_reachable.step [OF sample_started_reachable engine_step.plugin_return] assms
  by (auto simp: sample_reported_def)

lemma sample_retry_reachable: "engine_reachable sample_retry"
proof -
  have r: "engine_reachable (sample_reported FLB_RETRY)" using sample_reported_reachable by simp
  obtain x s' where "handle_output_events sample_env 0 (sample_reported FLB_RETRY) = Some (x, s')"
    using handle_events_safe [OF reachable_inv [OF r] reachable_queues [OF r] sample_rand] by blast
  then show ?thesis
    using engine_reachable.step [OF r engine_step.output_event [OF sample_rand]] by (simp add: sample_retry_def)
qed

lemma sample_events:
  "map (\<lambda>out. (o_id out, o_ch_events out)) (cf_outputs (sample_reported FLB_RETRY)) = [(0, [9126805504])]"
  by code_simp

lemma sample_requests: "map rq_data (requests sample_retry) = [12]"
  by code_simp

section \<open>Safety of the engine\<close>

text \<open>
  C2: Every value in the event channel of an output is the report of a flush: it decodes to a task that
  is still there, found in the slot of the task map the value names, that still counts the flush as a user, and to the
  output whose channel it is.
\<close>

theorem engine_events_decode:
  assumes "engine_reachable s" and "out \<in> set (cf_outputs s)" and "v \<in> set (o_ch_events out)"
  shows "\<exists>a t. unat (FLB_TASK_ID (FLB_BITS_U64_LOW v)) < length (task_map s)
    \<and> task_map s ! unat (FLB_TASK_ID (FLB_BITS_U64_LOW v)) = Some a \<and> task_heap s a = Some t
    \<and> task_users t > 0
    \<and> flb_output_get_instance s (uint (FLB_TASK_OUT (FLB_BITS_U64_LOW v))) = Some out
    \<and> uint (FLB_TASK_RET (FLB_BITS_U64_LOW v)) \<in> {FLB_ERROR, FLB_OK, FLB_RETRY}
    \<and> FLB_BITS_U64_HIGH v = FLB_ENGINE_TASK"
proof -
  note I = reachable_inv [OF assms(1)]
  have ok: "event_ok (task_map s) out v" using invD(1) [OF I] assms(2,3) by (simp add: wf_outs_def out_ok_def)
  obtain a where a: "task_map s ! unat (FLB_TASK_ID (FLB_BITS_U64_LOW v)) = Some a"
    "event_target (task_map s) v = (a, o_id out)" "unat (FLB_TASK_ID (FLB_BITS_U64_LOW v)) < length (task_map s)"
    by (rule decode_event [OF ok refl])
  have f: "(a, o_id out) \<in># flight s" using event_in_flight [OF assms(2,3)] a(2) by simp
  then obtain t where t: "task_heap s a = Some t" using wf_flightD(1) [OF invD(4) [OF I], of "(a, o_id out)"] by auto
  have "0 < task_users t"
    using wf_flightD(2) [OF invD(4) [OF I] t] refs_pos [OF f] by simp
  then show ?thesis
    using a t ok get_instance_unique [OF invD(1) [OF I] assms(2)] by (auto simp: event_ok_def)
qed

lemma engine_events_decode_witness:
  "\<exists>a t. unat (FLB_TASK_ID (FLB_BITS_U64_LOW 9126805504)) < length (task_map (sample_reported FLB_RETRY))
     \<and> task_map (sample_reported FLB_RETRY) ! unat (FLB_TASK_ID (FLB_BITS_U64_LOW 9126805504)) = Some a
     \<and> task_heap (sample_reported FLB_RETRY) a = Some t \<and> task_users t > 0"
proof -
  obtain out where "out \<in> set (cf_outputs (sample_reported FLB_RETRY))" "9126805504 \<in> set (o_ch_events out)"
    using one_instance [OF sample_events] by auto
  then show ?thesis using engine_events_decode [OF sample_reported_reachable, of FLB_RETRY out 9126805504] by auto
qed



text \<open>
  C4: A retry the scheduler holds, due now or waiting, belongs to a task that is still there and still
  lists it, and to an output of the configuration; the output does no other work on that task, and no
  second request stands for the same task and output.
\<close>

theorem engine_requests_live:
  assumes "engine_reachable s" and "q \<in> set (requests s @ requests_wait s)"
  shows "\<exists>rt t out. retry_heap s (rq_data q) = Some rt \<and> task_heap s (rt_parent rt) = Some t
    \<and> rq_data q \<in> set (task_retries t) \<and> flb_output_get_instance s (rt_o_ins rt) = Some out
    \<and> rt_parent rt \<notin> set (work s out)
    \<and> length (filter (\<lambda>p. rq_data p = rq_data q) (requests s @ requests_wait s)) = 1"
proof -
  note I = reachable_inv [OF assms(1)]
  let ?r = "rq_data q"
  have mem: "?r \<in># reqs s" using assms(2) by (auto simp: reqs_def)
  obtain rt where rt: "retry_heap s ?r = Some rt" using inv_discount(3) [OF I mem] by auto
  have rok: "retry_ok s ?r rt" using invD(2) [OF I] rt by (simp add: wf_tasks_def)
  then obtain t where t: "task_heap s (rt_parent rt) = Some t" "?r \<in> set (task_retries t)" by (auto simp: retry_ok_def)
  obtain out where out: "flb_output_get_instance s (rt_o_ins rt) = Some out"
    using rok get_instance_iff [of s] by (auto simp: retry_ok_def)
  have "(rt_parent rt, rt_o_ins rt) \<notin># flight s"
    using inv_discount(2) [OF I mem] rt by (simp add: retry_pair_def)
  then have "rt_parent rt \<notin> set (work s out)"
    using work_in_flight [OF I get_instance_Some(1) [OF out]] get_instance_Some(2) [OF out] by auto
  moreover have "length (filter (\<lambda>p. rq_data p = ?r) (requests s @ requests_wait s)) = count (reqs s) ?r"
    unfolding reqs_def by (rule count_map_filter [symmetric])
  ultimately show ?thesis using rt t out reqs_once [OF I, of ?r] mem by (auto simp flip: count_greater_zero_iff)
qed

lemma engine_requests_live_witness:
  "\<exists>rt t out. retry_heap sample_retry 12 = Some rt \<and> task_heap sample_retry (rt_parent rt) = Some t
     \<and> 12 \<in> set (task_retries t) \<and> flb_output_get_instance sample_retry (rt_o_ins rt) = Some out
     \<and> rt_parent rt \<notin> set (work sample_retry out)"
proof -
  obtain q where "requests sample_retry = [q]" "rq_data q = 12"
    using sample_requests by (auto simp: map_eq_Cons_conv)
  then show ?thesis using engine_requests_live [OF sample_retry_reachable, of q] by auto
qed

text \<open>
  C3: An output never works twice at a time on a task: the coroutines, the tasks posted to its workers,
  its queue and its unread events name different tasks, all of them alive, and every task counts at
  least as many users as outputs work on it.
\<close>

theorem engine_work_counted:
  assumes "engine_reachable s" and "out \<in> set (cf_outputs s)"
  shows "distinct (work s out) \<and> set (work s out) \<subseteq> dom (task_heap s)
    \<and> (\<forall>a t. task_heap s a = Some t \<longrightarrow>
         length (filter (\<lambda>out. a \<in> set (work s out)) (cf_outputs s)) \<le> nat (task_users t))"
proof (intro conjI allI impI)
  note I = reachable_inv [OF assms(1)] and F = wf_flightD [OF invD(4) [OF reachable_inv [OF assms(1)]]]
  have sub: "mset (map (\<lambda>a. (a, o_id out)) (work s out)) \<subseteq># flight s"
    using flight_split [OF invD(1) [OF I] get_instance_unique [OF invD(1) [OF I] assms(2)]] work_pairs [OF I assms(2)]
    by simp
  have "count (mset (map (\<lambda>a. (a, o_id out)) (work s out))) p \<le> 1" for p
    using mset_subset_eq_count [OF sub, of p] F(4) [of p] by simp
  then have "distinct (map (\<lambda>a. (a, o_id out)) (work s out))" by (rule distinct_if_count)
  then show "distinct (work s out)" by (simp add: distinct_map)
  show "set (work s out) \<subseteq> dom (task_heap s)"
    using work_in_flight [OF I assms(2)] F(1) by fastforce
  show "length (filter (\<lambda>out. a \<in> set (work s out)) (cf_outputs s)) \<le> nat (task_users t)"
    if "task_heap s a = Some t" for a t
    using work_refs [OF I, of a] F(2) [OF that] by simp
qed

lemma engine_work_counted_witness:
  "list_all (\<lambda>out. distinct (work sample_started out) \<and> set (work sample_started out) \<subseteq> dom (task_heap sample_started))
     (cf_outputs sample_started)
   \<and> map (\<lambda>out. length (o_flush_list out)) (cf_outputs sample_started) = [1]"
  using engine_work_counted [OF sample_started_reachable] one_instance [OF sample_flushes(2)]
  by (auto simp: list_all_iff)

text \<open>Tasks have different ids, and every id fits in the 14 bits of an event value.\<close>

theorem engine_task_ids:
  assumes "engine_reachable s" and "task_heap s a = Some t" and "task_heap s b = Some u"
  shows "0 \<le> task_id t \<and> task_id t < 16384 \<and> (task_id t = task_id u \<longleftrightarrow> a = b)
    \<and> task_map s ! nat (task_id t) = Some a"
proof -
  have ok: "task_ok s a t" "task_ok s b u" "task_map_ok s"
    using invD(2) [OF reachable_inv [OF assms(1)]] assms(2,3) by (simp_all add: wf_tasks_def)
  then have "task_id t < 16384" by (auto simp: task_ok_def task_map_ok_def)
  then show ?thesis using ok assms(2,3) by (auto simp: task_ok_def)
qed

lemma sample_tasks: "map_option task_id (task_heap sample_started 10) = Some 0"
  by code_simp

lemma engine_task_ids_witness:
  "\<exists>t. task_heap sample_started 10 = Some t \<and> 0 \<le> task_id t \<and> task_map sample_started ! nat (task_id t) = Some 10"
  using sample_tasks engine_task_ids [OF sample_started_reachable, of 10 _ 10] by fastforce



section \<open>Retries\<close>

lemma retry_count_eq:
  "task_heap s a = Some t \<Longrightarrow> flb_task_retry_count a n s =
     (case retry_for s n (task_retries t) of None \<Rightarrow> -1
      | Some r \<Rightarrow> (case retry_heap s r of None \<Rightarrow> -1 | Some rt \<Rightarrow> rt_attempts rt))"
  by (simp add: flb_task_retry_count_def)

lemma retry_count_core:
  assumes "core s' = core s"
  shows "flb_task_retry_count a n s' = flb_task_retry_count a n s"
  unfolding flb_task_retry_count_def retry_for_def coreD(8,9) [OF assms] ..

lemma find_snoc: "List.find P xs = None \<Longrightarrow> List.find P (xs @ [x]) = (if P x then Some x else None)"
  by (induction xs) (auto split: if_splits)

lemma retry_for_new:
  assumes "retry_heap s' = (retry_heap s)(b \<mapsto> rt)" and "b \<notin> set rs" and "rt_o_ins rt = n" and "retry_for s n rs = None"
  shows "retry_for s' n (rs @ [b]) = Some b"
proof -
  have "List.find (\<lambda>r. case retry_heap s' r of None \<Rightarrow> False | Some rt \<Rightarrow> rt_o_ins rt = n) rs = None"
    using assms(2,4) by (auto simp: retry_for_def find_None_iff assms(1))
  from find_snoc [OF this, of b] show ?thesis using assms(3) by (simp add: retry_for_def assms(1))
qed

lemma retry_unique:
  assumes "inv X Y s" and "task_heap s a = Some t" and "r \<in> set (task_retries t)" and "r' \<in> set (task_retries t)"
    and "retry_heap s r = Some rt" and "retry_heap s r' = Some rt'" and "rt_o_ins rt = rt_o_ins rt'"
  shows "r = r'"
proof -
  have "task_ok s a t" and inj: "inj_on (retry_pair s) (dom (retry_heap s))"
    using invD(2) [OF assms(1)] assms(2) by (simp_all add: wf_tasks_def)
  then have "rt_parent rt = a" "rt_parent rt' = a" using assms(3-6) by (auto simp: task_ok_def)
  then have "retry_pair s r = retry_pair s r'" using assms(5-7) by (simp add: retry_pair_def)
  then show ?thesis using inj assms(5,6) by (auto dest: inj_onD)
qed

text \<open>
  C6: The retry limit of an output: the first failed flush of a task gives a retry context with one
  attempt, every further one counts an attempt, and when as many attempts as the limit have been made
  the context is removed and no retry is granted. A negative limit is no limit. Without memory for the
  context there is no retry.
\<close>

theorem task_retry_limit:
  assumes "engine_reachable s" and "task_heap s a = Some t" and "flb_task_retry_create e a ins s = (res, s')"
  shows "case retry_for s (o_id ins) (task_retries t) of
      None \<Rightarrow>
        if e_alloc e A_retry (sched_brk s) then res \<noteq> None \<and> flb_task_retry_count a (o_id ins) s' = 1
        else res = None \<and> flb_task_retry_count a (o_id ins) s' = -1
    | Some r \<Rightarrow>
        if 0 \<le> o_retry_limit ins \<and> o_retry_limit ins \<le> flb_task_retry_count a (o_id ins) s
        then res = None \<and> flb_task_retry_count a (o_id ins) s' = -1 \<and> retry_heap s' r = None
        else res = Some r \<and> flb_task_retry_count a (o_id ins) s' = flb_task_retry_count a (o_id ins) s + 1"
proof (cases "retry_for s (o_id ins) (task_retries t)")
  case None
  note I = reachable_inv [OF assms(1)]
  let ?rt = "\<lparr>rt_attempts = 1, rt_o_ins = o_id ins, rt_parent = a\<rparr>"
  have none: "retry_heap s (sched_brk s) = None"
    using invD(2) [OF I] by (cases "retry_heap s (sched_brk s)") (auto simp: wf_tasks_def retry_ok_def)
  have fresh: "sched_brk s \<notin> set (task_retries t)"
    using invD(2) [OF I] assms(2) none by (fastforce simp: wf_tasks_def task_ok_def)
  show ?thesis
  proof (cases "e_alloc e A_retry (sched_brk s)")
    case True
    let ?s = "upd_task a (\<lambda>t. t\<lparr>task_retries := task_retries t @ [sched_brk s]\<rparr>)
        (s\<lparr>retry_heap := (retry_heap s)(sched_brk s \<mapsto> ?rt), sched_brk := sched_brk s + 1\<rparr>)"
    have s': "s' = retry_chunk_down e a ?s" and res: "res = Some (sched_brk s)"
      using assms(2,3) None True by (auto simp: flb_task_retry_create_def Let_def)
    have "retry_for ?s (o_id ins) (task_retries t @ [sched_brk s]) = Some (sched_brk s)"
      by (rule retry_for_new [where rt = ?rt, OF _ fresh _ None]) simp_all
    then have "flb_task_retry_count a (o_id ins) ?s = 1" using assms(2) by (simp add: retry_count_eq)
    then show ?thesis using True None res s' retry_count_core [OF core_retry_chunk_down, of a "o_id ins" e a ?s] by simp
  next
    case False
    then show ?thesis
      using assms(2,3) None by (auto simp: flb_task_retry_create_def retry_count_eq)
  qed
next
  case (Some r)
  note I = reachable_inv [OF assms(1)]
  obtain rt where rt: "r \<in> set (task_retries t)" "retry_heap s r = Some rt" "rt_o_ins rt = o_id ins"
    using retry_for_Some [OF Some] .
  have ok: "task_ok s a t" using invD(2) [OF I] assms(2) by (simp add: wf_tasks_def)
  have parent: "rt_parent rt = a" using ok rt by (auto simp: task_ok_def)
  have c: "flb_task_retry_count a (o_id ins) s = rt_attempts rt" using Some rt assms(2) by (simp add: retry_count_eq)
  show ?thesis
  proof (cases "0 \<le> o_retry_limit ins \<and> o_retry_limit ins \<le> rt_attempts rt")
    case True
    then have s': "s' = flb_task_retry_destroy r s" and res: "res = None"
      using assms(2,3) Some rt by (auto simp: flb_task_retry_create_def)
    note D = retry_destroy_fields [OF invD(5) [OF I] rt(2) s']
    let ?rs = "filter (\<lambda>x. x \<noteq> r) (task_retries t)"
    have t': "task_heap s' a = Some (t\<lparr>task_retries := ?rs\<rparr>)" using D(2) parent assms(2) by simp
    have "retry_for s' (o_id ins) ?rs = None"
    proof (rule ccontr)
      assume "retry_for s' (o_id ins) ?rs \<noteq> None"
      then obtain r' where "retry_for s' (o_id ins) ?rs = Some r'" by auto
      then obtain rt' where "r' \<in> set ?rs" "retry_heap s' r' = Some rt'" "rt_o_ins rt' = o_id ins" by (rule retry_for_Some)
      then show False
        using retry_unique [OF I assms(2) rt(1) _ rt(2), of r' rt'] rt(3) D(1) by auto
    qed
    then show ?thesis using True Some c res t' D(1) by (simp add: retry_count_eq)
  next
    case False
    let ?s = "upd_retry r (\<lambda>rt. rt\<lparr>rt_attempts := rt_attempts rt + 1\<rparr>) s"
    have s': "s' = retry_chunk_down e a ?s" and res: "res = Some r"
      using assms(2,3) Some rt False by (auto simp: flb_task_retry_create_def)
    have "retry_for ?s (o_id ins) (task_retries t) = retry_for s (o_id ins) (task_retries t)"
      by (simp add: retry_for_def upd_retry_def)
        (rule arg_cong [where f = "\<lambda>P. List.find P (task_retries t)"], use rt(2) in \<open>auto simp: fun_eq_iff split: option.split\<close>)
    then have "flb_task_retry_count a (o_id ins) ?s = rt_attempts rt + 1"
      using Some rt(2) assms(2) by (simp add: flb_task_retry_count_def upd_retry_def)
    then show ?thesis using False Some c res s' retry_count_core [OF core_retry_chunk_down, of a "o_id ins" e a ?s] by simp
  qed
qed

lemma sample_no_retries: "map_option task_retries (task_heap sample_started 10) = Some []"
  by code_simp

lemma task_retry_limit_witness:
  "flb_task_retry_count 10 0 (snd (flb_task_retry_create sample_env 10 sample_output sample_started)) = 1"
proof -
  obtain t where t: "task_heap sample_started 10 = Some t" "task_retries t = []" using sample_no_retries by auto
  show ?thesis
    using task_retry_limit [OF sample_started_reachable t(1), of sample_env sample_output
        "fst (flb_task_retry_create sample_env 10 sample_output sample_started)"
        "snd (flb_task_retry_create sample_env 10 sample_output sample_started)"] t(2)
    by (simp add: retry_for_def sample_env_def sample_output_def)
qed

section \<open>Tasks end\<close>

lemma retry_clean_last:
  assumes I: "inv X {#} s" and t: "task_heap s a = Some t"
    and last: "list_all (\<lambda>r. map_option rt_o_ins (retry_heap s r) = Some n) (task_retries t)"
    and s': "s' = snd (flb_task_retry_clean a n s)"
  shows "task_heap s' a = Some (t\<lparr>task_retries := []\<rparr>)" "task_map s' = task_map s"
    "\<And>r. r \<in> set (task_retries t) \<Longrightarrow> retry_heap s' r = None"
proof -
  have ok: "task_ok s a t" using invD(2) [OF I] t by (simp add: wf_tasks_def)
  then have live: "\<exists>rt. retry_heap s r = Some rt \<and> rt_parent rt = a" if "r \<in> set (task_retries t)" for r
    using that by (simp add: task_ok_def)
  have ins: "rt_o_ins rt = n" if "r \<in> set (task_retries t)" "retry_heap s r = Some rt" for r rt
    using last that by (auto simp: list_all_iff)
  have "task_heap s' a = Some (t\<lparr>task_retries := []\<rparr>) \<and> task_map s' = task_map s
    \<and> (\<forall>r \<in> set (task_retries t). retry_heap s' r = None)"
  proof (cases "retry_for s n (task_retries t)")
    case None
    have "task_retries t = []"
    proof (rule ccontr)
      assume "task_retries t \<noteq> []"
      then obtain r where r: "r \<in> set (task_retries t)" by (cases "task_retries t") auto
      then show False using live [OF r] ins [OF r] retry_for_None [OF None r] by auto
    qed
    then show ?thesis using None t by (simp add: s' flb_task_retry_clean_def)
  next
    case (Some r)
    obtain rt where rt: "r \<in> set (task_retries t)" "retry_heap s r = Some rt" "rt_o_ins rt = n"
      using retry_for_Some [OF Some] .
    have only: "r' = r" if "r' \<in> set (task_retries t)" for r'
      using live [OF that] ins [OF that] retry_unique [OF I t rt(1) that rt(2)] rt(3) by auto
    have d: "s' = flb_task_retry_destroy r s" using Some t by (simp add: s' flb_task_retry_clean_def)
    note D = retry_destroy_fields [OF invD(5) [OF I] rt(2) d]
    have "rt_parent rt = a" using live [OF rt(1)] rt(2) by simp
    moreover have "filter (\<lambda>x. x \<noteq> r) (task_retries t) = []" using only by (auto simp: filter_empty_conv)
    ultimately show ?thesis using D(1-3) t only by auto
  qed
  then show "task_heap s' a = Some (t\<lparr>task_retries := []\<rparr>)" "task_map s' = task_map s"
    "\<And>r. r \<in> set (task_retries t) \<Longrightarrow> retry_heap s' r = None" by blast+
qed

lemma task_finished_last:
  assumes I: "inv (add_mset (a, n) X) {#} s" and t: "task_heap s a = Some t" "task_users t = 1"
    and last: "list_all (\<lambda>r. map_option rt_o_ins (retry_heap s r) = Some n) (task_retries t)"
    and s': "s' = task_finished e a n s"
  shows "task_heap s' a = None \<and> task_map s' = (task_map s)[nat (task_id t) := None]
    \<and> (\<forall>r \<in> set (task_retries t). retry_heap s' r = None)"
proof -
  let ?s1 = "snd (flb_task_retry_clean a n s)"
  let ?s2 = "flb_task_users_dec e a False ?s1"
  note C = retry_clean_last [OF I t(1) last refl]
  have I1: "inv (add_mset (a, n) X) {#} ?s1" using inv_retry_clean [OF I] held_free [OF I] by simp
  have I2: "inv X {#} ?s2" using inv_users_dec [OF I1] .
  have t2: "task_heap ?s2 a = Some (t\<lparr>task_retries := [], task_users := 0\<rparr>)"
    using C(1) t(2) by (simp add: flb_task_users_dec_def)
  have "s' = flb_task_destroy e a True ?s2"
    using t2 by (simp add: s' task_finished_def users_dec_True flb_task_users_release_def)
  from task_destroy_fields(1-3) [OF invD(5) [OF I2] t2 _ _ this]
  have D: "task_heap s' = (task_heap ?s2)(a := None)" "retry_heap s' = retry_heap ?s2"
    "task_map s' = (task_map ?s2)[nat (task_id t) := None]"
    by (simp_all add: restrict_map_def fun_eq_iff)
  show ?thesis using D C(2,3) by (simp add: users_dec_frame flb_task_users_dec_def)
qed


lemma sample_ok:
  "map (\<lambda>out. (o_id out, (o_ch_events out, o_flags out))) (cf_outputs (sample_reported FLB_OK)) = [(0, ([8858370048], 0))]"
  "map_option (\<lambda>t. (task_id t, task_users t, task_retries t)) (task_heap (sample_reported FLB_OK) 10) = Some (0, 1, [])"
  "task_map (sample_reported FLB_OK) ! 0 = Some 10"
  by code_simp+

lemma sample_ok_value:
  "uint (FLB_TASK_RET (FLB_BITS_U64_LOW 8858370048)) = FLB_OK" "unat (FLB_TASK_ID (FLB_BITS_U64_LOW 8858370048)) = 0"
  by code_simp+




end
