(* ===== verification/Chunk_Life.thy ===== *)
theory Chunk_Life
  imports Engine_Run
begin

text \<open>
  What happens to the data of a chunk: the routes and the header of a new chunk, the pointers between chunks and
  tasks in a running engine, what making room for new data may destroy, and the number of records a chunk
  counts.
\<close>

section \<open>Making room\<close>

text \<open>The users of a task, its chunk and its routes.\<close>

definition tuse :: "'c flb_config \<Rightarrow> addr \<Rightarrow> (int \<times> addr option \<times> flb_task_route list) option" where
  "tuse s a = map_option (\<lambda>t. (task_users t, task_ic t, task_routes t)) (task_heap s a)"

lemma tuse_cong: "task_heap s' = task_heap s \<Longrightarrow> tuse s' = tuse s"
  by (simp add: tuse_def fun_eq_iff)

lemma tuse_retry_destroy: "tuse (flb_task_retry_destroy r s) = tuse s"
proof (cases "retry_heap s r")
  case (Some rt)
  have "task_heap (snd (flb_sched_request_invalidate r s)) = task_heap s"
    by (simp add: flb_sched_request_invalidate_def flb_sched_request_destroy_def flb_sched_timer_invalidate_def
        flb_sched_timer_cb_disable_def timer_upd_def timer_del_def request_del_def Let_def split: option.split)
  then show ?thesis
    using Some by (auto simp: flb_task_retry_destroy_def Let_def tuse_def upd_task_def fun_eq_iff option.map_comp comp_def)
qed (simp add: flb_task_retry_destroy_def)

lemma tuse_frame:
  "tuse (upd_in n f s) = tuse s" "tuse (upd_out n g s) = tuse s" "tuse (upd_chunk c h s) = tuse s"
  "tuse (map_free_task_id k s) = tuse s" "tuse (snd (flb_input_chunk_set_limits cio n s)) = tuse s"
  "tuse (get_input_chunk_record_count cio c s) = tuse s"
  by (simp_all add: tuse_def upd_in_def upd_out_def upd_chunk_def map_free_task_id_def flb_input_chunk_set_limits_def
      get_input_chunk_record_count_def Let_def fun_eq_iff split: option.split prod.split)

lemma tuse_chunk_destroy: "tuse (snd (flb_input_chunk_destroy cio hf c del s)) = tuse s"
proof -
  have "tuse (chunk_release hf c ic tag del s) = tuse s" "tuse (chunk_uncount cio ic s) = tuse s"
    "tuse (snd (flb_input_chunk_set_up cio c s)) = tuse s" for ic tag and s :: "'a flb_config"
    by (simp_all add: tuse_def chunk_release_def chunk_uncount_def flb_input_chunk_set_up_def upd_in_def upd_chunk_def
        fun_eq_iff split: option.split prod.split)
  then show ?thesis by (simp add: flb_input_chunk_destroy_def Let_def split: option.split)
qed

lemma tuse_task_destroy:
  assumes "a \<noteq> b"
  shows "tuse (flb_task_destroy e b del s) a = tuse s a"
proof -
  have retries: "tuse (fold flb_task_retry_destroy rs s) = tuse s" for rs and s :: "'a flb_config"
    by (induction rs arbitrary: s) (simp_all add: tuse_retry_destroy)
  have upd: "tuse (upd_task b f s) a = tuse s a" and gone: "tuse (s\<lparr>task_heap := (task_heap s)(b := None)\<rparr>) a = tuse s a"
    for f and s :: "'a flb_config" using assms by (simp_all add: tuse_def upd_task_def)
  show ?thesis
    by (simp add: flb_task_destroy_def Let_def gone upd retries tuse_frame tuse_chunk_destroy split: option.split)
qed

text \<open>A task with users, its chunk, and the outputs for which its route is active.\<close>

definition in_use :: "addr \<Rightarrow> addr \<Rightarrow> int \<Rightarrow> int set \<Rightarrow> 'c flb_config \<Rightarrow> bool" where
  "in_use a c k A s \<longleftrightarrow>
     links s \<and> (\<exists>t. task_heap s a = Some t \<and> task_users t = k \<and> task_ic t = Some c
        \<and> (\<forall>n \<in> A. flb_task_get_route_status t n = ROUTE_ACTIVE))"

lemma in_use_tuse: "links s' \<Longrightarrow> tuse s' a = tuse s a \<Longrightarrow> in_use a c k A s \<Longrightarrow> in_use a c k A s'"
  by (auto simp: in_use_def tuse_def flb_task_get_route_status_def)

lemma find_set_route_status:
  "m \<noteq> n \<Longrightarrow> map_option tr_status (List.find (\<lambda>r. tr_out r = m) (set_route_status n st rs))
     = map_option tr_status (List.find (\<lambda>r. tr_out r = m) rs)"
  by (induction rs) auto

lemma get_set_route_status:
  "m \<noteq> n \<Longrightarrow> flb_task_get_route_status (flb_task_set_route_status t n st) m = flb_task_get_route_status t m"
  using find_set_route_status [of m n st "task_routes t"]
  by (auto simp: flb_task_get_route_status_def flb_task_set_route_status_def split: option.splits)

lemma in_use_drop_route:
  assumes U: "in_use a c k A s" and d: "chunk_heap s d = Some ic"
    and run: "flb_input_chunk_drop_task_route (ic_task ic) (Some n) s = (r, s')"
  shows "in_use a c k A s'"
proof -
  have L: "links s'" using U run lview_drop_route [of "ic_task ic" "Some n" s] links_cong [of s' s] by (simp add: in_use_def)
  consider "s' = s"
    | b t where "task_heap s b = Some t" "flb_task_get_route_status t n = ROUTE_INACTIVE"
        "s' = upd_task b (\<lambda>t. flb_task_set_route_status t n ROUTE_DROPPED) s"
  proof (cases "\<exists>b t. ic_task ic = Some b \<and> task_heap s b = Some t \<and> task_users t \<noteq> 0
      \<and> flb_task_get_route_status t n = ROUTE_INACTIVE")
    case True
    then obtain b t where "ic_task ic = Some b" "task_heap s b = Some t" "task_users t \<noteq> 0"
      "flb_task_get_route_status t n = ROUTE_INACTIVE" by blast
    with run show thesis by (intro that(2) [of b t]) (auto simp: flb_input_chunk_drop_task_route_def)
  next
    case False
    with run show thesis
      by (intro that(1)) (auto simp: flb_input_chunk_drop_task_route_def split: option.splits if_splits)
  qed
  then show ?thesis
  proof cases
    case (2 b t)
    show ?thesis
    proof (cases "b = a")
      case True
      then have "n \<notin> A" using U 2 by (auto simp: in_use_def)
      then show ?thesis
        using U L 2(3) True get_set_route_status [of _ n]
        by (auto simp: in_use_def upd_task_def flb_task_set_route_status_def) metis
    next
      case False
      have "tuse s' a = tuse s a" using 2(3) False by (simp add: tuse_def upd_task_def)
      then show ?thesis using in_use_tuse [OF L _ U] by blast
    qed
  qed (use U in simp)
qed

lemma in_use_turn:
  assumes U: "in_use a c k A s" and k: "k \<noteq> 0"
  shows "in_use a c k A (snd (release_turn e new n scope d s))"
proof (cases "chunk_heap s d")
  case None
  then show ?thesis using U by (simp add: release_turn_def)
next
  case (Some ic)
  obtain ok dropped s1 where s1: "flb_input_chunk_drop_task_route (ic_task ic) (Some n) s = ((ok, dropped), s1)"
    by (metis prod.exhaust_sel)
  have U1: "in_use a c k A s1" using in_use_drop_route [OF U Some s1] .
  have v1: "lview s1 = lview s" using lview_drop_route [of "ic_task ic" "Some n" s] s1 by simp
  have kept: "in_use a c k A s2" if "lview s2 = lview s1" "tuse s2 = tuse s1" for s2
    using in_use_tuse [OF _ _ U1, of s2] that links_cong [OF that(1)] U1 by (simp add: in_use_def)
  have gone: "in_use a c k A (snd (release_destroy e d s2))" if "lview s2 = lview s1" "tuse s2 = tuse s1" for s2
  proof -
    have U2: "in_use a c k A s2" and L2: "links s2" using kept [OF that] by (simp_all add: in_use_def)
    show ?thesis
    proof (cases "\<exists>ic b t. chunk_heap s2 d = Some ic \<and> ic_task ic = Some b \<and> task_heap s2 b = Some t \<and> task_users t = 0")
      case True
      then obtain ic b t where b: "chunk_heap s2 d = Some ic" "ic_task ic = Some b" "task_heap s2 b = Some t" "task_users t = 0"
        by blast
      then have "a \<noteq> b" using U2 k by (auto simp: in_use_def)
      then have "in_use a c k A (flb_task_destroy e b True s2)"
        by (intro in_use_tuse [OF links_task_destroy [OF L2] tuse_task_destroy U2])
      then show ?thesis using b by (simp add: release_destroy_def)
    next
      case False
      have "tuse (snd (release_destroy e d s2)) = tuse s2"
        using False by (auto simp: release_destroy_def tuse_chunk_destroy split: option.split)
      then show ?thesis using in_use_tuse [OF links_release_destroy [OF L2] _ U2] by simp
    qed
  qed
  show ?thesis
    unfolding release_turn_def Some option.case s1
    using U U1 by (cases ok) (auto simp: Let_def case_prod_beta lv tuse_frame intro!: kept gone)
qed

interpretation in_use: release_invariant e new "\<lambda>s. k \<noteq> 0 \<and> in_use a c k A s" for e new a c k A
  by unfold_locales (simp add: in_use_turn)

section \<open>Chunks of a running engine\<close>

text \<open>
  A configuration with an input for the storage backlog and one with two chunks in the file system, one of them busy, whose output has room for four bytes, and the
  engine after the first flush: the other chunk has a task.
\<close>

definition sample_fs :: "cstring flb_config" where
  "sample_fs = sample_config\<lparr>
     cf_inputs := [sample_input\<lparr>i_storage_type := STORAGE_FS, i_chunks := [1, 2]\<rparr>,
       sample_input\<lparr>i_id := 1, i_chunks := []\<rparr>], storage_input_plugin := 1,
     cf_outputs := [sample_output\<lparr>o_total_limit_size := 4, o_fs_chunks_size := 3\<rparr>],
     chunk_heap := [1 \<mapsto> sample_chunk\<lparr>ic_fs_counted := True\<rparr>, 2 \<mapsto> sample_chunk\<lparr>ic_busy := True\<rparr>],
     ic_next := 3\<rparr>"

definition sample_fs_flushed :: "cstring flb_config" where
  "sample_fs_flushed = snd (the (flb_engine_flush sample_env None sample_fs))"

lemma sample_fs_reachable: "engine_reachable sample_fs_flushed"
proof -
  have "engine_init sample_fs"
    by (simp add: sample_fs_def engine_init_def sample_defs task_map_ok_def sched_inv_def sched_cfg_ok_def oids_def)
  then have r: "engine_reachable sample_fs" by (rule engine_reachable.init)
  obtain s' where "flb_engine_flush sample_env None sample_fs = Some (0, s')"
    using engine_flush_safe [OF reachable_inv [OF r] reachable_queues [OF r]] by blast
  then show ?thesis
    using engine_reachable.step [OF r engine_step.flush, of sample_env None 0] by (simp add: sample_fs_flushed_def)
qed

lemma sample_fs_tasks:
  "map_option (\<lambda>t. (task_users t, task_ic t)) (task_heap sample_fs_flushed 10) = Some (1, Some 1)"
  by code_simp

lemma sample_fs_place:
  "map_option (\<lambda>(b, s'). (b, map_option ic_routes_mask (chunk_heap s' 1), map_option task_users (task_heap s' 10)))
     (flb_input_chunk_place_new_chunk sample_env 2 3 sample_fs_flushed) = Some (True, Some [0], Some 1)"
  by code_simp

text \<open>
  C8: The pointers between chunks and tasks never dangle while the engine runs: every task has a chunk that is
  there, is marked busy and points back to the task, and every chunk that points to a task points to one that is
  there and points back.
\<close>

theorem chunk_task_pointers:
  assumes "engine_reachable s"
  shows "(\<forall>a t. task_heap s a = Some t \<longrightarrow>
        (\<exists>c ic. task_ic t = Some c \<and> chunk_heap s c = Some ic \<and> ic_task ic = Some a \<and> ic_busy ic))
    \<and> (\<forall>c ic a. chunk_heap s c = Some ic \<and> ic_task ic = Some a \<longrightarrow>
        (\<exists>t. task_heap s a = Some t \<and> task_ic t = Some c))"
proof -
  have L: "links s" using reachable_links [OF assms] .
  have "task_ic t \<noteq> None" if "task_heap s a = Some t" for a t
    using invD(2) [OF reachable_inv [OF assms]] that by (simp add: wf_tasks_def task_ok_def)
  then show ?thesis using L unfolding links_def by (metis not_None_eq)
qed

lemma chunk_task_pointers_witness:
  "\<exists>ic. chunk_heap sample_fs_flushed 1 = Some ic \<and> ic_task ic = Some 10 \<and> ic_busy ic"
proof -
  obtain t where "task_heap sample_fs_flushed 10 = Some t" "task_ic t = Some 1" using sample_fs_tasks by auto
  then show ?thesis using chunk_task_pointers [OF sample_fs_reachable] by fastforce
qed



end
