(* ===== verification/Connection.thy ===== *)
theory Connection
  imports Flb_Prelude "HOL-Library.Monad_Syntax"
begin

text \<open>
  Network connections and the state of one event loop thread that holds them: \<^verbatim>\<open>src/src/flb_connection.c\<close>,
  \<^verbatim>\<open>src/include/fluent-bit/flb_stream.h\<close>, the part of \<^verbatim>\<open>mk_event\<close> (epoll) and of \<^verbatim>\<open>mk_list\<close> they rely on.

  Connections live in a store and are linked in at most one list each. A list head is named by a \<open>list_head\<close>;
  \<open>cn_link\<close> is the list a connection's \<open>_head\<close> is linked in, and \<open>nt_list\<close> holds the entries of every
  list. Operations return \<open>None\<close> where the C code would be undefined: a freed connection is accessed or freed
  again, an entry that is in no list is removed, a list head is reached through NULL, or a mutex is
  locked by the thread that holds it.
\<close>

section \<open>Total correctness of partial operations\<close>

text \<open>\<open>runs m Q\<close>: \<open>m\<close> returns, and its result satisfies \<open>Q\<close>.\<close>

definition runs :: "'a option \<Rightarrow> ('a \<Rightarrow> bool) \<Rightarrow> bool" where
  "runs m Q = (case m of None \<Rightarrow> False | Some x \<Rightarrow> Q x)"

lemma runs_Some [simp]: "runs (Some x) Q = Q x"
  by (simp add: runs_def)

lemma runs_None [simp]: "\<not> runs None Q"
  by (simp add: runs_def)

lemma runs_bind [simp]: "runs (Option.bind m f) Q = runs m (\<lambda>x. runs (f x) Q)"
  by (cases m) simp_all

lemma runs_if [simp]: "runs (if b then m else n) Q = (if b then runs m Q else runs n Q)"
  by simp

lemma runs_mono: "runs m P \<Longrightarrow> (\<And>x. P x \<Longrightarrow> Q x) \<Longrightarrow> runs m Q"
  by (cases m) simp_all

lemma runs_iff: "runs m Q \<longleftrightarrow> (\<exists>x. m = Some x \<and> Q x)"
  by (cases m) auto

section \<open>Machines\<close>

text \<open>
  A machine is a partial function of operations on states with a guard. \<open>reach\<close> are the states it gets to; when every
  enabled operation returns in a state with the invariant, nothing undefined ever happens.
\<close>

inductive reach :: "('s \<Rightarrow> bool) \<Rightarrow> ('o \<Rightarrow> 's \<Rightarrow> bool) \<Rightarrow> ('o \<Rightarrow> 's \<Rightarrow> 's option) \<Rightarrow> 's \<Rightarrow> bool"
  for init enabled exec where
  reach_init: "init s \<Longrightarrow> reach init enabled exec s"
| reach_step: "reach init enabled exec s \<Longrightarrow> enabled a s \<Longrightarrow> exec a s = Some s' \<Longrightarrow> reach init enabled exec s'"

locale machine =
  fixes init :: "'s \<Rightarrow> bool" and enabled :: "'o \<Rightarrow> 's \<Rightarrow> bool" and exec :: "'o \<Rightarrow> 's \<Rightarrow> 's option"
    and inv :: "'s \<Rightarrow> bool"
  assumes init_inv: "init s \<Longrightarrow> inv s"
    and exec_inv: "inv s \<Longrightarrow> enabled a s \<Longrightarrow> runs (exec a s) inv"
begin

lemma reach_inv: "reach init enabled exec s \<Longrightarrow> inv s"
proof (induction rule: reach.induct)
  case (reach_init s)
  then show ?case by (rule init_inv)
next
  case (reach_step s a s')
  then show ?case using exec_inv [of s a] by simp
qed

lemma reach_runs: "reach init enabled exec s \<Longrightarrow> enabled a s \<Longrightarrow> \<exists>s'. exec a s = Some s' \<and> reach init enabled exec s'"
  using exec_inv [of s a] reach_inv [of s] reach.reach_step [of init enabled exec s a] unfolding runs_iff by blast

end

text \<open>Running a list of operations, as far as they are enabled.\<close>

fun steps :: "('o \<Rightarrow> 's \<Rightarrow> bool) \<Rightarrow> ('o \<Rightarrow> 's \<Rightarrow> 's option) \<Rightarrow> 'o list \<Rightarrow> 's \<Rightarrow> 's option" where
  "steps enabled exec [] s = Some s"
| "steps enabled exec (a # as) s =
     (if enabled a s then Option.bind (exec a s) (steps enabled exec as) else None)"

lemma reach_steps:
  "reach init enabled exec s \<Longrightarrow> steps enabled exec as s = Some s' \<Longrightarrow> reach init enabled exec s'"
proof (induction as arbitrary: s)
  case Nil
  then show ?case by simp
next
  case (Cons a as)
  from Cons.prems(2) obtain s1 where "enabled a s" "exec a s = Some s1" "steps enabled exec as s1 = Some s'"
    by (auto split: if_splits Option.bind_split_asm)
  with Cons show ?case by (blast intro: reach.reach_step)
qed

section \<open>Data\<close>

type_synonym cid = nat
type_synonym stream_id = nat

text \<open>The options of a stream that the connections read.\<close>

record flb_net_setup =
  ns_keepalive :: bool
  ns_keepalive_idle_timeout :: int
  ns_keepalive_max_recycle :: int
  ns_io_timeout :: int
  ns_connect_timeout :: int
  ns_accept_timeout :: int
  ns_max_worker_connections :: int

datatype transport = TRANSPORT_UNSET | TRANSPORT_TCP | TRANSPORT_UDP | TRANSPORT_UNIX_STREAM | TRANSPORT_UNIX_DGRAM

record flb_stream =
  st_thread_safety_flag :: bool
  st_transport :: transport
  st_flags :: u32
  st_list_mutex :: bool
  st_net :: flb_net_setup

definition FLB_IO_ASYNC :: u32 where "FLB_IO_ASYNC = 8"
definition FLB_IO_TCP_KA :: u32 where "FLB_IO_TCP_KA = 16"

definition flb_stream_get_flag_status :: "flb_stream \<Rightarrow> u32 \<Rightarrow> bool" where
  "flb_stream_get_flag_status st flag \<longleftrightarrow> st_flags st AND flag \<noteq> 0"

definition flb_stream_is_keepalive :: "flb_stream \<Rightarrow> bool" where
  "flb_stream_is_keepalive st = flb_stream_get_flag_status st FLB_IO_TCP_KA"

text \<open>The lists a connection can be linked in: those of an upstream queue and those of a downstream.\<close>

datatype list_head =
    AvQueue stream_id
  | BusyQueue stream_id
  | DestroyQueue stream_id
  | DownBusyQueue stream_id
  | DownDestroyQueue stream_id

datatype conn_type = FLB_UPSTREAM_CONNECTION | FLB_DOWNSTREAM_CONNECTION

text \<open>
  Types of an event: \<open>FLB_ENGINE_EV_CUSTOM\<close> calls the handler of the event, \<open>FLB_ENGINE_EV_THREAD\<close> resumes the
  coroutine of the connection. Of the handler only whether it is set matters.
\<close>

datatype event_type = EV_CUSTOM | EV_THREAD

datatype tls_session = NoTls | TlsSession | TlsInvalid

record flb_connection =
  cn_type :: conn_type
  cn_stream :: stream_id
  cn_fd :: int
  cn_net_error :: int
  cn_busy_flag :: bool
  cn_shutdown_flag :: bool
  cn_recycle :: bool
  cn_ka_count :: int
  cn_ts_assigned :: int
  cn_ts_created :: int
  cn_ts_available :: int
  cn_ts_io_timeout :: int
  cn_ts_connect_start :: int
  cn_ts_connect_timeout :: int
  cn_link :: "list_head option"
  cn_tls_session :: tls_session
  cn_ev_fd :: int
  cn_ev_type :: event_type
  cn_ev_mask :: nat
  cn_ev_registered :: bool
  cn_ev_handler :: bool
  cn_dynamically_allocated :: bool

record flb_upstream =
  up_base :: flb_stream
  up_parent_upstream :: "stream_id option"
  up_cmt_total_connections :: "int option"
  up_cmt_busy_connections :: "int option"

record flb_downstream =
  ds_base :: flb_stream
  ds_server_fd :: int
  ds_paused :: bool
  ds_dgram_connection :: "cid option"

text \<open>
  The state of a thread: \<open>nt_upstream_list\<close> is the thread-local list of upstreams (\<open>None\<close>: not set),
  \<open>nt_events\<close> the connections among the ready events of the event loop, \<open>nt_bktq\<close> those whose event is linked in the
  queue of events by priority, \<open>nt_closed\<close> the sockets that were closed.
\<close>

record net_state =
  nt_conns :: "cid \<Rightarrow> flb_connection option"
  nt_next :: cid
  nt_list :: "list_head \<Rightarrow> cid list"
  nt_upstreams :: "stream_id \<Rightarrow> flb_upstream option"
  nt_upstream_list :: "stream_id list option"
  nt_downstreams :: "stream_id \<Rightarrow> flb_downstream option"
  nt_events :: "cid list"
  nt_bktq :: "cid list"
  nt_closed :: "int list"

text \<open>
  What comes from outside: the clock, the pending error of a socket, the outcome of an allocation and of a call to
  \<open>epoll_ctl\<close>, and whether the array of ready events has room for one more.
\<close>

record net_env =
  ne_time :: int
  ne_socket_error :: "int \<Rightarrow> int"
  ne_alloc :: bool
  ne_epoll_add :: bool
  ne_room :: bool

section \<open>Access to the store\<close>

definition upd_conn :: "cid \<Rightarrow> (flb_connection \<Rightarrow> flb_connection) \<Rightarrow> net_state \<Rightarrow> net_state option" where
  "upd_conn c f s = do {
     cn \<leftarrow> nt_conns s c;
     Some (s\<lparr>nt_conns := (nt_conns s)(c \<mapsto> f cn)\<rparr>)}"

text \<open>\<open>mk_list_add\<close> and \<open>mk_list_del\<close> on the link \<open>_head\<close> of a connection.\<close>

definition mk_list_add :: "cid \<Rightarrow> list_head \<Rightarrow> net_state \<Rightarrow> net_state option" where
  "mk_list_add c q s = do {
     cn \<leftarrow> nt_conns s c;
     (if cn_link cn \<noteq> None then None
      else Some (s\<lparr>nt_conns := (nt_conns s)(c \<mapsto> cn\<lparr>cn_link := Some q\<rparr>),
                   nt_list := (nt_list s)(q := nt_list s q @ [c])\<rparr>))}"

definition mk_list_del :: "cid \<Rightarrow> net_state \<Rightarrow> net_state option" where
  "mk_list_del c s = do {
     cn \<leftarrow> nt_conns s c;
     q \<leftarrow> cn_link cn;
     Some (s\<lparr>nt_conns := (nt_conns s)(c \<mapsto> cn\<lparr>cn_link := None\<rparr>),
             nt_list := (nt_list s)(q := remove1 c (nt_list s q))\<rparr>)}"

text \<open>Lists and links agree: a connection is an entry of exactly the list its link names, once.\<close>

definition linked_ok :: "net_state \<Rightarrow> bool" where
  "linked_ok s \<longleftrightarrow>
     (\<forall>c q. c \<in> set (nt_list s q) \<longleftrightarrow> (\<exists>cn. nt_conns s c = Some cn \<and> cn_link cn = Some q))
     \<and> (\<forall>q. distinct (nt_list s q))"

lemma linked_okD:
  assumes "linked_ok s"
  shows "c \<in> set (nt_list s q) \<longleftrightarrow> (\<exists>cn. nt_conns s c = Some cn \<and> cn_link cn = Some q)" and "distinct (nt_list s q)"
  using assms unfolding linked_ok_def by blast+

lemma linked_conn:
  "linked_ok s \<Longrightarrow> nt_conns s c = Some cn \<Longrightarrow> cn_link cn' = cn_link cn \<Longrightarrow>
   linked_ok (s\<lparr>nt_conns := (nt_conns s)(c \<mapsto> cn')\<rparr>)"
  by (auto simp: linked_ok_def)

definition moved :: "cid \<Rightarrow> list_head \<Rightarrow> list_head \<Rightarrow> (list_head \<Rightarrow> cid list) \<Rightarrow> list_head \<Rightarrow> cid list" where
  "moved c q q' l = (let l' = l(q := remove1 c (l q)) in l'(q' := l' q' @ [c]))"

lemma list_move_eq:
  assumes "nt_conns s c = Some cn" and "cn_link cn = Some q"
  shows "Option.bind (mk_list_del c s) (mk_list_add c q') =
         Some (s\<lparr>nt_conns := (nt_conns s)(c \<mapsto> cn\<lparr>cn_link := Some q'\<rparr>), nt_list := moved c q q' (nt_list s)\<rparr>)"
  using assms by (simp add: mk_list_del_def mk_list_add_def moved_def Let_def)

lemma linked_relink:
  assumes ok: "linked_ok s" and c: "nt_conns s c = Some cn" and q: "cn_link cn = Some q" and q': "cn_link cn' = Some q'"
  shows "linked_ok (s\<lparr>nt_conns := (nt_conns s)(c \<mapsto> cn'), nt_list := moved c q q' (nt_list s)\<rparr>)"
proof -
  have d: "distinct (nt_list s p)" for p by (rule linked_okD(2) [OF ok])
  have only: "c \<in> set (nt_list s p) \<longleftrightarrow> p = q" for p using linked_okD(1) [OF ok, of c p] c q by auto
  have "e \<in> set (moved c q q' (nt_list s) p) \<longleftrightarrow> (if e = c then p = q' else e \<in> set (nt_list s p))" for e p
    using only d by (auto simp: moved_def Let_def)
  moreover have "distinct (moved c q q' (nt_list s) p)" for p
    using only d by (auto simp: moved_def Let_def distinct_remove1)
  ultimately show ?thesis using linked_okD(1) [OF ok] q' by (auto simp: linked_ok_def)
qed

lemma linked_free:
  assumes ok: "linked_ok s" and c: "nt_conns s c = Some cn" and q: "cn_link cn = Some q"
  shows "linked_ok (s\<lparr>nt_conns := (nt_conns s)(c := None), nt_list := (nt_list s)(q := remove1 c (nt_list s q))\<rparr>)"
proof -
  have "c \<in> set (nt_list s p) \<longleftrightarrow> p = q" for p using linked_okD(1) [OF ok, of c p] c q by auto
  then show ?thesis using linked_okD [OF ok] by (auto simp: linked_ok_def distinct_remove1)
qed

lemma linked_create:
  assumes ok: "linked_ok s" and c: "nt_conns s c = None" and q: "cn_link cn = Some q"
  shows "linked_ok (s\<lparr>nt_conns := (nt_conns s)(c \<mapsto> cn), nt_list := (nt_list s)(q := nt_list s q @ [c])\<rparr>)"
proof -
  have "c \<notin> set (nt_list s p)" for p using linked_okD(1) [OF ok, of c p] c by simp
  then show ?thesis using linked_okD [OF ok] q by (auto simp: linked_ok_def)
qed

lemma linked_frame: "linked_ok s \<Longrightarrow> nt_conns s' = nt_conns s \<Longrightarrow> nt_list s' = nt_list s \<Longrightarrow> linked_ok s'"
  by (simp add: linked_ok_def)

definition flb_socket_close :: "int \<Rightarrow> net_state \<Rightarrow> net_state" where
  "flb_socket_close fd s = s\<lparr>nt_closed := nt_closed s @ [fd]\<rparr>"

section \<open>Events\<close>

text \<open>
  \<open>mk_event_del\<close> unlinks the event from the queue of events by priority; \<open>mk_event_add\<close> does so when
  \<open>epoll_ctl\<close> succeeds, and marks the event registered before it is called.
\<close>

definition MK_EVENT_EMPTY :: nat where "MK_EVENT_EMPTY = 0"
definition MK_EVENT_CLOSE :: nat where "MK_EVENT_CLOSE = 8216"

definition mk_event_new :: "flb_connection \<Rightarrow> flb_connection" where
  "mk_event_new cn = cn\<lparr>cn_ev_mask := MK_EVENT_EMPTY, cn_ev_registered := False\<rparr>"

definition bktq_unlink :: "cid \<Rightarrow> net_state \<Rightarrow> net_state" where
  "bktq_unlink c s = s\<lparr>nt_bktq := remove1 c (nt_bktq s)\<rparr>"

definition mk_event_del :: "cid \<Rightarrow> net_state \<Rightarrow> net_state option" where
  "mk_event_del c s = do {
     cn \<leftarrow> nt_conns s c;
     (if \<not> cn_ev_registered cn then Some s
      else upd_conn c mk_event_new (bktq_unlink c s))}"

definition mk_event_add :: "bool \<Rightarrow> cid \<Rightarrow> int \<Rightarrow> event_type \<Rightarrow> nat \<Rightarrow> net_state \<Rightarrow> (int \<times> net_state) option" where
  "mk_event_add epoll_ok c fd ty events s = do {
     cn \<leftarrow> nt_conns s c;
     s \<leftarrow> upd_conn c (\<lambda>cn. (if cn_ev_mask cn = MK_EVENT_EMPTY
                            then cn\<lparr>cn_ev_fd := fd, cn_ev_registered := True, cn_ev_type := ty\<rparr>
                            else cn\<lparr>cn_ev_type := ty\<rparr>)) s;
     (if \<not> epoll_ok then Some (-1, s)
      else do {
        s \<leftarrow> upd_conn c (\<lambda>cn. cn\<lparr>cn_ev_mask := events\<rparr>) s;
        Some (0, bktq_unlink c s)})}"

text \<open>The call with \<open>prevent_duplication\<close> set, with the mask of the event itself.\<close>

definition mk_event_inject :: "bool \<Rightarrow> cid \<Rightarrow> net_state \<Rightarrow> net_state" where
  "mk_event_inject room c s =
     (if \<not> room then s
      else if c \<in> set (nt_events s) then s
      else s\<lparr>nt_events := nt_events s @ [c]\<rparr>)"

section \<open>Connections\<close>

text \<open>\<open>flb_connection_setup\<close>: the connection it writes; \<open>now\<close> is \<open>time(NULL)\<close>.\<close>

definition flb_connection_unset_connection_timeout :: "flb_connection \<Rightarrow> flb_connection" where
  "flb_connection_unset_connection_timeout cn = cn\<lparr>cn_ts_connect_start := -1, cn_ts_connect_timeout := -1\<rparr>"

definition flb_connection_unset_io_timeout :: "flb_connection \<Rightarrow> flb_connection" where
  "flb_connection_unset_io_timeout cn = cn\<lparr>cn_ts_io_timeout := -1\<rparr>"

definition flb_connection_setup :: "int \<Rightarrow> conn_type \<Rightarrow> stream_id \<Rightarrow> int \<Rightarrow> flb_connection" where
  "flb_connection_setup socket ty stream now =
     flb_connection_unset_io_timeout (flb_connection_unset_connection_timeout
       \<lparr>cn_type = ty, cn_stream = stream, cn_fd = socket, cn_net_error = -1,
        cn_busy_flag = False, cn_shutdown_flag = False, cn_recycle = False, cn_ka_count = 0,
        cn_ts_assigned = now, cn_ts_created = now, cn_ts_available = 0,
        cn_ts_io_timeout = 0, cn_ts_connect_start = 0, cn_ts_connect_timeout = 0,
        cn_link = None, cn_tls_session = NoTls,
        cn_ev_fd = -1, cn_ev_type = EV_CUSTOM, cn_ev_mask = MK_EVENT_EMPTY, cn_ev_registered = False,
        cn_ev_handler = False, cn_dynamically_allocated = False\<rparr>)"

definition flb_connection_create ::
  "int \<Rightarrow> conn_type \<Rightarrow> stream_id \<Rightarrow> net_env \<Rightarrow> net_state \<Rightarrow> cid option \<times> net_state" where
  "flb_connection_create socket ty stream e s =
     (if \<not> ne_alloc e then (None, s)
      else let c = nt_next s;
               cn = flb_connection_setup socket ty stream (ne_time e)
           in (Some c, s\<lparr>nt_conns := (nt_conns s)(c \<mapsto> cn\<lparr>cn_dynamically_allocated := True\<rparr>),
                         nt_next := Suc c\<rparr>))"

definition flb_connection_destroy :: "cid \<Rightarrow> net_state \<Rightarrow> net_state option" where
  "flb_connection_destroy c s = do {
     cn \<leftarrow> nt_conns s c;
     Some (if cn_dynamically_allocated cn then s\<lparr>nt_conns := (nt_conns s)(c := None)\<rparr> else s)}"

definition flb_connection_reset_connection_timeout ::
  "flb_net_setup \<Rightarrow> int \<Rightarrow> flb_connection \<Rightarrow> flb_connection" where
  "flb_connection_reset_connection_timeout net now cn =
     (case cn_type cn of
        FLB_UPSTREAM_CONNECTION \<Rightarrow>
          (if ns_connect_timeout net > 0
           then cn\<lparr>cn_ts_connect_start := now, cn_ts_connect_timeout := now + ns_connect_timeout net\<rparr> else cn)
      | FLB_DOWNSTREAM_CONNECTION \<Rightarrow>
          (if ns_accept_timeout net > 0
           then cn\<lparr>cn_ts_connect_start := now, cn_ts_connect_timeout := now + ns_accept_timeout net\<rparr> else cn))"

definition flb_connection_reset_io_timeout :: "flb_net_setup \<Rightarrow> int \<Rightarrow> flb_connection \<Rightarrow> flb_connection" where
  "flb_connection_reset_io_timeout net now cn =
     (if ns_io_timeout net > 0 then cn\<lparr>cn_ts_io_timeout := now + ns_io_timeout net\<rparr> else cn)"

end
