(* ===== verification/Upstream.thy ===== *)
theory Upstream
  imports Connection
begin

text \<open>
  The pool of connections of an upstream (\<^verbatim>\<open>src/src/flb_upstream.c\<close>). Every connection is in one of three queues:
  available, busy, or to be destroyed. A flush coroutine takes a connection, suspends while it is
  connected and while data is sent, and releases it; meanwhile the event loop drops connections that time out and frees those in the
  last queue. \<open>create_conn\<close> suspends in \<open>flb_io_net_connect\<close>, so it is two functions here, before and after it.
\<close>

section \<open>Streams and queues\<close>

definition upd_upstream :: "stream_id \<Rightarrow> (flb_upstream \<Rightarrow> flb_upstream) \<Rightarrow> net_state \<Rightarrow> net_state option" where
  "upd_upstream u f s = do {
     up \<leftarrow> nt_upstreams s u;
     Some (s\<lparr>nt_upstreams := (nt_upstreams s)(u \<mapsto> f up)\<rparr>)}"

definition set_mutex :: "bool \<Rightarrow> flb_upstream \<Rightarrow> flb_upstream" where
  "set_mutex b up = up\<lparr>up_base := (up_base up)\<lparr>st_list_mutex := b\<rparr>\<rparr>"

text \<open>\<open>flb_stream_acquire_lock\<close> waits for ever when the thread already holds the mutex.\<close>

definition flb_stream_acquire_lock :: "stream_id \<Rightarrow> net_state \<Rightarrow> net_state option" where
  "flb_stream_acquire_lock u s = do {
     up \<leftarrow> nt_upstreams s u;
     (if \<not> st_thread_safety_flag (up_base up) then Some s
      else if st_list_mutex (up_base up) then None
      else upd_upstream u (set_mutex True) s)}"

definition flb_stream_release_lock :: "stream_id \<Rightarrow> net_state \<Rightarrow> net_state option" where
  "flb_stream_release_lock u s = do {
     up \<leftarrow> nt_upstreams s u;
     (if \<not> st_thread_safety_flag (up_base up) then Some s
      else upd_upstream u (set_mutex False) s)}"

text \<open>
  The upstream whose queue is used: the outer option is \<open>None\<close> where the code is undefined, the inner one is the
  NULL it may return. With an empty thread-local list \<open>th_u\<close> is read uninitialised.
\<close>

fun queue_search :: "net_state \<Rightarrow> stream_id \<Rightarrow> stream_id list \<Rightarrow> stream_id option option" where
  "queue_search s u [] = Some None"
| "queue_search s u (v # vs) = do {
     th_u \<leftarrow> nt_upstreams s v;
     (if up_parent_upstream th_u = Some u then Some (Some v) else queue_search s u vs)}"

definition flb_upstream_queue_get :: "stream_id \<Rightarrow> net_state \<Rightarrow> stream_id option option" where
  "flb_upstream_queue_get u s = do {
     up \<leftarrow> nt_upstreams s u;
     (if st_thread_safety_flag (up_base up)
      then (case nt_upstream_list s of
              None \<Rightarrow> Some (Some u)
            | Some [] \<Rightarrow> None
            | Some vs \<Rightarrow> queue_search s u vs)
      else Some (Some u))}"

section \<open>Gauges\<close>

definition bump_total :: "int \<Rightarrow> flb_upstream \<Rightarrow> flb_upstream" where
  "bump_total n up = up\<lparr>up_cmt_total_connections := map_option (\<lambda>g. g + n) (up_cmt_total_connections up)\<rparr>"

definition bump_busy :: "int \<Rightarrow> flb_upstream \<Rightarrow> flb_upstream" where
  "bump_busy n up = up\<lparr>up_cmt_busy_connections := map_option (\<lambda>g. g + n) (up_cmt_busy_connections up)\<rparr>"

text \<open>The increment of the total has no \<open>else\<close>: with a parent, the parent's gauge is incremented twice.\<close>

partial_function (option) flb_upstream_increment_total_connections_count ::
  "stream_id \<Rightarrow> net_state \<Rightarrow> net_state option" where
  "flb_upstream_increment_total_connections_count u s = do {
     up \<leftarrow> nt_upstreams s u;
     (case up_parent_upstream up of
        Some v \<Rightarrow> do {
          s \<leftarrow> flb_upstream_increment_total_connections_count v s;
          upd_upstream v (bump_total 1) s}
      | None \<Rightarrow> upd_upstream u (bump_total 1) s)}"

partial_function (option) flb_upstream_decrement_total_connections_count ::
  "stream_id \<Rightarrow> net_state \<Rightarrow> net_state option" where
  "flb_upstream_decrement_total_connections_count u s = do {
     up \<leftarrow> nt_upstreams s u;
     (case up_parent_upstream up of
        Some v \<Rightarrow> flb_upstream_decrement_total_connections_count v s
      | None \<Rightarrow> upd_upstream u (bump_total (- 1)) s)}"

partial_function (option) flb_upstream_increment_busy_connections_count ::
  "stream_id \<Rightarrow> net_state \<Rightarrow> net_state option" where
  "flb_upstream_increment_busy_connections_count u s = do {
     up \<leftarrow> nt_upstreams s u;
     (case up_parent_upstream up of
        Some v \<Rightarrow> flb_upstream_increment_busy_connections_count v s
      | None \<Rightarrow> upd_upstream u (bump_busy 1) s)}"

partial_function (option) flb_upstream_decrement_busy_connections_count ::
  "stream_id \<Rightarrow> net_state \<Rightarrow> net_state option" where
  "flb_upstream_decrement_busy_connections_count u s = do {
     up \<leftarrow> nt_upstreams s u;
     (case up_parent_upstream up of
        Some v \<Rightarrow> flb_upstream_decrement_busy_connections_count v s
      | None \<Rightarrow> upd_upstream u (bump_busy (- 1)) s)}"

declare flb_upstream_increment_total_connections_count.simps [code]
declare flb_upstream_decrement_total_connections_count.simps [code]
declare flb_upstream_increment_busy_connections_count.simps [code]
declare flb_upstream_decrement_busy_connections_count.simps [code]

section \<open>Closing and freeing\<close>

definition shutdown_connection :: "cid \<Rightarrow> net_state \<Rightarrow> net_state option" where
  "shutdown_connection c s = do {
     cn \<leftarrow> nt_conns s c;
     (if cn_fd cn > 0 \<and> \<not> cn_shutdown_flag cn
      then upd_conn c (\<lambda>cn. cn\<lparr>cn_shutdown_flag := True\<rparr>) s else Some s)}"

definition tls_session_invalidate :: "flb_connection \<Rightarrow> flb_connection" where
  "tls_session_invalidate cn =
     (case cn_tls_session cn of NoTls \<Rightarrow> cn | _ \<Rightarrow> cn\<lparr>cn_tls_session := TlsInvalid\<rparr>)"

definition close_fd :: "cid \<Rightarrow> net_state \<Rightarrow> net_state option" where
  "close_fd c s = do {
     cn \<leftarrow> nt_conns s c;
     (if cn_fd cn > 0
      then do {
        s \<leftarrow> upd_conn c tls_session_invalidate s;
        s \<leftarrow> shutdown_connection c s;
        upd_conn c (\<lambda>cn. cn\<lparr>cn_fd := -1, cn_ev_fd := -1\<rparr>) (flb_socket_close (cn_fd cn) s)}
      else Some s)}"

definition prepare_destroy_conn :: "cid \<Rightarrow> net_state \<Rightarrow> net_state option" where
  "prepare_destroy_conn c s = do {
     cn \<leftarrow> nt_conns s c;
     uq \<leftarrow> flb_upstream_queue_get (cn_stream cn) s;
     s \<leftarrow> (if cn_ev_registered cn then mk_event_del c s else Some s);
     s \<leftarrow> close_fd c s;
     s \<leftarrow> mk_list_del c s;
     v \<leftarrow> uq;
     s \<leftarrow> mk_list_add c (DestroyQueue v) s;
     flb_upstream_decrement_total_connections_count (cn_stream cn) s}"

definition prepare_destroy_conn_safe :: "cid \<Rightarrow> net_state \<Rightarrow> net_state option" where
  "prepare_destroy_conn_safe c s = do {
     cn \<leftarrow> nt_conns s c;
     s \<leftarrow> flb_stream_acquire_lock (cn_stream cn) s;
     s \<leftarrow> prepare_destroy_conn c s;
     flb_stream_release_lock (cn_stream cn) s}"

definition destroy_conn :: "cid \<Rightarrow> net_state \<Rightarrow> net_state option" where
  "destroy_conn c s = do {
     cn \<leftarrow> nt_conns s c;
     (if cn_busy_flag cn \<or> c \<in> set (nt_bktq s) then Some s
      else do {
        s \<leftarrow> upd_conn c (\<lambda>cn. cn\<lparr>cn_tls_session := NoTls\<rparr>) s;
        s \<leftarrow> mk_list_del c s;
        flb_connection_destroy c s})}"

section \<open>Creating\<close>

text \<open>\<open>val == FLB_TRUE || val == FLB_FALSE\<close>: other values are refused.\<close>

definition flb_upstream_conn_recycle :: "cid \<Rightarrow> int \<Rightarrow> net_state \<Rightarrow> (int \<times> net_state) option" where
  "flb_upstream_conn_recycle c val s =
     (if val = 1 \<or> val = 0 then do {
        s \<leftarrow> upd_conn c (\<lambda>cn. cn\<lparr>cn_recycle := (val = 1)\<rparr>) s;
        Some (0, s)}
      else Some (-1, s))"

text \<open>\<open>create_conn\<close> up to the call of \<open>flb_io_net_connect\<close>, with \<open>None\<close> for NULL, and from its return.\<close>

definition create_conn_begin :: "stream_id \<Rightarrow> net_env \<Rightarrow> net_state \<Rightarrow> (cid option \<times> net_state) option" where
  "create_conn_begin u e s = do {
     up \<leftarrow> nt_upstreams s u;
     (case flb_connection_create (-1) FLB_UPSTREAM_CONNECTION u e s of
        (None, s) \<Rightarrow> Some (None, s)
      | (Some c, s) \<Rightarrow> do {
          s \<leftarrow> upd_conn c (\<lambda>cn. cn\<lparr>cn_busy_flag := True\<rparr>) s;
          (r, s) \<leftarrow> flb_upstream_conn_recycle c (if flb_stream_is_keepalive (up_base up) then 1 else 0) s;
          s \<leftarrow> flb_stream_acquire_lock u s;
          uq \<leftarrow> flb_upstream_queue_get u s;
          v \<leftarrow> uq;
          s \<leftarrow> mk_list_add c (BusyQueue v) s;
          s \<leftarrow> flb_upstream_increment_total_connections_count u s;
          s \<leftarrow> flb_stream_release_lock u s;
          s \<leftarrow> upd_conn c (flb_connection_reset_connection_timeout (st_net (up_base up)) (ne_time e)) s;
          Some (Some c, s)})}"

definition create_conn_end :: "cid \<Rightarrow> int \<Rightarrow> net_state \<Rightarrow> (cid option \<times> net_state) option" where
  "create_conn_end c ret s =
     (if ret = -1 then do {
        s \<leftarrow> upd_conn c flb_connection_unset_connection_timeout s;
        s \<leftarrow> upd_conn c (\<lambda>cn. cn\<lparr>cn_busy_flag := False\<rparr>) s;
        s \<leftarrow> prepare_destroy_conn_safe c s;
        Some (None, s)}
      else do {
        s \<leftarrow> upd_conn c flb_connection_unset_connection_timeout s;
        s \<leftarrow> upd_conn c (\<lambda>cn. cn\<lparr>cn_busy_flag := False\<rparr>) s;
        Some (Some c, s)})"

section \<open>Taking a connection\<close>

definition FLB_EINPROGRESS :: "int \<Rightarrow> bool" where
  "FLB_EINPROGRESS err \<longleftrightarrow> err = 4 \<or> err = 115"

text \<open>The loop over the available connections: the first one whose socket has no error, moved to the busy queue.\<close>

fun ka_scan :: "stream_id \<Rightarrow> stream_id \<Rightarrow> net_env \<Rightarrow> cid list \<Rightarrow> net_state \<Rightarrow> (cid option \<times> net_state) option" where
  "ka_scan u v e [] s = Some (None, s)"
| "ka_scan u v e (c # cs) s = do {
     s \<leftarrow> flb_stream_acquire_lock u s;
     s \<leftarrow> mk_list_del c s;
     s \<leftarrow> mk_list_add c (BusyQueue v) s;
     s \<leftarrow> flb_stream_release_lock u s;
     s \<leftarrow> upd_conn c (\<lambda>cn. cn\<lparr>cn_busy_flag := True\<rparr>) s;
     cn \<leftarrow> nt_conns s c;
     (let err = ne_socket_error e (cn_fd cn) in
      if \<not> FLB_EINPROGRESS err \<and> err \<noteq> 0 then do {
        s \<leftarrow> upd_conn c (\<lambda>cn. cn\<lparr>cn_busy_flag := False\<rparr>) s;
        s \<leftarrow> prepare_destroy_conn_safe c s;
        ka_scan u v e cs s}
      else do {
        s \<leftarrow> upd_conn c (\<lambda>cn. cn\<lparr>cn_net_error := -1, cn_ts_assigned := ne_time e\<rparr>) s;
        Some (Some c, s)})}"

text \<open>The end of \<open>flb_upstream_conn_get\<close> for a connection that is not NULL.\<close>

definition conn_assign :: "stream_id \<Rightarrow> net_env \<Rightarrow> cid \<Rightarrow> net_state \<Rightarrow> net_state option" where
  "conn_assign u e c s = do {
     up \<leftarrow> nt_upstreams s u;
     s \<leftarrow> upd_conn c (\<lambda>cn. cn\<lparr>cn_busy_flag := True\<rparr>) s;
     s \<leftarrow> upd_conn c (flb_connection_reset_io_timeout (st_net (up_base up)) (ne_time e)) s;
     flb_upstream_increment_busy_connections_count u s}"

definition queue_total :: "stream_id \<Rightarrow> net_state \<Rightarrow> int" where
  "queue_total v s =
     int (length (nt_list s (BusyQueue v))) + int (length (nt_list s (AvQueue v)))
     + int (length (nt_list s (DestroyQueue v)))"

datatype get_result = GetNull | GetConn cid | GetConnecting cid

text \<open>\<open>flb_upstream_conn_get\<close>, up to its return or to the call of \<open>flb_io_net_connect\<close>.\<close>

definition flb_upstream_conn_get :: "stream_id \<Rightarrow> net_env \<Rightarrow> net_state \<Rightarrow> (get_result \<times> net_state) option" where
  "flb_upstream_conn_get u e s = do {
     up \<leftarrow> nt_upstreams s u;
     uq \<leftarrow> flb_upstream_queue_get u s;
     (conn, s) \<leftarrow> (if ns_keepalive (st_net (up_base up))
                   then do { v \<leftarrow> uq; ka_scan u v e (nt_list s (AvQueue v)) s }
                   else Some (None, s));
     (case conn of
        Some c \<Rightarrow> do { s \<leftarrow> conn_assign u e c s; Some (GetConn c, s) }
      | None \<Rightarrow> do {
          total_connections \<leftarrow>
            (if ns_max_worker_connections (st_net (up_base up)) > 0
             then do { v \<leftarrow> uq;
                       s' \<leftarrow> flb_stream_acquire_lock u s;
                       s' \<leftarrow> flb_stream_release_lock u s';
                       Some (queue_total v s) }
             else Some 0);
          (if ns_max_worker_connections (st_net (up_base up)) > 0
              \<and> total_connections \<ge> ns_max_worker_connections (st_net (up_base up))
           then Some (GetNull, s)
           else do {
             (co, s) \<leftarrow> create_conn_begin u e s;
             Some (case co of None \<Rightarrow> GetNull | Some c \<Rightarrow> GetConnecting c, s)})})}"

text \<open>The rest of it when \<open>flb_io_net_connect\<close> returns \<open>ret\<close>.\<close>

definition flb_upstream_conn_get_end ::
  "stream_id \<Rightarrow> net_env \<Rightarrow> cid \<Rightarrow> int \<Rightarrow> net_state \<Rightarrow> (get_result \<times> net_state) option" where
  "flb_upstream_conn_get_end u e c ret s = do {
     (co, s) \<leftarrow> create_conn_end c ret s;
     (case co of
        None \<Rightarrow> Some (GetNull, s)
      | Some c \<Rightarrow> do { s \<leftarrow> conn_assign u e c s; Some (GetConn c, s) })}"

section \<open>Releasing a connection\<close>

definition cb_upstream_conn_ka_dropped :: "cid \<Rightarrow> net_state \<Rightarrow> net_state option" where
  "cb_upstream_conn_ka_dropped c s = prepare_destroy_conn_safe c s"

text \<open>The branch of a connection that is kept: back to the available ones, watched for a close by the peer.\<close>

definition conn_recycle_idle :: "stream_id \<Rightarrow> stream_id \<Rightarrow> net_env \<Rightarrow> cid \<Rightarrow> net_state \<Rightarrow> net_state option" where
  "conn_recycle_idle u v e c s = do {
     up \<leftarrow> nt_upstreams s u;
     s \<leftarrow> flb_stream_acquire_lock u s;
     s \<leftarrow> mk_list_del c s;
     s \<leftarrow> mk_list_add c (AvQueue v) s;
     s \<leftarrow> flb_stream_release_lock u s;
     s \<leftarrow> upd_conn c (\<lambda>cn. cn\<lparr>cn_ts_available := ne_time e\<rparr>) s;
     cn \<leftarrow> nt_conns s c;
     s \<leftarrow> (if cn_ev_registered cn then mk_event_del c s else Some s);
     s \<leftarrow> upd_conn c mk_event_new s;
     s \<leftarrow> upd_conn c (\<lambda>cn. cn\<lparr>cn_ev_handler := True\<rparr>) s;
     (ret, s) \<leftarrow> mk_event_add (ne_epoll_add e) c (cn_fd cn) EV_CUSTOM MK_EVENT_CLOSE s;
     (if ret = -1 then prepare_destroy_conn_safe c s
      else do {
        s \<leftarrow> upd_conn c (\<lambda>cn. cn\<lparr>cn_ka_count := cn_ka_count cn + 1\<rparr>) s;
        cn \<leftarrow> nt_conns s c;
        (if ns_keepalive_max_recycle (st_net (up_base up)) > 0
            \<and> cn_ka_count cn > ns_keepalive_max_recycle (st_net (up_base up))
         then prepare_destroy_conn_safe c s
         else Some s)})}"

definition flb_upstream_conn_release :: "net_env \<Rightarrow> cid \<Rightarrow> net_state \<Rightarrow> net_state option" where
  "flb_upstream_conn_release e c s = do {
     cn \<leftarrow> nt_conns s c;
     s \<leftarrow> upd_conn c (\<lambda>cn. cn\<lparr>cn_busy_flag := False\<rparr>) s;
     s \<leftarrow> flb_upstream_decrement_busy_connections_count (cn_stream cn) s;
     uq \<leftarrow> flb_upstream_queue_get (cn_stream cn) s;
     up \<leftarrow> nt_upstreams s (cn_stream cn);
     (if ns_keepalive (st_net (up_base up)) \<and> cn_recycle cn \<and> cn_fd cn > -1 \<and> cn_net_error cn = -1
      then do { v \<leftarrow> uq; conn_recycle_idle (cn_stream cn) v e c s }
      else prepare_destroy_conn_safe c s)}"

section \<open>Timeouts\<close>

definition ETIMEDOUT :: int where "ETIMEDOUT = 110"

definition conn_timed_out :: "flb_net_setup \<Rightarrow> int \<Rightarrow> flb_connection \<Rightarrow> bool" where
  "conn_timed_out net now cn \<longleftrightarrow>
     (ns_connect_timeout net > 0 \<and> cn_ts_connect_timeout cn > 0 \<and> cn_ts_connect_timeout cn \<le> now)
     \<or> (ns_io_timeout net > 0 \<and> cn_ts_io_timeout cn > 0 \<and> cn_ts_io_timeout cn \<le> now)"

definition busy_timeout :: "stream_id \<Rightarrow> net_env \<Rightarrow> cid \<Rightarrow> net_state \<Rightarrow> net_state option" where
  "busy_timeout u e c s = do {
     cn \<leftarrow> nt_conns s c;
     up \<leftarrow> nt_upstreams s (cn_stream cn);
     (if conn_timed_out (st_net (up_base up)) (ne_time e) cn
      then do {
        s \<leftarrow> upd_conn c (\<lambda>cn. cn\<lparr>cn_net_error := ETIMEDOUT\<rparr>) s;
        s \<leftarrow> (if cn_ev_registered cn then do {
                s \<leftarrow> shutdown_connection c s;
                Some (mk_event_inject (ne_room e) c s)}
              else prepare_destroy_conn c s);
        flb_upstream_decrement_busy_connections_count u s}
      else Some s)}"

definition idle_timeout :: "stream_id \<Rightarrow> net_env \<Rightarrow> cid \<Rightarrow> net_state \<Rightarrow> net_state option" where
  "idle_timeout u e c s = do {
     cn \<leftarrow> nt_conns s c;
     up \<leftarrow> nt_upstreams s u;
     (if ne_time e - cn_ts_available cn \<ge> ns_keepalive_idle_timeout (st_net (up_base up))
      then prepare_destroy_conn c s else Some s)}"

fun each_conn :: "(cid \<Rightarrow> net_state \<Rightarrow> net_state option) \<Rightarrow> cid list \<Rightarrow> net_state \<Rightarrow> net_state option" where
  "each_conn f [] s = Some s"
| "each_conn f (c # cs) s = do { s \<leftarrow> f c s; each_conn f cs s }"

definition upstream_timeouts :: "net_env \<Rightarrow> stream_id \<Rightarrow> net_state \<Rightarrow> net_state option" where
  "upstream_timeouts e u s = do {
     uq \<leftarrow> flb_upstream_queue_get u s;
     s \<leftarrow> flb_stream_acquire_lock u s;
     v \<leftarrow> uq;
     s \<leftarrow> each_conn (busy_timeout u e) (nt_list s (BusyQueue v)) s;
     s \<leftarrow> each_conn (idle_timeout u e) (nt_list s (AvQueue v)) s;
     flb_stream_release_lock u s}"

fun flb_upstream_conn_timeouts :: "net_env \<Rightarrow> stream_id list \<Rightarrow> net_state \<Rightarrow> net_state option" where
  "flb_upstream_conn_timeouts e [] s = Some s"
| "flb_upstream_conn_timeouts e (u # us) s = do { s \<leftarrow> upstream_timeouts e u s; flb_upstream_conn_timeouts e us s }"

section \<open>Freeing\<close>

definition flb_upstream_conn_pending_destroy :: "stream_id \<Rightarrow> net_state \<Rightarrow> net_state option" where
  "flb_upstream_conn_pending_destroy u s = do {
     uq \<leftarrow> flb_upstream_queue_get u s;
     s \<leftarrow> flb_stream_acquire_lock u s;
     v \<leftarrow> uq;
     s \<leftarrow> each_conn destroy_conn (nt_list s (DestroyQueue v)) s;
     flb_stream_release_lock u s}"

definition flb_upstream_conn_active_destroy :: "stream_id \<Rightarrow> net_state \<Rightarrow> net_state option" where
  "flb_upstream_conn_active_destroy u s = do {
     uq \<leftarrow> flb_upstream_queue_get u s;
     v \<leftarrow> uq;
     each_conn destroy_conn (nt_list s (AvQueue v)) s}"

fun flb_upstream_conn_active_destroy_list :: "stream_id list \<Rightarrow> net_state \<Rightarrow> net_state option" where
  "flb_upstream_conn_active_destroy_list [] s = Some s"
| "flb_upstream_conn_active_destroy_list (u # us) s = do {
     s \<leftarrow> flb_upstream_conn_active_destroy u s;
     flb_upstream_conn_active_destroy_list us s}"

fun flb_upstream_conn_pending_destroy_list :: "stream_id list \<Rightarrow> net_state \<Rightarrow> net_state option" where
  "flb_upstream_conn_pending_destroy_list [] s = Some s"
| "flb_upstream_conn_pending_destroy_list (u # us) s = do {
     s \<leftarrow> flb_upstream_conn_pending_destroy u s;
     flb_upstream_conn_pending_destroy_list us s}"

text \<open>
  \<open>flb_upstream_destroy\<close>: with no queue for the thread, the one of the upstream itself. The upstream leaves the
  list it is linked in.
\<close>

definition clear_busy :: "(cid \<Rightarrow> net_state \<Rightarrow> net_state option) \<Rightarrow> cid \<Rightarrow> net_state \<Rightarrow> net_state option" where
  "clear_busy f c s = do { s \<leftarrow> upd_conn c (\<lambda>cn. cn\<lparr>cn_busy_flag := False\<rparr>) s; f c s }"

definition flb_upstream_destroy :: "stream_id \<Rightarrow> net_state \<Rightarrow> net_state option" where
  "flb_upstream_destroy u s = do {
     uq \<leftarrow> flb_upstream_queue_get u s;
     (let v = (case uq of None \<Rightarrow> u | Some v \<Rightarrow> v) in do {
        s \<leftarrow> each_conn (clear_busy prepare_destroy_conn) (nt_list s (AvQueue v)) s;
        s \<leftarrow> each_conn (clear_busy prepare_destroy_conn) (nt_list s (BusyQueue v)) s;
        s \<leftarrow> each_conn (clear_busy destroy_conn) (nt_list s (DestroyQueue v)) s;
        Some (s\<lparr>nt_upstreams := (nt_upstreams s)(u := None),
                nt_upstream_list := map_option (remove1 u) (nt_upstream_list s)\<rparr>)})}"

text \<open>
  The mappings of a worker thread (\<^verbatim>\<open>src/src/flb_output_thread.c\<close>): for every upstream of the output an upstream that is all
  zero but for its parent. The argument pairs each upstream with the new mapping, \<open>None\<close> when it cannot be allocated; the
  result is the list of mappings, which becomes the thread-local list.
\<close>

definition zero_upstream :: "stream_id \<Rightarrow> flb_upstream" where
  "zero_upstream u =
     \<lparr>up_base = \<lparr>st_thread_safety_flag = False, st_transport = TRANSPORT_UNSET, st_flags = 0, st_list_mutex = False,
        st_net = \<lparr>ns_keepalive = False, ns_keepalive_idle_timeout = 0, ns_keepalive_max_recycle = 0, ns_io_timeout = 0,
          ns_connect_timeout = 0, ns_accept_timeout = 0, ns_max_worker_connections = 0\<rparr>\<rparr>,
      up_parent_upstream = Some u, up_cmt_total_connections = None, up_cmt_busy_connections = None\<rparr>"

fun upstream_thread_create ::
  "(stream_id \<times> stream_id option) list \<Rightarrow> stream_id list \<Rightarrow> net_state \<Rightarrow> int \<times> stream_id list \<times> net_state" where
  "upstream_thread_create [] ths s = (0, ths, s)"
| "upstream_thread_create ((u, None) # us) ths s = (-1, ths, s)"
| "upstream_thread_create ((u, Some w) # us) ths s =
     upstream_thread_create us (ths @ [w]) (s\<lparr>nt_upstreams := (nt_upstreams s)(w \<mapsto> zero_upstream u)\<rparr>)"

definition flb_upstream_list_set :: "stream_id list \<Rightarrow> net_state \<Rightarrow> net_state" where
  "flb_upstream_list_set ths s = s\<lparr>nt_upstream_list := Some ths\<rparr>"

fun upstream_thread_destroy :: "stream_id list \<Rightarrow> net_state \<Rightarrow> net_state option" where
  "upstream_thread_destroy [] s = Some s"
| "upstream_thread_destroy (w # ws) s = do { s \<leftarrow> flb_upstream_destroy w s; upstream_thread_destroy ws s }"

definition count_upstream_busy_connections :: "stream_id list \<Rightarrow> net_state \<Rightarrow> int" where
  "count_upstream_busy_connections us s = (\<Sum>u \<leftarrow> us. int (length (nt_list s (BusyQueue u))))"

end
