(* ===== verification/Upstream_Pool.thy ===== *)
theory Upstream_Pool
  imports Upstream
begin

text \<open>
  The invariant of the pool of connections and what each operation of \<open>Upstream\<close> does to it. Every
  connection is linked in exactly one queue, of the upstream it belongs to; an available connection is not
  busy, one in the busy queue is, and one that waits to be freed and is not in use has its socket closed. Every operation returns in a state with
  the invariant, whatever the environment answers.
\<close>

section \<open>The invariant\<close>

text \<open>What the operations never change of an upstream, and the mutexes.\<close>

definition up_cfg :: "flb_upstream \<Rightarrow> stream_id option \<times> flb_stream" where
  "up_cfg up = (up_parent_upstream up, (up_base up)\<lparr>st_list_mutex := False\<rparr>)"

definition cfg :: "net_state \<Rightarrow> (stream_id \<Rightarrow> (stream_id option \<times> flb_stream) option) \<times> stream_id list option" where
  "cfg s = (\<lambda>u. map_option up_cfg (nt_upstreams s u), nt_upstream_list s)"

definition locked :: "net_state \<Rightarrow> stream_id \<Rightarrow> bool" where
  "locked s u = (case nt_upstreams s u of None \<Rightarrow> False | Some up \<Rightarrow> st_list_mutex (up_base up))"

lemma cfg_update [simp]:
  "cfg (s\<lparr>nt_conns := a\<rparr>) = cfg s" "cfg (s\<lparr>nt_list := b\<rparr>) = cfg s" "cfg (s\<lparr>nt_next := n\<rparr>) = cfg s"
  "cfg (s\<lparr>nt_bktq := d\<rparr>) = cfg s" "cfg (s\<lparr>nt_events := d\<rparr>) = cfg s" "cfg (s\<lparr>nt_closed := g\<rparr>) = cfg s"
  by (simp_all add: cfg_def)

lemma locked_update [simp]:
  "locked (s\<lparr>nt_conns := a\<rparr>) = locked s" "locked (s\<lparr>nt_list := b\<rparr>) = locked s" "locked (s\<lparr>nt_next := n\<rparr>) = locked s"
  "locked (s\<lparr>nt_bktq := d\<rparr>) = locked s" "locked (s\<lparr>nt_events := d\<rparr>) = locked s"
  "locked (s\<lparr>nt_closed := g\<rparr>) = locked s"
  by (simp_all add: locked_def fun_eq_iff)

text \<open>The queue of an upstream that is not itself the mapping of a worker.\<close>

definition queue_of :: "stream_id \<Rightarrow> net_state \<Rightarrow> stream_id option" where
  "queue_of u s =
     (case nt_upstreams s u of
        None \<Rightarrow> None
      | Some up \<Rightarrow> if up_parent_upstream up = None
                   then (case flb_upstream_queue_get u s of Some (Some v) \<Rightarrow> Some v | _ \<Rightarrow> None) else None)"

definition ev_ready :: "flb_connection \<Rightarrow> bool" where
  "ev_ready cn \<longleftrightarrow> cn_ev_type cn = EV_THREAD \<or> cn_ev_handler cn"

definition conn_ok :: "bool \<Rightarrow> (stream_id \<Rightarrow> stream_id option) \<Rightarrow> flb_connection \<Rightarrow> bool" where
  "conn_ok settled own cn \<longleftrightarrow>
     cn_type cn = FLB_UPSTREAM_CONNECTION \<and> cn_dynamically_allocated cn
     \<and> (cn_ev_registered cn \<longrightarrow> ev_ready cn)
     \<and> (\<exists>v. own (cn_stream cn) = Some v
           \<and> (cn_link cn = Some (AvQueue v) \<and> \<not> cn_busy_flag cn
              \<or> cn_link cn = Some (BusyQueue v) \<and> (settled \<longrightarrow> cn_busy_flag cn)
              \<or> cn_link cn = Some (DestroyQueue v) \<and> (settled \<and> \<not> cn_busy_flag cn \<longrightarrow> cn_fd cn \<le> 0)))"

text \<open>The connections of \<open>X\<close> may be about to be moved: they are not busy any more but not yet closed.\<close>

definition pool_inv :: "cid set \<Rightarrow> net_state \<Rightarrow> bool" where
  "pool_inv X s \<longleftrightarrow>
     linked_ok s
     \<and> (\<forall>c cn. nt_conns s c = Some cn \<longrightarrow> c < nt_next s \<and> conn_ok (c \<notin> X) (\<lambda>u. queue_of u s) cn)
     \<and> distinct (nt_bktq s)
     \<and> (\<forall>c \<in> set (nt_bktq s). \<exists>cn. nt_conns s c = Some cn \<and> ev_ready cn)"

lemma pool_invD:
  assumes "pool_inv X s"
  shows "c \<in> set (nt_list s q) \<longleftrightarrow> (\<exists>cn. nt_conns s c = Some cn \<and> cn_link cn = Some q)"
    and "distinct (nt_list s q)"
    and "nt_conns s c = Some cn \<Longrightarrow> c < nt_next s"
    and "nt_conns s c = Some cn \<Longrightarrow> conn_ok (c \<notin> X) (\<lambda>u. queue_of u s) cn"
    and "distinct (nt_bktq s)"
    and "c \<in> set (nt_bktq s) \<Longrightarrow> \<exists>cn. nt_conns s c = Some cn \<and> ev_ready cn"
  using assms linked_okD(1) [of s c q] linked_okD(2) [of s q] unfolding pool_inv_def by blast+

lemma pool_inv_linked: "pool_inv X s \<Longrightarrow> linked_ok s"
  by (simp add: pool_inv_def)

lemma cfg_eqD:
  assumes "cfg s' = cfg s"
  shows "map_option up_cfg (nt_upstreams s' u) = map_option up_cfg (nt_upstreams s u)"
    and "nt_upstream_list s' = nt_upstream_list s"
  using assms by (simp_all add: cfg_def fun_eq_iff)

lemma cfg_upstream:
  assumes "cfg s' = cfg s" and "nt_upstreams s u = Some up"
  obtains up' where "nt_upstreams s' u = Some up'" and "up_cfg up' = up_cfg up"
  using cfg_eqD(1) [OF assms(1), of u] assms(2) by (cases "nt_upstreams s' u") auto

lemma up_cfg_eq_iff:
  "up_cfg up' = up_cfg up \<longleftrightarrow>
     up_parent_upstream up' = up_parent_upstream up
     \<and> st_thread_safety_flag (up_base up') = st_thread_safety_flag (up_base up)
     \<and> st_transport (up_base up') = st_transport (up_base up)
     \<and> st_flags (up_base up') = st_flags (up_base up) \<and> st_net (up_base up') = st_net (up_base up)"
  by (cases "up_base up"; cases "up_base up'") (auto simp: up_cfg_def)

lemma queue_search_cfg:
  assumes "cfg s' = cfg s"
  shows "queue_search s' u vs = queue_search s u vs"
proof (induction vs)
  case Nil
  show ?case by simp
next
  case (Cons v vs)
  show ?case using Cons cfg_eqD(1) [OF assms, of v]
    by (cases "nt_upstreams s v"; cases "nt_upstreams s' v") (auto simp: up_cfg_eq_iff)
qed

lemma queue_get_cfg:
  assumes "cfg s' = cfg s"
  shows "flb_upstream_queue_get u s' = flb_upstream_queue_get u s"
  using cfg_eqD(1) [OF assms, of u] cfg_eqD(2) [OF assms]
  unfolding flb_upstream_queue_get_def queue_search_cfg [OF assms]
  by (cases "nt_upstreams s u"; cases "nt_upstreams s' u") (auto simp: up_cfg_eq_iff)

lemma queue_of_cfg:
  assumes "cfg s' = cfg s"
  shows "queue_of u s' = queue_of u s"
  using cfg_eqD(1) [OF assms, of u] unfolding queue_of_def queue_get_cfg [OF assms]
  by (cases "nt_upstreams s u"; cases "nt_upstreams s' u") (auto simp: up_cfg_eq_iff)

lemma queue_ofD:
  assumes "queue_of u s = Some v"
  obtains up where "nt_upstreams s u = Some up" and "up_parent_upstream up = None"
    and "flb_upstream_queue_get u s = Some (Some v)"
  using assms by (auto simp: queue_of_def split: option.splits if_splits)

text \<open>Rules for the changes the operations are made of.\<close>

lemma pool_inv_frame:
  assumes "pool_inv X s" and "nt_conns s' = nt_conns s" and "nt_list s' = nt_list s" and "nt_next s' = nt_next s"
    and "cfg s' = cfg s" and "distinct (nt_bktq s')" and "set (nt_bktq s') \<subseteq> set (nt_bktq s)"
  shows "pool_inv X s'"
  using assms linked_frame [of s s'] unfolding pool_inv_def queue_of_cfg [OF assms(5)] by (simp add: subset_iff)

lemma pool_inv_conn:
  assumes inv: "pool_inv X s" and c: "nt_conns s c = Some cn"
    and "cn_link cn' = cn_link cn" and "ev_ready cn \<Longrightarrow> ev_ready cn'"
    and "conn_ok (c \<notin> Y) (\<lambda>u. queue_of u s) cn'" and "X \<subseteq> insert c Y"
  shows "pool_inv Y (s\<lparr>nt_conns := (nt_conns s)(c \<mapsto> cn')\<rparr>)"
proof -
  let ?s = "s\<lparr>nt_conns := (nt_conns s)(c \<mapsto> cn')\<rparr>"
  have own: "queue_of u ?s = queue_of u s" for u by (rule queue_of_cfg) (simp add: cfg_def)
  have weak: "conn_ok (d \<notin> Y) own x" if "conn_ok (d \<notin> X) own x" "d \<noteq> c" for d x own
    using that \<open>X \<subseteq> insert c Y\<close> unfolding conn_ok_def by blast
  show ?thesis unfolding pool_inv_def own
    using assms weak linked_conn [OF pool_inv_linked [OF inv] c] by (auto simp: pool_inv_def split: if_splits)
qed

lemma pool_inv_relink:
  assumes inv: "pool_inv X s" and c: "nt_conns s c = Some cn" and q: "cn_link cn = Some q"
    and q': "cn_link cn' = Some q'" and "ev_ready cn \<Longrightarrow> ev_ready cn'"
    and "conn_ok (c \<notin> Y) (\<lambda>u. queue_of u s) cn'" and "X \<subseteq> insert c Y"
  shows "pool_inv Y (s\<lparr>nt_conns := (nt_conns s)(c \<mapsto> cn'), nt_list := moved c q q' (nt_list s)\<rparr>)"
proof -
  let ?s = "s\<lparr>nt_conns := (nt_conns s)(c \<mapsto> cn'), nt_list := moved c q q' (nt_list s)\<rparr>"
  have own: "queue_of u ?s = queue_of u s" for u by (rule queue_of_cfg) (simp add: cfg_def)
  have weak: "conn_ok (d \<notin> Y) own x" if "conn_ok (d \<notin> X) own x" "d \<noteq> c" for d x own
    using that \<open>X \<subseteq> insert c Y\<close> unfolding conn_ok_def by blast
  show ?thesis unfolding pool_inv_def own
    using assms weak linked_relink [OF pool_inv_linked [OF inv] c q q'] by (auto simp: pool_inv_def split: if_splits)
qed

section \<open>Locks and gauges\<close>

definition touch :: "net_state \<Rightarrow> net_state \<Rightarrow> bool" where
  "touch s s' \<longleftrightarrow> (\<exists>ups. s' = s\<lparr>nt_upstreams := ups\<rparr>) \<and> cfg s' = cfg s"

lemma touchD:
  assumes "touch s s'"
  shows "nt_conns s' = nt_conns s" and "nt_list s' = nt_list s" and "nt_next s' = nt_next s"
    and "nt_bktq s' = nt_bktq s" and "nt_events s' = nt_events s" and "cfg s' = cfg s"
  using assms by (auto simp: touch_def)

lemma touch_refl [simp]: "touch s s"
  by (auto simp: touch_def intro: exI [of _ "nt_upstreams s"])

lemma touch_trans: "touch s s' \<Longrightarrow> touch s' s'' \<Longrightarrow> touch s s''"
  by (auto simp: touch_def)

lemma pool_inv_touch: "touch s s' \<Longrightarrow> pool_inv X s \<Longrightarrow> pool_inv X s'"
  by (rule pool_inv_frame) (auto simp: touchD pool_invD(5))

lemma touch_upstream:
  assumes "nt_upstreams s u = Some up" and "up_cfg (f up) = up_cfg up"
  shows "touch s (s\<lparr>nt_upstreams := (nt_upstreams s)(u \<mapsto> f up)\<rparr>)"
  using assms by (auto simp: touch_def cfg_def fun_eq_iff)

lemma bump_cfg [simp]:
  "up_cfg (bump_total n up) = up_cfg up" "up_cfg (bump_busy n up) = up_cfg up" "up_cfg (set_mutex b up) = up_cfg up"
  by (simp_all add: up_cfg_eq_iff bump_total_def bump_busy_def set_mutex_def)

lemma bump_mutex [simp]:
  "st_list_mutex (up_base (bump_total n up)) = st_list_mutex (up_base up)"
  "st_list_mutex (up_base (bump_busy n up)) = st_list_mutex (up_base up)"
  by (simp_all add: bump_total_def bump_busy_def)

lemma gauge_runs:
  assumes "queue_of u s = Some v"
  shows "runs (flb_upstream_increment_total_connections_count u s) (\<lambda>s'. touch s s' \<and> locked s' = locked s)"
    and "runs (flb_upstream_decrement_total_connections_count u s) (\<lambda>s'. touch s s' \<and> locked s' = locked s)"
    and "runs (flb_upstream_increment_busy_connections_count u s) (\<lambda>s'. touch s s' \<and> locked s' = locked s)"
    and "runs (flb_upstream_decrement_busy_connections_count u s) (\<lambda>s'. touch s s' \<and> locked s' = locked s)"
proof -
  from assms obtain up where up: "nt_upstreams s u = Some up" "up_parent_upstream up = None"
    by (rule queue_ofD)
  have total: "touch s (s\<lparr>nt_upstreams := (nt_upstreams s)(u \<mapsto> bump_total n up)\<rparr>)"
    "locked (s\<lparr>nt_upstreams := (nt_upstreams s)(u \<mapsto> bump_total n up)\<rparr>) = locked s" for n
    using up by (simp_all add: touch_upstream locked_def fun_eq_iff)
  have busy: "touch s (s\<lparr>nt_upstreams := (nt_upstreams s)(u \<mapsto> bump_busy n up)\<rparr>)"
    "locked (s\<lparr>nt_upstreams := (nt_upstreams s)(u \<mapsto> bump_busy n up)\<rparr>) = locked s" for n
    using up by (simp_all add: touch_upstream locked_def fun_eq_iff)
  note step = upd_upstream_def up total busy
  show "runs (flb_upstream_increment_total_connections_count u s) (\<lambda>s'. touch s s' \<and> locked s' = locked s)"
    by (subst flb_upstream_increment_total_connections_count.simps) (simp add: step)
  show "runs (flb_upstream_decrement_total_connections_count u s) (\<lambda>s'. touch s s' \<and> locked s' = locked s)"
    by (subst flb_upstream_decrement_total_connections_count.simps) (simp add: step)
  show "runs (flb_upstream_increment_busy_connections_count u s) (\<lambda>s'. touch s s' \<and> locked s' = locked s)"
    by (subst flb_upstream_increment_busy_connections_count.simps) (simp add: step)
  show "runs (flb_upstream_decrement_busy_connections_count u s) (\<lambda>s'. touch s s' \<and> locked s' = locked s)"
    by (subst flb_upstream_decrement_busy_connections_count.simps) (simp add: step)
qed

definition unlocked :: "net_state \<Rightarrow> bool" where
  "unlocked s \<longleftrightarrow> (\<forall>u. \<not> locked s u)"

text \<open>Acquiring the lock, an operation that leaves locks alone, releasing it.\<close>

lemma with_lock:
  assumes un: "unlocked s" and u: "nt_upstreams s u = Some up"
    and body: "\<And>s1. touch s s1 \<Longrightarrow> runs (f s1) (\<lambda>s2. locked s2 = locked s1 \<and> cfg s2 = cfg s1 \<and> Q s2)"
    and Q: "\<And>s2 s3. touch s2 s3 \<Longrightarrow> Q s2 \<Longrightarrow> Q s3"
  shows "runs (do { s1 \<leftarrow> flb_stream_acquire_lock u s; s2 \<leftarrow> f s1; flb_stream_release_lock u s2 })
              (\<lambda>s'. Q s' \<and> cfg s' = cfg s \<and> unlocked s')"
proof (cases "st_thread_safety_flag (up_base up)")
  case False
  have "runs (f s) (\<lambda>s2. runs (flb_stream_release_lock u s2) (\<lambda>s'. Q s' \<and> cfg s' = cfg s \<and> unlocked s'))"
  proof (rule runs_mono [OF body])
    fix s2 assume s2: "locked s2 = locked s \<and> cfg s2 = cfg s \<and> Q s2"
    then obtain up2 where "nt_upstreams s2 u = Some up2" "up_cfg up2 = up_cfg up" using u by (metis cfg_upstream)
    then show "runs (flb_stream_release_lock u s2) (\<lambda>s'. Q s' \<and> cfg s' = cfg s \<and> unlocked s')"
      using False s2 un by (simp add: flb_stream_release_lock_def up_cfg_eq_iff unlocked_def)
  qed simp
  then show ?thesis using False u by (simp add: flb_stream_acquire_lock_def)
next
  case True
  let ?s1 = "s\<lparr>nt_upstreams := (nt_upstreams s)(u \<mapsto> set_mutex True up)\<rparr>"
  have t1: "touch s ?s1" using u by (simp add: touch_upstream)
  have l1: "locked ?s1 = (locked s)(u := True)" by (auto simp: locked_def fun_eq_iff set_mutex_def)
  have acq: "flb_stream_acquire_lock u s = Some ?s1"
    using True u un by (auto simp: flb_stream_acquire_lock_def upd_upstream_def unlocked_def locked_def dest: spec [of _ u])
  have "runs (f ?s1) (\<lambda>s2. runs (flb_stream_release_lock u s2) (\<lambda>s'. Q s' \<and> cfg s' = cfg s \<and> unlocked s'))"
  proof (rule runs_mono [OF body [OF t1]])
    fix s2 assume s2: "locked s2 = locked ?s1 \<and> cfg s2 = cfg ?s1 \<and> Q s2"
    then have "cfg s2 = cfg s" using touchD(6) [OF t1] by simp
    then obtain up2 where up2: "nt_upstreams s2 u = Some up2" "up_cfg up2 = up_cfg up" using u by (rule cfg_upstream)
    let ?s3 = "s2\<lparr>nt_upstreams := (nt_upstreams s2)(u \<mapsto> set_mutex False up2)\<rparr>"
    have t3: "touch s2 ?s3" using up2 by (simp add: touch_upstream)
    have "locked ?s3 = (locked s2)(u := False)" by (auto simp: locked_def fun_eq_iff set_mutex_def)
    then have "unlocked ?s3" using un s2 l1 by (auto simp: unlocked_def)
    moreover have "flb_stream_release_lock u s2 = Some ?s3"
      using True up2 by (simp add: flb_stream_release_lock_def upd_upstream_def up_cfg_eq_iff)
    ultimately show "runs (flb_stream_release_lock u s2) (\<lambda>s'. Q s' \<and> cfg s' = cfg s \<and> unlocked s')"
      using Q [OF t3] s2 touchD(6) [OF t3] \<open>cfg s2 = cfg s\<close> by simp
  qed
  then show ?thesis by (simp add: acq)
qed

section \<open>Moving a connection to the queue of those to be freed\<close>

definition close_conn :: "flb_connection \<Rightarrow> flb_connection" where
  "close_conn cn =
     (let cn = (if cn_ev_registered cn then mk_event_new cn else cn)
      in if cn_fd cn > 0
         then (let cn = tls_session_invalidate cn;
                   cn = (if cn_shutdown_flag cn then cn else cn\<lparr>cn_shutdown_flag := True\<rparr>)
               in cn\<lparr>cn_fd := -1, cn_ev_fd := -1\<rparr>)
         else cn)"

lemma invalidate_fields [simp]:
  "cn_stream (tls_session_invalidate cn) = cn_stream cn" "cn_type (tls_session_invalidate cn) = cn_type cn"
  "cn_dynamically_allocated (tls_session_invalidate cn) = cn_dynamically_allocated cn"
  "cn_busy_flag (tls_session_invalidate cn) = cn_busy_flag cn" "cn_link (tls_session_invalidate cn) = cn_link cn"
  "cn_ev_type (tls_session_invalidate cn) = cn_ev_type cn" "cn_ev_handler (tls_session_invalidate cn) = cn_ev_handler cn"
  "cn_ev_registered (tls_session_invalidate cn) = cn_ev_registered cn" "cn_fd (tls_session_invalidate cn) = cn_fd cn"
  "cn_shutdown_flag (tls_session_invalidate cn) = cn_shutdown_flag cn"
  by (simp_all add: tls_session_invalidate_def split: tls_session.splits)

lemma mk_event_new_fields [simp]:
  "cn_stream (mk_event_new cn) = cn_stream cn" "cn_type (mk_event_new cn) = cn_type cn"
  "cn_dynamically_allocated (mk_event_new cn) = cn_dynamically_allocated cn"
  "cn_busy_flag (mk_event_new cn) = cn_busy_flag cn" "cn_link (mk_event_new cn) = cn_link cn"
  "cn_ev_type (mk_event_new cn) = cn_ev_type cn" "cn_ev_handler (mk_event_new cn) = cn_ev_handler cn"
  "cn_ev_registered (mk_event_new cn) = False" "cn_fd (mk_event_new cn) = cn_fd cn"
  "cn_shutdown_flag (mk_event_new cn) = cn_shutdown_flag cn" "cn_ev_mask (mk_event_new cn) = MK_EVENT_EMPTY"
  "cn_ka_count (mk_event_new cn) = cn_ka_count cn"
  by (simp_all add: mk_event_new_def)

lemma close_conn_fields [simp]:
  "cn_stream (close_conn cn) = cn_stream cn" "cn_type (close_conn cn) = cn_type cn"
  "cn_dynamically_allocated (close_conn cn) = cn_dynamically_allocated cn"
  "cn_busy_flag (close_conn cn) = cn_busy_flag cn" "cn_link (close_conn cn) = cn_link cn"
  "cn_ev_type (close_conn cn) = cn_ev_type cn" "cn_ev_handler (close_conn cn) = cn_ev_handler cn"
  "\<not> cn_ev_registered (close_conn cn)" "cn_fd (close_conn cn) \<le> 0"
  by (simp_all add: close_conn_def Let_def)

definition destroy_moved :: "cid \<Rightarrow> flb_connection \<Rightarrow> list_head \<Rightarrow> stream_id \<Rightarrow> net_state \<Rightarrow> net_state" where
  "destroy_moved c cn q v s =
     s\<lparr>nt_bktq := (if cn_ev_registered cn then remove1 c (nt_bktq s) else nt_bktq s),
       nt_closed := (if cn_fd cn > 0 then nt_closed s @ [cn_fd cn] else nt_closed s),
       nt_conns := (nt_conns s)(c \<mapsto> (close_conn cn)\<lparr>cn_link := Some (DestroyQueue v)\<rparr>),
       nt_list := moved c q (DestroyQueue v) (nt_list s)\<rparr>"

lemma close_fd_eq:
  "nt_conns s c = Some cn \<Longrightarrow> \<not> cn_ev_registered cn \<Longrightarrow>
   close_fd c s = Some (s\<lparr>nt_conns := (nt_conns s)(c \<mapsto> close_conn cn),
                          nt_closed := (if cn_fd cn > 0 then nt_closed s @ [cn_fd cn] else nt_closed s)\<rparr>)"
  by (simp add: close_fd_def close_conn_def upd_conn_def shutdown_connection_def flb_socket_close_def fun_upd_idem)

lemma close_conn_unregistered: "close_conn (mk_event_new cn) = close_conn cn" if "cn_ev_registered cn"
  using that by (simp add: close_conn_def)

lemma prepare_destroy_conn_eq:
  assumes c: "nt_conns s c = Some cn" and q: "cn_link cn = Some q" and v: "queue_of (cn_stream cn) s = Some v"
  shows "prepare_destroy_conn c s =
         flb_upstream_decrement_total_connections_count (cn_stream cn) (destroy_moved c cn q v s)"
proof -
  from v have get: "flb_upstream_queue_get (cn_stream cn) s = Some (Some v)" by (rule queue_ofD)
  show ?thesis
  proof (cases "cn_ev_registered cn")
    case True
    let ?s = "s\<lparr>nt_conns := (nt_conns s)(c \<mapsto> mk_event_new cn), nt_bktq := remove1 c (nt_bktq s)\<rparr>"
    have "mk_event_del c s = Some ?s"
      using c True by (simp add: mk_event_del_def upd_conn_def bktq_unlink_def)
    moreover have "close_fd c ?s = Some (?s\<lparr>nt_conns := (nt_conns s)(c \<mapsto> close_conn cn),
        nt_closed := (if cn_fd cn > 0 then nt_closed s @ [cn_fd cn] else nt_closed s)\<rparr>)"
      by (simp add: close_fd_eq close_conn_unregistered [OF True])
    ultimately show ?thesis using c q True
      by (simp add: prepare_destroy_conn_def get mk_list_del_def mk_list_add_def moved_def Let_def destroy_moved_def)
  next
    case False
    then show ?thesis using c q
      by (simp add: prepare_destroy_conn_def get close_fd_eq mk_list_del_def mk_list_add_def moved_def Let_def
          destroy_moved_def)
  qed
qed

section \<open>What operations keep\<close>

definition ready :: "net_state \<Rightarrow> cid \<Rightarrow> bool" where
  "ready s c \<longleftrightarrow> (\<exists>cn. nt_conns s c = Some cn \<and> ev_ready cn)"

definition busy :: "net_state \<Rightarrow> cid \<Rightarrow> bool" where
  "busy s c \<longleftrightarrow> (\<exists>cn. nt_conns s c = Some cn \<and> cn_busy_flag cn)"

definition roster :: "net_state \<Rightarrow> cid \<Rightarrow> stream_id option" where
  "roster s c = map_option cn_stream (nt_conns s c)"

text \<open>No connection is created or freed, and only those of \<open>X\<close> become busy or cease to be so.\<close>

definition keeps :: "cid set \<Rightarrow> net_state \<Rightarrow> net_state \<Rightarrow> bool" where
  "keeps X s s' \<longleftrightarrow>
     cfg s' = cfg s \<and> nt_next s' = nt_next s \<and> roster s' = roster s
     \<and> (\<forall>c. ready s c \<longrightarrow> ready s' c) \<and> (\<forall>c. c \<notin> X \<longrightarrow> busy s' c = busy s c)
     \<and> (\<forall>c \<in> set (nt_events s'). c \<in> set (nt_events s) \<or> ready s' c)"

lemma keeps_refl [simp]: "keeps X s s"
  by (simp add: keeps_def)

lemma keeps_trans: "keeps X s s' \<Longrightarrow> keeps Y s' s'' \<Longrightarrow> X \<union> Y \<subseteq> Z \<Longrightarrow> keeps Z s s''"
  unfolding keeps_def by (simp add: subset_iff) blast

lemma keepsD:
  assumes "keeps X s s'"
  shows "cfg s' = cfg s" and "nt_next s' = nt_next s" and "roster s' = roster s"
    and "ready s c \<Longrightarrow> ready s' c" and "c \<notin> X \<Longrightarrow> busy s' c = busy s c"
    and "c \<in> set (nt_events s') \<Longrightarrow> c \<in> set (nt_events s) \<or> ready s' c"
  using assms unfolding keeps_def by blast+

lemma keeps_touch: "touch s s' \<Longrightarrow> keeps X s s'"
  by (simp add: keeps_def ready_def busy_def roster_def fun_eq_iff touchD)

lemma keeps_live: "keeps X s s' \<Longrightarrow> nt_conns s c = Some cn \<Longrightarrow> \<exists>cn'. nt_conns s' c = Some cn' \<and> cn_stream cn' = cn_stream cn"
  by (drule keepsD(3)) (auto simp: roster_def fun_eq_iff dest!: spec [of _ c])

lemma keeps_conn:
  assumes "nt_conns s c = Some cn" and "nt_conns s' = (nt_conns s)(c \<mapsto> cn')" and "cn_stream cn' = cn_stream cn"
    and "ev_ready cn \<Longrightarrow> ev_ready cn'" and "c \<in> X \<or> cn_busy_flag cn' = cn_busy_flag cn"
    and "cfg s' = cfg s" and "nt_next s' = nt_next s" and "nt_events s' = nt_events s"
  shows "keeps X s s'"
  using assms by (auto simp: keeps_def ready_def busy_def roster_def fun_eq_iff)

lemma conn_okD:
  assumes "pool_inv X s" and "nt_conns s c = Some cn"
  obtains v q where "queue_of (cn_stream cn) s = Some v" and "cn_link cn = Some q"
    and "cn_type cn = FLB_UPSTREAM_CONNECTION" and "cn_dynamically_allocated cn"
    and "q = AvQueue v \<or> q = BusyQueue v \<or> q = DestroyQueue v"
    and "cn_ev_registered cn \<longrightarrow> ev_ready cn" and "q = AvQueue v \<longrightarrow> \<not> cn_busy_flag cn"
  using pool_invD(4) [OF assms] by (auto simp: conn_ok_def)

lemma prepare_destroy_conn_runs:
  assumes inv: "pool_inv X s" and X: "X \<subseteq> {c}" and c: "nt_conns s c = Some cn"
  shows "runs (prepare_destroy_conn c s) (\<lambda>s'. locked s' = locked s \<and> pool_inv {} s' \<and> keeps {} s s'
           \<and> (\<exists>v. queue_of (cn_stream cn) s = Some v
                  \<and> nt_conns s' = (nt_conns s)(c \<mapsto> (close_conn cn)\<lparr>cn_link := Some (DestroyQueue v)\<rparr>)))"
proof -
  from inv c obtain v q where v: "queue_of (cn_stream cn) s = Some v" and q: "cn_link cn = Some q"
    and ty: "cn_type cn = FLB_UPSTREAM_CONNECTION" "cn_dynamically_allocated cn" by (rule conn_okD)
  let ?cn = "(close_conn cn)\<lparr>cn_link := Some (DestroyQueue v)\<rparr>"
  let ?m = "destroy_moved c cn q v s"
  have ready: "ev_ready cn \<Longrightarrow> ev_ready ?cn" by (simp add: ev_ready_def)
  have "pool_inv {} (s\<lparr>nt_conns := (nt_conns s)(c \<mapsto> ?cn), nt_list := moved c q (DestroyQueue v) (nt_list s)\<rparr>)"
    by (rule pool_inv_relink [OF inv c q _ ready]) (use X ty v in \<open>simp_all add: conn_ok_def\<close>)
  then have m: "pool_inv {} ?m"
    by (rule pool_inv_frame)
      (use pool_invD(5) [OF inv] set_remove1_subset [of c "nt_bktq s"] in \<open>auto simp: destroy_moved_def cfg_def\<close>)
  have k: "keeps {} s ?m"
    by (rule keeps_conn [OF c _ _ ready]) (simp_all add: destroy_moved_def cfg_def)
  have l: "locked ?m = locked s" by (simp add: locked_def destroy_moved_def fun_eq_iff)
  have "queue_of (cn_stream cn) ?m = Some v" using v queue_of_cfg [OF keepsD(1) [OF k]] by simp
  from gauge_runs(2) [OF this] show ?thesis unfolding prepare_destroy_conn_eq [OF c q v]
  proof (rule runs_mono)
    fix s' assume t: "touch ?m s' \<and> locked s' = locked ?m"
    then show "locked s' = locked s \<and> pool_inv {} s' \<and> keeps {} s s'
        \<and> (\<exists>v. queue_of (cn_stream cn) s = Some v
               \<and> nt_conns s' = (nt_conns s)(c \<mapsto> (close_conn cn)\<lparr>cn_link := Some (DestroyQueue v)\<rparr>))"
      using pool_inv_touch [OF _ m] keeps_trans [OF k keeps_touch [of ?m s' "{}"]] l v
      by (auto simp: touchD destroy_moved_def)
  qed
qed

text \<open>What it takes to free a connection later: not busy, closed.\<close>

lemma prepare_destroy_conn_safe_runs:
  assumes inv: "pool_inv X s" and X: "X \<subseteq> {c}" and c: "nt_conns s c = Some cn" and un: "unlocked s"
  shows "runs (prepare_destroy_conn_safe c s) (\<lambda>s'. unlocked s' \<and> pool_inv {} s' \<and> keeps {} s s'
           \<and> (\<exists>v. queue_of (cn_stream cn) s = Some v
                  \<and> nt_conns s' = (nt_conns s)(c \<mapsto> (close_conn cn)\<lparr>cn_link := Some (DestroyQueue v)\<rparr>)))"
proof -
  let ?Q = "\<lambda>s'. pool_inv {} s' \<and> keeps {} s s'
           \<and> (\<exists>v. queue_of (cn_stream cn) s = Some v
                  \<and> nt_conns s' = (nt_conns s)(c \<mapsto> (close_conn cn)\<lparr>cn_link := Some (DestroyQueue v)\<rparr>))"
  from inv c obtain v where "queue_of (cn_stream cn) s = Some v" by (rule conn_okD)
  then obtain up where up: "nt_upstreams s (cn_stream cn) = Some up" by (rule queue_ofD)
  have body: "runs (prepare_destroy_conn c s1) (\<lambda>s2. locked s2 = locked s1 \<and> cfg s2 = cfg s1 \<and> ?Q s2)"
    if t: "touch s s1" for s1
  proof (rule runs_mono [OF prepare_destroy_conn_runs [OF pool_inv_touch [OF t inv] X, of cn]])
    show "nt_conns s1 c = Some cn" using c t by (simp add: touchD)
  qed (use t queue_of_cfg [OF touchD(6) [OF t]] keeps_trans [OF keeps_touch [OF t, of "{}"], of "{}" _ "{}"]
       in \<open>auto simp: touchD keepsD(1)\<close>)
  have "runs (do { s1 \<leftarrow> flb_stream_acquire_lock (cn_stream cn) s; s2 \<leftarrow> prepare_destroy_conn c s1;
                   flb_stream_release_lock (cn_stream cn) s2 }) (\<lambda>s'. ?Q s' \<and> cfg s' = cfg s \<and> unlocked s')"
  proof (rule with_lock [OF un up body])
    show "?Q s3" if "touch s2 s3" "?Q s2" for s2 s3
      using that pool_inv_touch keeps_trans [OF _ keeps_touch [OF that(1), of "{}"], of "{}" s "{}"] by (auto simp: touchD)
  qed
  then show ?thesis using c by (simp add: prepare_destroy_conn_safe_def runs_iff) blast
qed

end
