(* ===== verification/Upstream_Ops.thy ===== *)
theory Upstream_Ops
  imports Upstream_Pool
begin

text \<open>
  The operations of the pool under its invariant: taking a connection, releasing it, timeouts and freeing. Each lemma
  says that the operation returns, keeps the invariant and holds no lock afterwards, and which connections it
  creates, frees or hands out.
\<close>

abbreviation good :: "net_state \<Rightarrow> bool" where
  "good s \<equiv> pool_inv {} s \<and> unlocked s"

lemma upd_conn_eq: "nt_conns s c = Some cn \<Longrightarrow> upd_conn c f s = Some (s\<lparr>nt_conns := (nt_conns s)(c \<mapsto> f cn)\<rparr>)"
  by (simp add: upd_conn_def)

lemma unlocked_update [simp]:
  "unlocked (s\<lparr>nt_conns := a\<rparr>) = unlocked s" "unlocked (s\<lparr>nt_events := b\<rparr>) = unlocked s"
  "unlocked (s\<lparr>nt_next := n\<rparr>) = unlocked s" "unlocked (s\<lparr>nt_bktq := d\<rparr>) = unlocked s"
  by (simp_all add: unlocked_def)

lemma with_lock_then:
  assumes "unlocked s" and "nt_upstreams s u = Some up"
    and "\<And>s1. touch s s1 \<Longrightarrow> runs (f s1) (\<lambda>s2. locked s2 = locked s1 \<and> cfg s2 = cfg s1 \<and> Q s2)"
    and "\<And>s2 s3. touch s2 s3 \<Longrightarrow> Q s2 \<Longrightarrow> Q s3"
    and "\<And>s'. Q s' \<Longrightarrow> cfg s' = cfg s \<Longrightarrow> unlocked s' \<Longrightarrow> P s'"
  shows "runs (flb_stream_acquire_lock u s) (\<lambda>s1. runs (f s1) (\<lambda>s2. runs (flb_stream_release_lock u s2) P))"
proof -
  have "runs (do { s1 \<leftarrow> flb_stream_acquire_lock u s; s2 \<leftarrow> f s1; flb_stream_release_lock u s2 }) P"
    by (rule runs_mono [OF with_lock [of s u up f Q]]) (use assms in auto)
  then show ?thesis by simp
qed

section \<open>Freeing\<close>

lemma pool_inv_free:
  assumes inv: "pool_inv X s" and c: "nt_conns s c = Some cn" and q: "cn_link cn = Some q" and b: "c \<notin> set (nt_bktq s)"
  shows "pool_inv X (s\<lparr>nt_conns := (nt_conns s)(c := None), nt_list := (nt_list s)(q := remove1 c (nt_list s q))\<rparr>)"
proof -
  let ?s = "s\<lparr>nt_conns := (nt_conns s)(c := None), nt_list := (nt_list s)(q := remove1 c (nt_list s q))\<rparr>"
  have own: "queue_of u ?s = queue_of u s" for u by (rule queue_of_cfg) (simp add: cfg_def)
  show ?thesis unfolding pool_inv_def own
    using inv b linked_free [OF pool_inv_linked [OF inv] c q] by (auto simp: pool_inv_def split: if_splits)
qed

text \<open>\<open>sheds D s s'\<close>: the connections of \<open>D\<close> are freed and nothing else happens to connections and events.\<close>

definition sheds :: "cid set \<Rightarrow> net_state \<Rightarrow> net_state \<Rightarrow> bool" where
  "sheds D s s' \<longleftrightarrow>
     nt_conns s' = (\<lambda>c. if c \<in> D then None else nt_conns s c) \<and> cfg s' = cfg s \<and> locked s' = locked s
     \<and> nt_next s' = nt_next s \<and> nt_events s' = nt_events s \<and> nt_bktq s' = nt_bktq s"

lemma destroy_conn_runs:
  assumes inv: "pool_inv {} s" and c: "nt_conns s c = Some cn"
  shows "runs (destroy_conn c s)
           (\<lambda>s'. pool_inv {} s' \<and> sheds (if busy s c \<or> c \<in> set (nt_bktq s) then {} else {c}) s s')"
proof (cases "cn_busy_flag cn \<or> c \<in> set (nt_bktq s)")
  case True
  then show ?thesis using c inv by (auto simp: destroy_conn_def sheds_def busy_def)
next
  case False
  from inv c obtain q where q: "cn_link cn = Some q" and dyn: "cn_dynamically_allocated cn" by (rule conn_okD)
  let ?s = "s\<lparr>nt_conns := (nt_conns s)(c := None), nt_list := (nt_list s)(q := remove1 c (nt_list s q))\<rparr>"
  have "destroy_conn c s = Some ?s" using False c q dyn
    by (simp add: destroy_conn_def upd_conn_eq mk_list_del_def flb_connection_destroy_def)
  moreover have "pool_inv {} ?s" using pool_inv_free [OF inv c q] False by simp
  moreover have "sheds {c} s ?s" by (auto simp: sheds_def cfg_def locked_def fun_eq_iff)
  ultimately show ?thesis using False c by (auto simp: busy_def)
qed

lemma shedsD:
  assumes "sheds D s s'"
  shows "nt_conns s' c = (if c \<in> D then None else nt_conns s c)" and "cfg s' = cfg s" and "locked s' = locked s"
    and "nt_next s' = nt_next s" and "nt_events s' = nt_events s" and "nt_bktq s' = nt_bktq s"
  using assms unfolding sheds_def by auto

lemma sheds_trans: "sheds D s s' \<Longrightarrow> sheds E s' s'' \<Longrightarrow> sheds (D \<union> E) s s''"
  by (auto simp: sheds_def fun_eq_iff)

definition freeable :: "net_state \<Rightarrow> cid \<Rightarrow> bool" where
  "freeable s c \<longleftrightarrow> \<not> busy s c \<and> c \<notin> set (nt_bktq s)"

lemma each_destroy_runs:
  assumes "pool_inv {} s" and "distinct cs" and "\<forall>c \<in> set cs. nt_conns s c \<noteq> None"
  shows "runs (each_conn destroy_conn cs s) (\<lambda>s'. pool_inv {} s' \<and> sheds {c \<in> set cs. freeable s c} s s')"
  using assms
proof (induction cs arbitrary: s)
  case Nil
  then show ?case by (simp add: sheds_def)
next
  case (Cons c cs)
  then obtain cn where c: "nt_conns s c = Some cn" by auto
  have "runs (destroy_conn c s) (\<lambda>s1. runs (each_conn destroy_conn cs s1)
          (\<lambda>s'. pool_inv {} s' \<and> sheds {c' \<in> set (c # cs). freeable s c'} s s'))"
  proof (rule runs_mono [OF destroy_conn_runs [OF Cons.prems(1) c]])
    fix s1 assume s1: "pool_inv {} s1 \<and> sheds (if busy s c \<or> c \<in> set (nt_bktq s) then {} else {c}) s s1"
    then have same: "nt_conns s1 d = nt_conns s d" if "d \<noteq> c" for d using that by (auto simp: shedsD)
    have fr: "freeable s1 d = freeable s d" if "d \<noteq> c" for d
      using same [OF that] s1 by (auto simp: freeable_def busy_def shedsD)
    have "\<forall>d \<in> set cs. nt_conns s1 d \<noteq> None"
      using Cons.prems(2,3) same by (metis distinct.simps(2) list.set_intros(2))
    then have "runs (each_conn destroy_conn cs s1) (\<lambda>s'. pool_inv {} s' \<and> sheds {d \<in> set cs. freeable s1 d} s1 s')"
      using Cons.IH Cons.prems(2) s1 by simp
    then show "runs (each_conn destroy_conn cs s1)
        (\<lambda>s'. pool_inv {} s' \<and> sheds {c' \<in> set (c # cs). freeable s c'} s s')"
    proof (rule runs_mono)
      fix s' assume s': "pool_inv {} s' \<and> sheds {d \<in> set cs. freeable s1 d} s1 s'"
      have "{d \<in> set cs. freeable s1 d} = {d \<in> set cs. freeable s d}"
        by (rule Collect_cong) (use Cons.prems(2) in \<open>metis fr distinct.simps(2)\<close>)
      then have "{c' \<in> set (c # cs). freeable s c'} =
          (if busy s c \<or> c \<in> set (nt_bktq s) then {} else {c}) \<union> {d \<in> set cs. freeable s1 d}"
        by (auto simp: freeable_def)
      then show "pool_inv {} s' \<and> sheds {c' \<in> set (c # cs). freeable s c'} s s'"
        using sheds_trans [OF conjunct2 [OF s1] conjunct2 [OF s']] s' by simp
    qed
  qed
  then show ?case by simp
qed

text \<open>
  Freeing what is pending, for a list of upstreams: with \<open>V\<close> the upstreams whose queues they use, exactly the connections in
  those queues are freed that are not busy and whose event is not queued.
\<close>

definition doomed :: "stream_id set \<Rightarrow> net_state \<Rightarrow> cid set" where
  "doomed V s = {c. freeable s c \<and> (\<exists>v \<in> V. \<exists>cn. nt_conns s c = Some cn \<and> cn_link cn = Some (DestroyQueue v))}"

lemma pending_destroy_runs:
  assumes "good s" and get: "flb_upstream_queue_get u s = Some (Some v)"
  shows "runs (flb_upstream_conn_pending_destroy u s) (\<lambda>s'. good s' \<and> sheds (doomed {v} s) s s')"
proof -
  from get obtain up where up: "nt_upstreams s u = Some up"
    by (auto simp: flb_upstream_queue_get_def split: Option.bind_splits)
  let ?cs = "nt_list s (DestroyQueue v)"
  have dom: "{c \<in> set ?cs. freeable s c} = doomed {v} s"
    using assms(1) pool_invD(1) [of "{}" s] by (auto simp: doomed_def)
  let ?Q = "\<lambda>s'. pool_inv {} s' \<and> nt_conns s' = (\<lambda>c. if c \<in> doomed {v} s then None else nt_conns s c)
      \<and> nt_next s' = nt_next s \<and> nt_events s' = nt_events s \<and> nt_bktq s' = nt_bktq s"
  have "runs (each_conn destroy_conn (nt_list s1 (DestroyQueue v)) s1)
      (\<lambda>s2. locked s2 = locked s1 \<and> cfg s2 = cfg s1 \<and> ?Q s2)" if t: "touch s s1" for s1
  proof (rule runs_mono [OF each_destroy_runs])
    show i: "pool_inv {} s1" using assms(1) pool_inv_touch [OF t] by simp
    show "distinct (nt_list s1 (DestroyQueue v))" by (rule pool_invD(2) [OF i])
    show "\<forall>c \<in> set (nt_list s1 (DestroyQueue v)). nt_conns s1 c \<noteq> None" using pool_invD(1) [OF i] by auto
    have "freeable s1 = freeable s" by (simp add: fun_eq_iff freeable_def busy_def touchD [OF t])
    then show "locked s' = locked s1 \<and> cfg s' = cfg s1 \<and> ?Q s'"
      if "pool_inv {} s' \<and> sheds {c \<in> set (nt_list s1 (DestroyQueue v)). freeable s1 c} s1 s'" for s'
      using that by (simp add: sheds_def touchD [OF t] dom cong: if_cong)
  qed
  then have "runs (flb_stream_acquire_lock u s) (\<lambda>s1. runs (each_conn destroy_conn (nt_list s1 (DestroyQueue v)) s1)
      (\<lambda>s2. runs (flb_stream_release_lock u s2) (\<lambda>s'. good s' \<and> sheds (doomed {v} s) s s')))"
  proof (rule with_lock_then [of s u up _ ?Q, rotated 2])
    show "?Q s3" if "touch s2 s3" "?Q s2" for s2 s3 using that pool_inv_touch by (auto simp: touchD)
    show "good s' \<and> sheds (doomed {v} s) s s'" if "?Q s'" "cfg s' = cfg s" "unlocked s'" for s'
      using that assms(1) by (auto simp: sheds_def unlocked_def fun_eq_iff)
  qed (use assms(1) up in auto)
  then show ?thesis by (simp add: flb_upstream_conn_pending_destroy_def get)
qed

lemma doomed_after:
  assumes "sheds (doomed V s) s s'"
  shows "doomed V s \<union> doomed W s' = doomed (V \<union> W) s"
proof -
  have "freeable s' c = (freeable s c \<or> c \<in> doomed V s)" for c
    using assms by (auto simp: freeable_def busy_def shedsD doomed_def)
  then show ?thesis using assms by (auto simp: doomed_def shedsD split: if_splits)
qed

lemma pending_destroy_list_runs:
  assumes "good s" and "\<forall>u \<in> set us. flb_upstream_queue_get u s = Some (Some (own u))"
  shows "runs (flb_upstream_conn_pending_destroy_list us s) (\<lambda>s'. good s' \<and> sheds (doomed (own ` set us) s) s s')"
  using assms
proof (induction us arbitrary: s)
  case Nil
  then show ?case by (simp add: sheds_def doomed_def)
next
  case (Cons u us)
  have "runs (flb_upstream_conn_pending_destroy u s) (\<lambda>s1. runs (flb_upstream_conn_pending_destroy_list us s1)
      (\<lambda>s'. good s' \<and> sheds (doomed (own ` set (u # us)) s) s s'))"
  proof (rule runs_mono [OF pending_destroy_runs])
    show "flb_upstream_queue_get u s = Some (Some (own u))" using Cons.prems by simp
    fix s1 assume s1: "good s1 \<and> sheds (doomed {own u} s) s s1"
    then have "\<forall>w \<in> set us. flb_upstream_queue_get w s1 = Some (Some (own w))"
      using Cons.prems queue_get_cfg [OF shedsD(2) [OF conjunct2 [OF s1]]] by simp
    then have "runs (flb_upstream_conn_pending_destroy_list us s1)
        (\<lambda>s'. good s' \<and> sheds (doomed (own ` set us) s1) s1 s')" using Cons.IH s1 by blast
    then show "runs (flb_upstream_conn_pending_destroy_list us s1)
        (\<lambda>s'. good s' \<and> sheds (doomed (own ` set (u # us)) s) s s')"
      by (rule runs_mono)
        (use sheds_trans [OF conjunct2 [OF s1]] doomed_after [OF conjunct2 [OF s1], of "own ` set us"] in fastforce)
  qed (use Cons.prems in simp)
  then show ?case by simp
qed

section \<open>Creating a connection\<close>

lemma pool_inv_new:
  assumes inv: "pool_inv {} s" and fresh: "c = nt_next s" and q: "cn_link cn = Some q"
    and "conn_ok True (\<lambda>u. queue_of u s) cn"
  shows "pool_inv {} (s\<lparr>nt_conns := (nt_conns s)(c \<mapsto> cn), nt_next := Suc c,
                       nt_list := (nt_list s)(q := nt_list s q @ [c])\<rparr>)"
proof -
  let ?s = "s\<lparr>nt_conns := (nt_conns s)(c \<mapsto> cn), nt_next := Suc c, nt_list := (nt_list s)(q := nt_list s q @ [c])\<rparr>"
  have own: "queue_of u ?s = queue_of u s" for u by (rule queue_of_cfg) (simp add: cfg_def)
  have none: "nt_conns s c = None" using pool_invD(3) [OF inv, of c] fresh by (cases "nt_conns s c") auto
  have old: "d < nt_next s" if "nt_conns s d = Some x" for d x using pool_invD(3) [OF inv that] .
  have "linked_ok ?s" by (rule linked_frame [OF linked_create [OF pool_inv_linked [OF inv] none q]]) simp_all
  moreover have "d < nt_next ?s" if "nt_conns ?s d = Some x" for d x
    using that old [of d x] fresh by (auto split: if_splits)
  ultimately show ?thesis unfolding pool_inv_def own
    using inv assms(4) none by (auto simp: pool_inv_def split: if_splits)
qed

lemma reset_timeout_fields [simp]:
  "cn_stream (flb_connection_reset_connection_timeout n t cn) = cn_stream cn"
  "cn_type (flb_connection_reset_connection_timeout n t cn) = cn_type cn"
  "cn_dynamically_allocated (flb_connection_reset_connection_timeout n t cn) = cn_dynamically_allocated cn"
  "cn_busy_flag (flb_connection_reset_connection_timeout n t cn) = cn_busy_flag cn"
  "cn_link (flb_connection_reset_connection_timeout n t cn) = cn_link cn"
  "cn_fd (flb_connection_reset_connection_timeout n t cn) = cn_fd cn"
  "cn_ev_type (flb_connection_reset_connection_timeout n t cn) = cn_ev_type cn"
  "cn_ev_handler (flb_connection_reset_connection_timeout n t cn) = cn_ev_handler cn"
  "cn_ev_registered (flb_connection_reset_connection_timeout n t cn) = cn_ev_registered cn"
  by (simp_all add: flb_connection_reset_connection_timeout_def split: conn_type.splits)

lemma io_timeout_fields [simp]:
  "cn_stream (flb_connection_reset_io_timeout n t cn) = cn_stream cn"
  "cn_type (flb_connection_reset_io_timeout n t cn) = cn_type cn"
  "cn_dynamically_allocated (flb_connection_reset_io_timeout n t cn) = cn_dynamically_allocated cn"
  "cn_busy_flag (flb_connection_reset_io_timeout n t cn) = cn_busy_flag cn"
  "cn_link (flb_connection_reset_io_timeout n t cn) = cn_link cn"
  "cn_fd (flb_connection_reset_io_timeout n t cn) = cn_fd cn"
  "cn_ev_type (flb_connection_reset_io_timeout n t cn) = cn_ev_type cn"
  "cn_ev_handler (flb_connection_reset_io_timeout n t cn) = cn_ev_handler cn"
  "cn_ev_registered (flb_connection_reset_io_timeout n t cn) = cn_ev_registered cn"
  by (simp_all add: flb_connection_reset_io_timeout_def)

lemma setup_fields [simp]:
  "cn_stream (flb_connection_setup fd ty u t) = u" "cn_type (flb_connection_setup fd ty u t) = ty"
  "cn_link (flb_connection_setup fd ty u t) = None" "cn_ev_registered (flb_connection_setup fd ty u t) = False"
  by (simp_all add: flb_connection_setup_def flb_connection_unset_io_timeout_def
      flb_connection_unset_connection_timeout_def)

lemma conn_recycle_bool:
  "nt_conns s c = Some cn \<Longrightarrow> flb_upstream_conn_recycle c (if b then 1 else 0) s =
     Some (0, s\<lparr>nt_conns := (nt_conns s)(c \<mapsto> cn\<lparr>cn_recycle := b\<rparr>)\<rparr>)"
  by (simp add: flb_upstream_conn_recycle_def upd_conn_eq)

definition creates :: "stream_id \<Rightarrow> cid option \<Rightarrow> net_state \<Rightarrow> net_state \<Rightarrow> bool" where
  "creates u co s s' \<longleftrightarrow> cfg s' = cfg s \<and> nt_events s' = nt_events s
     \<and> (case co of None \<Rightarrow> nt_next s' = nt_next s \<and> nt_conns s' = nt_conns s
        | Some c \<Rightarrow> c = nt_next s \<and> nt_next s' = Suc c
            \<and> (\<forall>d. d \<noteq> c \<longrightarrow> nt_conns s' d = nt_conns s d)
            \<and> (\<exists>cn. nt_conns s' c = Some cn \<and> cn_stream cn = u \<and> cn_busy_flag cn))"

lemma create_conn_begin_runs:
  assumes g: "good s" and v: "queue_of u s = Some v"
  shows "runs (create_conn_begin u e s)
           (\<lambda>(co, s'). good s' \<and> creates u co s s' \<and> co = (if ne_alloc e then Some (nt_next s) else None))"
proof (cases "ne_alloc e")
  case False
  from v obtain up where "nt_upstreams s u = Some up" by (rule queue_ofD)
  then show ?thesis using False g by (simp add: create_conn_begin_def flb_connection_create_def creates_def)
next
  case True
  from v obtain up where up: "nt_upstreams s u = Some up" by (rule queue_ofD)
  define c where "c = nt_next s"
  define cn where "cn = (flb_connection_setup (-1) FLB_UPSTREAM_CONNECTION u (ne_time e))
    \<lparr>cn_dynamically_allocated := True, cn_busy_flag := True, cn_recycle := flb_stream_is_keepalive (up_base up)\<rparr>"
  let ?s0 = "s\<lparr>nt_next := Suc c, nt_conns := (nt_conns s)(c \<mapsto> cn)\<rparr>"
  let ?Q = "\<lambda>s'. pool_inv {} s' \<and> nt_next s' = Suc c \<and> nt_events s' = nt_events s
      \<and> nt_conns s' = (nt_conns s)(c \<mapsto> cn\<lparr>cn_link := Some (BusyQueue v)\<rparr>)"
  have c0: "cfg ?s0 = cfg s" by (simp add: cfg_def)
  have get: "flb_upstream_queue_get u s1 = Some (Some v)" if "cfg s1 = cfg s" for s1
    using v queue_get_cfg [OF that] by (auto elim: queue_ofD)
  have body: "runs (do { uq \<leftarrow> flb_upstream_queue_get u s1; v \<leftarrow> uq; s1 \<leftarrow> mk_list_add c (BusyQueue v) s1;
                         flb_upstream_increment_total_connections_count u s1 })
      (\<lambda>s2. locked s2 = locked s1 \<and> cfg s2 = cfg s1 \<and> ?Q s2)" if t: "touch ?s0 s1" for s1
  proof -
    have cf: "cfg s1 = cfg s" using touchD(6) [OF t] c0 by simp
    let ?s2 = "s1\<lparr>nt_conns := (nt_conns s)(c \<mapsto> cn\<lparr>cn_link := Some (BusyQueue v)\<rparr>),
        nt_list := (nt_list s)(BusyQueue v := nt_list s (BusyQueue v) @ [c])\<rparr>"
    have add: "mk_list_add c (BusyQueue v) s1 = Some ?s2"
      by (simp add: mk_list_add_def touchD [OF t] cn_def)
    have "pool_inv {} (s\<lparr>nt_conns := (nt_conns s)(c \<mapsto> cn\<lparr>cn_link := Some (BusyQueue v)\<rparr>), nt_next := Suc c,
        nt_list := (nt_list s)(BusyQueue v := nt_list s (BusyQueue v) @ [c])\<rparr>)"
      by (rule pool_inv_new) (use g v in \<open>simp_all add: c_def cn_def conn_ok_def\<close>)
    then have p2: "pool_inv {} ?s2"
      by (rule pool_inv_frame) (use pool_invD(5) [of "{}" s] g cf in \<open>auto simp: touchD(3-6) [OF t]\<close>)
    have q2: "queue_of u ?s2 = Some v" using v queue_of_cfg [of ?s2 s] cf by simp
    show ?thesis unfolding runs_bind get [OF cf] runs_Some add
      by (rule runs_mono [OF gauge_runs(1) [OF q2]])
        (use p2 in \<open>auto simp: touchD pool_inv_touch touchD(3,5) [OF t]\<close>)
  qed
  have fin: "runs (upd_conn c (flb_connection_reset_connection_timeout (st_net (up_base up)) (ne_time e)) s')
      (\<lambda>s''. good s'' \<and> creates u (Some c) s s'')" if Q: "?Q s'" and cf: "cfg s' = cfg s" and un: "unlocked s'" for s'
  proof -
    let ?cn = "cn\<lparr>cn_link := Some (BusyQueue v)\<rparr>"
    have c': "nt_conns s' c = Some ?cn" using Q by simp
    have ok: "conn_ok True (\<lambda>u. queue_of u s') (flb_connection_reset_connection_timeout n t ?cn)" for n t
      using v queue_of_cfg [OF cf] by (simp add: conn_ok_def cn_def)
    have "pool_inv {} (s'\<lparr>nt_conns := (nt_conns s')(c \<mapsto> flb_connection_reset_connection_timeout n t ?cn)\<rparr>)" for n t
      by (rule pool_inv_conn [OF conjunct1 [OF Q] c']) (use ok in \<open>simp_all add: ev_ready_def\<close>)
    moreover have "cn_stream cn = u" "cn_busy_flag cn" by (simp_all add: cn_def)
    ultimately show ?thesis using Q cf un by (simp add: upd_conn_eq [OF c'] creates_def c_def [symmetric])
  qed
  have "runs (flb_stream_acquire_lock u ?s0) (\<lambda>s1. runs (do { uq \<leftarrow> flb_upstream_queue_get u s1; v \<leftarrow> uq;
        s1 \<leftarrow> mk_list_add c (BusyQueue v) s1; flb_upstream_increment_total_connections_count u s1 })
      (\<lambda>s2. runs (flb_stream_release_lock u s2)
      (\<lambda>s'. runs (upd_conn c (flb_connection_reset_connection_timeout (st_net (up_base up)) (ne_time e)) s')
      (\<lambda>s''. good s'' \<and> creates u (Some c) s s''))))"
  proof (rule with_lock_then [OF _ _ body])
    show "unlocked ?s0" using g by simp
    show "?Q s3" if "touch s2 s3" "?Q s2" for s2 s3 using that pool_inv_touch by (auto simp: touchD)
  qed (use up fin in auto)
  then show ?thesis using True up
    by (simp add: create_conn_begin_def flb_connection_create_def Let_def upd_conn_eq conn_recycle_bool
        c_def [symmetric] cn_def)
qed

section \<open>Taking an available connection\<close>

definition healthy :: "net_env \<Rightarrow> net_state \<Rightarrow> cid \<Rightarrow> bool" where
  "healthy e s c \<longleftrightarrow>
     (case nt_conns s c of
        None \<Rightarrow> False
      | Some cn \<Rightarrow> FLB_EINPROGRESS (ne_socket_error e (cn_fd cn)) \<or> ne_socket_error e (cn_fd cn) = 0)"

text \<open>Moving a connection between the available and the busy queue.\<close>

lemma relink_runs:
  assumes g: "pool_inv X s" "X \<subseteq> {c}" "unlocked s" and c: "nt_conns s c = Some cn" and v: "queue_of u s = Some v"
    and q': "q' = AvQueue v \<and> \<not> cn_busy_flag cn \<and> Y = {} \<or> q' = BusyQueue v \<and> Y = {c}"
    and st: "queue_of (cn_stream cn) s = Some v"
    and P: "\<And>s'. pool_inv Y s' \<Longrightarrow> unlocked s' \<Longrightarrow> keeps {} s s' \<Longrightarrow> nt_events s' = nt_events s
           \<Longrightarrow> nt_conns s' = (nt_conns s)(c \<mapsto> cn\<lparr>cn_link := Some q'\<rparr>) \<Longrightarrow> P s'"
  shows "runs (flb_stream_acquire_lock u s) (\<lambda>s1. runs (mk_list_del c s1) (\<lambda>s2. runs (mk_list_add c q' s2)
           (\<lambda>s3. runs (flb_stream_release_lock u s3) P)))"
proof -
  from v obtain up where up: "nt_upstreams s u = Some up" by (rule queue_ofD)
  from g(1) c obtain q where q: "cn_link cn = Some q" and ok: "cn_type cn = FLB_UPSTREAM_CONNECTION"
    "cn_dynamically_allocated cn" "cn_ev_registered cn \<longrightarrow> ev_ready cn" by (rule conn_okD)
  let ?cn = "cn\<lparr>cn_link := Some q'\<rparr>"
  let ?Q = "\<lambda>s'. pool_inv Y s' \<and> keeps {} s s' \<and> nt_events s' = nt_events s \<and> nt_conns s' = (nt_conns s)(c \<mapsto> ?cn)"
  have body: "runs (Option.bind (mk_list_del c s1) (mk_list_add c q'))
      (\<lambda>s2. locked s2 = locked s1 \<and> cfg s2 = cfg s1 \<and> ?Q s2)" if t: "touch s s1" for s1
  proof -
    have c1: "nt_conns s1 c = Some cn" using c by (simp add: touchD [OF t])
    let ?s2 = "s1\<lparr>nt_conns := (nt_conns s1)(c \<mapsto> ?cn), nt_list := moved c q q' (nt_list s1)\<rparr>"
    have "conn_ok (c \<notin> Y) (\<lambda>u. queue_of u s1) ?cn"
      using ok st q' queue_of_cfg [OF touchD(6) [OF t]] by (auto simp: conn_ok_def ev_ready_def)
    then have "pool_inv Y ?s2"
      by (intro pool_inv_relink [OF pool_inv_touch [OF t g(1)] c1 q]) (use g(2) in \<open>auto simp: ev_ready_def\<close>)
    moreover have "keeps {} s ?s2"
      by (rule keeps_conn [OF c, of _ ?cn]) (auto simp: touchD [OF t] ev_ready_def)
    ultimately show ?thesis unfolding list_move_eq [OF c1 q] by (simp add: touchD [OF t])
  qed
  have "runs (flb_stream_acquire_lock u s) (\<lambda>s1. runs (Option.bind (mk_list_del c s1) (mk_list_add c q'))
      (\<lambda>s2. runs (flb_stream_release_lock u s2) P))"
  proof (rule with_lock_then [OF g(3) up body])
    show "?Q s3" if "touch s2 s3" "?Q s2" for s2 s3
      using that pool_inv_touch keeps_trans [OF _ keeps_touch [OF that(1), of "{}"], of "{}" s "{}"]
      by (auto simp: touchD)
  qed (use P in auto)
  then show ?thesis by simp
qed

lemma ka_scan_runs:
  assumes "good s" and "queue_of u s = Some v" and "distinct cs"
    and "\<forall>c \<in> set cs. \<exists>cn. nt_conns s c = Some cn \<and> cn_link cn = Some (AvQueue v)"
  shows "runs (ka_scan u v e cs s) (\<lambda>(co, s'). good s' \<and> co = List.find (healthy e s) cs
           \<and> keeps (set_option co) s s' \<and> (\<forall>c. co = Some c \<longrightarrow> busy s' c))"
  using assms
proof (induction cs arbitrary: s)
  case Nil
  then show ?case by simp
next
  case (Cons c cs)
  then obtain cn where c: "nt_conns s c = Some cn" and av: "cn_link cn = Some (AvQueue v)" by auto
  from Cons.prems(1) c obtain v' q where "queue_of (cn_stream cn) s = Some v'" "cn_link cn = Some q"
    "q = AvQueue v' \<or> q = BusyQueue v' \<or> q = DestroyQueue v'" "q = AvQueue v' \<longrightarrow> \<not> cn_busy_flag cn"
    and ty: "cn_type cn = FLB_UPSTREAM_CONNECTION" "cn_dynamically_allocated cn" "cn_ev_registered cn \<longrightarrow> ev_ready cn"
    by (blast elim: conn_okD)
  then have st: "queue_of (cn_stream cn) s = Some v" and idle: "\<not> cn_busy_flag cn" using av by auto
  let ?Q = "\<lambda>(co, s'). good s' \<and> co = List.find (healthy e s) (c # cs)
      \<and> keeps (set_option co) s s' \<and> (\<forall>c. co = Some c \<longrightarrow> busy s' c)"
  have "runs (flb_stream_acquire_lock u s) (\<lambda>s1. runs (mk_list_del c s1) (\<lambda>s2. runs (mk_list_add c (BusyQueue v) s2)
      (\<lambda>s3. runs (flb_stream_release_lock u s3) (\<lambda>s'. runs (do {
        s \<leftarrow> upd_conn c (\<lambda>cn. cn\<lparr>cn_busy_flag := True\<rparr>) s';
        cn \<leftarrow> nt_conns s c;
        (let err = ne_socket_error e (cn_fd cn) in
         if \<not> FLB_EINPROGRESS err \<and> err \<noteq> 0 then do {
           s \<leftarrow> upd_conn c (\<lambda>cn. cn\<lparr>cn_busy_flag := False\<rparr>) s;
           s \<leftarrow> prepare_destroy_conn_safe c s;
           ka_scan u v e cs s}
         else do {
           s \<leftarrow> upd_conn c (\<lambda>cn. cn\<lparr>cn_net_error := -1, cn_ts_assigned := ne_time e\<rparr>) s;
           Some (Some c, s)})}) ?Q))))"
  proof (rule relink_runs [OF _ _ _ c Cons.prems(2) _ st])
    fix s' assume g': "pool_inv {c} s'" and un': "unlocked s'" and k': "keeps {} s s'" and ev: "nt_events s' = nt_events s"
      and c': "nt_conns s' = (nt_conns s)(c \<mapsto> cn\<lparr>cn_link := Some (BusyQueue v)\<rparr>)"
    let ?cn = "cn\<lparr>cn_link := Some (BusyQueue v)\<rparr>"
    have st': "queue_of (cn_stream cn) s' = Some v" using st queue_of_cfg [OF keepsD(1) [OF k']] by simp
    have upd: "pool_inv (if cn_busy_flag x then {} else {c}) (s'\<lparr>nt_conns := (nt_conns s')(c \<mapsto> x)\<rparr>)"
      if "cn_link x = Some (BusyQueue v)" "cn_stream x = cn_stream cn" "cn_type x = cn_type cn"
        "cn_dynamically_allocated x = cn_dynamically_allocated cn" "cn_ev_registered x = cn_ev_registered cn"
        "cn_ev_type x = cn_ev_type cn" "cn_ev_handler x = cn_ev_handler cn" for x
    proof (rule pool_inv_conn [OF g', of c ?cn])
      show "conn_ok (c \<notin> (if cn_busy_flag x then {} else {c})) (\<lambda>u. queue_of u s') x"
        using that ty st' by (simp add: conn_ok_def ev_ready_def)
    qed (use that c' in \<open>simp_all add: ev_ready_def\<close>)
    show "runs (do {
        s \<leftarrow> upd_conn c (\<lambda>cn. cn\<lparr>cn_busy_flag := True\<rparr>) s';
        cn \<leftarrow> nt_conns s c;
        (let err = ne_socket_error e (cn_fd cn) in
         if \<not> FLB_EINPROGRESS err \<and> err \<noteq> 0 then do {
           s \<leftarrow> upd_conn c (\<lambda>cn. cn\<lparr>cn_busy_flag := False\<rparr>) s;
           s \<leftarrow> prepare_destroy_conn_safe c s;
           ka_scan u v e cs s}
         else do {
           s \<leftarrow> upd_conn c (\<lambda>cn. cn\<lparr>cn_net_error := -1, cn_ts_assigned := ne_time e\<rparr>) s;
           Some (Some c, s)})}) ?Q"
    proof (cases "healthy e s c")
      case True
      let ?x = "?cn\<lparr>cn_busy_flag := True, cn_net_error := -1, cn_ts_assigned := ne_time e\<rparr>"
      let ?s = "s'\<lparr>nt_conns := (nt_conns s)(c \<mapsto> ?x)\<rparr>"
      have "pool_inv {} ?s" using upd [of ?x] c' by simp
      moreover have "keeps {c} s ?s"
        by (rule keeps_conn [OF c, of _ ?x]) (use k' in \<open>auto simp: ev_ready_def keepsD ev\<close>)
      moreover have "busy ?s c" by (simp add: busy_def)
      ultimately show ?thesis using True un' c'
        by (auto simp: upd_conn_eq healthy_def c)
    next
      case False
      let ?x = "?cn\<lparr>cn_busy_flag := False\<rparr>"
      let ?s = "s'\<lparr>nt_conns := (nt_conns s)(c \<mapsto> ?x)\<rparr>"
      have p: "pool_inv {c} ?s" using upd [of ?x] c' by simp
      have k: "keeps {} s ?s"
        by (rule keeps_conn [OF c, of _ ?x]) (use k' idle in \<open>auto simp: ev_ready_def keepsD ev\<close>)
      have "runs (prepare_destroy_conn_safe c ?s) (\<lambda>s3. runs (ka_scan u v e cs s3) ?Q)"
      proof (rule runs_mono [OF prepare_destroy_conn_safe_runs [OF p]])
        fix s3
        assume s3: "unlocked s3 \<and> pool_inv {} s3 \<and> keeps {} ?s s3 \<and> (\<exists>v. queue_of (cn_stream ?x) ?s = Some v
            \<and> nt_conns s3 = (nt_conns ?s)(c \<mapsto> (close_conn ?x)\<lparr>cn_link := Some (DestroyQueue v)\<rparr>))"
        then have k3: "keeps {} s s3" using keeps_trans [OF k] by blast
        have same: "nt_conns s3 d = nt_conns s d" if "d \<noteq> c" for d using s3 that by auto
        have "runs (ka_scan u v e cs s3) (\<lambda>(co, s'). good s' \<and> co = List.find (healthy e s3) cs
            \<and> keeps (set_option co) s3 s' \<and> (\<forall>c. co = Some c \<longrightarrow> busy s' c))"
        proof (rule Cons.IH)
          show "queue_of u s3 = Some v" using Cons.prems(2) queue_of_cfg [OF keepsD(1) [OF k3]] by simp
          show "\<forall>d \<in> set cs. \<exists>x. nt_conns s3 d = Some x \<and> cn_link x = Some (AvQueue v)"
            using Cons.prems(3,4) same by (metis distinct.simps(2) list.set_intros(2))
        qed (use s3 Cons.prems(3) in auto)
        moreover have "healthy e s3 d = healthy e s d" if "d \<in> set cs" for d
        proof -
          have "d \<noteq> c" using that Cons.prems(3) by auto
          then show ?thesis by (simp add: healthy_def same)
        qed
        then have "List.find (healthy e s3) cs = List.find (healthy e s) (c # cs)"
          using False find_cong_set [of cs "healthy e s3" "healthy e s"] by simp
        ultimately show "runs (ka_scan u v e cs s3) ?Q"
          by (elim runs_mono) (use keeps_trans [OF k3] in \<open>auto simp: case_prod_beta\<close>)
      qed (use un' in simp_all)
      then show ?thesis using False c c' by (simp add: upd_conn_eq healthy_def)
    qed
  qed (use Cons.prems(1) in auto)
  then show ?case by simp
qed

text \<open>Handing a connection out, after it was taken or connected.\<close>

lemma conn_assign_runs:
  assumes inv: "pool_inv X s" "X \<subseteq> {c}" and un: "unlocked s" and c: "nt_conns s c = Some cn"
    and v: "queue_of u s = Some v" and l: "\<forall>w. cn_link cn \<noteq> Some (AvQueue w)"
  shows "runs (conn_assign u e c s) (\<lambda>s'. good s' \<and> keeps {c} s s' \<and> busy s' c)"
proof -
  from v obtain up where up: "nt_upstreams s u = Some up" by (rule queue_ofD)
  let ?x = "flb_connection_reset_io_timeout (st_net (up_base up)) (ne_time e) (cn\<lparr>cn_busy_flag := True\<rparr>)"
  let ?s = "s\<lparr>nt_conns := (nt_conns s)(c \<mapsto> ?x)\<rparr>"
  have "conn_ok (c \<notin> {}) (\<lambda>u. queue_of u s) ?x"
    using pool_invD(4) [OF inv(1) c] l by (auto simp: conn_ok_def ev_ready_def)
  then have p: "pool_inv {} ?s"
    by (intro pool_inv_conn [OF inv(1) c]) (use inv(2) in \<open>auto simp: ev_ready_def\<close>)
  have k: "keeps {c} s ?s" by (rule keeps_conn [OF c, of _ ?x]) (simp_all add: ev_ready_def)
  have q: "queue_of u ?s = Some v" using v queue_of_cfg [of ?s s] by simp
  have "runs (flb_upstream_increment_busy_connections_count u ?s) (\<lambda>s'. good s' \<and> keeps {c} s s' \<and> busy s' c)"
  proof (rule runs_mono [OF gauge_runs(3) [OF q]])
    fix s' assume t: "touch ?s s' \<and> locked s' = locked ?s"
    then have "keeps {c} s s'" using keeps_trans [OF k keeps_touch [of ?s s' "{}"]] by simp
    then show "good s' \<and> keeps {c} s s' \<and> busy s' c"
      using pool_inv_touch [OF _ p] t un by (auto simp: unlocked_def busy_def touchD)
  qed
  then show ?thesis using c up by (simp add: conn_assign_def upd_conn_eq)
qed

lemma busy_not_available:
  assumes "pool_inv X s" and "nt_conns s c = Some cn" and "cn_busy_flag cn"
  shows "\<forall>w. cn_link cn \<noteq> Some (AvQueue w)"
  using pool_invD(4) [OF assms(1,2)] assms(3) by (auto simp: conn_ok_def)

lemma set_idle:
  assumes "pool_inv {} s" and "nt_conns s c = Some cn" and "cn_busy_flag cn"
    and "cn_link x = cn_link cn" "cn_stream x = cn_stream cn" "cn_type x = cn_type cn"
      "cn_dynamically_allocated x = cn_dynamically_allocated cn" "cn_ev_registered x = cn_ev_registered cn"
      "cn_ev_type x = cn_ev_type cn" "cn_ev_handler x = cn_ev_handler cn"
  shows "pool_inv {c} (s\<lparr>nt_conns := (nt_conns s)(c \<mapsto> x)\<rparr>)"
proof (rule pool_inv_conn [OF assms(1,2)])
  show "conn_ok (c \<notin> {c}) (\<lambda>u. queue_of u s) x"
    using pool_invD(4) [OF assms(1,2)] busy_not_available [OF assms(1-3)] assms(4-) by (auto simp: conn_ok_def ev_ready_def)
qed (use assms(4-) in \<open>simp_all add: ev_ready_def\<close>)

section \<open>Counting connections\<close>

lemma queue_search_parent:
  "queue_search s u vs = Some (Some v) \<Longrightarrow> \<exists>th_u. nt_upstreams s v = Some th_u \<and> up_parent_upstream th_u = Some u"
  by (induction vs) (auto split: Option.bind_splits if_splits)

lemma queue_of_inj:
  assumes "queue_of u s = Some v" and "queue_of w s = Some v"
  shows "u = w"
proof -
  have own: "v = x \<or> (\<exists>th_u. nt_upstreams s v = Some th_u \<and> up_parent_upstream th_u = Some x)"
    if "queue_of x s = Some v" for x
    using that by (auto simp: queue_of_def flb_upstream_queue_get_def dest: queue_search_parent
        split: option.splits if_splits Option.bind_splits list.splits)
  have main: "\<exists>up. nt_upstreams s x = Some up \<and> up_parent_upstream up = None" if "queue_of x s = Some v" for x
    using that by (auto elim: queue_ofD)
  show ?thesis using own [OF assms(1)] own [OF assms(2)] main [OF assms(1)] main [OF assms(2)] by auto
qed

lemma roster_finite: "pool_inv X s \<Longrightarrow> finite {c. roster s c = Some u}"
  by (rule finite_subset [of _ "{..< nt_next s}"]) (auto simp: roster_def pool_invD(3))

lemma queue_total_card:
  assumes inv: "pool_inv {} s" and v: "queue_of u s = Some v"
  shows "queue_total v s = int (card {c. roster s c = Some u})"
proof -
  let ?B = "nt_list s (BusyQueue v)" and ?A = "nt_list s (AvQueue v)" and ?D = "nt_list s (DestroyQueue v)"
  have mem: "c \<in> set (nt_list s q) \<longleftrightarrow> (\<exists>cn. nt_conns s c = Some cn \<and> cn_link cn = Some q)" for c q
    by (rule pool_invD(1) [OF inv])
  have "distinct (?B @ ?A @ ?D)" using pool_invD(2) [OF inv] by (auto simp: mem)
  moreover have "set (?B @ ?A @ ?D) = {c. roster s c = Some u}"
  proof (intro set_eqI iffI)
    fix c assume "c \<in> set (?B @ ?A @ ?D)"
    then obtain cn where c: "nt_conns s c = Some cn"
      and l: "cn_link cn = Some (BusyQueue v) \<or> cn_link cn = Some (AvQueue v) \<or> cn_link cn = Some (DestroyQueue v)"
      by (auto simp: mem)
    from inv c obtain w q where "queue_of (cn_stream cn) s = Some w" "cn_link cn = Some q"
      "q = AvQueue w \<or> q = BusyQueue w \<or> q = DestroyQueue w" by (rule conn_okD)
    then have "queue_of (cn_stream cn) s = Some v" using l by auto
    then have "cn_stream cn = u" using v by (rule queue_of_inj)
    then show "c \<in> {c. roster s c = Some u}" using c by (simp add: roster_def)
  next
    fix c assume "c \<in> {c. roster s c = Some u}"
    then obtain cn where c: "nt_conns s c = Some cn" and "cn_stream cn = u" by (auto simp: roster_def)
    moreover from inv c obtain w q where "queue_of (cn_stream cn) s = Some w" "cn_link cn = Some q"
      "q = AvQueue w \<or> q = BusyQueue w \<or> q = DestroyQueue w" by (rule conn_okD)
    ultimately show "c \<in> set (?B @ ?A @ ?D)" using v by (auto simp: mem)
  qed
  ultimately have "length (?B @ ?A @ ?D) = card {c. roster s c = Some u}" by (metis distinct_card)
  then show ?thesis by (simp add: queue_total_def)
qed

section \<open>\<open>flb_upstream_conn_get\<close>\<close>

text \<open>
  The three outcomes: nothing, an available connection, or a new one that connects. A limit on the number of connections
  refuses a new one.
\<close>

definition get_outcome :: "stream_id \<Rightarrow> stream_id \<Rightarrow> flb_net_setup \<Rightarrow> net_env \<Rightarrow> net_state \<Rightarrow> get_result" where
  "get_outcome u v net e s =
     (case (if ns_keepalive net then List.find (healthy e s) (nt_list s (AvQueue v)) else None) of
        Some c \<Rightarrow> GetConn c
      | None \<Rightarrow>
          if ns_max_worker_connections net > 0 \<and> queue_total v s \<ge> ns_max_worker_connections net then GetNull
          else if ne_alloc e then GetConnecting (nt_next s) else GetNull)"

definition get_post :: "stream_id \<Rightarrow> stream_id \<Rightarrow> net_env \<Rightarrow> net_state \<Rightarrow> get_result \<Rightarrow> net_state \<Rightarrow> bool" where
  "get_post u v e s r s' \<longleftrightarrow>
     (case r of
        GetConn c \<Rightarrow> keeps {c} s s' \<and> busy s' c \<and> List.find (healthy e s) (nt_list s (AvQueue v)) = Some c
      | GetNull \<Rightarrow> keeps {} s s'
      | GetConnecting c \<Rightarrow>
          (\<exists>s1. keeps {} s s1 \<and> pool_inv {} s1 \<and> creates u (Some c) s1 s'
             \<and> (\<forall>up. nt_upstreams s u = Some up \<longrightarrow> ns_max_worker_connections (st_net (up_base up)) > 0
                   \<longrightarrow> queue_total v s1 < ns_max_worker_connections (st_net (up_base up)))))"

lemma lock_unlock:
  assumes "unlocked s" and "nt_upstreams s u = Some up" and "x"
  shows "runs (flb_stream_acquire_lock u s) (\<lambda>s1. runs (flb_stream_release_lock u s1) (\<lambda>_. x))"
  using with_lock_then [of s u up Some "\<lambda>_. True" "\<lambda>_. x"] assms by simp

lemma conn_get_runs:
  assumes g: "good s" and v: "queue_of u s = Some v" and up: "nt_upstreams s u = Some up"
  shows "runs (flb_upstream_conn_get u e s)
           (\<lambda>(r, s'). good s' \<and> get_post u v e s r s' \<and> r = get_outcome u v (st_net (up_base up)) e s)"
proof -
  from v have get: "flb_upstream_queue_get u s = Some (Some v)"
    by (rule queue_ofD)
  let ?net = "st_net (up_base up)"
  let ?scan = "if ns_keepalive ?net then ka_scan u v e (nt_list s (AvQueue v)) s else Some (None, s)"
  let ?rest = "\<lambda>(conn, s). case conn of
        Some c \<Rightarrow> do { s \<leftarrow> conn_assign u e c s; Some (GetConn c, s) }
      | None \<Rightarrow> do {
          total_connections \<leftarrow>
            (if ns_max_worker_connections ?net > 0
             then do { s' \<leftarrow> flb_stream_acquire_lock u s; s' \<leftarrow> flb_stream_release_lock u s'; Some (queue_total v s) }
             else Some 0);
          (if ns_max_worker_connections ?net > 0 \<and> total_connections \<ge> ns_max_worker_connections ?net
           then Some (GetNull, s)
           else do {
             (co, s) \<leftarrow> create_conn_begin u e s;
             Some (case co of None \<Rightarrow> GetNull | Some c \<Rightarrow> GetConnecting c, s)})}"
  let ?find = "if ns_keepalive ?net then List.find (healthy e s) (nt_list s (AvQueue v)) else None"
  have "runs ?scan (\<lambda>(co, s'). good s' \<and> keeps (set_option co) s s' \<and> co = ?find \<and> (\<forall>c. co = Some c \<longrightarrow> busy s' c))"
  proof (cases "ns_keepalive ?net")
    case True
    have "runs (ka_scan u v e (nt_list s (AvQueue v)) s) (\<lambda>(co, s'). good s'
        \<and> co = List.find (healthy e s) (nt_list s (AvQueue v)) \<and> keeps (set_option co) s s'
        \<and> (\<forall>c. co = Some c \<longrightarrow> busy s' c))"
      by (rule ka_scan_runs [OF g v]) (use pool_invD(1,2) [of "{}" s] g in auto)
    then show ?thesis using True by (auto elim!: runs_mono)
  qed (use g in simp)
  then have "runs ?scan (\<lambda>x. runs (?rest x) (\<lambda>(r, s'). good s' \<and> get_post u v e s r s' \<and> r = get_outcome u v ?net e s))"
  proof (rule runs_mono)
    fix x assume x: "case x of (co, s') \<Rightarrow> good s' \<and> keeps (set_option co) s s' \<and> co = ?find
        \<and> (\<forall>c. co = Some c \<longrightarrow> busy s' c)"
    obtain co s1 where xe: "x = (co, s1)" by (cases x)
    from x have g1: "pool_inv {} s1" "unlocked s1" and k1: "keeps (set_option co) s s1"
      and f: "co = ?find" and r: "\<forall>c. co = Some c \<longrightarrow> busy s1 c" unfolding xe prod.case by blast+
    have v1: "queue_of u s1 = Some v" using v queue_of_cfg [OF keepsD(1) [OF k1]] by simp
    show "runs (?rest x) (\<lambda>(r, s'). good s' \<and> get_post u v e s r s' \<and> r = get_outcome u v ?net e s)"
    proof (cases co)
      case (Some c)
      with r obtain cn where c: "nt_conns s1 c = Some cn" "cn_busy_flag cn" by (auto simp: busy_def)
      have "runs (conn_assign u e c s1) (\<lambda>s'. good s' \<and> get_post u v e s (GetConn c) s')"
        by (rule runs_mono [OF conn_assign_runs [OF g1(1) _ g1(2) c(1) v1 busy_not_available [OF g1(1) c]]])
          (use keeps_trans [OF k1] Some f in \<open>auto simp: get_post_def split: if_splits\<close>)
      moreover have "get_outcome u v ?net e s = GetConn c" unfolding get_outcome_def f [symmetric] Some by simp
      ultimately show ?thesis using Some xe by simp
    next
      case None
      have k: "keeps {} s s1" using k1 None by simp
      obtain up1 where up1: "nt_upstreams s1 u = Some up1" using v1 by (rule queue_ofD)
      have total: "queue_total v s1 = queue_total v s"
        using queue_total_card [OF g1(1) v1] queue_total_card [OF _ v] g keepsD(3) [OF k] by simp
      have out: "get_outcome u v ?net e s =
          (if ns_max_worker_connections ?net > 0 \<and> queue_total v s1 \<ge> ns_max_worker_connections ?net then GetNull
           else if ne_alloc e then GetConnecting (nt_next s1) else GetNull)"
        unfolding get_outcome_def f [symmetric] None keepsD(2) [OF k] total by simp
      have new: "runs (create_conn_begin u e s1) (\<lambda>(co, s'). good s' \<and> get_post u v e s
          (case co of None \<Rightarrow> GetNull | Some c \<Rightarrow> GetConnecting c) s'
          \<and> co = (if ne_alloc e then Some (nt_next s1) else None))"
        if lim: "ns_max_worker_connections ?net > 0 \<longrightarrow> queue_total v s1 < ns_max_worker_connections ?net"
      proof (rule runs_mono [OF create_conn_begin_runs [OF _ v1]])
        show "case x of (co, s') \<Rightarrow> good s' \<and> get_post u v e s (case co of None \<Rightarrow> GetNull | Some c \<Rightarrow> GetConnecting c) s'
            \<and> co = (if ne_alloc e then Some (nt_next s1) else None)"
          if "case x of (co, s') \<Rightarrow> good s' \<and> creates u co s1 s' \<and> co = (if ne_alloc e then Some (nt_next s1) else None)" for x
          using that k g1(1) lim up keeps_trans [OF k, of "{}" _ "{}"]
          by (cases x; cases "fst x")
            (auto simp: get_post_def creates_def keeps_def ready_def busy_def roster_def fun_eq_iff)
      qed (use g1 in simp)
      have null: "get_post u v e s GetNull s1" using k by (simp add: get_post_def)
      have new': "runs (create_conn_begin u e s1) (\<lambda>x. good (snd x) \<and> get_post u v e s
          (case fst x of None \<Rightarrow> GetNull | Some c \<Rightarrow> GetConnecting c) (snd x)
          \<and> (case fst x of None \<Rightarrow> GetNull | Some c \<Rightarrow> GetConnecting c) = get_outcome u v ?net e s)"
        if lim: "\<not> (ns_max_worker_connections ?net > 0 \<and> queue_total v s1 \<ge> ns_max_worker_connections ?net)"
        by (rule runs_mono [OF new]) (use lim in \<open>auto simp: out case_prod_beta\<close>)
      show ?thesis
      proof (cases "ns_max_worker_connections ?net > 0")
        case True
        then show ?thesis using None xe null new' g1 out
          by (auto simp: case_prod_beta intro!: lock_unlock [OF g1(2) up1])
      next
        case False
        then show ?thesis using None xe new' by (simp add: case_prod_beta)
      qed
    qed
  qed
  moreover have "flb_upstream_conn_get u e s = Option.bind ?scan ?rest"
    unfolding flb_upstream_conn_get_def up get Option.bind.bind_lunit by (rule refl)
  ultimately show ?thesis by (subst \<open>flb_upstream_conn_get u e s = _\<close>, subst runs_bind)
qed

lemma conn_get_end_runs:
  assumes g: "good s" and c: "nt_conns s c = Some cn" "cn_busy_flag cn" and v: "queue_of u s = Some v"
  shows "runs (flb_upstream_conn_get_end u e c ret s) (\<lambda>(r, s'). good s' \<and> keeps {c} s s'
           \<and> (if ret = -1 then r = GetNull \<and> \<not> busy s' c else r = GetConn c \<and> busy s' c))"
proof -
  let ?x = "(flb_connection_unset_connection_timeout cn)\<lparr>cn_busy_flag := False\<rparr>"
  let ?s = "s\<lparr>nt_conns := (nt_conns s)(c \<mapsto> ?x)\<rparr>"
  have p: "pool_inv {c} ?s"
    by (rule set_idle [OF _ c]) (use g in \<open>simp_all add: flb_connection_unset_connection_timeout_def\<close>)
  have k: "keeps {c} s ?s"
    by (rule keeps_conn [OF c(1), of _ ?x]) (simp_all add: ev_ready_def flb_connection_unset_connection_timeout_def)
  have v': "queue_of u ?s = Some v" using v queue_of_cfg [of ?s s] by simp
  have end_eq: "create_conn_end c ret s =
      (if ret = -1 then do { s \<leftarrow> prepare_destroy_conn_safe c ?s; Some (None, s) } else Some (Some c, ?s))"
    using c by (simp add: create_conn_end_def upd_conn_eq)
  show ?thesis
  proof (cases "ret = -1")
    case True
    have "runs (prepare_destroy_conn_safe c ?s) (\<lambda>s'. good s' \<and> keeps {c} s s' \<and> \<not> busy s' c)"
      by (rule runs_mono [OF prepare_destroy_conn_safe_runs [OF p, of c ?x]])
        (use g keeps_trans [OF k, of "{}" _ "{c}"] in \<open>auto simp: busy_def\<close>)
    then show ?thesis unfolding flb_upstream_conn_get_end_def end_eq using True by simp
  next
    case False
    have "runs (conn_assign u e c ?s) (\<lambda>s'. good s' \<and> keeps {c} s s' \<and> busy s' c)"
      by (rule runs_mono [OF conn_assign_runs [OF p _ _ _ v', of c ?x]])
        (use g c busy_not_available [of "{}" s c cn] keeps_trans [OF k, of "{c}" _ "{c}"] in
          \<open>auto simp: flb_connection_unset_connection_timeout_def\<close>)
    then show ?thesis unfolding flb_upstream_conn_get_end_def end_eq using False by simp
  qed
qed

section \<open>\<open>flb_upstream_conn_release\<close>\<close>

text \<open>Watching an idle connection: it keeps its place, and its handler is set.\<close>

lemma watch_runs:
  assumes inv: "pool_inv {} s" and c: "nt_conns s c = Some cn"
  shows "runs (do {
           s \<leftarrow> upd_conn c (\<lambda>cn. cn\<lparr>cn_ts_available := t\<rparr>) s;
           cn \<leftarrow> nt_conns s c;
           s \<leftarrow> (if cn_ev_registered cn then mk_event_del c s else Some s);
           s \<leftarrow> upd_conn c mk_event_new s;
           s \<leftarrow> upd_conn c (\<lambda>cn. cn\<lparr>cn_ev_handler := True\<rparr>) s;
           mk_event_add ok c (cn_fd cn) EV_CUSTOM MK_EVENT_CLOSE s})
         (\<lambda>(ret, s'). pool_inv {} s' \<and> keeps {} s s' \<and> locked s' = locked s)"
proof -
  let ?y = "(mk_event_new (cn\<lparr>cn_ts_available := t\<rparr>))\<lparr>cn_ev_handler := True, cn_ev_fd := cn_fd cn, cn_ev_registered := True,
      cn_ev_type := EV_CUSTOM\<rparr>"
  have inv': "pool_inv {} (s\<lparr>nt_bktq := b, nt_conns := (nt_conns s)(c \<mapsto> x)\<rparr>)"
    and keeps': "keeps {} s (s\<lparr>nt_bktq := b, nt_conns := (nt_conns s)(c \<mapsto> x)\<rparr>)"
    if x: "x = ?y \<or> x = ?y\<lparr>cn_ev_mask := MK_EVENT_CLOSE\<rparr>" and b: "distinct b" "set b \<subseteq> set (nt_bktq s)" for x b
  proof -
    have "conn_ok True (\<lambda>u. queue_of u s) x"
      using pool_invD(4) [OF inv c] x by (auto simp: conn_ok_def ev_ready_def)
    then have "pool_inv {} (s\<lparr>nt_conns := (nt_conns s)(c \<mapsto> x)\<rparr>)"
      by (intro pool_inv_conn [OF inv c]) (use x in \<open>auto simp: ev_ready_def\<close>)
    then show "pool_inv {} (s\<lparr>nt_bktq := b, nt_conns := (nt_conns s)(c \<mapsto> x)\<rparr>)"
      by (rule pool_inv_frame) (use b in auto)
    show "keeps {} s (s\<lparr>nt_bktq := b, nt_conns := (nt_conns s)(c \<mapsto> x)\<rparr>)"
      by (rule keeps_conn [OF c, of _ x]) (use x in \<open>auto simp: ev_ready_def\<close>)
  qed
  let ?B = "if cn_ev_registered cn then remove1 c (nt_bktq s) else nt_bktq s"
  have sub: "distinct ?B" "set ?B \<subseteq> set (nt_bktq s)" "distinct (remove1 c ?B)" "set (remove1 c ?B) \<subseteq> set (nt_bktq s)"
    using pool_invD(5) [OF inv] by (auto simp: set_remove1_eq distinct_remove1)
  let ?y' = "?y\<lparr>cn_ev_mask := MK_EVENT_CLOSE\<rparr>"
  have "(do {
           s \<leftarrow> upd_conn c (\<lambda>cn. cn\<lparr>cn_ts_available := t\<rparr>) s;
           cn \<leftarrow> nt_conns s c;
           s \<leftarrow> (if cn_ev_registered cn then mk_event_del c s else Some s);
           s \<leftarrow> upd_conn c mk_event_new s;
           s \<leftarrow> upd_conn c (\<lambda>cn. cn\<lparr>cn_ev_handler := True\<rparr>) s;
           mk_event_add ok c (cn_fd cn) EV_CUSTOM MK_EVENT_CLOSE s}) =
        Some (if ok then (0, s\<lparr>nt_bktq := remove1 c ?B, nt_conns := (nt_conns s)(c \<mapsto> ?y')\<rparr>)
              else (-1, s\<lparr>nt_bktq := ?B, nt_conns := (nt_conns s)(c \<mapsto> ?y)\<rparr>))"
    using c by (cases "cn_ev_registered cn"; cases ok)
      (simp_all add: upd_conn_eq mk_event_del_def bktq_unlink_def mk_event_add_def, simp_all add: mk_event_new_def)
  then show ?thesis
    using inv' [of ?y ?B] keeps' [of ?y ?B] inv' [of ?y' "remove1 c ?B"] keeps' [of ?y' "remove1 c ?B"] sub by simp
qed

text \<open>An idle connection that is dropped, and one that is kept.\<close>

lemma drop_idle_runs:
  assumes "pool_inv X s" and "X \<subseteq> {c}" and "unlocked s" and "nt_conns s c \<noteq> None" and b: "\<not> busy s c"
  shows "runs (prepare_destroy_conn_safe c s) (\<lambda>s'. good s' \<and> keeps {} s s' \<and> \<not> busy s' c)"
proof -
  from assms obtain cn where c: "nt_conns s c = Some cn" by auto
  then have "\<not> cn_busy_flag cn" using b by (simp add: busy_def)
  then show ?thesis
    by (intro runs_mono [OF prepare_destroy_conn_safe_runs [OF assms(1,2) c assms(3)]]) (auto simp: busy_def)
qed

definition recycle_or_drop :: "flb_net_setup \<Rightarrow> cid \<Rightarrow> int \<times> net_state \<Rightarrow> net_state option" where
  "recycle_or_drop net c =
     (\<lambda>(ret, s).
      if ret = -1 then prepare_destroy_conn_safe c s
      else do {
        s \<leftarrow> upd_conn c (\<lambda>cn. cn\<lparr>cn_ka_count := cn_ka_count cn + 1\<rparr>) s;
        cn \<leftarrow> nt_conns s c;
        (if ns_keepalive_max_recycle net > 0 \<and> cn_ka_count cn > ns_keepalive_max_recycle net
         then prepare_destroy_conn_safe c s else Some s)})"

lemma recycle_or_drop_runs:
  assumes g: "pool_inv {} s" "unlocked s" and c: "nt_conns s c = Some cn" and b: "\<not> busy s c"
  shows "runs (recycle_or_drop net c (ret, s)) (\<lambda>s'. good s' \<and> keeps {} s s' \<and> \<not> busy s' c)"
proof -
  let ?z = "cn\<lparr>cn_ka_count := cn_ka_count cn + 1\<rparr>"
  let ?s = "s\<lparr>nt_conns := (nt_conns s)(c \<mapsto> ?z)\<rparr>"
  have p: "pool_inv {} ?s"
    by (rule pool_inv_conn [OF g(1) c]) (use pool_invD(4) [OF g(1) c] in \<open>auto simp: conn_ok_def ev_ready_def\<close>)
  have k: "keeps {} s ?s" by (rule keeps_conn [OF c, of _ ?z]) (simp_all add: ev_ready_def)
  have b': "\<not> busy ?s c" using b c by (simp add: busy_def)
  have "runs (prepare_destroy_conn_safe c ?s) (\<lambda>s'. good s' \<and> keeps {} s s' \<and> \<not> busy s' c)"
    by (rule runs_mono [OF drop_idle_runs [OF p _ _ _ b']]) (use g(2) keeps_trans [OF k, of "{}" _ "{}"] in auto)
  then show ?thesis using drop_idle_runs [OF g(1) _ g(2) _ b] p g(2) k b' c
    by (simp add: recycle_or_drop_def upd_conn_eq)
qed

lemma conn_recycle_idle_runs:
  assumes g: "pool_inv X s" "X \<subseteq> {c}" "unlocked s" and c: "nt_conns s c = Some cn" "\<not> cn_busy_flag cn"
    and q: "queue_of (cn_stream cn) s = Some v"
  shows "runs (conn_recycle_idle (cn_stream cn) v e c s) (\<lambda>s'. good s' \<and> keeps {} s s' \<and> \<not> busy s' c)"
proof -
  let ?P = "\<lambda>s'. good s' \<and> keeps {} s s' \<and> \<not> busy s' c"
  from q obtain up where up: "nt_upstreams s (cn_stream cn) = Some up" by (rule queue_ofD)
  let ?watch = "\<lambda>s. do {
      s \<leftarrow> upd_conn c (\<lambda>cn. cn\<lparr>cn_ts_available := ne_time e\<rparr>) s;
      cn \<leftarrow> nt_conns s c;
      s \<leftarrow> (if cn_ev_registered cn then mk_event_del c s else Some s);
      s \<leftarrow> upd_conn c mk_event_new s;
      s \<leftarrow> upd_conn c (\<lambda>cn. cn\<lparr>cn_ev_handler := True\<rparr>) s;
      mk_event_add (ne_epoll_add e) c (cn_fd cn) EV_CUSTOM MK_EVENT_CLOSE s}"
  have eq: "conn_recycle_idle (cn_stream cn) v e c s = do {
      s \<leftarrow> flb_stream_acquire_lock (cn_stream cn) s; s \<leftarrow> mk_list_del c s; s \<leftarrow> mk_list_add c (AvQueue v) s;
      s \<leftarrow> flb_stream_release_lock (cn_stream cn) s; Option.bind (?watch s) (recycle_or_drop (st_net (up_base up)) c)}"
    by (simp add: conn_recycle_idle_def up recycle_or_drop_def)
  have w: "runs (Option.bind (?watch s2) (recycle_or_drop (st_net (up_base up)) c)) ?P"
    if g2: "pool_inv {} s2" "unlocked s2" and k2: "keeps {} s s2" and c2: "nt_conns s2 = (nt_conns s)(c \<mapsto> cn\<lparr>cn_link := Some (AvQueue v)\<rparr>)" for s2
  proof (subst runs_bind, rule runs_mono [OF watch_runs])
    show "nt_conns s2 c = Some (cn\<lparr>cn_link := Some (AvQueue v)\<rparr>)" using c2 by simp
    fix r :: "int \<times> net_state"
    assume "case r of (ret, s') \<Rightarrow> pool_inv {} s' \<and> keeps {} s2 s' \<and> locked s' = locked s2"
    then obtain ret s3 where r: "r = (ret, s3)" and p3: "pool_inv {} s3" and k3: "keeps {} s2 s3"
      and l3: "locked s3 = locked s2" by (cases r) auto
    have k: "keeps {} s s3" using keeps_trans [OF k2 k3] by simp
    then obtain y where y: "nt_conns s3 c = Some y" using keeps_live [OF _ c(1)] by blast
    have "unlocked s3" using g2 l3 by (simp add: unlocked_def)
    moreover have "\<not> busy s3 c" using keepsD(5) [OF k3, of c] c(2) by (simp add: busy_def c2)
    ultimately show "runs (recycle_or_drop (st_net (up_base up)) c r) ?P" unfolding r
      by (rule runs_mono [OF recycle_or_drop_runs [OF p3 _ y]]) (use keeps_trans [OF k, of "{}" _ "{}"] in auto)
  qed (use g2 in simp)
  show ?thesis unfolding eq runs_bind [of "flb_stream_acquire_lock _ _"] runs_bind [of "mk_list_del _ _"]
      runs_bind [of "mk_list_add _ _ _"] runs_bind [of "flb_stream_release_lock _ _"]
  proof (rule relink_runs [OF g c(1) q])
    show "AvQueue v = AvQueue v \<and> \<not> cn_busy_flag cn \<and> {} = {} \<or> AvQueue v = BusyQueue v \<and> {} = {c}" using c(2) by simp
  qed (use q w in blast)+
qed

lemma conn_release_runs:
  assumes g: "good s" and c: "nt_conns s c = Some cn" "cn_busy_flag cn"
  shows "runs (flb_upstream_conn_release e c s) (\<lambda>s'. good s' \<and> keeps {c} s s' \<and> \<not> busy s' c)"
proof -
  let ?P = "\<lambda>s'. good s' \<and> keeps {c} s s' \<and> \<not> busy s' c"
  let ?x = "cn\<lparr>cn_busy_flag := False\<rparr>"
  let ?s = "s\<lparr>nt_conns := (nt_conns s)(c \<mapsto> ?x)\<rparr>"
  from g c obtain v where v: "queue_of (cn_stream cn) s = Some v" by (blast elim: conn_okD)
  have p: "pool_inv {c} ?s" by (rule set_idle [OF _ c]) (use g in simp_all)
  have k: "keeps {c} s ?s" by (rule keeps_conn [OF c(1), of _ ?x]) (simp_all add: ev_ready_def)
  have q: "queue_of (cn_stream cn) ?s = Some v" using v queue_of_cfg [of ?s s] by simp
  let ?rest = "\<lambda>s1. do {
      uq \<leftarrow> flb_upstream_queue_get (cn_stream cn) s1;
      up \<leftarrow> nt_upstreams s1 (cn_stream cn);
      (if ns_keepalive (st_net (up_base up)) \<and> cn_recycle cn \<and> cn_fd cn > -1 \<and> cn_net_error cn = -1
       then do { v \<leftarrow> uq; conn_recycle_idle (cn_stream cn) v e c s1 }
       else prepare_destroy_conn_safe c s1)}"
  have "runs (flb_upstream_decrement_busy_connections_count (cn_stream cn) ?s) (\<lambda>s1. runs (?rest s1) ?P)"
  proof (rule runs_mono [OF gauge_runs(4) [OF q]])
    fix s1 assume t: "touch ?s s1 \<and> locked s1 = locked ?s"
    have p1: "pool_inv {c} s1" using pool_inv_touch [OF _ p] t by blast
    have un1: "unlocked s1" using t g by (simp add: unlocked_def)
    have k1: "keeps {c} s s1" using keeps_trans [OF k keeps_touch [of ?s s1 "{}"]] t by simp
    have c1: "nt_conns s1 c = Some ?x" using touchD(1) [OF conjunct1 [OF t]] by simp
    have q1: "queue_of (cn_stream cn) s1 = Some v" using v queue_of_cfg [OF keepsD(1) [OF k1]] by simp
    obtain up where up: "nt_upstreams s1 (cn_stream cn) = Some up"
      "flb_upstream_queue_get (cn_stream cn) s1 = Some (Some v)" using q1 by (rule queue_ofD)
    have "runs (conn_recycle_idle (cn_stream cn) v e c s1) ?P"
      by (rule runs_mono [OF conn_recycle_idle_runs [of "{c}" s1 c ?x v e, simplified]])
        (use p1 un1 c1 q1 keeps_trans [OF k1, of "{}" _ "{c}"] in auto)
    moreover have "runs (prepare_destroy_conn_safe c s1) ?P"
      by (rule runs_mono [OF drop_idle_runs [OF p1 _ un1]])
        (use c1 keeps_trans [OF k1, of "{}" _ "{c}"] in \<open>auto simp: busy_def\<close>)
    ultimately show "runs (?rest s1) ?P" using up by simp
  qed
  then show ?thesis using c by (simp add: flb_upstream_conn_release_def upd_conn_eq)
qed

section \<open>Timeouts\<close>

lemma each_conn_runs:
  assumes step: "\<And>c s. pool_inv {} s \<Longrightarrow> nt_conns s c \<noteq> None \<Longrightarrow> queue_of u s = Some v \<Longrightarrow>
      runs (f c s) (\<lambda>s'. pool_inv {} s' \<and> keeps {} s s' \<and> locked s' = locked s)"
    and "pool_inv {} s" and "\<forall>c \<in> set cs. nt_conns s c \<noteq> None" and "queue_of u s = Some v"
  shows "runs (each_conn f cs s) (\<lambda>s'. pool_inv {} s' \<and> keeps {} s s' \<and> locked s' = locked s)"
  using assms(2-)
proof (induction cs arbitrary: s)
  case Nil
  then show ?case by simp
next
  case (Cons c cs)
  have "runs (f c s) (\<lambda>s1. runs (each_conn f cs s1) (\<lambda>s'. pool_inv {} s' \<and> keeps {} s s' \<and> locked s' = locked s))"
  proof (rule runs_mono [OF step])
    fix s1 assume s1: "pool_inv {} s1 \<and> keeps {} s s1 \<and> locked s1 = locked s"
    then have k: "keeps {} s s1" by blast
    have "\<forall>d \<in> set cs. nt_conns s1 d \<noteq> None" using Cons.prems(2) keeps_live [OF k] by fastforce
    moreover have "queue_of u s1 = Some v" using Cons.prems(3) queue_of_cfg [OF keepsD(1) [OF k]] by simp
    ultimately show "runs (each_conn f cs s1) (\<lambda>s'. pool_inv {} s' \<and> keeps {} s s' \<and> locked s' = locked s)"
      by (intro runs_mono [OF Cons.IH]) (use s1 keeps_trans [OF k, of "{}" _ "{}"] in auto)
  qed (use Cons.prems in auto)
  then show ?case by simp
qed

lemma busy_timeout_runs:
  assumes inv: "pool_inv {} s" and c: "nt_conns s c = Some cn" and v: "queue_of u s = Some v"
  shows "runs (busy_timeout u e c s) (\<lambda>s'. pool_inv {} s' \<and> keeps {} s s' \<and> locked s' = locked s)"
proof -
  let ?P = "\<lambda>s'. pool_inv {} s' \<and> keeps {} s s' \<and> locked s' = locked s"
  from inv c obtain w where "queue_of (cn_stream cn) s = Some w" and reg: "cn_ev_registered cn \<longrightarrow> ev_ready cn"
    by (rule conn_okD)
  then obtain up where up: "nt_upstreams s (cn_stream cn) = Some up" by (metis queue_ofD)
  have chg: "pool_inv {} (s\<lparr>nt_conns := (nt_conns s)(c \<mapsto> x)\<rparr>)" "keeps {} s (s\<lparr>nt_conns := (nt_conns s)(c \<mapsto> x)\<rparr>)"
    if x: "x = cn\<lparr>cn_net_error := ETIMEDOUT\<rparr> \<or> x = cn\<lparr>cn_net_error := ETIMEDOUT, cn_shutdown_flag := True\<rparr>" for x
  proof -
    show "pool_inv {} (s\<lparr>nt_conns := (nt_conns s)(c \<mapsto> x)\<rparr>)"
      by (rule pool_inv_conn [OF inv c]) (use x pool_invD(4) [OF inv c] in \<open>auto simp: conn_ok_def ev_ready_def\<close>)
    show "keeps {} s (s\<lparr>nt_conns := (nt_conns s)(c \<mapsto> x)\<rparr>)"
      by (rule keeps_conn [OF c, of _ x]) (use x in \<open>auto simp: ev_ready_def\<close>)
  qed
  have gauge: "runs (flb_upstream_decrement_busy_connections_count u s1) ?P" if "?P s1" for s1
  proof -
    have k: "keeps {} s s1" using that by blast
    then have "queue_of u s1 = Some v" using v queue_of_cfg [OF keepsD(1) [OF k]] by simp
    then show ?thesis using that keeps_trans [OF k keeps_touch, of _ "{}" "{}"]
      by (intro runs_mono [OF gauge_runs(4)]) (auto simp: pool_inv_touch)
  qed
  let ?x = "cn\<lparr>cn_net_error := ETIMEDOUT\<rparr>"
  let ?s = "s\<lparr>nt_conns := (nt_conns s)(c \<mapsto> ?x)\<rparr>"
  let ?y = "if cn_fd cn > 0 \<and> \<not> cn_shutdown_flag cn then ?x\<lparr>cn_shutdown_flag := True\<rparr> else ?x"
  let ?t = "s\<lparr>nt_conns := (nt_conns s)(c \<mapsto> ?y)\<rparr>"
  have drop: "runs (prepare_destroy_conn c ?s) (\<lambda>s1. runs (flb_upstream_decrement_busy_connections_count u s1) ?P)"
    by (intro runs_mono [OF prepare_destroy_conn_runs [of "{}" ?s c ?x]] gauge)
      (use chg [of ?x] keeps_trans [OF chg(2) [of ?x], of "{}" _ "{}"] in auto)
  have t: "pool_inv {} ?t \<and> keeps {} s ?t" using chg [of ?y] by (simp split: if_splits)
  have inj: "?P (mk_event_inject b c ?t)" if "cn_ev_registered cn" for b
  proof -
    have rdy: "ready ?t c" using that reg by (auto simp: ready_def ev_ready_def)
    have "pool_inv {} (?t\<lparr>nt_events := evs\<rparr>)" for evs
      by (rule pool_inv_frame [OF conjunct1 [OF t]]) (use pool_invD(5) [OF inv] in auto)
    moreover have "keeps {} s (?t\<lparr>nt_events := nt_events s @ [c]\<rparr>)"
      using conjunct2 [OF t] rdy by (auto simp: keeps_def ready_def busy_def roster_def fun_eq_iff)
    ultimately show ?thesis using t by (simp add: mk_event_inject_def)
  qed
  have "shutdown_connection c ?s = Some ?t"
    by (simp add: shutdown_connection_def upd_conn_eq)
  then show ?thesis using c up drop inj gauge [OF inj] inv
    by (auto simp: busy_timeout_def upd_conn_eq)
qed

lemma idle_timeout_runs:
  assumes inv: "pool_inv {} s" and c: "nt_conns s c = Some cn" and v: "queue_of u s = Some v"
  shows "runs (idle_timeout u e c s) (\<lambda>s'. pool_inv {} s' \<and> keeps {} s s' \<and> locked s' = locked s)"
proof -
  from v obtain up where up: "nt_upstreams s u = Some up" by (rule queue_ofD)
  have "runs (prepare_destroy_conn c s) (\<lambda>s'. pool_inv {} s' \<and> keeps {} s s' \<and> locked s' = locked s)"
    by (rule runs_mono [OF prepare_destroy_conn_runs [OF inv _ c]]) auto
  then show ?thesis using c up inv by (simp add: idle_timeout_def)
qed

lemma upstream_timeouts_runs:
  assumes g: "good s" and v: "queue_of u s = Some v"
  shows "runs (upstream_timeouts e u s) (\<lambda>s'. good s' \<and> keeps {} s s')"
proof -
  from v obtain up where up: "nt_upstreams s u = Some up" and get: "flb_upstream_queue_get u s = Some (Some v)"
    by (rule queue_ofD)
  let ?Q = "\<lambda>s'. pool_inv {} s' \<and> keeps {} s s'"
  have loop: "runs (each_conn f (nt_list s1 q) s1) (\<lambda>s'. pool_inv {} s' \<and> keeps {} s1 s' \<and> locked s' = locked s1)"
    if f: "f = busy_timeout u e \<or> f = idle_timeout u e" and p: "pool_inv {} s1" and v1: "queue_of u s1 = Some v" for f q s1
  proof (rule each_conn_runs [OF _ p _ v1])
    show "\<forall>c \<in> set (nt_list s1 q). nt_conns s1 c \<noteq> None" using pool_invD(1) [OF p] by auto
    show "runs (f c s) (\<lambda>s'. pool_inv {} s' \<and> keeps {} s s' \<and> locked s' = locked s)"
      if "pool_inv {} s" "nt_conns s c \<noteq> None" "queue_of u s = Some v" for c s
      using that f busy_timeout_runs idle_timeout_runs by fastforce
  qed
  have body: "runs (do { s \<leftarrow> each_conn (busy_timeout u e) (nt_list s1 (BusyQueue v)) s1;
                         each_conn (idle_timeout u e) (nt_list s (AvQueue v)) s })
      (\<lambda>s2. locked s2 = locked s1 \<and> cfg s2 = cfg s1 \<and> ?Q s2)" if t: "touch s s1" for s1
  proof -
    have p1: "pool_inv {} s1" using g pool_inv_touch [OF t] by simp
    have v1: "queue_of u s1 = Some v" using v queue_of_cfg [OF touchD(6) [OF t]] by simp
    show ?thesis unfolding runs_bind
    proof (rule runs_mono [OF loop [OF _ p1 v1]])
      fix s2 assume s2: "pool_inv {} s2 \<and> keeps {} s1 s2 \<and> locked s2 = locked s1"
      then have v2: "queue_of u s2 = Some v" using v1 queue_of_cfg [OF keepsD(1), of "{}" s1 s2] by simp
      have k2: "keeps {} s s2" using keeps_trans [OF keeps_touch [OF t, of "{}"], of "{}" s2 "{}"] s2 by simp
      show "runs (each_conn (idle_timeout u e) (nt_list s2 (AvQueue v)) s2)
          (\<lambda>s2. locked s2 = locked s1 \<and> cfg s2 = cfg s1 \<and> ?Q s2)"
        by (rule runs_mono [OF loop [OF _ _ v2]])
          (use s2 keeps_trans [OF k2, of "{}" _ "{}"] in \<open>auto simp: keepsD(1)\<close>)
    qed simp
  qed
  have "runs (flb_stream_acquire_lock u s) (\<lambda>s1. runs (do { s \<leftarrow> each_conn (busy_timeout u e) (nt_list s1 (BusyQueue v)) s1;
        each_conn (idle_timeout u e) (nt_list s (AvQueue v)) s })
      (\<lambda>s2. runs (flb_stream_release_lock u s2) (\<lambda>s'. good s' \<and> keeps {} s s')))"
  proof (rule with_lock_then [OF _ up body])
    show "?Q s3" if "touch s2 s3" "?Q s2" for s2 s3
      using that pool_inv_touch keeps_trans [OF _ keeps_touch [OF that(1), of "{}"], of "{}" s "{}"] by auto
  qed (use g in auto)
  then show ?thesis by (simp add: upstream_timeouts_def get)
qed

lemma conn_timeouts_runs:
  assumes "good s" and "\<forall>u \<in> set us. queue_of u s \<noteq> None"
  shows "runs (flb_upstream_conn_timeouts e us s) (\<lambda>s'. good s' \<and> keeps {} s s')"
  using assms
proof (induction us arbitrary: s)
  case Nil
  then show ?case by simp
next
  case (Cons u us)
  then obtain v where v: "queue_of u s = Some v" by auto
  have "runs (upstream_timeouts e u s) (\<lambda>s1. runs (flb_upstream_conn_timeouts e us s1) (\<lambda>s'. good s' \<and> keeps {} s s'))"
  proof (rule runs_mono [OF upstream_timeouts_runs [OF Cons.prems(1) v]])
    fix s1 assume s1: "good s1 \<and> keeps {} s s1"
    then have k: "keeps {} s s1" by blast
    have "\<forall>w \<in> set us. queue_of w s1 \<noteq> None" using Cons.prems(2) queue_of_cfg [OF keepsD(1) [OF k]] by simp
    then show "runs (flb_upstream_conn_timeouts e us s1) (\<lambda>s'. good s' \<and> keeps {} s s')"
      by (intro runs_mono [OF Cons.IH]) (use s1 keeps_trans [OF k, of "{}" _ "{}"] in auto)
  qed
  then show ?case by simp
qed

end
