(* ===== verification/Upstream_Run.thy ===== *)
theory Upstream_Run
  imports Upstream_Ops
begin

text \<open>
  The pool of connections at work in an event loop thread: a transition system over the operations of \<open>Upstream\<close>. Coroutines
  take connections, suspend while they connect and do I/O on them, and release them; the loop reports events, runs their handlers
  and the timer that checks timeouts; after the loop the thread frees what is pending. The properties of the pool hold in
  every state reached by any interleaving of these steps.
\<close>

section \<open>Ready events\<close>

text \<open>
  The functions of \<^verbatim>\<open>flb_event_loop.h\<close> on the events of connections: linking the ready ones in the queue of events by
  priority. Of that queue only the members matter here; \<open>Bucket_Queue\<close> has their order.
\<close>

definition load_event :: "cid \<Rightarrow> net_state \<Rightarrow> net_state option" where
  "load_event c s = do {
     cn \<leftarrow> nt_conns s c;
     Some (if c \<in> set (nt_bktq s) then s else s\<lparr>nt_bktq := nt_bktq s @ [c]\<rparr>)}"

fun load_bucket_queue :: "cid list \<Rightarrow> net_state \<Rightarrow> net_state option" where
  "load_bucket_queue [] s = Some s"
| "load_bucket_queue (c # cs) s = do {
     cn \<leftarrow> nt_conns s c;
     s \<leftarrow> (if cn_ev_registered cn then load_event c s else Some s);
     load_bucket_queue cs s}"

fun load_injected_events :: "cid list \<Rightarrow> net_state \<Rightarrow> net_state option" where
  "load_injected_events [] s = Some s"
| "load_injected_events (c # cs) s = do { s \<leftarrow> load_event c s; load_injected_events cs s }"

text \<open>\<open>mk_event_wait\<close> reports the ready events \<open>cs\<close>, which are then loaded.\<close>

definition wait_and_load :: "cid list \<Rightarrow> net_state \<Rightarrow> net_state option" where
  "wait_and_load cs s = load_bucket_queue cs (s\<lparr>nt_events := cs\<rparr>)"

text \<open>The body of the loop for an event: its handler, or the coroutine, whose steps are separate.\<close>

definition dispatch_event :: "cid \<Rightarrow> net_state \<Rightarrow> net_state option" where
  "dispatch_event c s = do {
     cn \<leftarrow> nt_conns s c;
     (let s = bktq_unlink c s in
      case cn_ev_type cn of
        EV_CUSTOM \<Rightarrow> if cn_ev_handler cn then cb_upstream_conn_ka_dropped c s else None
      | EV_THREAD \<Rightarrow> Some s)}"

section \<open>The transition system\<close>

text \<open>
  What a coroutine that has a connection may change of it: its socket, error, TLS session and the registration of its
  event, which \<open>mk_event_add\<close> and \<open>mk_event_del\<close> unlink from the queue.
\<close>

record conn_io =
  io_fd :: int
  io_net_error :: int
  io_tls_session :: tls_session
  io_ev_registered :: bool
  io_ev_mask :: nat
  io_ev_type :: event_type
  io_unlink :: bool

definition conn_io :: "cid \<Rightarrow> conn_io \<Rightarrow> net_state \<Rightarrow> net_state option" where
  "conn_io c io s = do {
     s \<leftarrow> upd_conn c (\<lambda>cn. cn\<lparr>cn_fd := io_fd io, cn_net_error := io_net_error io, cn_tls_session := io_tls_session io,
                            cn_ev_registered := io_ev_registered io, cn_ev_mask := io_ev_mask io,
                            cn_ev_type := io_ev_type io\<rparr>) s;
     Some (if io_unlink io then bktq_unlink c s else s)}"

definition io_allowed :: "conn_io \<Rightarrow> flb_connection \<Rightarrow> bool" where
  "io_allowed io cn \<longleftrightarrow>
     (io_ev_type io = EV_THREAD \<or> cn_ev_handler cn \<or> \<not> io_ev_registered io \<and> io_ev_type io = cn_ev_type cn)"

text \<open>
  A run: the thread, the connections on which a coroutine waits in \<open>flb_io_net_connect\<close> with the upstream it asked, those
  handed out, whether the loop over events is running, and the number of events at its start.
\<close>

record pool_run =
  pr_net :: net_state
  pr_connecting :: "(cid \<times> stream_id) list"
  pr_held :: "cid list"
  pr_in_loop :: bool
  pr_n_events :: nat

datatype pool_op =
    Get stream_id net_env
  | Connected cid stream_id net_env int
  | Io cid conn_io
  | Recycle cid int
  | Release cid net_env
  | Timeouts "stream_id list" net_env
  | Wait "cid list"
  | Turn "cid list"
  | Dispatch cid
  | Leave
  | PendingDestroy "stream_id list"

definition in_use :: "pool_run \<Rightarrow> cid \<Rightarrow> bool" where
  "in_use p c \<longleftrightarrow> c \<in> set (pr_held p) \<or> c \<in> fst ` set (pr_connecting p)"

definition registered :: "net_state \<Rightarrow> cid \<Rightarrow> bool" where
  "registered s c = (case nt_conns s c of None \<Rightarrow> False | Some cn \<Rightarrow> cn_ev_registered cn)"

text \<open>
  When a step may happen. A coroutine runs within the loop over events, uses only connections it was given, and asks an upstream that is
  configured for the thread. The loop reports registered events only.
\<close>

fun pool_enabled :: "pool_op \<Rightarrow> pool_run \<Rightarrow> bool" where
  "pool_enabled (Get u e) p = (pr_in_loop p \<and> queue_of u (pr_net p) \<noteq> None)"
| "pool_enabled (Connected c u e ret) p = (pr_in_loop p \<and> (c, u) \<in> set (pr_connecting p))"
| "pool_enabled (Io c io) p =
     (pr_in_loop p \<and> in_use p c
      \<and> (case nt_conns (pr_net p) c of None \<Rightarrow> True | Some cn \<Rightarrow> io_allowed io cn))"
| "pool_enabled (Recycle c val) p = (pr_in_loop p \<and> c \<in> set (pr_held p))"
| "pool_enabled (Release c e) p = (pr_in_loop p \<and> c \<in> set (pr_held p))"
| "pool_enabled (Timeouts us e) p = (pr_in_loop p \<and> (\<forall>u \<in> set us. queue_of u (pr_net p) \<noteq> None))"
| "pool_enabled (Wait cs) p = (\<not> pr_in_loop p \<and> (\<forall>c \<in> set cs. registered (pr_net p) c))"
| "pool_enabled (Turn cs) p = (pr_in_loop p \<and> (\<forall>c \<in> set cs. registered (pr_net p) c))"
| "pool_enabled (Dispatch c) p = (pr_in_loop p \<and> c \<in> set (nt_bktq (pr_net p)))"
| "pool_enabled Leave p = pr_in_loop p"
| "pool_enabled (PendingDestroy us) p =
     (\<not> pr_in_loop p \<and> (\<forall>u \<in> set us. case flb_upstream_queue_get u (pr_net p) of Some (Some v) \<Rightarrow> True | _ \<Rightarrow> False))"

fun pool_exec :: "pool_op \<Rightarrow> pool_run \<Rightarrow> pool_run option" where
  "pool_exec (Get u e) p = do {
     (r, s) \<leftarrow> flb_upstream_conn_get u e (pr_net p);
     Some (case r of
             GetNull \<Rightarrow> p\<lparr>pr_net := s\<rparr>
           | GetConn c \<Rightarrow> p\<lparr>pr_net := s, pr_held := c # pr_held p\<rparr>
           | GetConnecting c \<Rightarrow> p\<lparr>pr_net := s, pr_connecting := (c, u) # pr_connecting p\<rparr>)}"
| "pool_exec (Connected c u e ret) p = do {
     (r, s) \<leftarrow> flb_upstream_conn_get_end u e c ret (pr_net p);
     (let p = p\<lparr>pr_net := s, pr_connecting := remove1 (c, u) (pr_connecting p)\<rparr> in
      Some (case r of GetConn c \<Rightarrow> p\<lparr>pr_held := c # pr_held p\<rparr> | _ \<Rightarrow> p))}"
| "pool_exec (Io c io) p = do { s \<leftarrow> conn_io c io (pr_net p); Some (p\<lparr>pr_net := s\<rparr>) }"
| "pool_exec (Recycle c val) p = do {
     (r, s) \<leftarrow> flb_upstream_conn_recycle c val (pr_net p); Some (p\<lparr>pr_net := s\<rparr>) }"
| "pool_exec (Release c e) p = do {
     s \<leftarrow> flb_upstream_conn_release e c (pr_net p); Some (p\<lparr>pr_net := s, pr_held := remove1 c (pr_held p)\<rparr>) }"
| "pool_exec (Timeouts us e) p = do { s \<leftarrow> flb_upstream_conn_timeouts e us (pr_net p); Some (p\<lparr>pr_net := s\<rparr>) }"
| "pool_exec (Wait cs) p = do {
     s \<leftarrow> wait_and_load cs (pr_net p); Some (p\<lparr>pr_net := s, pr_in_loop := True, pr_n_events := length cs\<rparr>) }"
| "pool_exec (Turn cs) p = do {
     s \<leftarrow> load_injected_events (drop (pr_n_events p) (nt_events (pr_net p))) (pr_net p);
     s \<leftarrow> wait_and_load cs s;
     Some (p\<lparr>pr_net := s, pr_n_events := length cs\<rparr>) }"
| "pool_exec (Dispatch c) p = do { s \<leftarrow> dispatch_event c (pr_net p); Some (p\<lparr>pr_net := s\<rparr>) }"
| "pool_exec Leave p = Some (p\<lparr>pr_in_loop := False\<rparr>)"
| "pool_exec (PendingDestroy us) p = do {
     s \<leftarrow> flb_upstream_conn_pending_destroy_list us (pr_net p); Some (p\<lparr>pr_net := s\<rparr>) }"

text \<open>A thread starts with no connections, no events and no mutex locked.\<close>

definition pool_init :: "pool_run \<Rightarrow> bool" where
  "pool_init p \<longleftrightarrow>
     nt_conns (pr_net p) = (\<lambda>_. None) \<and> nt_list (pr_net p) = (\<lambda>_. []) \<and> nt_bktq (pr_net p) = []
     \<and> unlocked (pr_net p) \<and> pr_connecting p = [] \<and> pr_held p = [] \<and> \<not> pr_in_loop p"

abbreviation pool_reachable :: "pool_run \<Rightarrow> bool" where
  "pool_reachable \<equiv> reach pool_init pool_enabled pool_exec"

section \<open>The limit on connections\<close>

text \<open>The limit on the number of connections of a thread.\<close>

definition within_limits :: "net_state \<Rightarrow> bool" where
  "within_limits s \<longleftrightarrow>
     (\<forall>u up. queue_of u s \<noteq> None \<and> nt_upstreams s u = Some up \<and> ns_max_worker_connections (st_net (up_base up)) > 0
        \<longrightarrow> int (card {c. roster s c = Some u}) \<le> ns_max_worker_connections (st_net (up_base up)))"

lemma within_limits_cong:
  assumes "within_limits s" and "cfg s' = cfg s" and "pool_inv X s"
    and sub: "\<And>c u. roster s' c = Some u \<Longrightarrow> roster s c = Some u"
  shows "within_limits s'"
  unfolding within_limits_def
proof (intro allI impI, elim conjE)
  fix u up' assume q: "queue_of u s' \<noteq> None" and up': "nt_upstreams s' u = Some up'"
    and pos: "ns_max_worker_connections (st_net (up_base up')) > 0"
  obtain up where up: "nt_upstreams s u = Some up" "up_cfg up = up_cfg up'"
    using cfg_upstream [OF assms(2) [symmetric] up'] by blast
  have "card {c. roster s' c = Some u} \<le> card {c. roster s c = Some u}"
    by (rule card_mono [OF roster_finite [OF assms(3)]]) (use sub in auto)
  moreover have net: "st_net (up_base up) = st_net (up_base up')" using up(2) by (simp add: up_cfg_eq_iff)
  have "int (card {c. roster s c = Some u}) \<le> ns_max_worker_connections (st_net (up_base up))"
    by (rule assms(1) [unfolded within_limits_def, rule_format])
      (use up(1) q pos net queue_of_cfg [OF assms(2), of u] in simp)
  ultimately show "int (card {c. roster s' c = Some u}) \<le> ns_max_worker_connections (st_net (up_base up'))"
    using net by simp
qed

lemma within_limits_new:
  assumes "within_limits s" and inv: "pool_inv {} s" and v: "queue_of u s = Some v" and new: "creates u (Some c) s s'"
    and up: "nt_upstreams s u = Some up"
    and lim: "ns_max_worker_connections (st_net (up_base up)) > 0 \<Longrightarrow>
              queue_total v s < ns_max_worker_connections (st_net (up_base up))"
  shows "within_limits s'"
  unfolding within_limits_def
proof (intro allI impI, elim conjE)
  fix w up' assume q: "queue_of w s' \<noteq> None" and up': "nt_upstreams s' w = Some up'"
    and pos: "ns_max_worker_connections (st_net (up_base up')) > 0"
  have cf: "cfg s' = cfg s" using new by (simp add: creates_def)
  obtain x where x: "nt_upstreams s w = Some x" "up_cfg x = up_cfg up'"
    using cfg_upstream [OF cf [symmetric] up'] by blast
  then have net: "st_net (up_base x) = st_net (up_base up')" by (simp add: up_cfg_eq_iff)
  have old: "int (card {d. roster s d = Some w}) \<le> ns_max_worker_connections (st_net (up_base x))"
    by (rule assms(1) [unfolded within_limits_def, rule_format])
      (use x(1) q pos net queue_of_cfg [OF cf, of w] in simp)
  have ros: "roster s' d = (if d = c then Some u else roster s d)" for d using new by (auto simp: creates_def roster_def)
  have none: "roster s c = None"
    using new pool_invD(3) [OF inv, of c] by (cases "nt_conns s c") (auto simp: creates_def roster_def)
  show "int (card {d. roster s' d = Some w}) \<le> ns_max_worker_connections (st_net (up_base up'))"
  proof (cases "w = u")
    case True
    have "{d. roster s' d = Some w} = insert c {d. roster s d = Some w}" using True by (auto simp: ros)
    then have "card {d. roster s' d = Some w} = Suc (card {d. roster s d = Some w})"
      using none roster_finite [OF inv, of w] by simp
    then show ?thesis using lim True x up pos net queue_total_card [OF inv v] by simp
  next
    case False
    have "{d. roster s' d = Some w} = {d. roster s d = Some w}" using False none by (auto simp: ros)
    then show ?thesis using old net by simp
  qed
qed

section \<open>The invariant of a run\<close>

definition run_inv :: "pool_run \<Rightarrow> bool" where
  "run_inv p \<longleftrightarrow>
     good (pr_net p) \<and> (\<forall>c. busy (pr_net p) c = in_use p c)
     \<and> distinct (pr_held p @ map fst (pr_connecting p))
     \<and> (\<forall>x \<in> set (pr_connecting p). roster (pr_net p) (fst x) = Some (snd x))
     \<and> (pr_in_loop p \<longrightarrow> (\<forall>c \<in> set (nt_events (pr_net p)). ready (pr_net p) c))
     \<and> within_limits (pr_net p)"

lemma run_invD:
  assumes "run_inv p"
  shows "pool_inv {} (pr_net p)" and "unlocked (pr_net p)" and "busy (pr_net p) c = in_use p c"
    and "distinct (pr_held p)" and "distinct (map fst (pr_connecting p))"
    and "set (pr_held p) \<inter> fst ` set (pr_connecting p) = {}"
    and "(c, u) \<in> set (pr_connecting p) \<Longrightarrow> roster (pr_net p) c = Some u"
    and "pr_in_loop p \<Longrightarrow> c \<in> set (nt_events (pr_net p)) \<Longrightarrow> ready (pr_net p) c"
    and "within_limits (pr_net p)"
  using assms by (auto simp: run_inv_def)

lemma run_inv_in_use:
  assumes "run_inv p" and "in_use p c"
  obtains cn where "nt_conns (pr_net p) c = Some cn" and "cn_busy_flag cn"
  using run_invD(3) [OF assms(1), of c] assms(2) by (auto simp: busy_def)

text \<open>Steps that neither create nor free a connection.\<close>

lemma run_inv_keeps:
  assumes inv: "run_inv p" and g: "good (pr_net p')" and k: "keeps X (pr_net p) (pr_net p')"
    and b: "\<And>c. busy (pr_net p') c = in_use p' c" and d: "distinct (pr_held p' @ map fst (pr_connecting p'))"
    and c: "set (pr_connecting p') \<subseteq> set (pr_connecting p)" and l: "pr_in_loop p' \<Longrightarrow> pr_in_loop p"
  shows "run_inv p'"
proof -
  have "within_limits (pr_net p')"
    by (rule within_limits_cong [OF run_invD(9) [OF inv] keepsD(1) [OF k] run_invD(1) [OF inv]]) (simp add: keepsD(3) [OF k])
  moreover have "ready (pr_net p') c" if "pr_in_loop p'" "c \<in> set (nt_events (pr_net p'))" for c
    using keepsD(6) [OF k that(2)] keepsD(4) [OF k] run_invD(8) [OF inv l [OF that(1)]] by blast
  moreover have "roster (pr_net p') (fst x) = Some (snd x)" if "x \<in> set (pr_connecting p')" for x
    using run_invD(7) [OF inv, of "fst x" "snd x"] c that keepsD(3) [OF k] by auto
  ultimately show ?thesis using g b d by (auto simp: run_inv_def)
qed

lemma keeps_net:
  assumes "run_inv p" and "good s" and "keeps {} (pr_net p) s"
  shows "run_inv (p\<lparr>pr_net := s\<rparr>)"
proof (rule run_inv_keeps [OF assms(1)])
  show "keeps {} (pr_net p) (pr_net (p\<lparr>pr_net := s\<rparr>))" using assms(3) by simp
  show "busy (pr_net (p\<lparr>pr_net := s\<rparr>)) c = in_use (p\<lparr>pr_net := s\<rparr>) c" for c
    using keepsD(5) [OF assms(3), of c] run_invD(3) [OF assms(1), of c] by (simp add: in_use_def)
qed (use assms(2) assms(1) in \<open>auto simp: run_inv_def\<close>)

lemma find_available_idle:
  assumes "pool_inv {} s" and "List.find P (nt_list s (AvQueue v)) = Some c"
  shows "\<not> busy s c"
proof -
  from assms(2) have "c \<in> set (nt_list s (AvQueue v))" by (rule find_SomeD [THEN conjunct1])
  then obtain cn where "nt_conns s c = Some cn" "cn_link cn = Some (AvQueue v)" using pool_invD(1) [OF assms(1)] by auto
  then show ?thesis using pool_invD(4) [OF assms(1), of c cn] by (auto simp: conn_ok_def busy_def)
qed

lemma get_conn_inv:
  assumes inv: "run_inv p" and g: "good s" and k: "keeps {c} (pr_net p) s" and b: "busy s c"
    and f: "List.find P (nt_list (pr_net p) (AvQueue v)) = Some c"
  shows "run_inv (p\<lparr>pr_net := s, pr_held := c # pr_held p\<rparr>)"
proof (rule run_inv_keeps [OF inv])
  let ?p = "p\<lparr>pr_net := s, pr_held := c # pr_held p\<rparr>"
  have new: "\<not> in_use p c" using find_available_idle [OF run_invD(1) [OF inv] f] run_invD(3) [OF inv] by simp
  show "keeps {c} (pr_net p) (pr_net ?p)" using k by simp
  show "busy (pr_net ?p) d = in_use ?p d" for d
    using keepsD(5) [OF k, of d] run_invD(3) [OF inv, of d] b by (cases "d = c") (auto simp: in_use_def)
  show "distinct (pr_held ?p @ map fst (pr_connecting ?p))"
    using new run_invD(4-6) [OF inv] by (auto simp: in_use_def)
qed (use g in auto)

lemma get_connecting_inv:
  assumes inv: "run_inv p" and g: "good s" and v: "queue_of u (pr_net p) = Some v"
    and post: "get_post u v e (pr_net p) (GetConnecting c) s"
  shows "run_inv (p\<lparr>pr_net := s, pr_connecting := (c, u) # pr_connecting p\<rparr>)"
proof -
  let ?s = "pr_net p"
  obtain up where up: "nt_upstreams ?s u = Some up" using v by (rule queue_ofD)
  from post up obtain s1 where k: "keeps {} ?s s1" and p1: "pool_inv {} s1" and new: "creates u (Some c) s1 s"
    and lim: "ns_max_worker_connections (st_net (up_base up)) > 0 \<longrightarrow>
        queue_total v s1 < ns_max_worker_connections (st_net (up_base up))" by (auto simp: get_post_def)
  obtain up1 where up1: "nt_upstreams s1 u = Some up1" "up_cfg up1 = up_cfg up"
    using keepsD(1) [OF k] up by (rule cfg_upstream)
  have w1: "within_limits s1"
    by (rule within_limits_cong [OF run_invD(9) [OF inv] keepsD(1) [OF k] run_invD(1) [OF inv]]) (simp add: keepsD(3) [OF k])
  have w: "within_limits s"
    by (rule within_limits_new [OF w1 p1 _ new up1(1)])
      (use v queue_of_cfg [OF keepsD(1) [OF k]] lim up1(2) in \<open>auto simp: up_cfg_eq_iff\<close>)
  have fresh: "nt_conns ?s c = None"
    using new keepsD(2) [OF k] pool_invD(3) [OF run_invD(1) [OF inv], of c]
    by (cases "nt_conns ?s c") (auto simp: creates_def)
  then have unused: "\<not> in_use p c" using run_invD(3) [OF inv, of c] by (simp add: busy_def)
  have old: "nt_conns s d = nt_conns s1 d" if "d \<noteq> c" for d using new that by (simp add: creates_def)
  have b: "busy s d = (d = c \<or> in_use p d)" for d
    using new old [of d] keepsD(5) [OF k, of d] run_invD(3) [OF inv, of d] by (cases "d = c") (auto simp: creates_def busy_def)
  have ros: "roster s (fst x) = Some (snd x)" if "x \<in> set (pr_connecting p)" for x
  proof -
    have r: "roster ?s (fst x) = Some (snd x)" using run_invD(7) [OF inv, of "fst x" "snd x"] that by simp
    then have "fst x \<noteq> c" using fresh by (auto simp: roster_def)
    then show ?thesis using r keepsD(3) [OF k] old [of "fst x"] by (simp add: roster_def fun_eq_iff)
  qed
  have rdy: "ready s d" if "pr_in_loop p" "d \<in> set (nt_events s)" for d
  proof -
    have "d \<in> set (nt_events s1)" using that(2) new by (simp add: creates_def)
    then have r: "ready s1 d" using keepsD(4,6) [OF k, of d] run_invD(8) [OF inv that(1), of d] by blast
    then have "d \<noteq> c" using fresh keepsD(3) [OF k] by (auto simp: ready_def roster_def fun_eq_iff dest!: spec [of _ c])
    then show ?thesis using r old [of d] by (simp add: ready_def)
  qed
  have "roster s c = Some u" using new by (auto simp: creates_def roster_def)
  then show ?thesis using g w b ros rdy unused run_invD(4-6) [OF inv]
    by (auto simp: run_inv_def in_use_def)
qed

lemma get_run:
  assumes inv: "run_inv p" and en: "pool_enabled (Get u e) p"
  shows "runs (pool_exec (Get u e) p) run_inv"
proof -
  from en obtain v where v: "queue_of u (pr_net p) = Some v" by auto
  then obtain up where up: "nt_upstreams (pr_net p) u = Some up" by (rule queue_ofD)
  show ?thesis unfolding pool_exec.simps runs_bind
  proof (rule runs_mono [OF conn_get_runs [OF conjI [OF run_invD(1,2) [OF inv]] v up]])
    fix x assume "case x of (r, s') \<Rightarrow> good s' \<and> get_post u v e (pr_net p) r s'
        \<and> r = get_outcome u v (st_net (up_base up)) e (pr_net p)"
    then obtain r s where x: "x = (r, s)" and g: "good s" and post: "get_post u v e (pr_net p) r s" by (cases x) auto
    show "runs (case x of (r, s) \<Rightarrow> Some (case r of
             GetNull \<Rightarrow> p\<lparr>pr_net := s\<rparr>
           | GetConn c \<Rightarrow> p\<lparr>pr_net := s, pr_held := c # pr_held p\<rparr>
           | GetConnecting c \<Rightarrow> p\<lparr>pr_net := s, pr_connecting := (c, u) # pr_connecting p\<rparr>)) run_inv"
      using keeps_net [OF inv g] get_conn_inv [OF inv g] get_connecting_inv [OF inv g v] post
      by (cases r) (auto simp: x get_post_def)
  qed
qed

text \<open>A connection changes hands: only its own flag changes.\<close>

lemma hand_over:
  assumes inv: "run_inv p" and g: "good (pr_net p')" and k: "keeps {c} (pr_net p) (pr_net p')"
    and b: "busy (pr_net p') c = in_use p' c" and o: "\<And>d. d \<noteq> c \<Longrightarrow> in_use p' d = in_use p d"
    and d: "distinct (pr_held p' @ map fst (pr_connecting p'))"
    and c: "set (pr_connecting p') \<subseteq> set (pr_connecting p)" and l: "pr_in_loop p' = pr_in_loop p"
  shows "run_inv p'"
proof (rule run_inv_keeps [OF inv g k _ d c])
  show "busy (pr_net p') e = in_use p' e" for e
    using b o [of e] keepsD(5) [OF k, of e] run_invD(3) [OF inv, of e] by (cases "e = c") auto
qed (use l in simp)

lemma set_remove1_pair:
  assumes "distinct (map fst xs)" and "(c, u) \<in> set xs"
  shows "fst ` set (remove1 (c, u) xs) = fst ` set xs - {c}" and "distinct (map fst (remove1 (c, u) xs))"
proof -
  have d: "distinct xs" using assms(1) by (simp add: distinct_map)
  have i: "inj_on fst (set xs)" using assms(1) by (simp add: distinct_map)
  show "fst ` set (remove1 (c, u) xs) = fst ` set xs - {c}"
    using inj_on_image_set_diff [OF i, of "set xs" "{(c, u)}"] assms(2) by (simp add: set_remove1_eq [OF d])
  show "distinct (map fst (remove1 (c, u) xs))"
    using i d by (auto simp: distinct_map distinct_remove1 set_remove1_eq [OF d] intro: inj_on_subset)
qed

lemma connected_run:
  assumes inv: "run_inv p" and en: "pool_enabled (Connected c u e ret) p"
  shows "runs (pool_exec (Connected c u e ret) p) run_inv"
proof -
  from en have mem: "(c, u) \<in> set (pr_connecting p)" by simp
  have "in_use p c" using mem by (force simp: in_use_def)
  with inv obtain cn where c: "nt_conns (pr_net p) c = Some cn" "cn_busy_flag cn" by (rule run_inv_in_use)
  have "cn_stream cn = u" using run_invD(7) [OF inv mem] c by (simp add: roster_def)
  then obtain v where v: "queue_of u (pr_net p) = Some v" using run_invD(1) [OF inv] c(1) by (metis conn_okD)
  note rem = set_remove1_pair [OF run_invD(5) [OF inv] mem]
  have hc: "c \<notin> set (pr_held p)" using run_invD(6) [OF inv] mem by force
  show ?thesis unfolding pool_exec.simps runs_bind
  proof (rule runs_mono [OF conn_get_end_runs [OF conjI [OF run_invD(1,2) [OF inv]] c v]])
    fix x assume "case x of (r, s') \<Rightarrow> good s' \<and> keeps {c} (pr_net p) s'
        \<and> (if ret = -1 then r = GetNull \<and> \<not> busy s' c else r = GetConn c \<and> busy s' c)"
    then obtain r s where x: "x = (r, s)" and g: "good s" and k: "keeps {c} (pr_net p) s"
      and r: "if ret = -1 then r = GetNull \<and> \<not> busy s c else r = GetConn c \<and> busy s c" by (cases x) auto
    let ?p = "p\<lparr>pr_net := s, pr_connecting := remove1 (c, u) (pr_connecting p)\<rparr>"
    let ?q = "?p\<lparr>pr_held := c # pr_held p\<rparr>"
    have "run_inv ?p" if "\<not> busy s c"
      by (rule hand_over [OF inv, of _ c])
        (use that g k rem hc run_invD(4,6) [OF inv] in \<open>auto simp: in_use_def dest: notin_set_remove1\<close>)
    moreover have "run_inv ?q" if "busy s c"
      by (rule hand_over [OF inv, of _ c])
        (use that g k rem hc run_invD(4,6) [OF inv] in \<open>auto simp: in_use_def dest: notin_set_remove1\<close>)
    ultimately show "runs (case x of (r, s) \<Rightarrow>
        let p = p\<lparr>pr_net := s, pr_connecting := remove1 (c, u) (pr_connecting p)\<rparr>
        in Some (case r of GetConn c \<Rightarrow> p\<lparr>pr_held := c # pr_held p\<rparr> | _ \<Rightarrow> p)) run_inv"
      using r by (auto simp: x split: if_splits)
  qed
qed

lemma release_run:
  assumes inv: "run_inv p" and en: "pool_enabled (Release c e) p"
  shows "runs (pool_exec (Release c e) p) run_inv"
proof -
  from en have mem: "c \<in> set (pr_held p)" by simp
  have "in_use p c" using mem by (simp add: in_use_def)
  with inv obtain cn where c: "nt_conns (pr_net p) c = Some cn" "cn_busy_flag cn" by (rule run_inv_in_use)
  show ?thesis unfolding pool_exec.simps runs_bind
  proof (rule runs_mono [OF conn_release_runs [OF conjI [OF run_invD(1,2) [OF inv]] c]])
    fix s assume s: "good s \<and> keeps {c} (pr_net p) s \<and> \<not> busy s c"
    have "run_inv (p\<lparr>pr_net := s, pr_held := remove1 c (pr_held p)\<rparr>)"
      by (rule hand_over [OF inv, of _ c])
        (use s mem run_invD(4-6) [OF inv] in \<open>auto simp: in_use_def set_remove1_eq distinct_remove1\<close>)
    then show "runs (Some (p\<lparr>pr_net := s, pr_held := remove1 c (pr_held p)\<rparr>)) run_inv" by simp
  qed
qed

lemma io_run:
  assumes inv: "run_inv p" and en: "pool_enabled (Io c io) p"
  shows "runs (pool_exec (Io c io) p) run_inv"
proof -
  let ?s = "pr_net p"
  from en have "in_use p c" by simp
  with inv obtain cn where c: "nt_conns ?s c = Some cn" "cn_busy_flag cn" by (rule run_inv_in_use)
  from en c have ok: "io_allowed io cn" by simp
  let ?x = "cn\<lparr>cn_fd := io_fd io, cn_net_error := io_net_error io, cn_tls_session := io_tls_session io,
      cn_ev_registered := io_ev_registered io, cn_ev_mask := io_ev_mask io, cn_ev_type := io_ev_type io\<rparr>"
  let ?t = "?s\<lparr>nt_conns := (nt_conns ?s)(c \<mapsto> ?x)\<rparr>"
  have rdy: "ev_ready cn \<Longrightarrow> ev_ready ?x" using ok by (auto simp: io_allowed_def ev_ready_def)
  have "conn_ok (c \<notin> {}) (\<lambda>u. queue_of u ?s) ?x"
    using pool_invD(4) [OF run_invD(1) [OF inv] c(1)] c(2) ok by (auto simp: conn_ok_def io_allowed_def ev_ready_def)
  then have t: "pool_inv {} ?t" by (intro pool_inv_conn [OF run_invD(1) [OF inv] c(1) _ rdy]) auto
  have tb: "pool_inv {} (bktq_unlink c ?t)"
    by (rule pool_inv_frame [OF t]) (use pool_invD(5) [OF t] in \<open>auto simp: bktq_unlink_def set_remove1_eq\<close>)
  have k: "keeps {} ?s (if b then bktq_unlink c ?t else ?t)" for b
    by (rule keeps_conn [OF c(1), of _ ?x, OF _ _ rdy]) (simp_all add: bktq_unlink_def)
  have "unlocked (if b then bktq_unlink c ?t else ?t)" for b
    using run_invD(2) [OF inv] by (simp add: bktq_unlink_def)
  then have "run_inv (p\<lparr>pr_net := if io_unlink io then bktq_unlink c ?t else ?t\<rparr>)"
    by (intro keeps_net [OF inv _ k]) (use t tb in simp)
  then show ?thesis using c by (simp add: conn_io_def upd_conn_eq)
qed

lemma recycle_run:
  assumes inv: "run_inv p" and en: "pool_enabled (Recycle c val) p"
  shows "runs (pool_exec (Recycle c val) p) run_inv"
proof -
  let ?s = "pr_net p"
  from en have "in_use p c" by (simp add: in_use_def)
  with inv obtain cn where c: "nt_conns ?s c = Some cn" by (rule run_inv_in_use)
  have "run_inv (p\<lparr>pr_net := ?s\<lparr>nt_conns := (nt_conns ?s)(c \<mapsto> cn\<lparr>cn_recycle := b\<rparr>)\<rparr>\<rparr>)" for b
  proof (rule keeps_net [OF inv])
    have "pool_inv {} (?s\<lparr>nt_conns := (nt_conns ?s)(c \<mapsto> cn\<lparr>cn_recycle := b\<rparr>)\<rparr>)"
      by (rule pool_inv_conn [OF run_invD(1) [OF inv] c])
        (use pool_invD(4) [OF run_invD(1) [OF inv] c] in \<open>auto simp: conn_ok_def ev_ready_def\<close>)
    then show "good (?s\<lparr>nt_conns := (nt_conns ?s)(c \<mapsto> cn\<lparr>cn_recycle := b\<rparr>)\<rparr>)" using run_invD(2) [OF inv] by simp
    show "keeps {} ?s (?s\<lparr>nt_conns := (nt_conns ?s)(c \<mapsto> cn\<lparr>cn_recycle := b\<rparr>)\<rparr>)"
      by (rule keeps_conn [OF c, of _ "cn\<lparr>cn_recycle := b\<rparr>"]) (simp_all add: ev_ready_def)
  qed
  then show ?thesis using inv c by (simp add: flb_upstream_conn_recycle_def upd_conn_eq)
qed

lemma timeouts_run:
  assumes inv: "run_inv p" and en: "pool_enabled (Timeouts us e) p"
  shows "runs (pool_exec (Timeouts us e) p) run_inv"
proof -
  have "\<forall>u \<in> set us. queue_of u (pr_net p) \<noteq> None" using en by simp
  then show ?thesis unfolding pool_exec.simps runs_bind
    by (intro runs_mono [OF conn_timeouts_runs [OF conjI [OF run_invD(1,2) [OF inv]]]])
      (use keeps_net [OF inv] in auto)
qed

text \<open>Events.\<close>

lemma load_event_runs:
  assumes inv: "pool_inv {} s" and r: "ready s c"
  shows "runs (load_event c s) (\<lambda>s'. pool_inv {} s' \<and> (\<exists>b. s' = s\<lparr>nt_bktq := b\<rparr>))"
proof -
  from r obtain cn where c: "nt_conns s c = Some cn" and e: "ev_ready cn" by (auto simp: ready_def)
  let ?s = "s\<lparr>nt_bktq := nt_bktq s @ [c]\<rparr>"
  have own: "queue_of u ?s = queue_of u s" for u by (rule queue_of_cfg) simp
  have "pool_inv {} ?s" if "c \<notin> set (nt_bktq s)"
    using inv that c e linked_frame [of s ?s] unfolding pool_inv_def own by auto
  moreover have "\<exists>b. s = s\<lparr>nt_bktq := b\<rparr>" by (rule exI [of _ "nt_bktq s"]) simp
  ultimately show ?thesis using c inv by (auto simp: load_event_def)
qed

lemma load_injected_runs:
  assumes "pool_inv {} s" and "\<forall>c \<in> set cs. ready s c"
  shows "runs (load_injected_events cs s) (\<lambda>s'. pool_inv {} s' \<and> (\<exists>b. s' = s\<lparr>nt_bktq := b\<rparr>))"
  using assms
proof (induction cs arbitrary: s)
  case Nil
  then show ?case by (auto intro: exI [of _ "nt_bktq s"])
next
  case (Cons c cs)
  have "runs (load_event c s) (\<lambda>s1. runs (load_injected_events cs s1) (\<lambda>s'. pool_inv {} s' \<and> (\<exists>b. s' = s\<lparr>nt_bktq := b\<rparr>)))"
  proof (rule runs_mono [OF load_event_runs [OF Cons.prems(1)]])
    fix s1 assume s1: "pool_inv {} s1 \<and> (\<exists>b. s1 = s\<lparr>nt_bktq := b\<rparr>)"
    then show "runs (load_injected_events cs s1) (\<lambda>s'. pool_inv {} s' \<and> (\<exists>b. s' = s\<lparr>nt_bktq := b\<rparr>))"
      by (intro runs_mono [OF Cons.IH]) (use Cons.prems(2) in \<open>auto simp: ready_def\<close>)
  qed (use Cons.prems(2) in simp)
  then show ?case by simp
qed

lemma load_bucket_queue_runs:
  assumes "pool_inv {} s" and "\<forall>c \<in> set cs. ready s c"
  shows "runs (load_bucket_queue cs s) (\<lambda>s'. pool_inv {} s' \<and> (\<exists>b. s' = s\<lparr>nt_bktq := b\<rparr>))"
  using assms
proof (induction cs arbitrary: s)
  case Nil
  then show ?case by (auto intro: exI [of _ "nt_bktq s"])
next
  case (Cons c cs)
  then obtain cn where c: "nt_conns s c = Some cn" by (auto simp: ready_def)
  have "runs (if cn_ev_registered cn then load_event c s else Some s)
      (\<lambda>s'. pool_inv {} s' \<and> (\<exists>b. s' = s\<lparr>nt_bktq := b\<rparr>))"
    using load_event_runs [OF Cons.prems(1)] Cons.prems by (auto intro: exI [of _ "nt_bktq s"])
  then have "runs (if cn_ev_registered cn then load_event c s else Some s)
      (\<lambda>s1. runs (load_bucket_queue cs s1) (\<lambda>s'. pool_inv {} s' \<and> (\<exists>b. s' = s\<lparr>nt_bktq := b\<rparr>)))"
  proof (rule runs_mono)
    fix s1 assume s1: "pool_inv {} s1 \<and> (\<exists>b. s1 = s\<lparr>nt_bktq := b\<rparr>)"
    then show "runs (load_bucket_queue cs s1) (\<lambda>s'. pool_inv {} s' \<and> (\<exists>b. s' = s\<lparr>nt_bktq := b\<rparr>))"
      by (intro runs_mono [OF Cons.IH]) (use Cons.prems(2) in \<open>auto simp: ready_def\<close>)
  qed
  then show ?case using c by simp
qed

lemma run_inv_events:
  assumes inv: "run_inv p" and s: "pool_inv {} s" "s = (pr_net p)\<lparr>nt_events := cs, nt_bktq := b\<rparr>"
    and r: "\<forall>c \<in> set cs. ready (pr_net p) c" and n: "pr_net p' = s" "pr_held p' = pr_held p" "pr_connecting p' = pr_connecting p"
  shows "run_inv p'"
proof -
  have "within_limits s"
    by (rule within_limits_cong [OF run_invD(9) [OF inv] _ run_invD(1) [OF inv]]) (simp_all add: s(2) roster_def)
  moreover have "unlocked s" using run_invD(2) [OF inv] by (simp add: s(2))
  moreover have "busy s c = in_use p' c" for c using run_invD(3) [OF inv, of c] n by (simp add: s(2) busy_def in_use_def)
  moreover have "roster s c = roster (pr_net p) c" "ready s c = ready (pr_net p) c" for c by (simp_all add: s(2) roster_def ready_def)
  ultimately show ?thesis using inv s r n by (auto simp: run_inv_def)
qed

lemma registered_ready: "pool_inv X s \<Longrightarrow> registered s c \<Longrightarrow> ready s c"
  using pool_invD(4) [of X s c] by (auto simp: registered_def ready_def conn_ok_def split: option.splits)

lemma wait_runs:
  assumes inv: "pool_inv {} s" and r: "\<forall>c \<in> set cs. ready s c"
  shows "runs (wait_and_load cs s) (\<lambda>s'. pool_inv {} s' \<and> (\<exists>b. s' = s\<lparr>nt_events := cs, nt_bktq := b\<rparr>))"
proof -
  have "pool_inv {} (s\<lparr>nt_events := cs\<rparr>)"
    by (rule pool_inv_frame [OF inv]) (use pool_invD(5) [OF inv] in auto)
  moreover have "\<forall>c \<in> set cs. ready (s\<lparr>nt_events := cs\<rparr>) c" using r by (simp add: ready_def)
  ultimately show ?thesis unfolding wait_and_load_def by (rule load_bucket_queue_runs)
qed

lemma wait_run:
  assumes inv: "run_inv p" and en: "pool_enabled (Wait cs) p"
  shows "runs (pool_exec (Wait cs) p) run_inv"
proof -
  have r: "\<forall>c \<in> set cs. ready (pr_net p) c" using en registered_ready [OF run_invD(1) [OF inv]] by simp
  show ?thesis unfolding pool_exec.simps runs_bind
    by (rule runs_mono [OF wait_runs [OF run_invD(1) [OF inv] r]]) (auto intro: run_inv_events [OF inv _ _ r])
qed

lemma turn_run:
  assumes inv: "run_inv p" and en: "pool_enabled (Turn cs) p"
  shows "runs (pool_exec (Turn cs) p) run_inv"
proof -
  let ?s = "pr_net p" and ?inj = "drop (pr_n_events p) (nt_events (pr_net p))"
  have r: "\<forall>c \<in> set cs. ready ?s c" using en registered_ready [OF run_invD(1) [OF inv]] by simp
  have "\<forall>c \<in> set ?inj. ready ?s c" using en run_invD(8) [OF inv] by (auto dest: in_set_dropD)
  then show ?thesis unfolding pool_exec.simps runs_bind
  proof (rule runs_mono [OF load_injected_runs [OF run_invD(1) [OF inv]]])
    fix s1 assume s1: "pool_inv {} s1 \<and> (\<exists>b. s1 = ?s\<lparr>nt_bktq := b\<rparr>)"
    then have "\<forall>c \<in> set cs. ready s1 c" using r by (auto simp: ready_def)
    then show "runs (wait_and_load cs s1) (\<lambda>s. runs (Some (p\<lparr>pr_net := s, pr_n_events := length cs\<rparr>)) run_inv)"
      by (rule runs_mono [OF wait_runs [OF conjunct1 [OF s1]]])
        (use s1 in \<open>auto intro: run_inv_events [OF inv _ _ r]\<close>)
  qed
qed

lemma dispatch_run:
  assumes inv: "run_inv p" and en: "pool_enabled (Dispatch c) p"
  shows "runs (pool_exec (Dispatch c) p) run_inv"
proof -
  let ?s = "pr_net p" and ?t = "bktq_unlink c (pr_net p)"
  from en have "c \<in> set (nt_bktq ?s)" by simp
  then obtain cn where c: "nt_conns ?s c = Some cn" and e: "ev_ready cn"
    using pool_invD(6) [OF run_invD(1) [OF inv]] by blast
  have t: "good ?t"
    using pool_inv_frame [OF run_invD(1) [OF inv], of ?t] run_invD(2) [OF inv] pool_invD(5) [OF run_invD(1) [OF inv]]
    by (auto simp: bktq_unlink_def set_remove1_eq distinct_remove1)
  have k: "keeps {} ?s ?t" by (simp add: keeps_def bktq_unlink_def ready_def busy_def roster_def fun_eq_iff)
  have ct: "nt_conns ?t c = Some cn" using c by (simp add: bktq_unlink_def)
  have "runs (prepare_destroy_conn_safe c ?t) (\<lambda>s. run_inv (p\<lparr>pr_net := s\<rparr>))"
    by (rule runs_mono [OF prepare_destroy_conn_safe_runs [of "{}" ?t c cn]])
      (use t ct keeps_net [OF inv] keeps_trans [OF k, of "{}" _ "{}"] in auto)
  then show ?thesis using c e keeps_net [OF inv t k]
    by (auto simp: dispatch_event_def ev_ready_def cb_upstream_conn_ka_dropped_def Let_def split: event_type.split)
qed

lemma pending_sheds:
  assumes inv: "run_inv p" and en: "pool_enabled (PendingDestroy us) p"
  shows "runs (flb_upstream_conn_pending_destroy_list us (pr_net p)) (\<lambda>s. good s \<and>
           sheds (doomed {v. \<exists>u \<in> set us. flb_upstream_queue_get u (pr_net p) = Some (Some v)} (pr_net p)) (pr_net p) s)"
proof -
  let ?s = "pr_net p"
  define own where "own u = the (the (flb_upstream_queue_get u ?s))" for u
  have o: "\<forall>u \<in> set us. flb_upstream_queue_get u ?s = Some (Some (own u))"
  proof
    fix u assume "u \<in> set us"
    then have "case flb_upstream_queue_get u ?s of Some (Some v) \<Rightarrow> True | _ \<Rightarrow> False" using en by simp
    then show "flb_upstream_queue_get u ?s = Some (Some (own u))" unfolding own_def by (auto split: option.split_asm)
  qed
  then have "own ` set us = {v. \<exists>u \<in> set us. flb_upstream_queue_get u ?s = Some (Some v)}" by force
  then show ?thesis using pending_destroy_list_runs [OF conjI [OF run_invD(1,2) [OF inv]] o] by simp
qed

lemma pending_exec:
  assumes inv: "run_inv p" and en: "pool_enabled (PendingDestroy us) p"
  shows "\<exists>p'. pool_exec (PendingDestroy us) p = Some p' \<and> run_inv p'
    \<and> (\<forall>c. nt_conns (pr_net p') c =
         (if \<not> in_use p c \<and> c \<notin> set (nt_bktq (pr_net p))
             \<and> (\<exists>u \<in> set us. \<exists>v. flb_upstream_queue_get u (pr_net p) = Some (Some v) \<and> c \<in> set (nt_list (pr_net p) (DestroyQueue v)))
          then None else nt_conns (pr_net p) c))"
proof -
  let ?s = "pr_net p"
  let ?D = "doomed {v. \<exists>u \<in> set us. flb_upstream_queue_get u ?s = Some (Some v)} ?s"
  from pending_sheds [OF inv en] obtain s where s: "flb_upstream_conn_pending_destroy_list us ?s = Some s" "good s"
    and sh: "sheds ?D ?s s" by (auto simp: runs_iff)
  have kept: "nt_conns s c = nt_conns ?s c" if "busy ?s c" for c
    using that by (auto simp: shedsD(1) [OF sh] doomed_def freeable_def)
  have "busy s c = busy ?s c" for c
    using kept [of c] by (auto simp: busy_def shedsD(1) [OF sh] split: if_splits)
  moreover have "within_limits s"
    by (rule within_limits_cong [OF run_invD(9) [OF inv] shedsD(2) [OF sh] run_invD(1) [OF inv]])
      (auto simp: roster_def shedsD(1) [OF sh] split: if_splits)
  moreover have "roster s (fst x) = Some (snd x)" if "x \<in> set (pr_connecting p)" for x
  proof -
    have "in_use p (fst x)" using that by (auto simp: in_use_def)
    then have "busy ?s (fst x)" using run_invD(3) [OF inv] by simp
    then show ?thesis using run_invD(7) [OF inv, of "fst x" "snd x"] that kept by (simp add: roster_def)
  qed
  ultimately have "run_inv (p\<lparr>pr_net := s\<rparr>)" using s en inv by (auto simp: run_inv_def in_use_def)
  moreover have "c \<in> ?D \<longleftrightarrow> \<not> in_use p c \<and> c \<notin> set (nt_bktq ?s)
      \<and> (\<exists>u \<in> set us. \<exists>v. flb_upstream_queue_get u ?s = Some (Some v) \<and> c \<in> set (nt_list ?s (DestroyQueue v)))" for c
    unfolding doomed_def freeable_def run_invD(3) [OF inv] pool_invD(1) [OF run_invD(1) [OF inv]] by blast
  ultimately show ?thesis using s(1) by (simp add: shedsD(1) [OF sh])
qed

lemma pending_run:
  "run_inv p \<Longrightarrow> pool_enabled (PendingDestroy us) p \<Longrightarrow> runs (pool_exec (PendingDestroy us) p) run_inv"
  using pending_exec [of p us] unfolding runs_iff by blast

lemma pool_init_inv:
  assumes "pool_init p"
  shows "run_inv p"
proof -
  have "pool_inv {} (pr_net p)" using assms by (simp add: pool_init_def pool_inv_def linked_ok_def)
  moreover have "within_limits (pr_net p)" using assms by (auto simp: within_limits_def roster_def pool_init_def)
  ultimately show ?thesis using assms by (simp add: run_inv_def pool_init_def busy_def in_use_def)
qed

interpretation pool: machine pool_init pool_enabled pool_exec run_inv
proof
  show "run_inv p" if "pool_init p" for p using that by (rule pool_init_inv)
  show "runs (pool_exec a p) run_inv" if "run_inv p" "pool_enabled a p" for p a
  proof (cases a)
    case Leave
    have "run_inv (p\<lparr>pr_in_loop := False\<rparr>)" using that(1) by (simp add: run_inv_def in_use_def)
    then show ?thesis using Leave by simp
  qed (use that get_run connected_run io_run recycle_run release_run timeouts_run wait_run turn_run dispatch_run
        pending_run in \<open>simp_all only:\<close>)
qed

section \<open>A sample thread\<close>

text \<open>One upstream with keepalive, a limit of one connection and a timeout of ten seconds.\<close>

definition sample_net :: flb_net_setup where
  "sample_net = \<lparr>ns_keepalive = True, ns_keepalive_idle_timeout = 30, ns_keepalive_max_recycle = 2000, ns_io_timeout = 10,
     ns_connect_timeout = 10, ns_accept_timeout = 10, ns_max_worker_connections = 1\<rparr>"

definition sample_upstream :: flb_upstream where
  "sample_upstream = \<lparr>up_base = \<lparr>st_thread_safety_flag = False, st_transport = TRANSPORT_TCP, st_flags = 24,
       st_list_mutex = False, st_net = sample_net\<rparr>,
     up_parent_upstream = None, up_cmt_total_connections = Some 0, up_cmt_busy_connections = Some 0\<rparr>"

definition sample_state :: net_state where
  "sample_state = \<lparr>nt_conns = (\<lambda>_. None), nt_next = 0, nt_list = (\<lambda>_. []),
     nt_upstreams = (\<lambda>_. None)(0 := Some sample_upstream), nt_upstream_list = None, nt_downstreams = (\<lambda>_. None),
     nt_events = [], nt_bktq = [], nt_closed = []\<rparr>"

definition sample_start :: pool_run where
  "sample_start = \<lparr>pr_net = sample_state, pr_connecting = [], pr_held = [], pr_in_loop = False, pr_n_events = 0\<rparr>"

definition sample_env :: "int \<Rightarrow> net_env" where
  "sample_env now = \<lparr>ne_time = now, ne_socket_error = (\<lambda>_. 0), ne_alloc = True, ne_epoll_add = True, ne_room = True\<rparr>"

definition sample_io :: conn_io where
  "sample_io = \<lparr>io_fd = 7, io_net_error = -1, io_tls_session = NoTls, io_ev_registered = True, io_ev_mask = 4,
     io_ev_type = EV_THREAD, io_unlink = True\<rparr>"

text \<open>Connecting, sending, a timeout while the coroutine waits for the socket.\<close>

definition sample_ops :: "pool_op list" where
  "sample_ops = [Wait [], Get 0 (sample_env 100), Io 0 sample_io, Connected 0 0 (sample_env 101) 0,
     Timeouts [0] (sample_env 200)]"

definition sample_run :: pool_run where
  "sample_run = the (steps pool_enabled pool_exec sample_ops sample_start)"

lemma sample_start_init: "pool_init sample_start"
  by (simp add: pool_init_def sample_start_def sample_state_def unlocked_def locked_def sample_upstream_def)

lemma sample_runs: "steps pool_enabled pool_exec sample_ops sample_start \<noteq> None"
  by code_simp

lemma sample_steps:
  assumes "steps pool_enabled pool_exec as sample_start \<noteq> None"
  shows "pool_reachable (the (steps pool_enabled pool_exec as sample_start))"
proof -
  from assms obtain p where p: "steps pool_enabled pool_exec as sample_start = Some p" by blast
  show ?thesis using reach_steps [OF reach_init [where init = pool_init, OF sample_start_init] p] p by simp
qed

lemma sample_run_reachable: "pool_reachable sample_run"
  unfolding sample_run_def by (rule sample_steps [OF sample_runs])

section \<open>Properties of the pool\<close>

text \<open>
  C15: In every state that a thread reaches, with coroutines, timeouts, events and the freeing of connections interleaved in any
  way and whatever sockets, epoll and the allocator answer, every operation on the pool returns: no connection is used or freed
  after it was freed, none is unlinked twice, no queue is NULL, and no thread waits for a mutex it holds.
\<close>

theorem upstream_never_undefined:
  assumes "pool_reachable p" and "pool_enabled a p"
  shows "\<exists>p'. pool_exec a p = Some p' \<and> pool_reachable p'"
  using assms by (rule pool.reach_runs)

lemma upstream_never_undefined_witness:
  "pool_reachable sample_run \<and> pool_enabled (Release 0 (sample_env 201)) sample_run
   \<and> (\<exists>p'. pool_exec (Release 0 (sample_env 201)) sample_run = Some p' \<and> pool_reachable p')"
proof -
  have en: "pool_enabled (Release 0 (sample_env 201)) sample_run" by code_simp
  show ?thesis using upstream_never_undefined [OF sample_run_reachable en] sample_run_reachable en by blast
qed

text \<open>
  C16: A connection that a coroutine connects or uses stays allocated and marked busy, in the busy queue or, after a timeout or when the
  peer closed it, among those to be freed; freeing what is pending leaves it as it is.
\<close>

theorem upstream_in_use_kept:
  assumes "pool_reachable p" and "in_use p c"
  shows "\<exists>cn v. nt_conns (pr_net p) c = Some cn \<and> cn_busy_flag cn \<and> queue_of (cn_stream cn) (pr_net p) = Some v
           \<and> (cn_link cn = Some (BusyQueue v) \<or> cn_link cn = Some (DestroyQueue v))
           \<and> (\<forall>us p'. pool_enabled (PendingDestroy us) p \<and> pool_exec (PendingDestroy us) p = Some p'
                 \<longrightarrow> nt_conns (pr_net p') c = Some cn)"
proof -
  from assms(1) have inv: "run_inv p" by (rule pool.reach_inv)
  then obtain cn where c: "nt_conns (pr_net p) c = Some cn" "cn_busy_flag cn" using assms(2) by (rule run_inv_in_use)
  have "nt_conns (pr_net p') c = Some cn"
    if "pool_enabled (PendingDestroy us) p" and "pool_exec (PendingDestroy us) p = Some p'" for us p'
    using pending_exec [OF inv that(1)] that(2) c by (auto simp: assms(2))
  moreover from pool_invD(4) [OF run_invD(1) [OF inv] c(1)] c(2) obtain v where "queue_of (cn_stream cn) (pr_net p) = Some v"
    "cn_link cn = Some (BusyQueue v) \<or> cn_link cn = Some (DestroyQueue v)" by (auto simp: conn_ok_def)
  ultimately show ?thesis using c by blast
qed

lemma upstream_in_use_kept_witness:
  "\<exists>cn v. nt_conns (pr_net sample_run) 0 = Some cn \<and> cn_busy_flag cn \<and> queue_of (cn_stream cn) (pr_net sample_run) = Some v
     \<and> (cn_link cn = Some (BusyQueue v) \<or> cn_link cn = Some (DestroyQueue v))"
proof -
  have "in_use sample_run 0" by code_simp
  from upstream_in_use_kept [OF sample_run_reachable this] show ?thesis by blast
qed

text \<open>
  C17: Every connection is linked in exactly one queue of the upstream it belongs to. It is available and not in use, or busy and
  in use, or to be freed, and then its socket is closed unless it is still in use: no connection is lost and none keeps a socket
  open that nobody can reach.
\<close>

theorem upstream_queue_partition:
  assumes "pool_reachable p" and "nt_conns (pr_net p) c = Some cn"
  shows "\<exists>q v. (\<forall>q'. c \<in> set (nt_list (pr_net p) q') \<longleftrightarrow> q' = q) \<and> distinct (nt_list (pr_net p) q)
           \<and> queue_of (cn_stream cn) (pr_net p) = Some v
           \<and> (q = AvQueue v \<and> \<not> in_use p c \<or> q = BusyQueue v \<and> in_use p c
              \<or> q = DestroyQueue v \<and> (in_use p c \<or> cn_fd cn \<le> 0))"
proof -
  from assms(1) have inv: "run_inv p" by (rule pool.reach_inv)
  have b: "cn_busy_flag cn = in_use p c" using run_invD(3) [OF inv, of c] assms(2) by (simp add: busy_def)
  from pool_invD(4) [OF run_invD(1) [OF inv] assms(2)] obtain q v where q: "cn_link cn = Some q"
    and v: "queue_of (cn_stream cn) (pr_net p) = Some v"
    and k: "q = AvQueue v \<and> \<not> in_use p c \<or> q = BusyQueue v \<and> in_use p c \<or> q = DestroyQueue v \<and> (in_use p c \<or> cn_fd cn \<le> 0)"
    by (auto simp: conn_ok_def b)
  have "c \<in> set (nt_list (pr_net p) q') \<longleftrightarrow> q' = q" for q'
    using pool_invD(1) [OF run_invD(1) [OF inv], of c q'] assms(2) q by auto
  then show ?thesis using v k pool_invD(2) [OF run_invD(1) [OF inv], of q] by blast
qed

lemma upstream_queue_partition_witness:
  "\<exists>q v. (\<forall>q'. 0 \<in> set (nt_list (pr_net sample_run) q') \<longleftrightarrow> q' = q)
     \<and> (q = AvQueue v \<or> q = BusyQueue v \<or> q = DestroyQueue v)"
proof -
  have "nt_conns (pr_net sample_run) 0 \<noteq> None" by code_simp
  then obtain cn where "nt_conns (pr_net sample_run) 0 = Some cn" by blast
  from upstream_queue_partition [OF sample_run_reachable this] show ?thesis by blast
qed

text \<open>
  C18: With a limit on the connections of a thread, the three queues of an upstream never hold more than the limit together,
  connections that still connect included.
\<close>

theorem upstream_connection_limit:
  assumes "pool_reachable p" and "queue_of u (pr_net p) = Some v" and "nt_upstreams (pr_net p) u = Some up"
    and "ns_max_worker_connections (st_net (up_base up)) > 0"
  shows "queue_total v (pr_net p) \<le> ns_max_worker_connections (st_net (up_base up))"
proof -
  from assms(1) have inv: "run_inv p" by (rule pool.reach_inv)
  then show ?thesis using queue_total_card [OF run_invD(1) [OF inv] assms(2)] run_invD(9) [OF inv] assms(2-)
    by (auto simp: within_limits_def)
qed

lemma upstream_connection_limit_witness: "queue_total 0 (pr_net sample_run) \<le> 1 \<and> queue_total 0 (pr_net sample_run) = 1"
proof -
  have q: "queue_of 0 (pr_net sample_run) = Some 0" by code_simp
  then obtain up where up: "nt_upstreams (pr_net sample_run) 0 = Some up" by (rule queue_ofD)
  have "(case nt_upstreams (pr_net sample_run) 0 of Some up \<Rightarrow> ns_max_worker_connections (st_net (up_base up)) = 1 | None \<Rightarrow> False)"
    by code_simp
  then have "ns_max_worker_connections (st_net (up_base up)) = 1" using up by simp
  moreover have "queue_total 0 (pr_net sample_run) = 1" by code_simp
  ultimately show ?thesis using upstream_connection_limit [OF sample_run_reachable q up] by simp
qed

text \<open>
  Taking a connection gives the oldest available one whose socket has no error; when there is none, or without keepalive,
  a new one is created and connected, unless the limit is reached or memory is exhausted, and then the caller gets NULL.
\<close>

theorem conn_get_outcome:
  assumes "pool_reachable p" and "queue_of u (pr_net p) = Some v" and "nt_upstreams (pr_net p) u = Some up"
  shows "\<exists>s'. flb_upstream_conn_get u e (pr_net p) =
    Some (case (if ns_keepalive (st_net (up_base up))
                then List.find (healthy e (pr_net p)) (nt_list (pr_net p) (AvQueue v)) else None) of
            Some c \<Rightarrow> GetConn c
          | None \<Rightarrow>
              if ns_max_worker_connections (st_net (up_base up)) > 0
                 \<and> queue_total v (pr_net p) \<ge> ns_max_worker_connections (st_net (up_base up)) then GetNull
              else if ne_alloc e then GetConnecting (nt_next (pr_net p)) else GetNull, s')"
proof -
  from assms(1) have inv: "run_inv p" by (rule pool.reach_inv)
  show ?thesis
    using conn_get_runs [OF conjI [OF run_invD(1,2) [OF inv]] assms(2,3), of e] unfolding get_outcome_def runs_iff by auto
qed

lemma conn_get_outcome_witness: "\<exists>s'. flb_upstream_conn_get 0 (sample_env 202) (pr_net sample_run) = Some (GetNull, s')"
proof -
  have q: "queue_of 0 (pr_net sample_run) = Some 0" by code_simp
  then obtain up where up: "nt_upstreams (pr_net sample_run) 0 = Some up" by (rule queue_ofD)
  have "(case nt_upstreams (pr_net sample_run) 0 of Some up \<Rightarrow> ns_max_worker_connections (st_net (up_base up)) = 1 | None \<Rightarrow> False)"
    by code_simp
  then have "ns_max_worker_connections (st_net (up_base up)) = 1" using up by simp
  moreover have "queue_total 0 (pr_net sample_run) = 1" by code_simp
  moreover have "nt_list (pr_net sample_run) (AvQueue 0) = []" by code_simp
  ultimately show ?thesis using conn_get_outcome [OF sample_run_reachable q up, of "sample_env 202"]
    by (simp cong: if_cong)
qed

text \<open>
  Freeing what is pending frees exactly the connections in the queues of the given upstreams that no coroutine uses and whose
  event is not queued, and leaves every other connection as it is.
\<close>

theorem pending_destroy_exact:
  assumes "pool_reachable p" and "pool_enabled (PendingDestroy us) p" and "pool_exec (PendingDestroy us) p = Some p'"
  shows "nt_conns (pr_net p') c =
    (if \<not> in_use p c \<and> c \<notin> set (nt_bktq (pr_net p))
        \<and> (\<exists>u \<in> set us. \<exists>v. flb_upstream_queue_get u (pr_net p) = Some (Some v) \<and> c \<in> set (nt_list (pr_net p) (DestroyQueue v)))
     then None else nt_conns (pr_net p) c)"
proof -
  from assms(1) have inv: "run_inv p" by (rule pool.reach_inv)
  show ?thesis using pending_exec [OF inv assms(2)] assms(3) by simp
qed

text \<open>The connection of the sample thread was dropped after a failed connect: it is freed.\<close>

definition sample_drop :: pool_run where
  "sample_drop = the (steps pool_enabled pool_exec
     [Wait [], Get 0 (sample_env 100), Connected 0 0 (sample_env 101) (-1), Leave] sample_start)"

lemma sample_drop_reachable: "pool_reachable sample_drop"
  unfolding sample_drop_def by (rule sample_steps) code_simp

lemma pending_destroy_exact_witness:
  "\<exists>p'. pool_exec (PendingDestroy [0]) sample_drop = Some p' \<and> nt_conns (pr_net sample_drop) 0 \<noteq> None
      \<and> nt_conns (pr_net p') 0 = None"
proof -
  have en: "pool_enabled (PendingDestroy [0]) sample_drop" by code_simp
  obtain p' where p': "pool_exec (PendingDestroy [0]) sample_drop = Some p'"
    using pool.reach_runs [OF sample_drop_reachable en] by blast
  have "\<not> in_use sample_drop 0" "0 \<notin> set (nt_bktq (pr_net sample_drop))"
    "flb_upstream_queue_get 0 (pr_net sample_drop) = Some (Some 0)" "0 \<in> set (nt_list (pr_net sample_drop) (DestroyQueue 0))"
    "nt_conns (pr_net sample_drop) 0 \<noteq> None" by code_simp+
  then show ?thesis using pending_destroy_exact [OF sample_drop_reachable en p', of 0] p' by simp
qed

section \<open>Workers\<close>

text \<open>
  In a worker every upstream of the output has a queue of its own once the mappings exist, so the steps of the pool are
  enabled for it.
\<close>

lemma thread_create_shape:
  assumes "upstream_thread_create us ths s = (0, ths', s')" and "distinct (map (the \<circ> snd) us)"
    and "\<forall>w \<in> set (map (the \<circ> snd) us). nt_upstreams s w = None"
  shows "ths' = ths @ map (the \<circ> snd) us
    \<and> (\<forall>x. nt_upstreams s' x = (case List.find (\<lambda>(u, w). w = Some x) us of None \<Rightarrow> nt_upstreams s x | Some (u, w) \<Rightarrow> Some (zero_upstream u)))
    \<and> nt_upstream_list s' = nt_upstream_list s"
  using assms
proof (induction us ths s rule: upstream_thread_create.induct)
  case (3 u w us ths s)
  let ?s = "s\<lparr>nt_upstreams := (nt_upstreams s)(w \<mapsto> zero_upstream u)\<rparr>"
  have "w \<notin> set (map (the \<circ> snd) us)" using "3.prems"(2) by simp
  then have "List.find (\<lambda>(u, w'). w' = Some w) us = None" by (force simp: find_None_iff)
  moreover have "\<forall>x \<in> set (map (the \<circ> snd) us). nt_upstreams ?s x = None"
    using "3.prems"(3) \<open>w \<notin> _\<close> by auto
  ultimately show ?case using "3.IH" "3.prems"(1,2) by (auto split: option.split)
qed auto

lemma queue_search_mapping:
  assumes "distinct (map fst us)" and "(u, Some w) \<in> set us" and "\<forall>p \<in> set us. snd p \<noteq> None"
    and "\<And>x y. (x, Some y) \<in> set us \<Longrightarrow> nt_upstreams s y = Some (zero_upstream x)"
  shows "queue_search s u (map (the \<circ> snd) us) = Some (Some w)"
  using assms
proof (induction us)
  case (Cons p us)
  obtain x y where p: "p = (x, Some y)" using Cons.prems(3) by (cases p) auto
  have "nt_upstreams s y = Some (zero_upstream x)" using Cons.prems(4) [of x y] p by simp
  then show ?case using Cons p by (force simp: zero_upstream_def)
qed simp

lemma find_mapping:
  assumes "distinct (map (the \<circ> snd) us)" and "(x, Some y) \<in> set us" and "\<forall>p \<in> set us. snd p \<noteq> None"
  shows "List.find (\<lambda>(u, w). w = Some y) us = Some (x, Some y)"
  using assms
proof (induction us)
  case (Cons p us)
  obtain a b where p: "p = (a, Some b)" using Cons.prems(3) by (cases p) auto
  show ?case using Cons p by (cases "b = y") (force simp: image_iff)+
qed simp

theorem worker_queues:
  assumes create: "upstream_thread_create us [] s = (0, ths, s')" and "(u, Some w) \<in> set us"
    and ids: "distinct (map fst us)" "distinct (map (the \<circ> snd) us)" "\<forall>p \<in> set us. snd p \<noteq> None"
      "\<forall>x \<in> set (map (the \<circ> snd) us). nt_upstreams s x = None"
    and up: "nt_upstreams s u = Some up" "up_parent_upstream up = None" "st_thread_safety_flag (up_base up)"
  shows "queue_of u (flb_upstream_list_set ths s') = Some w"
proof -
  note shape = thread_create_shape [OF create ids(2,4)]
  let ?s = "flb_upstream_list_set ths s'"
  have maps: "nt_upstreams ?s y = Some (zero_upstream x)" if "(x, Some y) \<in> set us" for x y
    using shape find_mapping [OF ids(2) that ids(3)] by (simp add: flb_upstream_list_set_def)
  have "u \<notin> set (map (the \<circ> snd) us)" using ids(4) up(1) by force
  then have "List.find (\<lambda>(a, b). b = Some u) us = None" by (force simp: find_None_iff)
  then have u: "nt_upstreams ?s u = Some up" using shape up(1) by (simp add: flb_upstream_list_set_def)
  have s: "queue_search ?s u ths = Some (Some w)"
    using queue_search_mapping [OF ids(1) assms(2) ids(3) maps] shape by simp
  moreover have "ths \<noteq> []" using shape assms(2) by auto
  ultimately show ?thesis using u up
    by (cases ths) (simp_all add: queue_of_def flb_upstream_queue_get_def flb_upstream_list_set_def)
qed

section \<open>Gauges and sockets that go wrong\<close>

text \<open>
  Every check of timeouts counts a connection that timed out, and its release counts it again: with two checks before the
  coroutine wakes up the gauge of busy connections is at minus two. A connection whose event is not registered is moved to the
  destroy queue by the check and again by its release, and the gauge of all connections is at minus one.
\<close>

definition gauges_after :: "pool_op list \<Rightarrow> (int option \<times> int option) option" where
  "gauges_after as =
     Option.bind (steps pool_enabled pool_exec as sample_start)
       (\<lambda>p. map_option (\<lambda>up. (up_cmt_total_connections up, up_cmt_busy_connections up)) (nt_upstreams (pr_net p) 0))"

lemma busy_gauge_drifts:
  "gauges_after (sample_ops @ [Timeouts [0] (sample_env 201), Release 0 (sample_env 202)]) = Some (Some 0, Some (-2))"
  by code_simp

lemma total_gauge_drifts:
  "gauges_after [Wait [], Get 0 (sample_env 100), Connected 0 0 (sample_env 101) 0, Timeouts [0] (sample_env 200),
     Release 0 (sample_env 202)] = Some (Some (-1), Some (-1))"
  by code_simp

text \<open>With a parent the increment counts twice and the decrement once.\<close>

lemma total_gauge_counts_twice:
  "Option.bind (flb_upstream_increment_total_connections_count 1
       (sample_state\<lparr>nt_upstreams := (nt_upstreams sample_state)(1 \<mapsto> zero_upstream 0)\<rparr>))
     (\<lambda>s. map_option up_cmt_total_connections (nt_upstreams s 0)) = Some (Some 2)"
  by code_simp

text \<open>\<open>flb_upstream_conn_active_destroy\<close> frees an available connection whose socket is open.\<close>

lemma active_destroy_leaks_socket:
  "Option.bind (steps pool_enabled pool_exec [Wait [], Get 0 (sample_env 100), Connected 0 0 (sample_env 101) 0,
       Io 0 sample_io, Release 0 (sample_env 102)] sample_start)
     (\<lambda>p. Option.bind (flb_upstream_conn_active_destroy 0 (pr_net p))
       (\<lambda>s. Some (map_option cn_fd (nt_conns (pr_net p) 0), nt_conns s 0 = None, nt_closed s)))
   = Some (Some 7, True, [])"
  by code_simp

end
