(* ===== verification/Downstream.thy ===== *)
theory Downstream
  imports Upstream_Run
begin

text \<open>
  The connections of a server (\<^verbatim>\<open>src/src/flb_downstream.c\<close> and \<open>flb_io_net_accept\<close> of \<^verbatim>\<open>src/src/flb_io.c\<close>): accepted for an input plugin, dropped after a timeout, released by the plugin and
  freed after the round of events. \<open>flb_downstream_conn_get\<close> suspends in \<open>flb_io_net_accept\<close> (the TLS handshake), so it is
  two functions. Unlike an upstream, a downstream does not mark a connection busy while the plugin has it.
\<close>

section \<open>Streams\<close>

definition upd_downstream :: "stream_id \<Rightarrow> (flb_downstream \<Rightarrow> flb_downstream) \<Rightarrow> net_state \<Rightarrow> net_state option" where
  "upd_downstream d f s = do {
     ds \<leftarrow> nt_downstreams s d;
     Some (s\<lparr>nt_downstreams := (nt_downstreams s)(d \<mapsto> f ds)\<rparr>)}"

definition ds_set_mutex :: "bool \<Rightarrow> flb_downstream \<Rightarrow> flb_downstream" where
  "ds_set_mutex b ds = ds\<lparr>ds_base := (ds_base ds)\<lparr>st_list_mutex := b\<rparr>\<rparr>"

definition ds_acquire_lock :: "stream_id \<Rightarrow> net_state \<Rightarrow> net_state option" where
  "ds_acquire_lock d s = do {
     ds \<leftarrow> nt_downstreams s d;
     (if \<not> st_thread_safety_flag (ds_base ds) then Some s
      else if st_list_mutex (ds_base ds) then None
      else upd_downstream d (ds_set_mutex True) s)}"

definition ds_release_lock :: "stream_id \<Rightarrow> net_state \<Rightarrow> net_state option" where
  "ds_release_lock d s = do {
     ds \<leftarrow> nt_downstreams s d;
     (if \<not> st_thread_safety_flag (ds_base ds) then Some s
      else upd_downstream d (ds_set_mutex False) s)}"

text \<open>
  \<open>flb_downstream_setup\<close>: \<open>host_ok\<close> is the copy of the host name, \<open>server_fd\<close> the listening socket the network layer returns for the
  transport. A transport that is not set listens on nothing.
\<close>

definition flb_downstream_setup ::
  "transport \<Rightarrow> u32 \<Rightarrow> flb_net_setup \<Rightarrow> bool \<Rightarrow> int \<Rightarrow> int \<times> flb_downstream" where
  "flb_downstream_setup transport flags net host_ok server_fd =
     (let ds = \<lparr>ds_base = \<lparr>st_thread_safety_flag = False, st_transport = transport, st_flags = flags,
                  st_list_mutex = False, st_net = net\<rparr>,
                ds_server_fd = -1, ds_paused = False, ds_dgram_connection = None\<rparr> in
      if \<not> host_ok then (-1, ds)
      else let ds = (if transport = TRANSPORT_UNSET then ds else ds\<lparr>ds_server_fd := server_fd\<rparr>) in
           if ds_server_fd ds \<noteq> -1 then (0, ds) else (-2, ds))"

definition flb_downstream_pause :: "stream_id option \<Rightarrow> net_state \<Rightarrow> net_state option" where
  "flb_downstream_pause d s =
     (case d of None \<Rightarrow> Some s | Some d \<Rightarrow> upd_downstream d (\<lambda>ds. ds\<lparr>ds_paused := True\<rparr>) s)"

definition flb_downstream_resume :: "stream_id option \<Rightarrow> net_state \<Rightarrow> net_state option" where
  "flb_downstream_resume d s =
     (case d of None \<Rightarrow> Some s | Some d \<Rightarrow> upd_downstream d (\<lambda>ds. ds\<lparr>ds_paused := False\<rparr>) s)"

section \<open>Closing and freeing\<close>

definition ds_close_fd :: "cid \<Rightarrow> net_state \<Rightarrow> net_state option" where
  "ds_close_fd c s = do {
     cn \<leftarrow> nt_conns s c;
     (if cn_fd cn \<noteq> -1
      then upd_conn c (\<lambda>cn. cn\<lparr>cn_fd := -1, cn_ev_fd := -1\<rparr>) (flb_socket_close (cn_fd cn) s)
      else Some s)}"

definition ds_prepare_destroy_conn :: "cid \<Rightarrow> net_state \<Rightarrow> net_state option" where
  "ds_prepare_destroy_conn c s = do {
     cn \<leftarrow> nt_conns s c;
     s \<leftarrow> (if cn_ev_registered cn then mk_event_del c s else Some s);
     s \<leftarrow> ds_close_fd c s;
     s \<leftarrow> mk_list_del c s;
     ds \<leftarrow> nt_downstreams s (cn_stream cn);
     mk_list_add c (DownDestroyQueue (cn_stream cn)) s}"

definition ds_prepare_destroy_conn_safe :: "cid \<Rightarrow> net_state \<Rightarrow> net_state option" where
  "ds_prepare_destroy_conn_safe c s = do {
     cn \<leftarrow> nt_conns s c;
     s \<leftarrow> ds_acquire_lock (cn_stream cn) s;
     s \<leftarrow> ds_prepare_destroy_conn c s;
     ds_release_lock (cn_stream cn) s}"

definition ds_destroy_conn :: "cid \<Rightarrow> net_state \<Rightarrow> net_state option" where
  "ds_destroy_conn c s = do {
     cn \<leftarrow> nt_conns s c;
     (if cn_busy_flag cn then Some s
      else do {
        s \<leftarrow> mk_list_del c s;
        flb_connection_destroy c s})}"

section \<open>Accepting\<close>

definition is_dgram :: "transport \<Rightarrow> bool" where
  "is_dgram t \<longleftrightarrow> t = TRANSPORT_UDP \<or> t = TRANSPORT_UNIX_DGRAM"

datatype accept_result = AcceptNull | AcceptConn cid | Accepting cid

text \<open>The end of \<open>flb_downstream_conn_get\<close> for a connection that is ready.\<close>

definition ds_conn_ready :: "stream_id \<Rightarrow> net_env \<Rightarrow> cid \<Rightarrow> net_state \<Rightarrow> net_state option" where
  "ds_conn_ready d e c s = do {
     ds \<leftarrow> nt_downstreams s d;
     s \<leftarrow> upd_conn c (\<lambda>cn. cn\<lparr>cn_busy_flag := False\<rparr>) s;
     s \<leftarrow> upd_conn c (flb_connection_reset_io_timeout (st_net (ds_base ds)) (ne_time e)) s;
     (if is_dgram (st_transport (ds_base ds)) \<and> ds_dgram_connection ds = None
      then upd_downstream d (\<lambda>ds. ds\<lparr>ds_dgram_connection := Some c\<rparr>) s else Some s)}"

text \<open>Up to the call of \<open>flb_io_net_accept\<close>; \<open>accepted\<close> is the socket a paused server accepts and closes at once.\<close>

definition flb_downstream_conn_get ::
  "stream_id \<Rightarrow> net_env \<Rightarrow> int \<Rightarrow> net_state \<Rightarrow> (accept_result \<times> net_state) option" where
  "flb_downstream_conn_get d e accepted s = do {
     ds \<leftarrow> nt_downstreams s d;
     (let dgram = is_dgram (st_transport (ds_base ds)) in
      if ds_paused ds then
        Some (AcceptNull, if \<not> dgram \<and> accepted \<ge> 0 then flb_socket_close accepted s else s)
      else if dgram \<and> ds_dgram_connection ds \<noteq> None then
        Some (AcceptConn (the (ds_dgram_connection ds)), s)
      else
        case flb_connection_create (if dgram then ds_server_fd ds else -1) FLB_DOWNSTREAM_CONNECTION d e s of
          (None, s) \<Rightarrow> Some (AcceptNull, s)
        | (Some c, s) \<Rightarrow> do {
            s \<leftarrow> upd_conn c (\<lambda>cn. cn\<lparr>cn_busy_flag := True\<rparr>) s;
            s \<leftarrow> ds_acquire_lock d s;
            s \<leftarrow> mk_list_add c (DownBusyQueue d) s;
            s \<leftarrow> ds_release_lock d s;
            (if \<not> dgram then do {
               s \<leftarrow> upd_conn c (flb_connection_reset_connection_timeout (st_net (ds_base ds)) (ne_time e)) s;
               Some (Accepting c, s)}
             else do {
               s \<leftarrow> ds_conn_ready d e c s;
               Some (AcceptConn c, s)})})}"

text \<open>
  \<open>flb_io_net_accept\<close> up to the handshake, and its result when there is none: \<open>accepted\<close> is what \<open>flb_net_accept\<close> returns.
\<close>

definition flb_io_net_accept :: "cid \<Rightarrow> int \<Rightarrow> net_state \<Rightarrow> (int \<times> net_state) option" where
  "flb_io_net_accept c accepted s = do {
     s \<leftarrow> ds_close_fd c s;
     s \<leftarrow> upd_conn c (\<lambda>cn. cn\<lparr>cn_fd := accepted\<rparr>) s;
     Some (if accepted = -1 then -1 else 0, s)}"

text \<open>From its return, with its result; a failure sets the connection timeout again instead of clearing it.\<close>

definition flb_downstream_conn_get_end ::
  "stream_id \<Rightarrow> net_env \<Rightarrow> cid \<Rightarrow> int \<Rightarrow> net_state \<Rightarrow> (accept_result \<times> net_state) option" where
  "flb_downstream_conn_get_end d e c result s = do {
     ds \<leftarrow> nt_downstreams s d;
     (if result \<noteq> 0 then do {
        s \<leftarrow> upd_conn c (flb_connection_reset_connection_timeout (st_net (ds_base ds)) (ne_time e)) s;
        s \<leftarrow> ds_prepare_destroy_conn_safe c s;
        s \<leftarrow> upd_conn c (\<lambda>cn. cn\<lparr>cn_busy_flag := False\<rparr>) s;
        Some (AcceptNull, s)}
      else do {
        s \<leftarrow> upd_conn c flb_connection_unset_connection_timeout s;
        s \<leftarrow> ds_conn_ready d e c s;
        Some (AcceptConn c, s)})}"

definition flb_downstream_conn_release :: "cid \<Rightarrow> net_state \<Rightarrow> net_state option" where
  "flb_downstream_conn_release c s = ds_prepare_destroy_conn_safe c s"

section \<open>Timeouts and freeing\<close>

definition ds_timed_out :: "flb_net_setup \<Rightarrow> int \<Rightarrow> flb_connection \<Rightarrow> bool" where
  "ds_timed_out net now cn \<longleftrightarrow>
     (ns_accept_timeout net > 0 \<and> cn_ts_connect_timeout cn > 0 \<and> cn_ts_connect_timeout cn \<le> now)
     \<or> (ns_io_timeout net > 0 \<and> cn_ts_io_timeout cn > 0 \<and> cn_ts_io_timeout cn \<le> now)"

definition ds_conn_timeout :: "net_env \<Rightarrow> cid \<Rightarrow> net_state \<Rightarrow> net_state option" where
  "ds_conn_timeout e c s = do {
     cn \<leftarrow> nt_conns s c;
     ds \<leftarrow> nt_downstreams s (cn_stream cn);
     (if ds_timed_out (st_net (ds_base ds)) (ne_time e) cn
      then do {
        s \<leftarrow> upd_conn c (\<lambda>cn. cn\<lparr>cn_net_error := ETIMEDOUT\<rparr>) s;
        s \<leftarrow> ds_prepare_destroy_conn c s;
        Some (if cn_ev_registered cn then mk_event_inject (ne_room e) c s else s)}
      else Some s)}"

definition downstream_timeouts :: "net_env \<Rightarrow> stream_id \<Rightarrow> net_state \<Rightarrow> net_state option" where
  "downstream_timeouts e d s = do {
     ds \<leftarrow> nt_downstreams s d;
     (if st_transport (ds_base ds) = TRANSPORT_UDP then Some s
      else do {
        s \<leftarrow> ds_acquire_lock d s;
        s \<leftarrow> each_conn (ds_conn_timeout e) (nt_list s (DownBusyQueue d)) s;
        ds_release_lock d s})}"

fun flb_downstream_conn_timeouts :: "net_env \<Rightarrow> stream_id list \<Rightarrow> net_state \<Rightarrow> net_state option" where
  "flb_downstream_conn_timeouts e [] s = Some s"
| "flb_downstream_conn_timeouts e (d # ds) s = do { s \<leftarrow> downstream_timeouts e d s; flb_downstream_conn_timeouts e ds s }"

definition flb_downstream_conn_pending_destroy :: "stream_id \<Rightarrow> net_state \<Rightarrow> net_state option" where
  "flb_downstream_conn_pending_destroy d s = do {
     s \<leftarrow> ds_acquire_lock d s;
     s \<leftarrow> each_conn ds_destroy_conn (nt_list s (DownDestroyQueue d)) s;
     ds_release_lock d s}"

fun flb_downstream_conn_pending_destroy_list :: "stream_id list \<Rightarrow> net_state \<Rightarrow> net_state option" where
  "flb_downstream_conn_pending_destroy_list [] s = Some s"
| "flb_downstream_conn_pending_destroy_list (d # ds) s = do {
     s \<leftarrow> flb_downstream_conn_pending_destroy d s;
     flb_downstream_conn_pending_destroy_list ds s}"

text \<open>The connection of a datagram server has the socket of the server, which is then closed already.\<close>

definition ds_free_stream :: "stream_id \<Rightarrow> net_state \<Rightarrow> net_state option" where
  "ds_free_stream d s = do {
     ds \<leftarrow> nt_downstreams s d;
     (let ds = (if ds_dgram_connection ds \<noteq> None then ds\<lparr>ds_dgram_connection := None, ds_server_fd := -1\<rparr> else ds);
          s = (if ds_server_fd ds \<noteq> -1 then flb_socket_close (ds_server_fd ds) s else s)
      in Some (s\<lparr>nt_downstreams := (nt_downstreams s)(d := None)\<rparr>))}"

definition flb_downstream_destroy :: "stream_id option \<Rightarrow> net_state \<Rightarrow> net_state option" where
  "flb_downstream_destroy d s =
     (case d of
        None \<Rightarrow> Some s
      | Some d \<Rightarrow> do {
          s \<leftarrow> each_conn ds_prepare_destroy_conn (nt_list s (DownBusyQueue d)) s;
          s \<leftarrow> each_conn ds_destroy_conn (nt_list s (DownDestroyQueue d)) s;
          ds_free_stream d s})"

section \<open>Creating\<close>

text \<open>
  \<open>flb_downstream_create\<close> with \<open>d\<close> for the allocated stream. When the host name cannot be copied the queues are not initialised, and
  \<open>flb_downstream_destroy\<close> follows their NULL links.
\<close>

definition flb_downstream_create ::
  "bool \<Rightarrow> stream_id \<Rightarrow> transport \<Rightarrow> u32 \<Rightarrow> flb_net_setup \<Rightarrow> bool \<Rightarrow> int \<Rightarrow> net_state \<Rightarrow> (stream_id option \<times> net_state) option" where
  "flb_downstream_create alloc d transport flags net host_ok server_fd s =
     (if \<not> alloc then Some (None, s)
      else
        case flb_downstream_setup transport flags net host_ok server_fd of
          (result, ds) \<Rightarrow>
            let s = s\<lparr>nt_downstreams := (nt_downstreams s)(d \<mapsto> ds)\<rparr> in
            if result = 0 then Some (Some d, s)
            else if result = -1 then None
            else do { s \<leftarrow> flb_downstream_destroy (Some d) s; Some (None, s) })"

definition flb_downstream_thread_safe :: "stream_id \<Rightarrow> net_state \<Rightarrow> net_state option" where
  "flb_downstream_thread_safe d s =
     upd_downstream d (\<lambda>ds. ds\<lparr>ds_base := (ds_base ds)\<lparr>st_thread_safety_flag := True, st_list_mutex := False\<rparr>\<rparr>) s"

end
