(* ===== verification/Downstream_Run.thy ===== *)
theory Downstream_Run
  imports Downstream
begin

text \<open>
  The connections of a server at work: a transition system over the operations of \<open>Downstream\<close>, its invariant, and the balance of
  the sockets that were accepted against those that were closed.
\<close>

section \<open>The transition system\<close>

text \<open>
  \<open>dr_accepting\<close> are the connections whose coroutine is in the handshake, with their stream, \<open>dr_held\<close> those a plugin has, and
  \<open>dr_opened\<close> the sockets the connections were given.
\<close>

record down_run =
  dr_net :: net_state
  dr_accepting :: "(cid \<times> stream_id) list"
  dr_held :: "cid list"
  dr_opened :: "int list"

datatype down_op =
    Accept stream_id net_env int
  | Accepted cid stream_id net_env int
  | DIo cid conn_io
  | DRelease cid
  | DTimeouts "stream_id list" net_env
  | DPendingDestroy "stream_id list"
  | Pause "stream_id option"
  | Resume "stream_id option"

definition opened :: "int \<Rightarrow> int list" where
  "opened fd = (if fd = -1 then [] else [fd])"

text \<open>
  Accepting runs up to the handshake. A plugin uses the connections it has as long as they are allocated; the socket is set by the
  accept alone.
\<close>

fun down_enabled :: "down_op \<Rightarrow> down_run \<Rightarrow> bool" where
  "down_enabled (Accept d e accepted) p = (nt_downstreams (dr_net p) d \<noteq> None \<and> accepted \<ge> -1)"
| "down_enabled (Accepted c d e result) p = ((c, d) \<in> set (dr_accepting p))"
| "down_enabled (DIo c io) p =
     ((c \<in> fst ` set (dr_accepting p) \<or> c \<in> set (dr_held p))
      \<and> (case nt_conns (dr_net p) c of None \<Rightarrow> False | Some cn \<Rightarrow> io_fd io = cn_fd cn))"
| "down_enabled (DRelease c) p = (c \<in> set (dr_held p) \<and> nt_conns (dr_net p) c \<noteq> None)"
| "down_enabled (DTimeouts ds e) p = (\<forall>d \<in> set ds. nt_downstreams (dr_net p) d \<noteq> None)"
| "down_enabled (DPendingDestroy ds) p = (\<forall>d \<in> set ds. nt_downstreams (dr_net p) d \<noteq> None)"
| "down_enabled (Pause d) p = (case d of None \<Rightarrow> True | Some d \<Rightarrow> nt_downstreams (dr_net p) d \<noteq> None)"
| "down_enabled (Resume d) p = (case d of None \<Rightarrow> True | Some d \<Rightarrow> nt_downstreams (dr_net p) d \<noteq> None)"

text \<open>The sockets an accept opens: that of the client, or for datagrams the one of the server, when the connection is created.\<close>

definition accept_opens :: "stream_id \<Rightarrow> int \<Rightarrow> accept_result \<Rightarrow> net_state \<Rightarrow> int list" where
  "accept_opens d accepted r s =
     (case nt_downstreams s d of
        None \<Rightarrow> []
      | Some ds \<Rightarrow>
          if is_dgram (st_transport (ds_base ds)) then
            (case r of AcceptConn c \<Rightarrow> if ds_dgram_connection ds = None then opened (ds_server_fd ds) else [] | _ \<Rightarrow> [])
          else if ds_paused ds then opened accepted
          else (case r of Accepting c \<Rightarrow> opened accepted | _ \<Rightarrow> []))"

fun down_exec :: "down_op \<Rightarrow> down_run \<Rightarrow> down_run option" where
  "down_exec (Accept d e accepted) p = do {
     (r, s) \<leftarrow> flb_downstream_conn_get d e accepted (dr_net p);
     (let p' = p\<lparr>dr_opened := dr_opened p @ accept_opens d accepted r (dr_net p)\<rparr> in
      case r of
        AcceptNull \<Rightarrow> Some (p'\<lparr>dr_net := s\<rparr>)
      | AcceptConn c \<Rightarrow> Some (p'\<lparr>dr_net := s, dr_held := List.insert c (dr_held p)\<rparr>)
      | Accepting c \<Rightarrow> do {
          (ret, s) \<leftarrow> flb_io_net_accept c accepted s;
          Some (p'\<lparr>dr_net := s, dr_accepting := (c, d) # dr_accepting p\<rparr>)})}"
| "down_exec (Accepted c d e result) p = do {
     (r, s) \<leftarrow> flb_downstream_conn_get_end d e c result (dr_net p);
     (let p = p\<lparr>dr_net := s, dr_accepting := remove1 (c, d) (dr_accepting p)\<rparr> in
      Some (case r of AcceptConn c \<Rightarrow> p\<lparr>dr_held := List.insert c (dr_held p)\<rparr> | _ \<Rightarrow> p))}"
| "down_exec (DIo c io) p = do { s \<leftarrow> conn_io c io (dr_net p); Some (p\<lparr>dr_net := s\<rparr>) }"
| "down_exec (DRelease c) p = do {
     s \<leftarrow> flb_downstream_conn_release c (dr_net p); Some (p\<lparr>dr_net := s, dr_held := removeAll c (dr_held p)\<rparr>) }"
| "down_exec (DTimeouts ds e) p = do { s \<leftarrow> flb_downstream_conn_timeouts e ds (dr_net p); Some (p\<lparr>dr_net := s\<rparr>) }"
| "down_exec (DPendingDestroy ds) p = do {
     s \<leftarrow> flb_downstream_conn_pending_destroy_list ds (dr_net p); Some (p\<lparr>dr_net := s\<rparr>) }"
| "down_exec (Pause d) p = do { s \<leftarrow> flb_downstream_pause d (dr_net p); Some (p\<lparr>dr_net := s\<rparr>) }"
| "down_exec (Resume d) p = do { s \<leftarrow> flb_downstream_resume d (dr_net p); Some (p\<lparr>dr_net := s\<rparr>) }"

definition down_init :: "down_run \<Rightarrow> bool" where
  "down_init p \<longleftrightarrow>
     nt_conns (dr_net p) = (\<lambda>_. None) \<and> nt_list (dr_net p) = (\<lambda>_. []) \<and> nt_closed (dr_net p) = []
     \<and> (\<forall>d ds. nt_downstreams (dr_net p) d = Some ds \<longrightarrow> \<not> st_list_mutex (ds_base ds))
     \<and> dr_accepting p = [] \<and> dr_held p = [] \<and> dr_opened p = []"

abbreviation down_reachable :: "down_run \<Rightarrow> bool" where
  "down_reachable \<equiv> reach down_init down_enabled down_exec"

section \<open>The invariant of the store\<close>

definition dconn_ok :: "(stream_id \<Rightarrow> bool) \<Rightarrow> flb_connection \<Rightarrow> bool" where
  "dconn_ok D cn \<longleftrightarrow>
     cn_dynamically_allocated cn \<and> D (cn_stream cn)
     \<and> (cn_link cn = Some (DownBusyQueue (cn_stream cn))
        \<or> cn_link cn = Some (DownDestroyQueue (cn_stream cn)) \<and> cn_fd cn = -1)"

definition dpool :: "net_state \<Rightarrow> bool" where
  "dpool s \<longleftrightarrow>
     linked_ok s
     \<and> (\<forall>c cn. nt_conns s c = Some cn \<longrightarrow> c < nt_next s \<and> dconn_ok (\<lambda>d. nt_downstreams s d \<noteq> None) cn)"

lemma dpoolD:
  assumes "dpool s"
  shows "linked_ok s" and "nt_conns s c = Some cn \<Longrightarrow> c < nt_next s"
    and "nt_conns s c = Some cn \<Longrightarrow> dconn_ok (\<lambda>d. nt_downstreams s d \<noteq> None) cn"
  using assms unfolding dpool_def by blast+

lemma dpool_finite: "dpool s \<Longrightarrow> finite {c. \<exists>cn. nt_conns s c = Some cn \<and> P cn}"
  by (rule finite_subset [of _ "{..< nt_next s}"]) (auto dest: dpoolD(2))

text \<open>Sockets: \<open>open_conns s fd\<close> are the connections that have the socket \<open>fd\<close>.\<close>

definition open_conns :: "net_state \<Rightarrow> int \<Rightarrow> cid set" where
  "open_conns s fd = {c. \<exists>cn. nt_conns s c = Some cn \<and> cn_fd cn = fd}"

definition balanced :: "int list \<Rightarrow> net_state \<Rightarrow> bool" where
  "balanced os s \<longleftrightarrow> (\<forall>fd. fd \<noteq> -1 \<longrightarrow> count_list os fd = count_list (nt_closed s) fd + card (open_conns s fd))"

lemma open_conns_finite: "dpool s \<Longrightarrow> finite (open_conns s fd)"
  unfolding open_conns_def by (rule dpool_finite)

lemma balanced_cong:
  assumes "balanced os s" and "nt_closed s' = nt_closed s" and "\<And>fd. fd \<noteq> -1 \<Longrightarrow> open_conns s' fd = open_conns s fd"
  shows "balanced os s'"
  using assms by (simp add: balanced_def)

text \<open>The socket of one connection changes: it had none and gets \<open>fd\<close>, or loses it as it is closed.\<close>

lemma balanced_close:
  assumes b: "balanced os s" and p: "dpool s" and c: "nt_conns s c = Some cn" and "cn_fd cn \<noteq> -1"
    and s': "nt_closed s' = nt_closed s @ [cn_fd cn]" "nt_conns s' = (nt_conns s)(c \<mapsto> cn')" "cn_fd cn' = -1"
  shows "balanced os s'"
  unfolding balanced_def
proof (intro allI impI)
  fix fd :: int assume fd: "fd \<noteq> -1"
  have "open_conns s' fd = open_conns s fd - (if fd = cn_fd cn then {c} else {})"
    using s' c fd by (auto simp: open_conns_def)
  moreover have "c \<in> open_conns s (cn_fd cn)" using c by (simp add: open_conns_def)
  ultimately have "card (open_conns s fd) = card (open_conns s' fd) + (if fd = cn_fd cn then 1 else 0)"
    using open_conns_finite [OF p, of fd] card.remove [of "open_conns s fd" c] by (cases "fd = cn_fd cn") auto
  then show "count_list os fd = count_list (nt_closed s') fd + card (open_conns s' fd)"
    using b fd s'(1) by (auto simp: balanced_def)
qed

lemma balanced_open:
  assumes b: "balanced os s" and p: "dpool s" and c: "\<And>cn. nt_conns s c = Some cn \<Longrightarrow> cn_fd cn = -1"
    and s': "nt_closed s' = nt_closed s" "nt_conns s' = (nt_conns s)(c \<mapsto> cn')"
  shows "balanced (os @ opened (cn_fd cn')) s'"
  unfolding balanced_def
proof (intro allI impI)
  fix fd :: int assume fd: "fd \<noteq> -1"
  have new: "c \<notin> open_conns s fd" using c fd by (auto simp: open_conns_def)
  have "open_conns s' fd = open_conns s fd \<union> (if fd = cn_fd cn' then {c} else {})"
    using s'(2) new by (auto simp: open_conns_def split: if_splits)
  then have "card (open_conns s' fd) = card (open_conns s fd) + (if fd = cn_fd cn' then 1 else 0)"
    using new open_conns_finite [OF p, of fd] by (cases "fd = cn_fd cn'") auto
  then show "count_list (os @ opened (cn_fd cn')) fd = count_list (nt_closed s') fd + card (open_conns s' fd)"
    using b fd s'(1) by (auto simp: balanced_def opened_def)
qed

section \<open>Steps that keep the connections\<close>

text \<open>Neither the set of connections nor who is in the handshake changes, and sockets are closed by the book.\<close>

definition tag :: "net_state \<Rightarrow> cid \<Rightarrow> (bool \<times> stream_id) option" where
  "tag s c = map_option (\<lambda>cn. (cn_busy_flag cn, cn_stream cn)) (nt_conns s c)"

text \<open>A connection that was dropped waits in the destroy queue, and stays there.\<close>

definition dropped :: "net_state \<Rightarrow> cid \<Rightarrow> bool" where
  "dropped s c \<longleftrightarrow> (\<exists>cn. nt_conns s c = Some cn \<and> cn_link cn = Some (DownDestroyQueue (cn_stream cn)))"

definition dkeeps :: "net_state \<Rightarrow> net_state \<Rightarrow> bool" where
  "dkeeps s s' \<longleftrightarrow>
     dpool s' \<and> (\<forall>os. balanced os s \<longrightarrow> balanced os s') \<and> tag s' = tag s
     \<and> (\<forall>c. dropped s c \<longrightarrow> dropped s' c) \<and> nt_next s' = nt_next s \<and> nt_downstreams s' = nt_downstreams s"

lemma dkeeps_refl: "dpool s \<Longrightarrow> dkeeps s s"
  by (simp add: dkeeps_def)

lemma dkeeps_trans: "dkeeps s t \<Longrightarrow> dkeeps t u \<Longrightarrow> dkeeps s u"
  by (simp add: dkeeps_def)

lemma dkeepsD:
  assumes "dkeeps s s'"
  shows "dpool s'" and "balanced os s \<Longrightarrow> balanced os s'" and "tag s' = tag s" and "nt_next s' = nt_next s"
    and "nt_downstreams s' = nt_downstreams s" and "(nt_conns s' c = None) = (nt_conns s c = None)"
    and "dropped s c \<Longrightarrow> dropped s' c"
  using assms by (auto simp: dkeeps_def tag_def dest: fun_cong [of _ _ c])

lemma dkeepsI:
  assumes "dpool s'" and "nt_closed s' = nt_closed s" and "\<And>fd. open_conns s' fd = open_conns s fd"
    and "\<And>c. tag s' c = tag s c" and "\<And>c. dropped s c \<Longrightarrow> dropped s' c"
    and "nt_next s' = nt_next s" and "nt_downstreams s' = nt_downstreams s"
  shows "dkeeps s s'"
  using assms by (simp add: dkeeps_def balanced_def fun_eq_iff)

lemma keeps_bind:
  assumes "runs m (dkeeps s)" and "\<And>t. dkeeps s t \<Longrightarrow> runs (f t) (dkeeps t)"
  shows "runs (Option.bind m f) (dkeeps s)"
  unfolding runs_bind
proof (rule runs_mono [OF assms(1)])
  show "runs (f t) (dkeeps s)" if "dkeeps s t" for t
    by (rule runs_mono [OF assms(2) [OF that]]) (rule dkeeps_trans [OF that])
qed

lemma keeps_same_conn:
  assumes "dkeeps s t" and "nt_conns s c = Some cn"
  obtains cn' where "nt_conns t c = Some cn'" and "cn_stream cn' = cn_stream cn" and "cn_busy_flag cn' = cn_busy_flag cn"
  using fun_cong [OF dkeepsD(3) [OF assms(1)], of c] assms(2) by (auto simp: tag_def)

lemma dpool_conn:
  assumes "dpool s" and "nt_conns s c = Some cn" and "cn_link cn' = cn_link cn"
    and "dconn_ok (\<lambda>d. nt_downstreams s d \<noteq> None) cn'"
  shows "dpool (s\<lparr>nt_conns := (nt_conns s)(c \<mapsto> cn')\<rparr>)"
  using assms linked_conn [OF dpoolD(1) [OF assms(1)] assms(2,3)] by (auto simp: dpool_def)

text \<open>Writing other fields of a connection.\<close>

lemma dkeeps_conn:
  assumes p: "dpool s" and c: "nt_conns s c = Some cn"
    and "cn_link cn' = cn_link cn" "cn_fd cn' = cn_fd cn" "cn_busy_flag cn' = cn_busy_flag cn" "cn_stream cn' = cn_stream cn"
      "cn_dynamically_allocated cn' = cn_dynamically_allocated cn"
  shows "dkeeps s (s\<lparr>nt_conns := (nt_conns s)(c \<mapsto> cn')\<rparr>)"
proof -
  have "dconn_ok (\<lambda>d. nt_downstreams s d \<noteq> None) cn'" using dpoolD(3) [OF p c] assms(3-) by (simp add: dconn_ok_def)
  then have "dpool (s\<lparr>nt_conns := (nt_conns s)(c \<mapsto> cn')\<rparr>)" by (rule dpool_conn [OF p c assms(3)])
  then show ?thesis by (rule dkeepsI) (use c assms(3-) in \<open>auto simp: tag_def open_conns_def dropped_def\<close>)
qed

lemma dkeeps_events:
  assumes "dpool s"
  shows "dkeeps s (s\<lparr>nt_events := es\<rparr>)" and "dkeeps s (s\<lparr>nt_bktq := b\<rparr>)"
  by (rule dkeepsI; use assms in \<open>simp add: dpool_def linked_ok_def tag_def open_conns_def dropped_def\<close>)+

lemma mk_event_del_keeps:
  assumes p: "dpool s" and c: "nt_conns s c = Some cn"
  shows "runs (if b then mk_event_del c s else Some s) (dkeeps s)"
proof -
  let ?s = "s\<lparr>nt_bktq := remove1 c (nt_bktq s)\<rparr>"
  have "dkeeps s (?s\<lparr>nt_conns := (nt_conns ?s)(c \<mapsto> mk_event_new cn)\<rparr>)"
    by (rule dkeeps_trans [OF dkeeps_events(2) [OF p] dkeeps_conn [OF dkeepsD(1) [OF dkeeps_events(2) [OF p]]]])
      (use c in \<open>auto simp: mk_event_new_def\<close>)
  then show ?thesis using c dkeeps_refl [OF p] by (simp add: mk_event_del_def bktq_unlink_def upd_conn_def)
qed

lemma close_fd_keeps:
  assumes p: "dpool s" and c: "nt_conns s c = Some cn"
  shows "runs (ds_close_fd c s) (\<lambda>s'. dkeeps s s' \<and> (\<exists>cn'. nt_conns s' c = Some cn' \<and> cn_fd cn' = -1
           \<and> cn_stream cn' = cn_stream cn \<and> cn_link cn' = cn_link cn))"
proof (cases "cn_fd cn = -1")
  case True
  then show ?thesis using c dkeeps_refl [OF p] by (simp add: ds_close_fd_def)
next
  case False
  let ?x = "cn\<lparr>cn_fd := -1, cn_ev_fd := -1\<rparr>"
  let ?s = "s\<lparr>nt_conns := (nt_conns s)(c \<mapsto> ?x)\<rparr>" and ?t = "s\<lparr>nt_closed := nt_closed s @ [cn_fd cn], nt_conns := (nt_conns s)(c \<mapsto> ?x)\<rparr>"
  have "dconn_ok (\<lambda>d. nt_downstreams s d \<noteq> None) ?x" using dpoolD(3) [OF p c] by (auto simp: dconn_ok_def)
  then have "dpool ?s" by (intro dpool_conn [OF p c]) auto
  then have "dpool ?t" by (simp add: dpool_def linked_ok_def)
  moreover have "balanced os ?t" if "balanced os s" for os by (rule balanced_close [OF that p c False]) auto
  ultimately have "dkeeps s ?t" using c by (auto simp: dkeeps_def tag_def dropped_def)
  then show ?thesis using c False by (simp add: ds_close_fd_def upd_conn_def flb_socket_close_def)
qed

lemma move_keeps:
  assumes p: "dpool s" and c: "nt_conns s c = Some cn" and fd: "cn_fd cn = -1"
  shows "runs (Option.bind (mk_list_del c s) (mk_list_add c (DownDestroyQueue (cn_stream cn)))) (\<lambda>t. dkeeps s t \<and> dropped t c)"
proof -
  let ?q = "DownDestroyQueue (cn_stream cn)"
  obtain q where q: "cn_link cn = Some q" using dpoolD(3) [OF p c] by (auto simp: dconn_ok_def)
  let ?x = "cn\<lparr>cn_link := Some ?q\<rparr>"
  let ?t = "s\<lparr>nt_conns := (nt_conns s)(c \<mapsto> ?x), nt_list := moved c q ?q (nt_list s)\<rparr>"
  have "linked_ok ?t" by (rule linked_relink [OF dpoolD(1) [OF p] c q]) simp
  moreover have "dconn_ok (\<lambda>d. nt_downstreams s d \<noteq> None) ?x" using dpoolD(3) [OF p c] fd by (auto simp: dconn_ok_def)
  ultimately have "dpool ?t" using p c by (auto simp: dpool_def)
  then have "dkeeps s ?t" by (rule dkeepsI) (use c in \<open>auto simp: tag_def open_conns_def dropped_def\<close>)
  then show ?thesis using list_move_eq [OF c q] by (simp add: dropped_def)
qed

lemma close_move_keeps:
  assumes p: "dpool s" and c: "nt_conns s c = Some cn" and st: "cn_stream cn = d"
  shows "runs (Option.bind (ds_close_fd c s) (\<lambda>s. Option.bind (mk_list_del c s) (\<lambda>s.
           Option.bind (nt_downstreams s d) (\<lambda>ds. mk_list_add c (DownDestroyQueue d) s)))) (\<lambda>t. dkeeps s t \<and> dropped t c)"
  unfolding runs_bind [of "ds_close_fd c s"]
proof (rule runs_mono [OF close_fd_keeps [OF p c]], elim conjE exE)
  fix t cn' assume k: "dkeeps s t" and c': "nt_conns t c = Some cn'" "cn_fd cn' = -1" "cn_stream cn' = cn_stream cn"
  have "nt_downstreams t d \<noteq> None" using dpoolD(3) [OF dkeepsD(1) [OF k] c'(1)] c'(3) st by (simp add: dconn_ok_def)
  then have "Option.bind (mk_list_del c t) (\<lambda>s. Option.bind (nt_downstreams s d) (\<lambda>ds. mk_list_add c (DownDestroyQueue d) s))
      = Option.bind (mk_list_del c t) (mk_list_add c (DownDestroyQueue d))"
    by (auto simp: mk_list_del_def split: Option.bind_split)
  moreover have "runs (Option.bind (mk_list_del c t) (mk_list_add c (DownDestroyQueue (cn_stream cn')))) (\<lambda>u. dkeeps s u \<and> dropped u c)"
    by (rule runs_mono [OF move_keeps [OF dkeepsD(1) [OF k] c'(1,2)]]) (use dkeeps_trans [OF k] in blast)
  ultimately show "runs (Option.bind (mk_list_del c t) (\<lambda>s. Option.bind (nt_downstreams s d) (\<lambda>ds. mk_list_add c (DownDestroyQueue d) s)))
      (\<lambda>t. dkeeps s t \<and> dropped t c)" using c'(3) st by simp
qed

lemma prepare_drops:
  assumes p: "dpool s" and c: "nt_conns s c = Some cn"
  shows "runs (ds_prepare_destroy_conn c s) (\<lambda>t. dkeeps s t \<and> dropped t c)"
  unfolding ds_prepare_destroy_conn_def c Option.bind.bind_lunit runs_bind [of "if cn_ev_registered cn then _ else _"]
proof (rule runs_mono [OF mk_event_del_keeps [OF p c]])
  fix t assume k: "dkeeps s t"
  from this c obtain cn' where cn': "nt_conns t c = Some cn'" "cn_stream cn' = cn_stream cn" by (rule keeps_same_conn)
  show "runs (Option.bind (ds_close_fd c t) (\<lambda>s. Option.bind (mk_list_del c s) (\<lambda>s.
      Option.bind (nt_downstreams s (cn_stream cn)) (\<lambda>ds. mk_list_add c (DownDestroyQueue (cn_stream cn)) s))))
      (\<lambda>u. dkeeps s u \<and> dropped u c)"
    by (rule runs_mono [OF close_move_keeps [OF dkeepsD(1) [OF k] cn']]) (use dkeeps_trans [OF k] in blast)
qed

lemma prepare_keeps:
  assumes "dpool s" and "nt_conns s c = Some cn"
  shows "runs (ds_prepare_destroy_conn c s) (dkeeps s)"
  by (rule runs_mono [OF prepare_drops [OF assms]]) simp

section \<open>Under the lock\<close>

definition dunlocked :: "net_state \<Rightarrow> bool" where
  "dunlocked s \<longleftrightarrow> (\<forall>d ds. nt_downstreams s d = Some ds \<longrightarrow> \<not> st_list_mutex (ds_base ds))"

lemma dunlocked_cong: "nt_downstreams s' = nt_downstreams s \<Longrightarrow> dunlocked s' = dunlocked s"
  by (simp add: dunlocked_def)

text \<open>
  An operation on connections sees the lock taken or not, and leaves the streams as they are; with the lock released again
  nothing of them has changed.
\<close>

definition with_streams :: "(stream_id \<Rightarrow> flb_downstream option) \<Rightarrow> net_state \<Rightarrow> net_state" where
  "with_streams D s = s\<lparr>nt_downstreams := D\<rparr>"

lemma dpool_streams: "(\<And>d. D d = None \<longleftrightarrow> nt_downstreams s d = None) \<Longrightarrow> dpool (with_streams D s) = dpool s"
  by (simp add: dpool_def linked_ok_def with_streams_def)

lemma with_same_streams: "nt_downstreams s = D \<Longrightarrow> with_streams D s = s"
  by (simp add: with_streams_def)

lemma balanced_streams: "balanced os (with_streams D s) = balanced os s"
  by (simp add: balanced_def open_conns_def with_streams_def)

lemma ds_set_mutex_restore: "\<not> st_list_mutex (ds_base ds) \<Longrightarrow> ds_set_mutex False (ds_set_mutex True ds) = ds"
  by (simp add: ds_set_mutex_def)

lemma locked_runs:
  assumes un: "dunlocked s" and d: "nt_downstreams s d = Some ds"
    and m: "\<And>D. (\<And>x. D x = None \<longleftrightarrow> nt_downstreams s x = None) \<Longrightarrow>
              runs (m (with_streams D s)) (\<lambda>t. nt_downstreams t = D \<and> Q (with_streams (nt_downstreams s) t))"
  shows "runs (Option.bind (ds_acquire_lock d s) (\<lambda>s. Option.bind (m s) (ds_release_lock d))) Q"
proof (cases "st_thread_safety_flag (ds_base ds)")
  case False
  have "runs (m s) (\<lambda>t. nt_downstreams t = nt_downstreams s \<and> Q (with_streams (nt_downstreams s) t))"
    using m [of "nt_downstreams s"] by (simp add: with_same_streams)
  then have "runs (m s) (\<lambda>t. runs (ds_release_lock d t) Q)"
    by (rule runs_mono) (use d False in \<open>auto simp: ds_release_lock_def with_same_streams\<close>)
  then show ?thesis using d False by (simp add: ds_acquire_lock_def)
next
  case True
  let ?D = "(nt_downstreams s)(d \<mapsto> ds_set_mutex True ds)"
  have un_d: "\<not> st_list_mutex (ds_base ds)" using un d by (simp add: dunlocked_def)
  have rst: "?D(d \<mapsto> ds_set_mutex False (ds_set_mutex True ds)) = nt_downstreams s"
    using d by (auto simp: ds_set_mutex_restore [OF un_d])
  have acq: "ds_acquire_lock d s = Some (with_streams ?D s)"
    using d True un_d by (simp add: ds_acquire_lock_def upd_downstream_def with_streams_def)
  have "ds_release_lock d t = Some (with_streams (nt_downstreams s) t)" if "nt_downstreams t = ?D" for t
    using that True rst by (simp add: ds_release_lock_def upd_downstream_def with_streams_def ds_set_mutex_def)
  then have "runs (m (with_streams ?D s)) (\<lambda>t. runs (ds_release_lock d t) Q)"
    by (intro runs_mono [OF m]) (use d in auto)
  then show ?thesis by (simp add: acq)
qed

lemma locked_keeps:
  assumes un: "dunlocked s" and p: "dpool s" and d: "nt_downstreams s d \<noteq> None"
    and m: "\<And>t. dpool t \<Longrightarrow> (\<And>c. nt_conns t c = nt_conns s c) \<Longrightarrow> (\<And>q. nt_list t q = nt_list s q) \<Longrightarrow>
              (\<And>x. nt_downstreams t x = None \<longleftrightarrow> nt_downstreams s x = None) \<Longrightarrow> runs (m t) (dkeeps t)"
  shows "runs (Option.bind (ds_acquire_lock d s) (\<lambda>s. Option.bind (m s) (ds_release_lock d))) (dkeeps s)"
proof -
  from d obtain ds where d: "nt_downstreams s d = Some ds" by blast
  show ?thesis
  proof (rule locked_runs [OF un d])
    fix D :: "stream_id \<Rightarrow> flb_downstream option" assume D: "\<And>x. D x = None \<longleftrightarrow> nt_downstreams s x = None"
    let ?s = "with_streams D s"
    have "runs (m ?s) (dkeeps ?s)" using p D by (intro m) (simp_all add: dpool_streams, simp_all add: with_streams_def)
    then show "runs (m ?s) (\<lambda>t. nt_downstreams t = D \<and> dkeeps s (with_streams (nt_downstreams s) t))"
    proof (rule runs_mono)
      fix t assume k: "dkeeps ?s t"
      have e: "nt_downstreams t = D" using dkeepsD(5) [OF k] by (simp add: with_streams_def)
      then have "dpool (with_streams (nt_downstreams s) t)" using dkeepsD(1) [OF k] D by (simp add: dpool_streams)
      then show "nt_downstreams t = D \<and> dkeeps s (with_streams (nt_downstreams s) t)"
        using e k by (simp add: dkeeps_def balanced_streams) (simp add: with_streams_def tag_def dropped_def fun_eq_iff)
    qed
  qed
qed

lemma prepare_safe_keeps:
  assumes un: "dunlocked s" and p: "dpool s" and c: "nt_conns s c = Some cn"
  shows "runs (ds_prepare_destroy_conn_safe c s) (dkeeps s)"
proof -
  have "nt_downstreams s (cn_stream cn) \<noteq> None" using dpoolD(3) [OF p c] by (simp add: dconn_ok_def)
  then show ?thesis unfolding ds_prepare_destroy_conn_safe_def c Option.bind.bind_lunit
    by (rule locked_keeps [OF un p]) (use c in \<open>auto intro: prepare_keeps\<close>)
qed

section \<open>Timeouts\<close>

lemma conn_timeout_keeps:
  assumes p: "dpool s" and c: "nt_conns s c = Some cn"
  shows "runs (ds_conn_timeout e c s) (dkeeps s)"
proof -
  obtain ds where ds: "nt_downstreams s (cn_stream cn) = Some ds" using dpoolD(3) [OF p c] by (auto simp: dconn_ok_def)
  let ?x = "cn\<lparr>cn_net_error := ETIMEDOUT\<rparr>"
  let ?s = "s\<lparr>nt_conns := (nt_conns s)(c \<mapsto> ?x)\<rparr>"
  have k: "dkeeps s ?s" by (rule dkeeps_conn [OF p c]) simp_all
  have inj: "dkeeps t (if b then mk_event_inject r c t else t)" if "dpool t" for t b r
    using dkeeps_events(1) [OF that] dkeeps_refl [OF that] by (simp add: mk_event_inject_def)
  have "runs (Option.bind (ds_prepare_destroy_conn c ?s) (\<lambda>t. Some (if b then mk_event_inject r c t else t))) (dkeeps ?s)" for b r
    by (rule keeps_bind [OF prepare_keeps [OF dkeepsD(1) [OF k]]]) (use inj dkeepsD(1) in auto)
  then have "runs (Option.bind (ds_prepare_destroy_conn c ?s) (\<lambda>t. Some (if b then mk_event_inject r c t else t))) (dkeeps s)" for b r
    by (rule runs_mono) (rule dkeeps_trans [OF k])
  then show ?thesis using c ds dkeeps_refl [OF p] by (simp add: ds_conn_timeout_def upd_conn_def del: runs_bind)
qed

lemma each_conn_keeps:
  assumes f: "\<And>c s cn. dpool s \<Longrightarrow> nt_conns s c = Some cn \<Longrightarrow> runs (f c s) (dkeeps s)"
    and p: "dpool s" and cs: "\<forall>c \<in> set cs. nt_conns s c \<noteq> None"
  shows "runs (each_conn f cs s) (dkeeps s)"
  using p cs
proof (induction cs arbitrary: s)
  case Nil
  then show ?case by (simp add: dkeeps_refl)
next
  case (Cons c cs)
  then obtain cn where "nt_conns s c = Some cn" by auto
  with Cons.prems(1) have "runs (f c s) (dkeeps s)" by (rule f)
  then show ?case unfolding each_conn.simps
    by (rule keeps_bind) (rule Cons.IH, use Cons.prems(2) in \<open>simp_all add: dkeepsD\<close>)
qed

lemma queue_stored: "linked_ok s \<Longrightarrow> \<forall>c \<in> set (nt_list s q). nt_conns s c \<noteq> None"
  by (auto simp: linked_okD(1))

lemma timeouts_keeps:
  assumes un: "dunlocked s" and p: "dpool s" and d: "nt_downstreams s d \<noteq> None"
  shows "runs (downstream_timeouts e d s) (dkeeps s)"
proof -
  from d obtain ds where ds: "nt_downstreams s d = Some ds" by blast
  have "runs (Option.bind (ds_acquire_lock d s) (\<lambda>s. Option.bind (each_conn (ds_conn_timeout e) (nt_list s (DownBusyQueue d)) s)
      (ds_release_lock d))) (dkeeps s)"
    by (rule locked_keeps [OF un p d])
      (rule each_conn_keeps [OF conn_timeout_keeps], assumption+, rule queue_stored [OF dpoolD(1)], assumption)
  then show ?thesis using ds dkeeps_refl [OF p] by (simp add: downstream_timeouts_def del: runs_bind)
qed

text \<open>An operation on each stream.\<close>

lemma keeps_streams:
  assumes "dkeeps s t" and "dunlocked s" and "\<forall>d \<in> S. nt_downstreams s d \<noteq> None"
  shows "dunlocked t" and "dpool t" and "\<forall>d \<in> S. nt_downstreams t d \<noteq> None"
  using assms by (simp_all add: dkeepsD dunlocked_def)

lemma all_timeouts_keeps:
  assumes "dunlocked s" and "dpool s" and "\<forall>d \<in> set ds. nt_downstreams s d \<noteq> None"
  shows "runs (flb_downstream_conn_timeouts e ds s) (dkeeps s)"
  using assms
proof (induction ds arbitrary: s)
  case Nil
  then show ?case by (simp add: dkeeps_refl)
next
  case (Cons d ds)
  have "runs (downstream_timeouts e d s) (dkeeps s)" by (rule timeouts_keeps) (use Cons.prems in simp_all)
  then show ?case unfolding flb_downstream_conn_timeouts.simps
  proof (rule keeps_bind)
    fix t assume "dkeeps s t"
    from keeps_streams [OF this Cons.prems(1), of "set ds"] Cons.prems(3)
    show "runs (flb_downstream_conn_timeouts e ds t) (dkeeps t)" by (intro Cons.IH) simp_all
  qed
qed

section \<open>Freeing\<close>

definition dfrees :: "cid set \<Rightarrow> net_state \<Rightarrow> net_state \<Rightarrow> bool" where
  "dfrees X s s' \<longleftrightarrow>
     dpool s' \<and> (\<forall>os. balanced os s \<longrightarrow> balanced os s') \<and> (\<forall>c. nt_conns s' c = (if c \<in> X then None else nt_conns s c))
     \<and> nt_downstreams s' = nt_downstreams s"

lemma dfreesD:
  assumes "dfrees X s s'"
  shows "dpool s'" and "balanced os s \<Longrightarrow> balanced os s'" and "nt_conns s' c = (if c \<in> X then None else nt_conns s c)"
    and "nt_downstreams s' = nt_downstreams s"
  using assms by (simp_all add: dfrees_def)

lemma dfrees_refl: "dpool s \<Longrightarrow> dfrees {} s s"
  by (simp add: dfrees_def)

lemma dfrees_trans: "dfrees X s t \<Longrightarrow> dfrees Y t u \<Longrightarrow> Z = X \<union> Y \<Longrightarrow> dfrees Z s u"
  by (simp add: dfrees_def)

definition idle :: "net_state \<Rightarrow> cid \<Rightarrow> bool" where
  "idle s c \<longleftrightarrow> (\<exists>cn. nt_conns s c = Some cn \<and> \<not> cn_busy_flag cn)"

lemma destroy_frees:
  assumes p: "dpool s" and c: "nt_conns s c = Some cn" and fd: "cn_fd cn = -1"
  shows "runs (ds_destroy_conn c s) (dfrees (if idle s c then {c} else {}) s)"
proof (cases "cn_busy_flag cn")
  case True
  then show ?thesis using c dfrees_refl [OF p] by (simp add: ds_destroy_conn_def idle_def)
next
  case False
  obtain q where q: "cn_link cn = Some q" and dyn: "cn_dynamically_allocated cn"
    using dpoolD(3) [OF p c] by (auto simp: dconn_ok_def)
  let ?t = "s\<lparr>nt_conns := (nt_conns s)(c := None), nt_list := (nt_list s)(q := remove1 c (nt_list s q))\<rparr>"
  have eq: "ds_destroy_conn c s = Some ?t"
    using c q dyn False by (simp add: ds_destroy_conn_def mk_list_del_def flb_connection_destroy_def)
  have "dpool ?t" using linked_free [OF dpoolD(1) [OF p] c q] p by (simp add: dpool_def)
  moreover have "balanced os ?t" if "balanced os s" for os
    using that by (rule balanced_cong) (use c fd in \<open>auto simp: open_conns_def\<close>)
  ultimately have "dfrees {c} s ?t" by (simp add: dfrees_def)
  then show ?thesis unfolding eq using c False by (simp add: idle_def)
qed

lemma each_destroy_frees:
  assumes "dpool s" and "distinct cs" and "\<forall>c \<in> set cs. \<exists>cn. nt_conns s c = Some cn \<and> cn_fd cn = -1"
  shows "runs (each_conn ds_destroy_conn cs s) (dfrees {c \<in> set cs. idle s c} s)"
  using assms
proof (induction cs arbitrary: s)
  case Nil
  then show ?case by (simp add: dfrees_refl)
next
  case (Cons c cs)
  from Cons.prems(3) obtain cn where c: "nt_conns s c = Some cn" "cn_fd cn = -1" by auto
  show ?case unfolding each_conn.simps runs_bind
  proof (rule runs_mono [OF destroy_frees [OF Cons.prems(1) c]])
    fix t assume f: "dfrees (if idle s c then {c} else {}) s t"
    have same: "nt_conns t x = nt_conns s x" if "x \<in> set cs" for x
      using that Cons.prems(2) by (auto simp: dfreesD(3) [OF f])
    have "runs (each_conn ds_destroy_conn cs t) (dfrees {x \<in> set cs. idle t x} t)"
      by (rule Cons.IH [OF dfreesD(1) [OF f]]) (use Cons.prems same in auto)
    then show "runs (each_conn ds_destroy_conn cs t) (dfrees {x \<in> set (c # cs). idle s x} s)"
      by (rule runs_mono) (rule dfrees_trans [OF f], use same in \<open>auto simp: idle_def\<close>)
  qed
qed

definition doomed_conns :: "stream_id set \<Rightarrow> net_state \<Rightarrow> cid set" where
  "doomed_conns D s = {c. \<exists>cn d. nt_conns s c = Some cn \<and> \<not> cn_busy_flag cn \<and> d \<in> D \<and> cn_link cn = Some (DownDestroyQueue d)}"

lemma destroy_queue_closed:
  assumes "dpool s"
  shows "\<forall>c \<in> set (nt_list s (DownDestroyQueue d)). \<exists>cn. nt_conns s c = Some cn \<and> cn_fd cn = -1"
    and "{c \<in> set (nt_list s (DownDestroyQueue d)). idle s c} = doomed_conns {d} s"
  using assms linked_okD(1) [OF dpoolD(1) [OF assms], of _ "DownDestroyQueue d"] dpoolD(3) [OF assms]
  by (fastforce simp: dconn_ok_def doomed_conns_def idle_def)+

lemma pending_frees:
  assumes un: "dunlocked s" and p: "dpool s" and d: "nt_downstreams s d \<noteq> None"
  shows "runs (flb_downstream_conn_pending_destroy d s) (dfrees (doomed_conns {d} s) s)"
proof -
  from d obtain ds where d: "nt_downstreams s d = Some ds" by blast
  show ?thesis unfolding flb_downstream_conn_pending_destroy_def
  proof (rule locked_runs [OF un d])
    fix D :: "stream_id \<Rightarrow> flb_downstream option" assume D: "\<And>x. D x = None \<longleftrightarrow> nt_downstreams s x = None"
    let ?s = "with_streams D s"
    have ps: "dpool ?s" using p D by (simp add: dpool_streams)
    have eq: "doomed_conns {d} ?s = doomed_conns {d} s" by (simp add: doomed_conns_def with_streams_def)
    have "runs (each_conn ds_destroy_conn (nt_list ?s (DownDestroyQueue d)) ?s) (dfrees (doomed_conns {d} s) ?s)"
      using each_destroy_frees [OF ps linked_okD(2) [OF dpoolD(1) [OF ps]] destroy_queue_closed(1) [OF ps], of d]
      unfolding destroy_queue_closed(2) [OF ps] eq .
    then show "runs (each_conn ds_destroy_conn (nt_list ?s (DownDestroyQueue d)) ?s)
        (\<lambda>t. nt_downstreams t = D \<and> dfrees (doomed_conns {d} s) s (with_streams (nt_downstreams s) t))"
    proof (rule runs_mono)
      fix t assume k: "dfrees (doomed_conns {d} s) ?s t"
      have e: "nt_downstreams t = D" using dfreesD(4) [OF k] by (simp add: with_streams_def)
      then have "dpool (with_streams (nt_downstreams s) t)" using dfreesD(1) [OF k] D by (simp add: dpool_streams)
      then show "nt_downstreams t = D \<and> dfrees (doomed_conns {d} s) s (with_streams (nt_downstreams s) t)"
        using e k by (simp add: dfrees_def balanced_streams) (simp add: with_streams_def)
    qed
  qed
qed

lemma pending_list_frees:
  assumes "dunlocked s" and "dpool s" and "\<forall>d \<in> set ds. nt_downstreams s d \<noteq> None"
  shows "runs (flb_downstream_conn_pending_destroy_list ds s) (dfrees (doomed_conns (set ds) s) s)"
  using assms
proof (induction ds arbitrary: s)
  case Nil
  then show ?case using dfrees_refl [of s] by (simp add: doomed_conns_def)
next
  case (Cons d ds)
  have "runs (flb_downstream_conn_pending_destroy d s) (dfrees (doomed_conns {d} s) s)"
    by (rule pending_frees) (use Cons.prems in simp_all)
  then show ?case unfolding flb_downstream_conn_pending_destroy_list.simps runs_bind
  proof (rule runs_mono)
    fix t assume f: "dfrees (doomed_conns {d} s) s t"
    have "runs (flb_downstream_conn_pending_destroy_list ds t) (dfrees (doomed_conns (set ds) t) t)"
      by (rule Cons.IH) (use Cons.prems dfreesD(1,4) [OF f] in \<open>simp_all add: dunlocked_def\<close>)
    moreover have "doomed_conns (set (d # ds)) s = doomed_conns {d} s \<union> doomed_conns (set ds) t"
      by (auto simp: doomed_conns_def dfreesD(3) [OF f])
    ultimately show "runs (flb_downstream_conn_pending_destroy_list ds t) (dfrees (doomed_conns (set (d # ds)) s) s)"
      using dfrees_trans [OF f] by (blast intro: runs_mono)
  qed
qed

section \<open>Accepting\<close>

text \<open>A new connection with the socket \<open>fd\<close> for the stream \<open>d\<close>; \<open>b\<close> tells whether it is in the handshake.\<close>

definition joins :: "int \<Rightarrow> bool \<Rightarrow> stream_id \<Rightarrow> net_state \<Rightarrow> net_state \<Rightarrow> bool" where
  "joins fd b d s t \<longleftrightarrow>
     dpool t \<and> dunlocked t \<and> (\<forall>os. balanced os s \<longrightarrow> balanced (os @ opened fd) t)
     \<and> tag t = (tag s)(nt_next s \<mapsto> (b, d))"

lemma tag_fresh: "dpool s \<Longrightarrow> tag s (nt_next s) = None"
  using dpoolD(2) [of s "nt_next s"] by (cases "nt_conns s (nt_next s)") (auto simp: tag_def)

lemma linked_joins:
  assumes p: "dpool s" and d: "nt_downstreams s d \<noteq> None"
    and cn: "cn_link cn = Some (DownBusyQueue d)" "cn_stream cn = d" "cn_dynamically_allocated cn"
    and t: "nt_conns t = (nt_conns s)(nt_next s \<mapsto> cn)" "nt_list t = (nt_list s)(DownBusyQueue d := nt_list s (DownBusyQueue d) @ [nt_next s])"
      "nt_next t = Suc (nt_next s)" "\<And>x. nt_downstreams t x = None \<longleftrightarrow> nt_downstreams s x = None" "dunlocked t" "nt_closed t = nt_closed s"
  shows "joins (cn_fd cn) (cn_busy_flag cn) d s t"
proof -
  have new: "nt_conns s (nt_next s) = None" using tag_fresh [OF p] by (simp add: tag_def)
  have "linked_ok t" by (rule linked_frame [OF linked_create [OF dpoolD(1) [OF p] new cn(1)]]) (use t in simp_all)
  moreover have "dconn_ok (\<lambda>x. nt_downstreams t x \<noteq> None) cn" using cn d t(4) by (simp add: dconn_ok_def)
  ultimately have "dpool t" using p t(1,3,4) by (auto simp: dpool_def less_SucI)
  moreover have "balanced (os @ opened (cn_fd cn)) t" if "balanced os s" for os
    by (rule balanced_open [OF that p _ t(6,1)]) (use new in simp)
  moreover have "tag t = (tag s)(nt_next s \<mapsto> (cn_busy_flag cn, d))" using t(1) cn(2) by (auto simp: tag_def)
  ultimately show ?thesis using t(5) by (simp add: joins_def)
qed

lemma joins_keeps:
  assumes "joins fd b d s t" and "dkeeps t u"
  shows "joins fd b d s u"
  using assms by (simp add: joins_def dkeeps_def dunlocked_def)

text \<open>The connection as it is linked in the queue.\<close>

definition accepted_conn :: "int \<Rightarrow> stream_id \<Rightarrow> net_env \<Rightarrow> flb_connection" where
  "accepted_conn fd d e = (flb_connection_setup fd FLB_DOWNSTREAM_CONNECTION d (ne_time e))
     \<lparr>cn_dynamically_allocated := True, cn_busy_flag := True, cn_link := Some (DownBusyQueue d)\<rparr>"

lemma accepted_conn_simps [simp]:
  "cn_link (accepted_conn fd d e) = Some (DownBusyQueue d)" "cn_stream (accepted_conn fd d e) = d"
  "cn_dynamically_allocated (accepted_conn fd d e)" "cn_fd (accepted_conn fd d e) = fd" "cn_busy_flag (accepted_conn fd d e)"
  by (simp_all add: accepted_conn_def flb_connection_setup_def flb_connection_unset_io_timeout_def
      flb_connection_unset_connection_timeout_def)

definition joined :: "int \<Rightarrow> stream_id \<Rightarrow> net_env \<Rightarrow> net_state \<Rightarrow> net_state" where
  "joined fd d e s = s\<lparr>nt_conns := (nt_conns s)(nt_next s \<mapsto> accepted_conn fd d e), nt_next := Suc (nt_next s),
     nt_list := (nt_list s)(DownBusyQueue d := nt_list s (DownBusyQueue d) @ [nt_next s])\<rparr>"

lemma joined_simps [simp]:
  "nt_conns (joined fd d e s) = (nt_conns s)(nt_next s \<mapsto> accepted_conn fd d e)" "nt_next (joined fd d e s) = Suc (nt_next s)"
  "nt_list (joined fd d e s) = (nt_list s)(DownBusyQueue d := nt_list s (DownBusyQueue d) @ [nt_next s])"
  "nt_downstreams (joined fd d e s) = nt_downstreams s" "nt_closed (joined fd d e s) = nt_closed s"
  by (simp_all add: joined_def)

lemma enqueue_joined:
  assumes un: "dunlocked s" and d: "nt_downstreams s d = Some ds"
    and c: "flb_connection_create fd FLB_DOWNSTREAM_CONNECTION d e s = (Some c, s0)"
  shows "c = nt_next s \<and> Option.bind (upd_conn c (\<lambda>cn. cn\<lparr>cn_busy_flag := True\<rparr>) s0) (\<lambda>s. Option.bind (ds_acquire_lock d s)
           (\<lambda>s. Option.bind (mk_list_add c (DownBusyQueue d) s) (ds_release_lock d))) = Some (joined fd d e s)"
proof -
  from c have c': "c = nt_next s" and s0: "s0 = s\<lparr>nt_conns := (nt_conns s)(c \<mapsto> (flb_connection_setup fd FLB_DOWNSTREAM_CONNECTION d
      (ne_time e))\<lparr>cn_dynamically_allocated := True\<rparr>), nt_next := Suc c\<rparr>"
    by (auto simp: flb_connection_create_def Let_def split: if_splits)
  let ?cn = "(flb_connection_setup fd FLB_DOWNSTREAM_CONNECTION d (ne_time e))\<lparr>cn_dynamically_allocated := True, cn_busy_flag := True\<rparr>"
  let ?s = "s\<lparr>nt_next := Suc c, nt_conns := (nt_conns s)(c \<mapsto> ?cn)\<rparr>"
  have "runs (Option.bind (ds_acquire_lock d ?s) (\<lambda>s. Option.bind (mk_list_add c (DownBusyQueue d) s) (ds_release_lock d)))
      (\<lambda>t. t = joined fd d e s)"
  proof (rule locked_runs)
    show "dunlocked ?s" "nt_downstreams ?s d = Some ds" using un d by (simp_all add: dunlocked_def)
    show "runs (mk_list_add c (DownBusyQueue d) (with_streams D ?s))
        (\<lambda>t. nt_downstreams t = D \<and> with_streams (nt_downstreams ?s) t = joined fd d e s)" for D
      by (simp add: mk_list_add_def with_streams_def joined_def accepted_conn_def c' flb_connection_setup_def
          flb_connection_unset_io_timeout_def flb_connection_unset_connection_timeout_def)
  qed
  then show ?thesis using c' by (simp add: s0 upd_conn_def runs_iff)
qed

lemma conn_fields_kept [simp]:
  "cn_link (flb_connection_reset_connection_timeout net now cn) = cn_link cn"
  "cn_fd (flb_connection_reset_connection_timeout net now cn) = cn_fd cn"
  "cn_busy_flag (flb_connection_reset_connection_timeout net now cn) = cn_busy_flag cn"
  "cn_stream (flb_connection_reset_connection_timeout net now cn) = cn_stream cn"
  "cn_dynamically_allocated (flb_connection_reset_connection_timeout net now cn) = cn_dynamically_allocated cn"
  "cn_link (flb_connection_reset_io_timeout net now cn) = cn_link cn"
  "cn_fd (flb_connection_reset_io_timeout net now cn) = cn_fd cn"
  "cn_busy_flag (flb_connection_reset_io_timeout net now cn) = cn_busy_flag cn"
  "cn_stream (flb_connection_reset_io_timeout net now cn) = cn_stream cn"
  "cn_dynamically_allocated (flb_connection_reset_io_timeout net now cn) = cn_dynamically_allocated cn"
  by (simp_all add: flb_connection_reset_connection_timeout_def flb_connection_reset_io_timeout_def split: conn_type.split)

lemma enqueue_runs:
  assumes "dunlocked s" and "nt_downstreams s d = Some ds"
    and "flb_connection_create fd FLB_DOWNSTREAM_CONNECTION d e s = (Some c, s0)" and "Q (joined fd d e s)"
  shows "runs (upd_conn c (\<lambda>cn. cn\<lparr>cn_busy_flag := True\<rparr>) s0) (\<lambda>s. runs (ds_acquire_lock d s)
           (\<lambda>s. runs (mk_list_add c (DownBusyQueue d) s) (\<lambda>s. runs (ds_release_lock d s) Q)))"
  using enqueue_joined [OF assms(1-3), THEN conjunct2] assms(4) unfolding runs_bind [symmetric] by simp

lemma joined_joins:
  assumes "dpool s" and "dunlocked s" and "nt_downstreams s d \<noteq> None"
  shows "joins fd True d s (joined fd d e s)"
  using linked_joins [OF assms(1,3), of "accepted_conn fd d e" "joined fd d e s"] assms(2) by (simp add: dunlocked_def)

text \<open>A datagram connection is ready at once.\<close>

lemma dgram_ready:
  assumes p: "dpool s" and un: "dunlocked s" and d: "nt_downstreams s d = Some ds"
  shows "runs (ds_conn_ready d e (nt_next s) (joined fd d e s)) (joins fd False d s)"
proof -
  let ?x = "flb_connection_reset_io_timeout (st_net (ds_base ds)) (ne_time e) (accepted_conn fd d e\<lparr>cn_busy_flag := False\<rparr>)"
  let ?t = "(joined fd d e s)\<lparr>nt_conns := (nt_conns s)(nt_next s \<mapsto> ?x)\<rparr>"
  let ?D = "(nt_downstreams s)(d \<mapsto> ds\<lparr>ds_dgram_connection := Some (nt_next s)\<rparr>)"
  have "joins (cn_fd ?x) (cn_busy_flag ?x) d s t"
    if "nt_conns t = nt_conns ?t" "nt_list t = nt_list ?t" "nt_next t = nt_next ?t" "nt_closed t = nt_closed ?t"
      "nt_downstreams t = nt_downstreams s \<or> nt_downstreams t = ?D" for t
    using that p un d by (intro linked_joins [OF p]) (auto simp: dunlocked_def split: if_splits)
  then have "joins fd False d s t"
    if "nt_conns t = nt_conns ?t" "nt_list t = nt_list ?t" "nt_next t = nt_next ?t" "nt_closed t = nt_closed ?t"
      "nt_downstreams t = nt_downstreams s \<or> nt_downstreams t = ?D" for t
    using that by simp
  then show ?thesis using d by (simp add: ds_conn_ready_def upd_conn_def upd_downstream_def)
qed

definition accept_post :: "stream_id \<Rightarrow> int \<Rightarrow> net_state \<Rightarrow> accept_result \<Rightarrow> net_state \<Rightarrow> bool" where
  "accept_post d accepted s r t \<longleftrightarrow>
     dpool t \<and> dunlocked t
     \<and> (case r of
          Accepting c \<Rightarrow> c = nt_next s \<and> joins (-1) True d s t \<and> accept_opens d accepted r s = opened accepted
            \<and> (\<exists>cn. nt_conns t c = Some cn \<and> cn_fd cn = -1 \<and> cn_link cn = Some (DownBusyQueue d) \<and> cn_stream cn = d)
        | _ \<Rightarrow> (\<forall>os. balanced os s \<longrightarrow> balanced (os @ accept_opens d accepted r s) t)
            \<and> (tag t = tag s \<or> tag t = (tag s)(nt_next s \<mapsto> (False, d))))"

lemma balanced_shut: "balanced os s \<Longrightarrow> balanced (os @ opened fd) (if fd = -1 then s else flb_socket_close fd s)"
  by (auto simp: balanced_def opened_def flb_socket_close_def open_conns_def)

lemma conn_get_runs_down:
  assumes p: "dpool s" and un: "dunlocked s" and d: "nt_downstreams s d = Some ds" and acc: "accepted \<ge> -1"
  shows "runs (flb_downstream_conn_get d e accepted s) (\<lambda>(r, t). accept_post d accepted s r t)"
proof -
  let ?dgram = "is_dgram (st_transport (ds_base ds))"
  let ?fd = "if ?dgram then ds_server_fd ds else -1"
  consider "ds_paused ds" | "\<not> ds_paused ds" "?dgram" "ds_dgram_connection ds \<noteq> None"
    | "\<not> ds_paused ds" "\<not> (?dgram \<and> ds_dgram_connection ds \<noteq> None)" "\<not> ne_alloc e"
    | "\<not> ds_paused ds" "\<not> (?dgram \<and> ds_dgram_connection ds \<noteq> None)" "ne_alloc e" by blast
  then show ?thesis
  proof cases
    case 1
    have "dpool (flb_socket_close accepted s)" "dunlocked (flb_socket_close accepted s)"
      using p un by (simp_all add: flb_socket_close_def dpool_def linked_ok_def dunlocked_def)
    moreover have "tag (flb_socket_close accepted s) = tag s" by (simp add: flb_socket_close_def tag_def fun_eq_iff)
    ultimately show ?thesis using 1 d p un acc balanced_shut [of _ s accepted]
      by (auto simp: flb_downstream_conn_get_def accept_post_def accept_opens_def opened_def Let_def split: if_splits)
  next
    case 2
    then show ?thesis using d p un by (auto simp: flb_downstream_conn_get_def accept_post_def accept_opens_def)
  next
    case 3
    then show ?thesis using d p un
      by (auto simp: flb_downstream_conn_get_def accept_post_def accept_opens_def flb_connection_create_def)
  next
    case 4
    obtain c s0 where cr: "flb_connection_create ?fd FLB_DOWNSTREAM_CONNECTION d e s = (Some c, s0)"
      using 4(3) by (auto simp: flb_connection_create_def Let_def)
    note c = enqueue_joined [OF un d cr, THEN conjunct1]
    note j = joined_joins [OF p un, of d ?fd e]
    note enq = enqueue_runs [OF un d cr]
    have ng: "\<not> (is_dgram (st_transport (ds_base ds)) \<and> (\<exists>y. ds_dgram_connection ds = Some y))" using 4(2) by auto
    show ?thesis
    proof (cases ?dgram)
      case True
      have "runs (ds_conn_ready d e c (joined ?fd d e s)) (\<lambda>t. accept_post d accepted s (AcceptConn c) t)"
        unfolding c
        by (rule runs_mono [OF dgram_ready [OF p un d]])
          (use True 4(2) d in \<open>auto simp: joins_def accept_post_def accept_opens_def\<close>)
      then show ?thesis using 4(1) ng d cr enq True by (simp add: flb_downstream_conn_get_def Let_def)
    next
      case False
      let ?t = "joined ?fd d e s"
      let ?x = "flb_connection_reset_connection_timeout (st_net (ds_base ds)) (ne_time e) (accepted_conn ?fd d e)"
      have j': "joins ?fd True d s ?t" using j d by simp
      then have "dpool ?t" by (simp add: joins_def)
      then have "dkeeps ?t (?t\<lparr>nt_conns := (nt_conns ?t)(c \<mapsto> ?x)\<rparr>)"
        by (rule dkeeps_conn [of ?t c "accepted_conn ?fd d e"]) (simp_all add: c)
      with j' have "joins ?fd True d s (?t\<lparr>nt_conns := (nt_conns ?t)(c \<mapsto> ?x)\<rparr>)" by (rule joins_keeps)
      then have "accept_post d accepted s (Accepting c) (?t\<lparr>nt_conns := (nt_conns ?t)(c \<mapsto> ?x)\<rparr>)"
        using False d 4(1) by (simp add: accept_post_def accept_opens_def c) (simp add: joins_def)
      then show ?thesis using 4(1) ng d cr enq False c by (simp add: flb_downstream_conn_get_def Let_def upd_conn_def)
    qed
  qed
qed

text \<open>The end of an accept: the connection \<open>c\<close> is not in the handshake any more.\<close>

definition leaves :: "cid \<Rightarrow> stream_id \<Rightarrow> net_state \<Rightarrow> net_state \<Rightarrow> bool" where
  "leaves c d s t \<longleftrightarrow>
     dpool t \<and> dunlocked t \<and> (\<forall>os. balanced os s \<longrightarrow> balanced os t) \<and> tag t = (tag s)(c \<mapsto> (False, d))"

lemma keeps_leaves: "dkeeps s t \<Longrightarrow> leaves c d t u \<Longrightarrow> leaves c d s u"
  by (simp add: leaves_def dkeeps_def)

lemma leaves_keeps: "leaves c d s t \<Longrightarrow> dkeeps t u \<Longrightarrow> leaves c d s u"
  by (simp add: leaves_def dkeeps_def dunlocked_def)

lemma clear_busy_leaves:
  assumes p: "dpool s" and un: "dunlocked s" and c: "nt_conns s c = Some cn"
  shows "leaves c (cn_stream cn) s (s\<lparr>nt_conns := (nt_conns s)(c \<mapsto> cn\<lparr>cn_busy_flag := False\<rparr>)\<rparr>)"
proof -
  let ?x = "cn\<lparr>cn_busy_flag := False\<rparr>"
  let ?t = "s\<lparr>nt_conns := (nt_conns s)(c \<mapsto> ?x)\<rparr>"
  have "dconn_ok (\<lambda>d. nt_downstreams s d \<noteq> None) ?x" using dpoolD(3) [OF p c] by (auto simp: dconn_ok_def)
  then have "dpool ?t" by (intro dpool_conn [OF p c]) auto
  moreover have "balanced os ?t" if "balanced os s" for os
    using that by (rule balanced_cong) (use c in \<open>auto simp: open_conns_def\<close>)
  ultimately show ?thesis using un by (auto simp: leaves_def tag_def dunlocked_def)
qed

text \<open>Remembering the connection of a datagram server does not matter to the invariant.\<close>

lemma leaves_dgram:
  assumes l: "leaves c d s t" and d: "nt_downstreams t d = Some ds"
  shows "leaves c d s (t\<lparr>nt_downstreams := (nt_downstreams t)(d \<mapsto> ds\<lparr>ds_dgram_connection := x\<rparr>)\<rparr>)"
proof -
  let ?D = "(nt_downstreams t)(d \<mapsto> ds\<lparr>ds_dgram_connection := x\<rparr>)"
  have "dpool (with_streams ?D t)" using l d by (subst dpool_streams) (auto simp: leaves_def)
  moreover have "dunlocked (with_streams ?D t)" using l d by (auto simp: leaves_def dunlocked_def with_streams_def)
  moreover have "tag (with_streams ?D t) = tag t" by (simp add: tag_def with_streams_def fun_eq_iff)
  ultimately have "leaves c d s (with_streams ?D t)" using l by (simp add: leaves_def balanced_streams)
  then show ?thesis by (simp add: with_streams_def)
qed

lemma ready_leaves:
  assumes p: "dpool s" and un: "dunlocked s" and c: "nt_conns s c = Some cn" and st: "cn_stream cn = d"
  shows "runs (ds_conn_ready d e c s) (leaves c d s)"
proof -
  obtain ds where ds: "nt_downstreams s d = Some ds" using dpoolD(3) [OF p c] st by (auto simp: dconn_ok_def)
  let ?x = "cn\<lparr>cn_busy_flag := False\<rparr>"
  let ?s = "s\<lparr>nt_conns := (nt_conns s)(c \<mapsto> ?x)\<rparr>"
  let ?y = "flb_connection_reset_io_timeout (st_net (ds_base ds)) (ne_time e) ?x"
  let ?t = "?s\<lparr>nt_conns := (nt_conns ?s)(c \<mapsto> ?y)\<rparr>"
  have l: "leaves c d s ?s" using clear_busy_leaves [OF p un c] st by simp
  then have "dpool ?s" by (simp add: leaves_def)
  then have "dkeeps ?s ?t" by (rule dkeeps_conn [of ?s c ?x]) simp_all
  with l have l: "leaves c d s ?t" by (rule leaves_keeps)
  have "nt_downstreams ?t d = Some ds" using ds by simp
  from leaves_dgram [OF l this] l show ?thesis
    using c ds by (simp add: ds_conn_ready_def upd_conn_def upd_downstream_def)
qed

lemma conn_get_end_runs_down:
  assumes p: "dpool s" and un: "dunlocked s" and c: "nt_conns s c = Some cn" and st: "cn_stream cn = d"
  shows "runs (flb_downstream_conn_get_end d e c result s) (\<lambda>(r, t). leaves c d s t \<and> (r = AcceptNull \<or> r = AcceptConn c))"
proof -
  obtain ds where ds: "nt_downstreams s d = Some ds" using dpoolD(3) [OF p c] st by (auto simp: dconn_ok_def)
  show ?thesis
  proof (cases "result = 0")
    case True
    let ?s = "s\<lparr>nt_conns := (nt_conns s)(c \<mapsto> flb_connection_unset_connection_timeout cn)\<rparr>"
    have k: "dkeeps s ?s" by (rule dkeeps_conn [OF p c]) (simp_all add: flb_connection_unset_connection_timeout_def)
    have "runs (ds_conn_ready d e c ?s) (leaves c d ?s)"
      by (rule ready_leaves [OF dkeepsD(1) [OF k], of c "flb_connection_unset_connection_timeout cn"])
        (use un st in \<open>simp_all add: dunlocked_def flb_connection_unset_connection_timeout_def\<close>)
    then have "runs (ds_conn_ready d e c ?s) (leaves c d s)" by (rule runs_mono) (rule keeps_leaves [OF k])
    then show ?thesis using c ds True by (simp add: flb_downstream_conn_get_end_def upd_conn_def)
  next
    case False
    let ?x = "flb_connection_reset_connection_timeout (st_net (ds_base ds)) (ne_time e) cn"
    let ?s = "s\<lparr>nt_conns := (nt_conns s)(c \<mapsto> ?x)\<rparr>"
    have k: "dkeeps s ?s" by (rule dkeeps_conn [OF p c]) simp_all
    have c': "nt_conns ?s c = Some ?x" by simp
    have "runs (ds_prepare_destroy_conn_safe c ?s) (dkeeps ?s)"
      by (rule prepare_safe_keeps [OF _ dkeepsD(1) [OF k] c']) (use un in \<open>simp add: dunlocked_def\<close>)
    then have "runs (ds_prepare_destroy_conn_safe c ?s)
        (\<lambda>t. runs (upd_conn c (\<lambda>cn. cn\<lparr>cn_busy_flag := False\<rparr>) t) (leaves c d s))"
    proof (rule runs_mono)
      fix t assume k2: "dkeeps ?s t"
      from k2 c' obtain cn' where cn': "nt_conns t c = Some cn'" "cn_stream cn' = cn_stream ?x" by (rule keeps_same_conn)
      have un': "dunlocked t" using un by (simp add: dunlocked_def dkeepsD(5) [OF k2])
      show "runs (upd_conn c (\<lambda>cn. cn\<lparr>cn_busy_flag := False\<rparr>) t) (leaves c d s)"
        using keeps_leaves [OF dkeeps_trans [OF k k2] clear_busy_leaves [OF dkeepsD(1) [OF k2] un' cn'(1)]] cn' st
        by (simp add: upd_conn_def)
    qed
    then show ?thesis using c ds False by (simp add: flb_downstream_conn_get_end_def upd_conn_def)
  qed
qed

section \<open>The invariant of a run\<close>

definition down_inv :: "down_run \<Rightarrow> bool" where
  "down_inv p \<longleftrightarrow>
     dpool (dr_net p) \<and> dunlocked (dr_net p) \<and> balanced (dr_opened p) (dr_net p) \<and> distinct (dr_accepting p)
     \<and> (\<forall>c d. (c, d) \<in> set (dr_accepting p) \<longleftrightarrow> tag (dr_net p) c = Some (True, d))"

lemma down_invD:
  assumes "down_inv p"
  shows "dpool (dr_net p)" and "dunlocked (dr_net p)" and "balanced (dr_opened p) (dr_net p)" and "distinct (dr_accepting p)"
    and "(c, d) \<in> set (dr_accepting p) \<longleftrightarrow> tag (dr_net p) c = Some (True, d)"
  using assms unfolding down_inv_def by blast+

lemma accepting_conn:
  assumes "down_inv p" and "(c, d) \<in> set (dr_accepting p)"
  obtains cn where "nt_conns (dr_net p) c = Some cn" and "cn_stream cn = d" and "cn_busy_flag cn"
  using down_invD(5) [OF assms(1), of c d] assms(2) by (auto simp: tag_def)

lemma keeps_down_inv:
  assumes "down_inv p" and "dkeeps (dr_net p) s"
  shows "down_inv (p\<lparr>dr_net := s\<rparr>)" and "down_inv (p\<lparr>dr_net := s, dr_held := h\<rparr>)"
  using assms by (simp_all add: down_inv_def dkeeps_def dunlocked_def)

lemma keeps_run:
  assumes "down_inv p" and "runs m (dkeeps (dr_net p))"
  shows "runs (Option.bind m (\<lambda>s. Some (p\<lparr>dr_net := s\<rparr>))) down_inv"
  using assms(2) unfolding runs_bind by (rule runs_mono) (simp add: keeps_down_inv [OF assms(1)])

lemma accept_run:
  assumes inv: "down_inv p" and en: "down_enabled (Accept d e accepted) p"
  shows "runs (down_exec (Accept d e accepted) p) down_inv"
proof -
  let ?s = "dr_net p"
  from en obtain ds where ds: "nt_downstreams ?s d = Some ds" and acc: "accepted \<ge> -1" by auto
  have fresh: "tag ?s (nt_next ?s) = None" by (rule tag_fresh [OF down_invD(1) [OF inv]])
  show ?thesis unfolding down_exec.simps runs_bind
  proof (rule runs_mono [OF conn_get_runs_down [OF down_invD(1,2) [OF inv] ds acc]])
    fix x assume "case x of (r, t) \<Rightarrow> accept_post d accepted ?s r t"
    then obtain r t where x: "x = (r, t)" and post: "accept_post d accepted ?s r t" by (cases x) auto
    let ?p = "p\<lparr>dr_opened := dr_opened p @ accept_opens d accepted r ?s\<rparr>"
    have done_: "down_inv (?p\<lparr>dr_net := t\<rparr>)" "down_inv (?p\<lparr>dr_net := t, dr_held := h\<rparr>)" if "\<And>c. r \<noteq> Accepting c" for h
      using post that inv fresh by (auto simp: down_inv_def accept_post_def split: accept_result.splits if_splits)
    show "runs (case x of (r, s) \<Rightarrow> let p' = p\<lparr>dr_opened := dr_opened p @ accept_opens d accepted r (dr_net p)\<rparr> in
        case r of
          AcceptNull \<Rightarrow> Some (p'\<lparr>dr_net := s\<rparr>)
        | AcceptConn c \<Rightarrow> Some (p'\<lparr>dr_net := s, dr_held := List.insert c (dr_held p)\<rparr>)
        | Accepting c \<Rightarrow> Option.bind (flb_io_net_accept c accepted s)
            (\<lambda>(ret, s). Some (p'\<lparr>dr_net := s, dr_accepting := (c, d) # dr_accepting p\<rparr>))) down_inv"
    proof (cases r)
      case (Accepting c)
      from post Accepting obtain cn where c: "c = nt_next ?s" and j: "joins (-1) True d ?s t" and cn: "nt_conns t c = Some cn"
        "cn_fd cn = -1" "cn_link cn = Some (DownBusyQueue d)" "cn_stream cn = d" by (auto simp: accept_post_def)
      let ?x = "cn\<lparr>cn_fd := accepted\<rparr>"
      let ?t = "t\<lparr>nt_conns := (nt_conns t)(c \<mapsto> ?x)\<rparr>"
      have pt: "dpool t" using j by (simp add: joins_def)
      have "dconn_ok (\<lambda>d. nt_downstreams t d \<noteq> None) ?x" using dpoolD(3) [OF pt cn(1)] cn by (auto simp: dconn_ok_def)
      then have p': "dpool ?t" by (intro dpool_conn [OF pt cn(1)]) auto
      have "balanced (dr_opened p) t" using j down_invD(3) [OF inv] by (auto simp: joins_def opened_def)
      then have "balanced (dr_opened p @ opened (cn_fd ?x)) ?t" by (rule balanced_open [OF _ pt]) (use cn in auto)
      moreover have "accept_opens d accepted r ?s = opened accepted" using Accepting post by (auto simp: accept_post_def)
      ultimately have b: "balanced (dr_opened p @ accept_opens d accepted r ?s) ?t" by simp
      have "tag ?t = tag t" using cn(1) by (auto simp: tag_def fun_eq_iff)
      then have tg: "tag ?t = (tag ?s)(c \<mapsto> (True, d))" using j c by (simp add: joins_def)
      have "(c, d') \<notin> set (dr_accepting p)" for d' using down_invD(5) [OF inv, of c] fresh c by auto
      then have "down_inv (?p\<lparr>dr_net := ?t, dr_accepting := (c, d) # dr_accepting p\<rparr>)"
        using inv p' b tg j by (auto simp: down_inv_def joins_def dunlocked_def)
      then show ?thesis using Accepting cn by (simp add: x flb_io_net_accept_def ds_close_fd_def upd_conn_def)
    qed (use done_ x in auto)
  qed
qed

lemma accepted_run:
  assumes inv: "down_inv p" and en: "down_enabled (Accepted c d e result) p"
  shows "runs (down_exec (Accepted c d e result) p) down_inv"
proof -
  let ?s = "dr_net p"
  from en have mem: "(c, d) \<in> set (dr_accepting p)" by simp
  from inv this obtain cn where cn: "nt_conns ?s c = Some cn" "cn_stream cn = d" by (rule accepting_conn)
  show ?thesis unfolding down_exec.simps runs_bind
  proof (rule runs_mono [OF conn_get_end_runs_down [OF down_invD(1,2) [OF inv] cn]])
    fix x assume "case x of (r, t) \<Rightarrow> leaves c d ?s t \<and> (r = AcceptNull \<or> r = AcceptConn c)"
    then obtain r t where x: "x = (r, t)" and l: "leaves c d ?s t" by (cases x) auto
    let ?p = "p\<lparr>dr_net := t, dr_accepting := remove1 (c, d) (dr_accepting p)\<rparr>"
    have "(c, d') \<in> set (dr_accepting p) \<Longrightarrow> d' = d" for d'
      using down_invD(5) [OF inv, of c] mem by auto
    then have "down_inv ?p" "down_inv (?p\<lparr>dr_held := h\<rparr>)" for h
      using l inv down_invD(4) [OF inv] by (auto simp: down_inv_def leaves_def set_remove1_eq distinct_remove1 split: if_splits)
    then show "runs (case x of (r, s) \<Rightarrow> let p = p\<lparr>dr_net := s, dr_accepting := remove1 (c, d) (dr_accepting p)\<rparr> in
        Some (case r of AcceptConn c \<Rightarrow> p\<lparr>dr_held := List.insert c (dr_held p)\<rparr> | _ \<Rightarrow> p)) down_inv"
      by (auto simp: x Let_def split: accept_result.split)
  qed
qed

lemma down_io_run:
  assumes inv: "down_inv p" and en: "down_enabled (DIo c io) p"
  shows "runs (down_exec (DIo c io) p) down_inv"
proof -
  let ?s = "dr_net p"
  from en obtain cn where c: "nt_conns ?s c = Some cn" and fd: "io_fd io = cn_fd cn" by (auto split: option.splits)
  let ?x = "cn\<lparr>cn_fd := io_fd io, cn_net_error := io_net_error io, cn_tls_session := io_tls_session io,
      cn_ev_registered := io_ev_registered io, cn_ev_mask := io_ev_mask io, cn_ev_type := io_ev_type io\<rparr>"
  let ?t = "?s\<lparr>nt_conns := (nt_conns ?s)(c \<mapsto> ?x)\<rparr>"
  have k: "dkeeps ?s ?t" by (rule dkeeps_conn [OF down_invD(1) [OF inv] c]) (use fd in simp_all)
  have "dkeeps ?s (if b then bktq_unlink c ?t else ?t)" for b
    using k dkeeps_trans [OF k dkeeps_events(2) [OF dkeepsD(1) [OF k]]] by (simp add: bktq_unlink_def)
  then have "runs (conn_io c io ?s) (dkeeps ?s)" using c by (simp add: conn_io_def upd_conn_def)
  then show ?thesis unfolding down_exec.simps by (rule keeps_run [OF inv])
qed

lemma down_release_run:
  assumes inv: "down_inv p" and en: "down_enabled (DRelease c) p"
  shows "runs (down_exec (DRelease c) p) down_inv"
proof -
  from en obtain cn where "nt_conns (dr_net p) c = Some cn" by auto
  from prepare_safe_keeps [OF down_invD(2,1) [OF inv] this]
  show ?thesis unfolding down_exec.simps runs_bind flb_downstream_conn_release_def
    by (rule runs_mono) (simp add: keeps_down_inv [OF inv])
qed

lemma down_pending_exec:
  assumes inv: "down_inv p" and en: "down_enabled (DPendingDestroy ds) p"
  shows "runs (down_exec (DPendingDestroy ds) p) (\<lambda>p'. down_inv p'
           \<and> (\<forall>c. nt_conns (dr_net p') c = (if c \<in> doomed_conns (set ds) (dr_net p) then None else nt_conns (dr_net p) c)))"
proof -
  have "runs (flb_downstream_conn_pending_destroy_list ds (dr_net p)) (dfrees (doomed_conns (set ds) (dr_net p)) (dr_net p))"
    by (rule pending_list_frees [OF down_invD(2,1) [OF inv]]) (use en in simp)
  then show ?thesis unfolding down_exec.simps runs_bind
  proof (rule runs_mono)
    fix t assume f: "dfrees (doomed_conns (set ds) (dr_net p)) (dr_net p) t"
    have "tag t c = Some (True, d) \<longleftrightarrow> tag (dr_net p) c = Some (True, d)" for c d
      using dfreesD(3) [OF f, of c] by (auto simp: tag_def doomed_conns_def split: if_splits)
    then have "down_inv (p\<lparr>dr_net := t\<rparr>)" using inv f by (simp add: down_inv_def dfrees_def dunlocked_def)
    then show "runs (Some (p\<lparr>dr_net := t\<rparr>)) (\<lambda>p'. down_inv p'
        \<and> (\<forall>c. nt_conns (dr_net p') c = (if c \<in> doomed_conns (set ds) (dr_net p) then None else nt_conns (dr_net p) c)))"
      using dfreesD(3) [OF f] by simp
  qed
qed

lemma set_paused_inv:
  assumes inv: "down_inv p" and d: "nt_downstreams (dr_net p) d = Some ds"
  shows "down_inv (p\<lparr>dr_net := (dr_net p)\<lparr>nt_downstreams := (nt_downstreams (dr_net p))(d \<mapsto> ds\<lparr>ds_paused := b\<rparr>)\<rparr>\<rparr>)"
proof -
  let ?D = "(nt_downstreams (dr_net p))(d \<mapsto> ds\<lparr>ds_paused := b\<rparr>)"
  have "dpool (with_streams ?D (dr_net p))" using down_invD(1) [OF inv] d by (subst dpool_streams) auto
  moreover have "dunlocked (with_streams ?D (dr_net p))"
    using down_invD(2) [OF inv] d by (auto simp: dunlocked_def with_streams_def)
  moreover have "tag (with_streams ?D (dr_net p)) = tag (dr_net p)" by (simp add: tag_def with_streams_def fun_eq_iff)
  ultimately have "down_inv (p\<lparr>dr_net := with_streams ?D (dr_net p)\<rparr>)" using inv by (simp add: down_inv_def balanced_streams)
  then show ?thesis by (simp add: with_streams_def)
qed

lemma down_init_inv:
  assumes "down_init p"
  shows "down_inv p"
  using assms by (auto simp: down_init_def down_inv_def dpool_def linked_ok_def dunlocked_def balanced_def open_conns_def tag_def)

interpretation down: machine down_init down_enabled down_exec down_inv
proof
  show "down_inv p" if "down_init p" for p using that by (rule down_init_inv)
  show "runs (down_exec a p) down_inv" if inv: "down_inv p" and en: "down_enabled a p" for p a
  proof (cases a)
    case (DTimeouts ds e)
    have "runs (flb_downstream_conn_timeouts e ds (dr_net p)) (dkeeps (dr_net p))"
      by (rule all_timeouts_keeps [OF down_invD(2,1) [OF inv]]) (use DTimeouts en in simp)
    then show ?thesis unfolding DTimeouts down_exec.simps by (rule keeps_run [OF inv])
  next
    case (DPendingDestroy ds)
    show ?thesis using down_pending_exec [OF inv, of ds] en unfolding DPendingDestroy by (auto intro: runs_mono)
  next
    case (Pause d)
    show ?thesis using en inv set_paused_inv [OF inv]
      by (cases d) (auto simp: Pause flb_downstream_pause_def upd_downstream_def)
  next
    case (Resume d)
    show ?thesis using en inv set_paused_inv [OF inv]
      by (cases d) (auto simp: Resume flb_downstream_resume_def upd_downstream_def)
  qed (use that accept_run accepted_run down_io_run down_release_run in \<open>simp_all only:\<close>)
qed

section \<open>Shutting a server down\<close>

lemma each_prepare_drops:
  assumes "dpool s" and "\<forall>c \<in> set cs. nt_conns s c \<noteq> None"
  shows "runs (each_conn ds_prepare_destroy_conn cs s) (\<lambda>t. dkeeps s t \<and> (\<forall>c \<in> set cs. dropped t c))"
  using assms
proof (induction cs arbitrary: s)
  case Nil
  then show ?case by (simp add: dkeeps_refl)
next
  case (Cons c cs)
  then obtain cn where "nt_conns s c = Some cn" by auto
  from prepare_drops [OF Cons.prems(1) this] show ?case unfolding each_conn.simps runs_bind
  proof (rule runs_mono, elim conjE)
    fix t assume k: "dkeeps s t" and d: "dropped t c"
    have "runs (each_conn ds_prepare_destroy_conn cs t) (\<lambda>u. dkeeps t u \<and> (\<forall>c \<in> set cs. dropped u c))"
      by (rule Cons.IH) (use Cons.prems(2) dkeepsD(1,6) [OF k] in auto)
    then show "runs (each_conn ds_prepare_destroy_conn cs t) (\<lambda>u. dkeeps s u \<and> (\<forall>c \<in> set (c # cs). dropped u c))"
      by (rule runs_mono) (use dkeeps_trans [OF k] d dkeepsD(7) in auto)
  qed
qed

lemma dropped_doomed:
  assumes p: "dpool s" and k: "dkeeps s t" and dr: "\<forall>c \<in> set (nt_list s (DownBusyQueue d)). dropped t c"
  shows "c \<in> doomed_conns {d} t \<longleftrightarrow> tag s c = Some (False, d)"
proof
  assume "c \<in> doomed_conns {d} t"
  then obtain cn where cn: "nt_conns t c = Some cn" "\<not> cn_busy_flag cn" "cn_link cn = Some (DownDestroyQueue d)"
    by (auto simp: doomed_conns_def)
  then have "tag t c = Some (False, d)" using dpoolD(3) [OF dkeepsD(1) [OF k] cn(1)] by (auto simp: tag_def dconn_ok_def)
  then show "tag s c = Some (False, d)" using dkeepsD(3) [OF k] by simp
next
  assume tg: "tag s c = Some (False, d)"
  then obtain cn where cn: "nt_conns s c = Some cn" "cn_stream cn = d" by (auto simp: tag_def)
  then have "c \<in> set (nt_list s (DownBusyQueue d)) \<or> dropped s c"
    using dpoolD(3) [OF p cn(1)] linked_okD(1) [OF dpoolD(1) [OF p], of c] by (auto simp: dconn_ok_def dropped_def)
  then have "dropped t c" using dr dkeepsD(7) [OF k] by blast
  then show "c \<in> doomed_conns {d} t" using tg fun_cong [OF dkeepsD(3) [OF k], of c]
    by (auto simp: doomed_conns_def dropped_def tag_def)
qed

lemma free_stream_runs:
  "nt_downstreams s d \<noteq> None \<Longrightarrow> runs (ds_free_stream d s) (\<lambda>t. nt_downstreams t d = None \<and> tag t = tag s)"
  by (auto simp: ds_free_stream_def Let_def flb_socket_close_def tag_def fun_eq_iff)

text \<open>With no handshake under way, destroying a server frees all of its connections and no other.\<close>

lemma downstream_destroy_runs:
  assumes inv: "down_inv p" and d: "nt_downstreams (dr_net p) d \<noteq> None" and na: "d \<notin> snd ` set (dr_accepting p)"
  shows "runs (flb_downstream_destroy (Some d) (dr_net p)) (\<lambda>s. nt_downstreams s d = None
           \<and> (\<forall>c. tag s c = (case tag (dr_net p) c of Some (b, x) \<Rightarrow> if x = d then None else Some (b, x) | None \<Rightarrow> None)))"
proof -
  let ?s = "dr_net p"
  note ps = down_invD(1) [OF inv]
  have idle_d: "\<not> b" if "tag ?s c = Some (b, d)" for b c using that na down_invD(5) [OF inv, of c d] by (cases b) force+
  show ?thesis unfolding flb_downstream_destroy_def option.case runs_bind
  proof (rule runs_mono [OF each_prepare_drops [OF ps queue_stored [OF dpoolD(1) [OF ps]]]], elim conjE)
    fix t assume k: "dkeeps ?s t" and dr: "\<forall>c \<in> set (nt_list ?s (DownBusyQueue d)). dropped t c"
    note pt = dkeepsD(1) [OF k]
    have "runs (each_conn ds_destroy_conn (nt_list t (DownDestroyQueue d)) t) (dfrees (doomed_conns {d} t) t)"
      using each_destroy_frees [OF pt linked_okD(2) [OF dpoolD(1) [OF pt]] destroy_queue_closed(1) [OF pt], of d]
      unfolding destroy_queue_closed(2) [OF pt] .
    then show "runs (each_conn ds_destroy_conn (nt_list t (DownDestroyQueue d)) t) (\<lambda>s. runs (ds_free_stream d s)
        (\<lambda>s. nt_downstreams s d = None
           \<and> (\<forall>c. tag s c = (case tag ?s c of Some (b, x) \<Rightarrow> if x = d then None else Some (b, x) | None \<Rightarrow> None))))"
    proof (rule runs_mono)
      fix u assume f: "dfrees (doomed_conns {d} t) t u"
      have "tag u c = (case tag ?s c of Some (b, x) \<Rightarrow> if x = d then None else Some (b, x) | None \<Rightarrow> None)" for c
        using dfreesD(3) [OF f, of c] dropped_doomed [OF ps k dr, of c] fun_cong [OF dkeepsD(3) [OF k], of c] idle_d [of c]
        by (cases "tag ?s c") (auto simp: tag_def split: if_splits)
      moreover have "nt_downstreams u d \<noteq> None" using d dkeepsD(5) [OF k] dfreesD(4) [OF f] by simp
      ultimately show "runs (ds_free_stream d u) (\<lambda>s. nt_downstreams s d = None
           \<and> (\<forall>c. tag s c = (case tag ?s c of Some (b, x) \<Rightarrow> if x = d then None else Some (b, x) | None \<Rightarrow> None)))"
        by (intro runs_mono [OF free_stream_runs]) auto
    qed
  qed
qed

section \<open>A sample server\<close>

definition sample_server :: flb_downstream where
  "sample_server = \<lparr>ds_base = \<lparr>st_thread_safety_flag = True, st_transport = TRANSPORT_TCP, st_flags = 8,
       st_list_mutex = False, st_net = sample_net\<rparr>,
     ds_server_fd = 3, ds_paused = False, ds_dgram_connection = None\<rparr>"

definition server_start :: "flb_downstream \<Rightarrow> down_run" where
  "server_start ds = \<lparr>dr_net = sample_state\<lparr>nt_downstreams := (\<lambda>_. None)(0 := Some ds)\<rparr>, dr_accepting = [], dr_held = [], dr_opened = []\<rparr>"

text \<open>Two clients: the first is idle until its timeout and is freed, the second is in the handshake.\<close>

definition server_ops :: "down_op list" where
  "server_ops = [Accept 0 (sample_env 100) 7, Accepted 0 0 (sample_env 101) 0, Accept 0 (sample_env 200) 8,
     DTimeouts [0] (sample_env 200), DPendingDestroy [0]]"

definition server_run :: down_run where
  "server_run = the (steps down_enabled down_exec server_ops (server_start sample_server))"

lemma server_run_reachable: "down_reachable server_run"
proof -
  have "steps down_enabled down_exec server_ops (server_start sample_server) \<noteq> None" by code_simp
  then obtain p where p: "steps down_enabled down_exec server_ops (server_start sample_server) = Some p" by blast
  have "down_init (server_start sample_server)"
    by (auto simp: down_init_def server_start_def sample_state_def sample_server_def)
  from reach_steps [OF reach_init [where init = down_init, OF this] p] show ?thesis by (simp add: server_run_def p)
qed

section \<open>Properties of the server\<close>

text \<open>
  C19: In every state that a server reaches, with accepts, timeouts, releases by the plugin and the freeing of connections
  interleaved in any way, every operation on a connection that is allocated returns, and a connection whose coroutine is in the
  handshake is never freed, even after it was dropped by a timeout.
\<close>

theorem downstream_never_undefined:
  assumes "down_reachable p" and "down_enabled a p"
  shows "\<exists>p'. down_exec a p = Some p' \<and> down_reachable p'
           \<and> (\<forall>(c, d) \<in> set (dr_accepting p'). \<exists>cn. nt_conns (dr_net p') c = Some cn \<and> cn_busy_flag cn \<and> cn_stream cn = d)"
proof -
  obtain p' where p': "down_exec a p = Some p'" "down_reachable p'" using down.reach_runs [OF assms] by blast
  have "\<exists>cn. nt_conns (dr_net p') c = Some cn \<and> cn_busy_flag cn \<and> cn_stream cn = d" if "(c, d) \<in> set (dr_accepting p')" for c d
    by (rule accepting_conn [OF down.reach_inv [OF p'(2)] that]) blast
  then show ?thesis using p' by blast
qed

lemma downstream_never_undefined_witness:
  "\<exists>p'. down_exec (Accepted 1 0 (sample_env 201) (-1)) server_run = Some p' \<and> down_reachable p'"
proof -
  have "down_enabled (Accepted 1 0 (sample_env 201) (-1)) server_run" by code_simp
  from downstream_never_undefined [OF server_run_reachable this] show ?thesis by blast
qed

text \<open>
  C20: Every socket that a server accepted was closed as often as it was accepted, but for the connections that have it now; these are
  in the busy queue: no socket is leaked, none is closed twice, and a connection in the destroy queue has none.
\<close>

theorem downstream_sockets_accounted:
  assumes "down_reachable p" and "fd \<noteq> -1"
  shows "count_list (dr_opened p) fd = count_list (nt_closed (dr_net p)) fd
           + card {c. \<exists>cn. nt_conns (dr_net p) c = Some cn \<and> cn_fd cn = fd}
    \<and> (\<forall>c cn. nt_conns (dr_net p) c = Some cn \<and> cn_fd cn = fd \<longrightarrow> c \<in> set (nt_list (dr_net p) (DownBusyQueue (cn_stream cn))))"
proof -
  from assms(1) have inv: "down_inv p" by (rule down.reach_inv)
  have "c \<in> set (nt_list (dr_net p) (DownBusyQueue (cn_stream cn)))" if "nt_conns (dr_net p) c = Some cn" "cn_fd cn = fd" for c cn
    using dpoolD(3) [OF down_invD(1) [OF inv] that(1)] that assms(2) linked_okD(1) [OF dpoolD(1) [OF down_invD(1) [OF inv]]]
    by (auto simp: dconn_ok_def)
  then show ?thesis using down_invD(3) [OF inv] assms(2) by (auto simp: balanced_def open_conns_def)
qed

lemma downstream_sockets_accounted_witness:
  "count_list (dr_opened server_run) 7 = 1 \<and> count_list (nt_closed (dr_net server_run)) 7 = 1
   \<and> card {c. \<exists>cn. nt_conns (dr_net server_run) c = Some cn \<and> cn_fd cn = 7} = 0"
proof -
  have "count_list (dr_opened server_run) 7 = 1" "count_list (nt_closed (dr_net server_run)) 7 = 1" by code_simp+
  with downstream_sockets_accounted [OF server_run_reachable, of 7] show ?thesis by simp
qed

text \<open>Freeing what is pending frees exactly the connections that were dropped and are not in the handshake.\<close>

lemma downstream_pending_exact:
  assumes "down_reachable p" and "down_enabled (DPendingDestroy ds) p" and "down_exec (DPendingDestroy ds) p = Some p'"
  shows "nt_conns (dr_net p') c =
    (if c \<notin> fst ` set (dr_accepting p) \<and> (\<exists>d \<in> set ds. c \<in> set (nt_list (dr_net p) (DownDestroyQueue d)))
     then None else nt_conns (dr_net p) c)"
proof -
  from assms(1) have inv: "down_inv p" by (rule down.reach_inv)
  have "c \<in> fst ` set (dr_accepting p) \<longleftrightarrow> (\<exists>d. tag (dr_net p) c = Some (True, d))"
    using down_invD(5) [OF inv, of c] by force
  then have "c \<in> doomed_conns (set ds) (dr_net p) \<longleftrightarrow>
      c \<notin> fst ` set (dr_accepting p) \<and> (\<exists>d \<in> set ds. c \<in> set (nt_list (dr_net p) (DownDestroyQueue d)))"
    by (auto simp: doomed_conns_def tag_def linked_okD(1) [OF dpoolD(1) [OF down_invD(1) [OF inv]]])
  then show ?thesis using down_pending_exec [OF inv assms(2)] unfolding assms(3) runs_Some by simp
qed

text \<open>With no handshake under way, destroying a server frees all of its connections and leaves those of other servers.\<close>

theorem downstream_destroy_complete:
  assumes "down_reachable p" and "nt_downstreams (dr_net p) d \<noteq> None" and "d \<notin> snd ` set (dr_accepting p)"
  shows "\<exists>s. flb_downstream_destroy (Some d) (dr_net p) = Some s \<and> nt_downstreams s d = None
           \<and> (\<forall>c. nt_conns s c = None \<longleftrightarrow> (case nt_conns (dr_net p) c of None \<Rightarrow> True | Some cn \<Rightarrow> cn_stream cn = d))"
proof -
  from downstream_destroy_runs [OF down.reach_inv [OF assms(1)] assms(2,3)]
  obtain s where s: "flb_downstream_destroy (Some d) (dr_net p) = Some s" "nt_downstreams s d = None"
    and tg: "\<And>c. tag s c = (case tag (dr_net p) c of Some (b, x) \<Rightarrow> if x = d then None else Some (b, x) | None \<Rightarrow> None)"
    unfolding runs_iff by blast
  have "nt_conns s c = None \<longleftrightarrow> tag s c = None" for c by (simp add: tag_def)
  then have "nt_conns s c = None \<longleftrightarrow> (case nt_conns (dr_net p) c of None \<Rightarrow> True | Some cn \<Rightarrow> cn_stream cn = d)" for c
    unfolding tg by (cases "nt_conns (dr_net p) c") (simp_all add: tag_def)
  then show ?thesis using s by blast
qed

text \<open>Creating a server either gives a stream that listens, or leaves no stream and no socket behind.\<close>

lemma downstream_create_outcome:
  assumes "nt_downstreams s d = None" and "nt_list s (DownBusyQueue d) = []" and "nt_list s (DownDestroyQueue d) = []"
    and "host_ok"
  shows "\<exists>r s'. flb_downstream_create alloc d transport flags net host_ok server_fd s = Some (r, s')
     \<and> nt_closed s' = nt_closed s \<and> nt_conns s' = nt_conns s
     \<and> (if alloc \<and> transport \<noteq> TRANSPORT_UNSET \<and> server_fd \<noteq> -1
        then r = Some d \<and> (\<exists>ds. nt_downstreams s' d = Some ds \<and> ds_server_fd ds = server_fd \<and> \<not> st_list_mutex (ds_base ds))
        else r = None \<and> nt_downstreams s' = nt_downstreams s)"
  using assms by (auto simp: flb_downstream_create_def flb_downstream_setup_def flb_downstream_destroy_def ds_free_stream_def Let_def)

section \<open>What a plugin can lose\<close>

text \<open>
  A connection whose event is registered times out. Its event is injected, and freeing does not look whether the event is still
  queued: when the loop ends before it is dispatched, the queue has the event of a freed connection.
\<close>

definition server_io :: conn_io where
  "server_io = \<lparr>io_fd = 7, io_net_error = -1, io_tls_session = NoTls, io_ev_registered = True, io_ev_mask = 1,
     io_ev_type = EV_CUSTOM, io_unlink = False\<rparr>"

definition served :: "down_run option" where
  "served = steps down_enabled down_exec [Accept 0 (sample_env 100) 7, Accepted 0 0 (sample_env 101) 0, DIo 0 server_io]
     (server_start sample_server)"

lemma downstream_frees_queued_event:
  "do { p \<leftarrow> served;
        p \<leftarrow> steps down_enabled down_exec [DTimeouts [0] (sample_env 200)] p;
        s \<leftarrow> load_injected_events (nt_events (dr_net p)) (dr_net p);
        s \<leftarrow> flb_downstream_conn_pending_destroy_list [0] s;
        Some (nt_bktq s, nt_conns s 0 = None, dispatch_event 0 s = None)}
   = Some ([0], True, True)"
  by code_simp

text \<open>
  When the event of the connection was reported in the same turn, dropping the connection takes it out of the queue and it is
  not injected again: the plugin that has the connection never learns that it is freed.
\<close>

lemma downstream_drop_unnoticed:
  "do { p \<leftarrow> served;
        s \<leftarrow> wait_and_load [0] (dr_net p);
        p' \<leftarrow> steps down_enabled down_exec [DTimeouts [0] (sample_env 200)] (p\<lparr>dr_net := s\<rparr>);
        s' \<leftarrow> load_injected_events (drop 1 (nt_events (dr_net p'))) (dr_net p');
        s' \<leftarrow> flb_downstream_conn_pending_destroy_list [0] s';
        Some (nt_bktq s, nt_bktq s', nt_conns s' 0 = None, dr_held p')}
   = Some ([0], [], True, [0])"
  by code_simp

text \<open>Only UDP is exempt from timeouts: the connection of a Unix datagram server is freed and handed out again.\<close>

lemma unix_dgram_connection_dangles:
  "do { p \<leftarrow> steps down_enabled down_exec [Accept 0 (sample_env 100) (-1), DTimeouts [0] (sample_env 200), DPendingDestroy [0]]
          (server_start (sample_server\<lparr>ds_base := (ds_base sample_server)\<lparr>st_transport := TRANSPORT_UNIX_DGRAM\<rparr>\<rparr>));
        (r, s) \<leftarrow> flb_downstream_conn_get 0 (sample_env 201) (-1) (dr_net p);
        Some (r, nt_conns s 0 = None)}
   = Some (AcceptConn 0, True)"
  by code_simp

end
