(* ===== verification/Ring_Buffer.thy ===== *)
theory Ring_Buffer
  imports Connection
begin

text \<open>
  The ring buffer between the thread of an input and the engine: \<^verbatim>\<open>src/src/flb_ring_buffer.c\<close> over
  \<^verbatim>\<open>src/lib/lwrb/lwrb/src/lwrb/lwrb.c\<close>. The thread writes pointers and the engine reads them, with no lock: each side
  moves one index. The operations are given twice, as functions and as the steps a thread takes between
  two accesses to shared memory; every interleaving of the steps is a FIFO queue of pointers.
\<close>

section \<open>Bytes of a pointer\<close>

definition digits :: "nat \<Rightarrow> nat \<Rightarrow> nat list" where
  "digits n m = map (\<lambda>k. m div 256 ^ k mod 256) [0..<n]"

definition ptr_size :: nat where "ptr_size = 8"

definition ptr_bytes :: "u64 \<Rightarrow> u8 list" where
  "ptr_bytes p = map (\<lambda>k. ucast (drop_bit (8 * k) p)) [0..<ptr_size]"

definition bytes_ptr :: "u8 list \<Rightarrow> u64" where
  "bytes_ptr bs = foldr (\<lambda>b p. ucast b + 256 * p) bs 0"

lemma ptr_bytes_digits: "ptr_bytes p = map of_nat (digits ptr_size (unat p))"
proof -
  have "(ucast (drop_bit (8 * k) p) :: u8) = of_nat (unat p div 256 ^ k mod 256)" for k
  proof -
    have "unat (drop_bit (8 * k) p) = unat p div 256 ^ k"
      unfolding unat_drop_bit_eq by (simp add: drop_bit_eq_div power_mult)
    then have "unat (ucast (drop_bit (8 * k) p) :: u8) = unat p div 256 ^ k mod 256"
      by (simp add: unsigned_ucast_eq take_bit_eq_mod)
    then show ?thesis by (metis of_nat_unat ucast_id)
  qed
  then show ?thesis by (simp add: ptr_bytes_def digits_def)
qed

lemma bytes_ptr_horner: "bytes_ptr bs = of_nat (horner_sum unat 256 bs)"
  unfolding bytes_ptr_def by (induction bs) simp_all

lemma digits_Suc: "digits (Suc n) m = m mod 256 # digits n (m div 256)"
proof -
  have "map (\<lambda>k. m div 256 ^ k mod 256) [Suc 0..<Suc n] = map (\<lambda>k. m div 256 div 256 ^ k mod 256) [0..<n]"
    unfolding map_Suc_upt [symmetric] by (simp add: o_def div_mult2_eq)
  then show ?thesis by (simp add: digits_def upt_conv_Cons del: upt_Suc)
qed

lemma horner_digits: "horner_sum unat 256 (map (of_nat :: nat \<Rightarrow> u8) (digits n m)) = m mod 256 ^ n"
proof (induction n arbitrary: m)
  case 0
  then show ?case by (simp add: digits_def)
next
  case (Suc n)
  have "unat (of_nat (m mod 256) :: u8) = m mod 256" by (simp add: unat_of_nat)
  then show ?case using Suc [of "m div 256"] by (simp add: digits_Suc mod_mult2_eq)
qed

lemma length_ptr_bytes [simp]: "length (ptr_bytes p) = ptr_size"
  by (simp add: ptr_bytes_def)

lemma ptr_bytes_not_Nil [simp]: "ptr_bytes p \<noteq> []"
  using length_ptr_bytes [of p] by (metis list.size(3) ptr_size_def zero_neq_numeral)

lemma bytes_ptr_bytes [simp]: "bytes_ptr (ptr_bytes p) = p"
proof -
  have "unat p < 256 ^ ptr_size" using unsigned_less [of p] by (simp add: ptr_size_def)
  then show ?thesis by (simp add: bytes_ptr_horner ptr_bytes_digits horner_digits)
qed

section \<open>The buffer of bytes\<close>

record lwrb =
  lw_buff :: "u8 list"
  lw_size :: nat
  lw_r :: nat
  lw_w :: nat

definition BUF_IS_VALID :: "lwrb \<Rightarrow> bool" where
  "BUF_IS_VALID b \<longleftrightarrow> lw_size b > 0"

text \<open>\<open>None\<close> when the function returns 0; the memory that is given is zeroed.\<close>

definition lwrb_init :: "nat \<Rightarrow> lwrb option" where
  "lwrb_init sz = (if sz = 0 then None else Some \<lparr>lw_buff = replicate sz 0, lw_size = sz, lw_r = 0, lw_w = 0\<rparr>)"

definition lwrb_get_free :: "lwrb \<Rightarrow> nat" where
  "lwrb_get_free b =
     (if \<not> BUF_IS_VALID b then 0
      else (if lw_w b = lw_r b then lw_size b
            else if lw_r b > lw_w b then lw_r b - lw_w b
            else lw_size b - (lw_w b - lw_r b)) - 1)"

definition lwrb_get_full :: "lwrb \<Rightarrow> nat" where
  "lwrb_get_full b =
     (if \<not> BUF_IS_VALID b then 0
      else if lw_w b = lw_r b then 0
      else if lw_w b > lw_r b then lw_w b - lw_r b
      else lw_size b - (lw_r b - lw_w b))"

definition memcpy_at :: "nat \<Rightarrow> 'a list \<Rightarrow> 'a list \<Rightarrow> 'a list" where
  "memcpy_at i xs m = take i m @ xs @ drop (i + length xs) m"

text \<open>
  The parts of \<open>lwrb_write\<close> after its checks, for \<open>btw\<close> bytes: the linear part of the buffer, the beginning of the buffer, and
  the new index.
\<close>

definition write_linear :: "u8 list \<Rightarrow> nat \<Rightarrow> lwrb \<Rightarrow> lwrb \<times> nat \<times> nat" where
  "write_linear d btw b =
     (let tocopy = min (lw_size b - lw_w b) btw in
      (b\<lparr>lw_buff := memcpy_at (lw_w b) (take tocopy d) (lw_buff b)\<rparr>, lw_w b + tocopy, btw - tocopy))"

definition write_wrap :: "u8 list \<Rightarrow> nat \<Rightarrow> nat \<Rightarrow> lwrb \<Rightarrow> lwrb \<times> nat" where
  "write_wrap d w btw b =
     (if btw > 0 then (b\<lparr>lw_buff := memcpy_at 0 (take btw (drop (w - lw_w b) d)) (lw_buff b)\<rparr>, btw) else (b, w))"

definition write_commit :: "nat \<Rightarrow> lwrb \<Rightarrow> lwrb" where
  "write_commit w b = b\<lparr>lw_w := if w \<ge> lw_size b then 0 else w\<rparr>"

definition lwrb_write :: "u8 list \<Rightarrow> lwrb \<Rightarrow> nat \<times> lwrb" where
  "lwrb_write d b =
     (if \<not> BUF_IS_VALID b \<or> d = [] then (0, b)
      else
        let btw = min (lwrb_get_free b) (length d) in
        if btw = 0 then (0, b)
        else case write_linear d btw b of
               (b, w, rest) \<Rightarrow> case write_wrap d w rest b of
                 (b, w) \<Rightarrow> (btw, write_commit w b))"

definition read_linear :: "nat \<Rightarrow> lwrb \<Rightarrow> u8 list \<times> nat \<times> nat" where
  "read_linear btr b =
     (let tocopy = min (lw_size b - lw_r b) btr in (take tocopy (drop (lw_r b) (lw_buff b)), lw_r b + tocopy, btr - tocopy))"

definition read_wrap :: "u8 list \<Rightarrow> nat \<Rightarrow> nat \<Rightarrow> lwrb \<Rightarrow> u8 list \<times> nat" where
  "read_wrap d r btr b = (if btr > 0 then (d @ take btr (lw_buff b), btr) else (d, r))"

definition read_commit :: "nat \<Rightarrow> lwrb \<Rightarrow> lwrb" where
  "read_commit r b = b\<lparr>lw_r := if r \<ge> lw_size b then 0 else r\<rparr>"

definition lwrb_read :: "nat \<Rightarrow> lwrb \<Rightarrow> nat \<times> u8 list \<times> lwrb" where
  "lwrb_read btr b =
     (if \<not> BUF_IS_VALID b \<or> btr = 0 then (0, [], b)
      else
        let btr = min (lwrb_get_full b) btr in
        if btr = 0 then (0, [], b)
        else case read_linear btr b of
               (d, r, rest) \<Rightarrow> case read_wrap d r rest b of
                 (d, r) \<Rightarrow> (btr, d, read_commit r b))"

section \<open>The ring buffer of an input\<close>

text \<open>
  \<open>rb_signals\<close> counts the bytes in the signal channel, which exists once the buffer is registered with the event loop.
\<close>

record flb_ring_buffer =
  rb_ctx :: lwrb
  rb_event_loop :: bool
  rb_flush_pending :: bool
  rb_signals :: nat
  rb_data_window :: nat
  rb_data_size :: nat

definition flb_ring_buffer_create :: "bool \<Rightarrow> nat \<Rightarrow> flb_ring_buffer option" where
  "flb_ring_buffer_create alloc sz =
     (if \<not> alloc then None
      else Option.bind (lwrb_init (unat (1 + of_nat sz :: u64))) (\<lambda>lwrb.
        Some \<lparr>rb_ctx = lwrb, rb_event_loop = False, rb_flush_pending = False, rb_signals = 0, rb_data_window = 0, rb_data_size = sz\<rparr>))"

text \<open>\<open>pipe\<close>, \<open>alloc\<close> and \<open>added\<close> are the outcomes of the creation of the channel, the allocation and the registration of the event.\<close>

definition flb_ring_buffer_add_event_loop :: "bool \<Rightarrow> bool \<Rightarrow> bool \<Rightarrow> nat \<Rightarrow> flb_ring_buffer \<Rightarrow> int \<times> flb_ring_buffer" where
  "flb_ring_buffer_add_event_loop pipe alloc added window_size rb =
     (if window_size = 0 then (-1, rb)
      else
        let window_size = (if window_size > 100 then 100 else window_size);
            rb = rb\<lparr>rb_data_window := unat ((of_nat (rb_data_size rb) * of_nat window_size :: u64) div 100)\<rparr> in
        if \<not> pipe then (-2, rb)
        else if \<not> alloc then (-2, rb)
        else if \<not> added then (-3, rb)
        else (0, rb\<lparr>rb_event_loop := True, rb_signals := 0\<rparr>))"

definition flb_ring_buffer_remove_event_loop :: "flb_ring_buffer \<Rightarrow> flb_ring_buffer" where
  "flb_ring_buffer_remove_event_loop rb =
     (if rb_event_loop rb then rb\<lparr>rb_signals := 0, rb_data_window := 0, rb_event_loop := False\<rparr> else rb)"

text \<open>Whether the occupancy asks for a flush; \<open>av\<close> is the free space before \<open>sz\<close> bytes were written.\<close>

definition window_reached :: "nat \<Rightarrow> nat \<Rightarrow> flb_ring_buffer \<Rightarrow> bool" where
  "window_reached av sz rb \<longleftrightarrow> rb_data_size rb - (av - sz) \<ge> rb_data_window rb"

definition flb_ring_buffer_write :: "u64 \<Rightarrow> flb_ring_buffer \<Rightarrow> int \<times> flb_ring_buffer" where
  "flb_ring_buffer_write p rb =
     (let av = lwrb_get_free (rb_ctx rb) in
      if av < ptr_size then (-1, rb)
      else case lwrb_write (ptr_bytes p) (rb_ctx rb) of
             (ret, b) \<Rightarrow>
               if ret = 0 then (-1, rb)
               else
                 let rb = rb\<lparr>rb_ctx := b\<rparr> in
                 if \<not> rb_flush_pending rb \<and> window_reached av ptr_size rb
                 then (0, rb\<lparr>rb_flush_pending := True, rb_signals := rb_signals rb + 1\<rparr>)
                 else (0, rb))"

definition flb_ring_buffer_read :: "flb_ring_buffer \<Rightarrow> u64 option \<times> flb_ring_buffer" where
  "flb_ring_buffer_read rb =
     (case lwrb_read ptr_size (rb_ctx rb) of
        (ret, d, b) \<Rightarrow> if ret = 0 then (None, rb) else (Some (bytes_ptr d), rb\<lparr>rb_ctx := b\<rparr>))"

section \<open>Indices that wrap around\<close>

definition slice :: "'a list \<Rightarrow> nat \<Rightarrow> nat \<Rightarrow> 'a list" where
  "slice m i n = map (\<lambda>k. m ! ((i + k) mod length m)) [0..<n]"

lemma length_slice [simp]: "length (slice m i n) = n"
  by (simp add: slice_def)

lemma slice_0 [simp]: "slice m i 0 = []"
  by (simp add: slice_def)

lemma slice_add: "slice m i (a + b) = slice m i a @ slice m (i + a) b"
proof -
  have "map (\<lambda>k. k + a) [0..<b] = [a..<a + b]" using map_add_upt [of a b] by (simp only: add.commute [of b a])
  then have "[0..<a + b] = [0..<a] @ map (\<lambda>k. k + a) [0..<b]" by (simp only: upt_add_eq_append [OF le0])
  then show ?thesis by (simp add: slice_def o_def ac_simps)
qed

lemma slice_mod [simp]: "slice m (i mod length m) n = slice m i n"
  by (simp add: slice_def mod_add_left_eq)

lemma slice_take: "n \<le> k \<Longrightarrow> slice m i n = take n (slice m i k)"
  by (simp add: slice_def take_map)

lemma slice_linear:
  assumes "i + n \<le> length m"
  shows "slice m i n = take n (drop i m)"
  using assms by (intro nth_equalityI) (auto simp: slice_def)

lemma length_memcpy [simp]: "i + length xs \<le> length m \<Longrightarrow> length (memcpy_at i xs m) = length m"
  by (simp add: memcpy_at_def)

lemma nth_memcpy:
  assumes "i + length xs \<le> length m" and "k < length m"
  shows "memcpy_at i xs m ! k = (if i \<le> k \<and> k < i + length xs then xs ! (k - i) else m ! k)"
  using assms by (auto simp: memcpy_at_def nth_append min_def)

lemma slice_memcpy:
  assumes "j + length xs \<le> length m" and "m \<noteq> []"
    and "\<And>k. k < n \<Longrightarrow> \<not> (j \<le> (i + k) mod length m \<and> (i + k) mod length m < j + length xs)"
  shows "slice (memcpy_at j xs m) i n = slice m i n"
  using assms by (auto simp: slice_def nth_memcpy)

lemma slice_memcpy_same:
  assumes "j + length xs \<le> length m"
  shows "slice (memcpy_at j xs m) j (length xs) = xs"
  using assms by (subst slice_linear) (auto simp: memcpy_at_def)

lemma mod_wrap: "(i :: nat) < n \<Longrightarrow> k \<le> n \<Longrightarrow> (i + k) mod n = (if i + k < n then i + k else i + k - n)"
  by (auto simp: mod_if)

section \<open>Well-formed buffers\<close>

definition lwrb_wf :: "lwrb \<Rightarrow> bool" where
  "lwrb_wf b \<longleftrightarrow> length (lw_buff b) = lw_size b \<and> lw_r b < lw_size b \<and> lw_w b < lw_size b"

lemma wf_valid [simp]: "lwrb_wf b \<Longrightarrow> BUF_IS_VALID b"
  by (auto simp: lwrb_wf_def BUF_IS_VALID_def)

lemma buff_frame [simp]:
  "lwrb_get_free (b\<lparr>lw_buff := m\<rparr>) = lwrb_get_free b" "lwrb_get_full (b\<lparr>lw_buff := m\<rparr>) = lwrb_get_full b"
  by (simp_all add: lwrb_get_free_def lwrb_get_full_def BUF_IS_VALID_def)

lemma free_full: "lwrb_wf b \<Longrightarrow> lwrb_get_free b + lwrb_get_full b + 1 = lw_size b"
  by (auto simp: lwrb_wf_def BUF_IS_VALID_def lwrb_get_free_def lwrb_get_full_def)

lemma full_w: "lwrb_wf b \<Longrightarrow> (lw_r b + lwrb_get_full b) mod lw_size b = lw_w b"
  by (auto simp: lwrb_wf_def BUF_IS_VALID_def lwrb_get_full_def)

text \<open>What is free for writing holds none of the bytes that wait to be read.\<close>

lemma free_apart:
  assumes "lwrb_wf b" and "k < lwrb_get_full b" and "t < lwrb_get_free b"
  shows "(lw_r b + k) mod lw_size b \<noteq> (lw_w b + t) mod lw_size b"
  using assms by (auto simp: lwrb_wf_def BUF_IS_VALID_def lwrb_get_full_def lwrb_get_free_def mod_wrap split: if_splits)

lemma linear_keeps:
  assumes b: "lwrb_wf b" and t: "t \<le> lw_size b - lw_w b" "t \<le> lwrb_get_free b" and n: "n \<le> lwrb_get_full b" and xs: "length xs = t"
  shows "slice (memcpy_at (lw_w b) xs (lw_buff b)) (lw_r b) n = slice (lw_buff b) (lw_r b) n"
proof (rule slice_memcpy)
  show "lw_w b + length xs \<le> length (lw_buff b)" "lw_buff b \<noteq> []" using b t xs by (auto simp: lwrb_wf_def)
next
  fix k
  assume k: "k < n"
  let ?q = "(lw_r b + k) mod length (lw_buff b)"
  have len: "length (lw_buff b) = lw_size b" using b by (simp add: lwrb_wf_def)
  show "\<not> (lw_w b \<le> ?q \<and> ?q < lw_w b + length xs)"
  proof
    assume q: "lw_w b \<le> ?q \<and> ?q < lw_w b + length xs"
    then have "?q = (lw_w b + (?q - lw_w b)) mod lw_size b" using len by simp
    moreover have "?q - lw_w b < lwrb_get_free b" using q t xs by linarith
    ultimately show False using free_apart [OF b, of k "?q - lw_w b"] k n len by simp
  qed
qed

lemma wrap_keeps:
  assumes b: "lwrb_wf b" and t: "length xs + (lw_size b - lw_w b) \<le> lwrb_get_free b" and n: "n \<le> lwrb_get_full b"
  shows "slice (memcpy_at 0 xs (lw_buff b)) (lw_r b) n = slice (lw_buff b) (lw_r b) n"
proof (rule slice_memcpy)
  show "0 + length xs \<le> length (lw_buff b)" "lw_buff b \<noteq> []" using b t free_full [OF b] by (auto simp: lwrb_wf_def)
next
  fix k
  assume k: "k < n"
  let ?q = "(lw_r b + k) mod length (lw_buff b)"
  have len: "length (lw_buff b) = lw_size b" "lw_w b < lw_size b" using b by (simp_all add: lwrb_wf_def)
  show "\<not> (0 \<le> ?q \<and> ?q < 0 + length xs)"
  proof
    assume q: "0 \<le> ?q \<and> ?q < 0 + length xs"
    have "?q < lw_size b" using len by (metis gr_zeroI mod_less_divisor not_less_zero)
    then have "?q = (lw_w b + (lw_size b - lw_w b + ?q)) mod lw_size b" using len by simp
    moreover have "lw_size b - lw_w b + ?q < lwrb_get_free b" using q t by linarith
    ultimately show False using free_apart [OF b, of k "lw_size b - lw_w b + ?q"] k n len by simp
  qed
qed

text \<open>Moving an index.\<close>

lemma advance_w:
  assumes "lwrb_wf b" and "n \<le> lwrb_get_free b"
  shows "lwrb_wf (b\<lparr>lw_w := (lw_w b + n) mod lw_size b\<rparr>)"
    and "lwrb_get_full (b\<lparr>lw_w := (lw_w b + n) mod lw_size b\<rparr>) = lwrb_get_full b + n"
  using assms by (auto simp: lwrb_wf_def BUF_IS_VALID_def lwrb_get_full_def lwrb_get_free_def mod_wrap split: if_splits)

lemma advance_r:
  assumes "lwrb_wf b" and "n \<le> lwrb_get_full b"
  shows "lwrb_wf (b\<lparr>lw_r := (lw_r b + n) mod lw_size b\<rparr>)"
    and "lwrb_get_full (b\<lparr>lw_r := (lw_r b + n) mod lw_size b\<rparr>) = lwrb_get_full b - n"
  using assms by (auto simp: lwrb_wf_def BUF_IS_VALID_def lwrb_get_full_def lwrb_get_free_def mod_wrap split: if_splits)

end
