(* ===== verification/Ring_Run.thy ===== *)
theory Ring_Run
  imports Ring_Buffer
begin

text \<open>
  The thread of an input and the engine on one ring buffer, in steps that read or write shared memory once: a thread
  computes the free or full space (of the two indices only the one of the other side can change), copies the linear part, copies the
  rest, and moves its index. In every interleaving the engine reads the pointers that the thread has written, in their order.
\<close>

section \<open>Steps\<close>

text \<open>Where a thread is in \<open>flb_ring_buffer_write\<close>, with its local variables: the pointer, \<open>av\<close>, and those of \<open>lwrb_write\<close>.\<close>

datatype writer = W_Idle | W_Write u64 nat | W_Linear u64 nat nat | W_Wrap u64 nat nat nat | W_Commit u64 nat nat
  | W_Flag nat | W_Set | W_Signal

datatype reader = R_Idle | R_Linear nat | R_Wrap "u8 list" nat nat | R_Commit "u8 list" nat

definition writer_begin :: "u64 \<Rightarrow> flb_ring_buffer \<Rightarrow> writer" where
  "writer_begin p rb = (let av = lwrb_get_free (rb_ctx rb) in if av < ptr_size then W_Idle else W_Write p av)"

fun writer_step :: "writer \<Rightarrow> flb_ring_buffer \<Rightarrow> writer \<times> flb_ring_buffer" where
  "writer_step (W_Write p av) rb =
     (let btw = min (lwrb_get_free (rb_ctx rb)) (length (ptr_bytes p)) in
      (if \<not> BUF_IS_VALID (rb_ctx rb) \<or> btw = 0 then W_Idle else W_Linear p av btw, rb))"
| "writer_step (W_Linear p av btw) rb =
     (case write_linear (ptr_bytes p) btw (rb_ctx rb) of (b, w, rest) \<Rightarrow> (W_Wrap p av w rest, rb\<lparr>rb_ctx := b\<rparr>))"
| "writer_step (W_Wrap p av w rest) rb =
     (case write_wrap (ptr_bytes p) w rest (rb_ctx rb) of (b, w) \<Rightarrow> (W_Commit p av w, rb\<lparr>rb_ctx := b\<rparr>))"
| "writer_step (W_Commit p av w) rb = (W_Flag av, rb\<lparr>rb_ctx := write_commit w (rb_ctx rb)\<rparr>)"
| "writer_step (W_Flag av) rb = (if \<not> rb_flush_pending rb \<and> window_reached av ptr_size rb then W_Set else W_Idle, rb)"
| "writer_step W_Set rb = (W_Signal, rb\<lparr>rb_flush_pending := True\<rparr>)"
| "writer_step W_Signal rb = (W_Idle, rb\<lparr>rb_signals := rb_signals rb + 1\<rparr>)"
| "writer_step W_Idle rb = (W_Idle, rb)"

definition reader_begin :: "flb_ring_buffer \<Rightarrow> reader" where
  "reader_begin rb =
     (let btr = min (lwrb_get_full (rb_ctx rb)) ptr_size in
      if \<not> BUF_IS_VALID (rb_ctx rb) \<or> btr = 0 then R_Idle else R_Linear btr)"

fun reader_step :: "reader \<Rightarrow> flb_ring_buffer \<Rightarrow> reader \<times> flb_ring_buffer" where
  "reader_step (R_Linear btr) rb = (case read_linear btr (rb_ctx rb) of (d, r, rest) \<Rightarrow> (R_Wrap d r rest, rb))"
| "reader_step (R_Wrap d r rest) rb = (case read_wrap d r rest (rb_ctx rb) of (d, r) \<Rightarrow> (R_Commit d r, rb))"
| "reader_step (R_Commit d r) rb = (R_Idle, rb\<lparr>rb_ctx := read_commit r (rb_ctx rb)\<rparr>)"
| "reader_step R_Idle rb = (R_Idle, rb)"

text \<open>Alone, the steps of a thread are the operation.\<close>

fun writer_run :: "nat \<Rightarrow> writer \<Rightarrow> flb_ring_buffer \<Rightarrow> writer \<times> flb_ring_buffer" where
  "writer_run 0 w rb = (w, rb)"
| "writer_run (Suc n) w rb = (case writer_step w rb of (w, rb) \<Rightarrow> writer_run n w rb)"

fun reader_run :: "nat \<Rightarrow> reader \<Rightarrow> flb_ring_buffer \<Rightarrow> reader \<times> flb_ring_buffer" where
  "reader_run 0 r rb = (r, rb)"
| "reader_run (Suc n) r rb = (case reader_step r rb of (r, rb) \<Rightarrow> reader_run n r rb)"

lemma writer_run_idle [simp]: "writer_run n W_Idle rb = (W_Idle, rb)"
  by (induction n) auto

lemma reader_run_idle [simp]: "reader_run n R_Idle rb = (R_Idle, rb)"
  by (induction n) auto

lemma writer_run_flag:
  "writer_run 3 (W_Flag av) rb =
     (W_Idle, if \<not> rb_flush_pending rb \<and> window_reached av ptr_size rb
              then rb\<lparr>rb_flush_pending := True, rb_signals := rb_signals rb + 1\<rparr> else rb)"
  by (simp add: numeral_3_eq_3)

lemma write_in_steps:
  assumes "flb_ring_buffer_write p rb = (ret, rb')"
  shows "writer_run 7 (writer_begin p rb) rb = (W_Idle, rb')"
proof (cases "lwrb_get_free (rb_ctx rb) < ptr_size")
  case True
  then show ?thesis using assms by (simp add: flb_ring_buffer_write_def writer_begin_def)
next
  case False
  let ?av = "lwrb_get_free (rb_ctx rb)" and ?d = "ptr_bytes p"
  have m: "min ?av ptr_size = ptr_size" "ptr_size \<noteq> 0" using False by (simp_all add: ptr_size_def)
  have v: "BUF_IS_VALID (rb_ctx rb)" using False by (auto simp: lwrb_get_free_def ptr_size_def split: if_splits)
  obtain b1 w1 rest where l: "write_linear ?d ptr_size (rb_ctx rb) = (b1, w1, rest)" by (metis prod.exhaust)
  obtain b2 w2 where w: "write_wrap ?d w1 rest b1 = (b2, w2)" by (metis prod.exhaust)
  let ?rb = "rb\<lparr>rb_ctx := write_commit w2 b2\<rparr>"
  have run: "writer_run (Suc (Suc (Suc (Suc n)))) (W_Write p ?av) rb = writer_run n (W_Flag ?av) ?rb" for n
    using m v l w by simp
  have "rb' = (if \<not> rb_flush_pending ?rb \<and> window_reached ?av ptr_size ?rb
      then ?rb\<lparr>rb_flush_pending := True, rb_signals := rb_signals ?rb + 1\<rparr> else ?rb)"
    using assms False m v l w by (auto simp: flb_ring_buffer_write_def lwrb_write_def Let_def split: if_splits)
  moreover have "(7 :: nat) = Suc (Suc (Suc (Suc 3)))" by simp
  ultimately show ?thesis using False run [of 3] by (simp only: writer_begin_def Let_def if_False writer_run_flag)
qed

lemma read_in_steps:
  assumes "flb_ring_buffer_read rb = (p, rb')"
  shows "reader_run 3 (reader_begin rb) rb = (R_Idle, rb')"
proof (cases "lwrb_get_full (rb_ctx rb) = 0")
  case True
  then have "min (lwrb_get_full (rb_ctx rb)) ptr_size = 0" by simp
  then show ?thesis using assms by (auto simp: flb_ring_buffer_read_def lwrb_read_def reader_begin_def Let_def split: if_splits)
next
  case False
  let ?n = "min (lwrb_get_full (rb_ctx rb)) ptr_size"
  have v: "BUF_IS_VALID (rb_ctx rb)" "?n \<noteq> 0" using False by (auto simp: lwrb_get_full_def ptr_size_def split: if_splits)
  obtain d1 r1 rest where l: "read_linear ?n (rb_ctx rb) = (d1, r1, rest)" by (metis prod.exhaust)
  obtain d2 r2 where w: "read_wrap d1 r1 rest (rb_ctx rb) = (d2, r2)" by (metis prod.exhaust)
  have "reader_run 3 (R_Linear ?n) rb = (R_Idle, rb\<lparr>rb_ctx := read_commit r2 (rb_ctx rb)\<rparr>)"
    using l w by (simp add: numeral_3_eq_3)
  moreover have "rb' = rb\<lparr>rb_ctx := read_commit r2 (rb_ctx rb)\<rparr>"
    using assms v l w by (auto simp: flb_ring_buffer_read_def lwrb_read_def Let_def ptr_size_def split: if_splits)
  ultimately show ?thesis using v by (auto simp: reader_begin_def Let_def)
qed

text \<open>
  A run: the buffer, where both threads are, the pointers written and the pointers read. The engine resets \<open>flush_pending\<close> between two
  reads and drains the signal channel.
\<close>

record ring_run =
  rr_rb :: flb_ring_buffer
  rr_writer :: writer
  rr_reader :: reader
  rr_sent :: "u64 list"
  rr_got :: "u64 list"

datatype ring_op = Write u64 | Writer_Step | Read | Reader_Step | Clear_Pending | Drain

definition ring_enabled :: "ring_op \<Rightarrow> ring_run \<Rightarrow> bool" where
  "ring_enabled a s =
     (case a of
        Write p \<Rightarrow> rr_writer s = W_Idle
      | Writer_Step \<Rightarrow> rr_writer s \<noteq> W_Idle
      | Read \<Rightarrow> rr_reader s = R_Idle
      | Reader_Step \<Rightarrow> rr_reader s \<noteq> R_Idle
      | Clear_Pending \<Rightarrow> rr_reader s = R_Idle
      | Drain \<Rightarrow> rr_reader s = R_Idle)"

definition ring_exec :: "ring_op \<Rightarrow> ring_run \<Rightarrow> ring_run option" where
  "ring_exec a s =
     Some (case a of
        Write p \<Rightarrow> s\<lparr>rr_writer := writer_begin p (rr_rb s)\<rparr>
      | Writer_Step \<Rightarrow>
          (case writer_step (rr_writer s) (rr_rb s) of (w, rb) \<Rightarrow>
             s\<lparr>rr_writer := w, rr_rb := rb, rr_sent := rr_sent s @ (case rr_writer s of W_Commit p av k \<Rightarrow> [p] | _ \<Rightarrow> [])\<rparr>)
      | Read \<Rightarrow> s\<lparr>rr_reader := reader_begin (rr_rb s)\<rparr>
      | Reader_Step \<Rightarrow>
          (case reader_step (rr_reader s) (rr_rb s) of (r, rb) \<Rightarrow>
             s\<lparr>rr_reader := r, rr_rb := rb, rr_got := rr_got s @ (case rr_reader s of R_Commit d k \<Rightarrow> [bytes_ptr d] | _ \<Rightarrow> [])\<rparr>)
      | Clear_Pending \<Rightarrow> s\<lparr>rr_rb := (rr_rb s)\<lparr>rb_flush_pending := False\<rparr>\<rparr>
      | Drain \<Rightarrow> s\<lparr>rr_rb := (rr_rb s)\<lparr>rb_signals := 0\<rparr>\<rparr>)"

text \<open>A new buffer with room for \<open>cap\<close> pointers, registered with the event loop.\<close>

definition ring_init :: "nat \<Rightarrow> ring_run \<Rightarrow> bool" where
  "ring_init cap s \<longleftrightarrow>
     (\<exists>rb window. flb_ring_buffer_create True (ptr_size * cap) = Some rb
        \<and> flb_ring_buffer_add_event_loop True True True window rb = (0, rr_rb s))
     \<and> rr_writer s = W_Idle \<and> rr_reader s = R_Idle \<and> rr_sent s = [] \<and> rr_got s = [] \<and> ptr_size * cap + 1 < 2 ^ 64"

section \<open>The invariant\<close>

text \<open>The bytes that wait to be read are those of the pointers \<open>ps\<close>.\<close>

definition queued :: "u64 list \<Rightarrow> lwrb \<Rightarrow> bool" where
  "queued ps b \<longleftrightarrow>
     lwrb_get_full b = ptr_size * length ps \<and> slice (lw_buff b) (lw_r b) (ptr_size * length ps) = concat (map ptr_bytes ps)"

text \<open>The index that a side is about to store.\<close>

definition wrapped :: "nat \<Rightarrow> nat \<Rightarrow> nat" where
  "wrapped n i = (if i \<ge> n then 0 else i)"

fun writer_ok :: "writer \<Rightarrow> lwrb \<Rightarrow> bool" where
  "writer_ok (W_Write p av) b \<longleftrightarrow> ptr_size \<le> lwrb_get_free b"
| "writer_ok (W_Linear p av btw) b \<longleftrightarrow> ptr_size \<le> lwrb_get_free b \<and> btw = ptr_size"
| "writer_ok (W_Wrap p av w rest) b \<longleftrightarrow>
     ptr_size \<le> lwrb_get_free b
     \<and> (let t = min (lw_size b - lw_w b) ptr_size in
        w = lw_w b + t \<and> rest = ptr_size - t \<and> slice (lw_buff b) (lw_w b) t = take t (ptr_bytes p))"
| "writer_ok (W_Commit p av w) b \<longleftrightarrow>
     ptr_size \<le> lwrb_get_free b \<and> slice (lw_buff b) (lw_w b) ptr_size = ptr_bytes p
     \<and> wrapped (lw_size b) w = (lw_w b + ptr_size) mod lw_size b"
| "writer_ok _ b \<longleftrightarrow> True"

fun reader_ok :: "reader \<Rightarrow> lwrb \<Rightarrow> bool" where
  "reader_ok (R_Linear btr) b \<longleftrightarrow> ptr_size \<le> lwrb_get_full b \<and> btr = ptr_size"
| "reader_ok (R_Wrap d r rest) b \<longleftrightarrow>
     ptr_size \<le> lwrb_get_full b
     \<and> (let t = min (lw_size b - lw_r b) ptr_size in
        r = lw_r b + t \<and> rest = ptr_size - t \<and> d = slice (lw_buff b) (lw_r b) t)"
| "reader_ok (R_Commit d r) b \<longleftrightarrow>
     ptr_size \<le> lwrb_get_full b \<and> d = slice (lw_buff b) (lw_r b) ptr_size
     \<and> wrapped (lw_size b) r = (lw_r b + ptr_size) mod lw_size b"
| "reader_ok _ b \<longleftrightarrow> True"

definition ring_inv :: "nat \<Rightarrow> ring_run \<Rightarrow> bool" where
  "ring_inv cap s \<longleftrightarrow>
     (let b = rb_ctx (rr_rb s) in
      lwrb_wf b \<and> lw_size b = ptr_size * cap + 1 \<and> writer_ok (rr_writer s) b \<and> reader_ok (rr_reader s) b
      \<and> (\<exists>ps. rr_sent s = rr_got s @ ps \<and> queued ps b))"

lemma queued_bound: "queued ps b \<Longrightarrow> lwrb_wf b \<Longrightarrow> lw_size b = ptr_size * cap + 1 \<Longrightarrow> length ps \<le> cap"
  using free_full [of b] by (simp add: queued_def ptr_size_def)

text \<open>What a side relies on survives the steps of the other side.\<close>

lemma writer_ok_mono:
  assumes "writer_ok w b" and "lwrb_get_free b \<le> lwrb_get_free b'" and "lw_buff b' = lw_buff b" and "lw_w b' = lw_w b" and "lw_size b' = lw_size b"
  shows "writer_ok w b'"
  using assms by (cases w) auto

lemma reader_ok_mono:
  assumes "reader_ok r b" and "lwrb_get_full b \<le> lwrb_get_full b'" and "lw_r b' = lw_r b" and "lw_size b' = lw_size b"
    and "\<And>n. n \<le> lwrb_get_full b \<Longrightarrow> slice (lw_buff b') (lw_r b) n = slice (lw_buff b) (lw_r b) n"
  shows "reader_ok r b'"
  using assms by (cases r) (auto simp: Let_def min_def)

lemma linear_written:
  assumes b: "lwrb_wf b" and f: "ptr_size \<le> lwrb_get_free b" and w: "writer_step (W_Linear p av ptr_size) rb = (w, rb')" and rb: "rb_ctx rb = b"
  obtains m where "rb' = rb\<lparr>rb_ctx := b\<lparr>lw_buff := m\<rparr>\<rparr>" and "length m = length (lw_buff b)" and "writer_ok w (b\<lparr>lw_buff := m\<rparr>)"
    and "\<forall>n \<le> lwrb_get_full b. slice m (lw_r b) n = slice (lw_buff b) (lw_r b) n"
proof -
  let ?t = "min (lw_size b - lw_w b) ptr_size"
  let ?m = "memcpy_at (lw_w b) (take ?t (ptr_bytes p)) (lw_buff b)"
  have len: "lw_w b + length (take ?t (ptr_bytes p)) \<le> length (lw_buff b)" using b by (auto simp: lwrb_wf_def)
  have t: "length (take ?t (ptr_bytes p)) = ?t" by simp
  have st: "w = W_Wrap p av (lw_w b + ?t) (ptr_size - ?t)" "rb' = rb\<lparr>rb_ctx := b\<lparr>lw_buff := ?m\<rparr>\<rparr>"
    using w rb by (auto simp: write_linear_def Let_def)
  have s: "slice ?m (lw_w b) ?t = take ?t (ptr_bytes p)" using slice_memcpy_same [OF len] unfolding t .
  show ?thesis
  proof (rule that [of ?m])
    show "rb' = rb\<lparr>rb_ctx := b\<lparr>lw_buff := ?m\<rparr>\<rparr>" by (rule st(2))
    show "length ?m = length (lw_buff b)" using len by simp
    show "writer_ok w (b\<lparr>lw_buff := ?m\<rparr>)" using s f unfolding st(1) by (simp add: Let_def)
    show "\<forall>n \<le> lwrb_get_full b. slice ?m (lw_r b) n = slice (lw_buff b) (lw_r b) n"
      by (intro allI impI linear_keeps [OF b _ _ _ t]) (use f in auto)
  qed
qed

lemma wrap_written:
  assumes b: "lwrb_wf b" and ok: "writer_ok (W_Wrap p av k rest) b" and w: "writer_step (W_Wrap p av k rest) rb = (w, rb')" and rb: "rb_ctx rb = b"
  obtains m where "rb' = rb\<lparr>rb_ctx := b\<lparr>lw_buff := m\<rparr>\<rparr>" and "length m = length (lw_buff b)" and "writer_ok w (b\<lparr>lw_buff := m\<rparr>)"
    and "\<forall>n \<le> lwrb_get_full b. slice m (lw_r b) n = slice (lw_buff b) (lw_r b) n"
proof (cases "rest = 0")
  case True
  then have k: "k = lw_w b + ptr_size" "slice (lw_buff b) (lw_w b) ptr_size = ptr_bytes p" "k \<le> lw_size b"
    using ok b by (auto simp: Let_def min_def lwrb_wf_def split: if_splits)
  then have "wrapped (lw_size b) k = (lw_w b + ptr_size) mod lw_size b" by (auto simp: wrapped_def)
  then show ?thesis using True w rb k ok by (intro that [of "lw_buff b"]) (auto simp: write_wrap_def)
next
  case False
  let ?t = "lw_size b - lw_w b" and ?d = "ptr_bytes p"
  let ?x = "take rest (drop ?t ?d)"
  let ?m = "memcpy_at 0 ?x (lw_buff b)"
  have lt: "lw_w b < lw_size b" "length (lw_buff b) = lw_size b" using b by (simp_all add: lwrb_wf_def)
  have k: "k = lw_size b" "rest = ptr_size - ?t" "slice (lw_buff b) (lw_w b) ?t = take ?t ?d" "?t < ptr_size"
    and free: "ptr_size \<le> lwrb_get_free b"
    using ok False lt by (auto simp: Let_def min_def split: if_splits)
  have x: "?x = drop ?t ?d" "length ?x = ptr_size - ?t" using k(2) by simp_all
  have n: "lwrb_get_free b < lw_size b" using free_full [OF b] by simp
  have len: "0 + length ?x \<le> length (lw_buff b)" using x(2) lt free n by simp
  have st: "w = W_Commit p av rest" "rb' = rb\<lparr>rb_ctx := b\<lparr>lw_buff := ?m\<rparr>\<rparr>"
    using w rb False k(1) by (auto simp: write_wrap_def)
  have "slice ?m (lw_w b) ?t = slice (lw_buff b) (lw_w b) ?t"
    using len x(2) free n lt by (intro slice_memcpy) (auto simp: mod_wrap)
  moreover have "slice ?m (lw_w b + ?t) (ptr_size - ?t) = ?x"
    using slice_memcpy_same [OF len] slice_mod [of ?m "lw_size b" "ptr_size - ?t"] x(2) lt len by simp
  ultimately have s: "slice ?m (lw_w b) ptr_size = ?d"
    using slice_add [of ?m "lw_w b" ?t "ptr_size - ?t"] k(3,4) x(1) by simp
  have "wrapped (lw_size b) rest = (lw_w b + ptr_size) mod lw_size b"
    using k(2,4) lt free n by (simp add: wrapped_def mod_wrap) arith
  then show ?thesis
  proof (intro that [of ?m])
    show "rb' = rb\<lparr>rb_ctx := b\<lparr>lw_buff := ?m\<rparr>\<rparr>" by (rule st(2))
    show "length ?m = length (lw_buff b)" using len by simp
    show "\<forall>n \<le> lwrb_get_full b. slice ?m (lw_r b) n = slice (lw_buff b) (lw_r b) n"
      by (intro allI impI wrap_keeps [OF b]) (use x(2) k(4) free in simp)
  qed (use s free in \<open>simp add: st(1)\<close>)
qed

lemma commit_written:
  assumes b: "lwrb_wf b" and ok: "writer_ok (W_Commit p av w) b" and q: "queued ps b"
  shows "lwrb_wf (write_commit w b)" and "queued (ps @ [p]) (write_commit w b)" and "reader_ok r b \<Longrightarrow> reader_ok r (write_commit w b)"
proof -
  let ?b = "b\<lparr>lw_w := (lw_w b + ptr_size) mod lw_size b\<rparr>"
  have c: "write_commit w b = ?b" using ok by (simp add: write_commit_def wrapped_def)
  have f: "ptr_size \<le> lwrb_get_free b" using ok by simp
  note a = advance_w [OF b f]
  have len: "length (lw_buff b) = lw_size b" using b by (simp add: lwrb_wf_def)
  have full: "lwrb_get_full b = ptr_size * length ps" using q by (simp add: queued_def)
  have "slice (lw_buff b) (lw_r b + ptr_size * length ps) ptr_size = ptr_bytes p"
    using ok slice_mod [of "lw_buff b" "lw_r b + ptr_size * length ps" ptr_size] full_w [OF b] full len by simp
  then have "slice (lw_buff b) (lw_r b) (ptr_size * length ps + ptr_size) = concat (map ptr_bytes (ps @ [p]))"
    using q by (simp add: slice_add queued_def)
  then show "queued (ps @ [p]) (write_commit w b)" unfolding c queued_def a(2) full by (simp add: add.commute)
  show "lwrb_wf (write_commit w b)" unfolding c by (rule a(1))
  show "reader_ok r (write_commit w b)" if "reader_ok r b" unfolding c by (rule reader_ok_mono [OF that]) (simp_all add: a(2))
qed

lemma linear_read:
  assumes b: "lwrb_wf b" and ok: "reader_ok (R_Linear n) b" and st: "reader_step (R_Linear n) rb = (r, rb')" and rb: "rb_ctx rb = b"
  shows "rb' = rb" and "reader_ok r b"
proof -
  let ?t = "min (lw_size b - lw_r b) ptr_size"
  have "slice (lw_buff b) (lw_r b) ?t = take ?t (drop (lw_r b) (lw_buff b))" by (rule slice_linear) (use b in \<open>auto simp: lwrb_wf_def\<close>)
  then show "rb' = rb" "reader_ok r b" using st ok rb by (auto simp: read_linear_def Let_def)
qed

lemma wrap_read:
  assumes b: "lwrb_wf b" and ok: "reader_ok (R_Wrap d k n) b" and st: "reader_step (R_Wrap d k n) rb = (r, rb')" and rb: "rb_ctx rb = b"
  shows "rb' = rb" and "reader_ok r b"
proof -
  have lt: "lw_r b < lw_size b" "length (lw_buff b) = lw_size b" "ptr_size < lw_size b"
    using b ok free_full [OF b] by (auto simp: lwrb_wf_def)
  show "rb' = rb" using st rb by (auto split: prod.splits)
  show "reader_ok r b"
  proof (cases "n = 0")
    case True
    then show ?thesis using ok st rb lt by (auto simp: read_wrap_def Let_def min_def wrapped_def mod_wrap split: if_splits)
  next
    case False
    let ?t = "lw_size b - lw_r b"
    have k: "k = lw_size b" "n = ptr_size - ?t" "d = slice (lw_buff b) (lw_r b) ?t" "?t < ptr_size" "ptr_size \<le> lwrb_get_full b"
      using ok False lt by (auto simp: Let_def min_def split: if_splits)
    have "slice (lw_buff b) (lw_r b + ?t) n = take n (lw_buff b)"
      using slice_mod [of "lw_buff b" "lw_size b" n] slice_linear [of 0 n "lw_buff b"] lt k by simp
    then have "d @ take n (lw_buff b) = slice (lw_buff b) (lw_r b) ptr_size"
      using slice_add [of "lw_buff b" "lw_r b" ?t n] k by simp
    moreover have "wrapped (lw_size b) n = (lw_r b + ptr_size) mod lw_size b"
      using k lt by (simp add: wrapped_def mod_wrap) arith
    ultimately show ?thesis using False k st rb by (auto simp: read_wrap_def)
  qed
qed

lemma commit_read:
  assumes b: "lwrb_wf b" and ok: "reader_ok (R_Commit d r) b" and q: "queued ps b"
  obtains p ps' where "ps = p # ps'" and "bytes_ptr d = p" and "lwrb_wf (read_commit r b)" and "queued ps' (read_commit r b)"
    and "\<forall>w. writer_ok w b \<longrightarrow> writer_ok w (read_commit r b)"
proof -
  let ?b = "b\<lparr>lw_r := (lw_r b + ptr_size) mod lw_size b\<rparr>"
  have c: "read_commit r b = ?b" using ok by (simp add: read_commit_def wrapped_def)
  have f: "ptr_size \<le> lwrb_get_full b" using ok by simp
  note a = advance_r [OF b f]
  have full: "lwrb_get_full b = ptr_size * length ps" using q by (simp add: queued_def)
  then obtain p ps' where ps: "ps = p # ps'" using f by (cases ps) (auto simp: ptr_size_def)
  have len: "length (lw_buff b) = lw_size b" using b by (simp add: lwrb_wf_def)
  let ?n = "ptr_size * length ps'"
  have "slice (lw_buff b) (lw_r b) ptr_size @ slice (lw_buff b) (lw_r b + ptr_size) ?n = ptr_bytes p @ concat (map ptr_bytes ps')"
    using q ps slice_add [of "lw_buff b" "lw_r b" ptr_size ?n] by (simp add: queued_def)
  then have s: "slice (lw_buff b) (lw_r b) ptr_size = ptr_bytes p" "slice (lw_buff b) (lw_r b + ptr_size) ?n = concat (map ptr_bytes ps')"
    by (simp_all add: append_eq_append_conv)
  have "queued ps' ?b"
    using s(2) slice_mod [of "lw_buff b" "lw_r b + ptr_size" ?n] len unfolding queued_def a(2) full by (simp add: ps)
  moreover have "lwrb_get_free b \<le> lwrb_get_free ?b" using free_full [OF b] free_full [OF a(1)] a(2) by simp
  then have "writer_ok w ?b" if "writer_ok w b" for w by (rule writer_ok_mono [OF that]) simp_all
  ultimately show ?thesis using ps s(1) ok a(1) by (intro that [of p ps']) (simp_all add: c)
qed

section \<open>Every interleaving keeps the invariant\<close>

lemma add_event_loop_ctx: "flb_ring_buffer_add_event_loop pipe alloc added n rb = (ret, rb') \<Longrightarrow> rb_ctx rb' = rb_ctx rb"
  by (auto simp: flb_ring_buffer_add_event_loop_def Let_def split: if_splits)

lemma create_ctx:
  "flb_ring_buffer_create alloc n = Some rb \<Longrightarrow> n + 1 < 2 ^ 64 \<Longrightarrow> rb_ctx rb = \<lparr>lw_buff = replicate (n + 1) 0, lw_size = n + 1, lw_r = 0, lw_w = 0\<rparr>"
  using unat_of_nat [of "n + 1", where ?'a = 64] by (auto simp: flb_ring_buffer_create_def lwrb_init_def split: if_splits)

lemma ring_init_inv:
  assumes "ring_init cap s"
  shows "ring_inv cap s"
proof -
  from assms obtain rb window where "flb_ring_buffer_create True (ptr_size * cap) = Some rb"
    "flb_ring_buffer_add_event_loop True True True window rb = (0, rr_rb s)" and n: "ptr_size * cap + 1 < 2 ^ 64"
    and s: "rr_writer s = W_Idle" "rr_reader s = R_Idle" "rr_sent s = []" "rr_got s = []"
    by (auto simp: ring_init_def)
  then have "rb_ctx (rr_rb s) = \<lparr>lw_buff = replicate (ptr_size * cap + 1) 0, lw_size = ptr_size * cap + 1, lw_r = 0, lw_w = 0\<rparr>"
    using create_ctx [OF _ n] add_event_loop_ctx by metis
  then show ?thesis using s by (simp add: ring_inv_def lwrb_wf_def queued_def lwrb_get_full_def)
qed

lemma ring_invI:
  assumes "lwrb_wf b" and "lw_size b = ptr_size * cap + 1" and "rb_ctx (rr_rb s) = b" and "writer_ok (rr_writer s) b" and "reader_ok (rr_reader s) b"
    and "rr_sent s = rr_got s @ ps" and "queued ps b"
  shows "ring_inv cap s"
  using assms by (auto simp: ring_inv_def Let_def)

text \<open>A step that copies bytes into free space.\<close>

lemma copy_inv:
  assumes I: "lwrb_wf b" "lw_size b = ptr_size * cap + 1" "reader_ok (rr_reader s) b" "rr_sent s = rr_got s @ ps" "queued ps b"
    and m: "rb_ctx (rr_rb s) = b\<lparr>lw_buff := m\<rparr>" "length m = length (lw_buff b)" "writer_ok (rr_writer s) (b\<lparr>lw_buff := m\<rparr>)"
    and keep: "\<forall>n \<le> lwrb_get_full b. slice m (lw_r b) n = slice (lw_buff b) (lw_r b) n"
  shows "ring_inv cap s"
proof (rule ring_invI [where b = "b\<lparr>lw_buff := m\<rparr>" and ps = ps])
  show "lwrb_wf (b\<lparr>lw_buff := m\<rparr>)" using I(1) m(2) by (simp add: lwrb_wf_def)
  show "reader_ok (rr_reader s) (b\<lparr>lw_buff := m\<rparr>)" by (rule reader_ok_mono [OF I(3)]) (simp_all add: keep)
  show "queued ps (b\<lparr>lw_buff := m\<rparr>)" using I(5) keep by (simp add: queued_def)
qed (use I m in simp_all)

lemma writer_step_inv:
  assumes I: "ring_inv cap s" and st: "writer_step (rr_writer s) (rr_rb s) = (w, rb)"
  shows "ring_inv cap (s\<lparr>rr_writer := w, rr_rb := rb, rr_sent := rr_sent s @ (case rr_writer s of W_Commit p av k \<Rightarrow> [p] | _ \<Rightarrow> [])\<rparr>)"
proof -
  let ?b = "rb_ctx (rr_rb s)"
  from I obtain ps where b: "lwrb_wf ?b" "lw_size ?b = ptr_size * cap + 1" and ok: "writer_ok (rr_writer s) ?b" "reader_ok (rr_reader s) ?b"
    and q: "rr_sent s = rr_got s @ ps" "queued ps ?b" by (auto simp: ring_inv_def Let_def)
  have same: "ring_inv cap (s\<lparr>rr_writer := w, rr_rb := rb, rr_sent := rr_sent s\<rparr>)" if "rb_ctx rb = ?b" "writer_ok w ?b"
    by (rule ring_invI [where b = ?b and ps = ps]) (use b ok q that in simp_all)
  show ?thesis
  proof (cases "rr_writer s")
    case W_Idle
    then show ?thesis using same st ok by simp
  next
    case (W_Write p av)
    then show ?thesis using same st ok by (auto simp: Let_def)
  next
    case (W_Linear p av n)
    then have n: "n = ptr_size" and f: "ptr_size \<le> lwrb_get_free ?b" using ok by simp_all
    from W_Linear st n have st': "writer_step (W_Linear p av ptr_size) (rr_rb s) = (w, rb)" by simp
    obtain m where "rb = (rr_rb s)\<lparr>rb_ctx := ?b\<lparr>lw_buff := m\<rparr>\<rparr>" "length m = length (lw_buff ?b)" "writer_ok w (?b\<lparr>lw_buff := m\<rparr>)"
      "\<forall>n \<le> lwrb_get_full ?b. slice m (lw_r ?b) n = slice (lw_buff ?b) (lw_r ?b) n"
      by (rule linear_written [OF b(1) f st' refl])
    then show ?thesis by (intro copy_inv [OF b, of _ ps m]) (use W_Linear ok q in simp_all)
  next
    case (W_Wrap p av k n)
    then have o': "writer_ok (W_Wrap p av k n) ?b" and st': "writer_step (W_Wrap p av k n) (rr_rb s) = (w, rb)" using ok(1) st by simp_all
    obtain m where "rb = (rr_rb s)\<lparr>rb_ctx := ?b\<lparr>lw_buff := m\<rparr>\<rparr>" "length m = length (lw_buff ?b)" "writer_ok w (?b\<lparr>lw_buff := m\<rparr>)"
      "\<forall>n \<le> lwrb_get_full ?b. slice m (lw_r ?b) n = slice (lw_buff ?b) (lw_r ?b) n"
      by (rule wrap_written [OF b(1) o' st' refl])
    then show ?thesis by (intro copy_inv [OF b, of _ ps m]) (use W_Wrap ok q in simp_all)
  next
    case (W_Commit p av k)
    then have "writer_ok (W_Commit p av k) ?b" using ok(1) by simp
    note c = commit_written [OF b(1) this q(2)]
    show ?thesis
      by (rule ring_invI [where b = "write_commit k ?b" and ps = "ps @ [p]"]) (use W_Commit st b c ok q in \<open>auto simp: write_commit_def\<close>)
  next
    case (W_Flag av)
    then show ?thesis using same st by (auto split: if_splits)
  next
    case W_Set
    then show ?thesis using same st by auto
  next
    case W_Signal
    then show ?thesis using same st by auto
  qed
qed

lemma reader_step_inv:
  assumes I: "ring_inv cap s" and st: "reader_step (rr_reader s) (rr_rb s) = (r, rb)"
  shows "ring_inv cap (s\<lparr>rr_reader := r, rr_rb := rb, rr_got := rr_got s @ (case rr_reader s of R_Commit d k \<Rightarrow> [bytes_ptr d] | _ \<Rightarrow> [])\<rparr>)"
proof -
  let ?b = "rb_ctx (rr_rb s)"
  from I obtain ps where b: "lwrb_wf ?b" "lw_size ?b = ptr_size * cap + 1" and ok: "writer_ok (rr_writer s) ?b" "reader_ok (rr_reader s) ?b"
    and q: "rr_sent s = rr_got s @ ps" "queued ps ?b" by (auto simp: ring_inv_def Let_def)
  have same: "ring_inv cap (s\<lparr>rr_reader := r, rr_rb := rb, rr_got := rr_got s\<rparr>)" if "rb = rr_rb s" "reader_ok r ?b"
    by (rule ring_invI [where b = ?b and ps = ps]) (use b ok q that in simp_all)
  show ?thesis
  proof (cases "rr_reader s")
    case R_Idle
    then have "rb = rr_rb s" "reader_ok r ?b" using st by auto
    from same [OF this] R_Idle show ?thesis by simp
  next
    case (R_Linear n)
    then show ?thesis using same linear_read [OF b(1) ok(2) [unfolded R_Linear] st [unfolded R_Linear] refl] by simp
  next
    case (R_Wrap d k n)
    then show ?thesis using same wrap_read [OF b(1) ok(2) [unfolded R_Wrap] st [unfolded R_Wrap] refl] by simp
  next
    case (R_Commit d k)
    obtain p ps' where c: "ps = p # ps'" "bytes_ptr d = p" "lwrb_wf (read_commit k ?b)" "queued ps' (read_commit k ?b)"
      "\<forall>w. writer_ok w ?b \<longrightarrow> writer_ok w (read_commit k ?b)"
      by (rule commit_read [OF b(1) ok(2) [unfolded R_Commit] q(2)])
    show ?thesis
      by (rule ring_invI [where b = "read_commit k ?b" and ps = ps']) (use R_Commit st b c ok q in \<open>auto simp: read_commit_def\<close>)
  qed
qed

lemma ring_exec_inv:
  assumes I: "ring_inv cap s" and en: "ring_enabled a s"
  shows "runs (ring_exec a s) (ring_inv cap)"
proof (cases a)
  case (Write p)
  then show ?thesis using I by (auto simp: ring_exec_def ring_inv_def writer_begin_def Let_def)
next
  case Writer_Step
  then show ?thesis using writer_step_inv [OF I] by (auto simp: ring_exec_def split: prod.split)
next
  case Read
  have "reader_ok (reader_begin (rr_rb s)) (rb_ctx (rr_rb s))"
  proof -
    from I obtain ps where "queued ps (rb_ctx (rr_rb s))" by (auto simp: ring_inv_def Let_def)
    then show ?thesis by (cases ps) (auto simp: reader_begin_def queued_def)
  qed
  then show ?thesis using Read I by (auto simp: ring_exec_def ring_inv_def Let_def)
next
  case Reader_Step
  then show ?thesis using reader_step_inv [OF I] by (auto simp: ring_exec_def split: prod.split)
next
  case Clear_Pending
  then show ?thesis using I by (auto simp: ring_exec_def ring_inv_def Let_def)
next
  case Drain
  then show ?thesis using I by (auto simp: ring_exec_def ring_inv_def Let_def)
qed

interpretation ring: machine "ring_init cap" ring_enabled ring_exec "ring_inv cap" for cap
  by unfold_locales (auto intro: ring_init_inv ring_exec_inv)

section \<open>A thread that runs alone\<close>

definition rb_holds :: "nat \<Rightarrow> u64 list \<Rightarrow> flb_ring_buffer \<Rightarrow> bool" where
  "rb_holds cap ps rb \<longleftrightarrow> lwrb_wf (rb_ctx rb) \<and> lw_size (rb_ctx rb) = ptr_size * cap + 1 \<and> queued ps (rb_ctx rb)"

lemma rb_holds_free: "rb_holds cap ps rb \<Longrightarrow> lwrb_get_free (rb_ctx rb) + ptr_size * length ps = ptr_size * cap"
  using free_full [of "rb_ctx rb"] by (simp add: rb_holds_def queued_def)

lemma ring_write_full:
  assumes "rb_holds cap ps rb" and "length ps \<ge> cap"
  shows "flb_ring_buffer_write p rb = (-1, rb)"
proof -
  have "ptr_size * cap \<le> ptr_size * length ps" using assms(2) by simp
  then have "lwrb_get_free (rb_ctx rb) = 0" using rb_holds_free [OF assms(1)] by linarith
  then show ?thesis by (simp add: flb_ring_buffer_write_def ptr_size_def)
qed

lemma ring_write_room:
  assumes h: "rb_holds cap ps rb" and room: "length ps < cap"
  obtains rb' where "flb_ring_buffer_write p rb = (0, rb')" and "rb_holds cap (ps @ [p]) rb'" and "rb_data_size rb' = rb_data_size rb"
proof -
  let ?b = "rb_ctx rb" and ?d = "ptr_bytes p"
  have b: "lwrb_wf ?b" and sz: "lw_size ?b = ptr_size * cap + 1" and q: "queued ps ?b" using h by (simp_all add: rb_holds_def)
  have "ptr_size * (length ps + 1) \<le> ptr_size * cap" using room by (intro mult_le_mono) simp_all
  then have f: "ptr_size \<le> lwrb_get_free ?b" using rb_holds_free [OF h] by simp
  have d: "min (lwrb_get_free ?b) ptr_size = ptr_size" "ptr_size \<noteq> 0" using f by (simp_all add: ptr_size_def)
  obtain b1 w1 n where l: "write_linear ?d ptr_size ?b = (b1, w1, n)" by (metis prod.exhaust)
  obtain b2 w2 where wr: "write_wrap ?d w1 n b1 = (b2, w2)" by (metis prod.exhaust)
  have "writer_step (W_Linear p 0 ptr_size) rb = (W_Wrap p 0 w1 n, rb\<lparr>rb_ctx := b1\<rparr>)" using l by simp
  from linear_written [OF b f this refl] obtain m1 where
    m1: "b1 = ?b\<lparr>lw_buff := m1\<rparr>" "length m1 = length (lw_buff ?b)" "writer_ok (W_Wrap p 0 w1 n) b1"
      "\<forall>n \<le> lwrb_get_full ?b. slice m1 (lw_r ?b) n = slice (lw_buff ?b) (lw_r ?b) n" by (metis flb_ring_buffer.select_convs(1) flb_ring_buffer.surjective flb_ring_buffer.update_convs(1))
  have b1: "lwrb_wf b1" "queued ps b1" using b q m1 by (simp_all add: lwrb_wf_def queued_def)
  have "writer_step (W_Wrap p 0 w1 n) (rb\<lparr>rb_ctx := b1\<rparr>) = (W_Commit p 0 w2, rb\<lparr>rb_ctx := b2\<rparr>)" using wr by simp
  from wrap_written [OF b1(1) m1(3) this] obtain m2 where
    m2: "b2 = b1\<lparr>lw_buff := m2\<rparr>" "length m2 = length (lw_buff b1)" "writer_ok (W_Commit p 0 w2) b2"
      "\<forall>n \<le> lwrb_get_full b1. slice m2 (lw_r b1) n = slice (lw_buff b1) (lw_r b1) n" by (metis flb_ring_buffer.select_convs(1) flb_ring_buffer.surjective flb_ring_buffer.update_convs(1))
  have b2: "lwrb_wf b2" "queued ps b2" using b1 m2 by (simp_all add: lwrb_wf_def queued_def)
  note c = commit_written(1,2) [OF b2(1) m2(3) b2(2)]
  have w: "lwrb_write ?d ?b = (ptr_size, write_commit w2 b2)" using d l wr b by (simp add: lwrb_write_def)
  have s: "lw_size (write_commit w2 b2) = ptr_size * cap + 1" using sz m1(1) m2(1) by (simp add: write_commit_def)
  show ?thesis
    using f d(2) w c s by (intro that [of "snd (flb_ring_buffer_write p rb)"])
      (auto simp: flb_ring_buffer_write_def rb_holds_def Let_def)
qed

lemma ring_read_empty: "rb_holds cap [] rb \<Longrightarrow> flb_ring_buffer_read rb = (None, rb)"
  by (simp add: rb_holds_def queued_def flb_ring_buffer_read_def lwrb_read_def)

lemma ring_read_first:
  assumes h: "rb_holds cap (p # ps) rb"
  obtains rb' where "flb_ring_buffer_read rb = (Some p, rb')" and "rb_holds cap ps rb'" and "rb_data_size rb' = rb_data_size rb"
proof -
  let ?b = "rb_ctx rb"
  have b: "lwrb_wf ?b" and sz: "lw_size ?b = ptr_size * cap + 1" and q: "queued (p # ps) ?b" using h by (simp_all add: rb_holds_def)
  have d: "min (lwrb_get_full ?b) ptr_size = ptr_size" "ptr_size \<noteq> 0" "reader_ok (R_Linear ptr_size) ?b"
    using q by (simp_all add: queued_def ptr_size_def)
  obtain d1 r1 n where l: "read_linear ptr_size ?b = (d1, r1, n)" by (metis prod.exhaust)
  obtain d2 r2 where w: "read_wrap d1 r1 n ?b = (d2, r2)" by (metis prod.exhaust)
  have "reader_step (R_Linear ptr_size) rb = (R_Wrap d1 r1 n, rb)" using l by simp
  from linear_read(2) [OF b d(3) this refl] have "reader_ok (R_Wrap d1 r1 n) ?b" .
  from wrap_read(2) [where rb = rb and rb' = rb and r = "R_Commit d2 r2", OF b this _ refl] w have "reader_ok (R_Commit d2 r2) ?b" by simp
  from commit_read [OF b this q] obtain p' ps' where c: "p # ps = p' # ps'" "bytes_ptr d2 = p'" "lwrb_wf (read_commit r2 ?b)"
    "queued ps' (read_commit r2 ?b)" by blast
  have "lwrb_read ptr_size ?b = (ptr_size, d2, read_commit r2 ?b)" using d l w b by (simp add: lwrb_read_def)
  then show ?thesis using d(2) c sz by (intro that [of "rb\<lparr>rb_ctx := read_commit r2 ?b\<rparr>"])
    (auto simp: flb_ring_buffer_read_def rb_holds_def read_commit_def)
qed

section \<open>Properties\<close>

text \<open>A run with room for two pointers: the second one is written after the engine has found the buffer empty and before it resets the flag.\<close>

definition sample_ring :: ring_run where
  "sample_ring = \<lparr>rr_rb = snd (flb_ring_buffer_add_event_loop True True True 5 (the (flb_ring_buffer_create True (ptr_size * 2)))),
     rr_writer = W_Idle, rr_reader = R_Idle, rr_sent = [], rr_got = []\<rparr>"

definition sample_ring_ops :: "ring_op list" where
  "sample_ring_ops = Write 17 # replicate 7 Writer_Step @ [Drain, Read] @ replicate 3 Reader_Step @ [Read, Write 4294967295]
     @ replicate 5 Writer_Step @ [Clear_Pending]"

definition sample_ring_end :: ring_run where
  "sample_ring_end = the (steps ring_enabled ring_exec sample_ring_ops sample_ring)"

lemma sample_ring_steps: "steps ring_enabled ring_exec sample_ring_ops sample_ring = Some sample_ring_end"
proof -
  have "steps ring_enabled ring_exec sample_ring_ops sample_ring \<noteq> None" by code_simp
  then show ?thesis by (auto simp: sample_ring_end_def)
qed

lemma sample_ring_init: "ring_init 2 sample_ring"
proof -
  have "flb_ring_buffer_create True (ptr_size * 2) \<noteq> None" by code_simp
  moreover have "fst (flb_ring_buffer_add_event_loop True True True 5 (the (flb_ring_buffer_create True (ptr_size * 2)))) = 0" by code_simp
  ultimately show ?thesis unfolding ring_init_def sample_ring_def
    by (auto simp: ptr_size_def intro!: exI [of _ "5 :: nat"] prod_eqI)
qed

lemma sample_ring_reachable: "reach (ring_init 2) ring_enabled ring_exec sample_ring_end"
  by (rule reach_steps [OF _ sample_ring_steps]) (rule reach.reach_init, rule sample_ring_init)

text \<open>
  C21: With one thread that writes and one that reads, without a lock and interleaved in any way, a ring buffer is a queue: the pointers
  read are the first ones that were written, in their order and whole, and those in between are in the buffer, at most as many as it has room for.
\<close>

theorem ring_buffer_fifo:
  assumes "reach (ring_init cap) ring_enabled ring_exec s"
  shows "\<exists>ps. rr_sent s = rr_got s @ ps \<and> length ps \<le> cap
    \<and> slice (lw_buff (rb_ctx (rr_rb s))) (lw_r (rb_ctx (rr_rb s))) (lwrb_get_full (rb_ctx (rr_rb s))) = concat (map ptr_bytes ps)"
proof -
  let ?b = "rb_ctx (rr_rb s)"
  from ring.reach_inv [OF assms] obtain ps where ps: "rr_sent s = rr_got s @ ps" "queued ps ?b" "lwrb_wf ?b" "lw_size ?b = ptr_size * cap + 1"
    by (auto simp: ring_inv_def Let_def)
  then show ?thesis using queued_bound [OF ps(2-4)] by (intro exI [of _ ps]) (simp add: queued_def)
qed

lemma ring_buffer_fifo_witness: "\<exists>ps. rr_sent sample_ring_end = rr_got sample_ring_end @ ps \<and> ps = [4294967295]"
proof -
  from ring_buffer_fifo [OF sample_ring_reachable] obtain ps where "rr_sent sample_ring_end = rr_got sample_ring_end @ ps" by blast
  moreover have "rr_sent sample_ring_end = [17, 4294967295]" "rr_got sample_ring_end = [17]" by code_simp+
  ultimately show ?thesis by simp
qed

text \<open>
  A request to flush can be lost: a pointer waits, the window is reached, and neither the flag nor the channel tells. The timer of
  the collector finds it.
\<close>

lemma flush_request_lost:
  "let rb = rr_rb sample_ring_end in
     rr_writer sample_ring_end = W_Idle \<and> rr_reader sample_ring_end = R_Idle \<and> lwrb_get_full (rb_ctx rb) = 8
     \<and> lwrb_get_full (rb_ctx rb) \<ge> rb_data_window rb \<and> \<not> rb_flush_pending rb \<and> rb_signals rb = 0"
  by code_simp

end
