(* ===== verification/Input_Ring.thy ===== *)
theory Input_Ring
  imports Ring_Run Engine_Run
begin

text \<open>
  Data of inputs that run in their own thread (\<^verbatim>\<open>src/src/flb_input_chunk.c\<close>): the thread copies what it appends into a raw chunk
  and writes the pointer to the ring buffer of the input; the collector of the engine reads the pointers, appends the data to the
  chunks of the input and frees the raw chunk. Going through the ring buffer is the same as appending in the engine.
\<close>

section \<open>State and operations\<close>

record input_chunk_raw =
  cr_ins :: int
  cr_event_type :: int
  cr_records :: int
  cr_tag :: "cstring option"
  cr_buf_data :: cstring

text \<open>The engine, the ring buffers by the id of the input, and the raw chunks that are allocated.\<close>

record 'c threaded =
  td_config :: "'c flb_config"
  td_rb :: "int \<rightharpoonup> flb_ring_buffer"
  td_raws :: "u64 \<rightharpoonup> input_chunk_raw"

text \<open>The address of the raw chunk or NULL, and the outcome of the other allocations.\<close>

record raw_env =
  re_calloc :: "u64 option"
  re_tag :: bool
  re_buf :: bool

definition destroy_chunk_raw :: "u64 \<Rightarrow> 'c threaded \<Rightarrow> 'c threaded option" where
  "destroy_chunk_raw p s = (if td_raws s p = None then None else Some (s\<lparr>td_raws := (td_raws s)(p := None)\<rparr>))"

text \<open>The attempts that are left; \<open>wait\<close> is what the other threads do during the sleep after an attempt.\<close>

fun append_retry :: "(nat \<Rightarrow> 'c threaded \<Rightarrow> 'c threaded) \<Rightarrow> int \<Rightarrow> u64 \<Rightarrow> nat \<Rightarrow> 'c threaded \<Rightarrow> (int \<times> 'c threaded) option" where
  "append_retry wait n p 0 s = do { s \<leftarrow> destroy_chunk_raw p s; Some (-1, s) }"
| "append_retry wait n p (Suc k) s = do {
     rb \<leftarrow> td_rb s n;
     (case flb_ring_buffer_write p rb of
        (ret, rb) \<Rightarrow>
          if ret = -1 then append_retry wait n p k (wait k s)
          else Some (0, s\<lparr>td_rb := (td_rb s)(n \<mapsto> rb)\<rparr>))}"

definition append_to_ring_buffer ::
  "raw_env \<Rightarrow> (nat \<Rightarrow> 'c threaded \<Rightarrow> 'c threaded) \<Rightarrow> int \<Rightarrow> int \<Rightarrow> int \<Rightarrow> cstring option \<Rightarrow> cstring \<Rightarrow> 'c threaded \<Rightarrow> (int \<times> 'c threaded) option" where
  "append_to_ring_buffer e wait n event_type records tag buf s =
     (if buf = [] then Some (-1, s)
      else
        case re_calloc e of
          None \<Rightarrow> Some (-1, s)
        | Some p \<Rightarrow>
            let tag = (if tag = Some [] then None else tag) in
            if tag \<noteq> None \<and> \<not> re_tag e then Some (-1, s)
            else if \<not> re_buf e then Some (-1, s)
            else append_retry wait n p 10 (s\<lparr>td_raws := (td_raws s)(p \<mapsto>
                   \<lparr>cr_ins = n, cr_event_type = event_type, cr_records = records, cr_tag = tag, cr_buf_data = buf\<rparr>)\<rparr>))"

definition flb_input_chunk_append_raw ::
  "(int \<Rightarrow> bool) \<Rightarrow> 'c env \<Rightarrow> raw_env \<Rightarrow> (nat \<Rightarrow> 'c threaded \<Rightarrow> 'c threaded) \<Rightarrow> int \<Rightarrow> int \<Rightarrow> int \<Rightarrow> cstring option \<Rightarrow> cstring
   \<Rightarrow> 'c threaded \<Rightarrow> (int \<times> 'c threaded) option" where
  "flb_input_chunk_append_raw is_threaded e re wait n event_type records tag buf s =
     (if is_threaded n then append_to_ring_buffer re wait n event_type records tag buf s
      else do {
        (ret, c) \<leftarrow> input_chunk_append_raw e n event_type records tag buf (td_config s);
        Some (ret, s\<lparr>td_config := c\<rparr>)})"

text \<open>
  The loop of the collector on one input; \<open>None\<close> also when the fuel is used up. A pointer that is NULL is skipped. The
  environment may differ from one record to the next.
\<close>

definition input_paused :: "'c flb_config \<Rightarrow> int \<Rightarrow> bool option" where
  "input_paused c n = map_option flb_input_buf_paused (find_in c n)"

definition append_chunk_raw :: "'c env \<Rightarrow> input_chunk_raw \<Rightarrow> 'c flb_config \<Rightarrow> 'c flb_config option" where
  "append_chunk_raw e cr c =
     map_option snd (input_chunk_append_raw e (cr_ins cr) (cr_event_type cr) (cr_records cr) (cr_tag cr) (cr_buf_data cr) c)"

fun collect_loop :: "(nat \<Rightarrow> 'c env) \<Rightarrow> int \<Rightarrow> nat \<Rightarrow> 'c threaded \<Rightarrow> 'c threaded option" where
  "collect_loop e n 0 s = None"
| "collect_loop e n (Suc k) s = do {
     paused \<leftarrow> input_paused (td_config s) n;
     (if paused then Some s
      else do {
        rb \<leftarrow> td_rb s n;
        (case flb_ring_buffer_read rb of
           (None, _) \<Rightarrow> Some s
         | (Some p, rb) \<Rightarrow>
             let s = s\<lparr>td_rb := (td_rb s)(n \<mapsto> rb)\<rparr> in
             if p = 0 then collect_loop e n k s
             else do {
               cr \<leftarrow> td_raws s p;
               c \<leftarrow> append_chunk_raw (e k) cr (td_config s);
               s \<leftarrow> destroy_chunk_raw p (s\<lparr>td_config := c\<rparr>);
               collect_loop e n k s})})}"

text \<open>A turn of the loop takes at least one byte.\<close>

definition collect_fuel :: "int \<Rightarrow> 'c threaded \<Rightarrow> nat" where
  "collect_fuel n s = (case td_rb s n of None \<Rightarrow> 1 | Some rb \<Rightarrow> Suc (lwrb_get_full (rb_ctx rb)))"

definition collect_input :: "(nat \<Rightarrow> 'c env) \<Rightarrow> int \<Rightarrow> 'c threaded \<Rightarrow> 'c threaded option" where
  "collect_input e n s = do {
     s \<leftarrow> collect_loop e n (collect_fuel n s) s;
     rb \<leftarrow> td_rb s n;
     Some (s\<lparr>td_rb := (td_rb s)(n \<mapsto> rb\<lparr>rb_flush_pending := False\<rparr>)\<rparr>)}"

fun collect_inputs :: "(int \<Rightarrow> nat \<Rightarrow> 'c env) \<Rightarrow> int list \<Rightarrow> 'c threaded \<Rightarrow> 'c threaded option" where
  "collect_inputs e [] s = Some s"
| "collect_inputs e (n # ns) s = do { s \<leftarrow> collect_input (e n) n s; collect_inputs e ns s }"

definition flb_input_chunk_ring_buffer_collector :: "(int \<Rightarrow> nat \<Rightarrow> 'c env) \<Rightarrow> 'c threaded \<Rightarrow> 'c threaded option" where
  "flb_input_chunk_ring_buffer_collector e s = collect_inputs e (map i_id (cf_inputs (td_config s))) s"

fun cleanup_loop :: "int \<Rightarrow> nat \<Rightarrow> 'c threaded \<Rightarrow> 'c threaded option" where
  "cleanup_loop n 0 s = None"
| "cleanup_loop n (Suc k) s = do {
     rb \<leftarrow> td_rb s n;
     (case flb_ring_buffer_read rb of
        (None, _) \<Rightarrow> Some s
      | (Some p, rb) \<Rightarrow>
          let s = s\<lparr>td_rb := (td_rb s)(n \<mapsto> rb)\<rparr> in
          if p = 0 then cleanup_loop n k s else do { s \<leftarrow> destroy_chunk_raw p s; cleanup_loop n k s })}"

definition flb_input_chunk_ring_buffer_cleanup :: "int \<Rightarrow> 'c threaded \<Rightarrow> 'c threaded option" where
  "flb_input_chunk_ring_buffer_cleanup n s =
     (if td_rb s n = None then Some s else cleanup_loop n (collect_fuel n s) s)"

definition flb_ring_buffer_destroy :: "int \<Rightarrow> 'c threaded \<Rightarrow> 'c threaded option" where
  "flb_ring_buffer_destroy n s = do { _ \<leftarrow> td_rb s n; Some (s\<lparr>td_rb := (td_rb s)(n := None)\<rparr>) }"

section \<open>The ring buffer of an input holds raw chunks\<close>

text \<open>Pointers and raw chunks are paired in \<open>ps\<close>; the pointers are different and not NULL.\<close>

definition ring_holds :: "nat \<Rightarrow> int \<Rightarrow> (u64 \<times> input_chunk_raw) list \<Rightarrow> 'c threaded \<Rightarrow> bool" where
  "ring_holds cap n ps s \<longleftrightarrow>
     (\<exists>rb. td_rb s n = Some rb \<and> rb_holds cap (map fst ps) rb) \<and> distinct (map fst ps) \<and> 0 \<notin> fst ` set ps
     \<and> (\<forall>(p, cr) \<in> set ps. td_raws s p = Some cr)"

lemma ring_holds_fuel:
  assumes "ring_holds cap n ps s"
  shows "length ps < collect_fuel n s"
  using assms by (auto simp: ring_holds_def collect_fuel_def rb_holds_def queued_def ptr_size_def)

definition raw_of :: "int \<Rightarrow> int \<Rightarrow> int \<Rightarrow> cstring option \<Rightarrow> cstring \<Rightarrow> input_chunk_raw" where
  "raw_of n event_type records tag buf =
     \<lparr>cr_ins = n, cr_event_type = event_type, cr_records = records, cr_tag = (if tag = Some [] then None else tag), cr_buf_data = buf\<rparr>"

text \<open>The allocator gives memory that is not in use.\<close>

definition fresh_raw :: "u64 \<Rightarrow> 'c threaded \<Rightarrow> bool" where
  "fresh_raw p s \<longleftrightarrow> p \<noteq> 0 \<and> td_raws s p = None"

lemma append_room:
  assumes h: "ring_holds cap n ps s" and room: "length ps < cap" and e: "re_calloc e = Some p" "re_tag e" "re_buf e"
    and p: "fresh_raw p s" and buf: "buf \<noteq> []"
  obtains s' where "append_to_ring_buffer e wait n ty k tag buf s = Some (0, s')" and "ring_holds cap n (ps @ [(p, raw_of n ty k tag buf)]) s'"
    and "td_config s' = td_config s" and "td_raws s' = (td_raws s)(p \<mapsto> raw_of n ty k tag buf)" and "\<forall>m. m \<noteq> n \<longrightarrow> td_rb s' m = td_rb s m"
proof -
  let ?cr = "raw_of n ty k tag buf"
  let ?s = "s\<lparr>td_raws := (td_raws s)(p \<mapsto> ?cr)\<rparr>"
  from h obtain rb where rb: "td_rb s n = Some rb" "rb_holds cap (map fst ps) rb" by (auto simp: ring_holds_def)
  obtain rb' where w: "flb_ring_buffer_write p rb = (0, rb')" "rb_holds cap (map fst ps @ [p]) rb'"
    by (rule ring_write_room [OF rb(2), of p]) (use room in auto)
  have ten: "(10 :: nat) = Suc 9" by simp
  have attempt: "append_retry wait n p (Suc j) ?s = Some (0, ?s\<lparr>td_rb := (td_rb s)(n \<mapsto> rb')\<rparr>)" for j using rb(1) w(1) by simp
  have "append_to_ring_buffer e wait n ty k tag buf s = append_retry wait n p 10 ?s"
    using e buf by (simp add: append_to_ring_buffer_def raw_of_def Let_def)
  also have "\<dots> = Some (0, ?s\<lparr>td_rb := (td_rb s)(n \<mapsto> rb')\<rparr>)" by (subst ten) (rule attempt)
  finally have a: "append_to_ring_buffer e wait n ty k tag buf s = \<dots>" .
  have "p \<notin> fst ` set ps" using h p by (force simp: ring_holds_def fresh_raw_def)
  then have "ring_holds cap n (ps @ [(p, ?cr)]) (?s\<lparr>td_rb := (td_rb s)(n \<mapsto> rb')\<rparr>)"
    using h w(2) p by (force simp: ring_holds_def fresh_raw_def)
  with a show ?thesis by (intro that [OF a]) simp_all
qed

text \<open>When the buffer is full and nobody reads it, the data is refused and nothing of it stays allocated.\<close>

lemma append_refused:
  assumes h: "ring_holds cap n ps s" "length ps \<ge> cap" and e: "re_calloc e = Some p" "fresh_raw p s"
  shows "append_to_ring_buffer e (\<lambda>_ s. s) n ty k tag buf s = Some (-1, s)"
proof -
  from h obtain rb where rb: "td_rb s n = Some rb" "rb_holds cap (map fst ps) rb" by (auto simp: ring_holds_def)
  have wr: "flb_ring_buffer_write p rb = (-1, rb)" by (rule ring_write_full [OF rb(2)]) (use h(2) in simp)
  have "append_retry (\<lambda>_ s. s) n p j (s\<lparr>td_raws := (td_raws s)(p \<mapsto> cr)\<rparr>) = Some (-1, s)" for j cr
  proof (induction j)
    case 0
    show ?case using e(2) by (cases s) (auto simp: destroy_chunk_raw_def fresh_raw_def fun_eq_iff)
  next
    case (Suc j)
    then show ?case using rb(1) wr by simp
  qed
  then show ?thesis using e(1) by (simp add: append_to_ring_buffer_def Let_def)
qed

section \<open>Collecting is appending in order\<close>

text \<open>The raw chunks in order, until the input is paused: what is left, and the engine.\<close>

fun feed :: "(nat \<Rightarrow> 'c env) \<Rightarrow> int \<Rightarrow> nat \<Rightarrow> input_chunk_raw list \<Rightarrow> 'c flb_config \<Rightarrow> (nat \<times> 'c flb_config) option" where
  "feed e n k [] c = do { _ \<leftarrow> input_paused c n; Some (0, c) }"
| "feed e n k (cr # crs) c = do {
     paused \<leftarrow> input_paused c n;
     (if paused then Some (0, c)
      else do { c \<leftarrow> append_chunk_raw (e (k - 1)) cr c; (taken, c) \<leftarrow> feed e n (k - 1) crs c; Some (Suc taken, c) })}"

text \<open>The state after the first \<open>k\<close> raw chunks are collected.\<close>

definition collected :: "nat \<Rightarrow> int \<Rightarrow> (u64 \<times> input_chunk_raw) list \<Rightarrow> nat \<Rightarrow> 'c flb_config \<Rightarrow> 'c threaded \<Rightarrow> 'c threaded \<Rightarrow> bool" where
  "collected cap n ps k c s s' \<longleftrightarrow>
     td_config s' = c \<and> ring_holds cap n (drop k ps) s' \<and> (\<forall>m. m \<noteq> n \<longrightarrow> td_rb s' m = td_rb s m)
     \<and> td_raws s' = (\<lambda>p. if p \<in> fst ` set (take k ps) then None else td_raws s p)"

lemma collect_feeds:
  assumes "ring_holds cap n ps s" and "length ps < k"
  shows "case feed e n k (map snd ps) (td_config s) of
     None \<Rightarrow> collect_loop e n k s = None
   | Some (taken, c) \<Rightarrow> \<exists>s'. collect_loop e n k s = Some s' \<and> collected cap n ps taken c s s'"
  using assms
proof (induction ps arbitrary: s k)
  case Nil
  then obtain j where j: "k = Suc j" by (cases k) auto
  from Nil obtain rb where "td_rb s n = Some rb" "rb_holds cap [] rb" by (auto simp: ring_holds_def)
  then show ?case using Nil j ring_read_empty by (cases "input_paused (td_config s) n") (auto simp: collected_def)
next
  case (Cons x ps)
  obtain p cr where x: "x = (p, cr)" by (cases x)
  obtain j where j: "k = Suc j" "length ps < j" using Cons.prems(2) by (cases k) auto
  from Cons.prems(1) obtain rb where rb: "td_rb s n = Some rb" "rb_holds cap (p # map fst ps) rb"
    and d: "p \<notin> fst ` set ps" "distinct (map fst ps)" "p \<noteq> 0" "0 \<notin> fst ` set ps" "td_raws s p = Some cr"
      "\<forall>(q, cr) \<in> set ps. td_raws s q = Some cr" by (auto simp: ring_holds_def x)
  obtain rb' where rd: "flb_ring_buffer_read rb = (Some p, rb')" "rb_holds cap (map fst ps) rb'" by (rule ring_read_first [OF rb(2)])
  let ?s = "\<lambda>c. s\<lparr>td_rb := (td_rb s)(n \<mapsto> rb'), td_config := c, td_raws := (td_raws s)(p := None)\<rparr>"
  consider "input_paused (td_config s) n = None" | "input_paused (td_config s) n = Some True"
    | "input_paused (td_config s) n = Some False" by (cases "input_paused (td_config s) n") auto
  then show ?case
  proof cases
    case 1
    then show ?thesis by (simp add: j)
  next
    case 2
    then show ?thesis using Cons.prems(1) by (simp add: j collected_def)
  next
    case 3
    show ?thesis
    proof (cases "append_chunk_raw (e j) cr (td_config s)")
      case None
      then show ?thesis using 3 rb(1) rd(1) d by (simp add: j x)
    next
      case (Some c)
      have "\<forall>(q, cr) \<in> set ps. q \<noteq> p \<and> td_raws s q = Some cr" using d(1,6) by force
      then have "ring_holds cap n ps (?s c)" using rd(2) d(2,4) by (auto simp: ring_holds_def)
      note IH = Cons.IH [OF this j(2)]
      have step: "collect_loop e n k s = collect_loop e n j (?s c)"
        using 3 rb(1) rd(1) d Some by (simp add: j destroy_chunk_raw_def)
      show ?thesis
      proof (cases "feed e n j (map snd ps) c")
        case None
        then show ?thesis using IH step 3 Some by (simp add: j x)
      next
        case (Some r)
        then obtain taken c' where r: "feed e n j (map snd ps) c = Some (taken, c')" by (cases r) auto
        with IH obtain s' where s': "collect_loop e n j (?s c) = Some s'" "collected cap n ps taken c' (?s c) s'" by auto
        have "collected cap n (x # ps) (Suc taken) c' s s'" using s'(2) d(5) by (auto simp: collected_def x fun_eq_iff)
        then show ?thesis using r s'(1) step 3 \<open>append_chunk_raw (e j) cr (td_config s) = Some c\<close> by (simp add: j x)
      qed
    qed
  qed
qed

lemma collect_input_feeds:
  assumes h: "ring_holds cap n ps s"
  shows "case feed e n (collect_fuel n s) (map snd ps) (td_config s) of
     None \<Rightarrow> collect_input e n s = None
   | Some (taken, c) \<Rightarrow> \<exists>s'. collect_input e n s = Some s' \<and> collected cap n ps taken c s s'"
proof (cases "feed e n (collect_fuel n s) (map snd ps) (td_config s)")
  case None
  then show ?thesis using collect_feeds [OF h ring_holds_fuel [OF h], of e] by (simp add: collect_input_def)
next
  case (Some r)
  then obtain taken c where r: "feed e n (collect_fuel n s) (map snd ps) (td_config s) = Some (taken, c)" by (cases r) auto
  with collect_feeds [OF h ring_holds_fuel [OF h], of e] obtain s' where
    s': "collect_loop e n (collect_fuel n s) s = Some s'" "collected cap n ps taken c s s'" by auto
  then obtain rb where rb: "td_rb s' n = Some rb" by (auto simp: collected_def ring_holds_def)
  let ?s = "s'\<lparr>td_rb := (td_rb s')(n \<mapsto> rb\<lparr>rb_flush_pending := False\<rparr>)\<rparr>"
  have "collected cap n ps taken c s ?s" using s'(2) rb by (auto simp: collected_def ring_holds_def rb_holds_def)
  moreover have "collect_input e n s = Some ?s" using s'(1) rb by (simp add: collect_input_def)
  ultimately show ?thesis using r by auto
qed

section \<open>The collector is a run of the engine\<close>

lemma append_chunk_raw_step: "append_chunk_raw e cr c = Some c' \<Longrightarrow> engine_step c c'"
  by (auto simp: append_chunk_raw_def intro: engine_step.append)

lemma collect_loop_reachable:
  assumes "collect_loop e n k s = Some s'" and "engine_reachable (td_config s)"
  shows "engine_reachable (td_config s')"
  using assms
proof (induction k arbitrary: s)
  case 0
  then show ?case by simp
next
  case (Suc k)
  from Suc.prems(1) obtain paused where pa: "input_paused (td_config s) n = Some paused" by (auto simp: bind_eq_Some_conv)
  show ?case
  proof (cases paused)
    case True
    then show ?thesis using Suc.prems pa by simp
  next
    case False
    from Suc.prems(1) pa False obtain rb where rb: "td_rb s n = Some rb" by (auto simp: bind_eq_Some_conv)
    obtain q rb' where rd: "flb_ring_buffer_read rb = (q, rb')" by (cases "flb_ring_buffer_read rb")
    let ?s = "s\<lparr>td_rb := (td_rb s)(n \<mapsto> rb')\<rparr>"
    consider "q = None" | "q = Some 0" | p where "q = Some p" "p \<noteq> 0" by (cases q) auto
    then show ?thesis
    proof cases
      case 1
      then show ?thesis using Suc.prems pa False rb rd by simp
    next
      case 2
      then have "collect_loop e n k ?s = Some s'" using Suc.prems(1) pa False rb rd by simp
      then show ?thesis using Suc.IH [of ?s] Suc.prems(2) by simp
    next
      case (3 p)
      then obtain cr c s1 where c: "append_chunk_raw (e k) cr (td_config s) = Some c" "destroy_chunk_raw p (?s\<lparr>td_config := c\<rparr>) = Some s1"
        "collect_loop e n k s1 = Some s'" using Suc.prems(1) pa False rb rd by (auto simp: bind_eq_Some_conv)
      have "td_config s1 = c" using c(2) by (auto simp: destroy_chunk_raw_def split: if_splits)
      then show ?thesis using Suc.IH [OF c(3)] engine_reachable.step [OF Suc.prems(2) append_chunk_raw_step [OF c(1)]] by simp
    qed
  qed
qed

lemma collect_inputs_reachable:
  "collect_inputs e ns s = Some s' \<Longrightarrow> engine_reachable (td_config s) \<Longrightarrow> engine_reachable (td_config s')"
proof (induction e ns s rule: collect_inputs.induct)
  case (2 e n ns s)
  then show ?case by (fastforce simp: collect_input_def bind_eq_Some_conv dest: collect_loop_reachable)
qed simp

section \<open>Properties\<close>

text \<open>What a thread appends: the outcome of its allocations, what happens while it sleeps, and the arguments of the call.\<close>

type_synonym 'c append_args = "raw_env \<times> (nat \<Rightarrow> 'c threaded \<Rightarrow> 'c threaded) \<times> int \<times> int \<times> cstring option \<times> cstring"

fun append_all :: "'c append_args list \<Rightarrow> int \<Rightarrow> 'c threaded \<Rightarrow> (int list \<times> 'c threaded) option" where
  "append_all [] n s = Some ([], s)"
| "append_all ((e, wait, ty, k, tag, buf) # xs) n s = do {
     (ret, s) \<leftarrow> append_to_ring_buffer e wait n ty k tag buf s;
     (rets, s) \<leftarrow> append_all xs n s;
     Some (ret # rets, s)}"

definition raw_at :: "int \<Rightarrow> 'c append_args \<Rightarrow> u64 \<times> input_chunk_raw" where
  "raw_at n x = (case x of (e, wait, ty, k, tag, buf) \<Rightarrow> (the (re_calloc e), raw_of n ty k tag buf))"

text \<open>The allocations succeed, with memory that is not in use, and there is data.\<close>

definition raws_ok :: "'c append_args list \<Rightarrow> int \<Rightarrow> 'c threaded \<Rightarrow> bool" where
  "raws_ok xs n s \<longleftrightarrow>
     distinct (map (fst \<circ> raw_at n) xs)
     \<and> (\<forall>x \<in> set xs. fresh_raw (fst (raw_at n x)) s)
     \<and> (\<forall>(e, wait, ty, k, tag, buf) \<in> set xs. buf \<noteq> [] \<and> re_tag e \<and> re_buf e \<and> re_calloc e \<noteq> None)"

lemma append_all_holds:
  assumes "ring_holds cap n ps s" and "length ps + length xs \<le> cap" and "raws_ok xs n s"
  shows "\<exists>s'. append_all xs n s = Some (replicate (length xs) 0, s') \<and> ring_holds cap n (ps @ map (raw_at n) xs) s'
    \<and> td_config s' = td_config s \<and> td_raws s' = td_raws s ++ map_of (rev (map (raw_at n) xs)) \<and> (\<forall>m. m \<noteq> n \<longrightarrow> td_rb s' m = td_rb s m)"
  using assms
proof (induction xs arbitrary: ps s)
  case Nil
  then show ?case by simp
next
  case (Cons x xs)
  obtain e wait ty k tag buf where x: "x = (e, wait, ty, k, tag, buf)" by (cases x)
  from Cons.prems(3) obtain p where p: "re_calloc e = Some p" "fresh_raw p s" "buf \<noteq> []" "re_tag e" "re_buf e"
    by (auto simp: raws_ok_def raw_at_def x)
  have rx: "raw_at n x = (p, raw_of n ty k tag buf)" by (simp add: raw_at_def x p(1))
  obtain s1 where a: "append_to_ring_buffer e wait n ty k tag buf s = Some (0, s1)" "ring_holds cap n (ps @ [raw_at n x]) s1"
    "td_config s1 = td_config s" "td_raws s1 = (td_raws s)(p \<mapsto> raw_of n ty k tag buf)" "\<forall>m. m \<noteq> n \<longrightarrow> td_rb s1 m = td_rb s m"
    by (rule append_room [OF Cons.prems(1) _ p(1,4,5,2,3), of wait ty k tag]) (use Cons.prems(2) rx in auto)
  have ne: "\<forall>y \<in> set xs. fst (raw_at n y) \<noteq> p" using Cons.prems(3) rx by (force simp: raws_ok_def)
  then have "raws_ok xs n s1" using Cons.prems(3) a(4) by (simp add: raws_ok_def fresh_raw_def)
  from Cons.IH [OF a(2) _ this] Cons.prems(2) obtain s2 where
    b: "append_all xs n s1 = Some (replicate (length xs) 0, s2)" "ring_holds cap n (ps @ raw_at n x # map (raw_at n) xs) s2"
      "td_config s2 = td_config s1" "td_raws s2 = td_raws s1 ++ map_of (rev (map (raw_at n) xs))" "\<forall>m. m \<noteq> n \<longrightarrow> td_rb s2 m = td_rb s1 m"
    by auto
  have "p \<notin> fst ` set (rev (map (raw_at n) xs))" using ne by auto
  then have "map_of (rev (map (raw_at n) xs)) p = None" by (simp only: map_of_eq_None_iff not_False_eq_True)
  then have "td_raws s2 = td_raws s ++ map_of (rev (map (raw_at n) (x # xs)))"
    using a(4) b(4) rx by (auto simp: fun_eq_iff map_add_def split: option.split)
  then show ?case using a b x by auto
qed

text \<open>
  C22: Going through the ring buffer is appending in the engine: when a thread appends to an empty ring buffer with room, every call succeeds, and
  the collector appends the data in that order, each with its own type, number of records and tag, until the input is paused. What it has appended is
  freed, what it has not stays in the buffer in order.
\<close>

theorem threaded_append_equiv:
  assumes "ring_holds cap n [] s" and "length xs \<le> cap" and "raws_ok xs n s"
  shows "\<exists>s1. append_all xs n s = Some (replicate (length xs) 0, s1) \<and> td_config s1 = td_config s
    \<and> (case feed e n (collect_fuel n s1) (map (snd \<circ> raw_at n) xs) (td_config s) of
         None \<Rightarrow> collect_input e n s1 = None
       | Some (taken, c) \<Rightarrow>
           \<exists>s2. collect_input e n s1 = Some s2 \<and> td_config s2 = c \<and> ring_holds cap n (drop taken (map (raw_at n) xs)) s2
             \<and> dom (td_raws s2) = dom (td_raws s) \<union> (fst \<circ> raw_at n) ` set (drop taken xs))"
proof -
  from append_all_holds [OF assms(1) _ assms(3)] assms(2) obtain s1 where
    a: "append_all xs n s = Some (replicate (length xs) 0, s1)" "ring_holds cap n (map (raw_at n) xs) s1" "td_config s1 = td_config s"
      "td_raws s1 = td_raws s ++ map_of (rev (map (raw_at n) xs))" by auto
  let ?feed = "feed e n (collect_fuel n s1) (map (snd \<circ> raw_at n) xs) (td_config s)"
  have f: "case ?feed of
      None \<Rightarrow> collect_input e n s1 = None
    | Some (taken, c) \<Rightarrow> \<exists>s2. collect_input e n s1 = Some s2 \<and> collected cap n (map (raw_at n) xs) taken c s1 s2"
    using collect_input_feeds [OF a(2), of e] a(3) by simp
  have d: "dom (td_raws s2) = dom (td_raws s) \<union> (fst \<circ> raw_at n) ` set (drop taken xs)"
    if "collected cap n (map (raw_at n) xs) taken c s1 s2" for taken c s2
  proof -
    let ?f = "fst \<circ> raw_at n"
    have "set xs = set (take taken xs) \<union> set (drop taken xs)" by (metis append_take_drop_id set_append)
    moreover have "?f ` set (take taken xs) \<inter> ?f ` set (drop taken xs) = {}"
    proof -
      have "distinct (map ?f (take taken xs @ drop taken xs))" using assms(3) by (simp add: raws_ok_def)
      then show ?thesis by (simp only: map_append distinct_append set_map)
    qed
    moreover have "?f ` set xs \<inter> dom (td_raws s) = {}" using assms(3) by (auto simp: raws_ok_def fresh_raw_def)
    moreover have "dom (td_raws s2) = dom (td_raws s1) - ?f ` set (take taken xs)"
      using that by (auto simp: collected_def dom_def take_map image_comp)
    moreover have "dom (td_raws s1) = dom (td_raws s) \<union> ?f ` set xs" using a(4) by (auto simp: dom_map_of_conv_image_fst image_comp)
    ultimately show ?thesis by (simp only:) (auto simp only: image_Un)
  qed
  show ?thesis
  proof (cases ?feed)
    case None
    then show ?thesis using a(1,3) f by (intro exI [of _ s1]) simp
  next
    case (Some r)
    then obtain taken c s2 where r: "?feed = Some (taken, c)" "collect_input e n s1 = Some s2" "collected cap n (map (raw_at n) xs) taken c s1 s2"
      using f by (cases r) auto
    have "td_config s2 = c" "ring_holds cap n (drop taken (map (raw_at n) xs)) s2" using r(3) by (simp_all add: collected_def)
    then show ?thesis using a(1,3) r(1,2) d [OF r(3)] by (intro exI [of _ s1]) simp
  qed
qed

text \<open>An input that is paused, with room for two raw chunks.\<close>

definition sample_threaded :: "cstring threaded" where
  "sample_threaded = \<lparr>td_config = sample_config\<lparr>cf_inputs := [sample_input\<lparr>mem_buf_paused := True\<rparr>]\<rparr>,
     td_rb = [0 \<mapsto> the (flb_ring_buffer_create True (ptr_size * 2))], td_raws = Map.empty\<rparr>"

definition sample_append :: "u64 \<Rightarrow> cstring \<Rightarrow> cstring append_args" where
  "sample_append p buf = (\<lparr>re_calloc = Some p, re_tag = True, re_buf = True\<rparr>, \<lambda>_ s. s, 0, 1, Some ''t'', buf)"

lemma sample_threaded_holds: "ring_holds 2 0 [] sample_threaded"
proof -
  obtain rb where "flb_ring_buffer_create True (ptr_size * 2) = Some rb"
    by (auto simp: flb_ring_buffer_create_def lwrb_init_def ptr_size_def)
  then show ?thesis using create_ctx [of True "ptr_size * 2" rb]
    by (simp add: ring_holds_def sample_threaded_def rb_holds_def lwrb_wf_def queued_def lwrb_get_full_def ptr_size_def)
qed

lemma sample_paused: "input_paused (td_config sample_threaded) 0 = Some True"
  by (simp add: input_paused_def find_in_def sample_threaded_def sample_input_def flb_input_buf_paused_def)

lemma threaded_append_equiv_witness:
  "\<exists>s1 s2. append_all [sample_append 4096 ''ab'', sample_append 8192 ''cd''] 0 sample_threaded = Some ([0, 0], s1)
     \<and> collect_input (\<lambda>_. sample_env) 0 s1 = Some s2 \<and> td_config s2 = td_config sample_threaded
     \<and> ring_holds 2 0 [(4096, raw_of 0 0 1 (Some ''t'') ''ab''), (8192, raw_of 0 0 1 (Some ''t'') ''cd'')] s2 \<and> dom (td_raws s2) = {4096, 8192}"
proof -
  let ?xs = "[sample_append 4096 ''ab'', sample_append 8192 ''cd'']"
  have ok: "raws_ok ?xs 0 sample_threaded" by (simp add: raws_ok_def sample_append_def raw_at_def fresh_raw_def sample_threaded_def)
  have r: "map (raw_at 0) ?xs = [(4096, raw_of 0 0 1 (Some ''t'') ''ab''), (8192, raw_of 0 0 1 (Some ''t'') ''cd'')]"
    by (simp add: raw_at_def sample_append_def)
  have "length ?xs \<le> 2" by simp
  from threaded_append_equiv [OF sample_threaded_holds this ok, where e = "\<lambda>_. sample_env"] obtain s1 where
    s1: "append_all ?xs 0 sample_threaded = Some (replicate (length ?xs) 0, s1)"
    and f: "case feed (\<lambda>_. sample_env) 0 (collect_fuel 0 s1) (map (snd \<circ> raw_at 0) ?xs) (td_config sample_threaded) of
        None \<Rightarrow> collect_input (\<lambda>_. sample_env) 0 s1 = None
      | Some (taken, c) \<Rightarrow> \<exists>s2. collect_input (\<lambda>_. sample_env) 0 s1 = Some s2 \<and> td_config s2 = c
          \<and> ring_holds 2 0 (drop taken (map (raw_at 0) ?xs)) s2
          \<and> dom (td_raws s2) = dom (td_raws sample_threaded) \<union> (fst \<circ> raw_at 0) ` set (drop taken ?xs)"
    by (elim exE conjE)
  have "feed (\<lambda>_. sample_env) 0 (collect_fuel 0 s1) (map (snd \<circ> raw_at 0) ?xs) (td_config sample_threaded) = Some (0, td_config sample_threaded)"
    by (simp add: sample_paused)
  from f [unfolded this option.case prod.case drop_0 r] obtain s2 where
    s2: "collect_input (\<lambda>_. sample_env) 0 s1 = Some s2" "td_config s2 = td_config sample_threaded"
      "ring_holds 2 0 [(4096, raw_of 0 0 1 (Some ''t'') ''ab''), (8192, raw_of 0 0 1 (Some ''t'') ''cd'')] s2"
      "dom (td_raws s2) = dom (td_raws sample_threaded) \<union> (fst \<circ> raw_at 0) ` set ?xs" by (elim exE conjE)
  have "dom (td_raws s2) = {4096, 8192}" unfolding s2(4) by (simp add: sample_threaded_def sample_append_def raw_at_def)
  moreover have "append_all ?xs 0 sample_threaded = Some ([0, 0], s1)" using s1 by simp
  ultimately show ?thesis using s2(1-3) by (intro exI conjI)
qed

text \<open>
  Whatever the collector reads, it takes the engine from one reachable state to another: what holds in every reachable state of the engine holds
  with threaded inputs.
\<close>

theorem collector_reachable:
  assumes "flb_input_chunk_ring_buffer_collector e s = Some s'" and "engine_reachable (td_config s)"
  shows "engine_reachable (td_config s')"
  using assms by (auto simp: flb_input_chunk_ring_buffer_collector_def intro: collect_inputs_reachable)

text \<open>The cleanup of an input that is destroyed frees every raw chunk that waits.\<close>

lemma cleanup_frees:
  assumes "ring_holds cap n ps s" and "length ps < k"
  shows "\<exists>s'. cleanup_loop n k s = Some s' \<and> collected cap n ps (length ps) (td_config s) s s'"
  using assms
proof (induction ps arbitrary: s k)
  case Nil
  then obtain j rb where "k = Suc j" "td_rb s n = Some rb" "rb_holds cap [] rb" by (cases k) (auto simp: ring_holds_def)
  then show ?case using Nil ring_read_empty by (auto simp: collected_def)
next
  case (Cons x ps)
  obtain p cr where x: "x = (p, cr)" by (cases x)
  obtain j where j: "k = Suc j" "length ps < j" using Cons.prems(2) by (cases k) auto
  from Cons.prems(1) obtain rb where rb: "td_rb s n = Some rb" "rb_holds cap (p # map fst ps) rb"
    and d: "p \<notin> fst ` set ps" "distinct (map fst ps)" "p \<noteq> 0" "0 \<notin> fst ` set ps" "td_raws s p = Some cr"
      "\<forall>(q, cr) \<in> set ps. td_raws s q = Some cr" by (auto simp: ring_holds_def x)
  obtain rb' where rd: "flb_ring_buffer_read rb = (Some p, rb')" "rb_holds cap (map fst ps) rb'" by (rule ring_read_first [OF rb(2)])
  let ?s = "s\<lparr>td_rb := (td_rb s)(n \<mapsto> rb'), td_raws := (td_raws s)(p := None)\<rparr>"
  have "\<forall>(q, cr) \<in> set ps. q \<noteq> p \<and> td_raws s q = Some cr" using d(1,6) by force
  then have "ring_holds cap n ps ?s" using rd(2) d(2,4) by (auto simp: ring_holds_def)
  from Cons.IH [OF this j(2)] obtain s' where s': "cleanup_loop n j ?s = Some s'" "collected cap n ps (length ps) (td_config s) ?s s'" by auto
  have "cleanup_loop n k s = Some s'" using rb(1) rd(1) d s'(1) by (simp add: j destroy_chunk_raw_def)
  moreover have "collected cap n (x # ps) (length (x # ps)) (td_config s) s s'" using s'(2) by (auto simp: collected_def x fun_eq_iff)
  ultimately show ?case by blast
qed

end
