(* ===== verification/Multiline.thy ===== *)
theory Multiline
  imports Flb_Prelude "HOL-Library.Monad_Syntax"
begin

text \<open>
  Concatenation of multiline messages: \<^verbatim>\<open>src/src/multiline/flb_ml.c\<close>, \<^verbatim>\<open>flb_ml_rule.c\<close>,
  \<^verbatim>\<open>flb_ml_group.c\<close>, \<^verbatim>\<open>flb_ml_stream.c\<close> and \<^verbatim>\<open>flb_ml_parser.c\<close>.

  A context has groups of parser instances; an instance has a stream per source, and a stream has groups that buffer a message
  each. Lines and records are offered to the instances until one accepts them. Rules are named by their position in the
  list of their parser. MessagePack buffers hold the packed objects in order. Operations return the records
  given to the flush callback; \<open>None\<close> is undefined behaviour (a NULL pointer is followed).
\<close>

section \<open>Data\<close>

datatype mobj = MStr cstring | MMap "(mobj \<times> mobj) list" | MBool bool | MOther nat

type_synonym mmap = "(mobj \<times> mobj) list"

datatype ml_type = FLB_ML_REGEX | FLB_ML_ENDSWITH | FLB_ML_EQ

record flb_ml_rule =
  ru_start_state :: bool
  ru_from_states :: "cstring list"
  ru_to_state :: "cstring option"
  ru_to_state_map :: "nat list"
  ru_regex :: "cstring \<Rightarrow> bool"
  ru_regex_end :: "(cstring \<Rightarrow> bool) option"

text \<open>\<open>pa_parser\<close> is \<open>flb_parser_do\<close> of the parser that is applied first: it rejects the text, or gives a map and a time.\<close>

record flb_ml_parser =
  pa_name :: cstring
  pa_type :: ml_type
  pa_negate :: bool
  pa_flush_ms :: int
  pa_match_str :: cstring
  pa_key_content :: "cstring option"
  pa_key_pattern :: "cstring option"
  pa_key_group :: "cstring option"
  pa_parser :: "(cstring \<Rightarrow> (mmap \<times> nat) option) option"
  pa_regex_rules :: "flb_ml_rule list"

record flb_ml_stream_group =
  sg_name :: cstring
  sg_last_flush :: nat
  sg_buf :: cstring
  sg_first_line :: bool
  sg_rule_to_state :: "nat option"
  sg_mp_md_sbuf :: "mmap list"
  sg_mp_sbuf :: "mmap list"
  sg_mp_time :: nat
  sg_truncated :: bool

record flb_ml_stream =
  ms_id :: u64
  ms_groups :: "flb_ml_stream_group list"
  ms_last_stream_group :: "nat option"

record flb_ml_parser_ins =
  pi_ml_parser :: flb_ml_parser
  pi_key_content :: "cstring option"
  pi_key_pattern :: "cstring option"
  pi_key_group :: "cstring option"
  pi_last_stream_id :: u64
  pi_streams :: "flb_ml_stream list"

record flb_ml_group =
  gr_parsers :: "flb_ml_parser_ins list"
  gr_lru_parser :: "nat option"

record flb_ml =
  ml_flush_ms :: int
  ml_last_flush :: nat
  ml_groups :: "flb_ml_group list"
  ml_buffer_limit :: nat

text \<open>A record given to the flush callback of a stream; \<open>fe_forced\<close> is the argument \<open>forced_flush\<close> of the flush.\<close>

record ml_event =
  fe_stream :: u64
  fe_time :: nat
  fe_metadata :: mmap
  fe_body :: mmap
  fe_forced :: bool

text \<open>
  From outside: the clock in nanoseconds and in milliseconds, the outcome of the record encoder, whether a buffer of a given length can be
  extended, whether memory can be allocated, and the hash of a key and a value.
\<close>

record ml_env =
  me_now :: nat
  me_now_ms :: nat
  me_encode :: bool
  me_cat :: "nat \<Rightarrow> nat \<Rightarrow> bool"
  me_alloc :: bool
  me_hash :: "mobj \<Rightarrow> mobj \<Rightarrow> u64"

definition FLB_MULTILINE_OK :: int where "FLB_MULTILINE_OK = 0"
definition FLB_MULTILINE_TRUNCATED :: int where "FLB_MULTILINE_TRUNCATED = 2"
definition FLB_ML_MAX_GROUPS :: nat where "FLB_ML_MAX_GROUPS = 6"
definition NL :: char where "NL = CHR 0x0A"

definition flb_sds_cat_safe :: "ml_env \<Rightarrow> cstring \<Rightarrow> cstring \<Rightarrow> int \<times> cstring" where
  "flb_sds_cat_safe e s t = (if me_cat e (length s) (length t) then (0, s @ t) else (-1, s))"

definition sg_cat :: "ml_env \<Rightarrow> cstring \<Rightarrow> flb_ml_stream_group \<Rightarrow> flb_ml_stream_group" where
  "sg_cat e t g = g\<lparr>sg_buf := snd (flb_sds_cat_safe e (sg_buf g) t)\<rparr>"

section \<open>Rules\<close>

text \<open>\<open>flb_slist_split_string\<close> with no limit on the number of parts: parts without the spaces around them, empty ones left out.\<close>

fun split_on :: "char \<Rightarrow> cstring \<Rightarrow> cstring \<Rightarrow> cstring list" where
  "split_on sep acc [] = [rev acc]"
| "split_on sep acc (c # cs) = (if c = sep then rev acc # split_on sep [] cs else split_on sep (c # acc) cs)"

definition trim :: "cstring \<Rightarrow> cstring" where
  "trim s = rev (dropWhile (\<lambda>c. c = CHR '' '') (rev (dropWhile (\<lambda>c. c = CHR '' '') s)))"

definition flb_slist_split_string :: "cstring \<Rightarrow> char \<Rightarrow> cstring list" where
  "flb_slist_split_string str sep = filter (\<lambda>t. t \<noteq> []) (map trim (split_on sep [] (c_str str)))"

definition get_start_state :: "cstring list \<Rightarrow> bool" where
  "get_start_state l = list_ex (\<lambda>s. strcmp_eq s ''start_state'') l"

text \<open>A regular expression that does not compile is \<open>None\<close>.\<close>

definition flb_ml_rule_create ::
  "ml_env \<Rightarrow> flb_ml_parser \<Rightarrow> cstring \<Rightarrow> (cstring \<Rightarrow> bool) option \<Rightarrow> cstring option \<Rightarrow> (cstring \<Rightarrow> bool) option option
   \<Rightarrow> int \<times> flb_ml_parser" where
  "flb_ml_rule_create e p from_states regex to_state end_pattern =
     (let fs = flb_slist_split_string from_states (CHR '','');
          first_rule = (pa_regex_rules p = []) in
      if \<not> me_alloc e then (-1, p)
      else if fs = [] then (-1, p)
      else if \<not> get_start_state fs \<and> first_rule then (-1, p)
      else
        case regex of
          None \<Rightarrow> (-1, p)
        | Some r \<Rightarrow>
            if (case end_pattern of Some None \<Rightarrow> True | _ \<Rightarrow> False) then (-1, p)
            else (0, p\<lparr>pa_regex_rules := pa_regex_rules p @
                    [\<lparr>ru_start_state = get_start_state fs, ru_from_states = fs, ru_to_state = to_state,
                      ru_to_state_map = [], ru_regex = r, ru_regex_end = Option.bind end_pattern id\<rparr>]\<rparr>))"

definition to_states_matches_rule :: "flb_ml_rule \<Rightarrow> cstring \<Rightarrow> bool" where
  "to_states_matches_rule r st = list_ex (\<lambda>s. strcmp_eq s st) (ru_from_states r)"

definition to_states_exists :: "flb_ml_parser \<Rightarrow> cstring \<Rightarrow> bool" where
  "to_states_exists p st = list_ex (\<lambda>r. to_states_matches_rule r st) (pa_regex_rules p)"

text \<open>The map of a rule, or \<open>None\<close> when its next state belongs to no rule or memory is exhausted.\<close>

definition set_to_state_map :: "ml_env \<Rightarrow> flb_ml_parser \<Rightarrow> flb_ml_rule \<Rightarrow> flb_ml_rule option" where
  "set_to_state_map e p r =
     (case ru_to_state r of
        None \<Rightarrow> Some r
      | Some st \<Rightarrow>
          let m = filter (\<lambda>i. to_states_matches_rule (pa_regex_rules p ! i) st) [0..<length (pa_regex_rules p)] in
          if pa_regex_rules p \<noteq> [] \<and> \<not> to_states_exists p st then None
          else if m \<noteq> [] \<and> \<not> me_alloc e then None
          else Some (r\<lparr>ru_to_state_map := ru_to_state_map r @ m\<rparr>))"

fun rules_init :: "ml_env \<Rightarrow> flb_ml_parser \<Rightarrow> flb_ml_rule list \<Rightarrow> int \<times> flb_ml_rule list" where
  "rules_init e p [] = (0, [])"
| "rules_init e p (r # rs) =
     (case set_to_state_map e p r of
        None \<Rightarrow> (-1, r # rs)
      | Some r' \<Rightarrow> case rules_init e p rs of (ret, rs') \<Rightarrow> (ret, r' # rs'))"

definition flb_ml_rule_init :: "ml_env \<Rightarrow> flb_ml_parser \<Rightarrow> int \<times> flb_ml_parser" where
  "flb_ml_rule_init e p =
     (case rules_init e p (pa_regex_rules p) of (ret, rs) \<Rightarrow> (ret, p\<lparr>pa_regex_rules := rs\<rparr>))"

section \<open>The buffer of a group\<close>

definition flb_ml_group_cat ::
  "ml_env \<Rightarrow> nat \<Rightarrow> flb_ml_stream_group \<Rightarrow> cstring \<Rightarrow> int \<times> flb_ml_stream_group" where
  "flb_ml_group_cat e limit g data =
     (if limit > 0 \<and> length (sg_buf g) \<ge> limit then (FLB_MULTILINE_TRUNCATED, g\<lparr>sg_truncated := True\<rparr>)
      else
        let avail = limit - length (sg_buf g);
            cut = (limit > 0 \<and> length data > avail);
            data = (if cut then take avail data else data);
            g = (if cut then g\<lparr>sg_truncated := True\<rparr> else g);
            status = (if cut then FLB_MULTILINE_TRUNCATED else FLB_MULTILINE_OK) in
        if data = [] then (status, g)
        else case flb_sds_cat_safe e (sg_buf g) data of
               (ret, b) \<Rightarrow> if ret = -1 then (-1, g) else (status, g\<lparr>sg_buf := b\<rparr>))"

definition flb_ml_register_context :: "nat option \<Rightarrow> mmap option \<Rightarrow> flb_ml_stream_group \<Rightarrow> flb_ml_stream_group" where
  "flb_ml_register_context tm full_map g =
     (let g = (case tm of None \<Rightarrow> g | Some t \<Rightarrow> g\<lparr>sg_mp_time := t\<rparr>) in
      case full_map of None \<Rightarrow> g | Some m \<Rightarrow> g\<lparr>sg_mp_sbuf := sg_mp_sbuf g @ [m]\<rparr>)"

definition breakline_prepare :: "ml_env \<Rightarrow> flb_ml_parser_ins \<Rightarrow> flb_ml_stream_group \<Rightarrow> flb_ml_stream_group" where
  "breakline_prepare e ins g =
     (if pi_key_content ins \<noteq> None then g
      else if sg_buf g = [] then g
      else if last (sg_buf g) \<noteq> NL then sg_cat e [NL] g else g)"

section \<open>Flushing a message\<close>

text \<open>
  \<open>flb_ml_flush_metadata_buffer\<close> with deduplication: an entry whose hash was seen is left out.
\<close>

fun flb_ml_flush_metadata_buffer :: "ml_env \<Rightarrow> u64 list \<Rightarrow> mmap \<Rightarrow> mmap" where
  "flb_ml_flush_metadata_buffer e seen [] = []"
| "flb_ml_flush_metadata_buffer e seen ((k, v) # m) =
     (if me_hash e k v \<in> set seen then flb_ml_flush_metadata_buffer e seen m
      else (k, v) # flb_ml_flush_metadata_buffer e (me_hash e k v # seen) m)"

text \<open>
  The keys of the first line with the buffer as the value of \<open>key_content\<close>. The variable \<open>len\<close> holds the length of
  the key, and after the first match the one of the buffer.
\<close>

fun repack :: "cstring \<Rightarrow> nat \<Rightarrow> cstring \<Rightarrow> mmap \<Rightarrow> mmap" where
  "repack kc len buf [] = []"
| "repack kc len buf ((k, v) # m) =
     (case k of
        MStr s \<Rightarrow>
          if length s = len \<and> strncmp_eq s kc len then (k, MStr buf) # repack kc (length buf) buf m
          else (k, v) # repack kc len buf m
      | _ \<Rightarrow> (k, v) # repack kc len buf m)"

text \<open>The body of the record, if there is one, and the group without its first line.\<close>

definition flush_body ::
  "flb_ml_parser_ins \<Rightarrow> flb_ml_stream_group \<Rightarrow> (mmap option \<times> flb_ml_stream_group) option" where
  "flush_body ins g =
     (case sg_mp_sbuf g of
        m # _ \<Rightarrow>
          let g' = g\<lparr>sg_mp_sbuf := [], sg_mp_md_sbuf := []\<rparr> in
          if sg_buf g \<noteq> [] then do { kc \<leftarrow> pi_key_content ins; Some (Some (repack kc (length kc) (sg_buf g) m), g') }
          else Some (Some m, g')
      | [] \<Rightarrow>
          if sg_buf g \<noteq> []
          then Some (Some [(MStr (case pi_key_content ins of Some kc \<Rightarrow> kc | None \<Rightarrow> ''log''), MStr (sg_buf g))], g)
          else Some (None, g))"

definition flush_metadata :: "ml_env \<Rightarrow> flb_ml_stream_group \<Rightarrow> mmap" where
  "flush_metadata e g =
     flb_ml_flush_metadata_buffer e [] (concat (sg_mp_md_sbuf g))
     @ (if sg_truncated g then [(MStr ''multiline_truncated'', MBool True)] else [])"

definition flb_ml_flush_stream_group ::
  "ml_env \<Rightarrow> flb_ml_parser_ins \<Rightarrow> u64 \<Rightarrow> bool \<Rightarrow> flb_ml_stream_group \<Rightarrow> (int \<times> flb_ml_stream_group \<times> ml_event list) option" where
  "flb_ml_flush_stream_group e ins sid forced g0 = do {
     (body, g) \<leftarrow> flush_body ins (breakline_prepare e ins g0);
     (let g' = g\<lparr>sg_buf := [], sg_truncated := False, sg_mp_md_sbuf := [], sg_last_flush := me_now_ms e\<rparr> in
      case body of
        None \<Rightarrow> Some (0, g', [])
      | Some b \<Rightarrow>
          if \<not> me_encode e then Some (-1, g, [])
          else Some (0, g', [\<lparr>fe_stream = sid, fe_time = (if sg_mp_time g = 0 then me_now e else sg_mp_time g),
                              fe_metadata = flush_metadata e g, fe_body = b, fe_forced = forced\<rparr>]))}"

section \<open>Processing a line with rules\<close>

definition try_flushing_buffer ::
  "ml_env \<Rightarrow> flb_ml_parser_ins \<Rightarrow> u64 \<Rightarrow> flb_ml_stream_group \<Rightarrow> (flb_ml_stream_group \<times> ml_event list) option" where
  "try_flushing_buffer e ins sid g =
     (let rules = pa_regex_rules (pi_ml_parser ins);
          flush = (case sg_rule_to_state g of
                     None \<Rightarrow> True
                   | Some r \<Rightarrow> list_ex (\<lambda>i. ru_start_state (rules ! i)) (ru_to_state_map (rules ! r))) in
      if flush \<and> sg_buf g \<noteq> []
      then do { (ret, g, ev) \<leftarrow> flb_ml_flush_stream_group e ins sid False g; Some (g\<lparr>sg_first_line := True\<rparr>, ev) }
      else Some (g, []))"

definition try_start_state :: "flb_ml_parser \<Rightarrow> cstring \<Rightarrow> nat option" where
  "try_start_state p line =
     List.find (\<lambda>i. ru_start_state (pa_regex_rules p ! i) \<and> ru_regex (pa_regex_rules p ! i) line) [0..<length (pa_regex_rules p)]"

definition next_rule :: "flb_ml_parser \<Rightarrow> nat option \<Rightarrow> cstring \<Rightarrow> nat option" where
  "next_rule p r line =
     (case r of
        None \<Rightarrow> None
      | Some r \<Rightarrow>
          List.find (\<lambda>i. \<not> ru_start_state (pa_regex_rules p ! i) \<and> ru_regex (pa_regex_rules p ! i) line)
            (ru_to_state_map (pa_regex_rules p ! r)))"

definition rule_matched ::
  "ml_env \<Rightarrow> flb_ml_parser_ins \<Rightarrow> u64 \<Rightarrow> nat \<Rightarrow> ml_event list \<Rightarrow> flb_ml_stream_group
   \<Rightarrow> (int \<times> flb_ml_stream_group \<times> ml_event list) option" where
  "rule_matched e ins sid r ev g = do {
     (g, ev') \<leftarrow> try_flushing_buffer e ins sid (g\<lparr>sg_rule_to_state := Some r\<rparr>);
     Some (0, g, ev @ ev')}"

definition rule_continue ::
  "ml_env \<Rightarrow> nat \<Rightarrow> flb_ml_parser_ins \<Rightarrow> u64 \<Rightarrow> nat \<Rightarrow> cstring \<Rightarrow> flb_ml_stream_group
   \<Rightarrow> (int \<times> flb_ml_stream_group \<times> ml_event list) option" where
  "rule_continue e limit ins sid r line g =
     (let g = (if sg_buf g \<noteq> [] \<and> last (sg_buf g) \<noteq> NL then sg_cat e [NL] g else g) in
      if line = [] then rule_matched e ins sid r [] (sg_cat e [NL] g)
      else
        case flb_ml_group_cat e limit g line of
          (ret, g) \<Rightarrow>
            if ret < 0 then Some (ret, g, [])
            else if ret = FLB_MULTILINE_TRUNCATED then do {
              (_, g, ev) \<leftarrow> flb_ml_flush_stream_group e ins sid False g;
              Some (ret, g\<lparr>sg_rule_to_state := None\<rparr>, ev)}
            else rule_matched e ins sid r [] g)"

definition rule_start ::
  "ml_env \<Rightarrow> nat \<Rightarrow> flb_ml_parser_ins \<Rightarrow> u64 \<Rightarrow> nat \<Rightarrow> cstring \<Rightarrow> nat option \<Rightarrow> mmap option \<Rightarrow> flb_ml_stream_group
   \<Rightarrow> (int \<times> flb_ml_stream_group \<times> ml_event list) option" where
  "rule_start e limit ins sid r line tm full_map g = do {
     (_, g, ev) \<leftarrow> (if sg_buf g \<noteq> [] then flb_ml_flush_stream_group e ins sid False g else Some (0, g, []));
     (case flb_ml_group_cat e limit (g\<lparr>sg_rule_to_state := Some r\<rparr>) line of
        (ret, g) \<Rightarrow>
          if ret < 0 \<or> ret = FLB_MULTILINE_TRUNCATED then Some (ret, g, ev)
          else rule_matched e ins sid r ev (flb_ml_register_context tm full_map g))}"

definition flb_ml_rule_process ::
  "ml_env \<Rightarrow> nat \<Rightarrow> flb_ml_parser_ins \<Rightarrow> u64 \<Rightarrow> mmap option \<Rightarrow> cstring \<Rightarrow> nat option \<Rightarrow> cstring option \<Rightarrow> flb_ml_stream_group
   \<Rightarrow> (int \<times> flb_ml_stream_group \<times> ml_event list) option" where
  "flb_ml_rule_process e limit ins sid full_map buf tm val_content g =
     (let line = (case val_content of Some s \<Rightarrow> s | None \<Rightarrow> buf) in
      case next_rule (pi_ml_parser ins) (sg_rule_to_state g) line of
        Some r \<Rightarrow> rule_continue e limit ins sid r line g
      | None \<Rightarrow>
          case try_start_state (pi_ml_parser ins) line of
            Some r \<Rightarrow> rule_start e limit ins sid r line tm full_map g
          | None \<Rightarrow> Some (-1, g, []))"

section \<open>Streams\<close>

definition stream_group_create :: "cstring \<Rightarrow> flb_ml_stream_group" where
  "stream_group_create name =
     \<lparr>sg_name = name, sg_last_flush = 0, sg_buf = [], sg_first_line = True, sg_rule_to_state = None, sg_mp_md_sbuf = [],
      sg_mp_sbuf = [], sg_mp_time = 0, sg_truncated = False\<rparr>"

text \<open>The default group of a stream has an empty name: \<open>stream_group_create\<close> is called with length 0.\<close>

definition stream_create :: "u64 \<Rightarrow> flb_ml_stream" where
  "stream_create sid = \<lparr>ms_id = sid, ms_groups = [stream_group_create []], ms_last_stream_group = None\<rparr>"

definition stream_index :: "flb_ml_parser_ins \<Rightarrow> u64 \<Rightarrow> nat option" where
  "stream_index ins sid = List.find (\<lambda>i. ms_id (pi_streams ins ! i) = sid) [0..<length (pi_streams ins)]"

definition flb_ml_stream_get :: "flb_ml_parser_ins \<Rightarrow> u64 \<Rightarrow> flb_ml_stream option" where
  "flb_ml_stream_get ins sid = List.find (\<lambda>st. ms_id st = sid) (pi_streams ins)"

text \<open>\<open>flb_sds_cmp\<close> of two strings of the same length.\<close>

definition group_named :: "cstring \<Rightarrow> flb_ml_stream_group \<Rightarrow> bool" where
  "group_named name g \<longleftrightarrow> length (sg_name g) = length name \<and> strncmp_eq (sg_name g) name (length name)"

text \<open>The position of the group, \<open>None\<close> for NULL; a stream always has its default group.\<close>

definition flb_ml_stream_group_get ::
  "ml_env \<Rightarrow> flb_ml_parser_ins \<Rightarrow> cstring option \<Rightarrow> flb_ml_stream \<Rightarrow> nat option \<times> flb_ml_stream" where
  "flb_ml_stream_group_get e ins group_name st =
     (if pa_key_group (pi_ml_parser ins) = None \<or> group_name = None then (Some 0, st)
      else
        let name = the group_name in
        case List.find (\<lambda>i. group_named name (ms_groups st ! i)) [0..<length (ms_groups st)] of
          Some i \<Rightarrow> (Some i, st)
        | None \<Rightarrow>
            if length (ms_groups st) \<ge> FLB_ML_MAX_GROUPS then (None, st)
            else if \<not> me_alloc e then (None, st)
            else (Some (length (ms_groups st)), st\<lparr>ms_groups := ms_groups st @ [stream_group_create name]\<rparr>))"

section \<open>Packaging content\<close>

definition match_negate :: "flb_ml_parser \<Rightarrow> bool \<Rightarrow> bool" where
  "match_negate p matched = (if matched then \<not> pa_negate p else pa_negate p)"

text \<open>The part of \<open>package_content\<close> that the types ENDSWITH and EQ share.\<close>

definition package_plain ::
  "ml_env \<Rightarrow> flb_ml_parser_ins \<Rightarrow> u64 \<Rightarrow> bool \<Rightarrow> cstring \<Rightarrow> nat option \<Rightarrow> mmap option \<Rightarrow> flb_ml_stream_group
   \<Rightarrow> (flb_ml_stream_group \<times> ml_event list) option" where
  "package_plain e ins sid rule_match content tm full_map g =
     (let g = (if sg_mp_sbuf g = [] then flb_ml_register_context tm full_map g else g);
          g = sg_cat e content (breakline_prepare e ins g) in
      if rule_match then do { (_, g, ev) \<leftarrow> flb_ml_flush_stream_group e ins sid False g; Some (g, ev) }
      else Some (g, []))"

text \<open>
  Returns \<open>FLB_MULTILINE_TRUNCATED\<close>, whether the content was processed (1 or 0), or -1. A stream group that is NULL is dereferenced.
\<close>

definition package_group ::
  "ml_env \<Rightarrow> nat \<Rightarrow> flb_ml_parser_ins \<Rightarrow> u64 \<Rightarrow> mmap option \<Rightarrow> mmap option \<Rightarrow> cstring \<Rightarrow> nat option \<Rightarrow> cstring option \<Rightarrow> cstring option
   \<Rightarrow> flb_ml_stream_group \<Rightarrow> (int \<times> flb_ml_stream_group \<times> ml_event list) option" where
  "package_group e limit ins sid metadata full_map buf tm val_content val_pattern g =
     (let p = pi_ml_parser ins;
          content = (case val_content of Some s \<Rightarrow> s | None \<Rightarrow> buf);
          data = (case val_pattern of Some s \<Rightarrow> s | None \<Rightarrow> content);
          add_md = (\<lambda>g. case metadata of None \<Rightarrow> g | Some m \<Rightarrow> g\<lparr>sg_mp_md_sbuf := sg_mp_md_sbuf g @ [m]\<rparr>) in
      case pa_type p of
        FLB_ML_REGEX \<Rightarrow> do {
          (ret, g, ev) \<leftarrow> flb_ml_rule_process e limit ins sid full_map buf tm val_content g;
          Some (if ret = -1 then (-1, g, ev)
                else (if ret = FLB_MULTILINE_TRUNCATED then FLB_MULTILINE_TRUNCATED else 1, add_md g, ev))}
      | FLB_ML_ENDSWITH \<Rightarrow>
          let len = length (pa_match_str p) in
          if len \<le> length data
          then do {
            (g, ev) \<leftarrow> package_plain e ins sid (match_negate p (drop (length data - len) data = pa_match_str p))
                         (case val_content of Some s \<Rightarrow> s | None \<Rightarrow> data) tm full_map g;
            Some (1, add_md g, ev)}
          else Some (0, g, [])
      | FLB_ML_EQ \<Rightarrow> do {
          (g, ev) \<leftarrow> package_plain e ins sid (match_negate p (data = pa_match_str p))
                       (case val_content of Some s \<Rightarrow> s | None \<Rightarrow> data) tm full_map g;
          Some (1, add_md g, ev)})"

definition package_content ::
  "ml_env \<Rightarrow> nat \<Rightarrow> flb_ml_parser_ins \<Rightarrow> mmap option \<Rightarrow> mmap option \<Rightarrow> cstring \<Rightarrow> nat option \<Rightarrow> cstring option \<Rightarrow> cstring option
   \<Rightarrow> cstring option \<Rightarrow> flb_ml_stream \<Rightarrow> (int \<times> flb_ml_stream \<times> ml_event list) option" where
  "package_content e limit ins metadata full_map buf tm val_content val_pattern val_group st =
     (case flb_ml_stream_group_get e ins val_group st of
        (gi, st) \<Rightarrow> do {
          i \<leftarrow> gi;
          (ret, g, ev) \<leftarrow> package_group e limit ins (ms_id st) metadata full_map buf tm val_content val_pattern (ms_groups st ! i);
          Some (ret, st\<lparr>ms_groups := (ms_groups st)[i := g], ms_last_stream_group := Some i\<rparr>, ev)})"

section \<open>Appending to a parser instance\<close>

text \<open>The first entry of a map under a key, with a string as its value.\<close>

definition get_key_id :: "mmap \<Rightarrow> cstring option \<Rightarrow> nat option" where
  "get_key_id m key =
     Option.bind key (\<lambda>k. List.find (\<lambda>i. case m ! i of
          (MStr s, MStr v) \<Rightarrow> length s = length k \<and> strncmp_eq s k (length k)
        | _ \<Rightarrow> False) [0..<length m])"

definition get_val :: "mmap \<Rightarrow> cstring option \<Rightarrow> cstring option" where
  "get_val m key = Option.bind (get_key_id m key) (\<lambda>i. case snd (m ! i) of MStr v \<Rightarrow> Some v | _ \<Rightarrow> None)"

text \<open>What is left to append after the parser of the instance: text, or the map to use.\<close>

datatype payload = Text cstring | Map mmap

definition process_append ::
  "ml_env \<Rightarrow> nat \<Rightarrow> flb_ml_parser_ins \<Rightarrow> nat option \<Rightarrow> mmap option \<Rightarrow> payload \<Rightarrow> flb_ml_stream
   \<Rightarrow> (int \<times> flb_ml_stream \<times> ml_event list) option" where
  "process_append e limit ins tm metadata pl st =
     (case pl of
        Text buf \<Rightarrow> package_content e limit ins None None buf tm None None None st
      | Map m \<Rightarrow>
          case get_val m (pi_key_content ins) of
            None \<Rightarrow> Some (-1, st, [])
          | Some content \<Rightarrow> do {
              (ret, st, ev) \<leftarrow> package_content e limit ins metadata (Some m) [] tm (Some content)
                                (get_val m (pi_key_pattern ins)) (get_val m (pi_key_group ins)) st;
              Some (if ret = 0 then -1 else ret, st, ev)})"

definition ml_append_try_parser_type_text ::
  "flb_ml_parser_ins \<Rightarrow> nat \<Rightarrow> cstring \<Rightarrow> (payload \<times> nat) option" where
  "ml_append_try_parser_type_text ins tm buf =
     (case pa_parser (pi_ml_parser ins) of
        None \<Rightarrow> Some (Text buf, 0)
      | Some do_parse \<Rightarrow>
          case do_parse buf of
            None \<Rightarrow> None
          | Some (m, t) \<Rightarrow> Some (Map m, if t = 0 then tm else t))"

text \<open>
  The inner \<open>None\<close> is a failure; the outer one a NULL \<open>key_content\<close> whose length is taken. A key that is not in the map
  leaves the map as it is.
\<close>

definition ml_append_try_parser_type_map ::
  "flb_ml_parser_ins \<Rightarrow> nat \<Rightarrow> mmap \<Rightarrow> (payload \<times> nat) option option" where
  "ml_append_try_parser_type_map ins tm m =
     (case pa_parser (pi_ml_parser ins) of
        None \<Rightarrow> Some (Some (Map m, 0))
      | Some _ \<Rightarrow> do {
          kc \<leftarrow> pi_key_content ins;
          Some (case List.find (\<lambda>(k, v). case k of MStr s \<Rightarrow> length s = length kc \<and> strncmp_eq s kc (length kc) | _ \<Rightarrow> False) m of
                  None \<Rightarrow> Some (Map m, 0)
                | Some (_, MStr s) \<Rightarrow> ml_append_try_parser_type_text ins tm s
                | Some _ \<Rightarrow> None)})"

text \<open>An unknown stream is reported as success.\<close>

definition ml_append_try_parser ::
  "ml_env \<Rightarrow> nat \<Rightarrow> u64 \<Rightarrow> nat \<Rightarrow> mmap option \<Rightarrow> payload \<Rightarrow> flb_ml_parser_ins
   \<Rightarrow> (int \<times> flb_ml_parser_ins \<times> ml_event list) option" where
  "ml_append_try_parser e limit sid tm metadata pl ins = do {
     parsed \<leftarrow> (case pl of
                  Text buf \<Rightarrow> Some (ml_append_try_parser_type_text ins tm buf)
                | Map m \<Rightarrow> ml_append_try_parser_type_map ins tm m);
     (case parsed of
        None \<Rightarrow> Some (-1, ins, [])
      | Some (out, t) \<Rightarrow>
          let time = (if t \<noteq> 0 then t else if tm \<noteq> 0 then tm else me_now e) in
          case stream_index ins sid of
            None \<Rightarrow> Some (0, ins, [])
          | Some i \<Rightarrow> do {
              (ret, st, ev) \<leftarrow> process_append e limit ins (Some time) metadata out (pi_streams ins ! i);
              Some (ret, ins\<lparr>pi_streams := (pi_streams ins)[i := st]\<rparr>, ev)})}"

section \<open>Appending to a context\<close>

text \<open>The parser instance that accepted the last line of a stream is tried first.\<close>

fun try_lru ::
  "(flb_ml_parser_ins \<Rightarrow> (int \<times> flb_ml_parser_ins \<times> ml_event list) option) \<Rightarrow> u64 \<Rightarrow> flb_ml_group list
   \<Rightarrow> (int option \<times> flb_ml_group list \<times> ml_event list) option" where
  "try_lru f sid [] = Some (None, [], [])"
| "try_lru f sid (g # gs) =
     (case gr_lru_parser g of
        Some i \<Rightarrow>
          if pi_last_stream_id (gr_parsers g ! i) = sid
          then do {
            (ret, ins, ev) \<leftarrow> f (gr_parsers g ! i);
            (let g = g\<lparr>gr_parsers := (gr_parsers g)[i := ins]\<rparr> in
             if ret \<ge> 0 then Some (Some ret, g # gs, ev)
             else do { (r, gs, ev') \<leftarrow> try_lru f sid gs; Some (r, g # gs, ev @ ev') })}
          else do { (r, gs, ev) \<leftarrow> try_lru f sid gs; Some (r, g # gs, ev) }
      | None \<Rightarrow> do { (r, gs, ev) \<leftarrow> try_lru f sid gs; Some (r, g # gs, ev) })"

text \<open>Then the others in their order; \<open>i\<close> counts the instances of a group.\<close>

fun try_parsers ::
  "(flb_ml_parser_ins \<Rightarrow> (int \<times> flb_ml_parser_ins \<times> ml_event list) option) \<Rightarrow> u64 \<Rightarrow> nat option \<Rightarrow> nat \<Rightarrow> flb_ml_parser_ins list
   \<Rightarrow> ((int \<times> nat) option \<times> flb_ml_parser_ins list \<times> ml_event list) option" where
  "try_parsers f sid lru i [] = Some (None, [], [])"
| "try_parsers f sid lru i (p # ps) =
     (if lru = Some i \<and> pi_last_stream_id p = sid
      then do { (r, ps, ev) \<leftarrow> try_parsers f sid lru (Suc i) ps; Some (r, p # ps, ev) }
      else do {
        (ret, p, ev) \<leftarrow> f p;
        (if ret \<ge> 0 then Some (Some (ret, i), p\<lparr>pi_last_stream_id := sid\<rparr> # ps, ev)
         else do { (r, ps, ev') \<leftarrow> try_parsers f sid lru (Suc i) ps; Some (r, p # ps, ev @ ev') })})"

fun try_groups ::
  "(flb_ml_parser_ins \<Rightarrow> (int \<times> flb_ml_parser_ins \<times> ml_event list) option) \<Rightarrow> u64 \<Rightarrow> flb_ml_group list
   \<Rightarrow> (int option \<times> flb_ml_group list \<times> ml_event list) option" where
  "try_groups f sid [] = Some (None, [], [])"
| "try_groups f sid (g # gs) = do {
     (r, ps, ev) \<leftarrow> try_parsers f sid (gr_lru_parser g) 0 (gr_parsers g);
     (case r of
        Some (ret, i) \<Rightarrow> Some (Some ret, g\<lparr>gr_parsers := ps, gr_lru_parser := Some i\<rparr> # gs, ev)
      | None \<Rightarrow> do {
          (r, gs, ev') \<leftarrow> try_groups f sid gs;
          Some (r, g\<lparr>gr_parsers := ps\<rparr> # gs, ev @ ev')})}"

text \<open>A function with records applied to each element of a list.\<close>

fun each :: "('a \<Rightarrow> ('a \<times> ml_event list) option) \<Rightarrow> 'a list \<Rightarrow> ('a list \<times> ml_event list) option" where
  "each f [] = Some ([], [])"
| "each f (x # xs) = do { (x, ev) \<leftarrow> f x; (xs, ev') \<leftarrow> each f xs; Some (x # xs, ev @ ev') }"

definition flb_ml_flush_parser_instance ::
  "ml_env \<Rightarrow> u64 \<Rightarrow> bool \<Rightarrow> flb_ml_parser_ins \<Rightarrow> (flb_ml_parser_ins \<times> ml_event list) option" where
  "flb_ml_flush_parser_instance e sid forced ins = do {
     (sts, ev) \<leftarrow> each (\<lambda>st.
        if sid \<noteq> 0 \<and> ms_id st \<noteq> sid then Some (st, [])
        else do {
          (gs, ev) \<leftarrow> each (\<lambda>g. do { (_, g, ev) \<leftarrow> flb_ml_flush_stream_group e ins (ms_id st) forced g; Some (g, ev) }) (ms_groups st);
          Some (st\<lparr>ms_groups := gs\<rparr>, ev)}) (pi_streams ins);
     Some (ins\<lparr>pi_streams := sts\<rparr>, ev)}"

definition flush_all :: "ml_env \<Rightarrow> u64 \<Rightarrow> flb_ml_group list \<Rightarrow> (flb_ml_group list \<times> ml_event list) option" where
  "flush_all e sid gs = each (\<lambda>g. do {
     (ps, ev) \<leftarrow> each (flb_ml_flush_parser_instance e sid False) (gr_parsers g);
     Some (g\<lparr>gr_parsers := ps\<rparr>, ev)}) gs"

text \<open>
  A line that no instance accepts is flushed alone, in the first group of the stream of the first instance; \<open>fill\<close> puts it there and
  gives the status.
\<close>

definition ins_alone ::
  "ml_env \<Rightarrow> u64 \<Rightarrow> (flb_ml_stream_group \<Rightarrow> int \<times> flb_ml_stream_group) \<Rightarrow> flb_ml_parser_ins
   \<Rightarrow> (int \<times> flb_ml_parser_ins \<times> ml_event list) option" where
  "ins_alone e sid fill ins =
     (case stream_index ins sid of
        None \<Rightarrow> Some (-1, ins, [])
      | Some i \<Rightarrow>
          let st = pi_streams ins ! i in
          case fill (ms_groups st ! 0) of
            (ret, sg) \<Rightarrow> do {
              (_, sg, ev) \<leftarrow> flb_ml_flush_stream_group e ins (ms_id st) False sg;
              (let st = st\<lparr>ms_groups := (ms_groups st)[0 := sg]\<rparr> in
               Some (ret, ins\<lparr>pi_streams := (pi_streams ins)[i := st]\<rparr>, ev))})"

definition append_alone ::
  "ml_env \<Rightarrow> u64 \<Rightarrow> (flb_ml_stream_group \<Rightarrow> int \<times> flb_ml_stream_group) \<Rightarrow> flb_ml_group list
   \<Rightarrow> (int \<times> flb_ml_group list \<times> ml_event list) option" where
  "append_alone e sid fill gs =
     (case gs of
        [] \<Rightarrow> None
      | g # gs' \<Rightarrow>
          case gr_parsers g of
            [] \<Rightarrow> None
          | ins # ps \<Rightarrow> do {
              (ret, ins, ev) \<leftarrow> ins_alone e sid fill ins;
              Some (ret, g\<lparr>gr_parsers := ins # ps\<rparr> # gs', ev)})"

definition ml_try ::
  "(flb_ml_parser_ins \<Rightarrow> (int \<times> flb_ml_parser_ins \<times> ml_event list) option) \<Rightarrow> u64 \<Rightarrow> flb_ml_group list
   \<Rightarrow> (int option \<times> flb_ml_group list \<times> ml_event list) option" where
  "ml_try f sid gs = do {
     (r, gs, ev) \<leftarrow> try_lru f sid gs;
     (case r of
        Some ret \<Rightarrow> Some (Some ret, gs, ev)
      | None \<Rightarrow> do { (r, gs, ev') \<leftarrow> try_groups f sid gs; Some (r, gs, ev @ ev') })}"

definition ml_append ::
  "ml_env \<Rightarrow> u64 \<Rightarrow> (flb_ml_parser_ins \<Rightarrow> (int \<times> flb_ml_parser_ins \<times> ml_event list) option)
   \<Rightarrow> (flb_ml_stream_group \<Rightarrow> int \<times> flb_ml_stream_group) \<Rightarrow> flb_ml \<Rightarrow> (int \<times> flb_ml \<times> ml_event list) option" where
  "ml_append e sid f fill ml = do {
     (r, gs, ev) \<leftarrow> ml_try f sid (ml_groups ml);
     (case r of
        Some ret \<Rightarrow> Some (if ret = FLB_MULTILINE_TRUNCATED then FLB_MULTILINE_TRUNCATED else FLB_MULTILINE_OK,
                         ml\<lparr>ml_groups := gs\<rparr>, ev)
      | None \<Rightarrow> do {
          (gs, ev') \<leftarrow> flush_all e sid gs;
          (ret, gs, ev'') \<leftarrow> append_alone e sid fill gs;
          Some (ret, ml\<lparr>ml_groups := gs\<rparr>, ev @ ev' @ ev'')})}"

definition text_fill :: "ml_env \<Rightarrow> nat \<Rightarrow> nat \<Rightarrow> cstring \<Rightarrow> flb_ml_stream_group \<Rightarrow> int \<times> flb_ml_stream_group" where
  "text_fill e limit tm buf g =
     (case flb_ml_group_cat e limit (flb_ml_register_context (Some tm) None g) buf of
        (ret, g) \<Rightarrow> (if ret = FLB_MULTILINE_TRUNCATED then FLB_MULTILINE_TRUNCATED else FLB_MULTILINE_OK, g))"

definition flb_ml_append_text :: "ml_env \<Rightarrow> u64 \<Rightarrow> nat \<Rightarrow> cstring \<Rightarrow> flb_ml \<Rightarrow> (int \<times> flb_ml \<times> ml_event list) option" where
  "flb_ml_append_text e sid tm buf ml =
     ml_append e sid (ml_append_try_parser e (ml_buffer_limit ml) sid tm None (Text buf)) (text_fill e (ml_buffer_limit ml) tm buf) ml"

text \<open>A record without metadata has the empty map.\<close>

definition flb_ml_append_object ::
  "ml_env \<Rightarrow> u64 \<Rightarrow> nat \<Rightarrow> mmap option \<Rightarrow> mobj \<Rightarrow> flb_ml \<Rightarrow> (int \<times> flb_ml \<times> ml_event list) option" where
  "flb_ml_append_object e sid tm metadata obj ml =
     (let metadata = (case metadata of None \<Rightarrow> [] | Some m \<Rightarrow> m) in
      case obj of
        MMap m \<Rightarrow>
          ml_append e sid (ml_append_try_parser e (ml_buffer_limit ml) sid tm (Some metadata) (Map m))
            (\<lambda>g. (FLB_MULTILINE_OK, flb_ml_register_context (Some tm) (Some m) g)) ml
      | _ \<Rightarrow> Some (-1, ml, []))"

section \<open>Flushing what is pending\<close>

text \<open>Only the first group of the context is flushed.\<close>

definition flb_ml_flush_pending :: "ml_env \<Rightarrow> nat \<Rightarrow> bool \<Rightarrow> flb_ml \<Rightarrow> (flb_ml \<times> ml_event list) option" where
  "flb_ml_flush_pending e now forced ml =
     (case ml_groups ml of
        [] \<Rightarrow> None
      | g # gs \<Rightarrow> do {
          (ps, ev) \<leftarrow> each (flb_ml_flush_parser_instance e 0 forced) (gr_parsers g);
          Some (ml\<lparr>ml_last_flush := now, ml_groups := g\<lparr>gr_parsers := ps\<rparr> # gs\<rparr>, ev)})"

definition flb_ml_flush_pending_now :: "ml_env \<Rightarrow> flb_ml \<Rightarrow> (flb_ml \<times> ml_event list) option" where
  "flb_ml_flush_pending_now e ml = flb_ml_flush_pending e (me_now_ms e) True ml"

definition cb_ml_flush_timer :: "ml_env \<Rightarrow> flb_ml \<Rightarrow> (flb_ml \<times> ml_event list) option" where
  "cb_ml_flush_timer e ml =
     (if int (ml_last_flush ml) + ml_flush_ms ml > int (me_now_ms e) then Some (ml, [])
      else flb_ml_flush_pending e (me_now_ms e) True ml)"

section \<open>Contexts, parser instances and streams\<close>

text \<open>\<open>limit\<close> is the configured size in bytes, negative when it cannot be read.\<close>

definition flb_ml_create :: "ml_env \<Rightarrow> int \<Rightarrow> flb_ml option" where
  "flb_ml_create e limit =
     (if \<not> me_alloc e then None
      else Some \<lparr>ml_flush_ms = 0, ml_last_flush = me_now_ms e, ml_groups = [],
                 ml_buffer_limit = (if limit \<ge> 0 then nat limit else 1024 * 1024 * 2)\<rparr>)"

definition flb_ml_group_create :: "ml_env \<Rightarrow> flb_ml \<Rightarrow> flb_ml option" where
  "flb_ml_group_create e ml =
     (if \<not> me_alloc e then None else Some (ml\<lparr>ml_groups := ml_groups ml @ [\<lparr>gr_parsers = [], gr_lru_parser = None\<rparr>]\<rparr>))"

definition flb_ml_group_add_parser :: "ml_env \<Rightarrow> flb_ml_parser_ins \<Rightarrow> flb_ml \<Rightarrow> flb_ml option" where
  "flb_ml_group_add_parser e ins ml = do {
     ml \<leftarrow> (if ml_groups ml = [] then flb_ml_group_create e ml else Some ml);
     (let gs = ml_groups ml; g = last gs in
      Some (ml\<lparr>ml_groups := butlast gs @ [g\<lparr>gr_parsers := gr_parsers g @ [ins]\<rparr>]\<rparr>))}"

definition flb_ml_parser_get :: "flb_ml_parser list \<Rightarrow> cstring \<Rightarrow> flb_ml_parser option" where
  "flb_ml_parser_get ps name = List.find (\<lambda>p. strcasecmp_eq (pa_name p) name) ps"

definition flb_ml_parser_instance_create :: "ml_env \<Rightarrow> flb_ml_parser list \<Rightarrow> cstring \<Rightarrow> flb_ml \<Rightarrow> flb_ml option" where
  "flb_ml_parser_instance_create e ps name ml = do {
     p \<leftarrow> flb_ml_parser_get ps name;
     (if \<not> me_alloc e then None
      else do {
        ml \<leftarrow> flb_ml_group_add_parser e
          \<lparr>pi_ml_parser = p, pi_key_content = pa_key_content p, pi_key_pattern = pa_key_pattern p,
           pi_key_group = pa_key_group p, pi_last_stream_id = 0, pi_streams = []\<rparr> ml;
        Some (if pa_flush_ms p > ml_flush_ms ml then ml\<lparr>ml_flush_ms := pa_flush_ms p\<rparr> else ml)})}"

definition flb_ml_parser_instance_set :: "cstring \<Rightarrow> cstring \<Rightarrow> flb_ml_parser_ins \<Rightarrow> int \<times> flb_ml_parser_ins" where
  "flb_ml_parser_instance_set prop val ins =
     (if strcasecmp_eq prop ''key_content'' then (0, ins\<lparr>pi_key_content := Some val\<rparr>)
      else if strcasecmp_eq prop ''key_pattern'' then (0, ins\<lparr>pi_key_pattern := Some val\<rparr>)
      else if strcasecmp_eq prop ''key_group'' then (0, ins\<lparr>pi_key_group := Some val\<rparr>)
      else (-1, ins))"

text \<open>A stream with the id \<open>sid\<close>, the hash of its name, in every instance that has none.\<close>

definition ins_stream_create :: "u64 \<Rightarrow> flb_ml_parser_ins \<Rightarrow> flb_ml_parser_ins" where
  "ins_stream_create sid ins =
     (if flb_ml_stream_get ins sid \<noteq> None then ins else ins\<lparr>pi_streams := pi_streams ins @ [stream_create sid]\<rparr>)"

definition flb_ml_stream_create :: "ml_env \<Rightarrow> u64 \<Rightarrow> flb_ml \<Rightarrow> int \<times> flb_ml" where
  "flb_ml_stream_create e sid ml =
     (if \<not> me_alloc e \<and> list_ex (\<lambda>g. list_ex (\<lambda>ins. flb_ml_stream_get ins sid = None) (gr_parsers g)) (ml_groups ml)
      then (-1, ml)
      else (0, ml\<lparr>ml_groups := map (\<lambda>g. g\<lparr>gr_parsers := map (ins_stream_create sid) (gr_parsers g)\<rparr>) (ml_groups ml)\<rparr>))"

text \<open>
  \<open>flb_ml_stream_id_destroy_all\<close> flushes the streams of the instance before it frees each stream with the id.
\<close>

definition ins_stream_destroy :: "ml_env \<Rightarrow> u64 \<Rightarrow> flb_ml_parser_ins \<Rightarrow> (flb_ml_parser_ins \<times> ml_event list) option" where
  "ins_stream_destroy e sid ins =
     (if flb_ml_stream_get ins sid = None then Some (ins, [])
      else do {
        (ins, ev) \<leftarrow> flb_ml_flush_parser_instance e sid True ins;
        Some (ins\<lparr>pi_streams := filter (\<lambda>st. ms_id st \<noteq> sid) (pi_streams ins)\<rparr>, ev)})"

definition flb_ml_stream_id_destroy_all :: "ml_env \<Rightarrow> u64 \<Rightarrow> flb_ml \<Rightarrow> (flb_ml \<times> ml_event list) option" where
  "flb_ml_stream_id_destroy_all e sid ml = do {
     (gs, ev) \<leftarrow> each (\<lambda>g. do {
        (ps, ev) \<leftarrow> each (ins_stream_destroy e sid) (gr_parsers g);
        Some (g\<lparr>gr_parsers := ps\<rparr>, ev)}) (ml_groups ml);
     Some (ml\<lparr>ml_groups := gs\<rparr>, ev)}"

end
