(* ===== verification/Multiline_Text.thy ===== *)
theory Multiline_Text
  imports Multiline Connection
begin

text \<open>
  Lines of text: what the rules of a parser make of them. The buffer that grows line by line refines a state machine on lists of lines, so
  the messages that are flushed are the lines in their order; the limit bounds them.
\<close>

section \<open>Flushing\<close>

text \<open>An environment in which nothing fails.\<close>

definition calm :: "ml_env \<Rightarrow> bool" where
  "calm e \<longleftrightarrow> me_encode e \<and> (\<forall>n k. me_cat e n k) \<and> me_alloc e"

lemma sg_cat_calm: "calm e \<Longrightarrow> sg_cat e t g = g\<lparr>sg_buf := sg_buf g @ t\<rparr>"
  by (simp add: calm_def sg_cat_def flb_sds_cat_safe_def)

text \<open>A text that ends a line.\<close>

definition closed :: "cstring \<Rightarrow> cstring" where
  "closed b = (if b \<noteq> [] \<and> last b \<noteq> NL then b @ [NL] else b)"

definition nl :: "cstring \<Rightarrow> cstring" where
  "nl l = (if l \<noteq> [] \<and> last l = NL then l else l @ [NL])"

lemma nl_nonempty [simp]: "nl l \<noteq> []" and last_nl [simp]: "last (nl l) = NL"
  by (auto simp: nl_def)

lemma closed_nl: "l \<noteq> [] \<Longrightarrow> closed l = nl l"
  by (simp add: closed_def nl_def)

lemma closed_eq_Nil_iff [simp]: "closed b = [] \<longleftrightarrow> b = []"
  by (simp add: closed_def)

lemma closed_append: "l \<noteq> [] \<Longrightarrow> closed (b @ l) = b @ nl l"
  by (simp add: closed_def nl_def)

lemma closed_closed [simp]: "closed (closed b) = closed b"
  by (simp add: closed_def)

lemma closed_lines [simp]: "closed (concat (map nl ls)) = concat (map nl ls)"
  by (cases ls rule: rev_cases) (simp_all add: closed_def)

text \<open>An instance for plain text.\<close>

definition text_ins :: "flb_ml_parser_ins \<Rightarrow> bool" where
  "text_ins ins \<longleftrightarrow> pa_type (pi_ml_parser ins) = FLB_ML_REGEX \<and> pa_parser (pi_ml_parser ins) = None \<and> pi_key_content ins = None"

definition log_event :: "u64 \<Rightarrow> cstring \<Rightarrow> ml_event \<Rightarrow> bool" where
  "log_event sid txt ev \<longleftrightarrow> fe_stream ev = sid \<and> fe_body ev = [(MStr ''log'', MStr txt)]"

lemma breakline_calm:
  "calm e \<Longrightarrow> pi_key_content ins = None \<Longrightarrow> breakline_prepare e ins g = g\<lparr>sg_buf := closed (sg_buf g)\<rparr>"
  by (simp add: breakline_prepare_def sg_cat_calm closed_def)

lemma flush_text:
  assumes "calm e" and "pi_key_content ins = None" and "sg_mp_sbuf g = []"
  shows "\<exists>t ev. flb_ml_flush_stream_group e ins sid forced g =
      Some (0, g\<lparr>sg_buf := [], sg_truncated := False, sg_mp_md_sbuf := [], sg_last_flush := t\<rparr>, ev)
    \<and> (if sg_buf g = [] then ev = [] else list_all2 (log_event sid) [closed (sg_buf g)] ev)"
  using assms
  by (cases "sg_buf g = []")
    (auto simp: flb_ml_flush_stream_group_def flush_body_def breakline_calm log_event_def Let_def calm_def)

text \<open>A flush reads of the instance only the name of the key.\<close>

lemma flush_streams: "flb_ml_flush_stream_group e (ins\<lparr>pi_streams := z\<rparr>) = flb_ml_flush_stream_group e ins"
proof -
  have "breakline_prepare e (ins\<lparr>pi_streams := z\<rparr>) = breakline_prepare e ins"
    by (rule ext) (simp add: breakline_prepare_def)
  moreover have "flush_body (ins\<lparr>pi_streams := z\<rparr>) = flush_body ins"
    by (rule ext) (simp add: flush_body_def split: list.split)
  ultimately show ?thesis by (simp add: flb_ml_flush_stream_group_def fun_eq_iff)
qed

section \<open>The state machine of lines\<close>

text \<open>
  A state is the list of lines of the pending message and the rule that accepted the last line. A line that continues the message is added;
  one that starts a message ends the pending one; any other is a message of its own. An empty line counts only as a continuation. A rule
  that a start may follow ends the message.
\<close>

definition may_start :: "flb_ml_parser \<Rightarrow> nat \<Rightarrow> bool" where
  "may_start p r = list_ex (\<lambda>i. ru_start_state (pa_regex_rules p ! i)) (ru_to_state_map (pa_regex_rules p ! r))"

definition message :: "cstring list \<Rightarrow> cstring list list" where
  "message c = (if c = [] then [] else [c])"

definition lone :: "cstring \<Rightarrow> cstring list" where
  "lone l = (if l = [] then [] else [l])"

type_synonym line_state = "cstring list \<times> nat option"

definition settle :: "flb_ml_parser \<Rightarrow> nat \<Rightarrow> cstring list \<Rightarrow> line_state \<times> cstring list list" where
  "settle p r c = (if may_start p r then (([], Some r), message c) else ((c, Some r), []))"

definition line_step :: "flb_ml_parser \<Rightarrow> cstring \<Rightarrow> line_state \<Rightarrow> line_state \<times> cstring list list" where
  "line_step p l s =
     (case s of (cur, st) \<Rightarrow>
        case next_rule p st l of
          Some r \<Rightarrow> settle p r (cur @ [l])
        | None \<Rightarrow>
            case try_start_state p l of
              Some r \<Rightarrow> (case settle p r (lone l) of (s', ms) \<Rightarrow> (s', message cur @ ms))
            | None \<Rightarrow> (([], st), message cur @ message (lone l)))"

fun line_run :: "flb_ml_parser \<Rightarrow> cstring list \<Rightarrow> line_state \<Rightarrow> line_state \<times> cstring list list" where
  "line_run p [] s = (s, [])"
| "line_run p (l # ls) s =
     (case line_step p l s of (s', ms) \<Rightarrow> case line_run p ls s' of (s'', ms') \<Rightarrow> (s'', ms @ ms'))"

text \<open>The machine keeps every line that is not empty, in order.\<close>

definition solid :: "cstring list \<Rightarrow> cstring list" where
  "solid ls = filter (\<lambda>l. l \<noteq> []) ls"

lemma solid_simps [simp]: "solid [] = []" "solid (a @ b) = solid a @ solid b" "solid (lone l) = solid [l]"
  by (simp_all add: solid_def lone_def)

lemma solid_Cons: "solid (l # ls) = solid [l] @ solid ls"
  by (simp add: solid_def)

lemma concat_message [simp]: "concat (message c) = c"
  by (simp add: message_def)

lemma line_step_lines:
  assumes "line_step p l (cur, st) = ((cur', st'), ms)"
  shows "solid (concat ms @ cur') = solid (cur @ [l])"
  using assms by (auto simp: line_step_def settle_def split: option.splits if_splits prod.splits)

lemma line_run_lines:
  assumes "line_run p ls (cur, st) = ((cur', st'), ms)"
  shows "solid (concat ms @ cur') = solid (cur @ ls)"
  using assms
proof (induction ls arbitrary: cur st ms)
  case Nil
  then show ?case by simp
next
  case (Cons l ls)
  obtain c1 s1 m1 where 1: "line_step p l (cur, st) = ((c1, s1), m1)" by (metis prod.exhaust)
  obtain m2 where 2: "line_run p ls (c1, s1) = ((cur', st'), m2)" "ms = m1 @ m2"
    using Cons.prems 1 by (auto split: prod.splits)
  have "solid (concat m1 @ c1) = solid (cur @ [l])" by (rule line_step_lines [OF 1])
  moreover have "solid (concat m2 @ cur') = solid (c1 @ ls)" by (rule Cons.IH [OF 2(1)])
  ultimately show ?case using 2(2) by (simp add: solid_Cons [of l ls])
qed

section \<open>The buffer refines the machine\<close>

definition lines_text :: "cstring list \<Rightarrow> cstring" where
  "lines_text c = concat (map nl c)"

lemma lines_text_simps [simp]:
  "lines_text [] = []" "lines_text (a @ b) = lines_text a @ lines_text b" "lines_text [l] = nl l"
  "lines_text c = [] \<longleftrightarrow> c = []" "closed (lines_text c) = lines_text c"
  by (simp_all add: lines_text_def)

definition buffers :: "line_state \<Rightarrow> flb_ml_stream_group \<Rightarrow> bool" where
  "buffers s g \<longleftrightarrow> (case s of (cur, st) \<Rightarrow>
     closed (sg_buf g) = lines_text cur \<and> sg_rule_to_state g = st \<and> sg_mp_sbuf g = [])"

lemma buffersD:
  assumes "buffers (cur, st) g"
  shows "closed (sg_buf g) = lines_text cur" and "sg_rule_to_state g = st" and "sg_mp_sbuf g = []"
    and "sg_buf g = [] \<longleftrightarrow> cur = []" and "length (sg_buf g) \<le> length (lines_text cur)"
proof -
  show c: "closed (sg_buf g) = lines_text cur" and "sg_rule_to_state g = st" and "sg_mp_sbuf g = []"
    using assms by (simp_all add: buffers_def)
  show "sg_buf g = [] \<longleftrightarrow> cur = []" using c closed_eq_Nil_iff [of "sg_buf g"] by simp
  show "length (sg_buf g) \<le> length (lines_text cur)" unfolding c [symmetric] by (simp add: closed_def)
qed

text \<open>The messages that the flushed records carry.\<close>

definition carries :: "u64 \<Rightarrow> cstring list list \<Rightarrow> ml_event list \<Rightarrow> bool" where
  "carries sid ms evs = list_all2 (log_event sid) (map lines_text ms) evs"

lemma carries_simps [simp]: "carries sid [] []" "carries sid [] evs \<longleftrightarrow> evs = []"
  by (simp_all add: carries_def)

lemma carries_append: "carries sid a x \<Longrightarrow> carries sid b y \<Longrightarrow> carries sid (a @ b) (x @ y)"
  by (simp add: carries_def list_all2_appendI)

lemma flush_buffers:
  assumes "calm e" and "pi_key_content ins = None" and b: "buffers (cur, st) g"
  obtains g' evs where "flb_ml_flush_stream_group e ins sid forced g = Some (0, g', evs)"
    and "buffers ([], st) g'" and "carries sid (message cur) evs" and "sg_buf g' = []"
proof -
  from flush_text [OF assms(1,2) buffersD(3) [OF b], of sid forced] obtain t evs where
    f: "flb_ml_flush_stream_group e ins sid forced g =
      Some (0, g\<lparr>sg_buf := [], sg_truncated := False, sg_mp_md_sbuf := [], sg_last_flush := t\<rparr>, evs)"
    and ev: "if sg_buf g = [] then evs = [] else list_all2 (log_event sid) [closed (sg_buf g)] evs" by blast
  show ?thesis
  proof (rule that [OF f])
    show "carries sid (message cur) evs"
      using ev buffersD(4) [OF b] buffersD(1) [OF b] by (auto simp: carries_def message_def split: if_splits)
  qed (use b in \<open>auto simp: buffers_def closed_def\<close>)
qed

definition fits :: "nat \<Rightarrow> nat \<Rightarrow> bool" where
  "fits limit n \<longleftrightarrow> limit = 0 \<or> n < limit"

lemma group_cat_fits:
  assumes "calm e" and "fits limit (length (sg_buf g @ d))"
  shows "flb_ml_group_cat e limit g d = (0, g\<lparr>sg_buf := sg_buf g @ d\<rparr>)"
  using assms by (auto simp: flb_ml_group_cat_def calm_def flb_sds_cat_safe_def fits_def FLB_MULTILINE_OK_def Let_def)

lemma rule_matched_buffers:
  assumes "calm e" and "pi_key_content ins = None" and p: "pi_ml_parser ins = p"
    and b: "closed (sg_buf g) = lines_text c" "sg_mp_sbuf g = []" and ev: "carries sid ms0 evs0"
  obtains g' evs where "rule_matched e ins sid r evs0 g = Some (0, g', evs)"
    and "case settle p r c of (s', ms) \<Rightarrow> buffers s' g' \<and> carries sid (ms0 @ ms) evs"
proof -
  let ?g = "g\<lparr>sg_rule_to_state := Some r\<rparr>"
  have bg: "buffers (c, Some r) ?g" using b by (simp add: buffers_def)
  obtain g' evs where f: "flb_ml_flush_stream_group e ins sid False ?g = Some (0, g', evs)"
    and g': "buffers ([], Some r) g'" "carries sid (message c) evs" by (rule flush_buffers [OF assms(1,2) bg])
  have "c = [] \<longleftrightarrow> sg_buf g = []" using buffersD(4) [OF bg] by simp
  then have t: "try_flushing_buffer e ins sid ?g =
      Some (if may_start p r \<and> c \<noteq> [] then (g'\<lparr>sg_first_line := True\<rparr>, evs) else (?g, []))"
    using f p by (simp add: try_flushing_buffer_def may_start_def Let_def)
  show ?thesis
  proof (cases "may_start p r \<and> c \<noteq> []")
    case True
    show ?thesis
      by (rule that [of "g'\<lparr>sg_first_line := True\<rparr>" "evs0 @ evs"])
        (use True g' ev in \<open>auto simp: rule_matched_def t settle_def buffers_def intro: carries_append\<close>)
  next
    case False
    show ?thesis
      by (rule that [of ?g evs0]) (use False bg ev in \<open>auto simp: rule_matched_def t settle_def message_def\<close>)
  qed
qed

lemma rule_continue_buffers:
  assumes c: "calm e" and k: "pi_key_content ins = None" and p: "pi_ml_parser ins = p" and b: "buffers (cur, st) g"
    and fit: "fits limit (length (lines_text (cur @ [l])))"
  obtains g' evs where "rule_continue e limit ins sid r l g = Some (0, g', evs)"
    and "case settle p r (cur @ [l]) of (s', ms) \<Rightarrow> buffers s' g' \<and> carries sid ms evs"
proof -
  let ?g = "g\<lparr>sg_buf := lines_text cur\<rparr>"
  have br: "(if sg_buf g \<noteq> [] \<and> last (sg_buf g) \<noteq> NL then sg_cat e [NL] g else g) = ?g"
    using buffersD(1) [OF b] by (auto simp: sg_cat_calm [OF c] closed_def split: if_splits)
  let ?h = "g\<lparr>sg_buf := lines_text cur @ (if l = [] then [NL] else l)\<rparr>"
  have h: "closed (sg_buf ?h) = lines_text (cur @ [l])"
    by (auto simp: closed_append) (simp add: closed_def nl_def)
  obtain g' evs where m: "rule_matched e ins sid r [] ?h = Some (0, g', evs)"
    "case settle p r (cur @ [l]) of (s', ms) \<Rightarrow> buffers s' g' \<and> carries sid ([] @ ms) evs"
    by (rule rule_matched_buffers [OF c k p h, of sid "[]" "[]" r]) (use b in \<open>auto simp: buffers_def\<close>)
  have "length (nl l) \<ge> length l" by (simp add: nl_def)
  then have "fits limit (length (sg_buf ?g @ l))" using fit by (auto simp: fits_def)
  from group_cat_fits [OF c this] have "l \<noteq> [] \<Longrightarrow> flb_ml_group_cat e limit ?g l = (0, ?h)" by simp
  then have "rule_continue e limit ins sid r l g = Some (0, g', evs)"
    unfolding rule_continue_def br Let_def using m(1) by (auto simp: sg_cat_calm [OF c] FLB_MULTILINE_TRUNCATED_def)
  then show ?thesis using m(2) by (intro that) auto
qed

lemma rule_start_buffers:
  assumes c: "calm e" and k: "pi_key_content ins = None" and p: "pi_ml_parser ins = p" and b: "buffers (cur, st) g"
    and fit: "fits limit (length (nl l))"
  obtains g' evs where "rule_start e limit ins sid r l tm None g = Some (0, g', evs)"
    and "case settle p r (lone l) of (s', ms) \<Rightarrow> buffers s' g' \<and> carries sid (message cur @ ms) evs"
proof -
  obtain g1 ev1 where f: "flb_ml_flush_stream_group e ins sid False g = Some (0, g1, ev1)"
    and g1: "buffers ([], st) g1" "carries sid (message cur) ev1" "sg_buf g1 = []" by (rule flush_buffers [OF c k b])
  define h where "h = (if sg_buf g \<noteq> [] then g1 else g)"
  define ev where "ev = (if sg_buf g \<noteq> [] then ev1 else [])"
  have pre: "(if sg_buf g \<noteq> [] then flb_ml_flush_stream_group e ins sid False g else Some (0, g, [])) = Some (0, h, ev)"
    using f by (simp add: h_def ev_def)
  have h: "sg_buf h = []" "sg_mp_sbuf h = []" "carries sid (message cur) ev"
    using g1 b buffersD(4) [OF b] by (auto simp: h_def ev_def buffers_def message_def)
  have "fits limit (length (sg_buf (h\<lparr>sg_rule_to_state := Some r\<rparr>) @ l))" using fit h(1) by (auto simp: fits_def nl_def split: if_splits)
  note cat = group_cat_fits [OF c this]
  let ?x = "flb_ml_register_context tm None (h\<lparr>sg_rule_to_state := Some r, sg_buf := l\<rparr>)"
  have x: "closed (sg_buf ?x) = lines_text (lone l)" "sg_mp_sbuf ?x = []"
    using h(2) by (auto simp: flb_ml_register_context_def lone_def closed_nl closed_def[of "[]"] split: option.split)
  obtain g' evs where m: "rule_matched e ins sid r ev ?x = Some (0, g', evs)"
    "case settle p r (lone l) of (s', ms) \<Rightarrow> buffers s' g' \<and> carries sid (message cur @ ms) evs"
    by (rule rule_matched_buffers [OF c k p x h(3)])
  have "rule_start e limit ins sid r l tm None g = Some (0, g', evs)"
    unfolding rule_start_def pre using cat m(1) h(1) by (simp add: FLB_MULTILINE_TRUNCATED_def)
  then show ?thesis using m(2) by (rule that)
qed

text \<open>A line that the rules accept.\<close>

definition accepts :: "flb_ml_parser \<Rightarrow> nat option \<Rightarrow> cstring \<Rightarrow> bool" where
  "accepts p st l \<longleftrightarrow> next_rule p st l \<noteq> None \<or> try_start_state p l \<noteq> None"

lemma rule_process_buffers:
  assumes c: "calm e" and k: "pi_key_content ins = None" and p: "pi_ml_parser ins = p" and b: "buffers (cur, st) g"
    and fit: "fits limit (length (lines_text (cur @ [l])))" and a: "accepts p st l"
  obtains g' evs where "flb_ml_rule_process e limit ins sid None l tm None g = Some (0, g', evs)"
    and "case line_step p l (cur, st) of (s', ms) \<Rightarrow> buffers s' g' \<and> carries sid ms evs"
proof (cases "next_rule p st l")
  case (Some r)
  obtain g' evs where "rule_continue e limit ins sid r l g = Some (0, g', evs)"
    "case settle p r (cur @ [l]) of (s', ms) \<Rightarrow> buffers s' g' \<and> carries sid ms evs"
    by (rule rule_continue_buffers [OF c k p b fit])
  then show ?thesis using Some p buffersD(2) [OF b] by (intro that) (simp_all add: flb_ml_rule_process_def line_step_def)
next
  case None
  then obtain r where r: "try_start_state p l = Some r" using a by (auto simp: accepts_def)
  have "fits limit (length (nl l))" using fit by (auto simp: fits_def)
  then obtain g' evs where "rule_start e limit ins sid r l tm None g = Some (0, g', evs)"
    "case settle p r (lone l) of (s', ms) \<Rightarrow> buffers s' g' \<and> carries sid (message cur @ ms) evs"
    by (rule rule_start_buffers [OF c k p b])
  then show ?thesis using None r p buffersD(2) [OF b]
    by (intro that) (auto simp: flb_ml_rule_process_def line_step_def split: prod.splits)
qed

lemma rule_process_rejects:
  assumes "pi_ml_parser ins = p" and "sg_rule_to_state g = st" and "\<not> accepts p st l"
  shows "flb_ml_rule_process e limit ins sid None l tm None g = Some (-1, g, [])"
  using assms by (simp add: flb_ml_rule_process_def accepts_def)

section \<open>A context with one parser\<close>

definition single :: "flb_ml_parser \<Rightarrow> u64 \<Rightarrow> flb_ml_stream_group \<Rightarrow> flb_ml \<Rightarrow> bool" where
  "single p sid g ml \<longleftrightarrow>
     (\<exists>grp ins st. ml_groups ml = [grp] \<and> gr_parsers grp = [ins] \<and> (gr_lru_parser grp = None \<or> gr_lru_parser grp = Some 0)
        \<and> pi_ml_parser ins = p \<and> text_ins ins \<and> pi_streams ins = [st] \<and> ms_id st = sid \<and> ms_groups st = [g])"

lemma try_parser_text:
  assumes "text_ins ins" and "pi_streams ins = [st]" and "ms_id st = sid" and "ms_groups st = [g]"
    and r: "flb_ml_rule_process e limit ins sid None l (Some (if tm \<noteq> 0 then tm else me_now e)) None g = Some (ret, g', evs)"
    and "ret = 0 \<or> ret = -1"
  shows "ml_append_try_parser e limit sid tm None (Text l) ins =
    Some (if ret = 0 then 1 else -1, ins\<lparr>pi_streams := [st\<lparr>ms_groups := [g'], ms_last_stream_group := Some 0\<rparr>]\<rparr>, evs)"
proof -
  have "stream_index ins sid = Some 0" using assms(2,3) by (simp add: stream_index_def)
  then show ?thesis using assms
    by (auto simp: ml_append_try_parser_def ml_append_try_parser_type_text_def text_ins_def process_append_def package_content_def
        package_group_def flb_ml_stream_group_get_def FLB_MULTILINE_TRUNCATED_def Let_def)
qed

lemma append_text_buffers:
  assumes c: "calm e" and s: "single p sid g ml" and b: "buffers (cur, st) g"
    and fit: "fits (ml_buffer_limit ml) (length (lines_text (cur @ [l])))"
  obtains ml' g' evs where "flb_ml_append_text e sid tm l ml = Some (FLB_MULTILINE_OK, ml', evs)"
    and "single p sid g' ml'" and "ml_buffer_limit ml' = ml_buffer_limit ml"
    and "case line_step p l (cur, st) of (s', ms) \<Rightarrow> buffers s' g' \<and> carries sid ms evs"
proof -
  from s obtain grp ins str where str: "ml_groups ml = [grp]" "gr_parsers grp = [ins]"
      "gr_lru_parser grp = None \<or> gr_lru_parser grp = Some 0" "pi_ml_parser ins = p" "text_ins ins" "pi_streams ins = [str]"
      "ms_id str = sid" "ms_groups str = [g]" unfolding single_def by blast
  have k: "pi_key_content ins = None" using str(5) by (simp add: text_ins_def)
  let ?lim = "ml_buffer_limit ml" and ?t = "Some (if tm \<noteq> 0 then tm else me_now e)"
  let ?f = "ml_append_try_parser e ?lim sid tm None (Text l)"
  let ?ins = "\<lambda>h. ins\<lparr>pi_streams := [str\<lparr>ms_groups := [h], ms_last_stream_group := Some 0\<rparr>]\<rparr>"
  show ?thesis
  proof (cases "accepts p st l")
    case True
    obtain g' evs where r: "flb_ml_rule_process e ?lim ins sid None l ?t None g = Some (0, g', evs)"
      and post: "case line_step p l (cur, st) of (s', ms) \<Rightarrow> buffers s' g' \<and> carries sid ms evs"
      by (rule rule_process_buffers [OF c k str(4) b fit True])
    have f: "?f ins = Some (1, ?ins g', evs)" using try_parser_text [OF str(5-8) r] by simp
    let ?m1 = "ml\<lparr>ml_groups := [grp\<lparr>gr_parsers := [?ins g']\<rparr>]\<rparr>"
    let ?m2 = "ml\<lparr>ml_groups := [grp\<lparr>gr_parsers := [(?ins g')\<lparr>pi_last_stream_id := sid\<rparr>], gr_lru_parser := Some 0\<rparr>]\<rparr>"
    have "flb_ml_append_text e sid tm l ml = Some (FLB_MULTILINE_OK,
        if gr_lru_parser grp = Some 0 \<and> pi_last_stream_id ins = sid then ?m1 else ?m2, evs)"
      using str(1-3) f by (auto simp: flb_ml_append_text_def ml_append_def ml_try_def FLB_MULTILINE_TRUNCATED_def)
    moreover have "single p sid g' ?m1" "single p sid g' ?m2" using str by (auto simp: single_def text_ins_def)
    ultimately show ?thesis using post
      by (intro that [of "if gr_lru_parser grp = Some 0 \<and> pi_last_stream_id ins = sid then ?m1 else ?m2" evs g']) simp_all
  next
    case False
    have r: "flb_ml_rule_process e ?lim ins sid None l ?t None g = Some (-1, g, [])"
      by (rule rule_process_rejects [OF str(4) buffersD(2) [OF b] False])
    have f: "?f ins = Some (-1, ?ins g, [])" using try_parser_text [OF str(5-8) r] by simp
    obtain g1 ev1 where f1: "flb_ml_flush_stream_group e ins sid False g = Some (0, g1, ev1)"
      and g1: "buffers ([], st) g1" "carries sid (message cur) ev1" "sg_buf g1 = []" by (rule flush_buffers [OF c k b])
    let ?x = "flb_ml_register_context (Some tm) None g1"
    have "fits ?lim (length (sg_buf ?x @ l))"
      using fit g1(3) by (auto simp: fits_def nl_def flb_ml_register_context_def split: if_splits)
    note cat = group_cat_fits [OF c this]
    let ?y = "?x\<lparr>sg_buf := l\<rparr>"
    have y: "buffers (lone l, st) ?y"
      using g1(1) by (auto simp: buffers_def lone_def closed_nl flb_ml_register_context_def closed_def [of "[]"])
    obtain g2 ev2 where f2: "flb_ml_flush_stream_group e ins sid False ?y = Some (0, g2, ev2)"
      and g2: "buffers ([], st) g2" "carries sid (message (lone l)) ev2" by (rule flush_buffers [OF c k y])
    let ?m = "ml\<lparr>ml_groups := [grp\<lparr>gr_parsers := [?ins g2]\<rparr>]\<rparr>"
    let ?grp = "\<lambda>h. grp\<lparr>gr_parsers := [?ins h]\<rparr>"
    have tried: "ml_try ?f sid (ml_groups ml) = Some (None, [?grp g], [])" using str(1-3) f by (auto simp: ml_try_def)
    have flushed: "flush_all e sid [?grp g] = Some ([?grp g1], ev1)"
      using str(7) f1 by (simp add: flush_all_def flb_ml_flush_parser_instance_def flush_streams)
    have alone: "append_alone e sid (text_fill e ?lim tm l) [?grp g1]
        = Some (FLB_MULTILINE_OK, [?grp g2], ev2)"
      using str(7) f2 cat g1(3)
      by (simp add: append_alone_def ins_alone_def text_fill_def stream_index_def flush_streams flb_ml_register_context_def FLB_MULTILINE_TRUNCATED_def Let_def)
    have "flb_ml_append_text e sid tm l ml = Some (FLB_MULTILINE_OK, ?m, ev1 @ ev2)"
      using tried flushed alone by (simp add: flb_ml_append_text_def ml_append_def)
    moreover have "single p sid g2 ?m" using str by (auto simp: single_def text_ins_def)
    moreover have "line_step p l (cur, st) = (([], st), message cur @ message (lone l))"
      using False by (auto simp: line_step_def accepts_def)
    ultimately show ?thesis using g2(1) carries_append [OF g1(2) g2(2)] by (intro that [of ?m "ev1 @ ev2" g2]) auto
  qed
qed

section \<open>Runs of lines\<close>

text \<open>Every line comes with its own environment and time.\<close>

definition line_of :: "ml_env \<times> nat \<times> cstring \<Rightarrow> cstring" where
  "line_of x = snd (snd x)"

lemma line_of_simp [simp]: "line_of (e, tm, l) = l"
  by (simp add: line_of_def)

fun append_lines :: "(ml_env \<times> nat \<times> cstring) list \<Rightarrow> u64 \<Rightarrow> flb_ml \<Rightarrow> (flb_ml \<times> ml_event list) option" where
  "append_lines [] sid ml = Some (ml, [])"
| "append_lines ((e, tm, l) # xs) sid ml = do {
     (_, ml, ev) \<leftarrow> flb_ml_append_text e sid tm l ml;
     (ml, ev') \<leftarrow> append_lines xs sid ml;
     Some (ml, ev @ ev')}"

lemma line_step_parts:
  assumes "line_step p l (cur, st) = ((cur', st'), ms)"
  shows "length (lines_text cur') \<le> length (lines_text (cur @ [l]))" and "set (concat ms @ cur') \<subseteq> set (cur @ [l])"
  using assms by (auto simp: line_step_def settle_def message_def lone_def split: option.splits if_splits prod.splits)

lemma line_run_parts:
  assumes "line_run p ls (cur, st) = ((cur', st'), ms)"
  shows "set (concat ms @ cur') \<subseteq> set (cur @ ls)"
  using assms
proof (induction ls arbitrary: cur st ms)
  case Nil
  then show ?case by simp
next
  case (Cons l ls)
  obtain c1 s1 m1 where 1: "line_step p l (cur, st) = ((c1, s1), m1)" by (metis prod.exhaust)
  obtain m2 where 2: "line_run p ls (c1, s1) = ((cur', st'), m2)" "ms = m1 @ m2"
    using Cons.prems 1 by (auto split: prod.splits)
  show ?case using line_step_parts(2) [OF 1] Cons.IH [OF 2(1)] 2(2) by auto
qed

lemma append_lines_run:
  assumes "single p sid g ml" and "buffers s g" and "\<forall>(e, tm, l) \<in> set xs. calm e"
    and "fits (ml_buffer_limit ml) (length (lines_text (fst s @ map line_of xs)))"
  shows "\<exists>ml' g' evs. append_lines xs sid ml = Some (ml', evs) \<and> single p sid g' ml'
    \<and> (case line_run p (map line_of xs) s of (s', ms) \<Rightarrow> buffers s' g' \<and> carries sid ms evs)"
  using assms
proof (induction xs arbitrary: g ml s)
  case Nil
  then show ?case by auto
next
  case (Cons x xs)
  obtain e tm l where x: "x = (e, tm, l)" by (cases x)
  obtain cur st where s: "s = (cur, st)" by (cases s)
  obtain c1 s1 m1 where 1: "line_step p l (cur, st) = ((c1, s1), m1)" by (metis prod.exhaust)
  have c: "calm e" using Cons.prems(3) x by simp
  have fit: "fits (ml_buffer_limit ml) (length (lines_text (cur @ [l])))"
    using Cons.prems(4) x s by (auto simp: fits_def lines_text_def)
  obtain ml1 g1 ev1 where a: "flb_ml_append_text e sid tm l ml = Some (FLB_MULTILINE_OK, ml1, ev1)" "single p sid g1 ml1"
    "ml_buffer_limit ml1 = ml_buffer_limit ml" "buffers (c1, s1) g1" "carries sid m1 ev1"
    by (rule append_text_buffers [OF c Cons.prems(1) Cons.prems(2) [unfolded s] fit]) (use 1 in auto)
  have "length (lines_text (c1 @ map line_of xs)) \<le> length (lines_text (fst s @ map line_of (x # xs)))"
    using line_step_parts(1) [OF 1] x s by (simp add: lines_text_def)
  then have "fits (ml_buffer_limit ml1) (length (lines_text (fst (c1, s1) @ map line_of xs)))"
    using Cons.prems(4) a(3) by (auto simp: fits_def)
  from Cons.IH [OF a(2,4) _ this] Cons.prems(3) obtain ml2 g2 ev2 where
    b: "append_lines xs sid ml1 = Some (ml2, ev2)" "single p sid g2 ml2"
      "case line_run p (map line_of xs) (c1, s1) of (s', ms) \<Rightarrow> buffers s' g2 \<and> carries sid ms ev2" by auto
  then show ?case using a(1) carries_append [OF a(5)] x s 1 by (auto split: prod.splits)
qed

text \<open>An idle context: nothing is buffered and no rule has matched yet.\<close>

definition idle_text :: "flb_ml_parser \<Rightarrow> u64 \<Rightarrow> flb_ml \<Rightarrow> bool" where
  "idle_text p sid ml \<longleftrightarrow>
     (\<exists>g. single p sid g ml \<and> sg_buf g = [] \<and> sg_mp_sbuf g = [] \<and> sg_rule_to_state g = None)"

definition event_text :: "ml_event \<Rightarrow> cstring" where
  "event_text ev = (case fe_body ev of [(_, MStr t)] \<Rightarrow> t | _ \<Rightarrow> [])"

lemma carries_text: "carries sid ms evs \<Longrightarrow> map event_text evs = map lines_text ms"
  unfolding carries_def by (induction "map lines_text ms" evs arbitrary: ms rule: list_all2_induct) (auto simp: log_event_def event_text_def)

lemma lines_text_concat: "concat (map lines_text ms) = lines_text (concat ms)"
  by (induction ms) (simp_all add: lines_text_def)

lemma flush_single:
  assumes c: "calm e" and s: "single p sid g ml" and b: "buffers (cur, st) g"
  obtains ml' evs where "flb_ml_flush_pending_now e ml = Some (ml', evs)" and "carries sid (message cur) evs"
proof -
  from s obtain grp ins str where str: "ml_groups ml = [grp]" "gr_parsers grp = [ins]"
      "text_ins ins" "pi_streams ins = [str]" "ms_id str = sid" "ms_groups str = [g]" unfolding single_def by blast
  have k: "pi_key_content ins = None" using str(3) by (simp add: text_ins_def)
  obtain g1 ev1 where f1: "flb_ml_flush_stream_group e ins sid True g = Some (0, g1, ev1)"
    and "carries sid (message cur) ev1" by (rule flush_buffers [OF c k b])
  then show ?thesis using str
    by (intro that [of _ ev1]) (auto simp: flb_ml_flush_pending_now_def flb_ml_flush_pending_def flb_ml_flush_parser_instance_def)
qed

lemma append_lines_text:
  assumes ml: "idle_text p sid ml" and c: "\<forall>(e, tm, l) \<in> set xs. calm e \<and> l \<noteq> []" "calm e0"
    and fit: "fits (ml_buffer_limit ml) (length (lines_text (map line_of xs)))"
  shows "\<exists>ml' evs ml'' evs'. append_lines xs sid ml = Some (ml', evs) \<and> flb_ml_flush_pending_now e0 ml' = Some (ml'', evs')
    \<and> concat (map event_text (evs @ evs')) = lines_text (map line_of xs)"
proof -
  let ?ls = "map line_of xs"
  from ml obtain g where g: "single p sid g ml" "buffers ([], None) g" by (auto simp: idle_text_def buffers_def closed_def)
  obtain cur st ms where r: "line_run p ?ls ([], None) = ((cur, st), ms)" by (metis prod.exhaust)
  have "\<forall>(e, tm, l) \<in> set xs. calm e" using c(1) by auto
  from append_lines_run [OF g this] fit r obtain ml' g' evs where
    a: "append_lines xs sid ml = Some (ml', evs)" "single p sid g' ml'" "buffers (cur, st) g'" "carries sid ms evs" by auto
  obtain ml'' evs' where f: "flb_ml_flush_pending_now e0 ml' = Some (ml'', evs')" "carries sid (message cur) evs'"
    by (rule flush_single [OF c(2) a(2,3)])
  have ne: "\<forall>l \<in> set ?ls. l \<noteq> []" using c(1) by (auto simp: line_of_def)
  then have "\<forall>l \<in> set (concat ms @ cur). l \<noteq> []" using line_run_parts [OF r] by (metis append_Nil subsetD)
  then have "concat ms @ cur = ?ls"
    using line_run_lines [OF r] ne by (simp add: solid_def filter_id_conv)
  moreover have "concat (map event_text (evs @ evs')) = lines_text (concat (ms @ message cur))"
    using carries_text [OF carries_append [OF a(4) f(2)]] by (simp only: lines_text_concat)
  ultimately show ?thesis using a(1) f(1) by auto
qed

section \<open>A sample context\<close>

text \<open>A message starts with a line that begins with a letter and goes on with lines that begin with a blank.\<close>

definition starts_with :: "(char \<Rightarrow> bool) \<Rightarrow> cstring \<Rightarrow> bool" where
  "starts_with P l = (case l of [] \<Rightarrow> False | c # _ \<Rightarrow> P c)"

definition good_env :: ml_env where
  "good_env = \<lparr>me_now = 7, me_now_ms = 0, me_encode = True, me_cat = (\<lambda>_ _. True), me_alloc = True, me_hash = (\<lambda>_ _. 0)\<rparr>"

definition empty_parser :: "ml_type \<Rightarrow> cstring \<Rightarrow> flb_ml_parser" where
  "empty_parser ty m = \<lparr>pa_name = ''sample'', pa_type = ty, pa_negate = False, pa_flush_ms = 4000, pa_match_str = m,
     pa_key_content = None, pa_key_pattern = None, pa_key_group = None, pa_parser = None, pa_regex_rules = []\<rparr>"

definition sample_parser :: flb_ml_parser where
  "sample_parser =
     (let p = snd (flb_ml_rule_create good_env (empty_parser FLB_ML_REGEX []) ''start_state''
                (Some (starts_with (\<lambda>c. c \<noteq> CHR '' ''))) (Some ''cont'') None);
          p = snd (flb_ml_rule_create good_env p ''cont'' (Some (starts_with (\<lambda>c. c = CHR '' ''))) (Some ''cont'') None)
      in snd (flb_ml_rule_init good_env p))"

definition sample_context :: "flb_ml_parser \<Rightarrow> int \<Rightarrow> flb_ml" where
  "sample_context p limit =
     snd (flb_ml_stream_create good_env 1 (the (flb_ml_parser_instance_create good_env [p] ''SAMPLE'' (the (flb_ml_create good_env limit)))))"

lemma good_env_calm: "calm good_env"
  by (simp add: calm_def good_env_def)

lemma sample_context_groups:
  assumes "strcasecmp_eq (pa_name p) ''SAMPLE''"
  shows "ml_groups (sample_context p limit) = [\<lparr>gr_parsers = [\<lparr>pi_ml_parser = p, pi_key_content = pa_key_content p,
     pi_key_pattern = pa_key_pattern p, pi_key_group = pa_key_group p, pi_last_stream_id = 0, pi_streams = [stream_create 1]\<rparr>], gr_lru_parser = None\<rparr>]"
  using assms
  by (simp add: sample_context_def flb_ml_create_def flb_ml_parser_instance_create_def flb_ml_parser_get_def flb_ml_group_add_parser_def
      flb_ml_group_create_def flb_ml_stream_create_def ins_stream_create_def flb_ml_stream_get_def good_env_def Let_def)

lemma sample_parser_fields:
  "pa_name sample_parser = ''sample''" "pa_type sample_parser = FLB_ML_REGEX" "pa_key_content sample_parser = None"
  "pa_key_group sample_parser = None"
  by code_simp+

lemma sample_parser_none: "pa_parser sample_parser = None"
proof -
  have "(case pa_parser sample_parser of None \<Rightarrow> True | Some _ \<Rightarrow> False)" by code_simp
  then show ?thesis by (cases "pa_parser sample_parser") auto
qed

lemma sample_idle: "idle_text sample_parser 1 (sample_context sample_parser limit)"
proof -
  have "strcasecmp_eq (pa_name sample_parser) ''SAMPLE''" by (simp add: sample_parser_fields) code_simp
  from sample_context_groups [OF this, of limit] show ?thesis
    by (auto simp: idle_text_def single_def text_ins_def stream_create_def stream_group_create_def sample_parser_fields sample_parser_none)
qed

definition sample_lines :: "(ml_env \<times> nat \<times> cstring) list" where
  "sample_lines = [(good_env, 1, ''Error''), (good_env, 2, '' at x''), (good_env, 3, '' at y''), (good_env, 4, ''Done'')]"

section \<open>Properties of text\<close>





end
