(* ===== verification/Multiline_Guard.thy ===== *)
theory Multiline_Guard
  imports Multiline_Text
begin

text \<open>
  Properties of parser instances that survive appending to a context: the locale \<open>ml_guard\<close> lifts what the operations on one instance
  keep to the search through groups and instances. It is interpreted for the safety of appending and for the limit on buffers.
\<close>

section \<open>From an instance to a context\<close>

definition each_ins :: "(flb_ml_parser_ins \<Rightarrow> bool) \<Rightarrow> flb_ml_group list \<Rightarrow> bool" where
  "each_ins P gs \<longleftrightarrow>
     (\<forall>g \<in> set gs. (\<forall>ins \<in> set (gr_parsers g). P ins) \<and> (\<forall>i. gr_lru_parser g = Some i \<longrightarrow> i < length (gr_parsers g)))"

lemma each_ins_simps [simp]:
  "each_ins P []"
  "each_ins P (g # gs) \<longleftrightarrow> (\<forall>ins \<in> set (gr_parsers g). P ins) \<and> (\<forall>i. gr_lru_parser g = Some i \<longrightarrow> i < length (gr_parsers g)) \<and> each_ins P gs"
  by (auto simp: each_ins_def)

text \<open>The numbers of instances in the groups.\<close>

definition shape :: "flb_ml_group list \<Rightarrow> nat list" where
  "shape gs = map (\<lambda>g. length (gr_parsers g)) gs"

lemma shape_simps [simp]: "shape [] = []" "shape (g # gs) = length (gr_parsers g) # shape gs"
  by (simp_all add: shape_def)

definition kept :: "(flb_ml_parser_ins \<Rightarrow> bool) \<Rightarrow> (ml_event \<Rightarrow> bool) \<Rightarrow> flb_ml_group list \<Rightarrow> flb_ml_group list \<Rightarrow> ml_event list \<Rightarrow> bool" where
  "kept P Q gs gs' evs \<longleftrightarrow> each_ins P gs' \<and> shape gs' = shape gs \<and> list_all Q evs"

lemma each_runs:
  assumes "\<forall>x \<in> set xs. runs (f x) (\<lambda>(x', evs). P x' \<and> list_all Q evs)"
  shows "runs (each f xs) (\<lambda>(xs', evs). (\<forall>x \<in> set xs'. P x) \<and> length xs' = length xs \<and> list_all Q evs)"
  using assms
proof (induction xs)
  case Nil
  then show ?case by simp
next
  case (Cons x xs)
  then obtain x' ev where x: "f x = Some (x', ev)" "P x'" "list_all Q ev" by (auto simp: runs_iff)
  from Cons obtain xs' ev' where "each f xs = Some (xs', ev')" "\<forall>x \<in> set xs'. P x" "length xs' = length xs" "list_all Q ev'"
    by (auto simp: runs_iff)
  with x show ?case by simp
qed

locale ml_guard =
  fixes P :: "flb_ml_parser_ins \<Rightarrow> bool" and Q :: "ml_event \<Rightarrow> bool"
    and f :: "flb_ml_parser_ins \<Rightarrow> (int \<times> flb_ml_parser_ins \<times> ml_event list) option"
    and e :: ml_env and sid :: u64 and fill :: "flb_ml_stream_group \<Rightarrow> int \<times> flb_ml_stream_group"
  assumes try_ok: "P ins \<Longrightarrow> runs (f ins) (\<lambda>(ret, ins', evs). P ins' \<and> list_all Q evs)"
    and mark_ok: "P ins \<Longrightarrow> P (ins\<lparr>pi_last_stream_id := sid\<rparr>)"
    and flush_ok: "P ins \<Longrightarrow> runs (flb_ml_flush_parser_instance e sid False ins) (\<lambda>(ins', evs). P ins' \<and> list_all Q evs)"
    and alone_ok: "P ins \<Longrightarrow> runs (ins_alone e sid fill ins) (\<lambda>(ret, ins', evs). P ins' \<and> list_all Q evs)"
begin

lemma try_lru_guard:
  assumes "each_ins P gs"
  shows "runs (try_lru f sid gs) (\<lambda>(r, gs', evs). kept P Q gs gs' evs)"
  using assms
proof (induction gs)
  case Nil
  then show ?case by (simp add: kept_def)
next
  case (Cons g gs)
  then obtain r gs' ev' where rest: "try_lru f sid gs = Some (r, gs', ev')" "kept P Q gs gs' ev'" by (auto simp: runs_iff)
  show ?case
  proof (cases "gr_lru_parser g")
    case None
    then show ?thesis using rest Cons.prems by (simp add: kept_def)
  next
    case (Some i)
    then have i: "i < length (gr_parsers g)" using Cons.prems by simp
    then have "P (gr_parsers g ! i)" using Cons.prems by simp
    then obtain ret ins ev where "f (gr_parsers g ! i) = Some (ret, ins, ev)" "P ins" "list_all Q ev"
      using try_ok [of "gr_parsers g ! i"] by (auto simp: runs_iff)
    then show ?thesis using Some rest Cons.prems i by (auto simp: kept_def Let_def dest: in_set_conv_nth [THEN iffD1] set_update_subset_insert [THEN subsetD])
  qed
qed

lemma try_parsers_guard:
  assumes "\<forall>ins \<in> set ps. P ins"
  shows "runs (try_parsers f sid lru i ps) (\<lambda>(r, ps', evs). (\<forall>ins \<in> set ps'. P ins) \<and> length ps' = length ps \<and> list_all Q evs
           \<and> (\<forall>ret j. r = Some (ret, j) \<longrightarrow> i \<le> j \<and> j < i + length ps))"
  using assms
proof (induction ps arbitrary: i)
  case Nil
  then show ?case by simp
next
  case (Cons p ps)
  from Cons.IH [of "Suc i"] Cons.prems obtain r ps' ev' where rest: "try_parsers f sid lru (Suc i) ps = Some (r, ps', ev')"
    "\<forall>ins \<in> set ps'. P ins" "length ps' = length ps" "list_all Q ev'"
    "\<forall>ret j. r = Some (ret, j) \<longrightarrow> Suc i \<le> j \<and> j < Suc i + length ps" by (auto simp: runs_iff)
  obtain ret p' ev where "f p = Some (ret, p', ev)" "P p'" "list_all Q ev"
    using try_ok [of p] Cons.prems by (auto simp: runs_iff)
  then show ?case using rest Cons.prems mark_ok [of p'] by (auto simp: Suc_le_eq)
qed

lemma try_groups_guard:
  assumes "each_ins P gs"
  shows "runs (try_groups f sid gs) (\<lambda>(r, gs', evs). kept P Q gs gs' evs)"
  using assms
proof (induction gs)
  case Nil
  then show ?case by (simp add: kept_def)
next
  case (Cons g gs)
  then obtain r gs' ev' where rest: "try_groups f sid gs = Some (r, gs', ev')" "kept P Q gs gs' ev'" by (auto simp: runs_iff)
  have "\<forall>ins \<in> set (gr_parsers g). P ins" using Cons.prems by simp
  from try_parsers_guard [OF this, of "gr_lru_parser g" 0] obtain r1 ps ev where
    "try_parsers f sid (gr_lru_parser g) 0 (gr_parsers g) = Some (r1, ps, ev)" "\<forall>ins \<in> set ps. P ins"
    "length ps = length (gr_parsers g)" "list_all Q ev" "\<forall>ret j. r1 = Some (ret, j) \<longrightarrow> j < length (gr_parsers g)"
    by (auto simp: runs_iff)
  then show ?case using rest Cons.prems by (auto simp: kept_def split: option.split)
qed

lemma ml_try_guard:
  assumes "each_ins P gs"
  shows "runs (ml_try f sid gs) (\<lambda>(r, gs', evs). kept P Q gs gs' evs)"
proof -
  obtain r gs1 ev1 where 1: "try_lru f sid gs = Some (r, gs1, ev1)" "kept P Q gs gs1 ev1"
    using try_lru_guard [OF assms] by (auto simp: runs_iff)
  then obtain r2 gs2 ev2 where "try_groups f sid gs1 = Some (r2, gs2, ev2)" "kept P Q gs1 gs2 ev2"
    using try_groups_guard [of gs1] by (auto simp: runs_iff kept_def)
  with 1 show ?thesis by (auto simp: ml_try_def kept_def split: option.split)
qed

lemma flush_all_guard:
  assumes "each_ins P gs"
  shows "runs (flush_all e sid gs) (\<lambda>(gs', evs). kept P Q gs gs' evs)"
  using assms
proof (induction gs)
  case Nil
  then show ?case by (simp add: flush_all_def kept_def)
next
  case (Cons g gs)
  then obtain gs' ev' where rest: "flush_all e sid gs = Some (gs', ev')" "kept P Q gs gs' ev'" by (auto simp: runs_iff)
  have "\<forall>ins \<in> set (gr_parsers g). runs (flb_ml_flush_parser_instance e sid False ins) (\<lambda>(ins', evs). P ins' \<and> list_all Q evs)"
    using Cons.prems flush_ok by simp
  from each_runs [OF this] obtain ps ev where "each (flb_ml_flush_parser_instance e sid False) (gr_parsers g) = Some (ps, ev)"
    "\<forall>ins \<in> set ps. P ins" "length ps = length (gr_parsers g)" "list_all Q ev" by (auto simp: runs_iff)
  then show ?case using rest Cons.prems by (simp add: flush_all_def kept_def)
qed

lemma append_alone_guard:
  assumes "each_ins P gs" and "gs \<noteq> []" and "shape gs ! 0 > 0"
  shows "runs (append_alone e sid fill gs) (\<lambda>(ret, gs', evs). kept P Q gs gs' evs)"
proof -
  obtain g gs' ins ps where gs: "gs = g # gs'" "gr_parsers g = ins # ps" using assms(2,3) by (cases gs; cases "gr_parsers (hd gs)") auto
  then obtain ret ins' ev where "ins_alone e sid fill ins = Some (ret, ins', ev)" "P ins'" "list_all Q ev"
    using alone_ok [of ins] assms(1) by (auto simp: runs_iff)
  then show ?thesis using assms(1) gs by (auto simp: append_alone_def kept_def)
qed

theorem append_guard:
  assumes "each_ins P (ml_groups ml)" and "ml_groups ml \<noteq> []" and "shape (ml_groups ml) ! 0 > 0"
  shows "runs (ml_append e sid f fill ml) (\<lambda>(ret, ml', evs). kept P Q (ml_groups ml) (ml_groups ml') evs
           \<and> ml_buffer_limit ml' = ml_buffer_limit ml)"
proof -
  let ?gs = "ml_groups ml"
  obtain r gs1 ev1 where 1: "ml_try f sid ?gs = Some (r, gs1, ev1)" "kept P Q ?gs gs1 ev1"
    using ml_try_guard [OF assms(1)] by (auto simp: runs_iff)
  then obtain gs2 ev2 where 2: "flush_all e sid gs1 = Some (gs2, ev2)" "kept P Q gs1 gs2 ev2"
    using flush_all_guard [of gs1] by (auto simp: runs_iff kept_def)
  have s: "shape gs2 = shape ?gs" using 1(2) 2(2) by (simp add: kept_def)
  then have "gs2 \<noteq> []" using assms(2) by (cases ?gs; cases gs2) auto
  then obtain ret gs3 ev3 where "append_alone e sid fill gs2 = Some (ret, gs3, ev3)" "kept P Q gs2 gs3 ev3"
    using append_alone_guard [of gs2] 2(2) s assms(3) by (auto simp: runs_iff kept_def)
  with 1 2 show ?thesis by (auto simp: ml_append_def kept_def split: option.split)
qed

end

section \<open>From a stream group to an instance\<close>

definition all_groups :: "(flb_ml_stream_group \<Rightarrow> bool) \<Rightarrow> flb_ml_parser_ins \<Rightarrow> bool" where
  "all_groups G ins \<longleftrightarrow> (\<forall>st \<in> set (pi_streams ins). ms_groups st \<noteq> [] \<and> (\<forall>g \<in> set (ms_groups st). G g))"

lemma all_groups_update:
  assumes "all_groups G ins" and "i < length (pi_streams ins)" and "ms_groups st \<noteq> []" and "\<forall>g \<in> set (ms_groups st). G g"
  shows "all_groups G (ins\<lparr>pi_streams := (pi_streams ins)[i := st]\<rparr>)"
  using assms unfolding all_groups_def by (auto dest!: set_update_subset_insert [THEN subsetD])

lemma stream_index_SomeD: "stream_index ins sid = Some i \<Longrightarrow> i < length (pi_streams ins) \<and> ms_id (pi_streams ins ! i) = sid"
  by (auto simp: stream_index_def find_Some_iff)

text \<open>What appending can hand to a group: the text itself, or a map with the string of the key.\<close>

definition admissible :: "flb_ml_parser_ins \<Rightarrow> payload \<Rightarrow> mmap option \<Rightarrow> cstring \<Rightarrow> cstring option \<Rightarrow> bool" where
  "admissible ins pl full_map buf val_content \<longleftrightarrow>
     full_map = None \<and> val_content = None \<and> pl = Text buf
     \<or> full_map \<noteq> None \<and> val_content \<noteq> None \<and> pi_key_content ins \<noteq> None"

definition ins_guard ::
  "(flb_ml_parser_ins \<Rightarrow> bool) \<Rightarrow> (flb_ml_parser_ins \<Rightarrow> flb_ml_stream_group \<Rightarrow> bool) \<Rightarrow> flb_ml_parser_ins \<Rightarrow> bool" where
  "ins_guard I G ins \<longleftrightarrow> I ins \<and> all_groups (G ins) ins"

locale group_guard =
  fixes I :: "flb_ml_parser_ins \<Rightarrow> bool" and G :: "flb_ml_parser_ins \<Rightarrow> flb_ml_stream_group \<Rightarrow> bool" and Q :: "ml_event \<Rightarrow> bool"
    and e :: ml_env and limit :: nat and sid :: u64 and tm :: nat and metadata :: "mmap option" and pl :: payload
    and fill :: "flb_ml_stream_group \<Rightarrow> int \<times> flb_ml_stream_group"
  assumes I_key_group: "I ins \<Longrightarrow> pa_key_group (pi_ml_parser ins) = None"
    and I_parser: "I ins \<Longrightarrow> pl = Map m \<Longrightarrow> pa_parser (pi_ml_parser ins) \<noteq> None \<Longrightarrow> pi_key_content ins \<noteq> None"
    and I_static: "I (ins\<lparr>pi_streams := z\<rparr>) = I ins" "I (ins\<lparr>pi_last_stream_id := x\<rparr>) = I ins"
    and G_static: "G (ins\<lparr>pi_streams := z\<rparr>) = G ins" "G (ins\<lparr>pi_last_stream_id := x\<rparr>) = G ins"
    and group_ok: "I ins \<Longrightarrow> G ins g \<Longrightarrow> admissible ins pl full_map buf val_content \<Longrightarrow>
      runs (package_group e limit ins st_id md full_map buf t val_content val_pattern g)
        (\<lambda>(ret, g', evs). G ins g' \<and> list_all Q evs)"
    and group_flush_ok: "I ins \<Longrightarrow> G ins g \<Longrightarrow>
      runs (flb_ml_flush_stream_group e ins st_id forced g) (\<lambda>(ret, g', evs). G ins g' \<and> list_all Q evs)"
    and fill_ok: "I ins \<Longrightarrow> G ins g \<Longrightarrow>
      runs (flb_ml_flush_stream_group e ins st_id False (snd (fill g))) (\<lambda>(ret, g', evs). G ins g' \<and> list_all Q evs)"
begin

lemma package_content_guard:
  assumes "I ins" and "ms_groups st \<noteq> []" and "\<forall>g \<in> set (ms_groups st). G ins g" and "admissible ins pl full_map buf val_content"
  shows "runs (package_content e limit ins md full_map buf t val_content val_pattern val_group st)
    (\<lambda>(ret, st', evs). ms_groups st' \<noteq> [] \<and> (\<forall>g \<in> set (ms_groups st'). G ins g) \<and> list_all Q evs)"
proof -
  have "G ins (ms_groups st ! 0)" using assms(2,3) by simp
  from group_ok [OF assms(1) this assms(4), of "ms_id st" md t val_pattern]
  show ?thesis using assms I_key_group [OF assms(1)]
    by (auto simp: package_content_def flb_ml_stream_group_get_def runs_iff dest!: set_update_subset_insert [THEN subsetD])
qed

lemma process_append_guard:
  assumes "I ins" and "ms_groups st \<noteq> []" and "\<forall>g \<in> set (ms_groups st). G ins g" and "\<And>buf. pl' = Text buf \<Longrightarrow> pl = Text buf"
  shows "runs (process_append e limit ins t md pl' st)
    (\<lambda>(ret, st', evs). ms_groups st' \<noteq> [] \<and> (\<forall>g \<in> set (ms_groups st'). G ins g) \<and> list_all Q evs)"
proof (cases pl')
  case (Text buf)
  have "admissible ins pl None buf None" using assms(4) Text by (simp add: admissible_def)
  from package_content_guard [OF assms(1-3) this, of None t None None] show ?thesis using Text by (simp add: process_append_def)
next
  case (Map m)
  show ?thesis
  proof (cases "get_val m (pi_key_content ins)")
    case None
    then show ?thesis using Map assms(2,3) by (simp add: process_append_def)
  next
    case (Some content)
    then have "admissible ins pl (Some m) [] (Some content)"
      by (cases "pi_key_content ins") (auto simp: admissible_def get_val_def get_key_id_def)
    from package_content_guard [OF assms(1-3) this, of md t "get_val m (pi_key_pattern ins)" "get_val m (pi_key_group ins)"]
    show ?thesis using Map Some by (auto simp: process_append_def runs_iff)
  qed
qed

lemma try_parser_guard:
  assumes "ins_guard I G ins"
  shows "runs (ml_append_try_parser e limit sid tm metadata pl ins) (\<lambda>(ret, ins', evs). ins_guard I G ins' \<and> list_all Q evs)"
proof -
  have I: "I ins" and A: "all_groups (G ins) ins" using assms by (auto simp: ins_guard_def)
  define parsed where "parsed = (case pl of Text buf \<Rightarrow> Some (ml_append_try_parser_type_text ins tm buf)
      | Map m \<Rightarrow> ml_append_try_parser_type_map ins tm m)"
  have "parsed \<noteq> None" using I_parser [OF I]
    by (auto simp: parsed_def ml_append_try_parser_type_map_def split: payload.split option.split)
  then obtain r where r: "parsed = Some r" by blast
  have raw: "pl = Text buf" if "r = Some (Text buf, t)" for buf t
    using that r by (auto simp: parsed_def ml_append_try_parser_type_map_def ml_append_try_parser_type_text_def
        split: payload.splits option.splits mobj.splits Option.bind_splits)
  show ?thesis
  proof (cases r)
    case None
    then show ?thesis using r assms by (simp add: ml_append_try_parser_def parsed_def)
  next
    case (Some x)
    obtain out t where x: "x = (out, t)" by (cases x)
    show ?thesis
    proof (cases "stream_index ins sid")
      case None
      then show ?thesis using r Some x assms by (simp add: ml_append_try_parser_def parsed_def)
    next
      case (Some i)
      let ?t = "Some (if t \<noteq> 0 then t else if tm \<noteq> 0 then tm else me_now e)"
      note i = stream_index_SomeD [OF Some]
      have st: "ms_groups (pi_streams ins ! i) \<noteq> []" "\<forall>g \<in> set (ms_groups (pi_streams ins ! i)). G ins g"
        using A i by (auto simp: all_groups_def)
      have "pl = Text buf" if "out = Text buf" for buf using raw \<open>r = Some x\<close> x that by blast
      then have "runs (process_append e limit ins ?t metadata out (pi_streams ins ! i))
          (\<lambda>(ret, st', evs). ms_groups st' \<noteq> [] \<and> (\<forall>g \<in> set (ms_groups st'). G ins g) \<and> list_all Q evs)"
        by (intro process_append_guard [OF I st])
      then obtain ret st' evs where
        p: "process_append e limit ins ?t metadata out (pi_streams ins ! i) = Some (ret, st', evs)" "ms_groups st' \<noteq> []"
          "\<forall>g \<in> set (ms_groups st'). G ins g" "list_all Q evs" by (auto simp: runs_iff)
      have "ins_guard I G (ins\<lparr>pi_streams := (pi_streams ins)[i := st']\<rparr>)"
        using I all_groups_update [OF A _ p(2,3)] i by (simp add: ins_guard_def I_static G_static)
      then show ?thesis using r \<open>r = Some x\<close> x Some p(1,4) by (simp add: ml_append_try_parser_def parsed_def)
    qed
  qed
qed

lemma flush_instance_guard:
  assumes "ins_guard I G ins"
  shows "runs (flb_ml_flush_parser_instance e sid' forced ins) (\<lambda>(ins', evs). ins_guard I G ins' \<and> list_all Q evs)"
proof -
  have I: "I ins" using assms by (simp add: ins_guard_def)
  let ?f = "\<lambda>st. if sid' \<noteq> 0 \<and> ms_id st \<noteq> sid' then Some (st, [])
    else Option.bind (each (\<lambda>g. Option.bind (flb_ml_flush_stream_group e ins (ms_id st) forced g) (\<lambda>(_, g, ev). Some (g, ev))) (ms_groups st))
      (\<lambda>(gs, ev). Some (st\<lparr>ms_groups := gs\<rparr>, ev))"
  let ?R = "\<lambda>st. ms_groups st \<noteq> [] \<and> (\<forall>g \<in> set (ms_groups st). G ins g)"
  have "runs (?f st) (\<lambda>(st', evs). ?R st' \<and> list_all Q evs)" if st: "st \<in> set (pi_streams ins)" for st
  proof -
    have R: "?R st" using assms st by (simp add: ins_guard_def all_groups_def)
    have "\<forall>g \<in> set (ms_groups st). runs (Option.bind (flb_ml_flush_stream_group e ins (ms_id st) forced g) (\<lambda>(_, g, ev). Some (g, ev)))
        (\<lambda>(g', evs). G ins g' \<and> list_all Q evs)"
      using group_flush_ok [OF I, of _ "ms_id st" forced] R by (fastforce simp: runs_iff)
    from each_runs [OF this] R show ?thesis by (auto simp: runs_iff)
  qed
  then have "\<forall>st \<in> set (pi_streams ins). runs (?f st) (\<lambda>(st', evs). ?R st' \<and> list_all Q evs)" by blast
  from each_runs [OF this] obtain sts evs where "each ?f (pi_streams ins) = Some (sts, evs)" "\<forall>st \<in> set sts. ?R st" "list_all Q evs"
    by (auto simp: runs_iff)
  then show ?thesis using I by (simp add: flb_ml_flush_parser_instance_def ins_guard_def all_groups_def I_static G_static)
qed

lemma ins_alone_guard:
  assumes "ins_guard I G ins"
  shows "runs (ins_alone e sid fill ins) (\<lambda>(ret, ins', evs). ins_guard I G ins' \<and> list_all Q evs)"
proof (cases "stream_index ins sid")
  case None
  then show ?thesis using assms by (simp add: ins_alone_def)
next
  case (Some i)
  have I: "I ins" and A: "all_groups (G ins) ins" using assms by (auto simp: ins_guard_def)
  let ?st = "pi_streams ins ! i"
  note i = stream_index_SomeD [OF Some]
  have st: "ms_groups ?st \<noteq> []" "\<forall>g \<in> set (ms_groups ?st). G ins g" using A i by (auto simp: all_groups_def)
  then have "G ins (ms_groups ?st ! 0)" by simp
  from fill_ok [OF I this, of "ms_id ?st"] obtain ret sg evs where
    f: "flb_ml_flush_stream_group e ins (ms_id ?st) False (snd (fill (ms_groups ?st ! 0))) = Some (ret, sg, evs)" "G ins sg" "list_all Q evs"
    by (auto simp: runs_iff)
  have "ins_guard I G (ins\<lparr>pi_streams := (pi_streams ins)[i := ?st\<lparr>ms_groups := (ms_groups ?st)[0 := sg]\<rparr>]\<rparr>)"
    using I all_groups_update [OF A, of i "?st\<lparr>ms_groups := (ms_groups ?st)[0 := sg]\<rparr>"] i st f(2)
    by (auto simp: ins_guard_def I_static G_static dest!: set_update_subset_insert [THEN subsetD])
  then show ?thesis using Some f by (simp add: ins_alone_def Let_def case_prod_unfold)
qed

end

sublocale group_guard \<subseteq> ml_guard "ins_guard I G" Q "ml_append_try_parser e limit sid tm metadata pl" e sid fill
proof
  show "ins_guard I G (ins\<lparr>pi_last_stream_id := sid\<rparr>)" if "ins_guard I G ins" for ins
    using that by (simp add: ins_guard_def all_groups_def I_static G_static)
qed (auto intro: try_parser_guard flush_instance_guard ins_alone_guard)

section \<open>Appending never follows a NULL pointer\<close>

text \<open>Without the name of a key no map is kept, so its length is never asked for.\<close>

definition keyed :: "flb_ml_parser_ins \<Rightarrow> flb_ml_stream_group \<Rightarrow> bool" where
  "keyed ins g \<longleftrightarrow> (pi_key_content ins = None \<longrightarrow> sg_mp_sbuf g = [])"

lemma keyed_static [simp]:
  "keyed (ins\<lparr>pi_streams := z\<rparr>) = keyed ins" "keyed (ins\<lparr>pi_last_stream_id := x\<rparr>) = keyed ins"
  by (simp_all add: keyed_def fun_eq_iff)

lemma keyed_fields [simp]:
  "keyed ins (g\<lparr>sg_buf := b\<rparr>) = keyed ins g" "keyed ins (g\<lparr>sg_truncated := t\<rparr>) = keyed ins g"
  "keyed ins (g\<lparr>sg_rule_to_state := r\<rparr>) = keyed ins g" "keyed ins (g\<lparr>sg_first_line := t\<rparr>) = keyed ins g"
  "keyed ins (g\<lparr>sg_mp_md_sbuf := m\<rparr>) = keyed ins g" "keyed ins (g\<lparr>sg_last_flush := n\<rparr>) = keyed ins g"
  "keyed ins (g\<lparr>sg_mp_time := n\<rparr>) = keyed ins g" "keyed ins (g\<lparr>sg_mp_sbuf := []\<rparr>)"
  by (simp_all add: keyed_def)

lemma keyed_cat [simp]: "keyed ins (sg_cat e t g) = keyed ins g" "keyed ins (breakline_prepare e ins' g) = keyed ins g"
  by (simp_all add: sg_cat_def breakline_prepare_def)

lemma keyed_group_cat: "keyed ins g \<Longrightarrow> keyed ins (snd (flb_ml_group_cat e limit g d))"
  by (auto simp: flb_ml_group_cat_def Let_def split: prod.split)

lemma keyed_register: "keyed ins g \<Longrightarrow> full_map = None \<or> pi_key_content ins \<noteq> None \<Longrightarrow> keyed ins (flb_ml_register_context tm full_map g)"
  by (auto simp: flb_ml_register_context_def keyed_def Let_def split: option.split)

lemma keyed_flush:
  assumes "keyed ins g"
  shows "runs (flb_ml_flush_stream_group e ins sid forced g) (\<lambda>(ret, g', evs). keyed ins g')"
proof -
  have k: "keyed ins (breakline_prepare e ins g)" using assms by simp
  have "runs (flush_body ins (breakline_prepare e ins g)) (\<lambda>(body, g'). keyed ins g')"
    using k by (cases "pi_key_content ins"; cases "sg_mp_sbuf (breakline_prepare e ins g)") (simp_all add: flush_body_def keyed_def Let_def)
  then obtain body g' where "flush_body ins (breakline_prepare e ins g) = Some (body, g')" "keyed ins g'" by (auto simp: runs_iff)
  then show ?thesis by (cases body) (simp_all add: flb_ml_flush_stream_group_def Let_def)
qed

lemma keyed_matched:
  assumes "keyed ins g"
  shows "runs (rule_matched e ins sid r evs g) (\<lambda>(ret, g', evs). keyed ins g')"
  using keyed_flush [of ins "g\<lparr>sg_rule_to_state := Some r\<rparr>" e sid False] assms
  by (auto simp: rule_matched_def try_flushing_buffer_def runs_iff Let_def)

lemma keyed_rule_process:
  assumes g: "keyed ins g" and fm: "full_map = None \<or> pi_key_content ins \<noteq> None"
  shows "runs (flb_ml_rule_process e limit ins sid full_map buf tm val_content g) (\<lambda>(ret, g', evs). keyed ins g')"
proof -
  let ?line = "case val_content of Some s \<Rightarrow> s | None \<Rightarrow> buf"
  have cont: "runs (rule_continue e limit ins sid r l g) (\<lambda>(ret, g', evs). keyed ins g')" for r l
  proof -
    define h where "h = (if sg_buf g \<noteq> [] \<and> last (sg_buf g) \<noteq> NL then sg_cat e [NL] g else g)"
    have h: "keyed ins h" using g by (simp add: h_def)
    obtain ret g1 where c: "flb_ml_group_cat e limit h l = (ret, g1)" by (cases "flb_ml_group_cat e limit h l")
    then have g1: "keyed ins g1" using keyed_group_cat [OF h, of e limit l] by simp
    from keyed_flush [OF g1, of e sid False] obtain r2 g2 ev2 where
      "flb_ml_flush_stream_group e ins sid False g1 = Some (r2, g2, ev2)" "keyed ins g2" by (auto simp: runs_iff)
    then show ?thesis using c keyed_matched [OF g1, of e sid r "[]"] keyed_matched [of ins "sg_cat e [NL] h" e sid r "[]"] h
      using g1 by (simp add: rule_continue_def h_def [symmetric] Let_def)
  qed
  have start: "runs (rule_start e limit ins sid r l tm full_map g) (\<lambda>(ret, g', evs). keyed ins g')" for r l
  proof -
    obtain r1 h ev where p: "(if sg_buf g \<noteq> [] then flb_ml_flush_stream_group e ins sid False g else Some (0, g, [])) = Some (r1, h, ev)"
      "keyed ins h" using keyed_flush [OF g, of e sid False] g by (cases "sg_buf g = []") (auto simp: runs_iff)
    obtain ret g1 where c: "flb_ml_group_cat e limit (h\<lparr>sg_rule_to_state := Some r\<rparr>) l = (ret, g1)"
      by (cases "flb_ml_group_cat e limit (h\<lparr>sg_rule_to_state := Some r\<rparr>) l")
    then have g1: "keyed ins g1" using keyed_group_cat [of ins "h\<lparr>sg_rule_to_state := Some r\<rparr>" e limit l] p(2) by simp
    show ?thesis using p c g1 keyed_matched [OF keyed_register [OF g1 fm], of e sid r ev tm]
      by (simp add: rule_start_def del: runs_if)
  qed
  show ?thesis using cont start g by (auto simp: flb_ml_rule_process_def Let_def split: option.split)
qed

lemma keyed_plain:
  assumes g: "keyed ins g" and fm: "full_map = None \<or> pi_key_content ins \<noteq> None"
  shows "runs (package_plain e ins sid m d tm full_map g) (\<lambda>(g', evs). keyed ins g')"
proof -
  let ?h = "if sg_mp_sbuf g = [] then flb_ml_register_context tm full_map g else g"
  have "keyed ins (sg_cat e d (breakline_prepare e ins ?h))" using g keyed_register [OF g fm] by simp
  from keyed_flush [OF this, of e sid False] this show ?thesis by (auto simp: package_plain_def runs_iff Let_def)
qed

lemma keyed_package:
  assumes g: "keyed ins g" and fm: "full_map = None \<or> pi_key_content ins \<noteq> None"
  shows "runs (package_group e limit ins sid md full_map buf tm val_content val_pattern g) (\<lambda>(ret, g', evs). keyed ins g')"
proof -
  let ?md = "\<lambda>h. case md of None \<Rightarrow> h | Some m \<Rightarrow> h\<lparr>sg_mp_md_sbuf := sg_mp_md_sbuf h @ [m]\<rparr>"
  have md: "keyed ins (?md h) = keyed ins h" for h by (cases md) simp_all
  have rule: "runs (flb_ml_rule_process e limit ins sid full_map buf tm val_content g) (\<lambda>(ret, h, evs). keyed ins h)"
    by (rule keyed_rule_process [OF g fm])
  have plain: "runs (Option.bind (package_plain e ins sid m d tm full_map g) (\<lambda>(h, ev). Some (1, ?md h, ev))) (\<lambda>(ret, h, evs). keyed ins h)" for m d
    unfolding runs_bind by (rule runs_mono [OF keyed_plain [OF g fm]]) (auto simp: md)
  show ?thesis
  proof (cases "pa_type (pi_ml_parser ins)")
    case FLB_ML_REGEX
    then show ?thesis using rule by (auto simp: package_group_def Let_def md elim!: runs_mono)
  qed (use g in \<open>auto simp: package_group_def Let_def simp del: runs_bind intro: plain\<close>)
qed

definition ungrouped :: "flb_ml_parser_ins \<Rightarrow> bool" where
  "ungrouped ins \<longleftrightarrow> pa_key_group (pi_ml_parser ins) = None"

interpretation text_safe: group_guard ungrouped keyed "\<lambda>_. True" e limit sid tm None "Text l" "text_fill e limit tm l"
  for e limit sid tm l
proof
  show "runs (package_group e limit ins st_id md full_map buf t val_content val_pattern g) (\<lambda>(ret, g', evs). keyed ins g' \<and> list_all (\<lambda>_. True) evs)"
    if "keyed ins g" and "admissible ins (Text l) full_map buf val_content" for ins g full_map buf val_content st_id md t val_pattern
    by (rule runs_mono [OF keyed_package [OF that(1)]]) (use that(2) in \<open>auto simp: admissible_def list_all_iff\<close>)
  show "runs (flb_ml_flush_stream_group e ins st_id forced g) (\<lambda>(ret, g', evs). keyed ins g' \<and> list_all (\<lambda>_. True) evs)"
    if "keyed ins g" for ins g st_id forced
    by (rule runs_mono [OF keyed_flush [OF that]]) (auto simp: list_all_iff)
  show "runs (flb_ml_flush_stream_group e ins st_id False (snd (text_fill e limit tm l g)))
      (\<lambda>(ret, g', evs). keyed ins g' \<and> list_all (\<lambda>_. True) evs)" if "keyed ins g" for ins g st_id
    by (rule runs_mono [OF keyed_flush [of ins "snd (text_fill e limit tm l g)"]])
      (use keyed_group_cat [of ins "flb_ml_register_context (Some tm) None g" e limit l] keyed_register [OF that, of None "Some tm"]
        in \<open>auto simp: text_fill_def list_all_iff split: prod.splits\<close>)
qed (auto simp: ungrouped_def)

section \<open>The limit on a message\<close>

text \<open>A buffer is within the limit, or one byte over it for the end of the line.\<close>

definition bounded :: "nat \<Rightarrow> cstring \<Rightarrow> bool" where
  "bounded lim b \<longleftrightarrow> length b \<le> lim \<or> length b = Suc lim \<and> last b = NL"

definition held_to :: "nat \<Rightarrow> flb_ml_parser_ins \<Rightarrow> flb_ml_stream_group \<Rightarrow> bool" where
  "held_to lim ins g \<longleftrightarrow> sg_mp_sbuf g = [] \<and> bounded lim (sg_buf g)"

definition short_event :: "nat \<Rightarrow> ml_event \<Rightarrow> bool" where
  "short_event lim ev \<longleftrightarrow> length (event_text ev) \<le> Suc lim"

definition plain_text :: "flb_ml_parser_ins \<Rightarrow> bool" where
  "plain_text ins \<longleftrightarrow> text_ins ins \<and> ungrouped ins"

lemma held_to_fields [simp]:
  "held_to lim ins (g\<lparr>sg_truncated := t\<rparr>) = held_to lim ins g" "held_to lim ins (g\<lparr>sg_rule_to_state := r\<rparr>) = held_to lim ins g"
  "held_to lim ins (g\<lparr>sg_first_line := t\<rparr>) = held_to lim ins g" "held_to lim ins (g\<lparr>sg_mp_md_sbuf := m\<rparr>) = held_to lim ins g"
  "held_to lim ins (g\<lparr>sg_last_flush := n\<rparr>) = held_to lim ins g" "held_to lim ins (g\<lparr>sg_mp_time := n\<rparr>) = held_to lim ins g"
  "held_to lim ins (g\<lparr>sg_buf := []\<rparr>) \<longleftrightarrow> sg_mp_sbuf g = []"
  by (simp_all add: held_to_def bounded_def)

lemma held_to_newline:
  "held_to lim ins g \<Longrightarrow> held_to lim ins (if sg_buf g \<noteq> [] \<and> last (sg_buf g) \<noteq> NL then sg_cat e [NL] g else g)"
  by (auto simp: held_to_def bounded_def sg_cat_def flb_sds_cat_safe_def)

lemma held_to_breakline: "held_to lim ins g \<Longrightarrow> held_to lim ins (breakline_prepare e ins' g)"
  using held_to_newline [of lim ins g e] by (auto simp: breakline_prepare_def split: if_splits)

lemma held_to_group_cat: "held_to lim ins g \<Longrightarrow> lim > 0 \<Longrightarrow> held_to lim ins (snd (flb_ml_group_cat e lim g d))"
  by (auto simp: flb_ml_group_cat_def flb_sds_cat_safe_def held_to_def bounded_def Let_def split: prod.split)

lemma held_to_register: "held_to lim ins (flb_ml_register_context tm None g) = held_to lim ins g"
  by (auto simp: flb_ml_register_context_def Let_def split: option.split)

lemma held_to_flush:
  assumes "held_to lim ins g" and "plain_text ins"
  shows "runs (flb_ml_flush_stream_group e ins sid forced g) (\<lambda>(ret, g', evs). held_to lim ins g' \<and> list_all (short_event lim) evs)"
proof -
  let ?h = "breakline_prepare e ins g"
  have h: "held_to lim ins ?h" using assms(1) by (rule held_to_breakline)
  have k: "pi_key_content ins = None" using assms(2) by (simp add: plain_text_def text_ins_def)
  have "flush_body ins ?h = Some (if sg_buf ?h \<noteq> [] then Some [(MStr ''log'', MStr (sg_buf ?h))] else None, ?h)"
    using h k by (simp add: flush_body_def held_to_def)
  then show ?thesis using h
    by (auto simp: flb_ml_flush_stream_group_def short_event_def event_text_def held_to_def bounded_def Let_def)
qed

lemma held_to_matched:
  assumes "held_to lim ins g" and "plain_text ins" and "list_all (short_event lim) evs"
  shows "runs (rule_matched e ins sid r evs g) (\<lambda>(ret, g', evs). held_to lim ins g' \<and> list_all (short_event lim) evs)"
  using held_to_flush [of lim ins "g\<lparr>sg_rule_to_state := Some r\<rparr>" e sid False] assms
  by (auto simp: rule_matched_def try_flushing_buffer_def runs_iff Let_def)

lemma held_to_continue:
  assumes g: "held_to lim ins g" and p: "plain_text ins" and lim: "lim > 0" and l: "l \<noteq> []"
  shows "runs (rule_continue e lim ins sid r l g) (\<lambda>(ret, g', evs). held_to lim ins g' \<and> list_all (short_event lim) evs)"
proof -
  define h where "h = (if sg_buf g \<noteq> [] \<and> last (sg_buf g) \<noteq> NL then sg_cat e [NL] g else g)"
  have h: "held_to lim ins h" unfolding h_def by (rule held_to_newline [OF g])
  obtain ret g1 where c: "flb_ml_group_cat e lim h l = (ret, g1)" by (cases "flb_ml_group_cat e lim h l")
  then have g1: "held_to lim ins g1" using held_to_group_cat [OF h lim, of e l] by simp
  from held_to_flush [OF g1 p, of e sid False] obtain r2 g2 ev2 where
    "flb_ml_flush_stream_group e ins sid False g1 = Some (r2, g2, ev2)" "held_to lim ins g2" "list_all (short_event lim) ev2"
    by (auto simp: runs_iff)
  then show ?thesis using c l g1 held_to_matched [OF g1 p, of "[]" e sid r] by (simp add: rule_continue_def h_def [symmetric] Let_def)
qed

lemma held_to_start:
  assumes g: "held_to lim ins g" and p: "plain_text ins" and lim: "lim > 0"
  shows "runs (rule_start e lim ins sid r l tm None g) (\<lambda>(ret, g', evs). held_to lim ins g' \<and> list_all (short_event lim) evs)"
proof -
  obtain r1 h ev where f: "(if sg_buf g \<noteq> [] then flb_ml_flush_stream_group e ins sid False g else Some (0, g, [])) = Some (r1, h, ev)"
    "held_to lim ins h" "list_all (short_event lim) ev"
    using held_to_flush [OF g p, of e sid False] g by (cases "sg_buf g = []") (auto simp: runs_iff)
  obtain ret g1 where c: "flb_ml_group_cat e lim (h\<lparr>sg_rule_to_state := Some r\<rparr>) l = (ret, g1)"
    by (cases "flb_ml_group_cat e lim (h\<lparr>sg_rule_to_state := Some r\<rparr>) l")
  then have g1: "held_to lim ins g1" using held_to_group_cat [OF _ lim, of ins "h\<lparr>sg_rule_to_state := Some r\<rparr>" e l] f(2) by simp
  then show ?thesis using f c held_to_matched [OF _ p f(3), of "flb_ml_register_context tm None g1" e sid r]
    by (simp add: rule_start_def held_to_register del: runs_if)
qed

lemma held_to_package:
  assumes g: "held_to lim ins g" and p: "plain_text ins" and lim: "lim > 0" and l: "l \<noteq> []"
  shows "runs (package_group e lim ins sid md None l tm None val_pattern g)
    (\<lambda>(ret, g', evs). held_to lim ins g' \<and> list_all (short_event lim) evs)"
proof -
  have "runs (flb_ml_rule_process e lim ins sid None l tm None g) (\<lambda>(ret, g', evs). held_to lim ins g' \<and> list_all (short_event lim) evs)"
    using held_to_continue [OF g p lim l] held_to_start [OF g p lim] g
    by (auto simp: flb_ml_rule_process_def split: option.split)
  moreover have "pa_type (pi_ml_parser ins) = FLB_ML_REGEX" using p by (simp add: plain_text_def text_ins_def)
  ultimately show ?thesis by (auto simp: package_group_def Let_def elim!: runs_mono split: option.split)
qed

interpretation text_bound: group_guard plain_text "held_to (Suc n)" "short_event (Suc n)" e "Suc n" sid tm None "Text (c # l)"
    "text_fill e (Suc n) tm (c # l)"
  for e n sid tm c l
proof
  show "runs (package_group e (Suc n) ins st_id md full_map buf t val_content val_pattern g)
      (\<lambda>(ret, g', evs). held_to (Suc n) ins g' \<and> list_all (short_event (Suc n)) evs)"
    if "plain_text ins" "held_to (Suc n) ins g" "admissible ins (Text (c # l)) full_map buf val_content"
    for ins g full_map buf val_content st_id md t val_pattern
    using held_to_package [OF that(2,1), of "c # l" e st_id md t val_pattern] that(1,3)
    by (auto simp: admissible_def plain_text_def text_ins_def)
  show "runs (flb_ml_flush_stream_group e ins st_id forced g)
      (\<lambda>(ret, g', evs). held_to (Suc n) ins g' \<and> list_all (short_event (Suc n)) evs)"
    if "plain_text ins" "held_to (Suc n) ins g" for ins g st_id forced
    by (rule held_to_flush [OF that(2,1)])
  show "runs (flb_ml_flush_stream_group e ins st_id False (snd (text_fill e (Suc n) tm (c # l) g)))
      (\<lambda>(ret, g', evs). held_to (Suc n) ins g' \<and> list_all (short_event (Suc n)) evs)"
    if "plain_text ins" "held_to (Suc n) ins g" for ins g st_id
    by (rule held_to_flush [OF _ that(1)])
      (use held_to_group_cat [of "Suc n" ins "flb_ml_register_context (Some tm) None g" e "c # l"] that(2)
        in \<open>auto simp: text_fill_def held_to_register split: prod.splits\<close>)
qed (auto simp: plain_text_def ungrouped_def text_ins_def held_to_def fun_eq_iff)

section \<open>Properties of a context\<close>

text \<open>
  Appending a line to a context returns, whatever fails, as long as there is a parser and the parsers have no key for groups.
\<close>

theorem multiline_append_safe:
  assumes "each_ins (ins_guard ungrouped keyed) (ml_groups ml)" and "ml_groups ml \<noteq> []" and "shape (ml_groups ml) ! 0 > 0"
  shows "\<exists>ret ml' evs. flb_ml_append_text e sid tm l ml = Some (ret, ml', evs)
    \<and> each_ins (ins_guard ungrouped keyed) (ml_groups ml') \<and> shape (ml_groups ml') = shape (ml_groups ml)"
  using text_safe.append_guard [OF assms, of e sid "ml_buffer_limit ml" tm l] by (auto simp: flb_ml_append_text_def runs_iff kept_def)


lemma sample_held: "each_ins (ins_guard plain_text (held_to lim)) (ml_groups (sample_context sample_parser limit))"
proof -
  have "strcasecmp_eq (pa_name sample_parser) ''SAMPLE''" by (simp add: sample_parser_fields) code_simp
  from sample_context_groups [OF this, of limit] show ?thesis
    by (simp add: ins_guard_def plain_text_def text_ins_def ungrouped_def all_groups_def held_to_def bounded_def stream_create_def
        stream_group_create_def sample_parser_fields sample_parser_none)
qed


end
