(* ===== verification/Multiline_Join.thy ===== *)
theory Multiline_Join
  imports Multiline_Guard
begin

text \<open>
  Partial records of containers: parsers of type EQ and ENDSWITH (the built-in \<^verbatim>\<open>cri\<close> and \<^verbatim>\<open>docker\<close>) join the content of
  the records of a group until a final one comes. The groups of a stream refine a map from group names to the records that are pending.
\<close>

section \<open>The specification\<close>

type_synonym record_at = "mmap \<times> nat"

text \<open>What tells two names of groups apart: their length, and their text up to a NUL.\<close>

definition gkey :: "cstring \<Rightarrow> nat \<times> cstring" where
  "gkey name = (length name, c_str name)"

lemma group_named_iff: "group_named name g \<longleftrightarrow> gkey (sg_name g) = gkey name"
  by (auto simp: group_named_def gkey_def strncmp_eq_def c_str_def)

definition group_of :: "flb_ml_parser_ins \<Rightarrow> mmap \<Rightarrow> cstring" where
  "group_of ins m = (if pa_key_group (pi_ml_parser ins) = None then [] else case get_val m (pi_key_group ins) of None \<Rightarrow> [] | Some s \<Rightarrow> s)"

definition content_of :: "flb_ml_parser_ins \<Rightarrow> mmap \<Rightarrow> cstring" where
  "content_of ins m = the (get_val m (pi_key_content ins))"

definition pattern_of :: "flb_ml_parser_ins \<Rightarrow> mmap \<Rightarrow> cstring" where
  "pattern_of ins m = (case get_val m (pi_key_pattern ins) of None \<Rightarrow> content_of ins m | Some s \<Rightarrow> s)"

text \<open>The last part of a message.\<close>

definition final :: "flb_ml_parser_ins \<Rightarrow> mmap \<Rightarrow> bool" where
  "final ins m =
     (let p = pi_ml_parser ins; d = pattern_of ins m in
      match_negate p (if pa_type p = FLB_ML_EQ then d = pa_match_str p
                      else drop (length d - length (pa_match_str p)) d = pa_match_str p))"

text \<open>Parts of a message make a record: the first part, with the content of all of them, at the time of the first.\<close>

definition joined_text :: "flb_ml_parser_ins \<Rightarrow> record_at list \<Rightarrow> cstring" where
  "joined_text ins rs = concat (map (\<lambda>r. content_of ins (fst r)) rs)"

definition joined_record :: "flb_ml_parser_ins \<Rightarrow> record_at list \<Rightarrow> record_at" where
  "joined_record ins rs =
     (let b = joined_text ins rs; m = fst (hd rs); kc = the (pi_key_content ins) in
      (if b = [] then m else repack kc (length kc) b m, snd (hd rs)))"

type_synonym pending = "nat \<times> cstring \<Rightarrow> record_at list"

definition join_step :: "flb_ml_parser_ins \<Rightarrow> record_at \<Rightarrow> pending \<Rightarrow> pending \<times> record_at list" where
  "join_step ins r pend =
     (let k = gkey (group_of ins (fst r)); rs = pend k @ [r] in
      if final ins (fst r) then (pend(k := []), [joined_record ins rs]) else (pend(k := rs), []))"

fun join_run :: "flb_ml_parser_ins \<Rightarrow> record_at list \<Rightarrow> pending \<Rightarrow> pending \<times> record_at list" where
  "join_run ins [] pend = (pend, [])"
| "join_run ins (r # rs) pend =
     (case join_step ins r pend of (pend', out) \<Rightarrow> case join_run ins rs pend' of (pend'', out') \<Rightarrow> (pend'', out @ out'))"

section \<open>A group holds its pending records\<close>

definition holds :: "flb_ml_parser_ins \<Rightarrow> record_at list \<Rightarrow> flb_ml_stream_group \<Rightarrow> bool" where
  "holds ins rs g \<longleftrightarrow>
     sg_buf g = joined_text ins rs \<and> sg_mp_sbuf g = map fst (take 1 rs) \<and> (rs \<noteq> [] \<longrightarrow> sg_mp_time g = snd (hd rs))
     \<and> \<not> sg_truncated g"

definition join_ins :: "flb_ml_parser_ins \<Rightarrow> bool" where
  "join_ins ins \<longleftrightarrow> pa_type (pi_ml_parser ins) \<noteq> FLB_ML_REGEX \<and> pi_key_content ins \<noteq> None"

text \<open>A record the parser takes: it has the content, and with ENDSWITH enough text to compare.\<close>

definition suits :: "flb_ml_parser_ins \<Rightarrow> mmap \<Rightarrow> bool" where
  "suits ins m \<longleftrightarrow>
     get_val m (pi_key_content ins) \<noteq> None
     \<and> (pa_type (pi_ml_parser ins) = FLB_ML_ENDSWITH \<longrightarrow> length (pa_match_str (pi_ml_parser ins)) \<le> length (pattern_of ins m))"

definition record_event :: "u64 \<Rightarrow> record_at \<Rightarrow> ml_event \<Rightarrow> bool" where
  "record_event sid r ev \<longleftrightarrow> fe_stream ev = sid \<and> fe_body ev = fst r \<and> fe_time ev = snd r \<and> fe_metadata ev = []"

lemma holds_add:
  assumes "holds ins rs g" and "snd r > 0" and "calm e" and "pi_key_content ins \<noteq> None"
  shows "holds ins (rs @ [r])
    (sg_cat e (content_of ins (fst r)) (breakline_prepare e ins
       (if sg_mp_sbuf g = [] then flb_ml_register_context (Some (snd r)) (Some (fst r)) g else g)))"
  using assms by (cases rs) (auto simp: holds_def sg_cat_calm breakline_prepare_def flb_ml_register_context_def joined_text_def)

lemma holds_flush:
  assumes h: "holds ins rs g" and rs: "rs \<noteq> []" "snd (hd rs) > 0" and c: "calm e" and kc: "pi_key_content ins \<noteq> None"
  obtains g' ev where "flb_ml_flush_stream_group e ins sid forced g = Some (0, g', [ev])" and "holds ins [] g'"
    and "record_event sid (joined_record ins rs) ev" and "sg_name g' = sg_name g"
proof -
  obtain k where k: "pi_key_content ins = Some k" using kc by blast
  obtain m t rs' where r: "rs = (m, t) # rs'" using rs by (cases rs) auto
  have "breakline_prepare e ins g = g" using k by (simp add: breakline_prepare_def)
  moreover have "flush_body ins g = Some (Some (fst (joined_record ins rs)), g\<lparr>sg_mp_sbuf := [], sg_mp_md_sbuf := []\<rparr>)"
    using h k r by (auto simp: flush_body_def holds_def joined_record_def Let_def)
  moreover have "flush_metadata e (g\<lparr>sg_mp_sbuf := [], sg_mp_md_sbuf := []\<rparr>) = []"
    using h by (simp add: flush_metadata_def holds_def)
  ultimately have f: "flb_ml_flush_stream_group e ins sid forced g = Some (0,
      g\<lparr>sg_mp_sbuf := [], sg_mp_md_sbuf := [], sg_buf := [], sg_truncated := False, sg_mp_md_sbuf := [], sg_last_flush := me_now_ms e\<rparr>,
      [\<lparr>fe_stream = sid, fe_time = t, fe_metadata = [], fe_body = fst (joined_record ins rs), fe_forced = forced\<rparr>])"
    using h r rs c by (simp add: flb_ml_flush_stream_group_def holds_def calm_def Let_def)
  show ?thesis by (rule that [OF f]) (use r in \<open>simp_all add: holds_def record_event_def joined_record_def joined_text_def Let_def\<close>)
qed

lemma plain_joins:
  assumes h: "holds ins rs g" and t: "snd r > 0" "\<forall>r \<in> set rs. snd r > 0" and c: "calm e" and kc: "pi_key_content ins \<noteq> None"
  obtains g' evs where "package_plain e ins sid fin (content_of ins (fst r)) (Some (snd r)) (Some (fst r)) g = Some (g', evs)"
    and "holds ins (if fin then [] else rs @ [r]) g'" and "sg_name g' = sg_name g"
    and "list_all2 (record_event sid) (if fin then [joined_record ins (rs @ [r])] else []) evs"
proof -
  let ?h = "sg_cat e (content_of ins (fst r)) (breakline_prepare e ins
       (if sg_mp_sbuf g = [] then flb_ml_register_context (Some (snd r)) (Some (fst r)) g else g))"
  have hh: "holds ins (rs @ [r]) ?h" by (rule holds_add [OF h t(1) c kc])
  have n: "sg_name ?h = sg_name g"
    by (simp add: sg_cat_def breakline_prepare_def flb_ml_register_context_def)
  have pos: "snd (hd (rs @ [r])) > 0" using t by (cases rs) auto
  obtain g' ev where f: "flb_ml_flush_stream_group e ins sid False ?h = Some (0, g', [ev])" "holds ins [] g'"
    "record_event sid (joined_record ins (rs @ [r])) ev" "sg_name g' = sg_name ?h" by (rule holds_flush [OF hh _ pos c kc]) simp
  show ?thesis
  proof (cases fin)
    case True
    show ?thesis by (rule that [of g' "[ev]"]) (use True f n in \<open>simp_all add: package_plain_def Let_def\<close>)
  next
    case False
    show ?thesis by (rule that [of ?h "[]"]) (use False hh n in \<open>simp_all add: package_plain_def Let_def\<close>)
  qed
qed

lemma group_joins:
  assumes j: "join_ins ins" and s: "suits ins (fst r)" and h: "holds ins rs g" and t: "snd r > 0" "\<forall>r \<in> set rs. snd r > 0" and c: "calm e"
  obtains g' evs where "package_group e limit ins sid md (Some (fst r)) [] (Some (snd r)) (get_val (fst r) (pi_key_content ins))
      (get_val (fst r) (pi_key_pattern ins)) g = Some (1, g', evs)"
    and "holds ins (if final ins (fst r) then [] else rs @ [r]) g'" and "sg_name g' = sg_name g"
    and "list_all2 (record_event sid) (if final ins (fst r) then [joined_record ins (rs @ [r])] else []) evs"
proof -
  have kc: "pi_key_content ins \<noteq> None" using j by (simp add: join_ins_def)
  obtain g' evs where p: "package_plain e ins sid (final ins (fst r)) (content_of ins (fst r)) (Some (snd r)) (Some (fst r)) g = Some (g', evs)"
    "holds ins (if final ins (fst r) then [] else rs @ [r]) g'" "sg_name g' = sg_name g"
    "list_all2 (record_event sid) (if final ins (fst r) then [joined_record ins (rs @ [r])] else []) evs"
    by (rule plain_joins [OF h t c kc])
  let ?g = "case md of None \<Rightarrow> g' | Some m \<Rightarrow> g'\<lparr>sg_mp_md_sbuf := sg_mp_md_sbuf g' @ [m]\<rparr>"
  obtain cv where cv: "get_val (fst r) (pi_key_content ins) = Some cv" using s by (auto simp: suits_def)
  have d: "(case get_val (fst r) (pi_key_pattern ins) of None \<Rightarrow> cv | Some s \<Rightarrow> s) = pattern_of ins (fst r)"
    using cv by (simp add: pattern_of_def content_of_def split: option.split)
  have "package_group e limit ins sid md (Some (fst r)) [] (Some (snd r)) (get_val (fst r) (pi_key_content ins))
      (get_val (fst r) (pi_key_pattern ins)) g = Some (1, ?g, evs)"
    using j s p(1) cv d by (cases "pa_type (pi_ml_parser ins)")
      (auto simp: package_group_def join_ins_def suits_def final_def content_of_def Let_def split: option.splits)
  moreover have "holds ins (if final ins (fst r) then [] else rs @ [r]) ?g" "sg_name ?g = sg_name g"
    using p(2,3) by (auto simp: holds_def split: option.split)
  ultimately show ?thesis using p(4) by (intro that)
qed

section \<open>A stream holds the pending records of its groups\<close>

abbreviation group_key :: "flb_ml_stream_group \<Rightarrow> nat \<times> cstring" where
  "group_key g \<equiv> gkey (sg_name g)"

definition stream_holds :: "flb_ml_parser_ins \<Rightarrow> (nat \<times> cstring) set \<Rightarrow> pending \<Rightarrow> flb_ml_stream \<Rightarrow> bool" where
  "stream_holds ins K pend st \<longleftrightarrow>
     ms_groups st \<noteq> [] \<and> sg_name (ms_groups st ! 0) = [] \<and> distinct (map group_key (ms_groups st)) \<and> group_key ` set (ms_groups st) \<subseteq> K
     \<and> (\<forall>g \<in> set (ms_groups st). holds ins (pend (group_key g)) g)
     \<and> (\<forall>k. pend k \<noteq> [] \<longrightarrow> k \<in> group_key ` set (ms_groups st)) \<and> (\<forall>k. \<forall>r \<in> set (pend k). snd r > 0)"

lemma stream_holdsD:
  assumes "stream_holds ins K pend st"
  shows "ms_groups st \<noteq> []" and "sg_name (ms_groups st ! 0) = []" and "distinct (map group_key (ms_groups st))"
    and "group_key ` set (ms_groups st) \<subseteq> K" and "g \<in> set (ms_groups st) \<Longrightarrow> holds ins (pend (group_key g)) g"
    and "pend k \<noteq> [] \<Longrightarrow> k \<in> group_key ` set (ms_groups st)" and "\<forall>r \<in> set (pend k). snd r > 0"
  using assms unfolding stream_holds_def by blast+

lemma group_get_holds:
  assumes h: "stream_holds ins K pend st" and k: "gkey (group_of ins m) \<in> K" and K: "finite K" "card K \<le> FLB_ML_MAX_GROUPS" and c: "calm e"
  obtains i st' where "flb_ml_stream_group_get e ins (get_val m (pi_key_group ins)) st = (Some i, st')" and "i < length (ms_groups st')"
    and "group_key (ms_groups st' ! i) = gkey (group_of ins m)" and "stream_holds ins K pend st'" and "ms_id st' = ms_id st"
proof (cases "pa_key_group (pi_ml_parser ins) = None \<or> get_val m (pi_key_group ins) = None")
  case True
  show ?thesis
    by (rule that [of 0 st]) (use True h stream_holdsD(1,2) [OF h] in \<open>auto simp: flb_ml_stream_group_get_def group_of_def\<close>)
next
  case False
  then obtain name where name: "get_val m (pi_key_group ins) = Some name" by auto
  have gn: "group_of ins m = name" using False name by (auto simp: group_of_def)
  let ?find = "List.find (\<lambda>i. group_named name (ms_groups st ! i)) [0..<length (ms_groups st)]"
  show ?thesis
  proof (cases ?find)
    case (Some i)
    then have i: "i < length (ms_groups st)" "group_named name (ms_groups st ! i)" by (auto simp: find_Some_iff)
    show ?thesis
      by (rule that [of i st]) (use False name Some i h gn in \<open>auto simp: flb_ml_stream_group_get_def group_named_iff\<close>)
  next
    case None
    then have new: "gkey name \<notin> group_key ` set (ms_groups st)"
      by (auto simp: find_None_iff group_named_iff in_set_conv_nth)
    let ?ks = "map group_key (ms_groups st)"
    have "card (insert (gkey name) (set ?ks)) \<le> card K"
      by (rule card_mono [OF K(1)]) (use k gn stream_holdsD(4) [OF h] in auto)
    then have len: "length (ms_groups st) < FLB_ML_MAX_GROUPS"
      using new K(2) distinct_card [OF stream_holdsD(3) [OF h]] by simp
    let ?st = "st\<lparr>ms_groups := ms_groups st @ [stream_group_create name]\<rparr>"
    have p: "pend (gkey name) = []" using stream_holdsD(6) [OF h, of "gkey name"] new by blast
    have "stream_holds ins K pend ?st"
      using h new p k gn unfolding stream_holds_def
      by (auto simp: holds_def stream_group_create_def joined_text_def nth_append)
    then show ?thesis
      by (intro that [of "length (ms_groups st)" ?st])
        (use False name None len c gn in \<open>auto simp: flb_ml_stream_group_get_def stream_group_create_def calm_def Let_def\<close>)
  qed
qed

lemma stream_holds_update:
  assumes h: "stream_holds ins K pend st" and i: "i < length (ms_groups st)" "group_key (ms_groups st ! i) = k"
    and g: "holds ins rs g" "sg_name g = sg_name (ms_groups st ! i)" and rs: "\<forall>r \<in> set rs. snd r > 0"
  shows "stream_holds ins K (pend(k := rs)) (st\<lparr>ms_groups := (ms_groups st)[i := g], ms_last_stream_group := Some i\<rparr>)"
proof -
  let ?gs = "(ms_groups st)[i := g]"
  have keys: "map group_key ?gs = map group_key (ms_groups st)"
    using i(1) g(2) by (metis list_update_id map_update nth_map)
  have "holds ins ((pend(k := rs)) (group_key x)) x" if x: "x \<in> set ?gs" for x
  proof -
    obtain j where j: "j < length (ms_groups st)" "x = ?gs ! j" using x by (auto simp: in_set_conv_nth)
    show ?thesis
    proof (cases "j = i")
      case True
      then show ?thesis using j g i by simp
    next
      case False
      then have x': "x = ms_groups st ! j" using j by simp
      have "group_key x \<noteq> k"
        using stream_holdsD(3) [OF h] False i j x' by (metis length_map nth_eq_iff_index_eq nth_map)
      then show ?thesis using stream_holdsD(5) [OF h, of x] x' j by simp
    qed
  qed
  moreover have "group_key ` set ?gs = group_key ` set (ms_groups st)" using keys by (metis set_map)
  moreover have "k \<in> group_key ` set (ms_groups st)" using i by (metis imageI nth_mem)
  moreover have "sg_name (?gs ! 0) = []" using stream_holdsD(2) [OF h] g(2) i(1) by (cases i) auto
  ultimately show ?thesis using h keys rs i(1) unfolding stream_holds_def by (auto simp del: map_update)
qed

lemma process_joins:
  assumes j: "join_ins ins" and s: "suits ins (fst r)" and t: "snd r > 0" and h: "stream_holds ins K pend st" and c: "calm e"
    and k: "gkey (group_of ins (fst r)) \<in> K" and K: "finite K" "card K \<le> FLB_ML_MAX_GROUPS"
  obtains st' evs where "process_append e limit ins (Some (snd r)) md (Map (fst r)) st = Some (1, st', evs)" and "ms_id st' = ms_id st"
    and "case join_step ins r pend of (pend', out) \<Rightarrow> stream_holds ins K pend' st' \<and> list_all2 (record_event (ms_id st)) out evs"
proof -
  let ?k = "gkey (group_of ins (fst r))" and ?fin = "final ins (fst r)"
  obtain i st1 where g: "flb_ml_stream_group_get e ins (get_val (fst r) (pi_key_group ins)) st = (Some i, st1)" "i < length (ms_groups st1)"
    "group_key (ms_groups st1 ! i) = ?k" "stream_holds ins K pend st1" "ms_id st1 = ms_id st" by (rule group_get_holds [OF h k K c])
  have hold: "holds ins (pend ?k) (ms_groups st1 ! i)" using stream_holdsD(5) [OF g(4), of "ms_groups st1 ! i"] g(2,3) by simp
  obtain g' evs where p: "package_group e limit ins (ms_id st) md (Some (fst r)) [] (Some (snd r)) (get_val (fst r) (pi_key_content ins))
      (get_val (fst r) (pi_key_pattern ins)) (ms_groups st1 ! i) = Some (1, g', evs)"
    "holds ins (if ?fin then [] else pend ?k @ [r]) g'" "sg_name g' = sg_name (ms_groups st1 ! i)"
    "list_all2 (record_event (ms_id st)) (if ?fin then [joined_record ins (pend ?k @ [r])] else []) evs"
    by (rule group_joins [OF j s hold t stream_holdsD(7) [OF g(4)] c])
  let ?st = "st1\<lparr>ms_groups := (ms_groups st1)[i := g'], ms_last_stream_group := Some i\<rparr>"
  have "stream_holds ins K (pend(?k := if ?fin then [] else pend ?k @ [r])) ?st"
    by (rule stream_holds_update [OF g(4,2,3) p(2,3)]) (use stream_holdsD(7) [OF g(4), of ?k] t in auto)
  moreover obtain cv where "get_val (fst r) (pi_key_content ins) = Some cv" using s by (auto simp: suits_def)
  ultimately show ?thesis using g(1,5) p(1,4)
    by (intro that [of ?st evs]) (auto simp: process_append_def package_content_def join_step_def Let_def)
qed

section \<open>Lines of a container log\<close>

text \<open>The record of a line: what the parser of the instance makes of it, and the time it is appended with.\<close>

definition record_of :: "flb_ml_parser_ins \<Rightarrow> ml_env \<times> nat \<times> cstring \<Rightarrow> record_at option" where
  "record_of ins x =
     (case x of (e, tm, l) \<Rightarrow>
        Option.bind (pa_parser (pi_ml_parser ins)) (\<lambda>do_parse.
          Option.bind (do_parse l) (\<lambda>(m, t). Some (m, if t \<noteq> 0 then t else if tm \<noteq> 0 then tm else me_now e))))"

text \<open>Neither the streams of an instance nor the stream it served last change what it makes of records.\<close>

lemma content_of_static [simp]: "content_of (ins\<lparr>pi_streams := z\<rparr>) = content_of ins" "content_of (ins\<lparr>pi_last_stream_id := x\<rparr>) = content_of ins"
  by (simp_all add: content_of_def fun_eq_iff)

lemma group_of_static [simp]: "group_of (ins\<lparr>pi_streams := z\<rparr>) = group_of ins" "group_of (ins\<lparr>pi_last_stream_id := x\<rparr>) = group_of ins"
  by (auto simp: group_of_def fun_eq_iff)

lemma pattern_of_static [simp]: "pattern_of (ins\<lparr>pi_streams := z\<rparr>) = pattern_of ins" "pattern_of (ins\<lparr>pi_last_stream_id := x\<rparr>) = pattern_of ins"
  by (simp_all add: pattern_of_def fun_eq_iff split: option.split)

lemma final_static [simp]: "final (ins\<lparr>pi_streams := z\<rparr>) = final ins" "final (ins\<lparr>pi_last_stream_id := x\<rparr>) = final ins"
  by (simp_all add: final_def fun_eq_iff)

lemma joined_text_static [simp]: "joined_text (ins\<lparr>pi_streams := z\<rparr>) = joined_text ins" "joined_text (ins\<lparr>pi_last_stream_id := x\<rparr>) = joined_text ins"
  by (simp_all add: joined_text_def fun_eq_iff)

lemma joined_record_static [simp]: "joined_record (ins\<lparr>pi_streams := z\<rparr>) = joined_record ins" "joined_record (ins\<lparr>pi_last_stream_id := x\<rparr>) = joined_record ins"
  by (simp_all add: joined_record_def fun_eq_iff)

lemma join_step_static [simp]: "join_step (ins\<lparr>pi_streams := z\<rparr>) = join_step ins" "join_step (ins\<lparr>pi_last_stream_id := x\<rparr>) = join_step ins"
  by (simp_all add: join_step_def fun_eq_iff Let_def)

lemma holds_static [simp]: "holds (ins\<lparr>pi_streams := z\<rparr>) = holds ins" "holds (ins\<lparr>pi_last_stream_id := x\<rparr>) = holds ins"
  by (simp_all add: holds_def fun_eq_iff)

lemma stream_holds_static [simp]: "stream_holds (ins\<lparr>pi_streams := z\<rparr>) = stream_holds ins" "stream_holds (ins\<lparr>pi_last_stream_id := x\<rparr>) = stream_holds ins"
  by (simp_all add: stream_holds_def fun_eq_iff)

lemma join_ins_static [simp]: "join_ins (ins\<lparr>pi_streams := z\<rparr>) = join_ins ins" "join_ins (ins\<lparr>pi_last_stream_id := x\<rparr>) = join_ins ins"
  by (simp_all add: join_ins_def)

lemma suits_static [simp]: "suits (ins\<lparr>pi_streams := z\<rparr>) = suits ins" "suits (ins\<lparr>pi_last_stream_id := x\<rparr>) = suits ins"
  by (simp_all add: suits_def fun_eq_iff)

lemma record_of_static [simp]: "record_of (ins\<lparr>pi_streams := z\<rparr>) = record_of ins" "record_of (ins\<lparr>pi_last_stream_id := x\<rparr>) = record_of ins"
  by (simp_all add: record_of_def fun_eq_iff)

text \<open>A context with one instance and one stream that holds the pending records; \<open>ins\<close> stands for the settings of the instance.\<close>

definition context_holds :: "flb_ml_parser_ins \<Rightarrow> u64 \<Rightarrow> (nat \<times> cstring) set \<Rightarrow> pending \<Rightarrow> flb_ml \<Rightarrow> bool" where
  "context_holds ins sid K pend ml \<longleftrightarrow>
     (\<exists>grp st x. ml_groups ml = [grp] \<and> gr_parsers grp = [ins\<lparr>pi_streams := [st], pi_last_stream_id := x\<rparr>]
        \<and> (gr_lru_parser grp = None \<or> gr_lru_parser grp = Some 0) \<and> ms_id st = sid \<and> stream_holds ins K pend st)"

lemma type_text_record:
  assumes "record_of ins (e, tm, l) = Some r"
  obtains t where "ml_append_try_parser_type_text ins tm l = Some (Map (fst r), t)"
    and "snd r = (if t \<noteq> 0 then t else if tm \<noteq> 0 then tm else me_now e)"
proof -
  from assms obtain do_parse m t where "pa_parser (pi_ml_parser ins) = Some do_parse" "do_parse l = Some (m, t)"
    "r = (m, if t \<noteq> 0 then t else if tm \<noteq> 0 then tm else me_now e)"
    by (auto simp: record_of_def bind_eq_Some_conv)
  then show ?thesis by (intro that [of "if t = 0 then tm else t"]) (simp_all add: ml_append_try_parser_type_text_def)
qed

lemma append_text_joins:
  assumes j: "join_ins ins" and r: "record_of ins (e, tm, l) = Some r" and s: "suits ins (fst r)" and t: "snd r > 0"
    and h: "context_holds ins sid K pend ml" and c: "calm e"
    and k: "gkey (group_of ins (fst r)) \<in> K" and K: "finite K" "card K \<le> FLB_ML_MAX_GROUPS"
  obtains ml' evs where "flb_ml_append_text e sid tm l ml = Some (FLB_MULTILINE_OK, ml', evs)"
    and "case join_step ins r pend of (pend', out) \<Rightarrow> context_holds ins sid K pend' ml' \<and> list_all2 (record_event sid) out evs"
proof -
  from h obtain grp st x where ml: "ml_groups ml = [grp]" "gr_parsers grp = [ins\<lparr>pi_streams := [st], pi_last_stream_id := x\<rparr>]"
    "gr_lru_parser grp = None \<or> gr_lru_parser grp = Some 0" "ms_id st = sid" and st: "stream_holds ins K pend st"
    unfolding context_holds_def by blast
  let ?ins = "ins\<lparr>pi_streams := [st], pi_last_stream_id := x\<rparr>" and ?lim = "ml_buffer_limit ml"
  obtain st' evs where p: "process_append e ?lim ?ins (Some (snd r)) None (Map (fst r)) st = Some (1, st', evs)" "ms_id st' = ms_id st"
    and post: "case join_step ?ins r pend of (pend', out) \<Rightarrow> stream_holds ?ins K pend' st' \<and> list_all2 (record_event (ms_id st)) out evs"
    by (rule process_joins [of ?ins r K pend st e ?lim None]) (use j s t st c k K in simp_all)
  have "stream_index ?ins sid = Some 0" using ml(4) by (simp add: stream_index_def)
  moreover obtain t where "ml_append_try_parser_type_text ?ins tm l = Some (Map (fst r), t)"
      "snd r = (if t \<noteq> 0 then t else if tm \<noteq> 0 then tm else me_now e)"
    by (rule type_text_record [of ?ins e tm l r]) (use r in simp)
  ultimately have f: "ml_append_try_parser e ?lim sid tm None (Text l) ?ins = Some (1, ins\<lparr>pi_streams := [st'], pi_last_stream_id := x\<rparr>, evs)"
    using p(1) by (simp add: ml_append_try_parser_def)
  let ?m1 = "ml\<lparr>ml_groups := [grp\<lparr>gr_parsers := [ins\<lparr>pi_streams := [st'], pi_last_stream_id := x\<rparr>]\<rparr>]\<rparr>"
  let ?m2 = "ml\<lparr>ml_groups := [grp\<lparr>gr_parsers := [ins\<lparr>pi_streams := [st'], pi_last_stream_id := sid\<rparr>], gr_lru_parser := Some 0\<rparr>]\<rparr>"
  have "flb_ml_append_text e sid tm l ml = Some (FLB_MULTILINE_OK, if gr_lru_parser grp = Some 0 \<and> x = sid then ?m1 else ?m2, evs)"
    using ml(1-3) f by (auto simp: flb_ml_append_text_def ml_append_def ml_try_def FLB_MULTILINE_TRUNCATED_def)
  moreover have "context_holds ins sid K q ?m1" "context_holds ins sid K q ?m2" if "stream_holds ins K q st'" for q
    using that ml p(2) unfolding context_holds_def by auto
  ultimately show ?thesis using post ml(4)
    by (intro that [of "if gr_lru_parser grp = Some 0 \<and> x = sid then ?m1 else ?m2" evs]) auto
qed

lemma append_lines_join:
  assumes j: "join_ins ins" and K: "finite K" "card K \<le> FLB_ML_MAX_GROUPS" and h: "context_holds ins sid K pend ml"
    and r: "those (map (record_of ins) xs) = Some rs" and c: "\<forall>(e, tm, l) \<in> set xs. calm e"
    and s: "\<forall>r \<in> set rs. suits ins (fst r) \<and> snd r > 0 \<and> gkey (group_of ins (fst r)) \<in> K"
  shows "\<exists>ml' evs. append_lines xs sid ml = Some (ml', evs)
    \<and> (case join_run ins rs pend of (pend', out) \<Rightarrow> context_holds ins sid K pend' ml' \<and> list_all2 (record_event sid) out evs)"
  using h r c s
proof (induction xs arbitrary: ml pend rs)
  case Nil
  then show ?case by simp
next
  case (Cons x xs)
  obtain e tm l where x: "x = (e, tm, l)" by (cases x)
  from Cons.prems(2) obtain r rs' where r: "record_of ins x = Some r" "those (map (record_of ins) xs) = Some rs'" "rs = r # rs'"
    by (auto split: option.splits)
  have cx: "calm e" using Cons.prems(3) x by simp
  obtain ml1 ev1 where a: "flb_ml_append_text e sid tm l ml = Some (FLB_MULTILINE_OK, ml1, ev1)"
    "case join_step ins r pend of (pend', out) \<Rightarrow> context_holds ins sid K pend' ml1 \<and> list_all2 (record_event sid) out ev1"
    by (rule append_text_joins [OF j r(1) [unfolded x] _ _ Cons.prems(1) cx _ K]) (use Cons.prems(4) r(3) in auto)
  obtain pend1 out1 where js: "join_step ins r pend = (pend1, out1)" by (cases "join_step ins r pend")
  have "context_holds ins sid K pend1 ml1" using a(2) js by simp
  from Cons.IH [OF this r(2)] Cons.prems(3,4) r(3) obtain ml2 ev2 where
    b: "append_lines xs sid ml1 = Some (ml2, ev2)"
      "case join_run ins rs' pend1 of (pend', out) \<Rightarrow> context_holds ins sid K pend' ml2 \<and> list_all2 (record_event sid) out ev2" by auto
  then show ?case using a js x r(3) by (auto split: prod.splits intro: list_all2_appendI)
qed

text \<open>The names of groups that the records use, with the default group of the stream.\<close>

definition group_keys :: "flb_ml_parser_ins \<Rightarrow> record_at list \<Rightarrow> (nat \<times> cstring) set" where
  "group_keys ins rs = insert (gkey []) ((\<lambda>r. gkey (group_of ins (fst r))) ` set rs)"

text \<open>A context with one instance whose only stream is new.\<close>

definition idle_join :: "flb_ml_parser_ins \<Rightarrow> u64 \<Rightarrow> flb_ml \<Rightarrow> bool" where
  "idle_join ins sid ml \<longleftrightarrow>
     map gr_parsers (ml_groups ml) = [[ins]] \<and> map gr_lru_parser (ml_groups ml) = [None] \<and> pi_streams ins = [stream_create sid]"

lemma idle_join_holds:
  assumes "idle_join ins sid ml"
  shows "context_holds ins sid (group_keys ins rs) (\<lambda>_. []) ml"
proof -
  from assms obtain grp where g: "ml_groups ml = [grp]" "gr_parsers grp = [ins]" "gr_lru_parser grp = None" "pi_streams ins = [stream_create sid]"
    by (auto simp: idle_join_def map_eq_Cons_conv)
  have i: "ins = ins\<lparr>pi_streams := [stream_create sid], pi_last_stream_id := pi_last_stream_id ins\<rparr>" using g(4) by (cases ins) simp
  have "stream_holds ins (group_keys ins rs) (\<lambda>_. []) (stream_create sid)"
    by (simp add: stream_holds_def stream_create_def stream_group_create_def holds_def joined_text_def group_keys_def)
  moreover have "ms_id (stream_create sid) = sid" by (simp add: stream_create_def)
  ultimately show ?thesis unfolding context_holds_def using g(1-3) i by metis
qed

lemma record_events: "list_all2 (record_event sid) out evs \<Longrightarrow> map (\<lambda>ev. (fe_body ev, fe_time ev)) evs = out"
  by (induction rule: list_all2_induct) (auto simp: record_event_def)

section \<open>Records of containers\<close>


text \<open>Lines of the format of CRI in short: the output, the flag of a partial (P) or full (F) line, and the text.\<close>

definition parse_cri :: "cstring \<Rightarrow> (mmap \<times> nat) option" where
  "parse_cri l =
     (case l of
        st # p # t \<Rightarrow> Some ([(MStr ''stream'', MStr [st]), (MStr ''_p'', MStr [p]), (MStr ''log'', MStr t)], 7)
      | _ \<Rightarrow> None)"

definition cri_parser :: flb_ml_parser where
  "cri_parser = (empty_parser FLB_ML_EQ ''F'')
     \<lparr>pa_key_content := Some ''log'', pa_key_pattern := Some ''_p'', pa_key_group := Some ''stream'', pa_parser := Some parse_cri\<rparr>"

definition cri_ins :: flb_ml_parser_ins where
  "cri_ins = \<lparr>pi_ml_parser = cri_parser, pi_key_content = Some ''log'', pi_key_pattern = Some ''_p'', pi_key_group = Some ''stream'',
     pi_last_stream_id = 0, pi_streams = [stream_create 1]\<rparr>"

definition cri_lines :: "(ml_env \<times> nat \<times> cstring) list" where
  "cri_lines = [(good_env, 1, ''OPab''), (good_env, 2, ''EPx''), (good_env, 3, ''OFcd''), (good_env, 4, ''EFy''), (good_env, 5, ''OPz'')]"

definition cri_records :: "record_at list" where
  "cri_records = map (\<lambda>(e, tm, l). the (parse_cri l)) cri_lines"

lemma cri_idle: "idle_join cri_ins 1 (sample_context cri_parser limit)"
proof -
  have n: "strcasecmp_eq (pa_name cri_parser) ''SAMPLE''" by code_simp
  show ?thesis using sample_context_groups [OF n, of limit]
    by (simp add: idle_join_def cri_ins_def) (simp add: cri_parser_def)
qed

lemma cri_joins: "join_ins cri_ins"
  by (simp add: join_ins_def cri_ins_def cri_parser_def empty_parser_def)

lemma cri_records_of: "those (map (record_of cri_ins) cri_lines) = Some cri_records"
  by code_simp

lemma cri_suits: "\<forall>r \<in> set cri_records. suits cri_ins (fst r) \<and> snd r > 0"
  by code_simp

lemma cri_keys: "card (group_keys cri_ins cri_records) \<le> FLB_ML_MAX_GROUPS"
  by code_simp


section \<open>Limits of the code\<close>

text \<open>The buffers of a context.\<close>

definition pending_texts :: "flb_ml \<Rightarrow> cstring list" where
  "pending_texts ml = concat (map (\<lambda>g. concat (map (\<lambda>ins. concat (map (\<lambda>st. map sg_buf (ms_groups st)) (pi_streams ins))) (gr_parsers g)))
     (ml_groups ml))"

text \<open>A line shorter than the text that ends a message is dropped, and its caller is told that it was taken.\<close>

lemma short_line_dropped:
  "case flb_ml_append_text good_env 1 5 ''x'' (sample_context (empty_parser FLB_ML_ENDSWITH ''--'') 0) of
     Some (ret, ml, evs) \<Rightarrow> ret = FLB_MULTILINE_OK \<and> pending_texts ml = [[]] \<and> evs = []
   | None \<Rightarrow> False"
  by code_simp

text \<open>So is a line of a stream that was never created.\<close>

lemma unknown_stream_dropped:
  "case flb_ml_append_text good_env 9 5 ''x'' (sample_context (empty_parser FLB_ML_EQ ''--'') 0) of
     Some (ret, ml, evs) \<Rightarrow> ret = FLB_MULTILINE_OK \<and> pending_texts ml = [[]] \<and> evs = []
   | None \<Rightarrow> False"
  by code_simp

text \<open>With the default group a stream has six groups: for the sixth name of a group a NULL pointer is followed.\<close>

lemma too_many_groups_undefined:
  "append_lines (map (\<lambda>c. (good_env, 1, [c, CHR ''P''])) ''ABCDE'') 1 (sample_context cri_parser 0) \<noteq> None"
  "append_lines (map (\<lambda>c. (good_env, 1, [c, CHR ''P''])) ''ABCDEF'') 1 (sample_context cri_parser 0) = None"
  by code_simp+

text \<open>The limit on the buffer does not hold for the parsers that join records.\<close>

lemma joined_buffer_unlimited:
  "case append_lines [(good_env, 1, ''OPabcd''), (good_env, 1, ''OPabcd'')] 1 (sample_context cri_parser 2) of
     Some (ml, evs) \<Rightarrow> ml_buffer_limit ml = 2 \<and> pending_texts ml = [[], ''abcdabcd''] \<and> evs = []
   | None \<Rightarrow> False"
  by code_simp

text \<open>A parser of rules on the records of a filter.\<close>

definition log_parser :: flb_ml_parser where
  "log_parser = sample_parser\<lparr>pa_key_content := Some ''log''\<rparr>"

definition log_record :: "cstring \<Rightarrow> mobj" where
  "log_record l = MMap [(MStr ''log'', MStr l), (MStr ''host'', MStr ''h'')]"

text \<open>The first record of a message gives the other keys; when its text is over the limit they are lost.\<close>

lemma truncated_record_loses_keys:
  "case flb_ml_append_object good_env 1 5 None (log_record ''abcd'') (sample_context log_parser 2) of
     Some (ret, ml, evs) \<Rightarrow> (case flb_ml_flush_pending_now good_env ml of
        Some (ml', evs') \<Rightarrow> ret = FLB_MULTILINE_TRUNCATED \<and> evs = [] \<and> map fe_body evs' = [[(MStr ''log'', MStr ''ab'')]]
      | None \<Rightarrow> False)
   | None \<Rightarrow> False"
  "case flb_ml_append_object good_env 1 5 None (log_record ''abcd'') (sample_context log_parser 9) of
     Some (ret, ml, evs) \<Rightarrow> (case flb_ml_flush_pending_now good_env ml of
        Some (ml', evs') \<Rightarrow> ret = FLB_MULTILINE_OK \<and> evs = []
          \<and> map fe_body evs' = [[(MStr ''log'', MStr ''abcd''), (MStr ''host'', MStr ''h'')]]
      | None \<Rightarrow> False)
   | None \<Rightarrow> False"
  by code_simp+

text \<open>The metadata of the records of a message is cleared before it is read.\<close>

lemma metadata_discarded:
  "case flb_ml_append_object good_env 1 5 (Some [(MStr ''m'', MStr ''1'')]) (log_record ''abcd'') (sample_context log_parser 0) of
     Some (ret, ml, evs) \<Rightarrow> (case flb_ml_flush_pending_now good_env ml of
        Some (ml', evs') \<Rightarrow> map fe_metadata evs' = [[]]
      | None \<Rightarrow> False)
   | None \<Rightarrow> False"
  by code_simp

text \<open>A line that no rule takes leaves the rule of the message before it in place: the next line continues that message.\<close>

definition error_parser :: flb_ml_parser where
  "error_parser = sample_parser\<lparr>pa_regex_rules := map (\<lambda>r. if ru_start_state r then r\<lparr>ru_regex := starts_with (\<lambda>c. c = CHR ''E'')\<rparr> else r)
     (pa_regex_rules sample_parser)\<rparr>"

lemma broken_sequence_continues:
  "case append_lines [(good_env, 1, ''Error''), (good_env, 2, ''zz''), (good_env, 3, '' at x''), (good_env, 4, '' at y'')] 1
      (sample_context error_parser 0) of
     Some (ml, evs) \<Rightarrow> map event_text evs = [''Error'' @ [NL], ''zz'' @ [NL]] \<and> pending_texts ml = ['' at x'' @ [NL] @ '' at y'']
   | None \<Rightarrow> False"
  by code_simp

end
